(* ===== verification/Prelude.thy ===== *)
theory Prelude
  imports Main "HOL-Library.Word" "HOL-Library.Multiset"
begin

text \<open>
  Shared vocabulary of the development: the fixed-width integer types of
  \<^verbatim>\<open>src/kernel/include/lib/ktypes.h\<close>, little-endian access to byte buffers (the C code
  overlays packed structs on \<^verbatim>\<open>u8[512]\<close> buffers), the error-and-state shape of a C function
  that returns an error code, and generic lemmas on lists, functions and words that the
  component theories share.
\<close>

unbundle bit_operations_syntax

section \<open>Types\<close>

type_synonym u8 = "8 word"
type_synonym u16 = "16 word"
type_synonym u32 = "32 word"
type_synonym u64 = "64 word"
type_synonym bytes = "u8 list"

text \<open>What happens instead of returning: \<^verbatim>\<open>panic()\<close>, a null dereference, an access outside an array, a
  loop that never ends, and an access to an address without translation.\<close>

datatype fault = Panic | NullDeref | OutOfBounds | NoReturn | PageFault

section \<open>Fact collections\<close>

named_theorems frame_simps \<open>reads that an update elsewhere does not change\<close>
named_theorems field_simps32 \<open>reading back a little-endian field that was just stored\<close>
named_theorems run_simps \<open>unfolding the sequencing of C calls that return an error code\<close>

section \<open>Calls that return an error code\<close>

text \<open>
  A C function that returns an \<^verbatim>\<open>int\<close> error code, writes its results through pointers and
  changes a state \<open>'s\<close> is a function from the state to either the nonzero code it returned
  (\<open>Inl\<close>) or its results (\<open>Inr\<close>), together with the state it leaves behind; the state after a
  failure is kept, since the code keeps the writes made before the failing call.
  \<open>ebind\<close> is the idiom \<^verbatim>\<open>err = f(); if (err) return err; ...\<close>.
\<close>

type_synonym ('s, 'a) cm = "'s \<Rightarrow> (int + 'a) \<times> 's"

definition ebind :: "('s, 'a) cm \<Rightarrow> ('a \<Rightarrow> ('s, 'b) cm) \<Rightarrow> ('s, 'b) cm" where
  "ebind m f = (\<lambda>s. case m s of (Inl e, s') \<Rightarrow> (Inl e, s') | (Inr x, s') \<Rightarrow> f x s')"

definition ereturn :: "'a \<Rightarrow> ('s, 'a) cm" where
  "ereturn x = (\<lambda>s. (Inr x, s))"

definition ethrow :: "int \<Rightarrow> ('s, 'a) cm" where
  "ethrow e = (\<lambda>s. (Inl e, s))"

definition eget :: "('s \<Rightarrow> 'a) \<Rightarrow> ('s, 'a) cm" where
  "eget f = (\<lambda>s. (Inr (f s), s))"

definition emodify :: "('s \<Rightarrow> 's) \<Rightarrow> ('s, unit) cm" where
  "emodify f = (\<lambda>s. (Inr (), f s))"

lemma ebind_Inl [simp]: "m s = (Inl e, s') \<Longrightarrow> ebind m f s = (Inl e, s')"
  by (simp add: ebind_def)

lemma ebind_Inr [simp]: "m s = (Inr x, s') \<Longrightarrow> ebind m f s = f x s'"
  by (simp add: ebind_def)

lemma ebind_ereturn [simp]: "ebind (ereturn x) f = f x"
  by (simp add: ebind_def ereturn_def)

lemma ebind_ethrow [simp]: "ebind (ethrow e) f = ethrow e"
  by (simp add: ebind_def ethrow_def)

lemma ebind_eget [simp]: "ebind (eget g) f s = f (g s) s"
  by (simp add: ebind_def eget_def)

lemma ebind_emodify [simp]: "ebind (emodify g) f s = f () (g s)"
  by (simp add: ebind_def emodify_def)

lemma ebind_assoc: "ebind (ebind m f) g = ebind m (\<lambda>x. ebind (f x) g)"
  by (rule ext) (auto simp: ebind_def split: prod.splits sum.splits)

lemma ebind_Inr_E:
  assumes "ebind m f s = (Inr y, t)"
  obtains x s' where "m s = (Inr x, s')" and "f x s' = (Inr y, t)"
  using assms by (auto simp: ebind_def split: prod.splits sum.splits)

lemma ebind_cases:
  assumes "ebind m f s = (r, t)"
  obtains (Err) e where "m s = (Inl e, t)" and "r = Inl e"
  | (Ok) x s' where "m s = (Inr x, s')" and "f x s' = (r, t)"
  using assms by (auto simp: ebind_def split: prod.splits sum.splits)

lemmas [run_simps] = ebind_Inl ebind_Inr ereturn_def ethrow_def eget_def emodify_def

section \<open>Calls that may stop the machine\<close>

text \<open>
  Code that follows pointers between kernel objects either stops the machine (\<open>Inl\<close> the fault) or
  returns a value with the state it leaves.
\<close>

type_synonym ('s, 'a) km = "'s \<Rightarrow> fault + 'a \<times> 's"

definition kbind :: "('s, 'a) km \<Rightarrow> ('a \<Rightarrow> ('s, 'b) km) \<Rightarrow> ('s, 'b) km" where
  "kbind m f = (\<lambda>s. case m s of Inl e \<Rightarrow> Inl e | Inr (x, s') \<Rightarrow> f x s')"

definition kreturn :: "'a \<Rightarrow> ('s, 'a) km" where
  "kreturn x = (\<lambda>s. Inr (x, s))"

definition kfault :: "fault \<Rightarrow> ('s, 'a) km" where
  "kfault e = (\<lambda>s. Inl e)"

definition kget :: "('s \<Rightarrow> 'a) \<Rightarrow> ('s, 'a) km" where
  "kget f = (\<lambda>s. Inr (f s, s))"

definition kmodify :: "('s \<Rightarrow> 's) \<Rightarrow> ('s, unit) km" where
  "kmodify f = (\<lambda>s. Inr ((), f s))"

text \<open>Following a pointer: there must be an object.\<close>

definition kderef :: "('s \<Rightarrow> nat \<rightharpoonup> 'a) \<Rightarrow> nat \<Rightarrow> ('s, 'a) km" where
  "kderef h a = (\<lambda>s. case h s a of None \<Rightarrow> Inl NullDeref | Some x \<Rightarrow> Inr (x, s))"

lemma kbind_Inl [simp]: "m s = Inl e \<Longrightarrow> kbind m f s = Inl e"
  by (simp add: kbind_def)

lemma kbind_Inr [simp]: "m s = Inr (x, s') \<Longrightarrow> kbind m f s = f x s'"
  by (simp add: kbind_def)

lemma kbind_kreturn [simp]: "kbind (kreturn x) f = f x"
  by (simp add: kbind_def kreturn_def)

lemma kbind_kget [simp]: "kbind (kget g) f s = f (g s) s"
  by (simp add: kbind_def kget_def)

lemma kbind_kmodify [simp]: "kbind (kmodify g) f s = f () (g s)"
  by (simp add: kbind_def kmodify_def)

lemma kreturn_Inr [simp]: "kreturn x s = Inr (y, s') \<longleftrightarrow> y = x \<and> s' = s"
  by (auto simp: kreturn_def)

lemma kfault_Inr [simp]: "kfault e s \<noteq> Inr r"
  by (simp add: kfault_def)

lemma kmodify_Inr [simp]: "kmodify f s = Inr (u, s') \<longleftrightarrow> s' = f s"
  by (auto simp: kmodify_def)

lemma kget_Inr [simp]: "kget f s = Inr (x, s') \<longleftrightarrow> x = f s \<and> s' = s"
  by (auto simp: kget_def)

lemma kderef_Inr [simp]: "kderef h a s = Inr (x, s') \<longleftrightarrow> h s a = Some x \<and> s' = s"
  by (auto simp: kderef_def split: option.splits)

lemma kbind_kderef [simp]: "h s a = Some x \<Longrightarrow> kbind (kderef h a) f s = f x s"
  by (simp add: kbind_def kderef_def)

lemma kbind_Inr_iff: "kbind m f s = Inr r \<longleftrightarrow> (\<exists>x s1. m s = Inr (x, s1) \<and> f x s1 = Inr r)"
  by (auto simp: kbind_def split: sum.splits prod.splits)

lemma kbind_Inr_E:
  assumes "kbind m f s = Inr r"
  obtains x s1 where "m s = Inr (x, s1)" and "f x s1 = Inr r"
  using assms by (auto simp: kbind_Inr_iff)

section \<open>Little-endian fields of a byte buffer\<close>

text \<open>The x86-64 target is little-endian, so a \<^verbatim>\<open>u16\<close> or \<^verbatim>\<open>u32\<close> member at byte offset
  \<open>i\<close> of a packed struct is the following value of the underlying bytes.\<close>

definition get_u16 :: "bytes \<Rightarrow> nat \<Rightarrow> u16" where
  "get_u16 b i = ucast (b ! i) OR push_bit 8 (ucast (b ! (i + 1)))"

definition get_u32 :: "bytes \<Rightarrow> nat \<Rightarrow> u32" where
  "get_u32 b i = ucast (b ! i) OR push_bit 8 (ucast (b ! (i + 1)))
     OR push_bit 16 (ucast (b ! (i + 2))) OR push_bit 24 (ucast (b ! (i + 3)))"

definition put_u16 :: "bytes \<Rightarrow> nat \<Rightarrow> u16 \<Rightarrow> bytes" where
  "put_u16 b i v = b[i := ucast v, i + 1 := ucast (drop_bit 8 v)]"

definition put_u32 :: "bytes \<Rightarrow> nat \<Rightarrow> u32 \<Rightarrow> bytes" where
  "put_u32 b i v = b[i := ucast v, i + 1 := ucast (drop_bit 8 v),
     i + 2 := ucast (drop_bit 16 v), i + 3 := ucast (drop_bit 24 v)]"

text \<open>Copying a run of bytes into a buffer (\<^verbatim>\<open>memcpy\<close> into an array member).\<close>

fun put_bytes :: "bytes \<Rightarrow> nat \<Rightarrow> bytes \<Rightarrow> bytes" where
  "put_bytes b i [] = b"
| "put_bytes b i (x # xs) = put_bytes (b[i := x]) (Suc i) xs"

definition get_bytes :: "bytes \<Rightarrow> nat \<Rightarrow> nat \<Rightarrow> bytes" where
  "get_bytes b i n = take n (drop i b)"

lemma length_put_u16 [simp]: "length (put_u16 b i v) = length b"
  by (simp add: put_u16_def)

lemma length_put_u32 [simp]: "length (put_u32 b i v) = length b"
  by (simp add: put_u32_def)

lemma length_put_bytes [simp]: "length (put_bytes b i xs) = length b"
  by (induction b i xs rule: put_bytes.induct) simp_all

lemma word_take_bit_self: "unat w < 2 ^ k \<Longrightarrow> take_bit k w = w" for w :: "'a::len word"
  by (simp add: word_unat_eq_iff unsigned_take_bit_eq take_bit_nat_eq_self)

lemma and_lit_take_bit:
  "w AND 0x0fffffff = take_bit 28 w" "v AND 0xf = take_bit 4 v" for w :: u32 and v :: u8
  by (simp_all add: take_bit_eq_mask mask_eq_exp_minus_1)

lemma less_32_cases:
  assumes "n < (32::nat)"
  obtains "n < 8" | "8 \<le> n" "n < 16" | "16 \<le> n" "n < 24" | "24 \<le> n" "n < 32"
  using assms by linarith

lemma get_put_u16 [simp, field_simps32]:
  assumes "i + 1 < length b"
  shows "get_u16 (put_u16 b i v) i = v"
proof (rule bit_word_eqI)
  fix n assume "n < LENGTH(16)"
  then show "bit (get_u16 (put_u16 b i v) i) n = bit v n"
    using assms by (cases "n < 8") (auto simp: get_u16_def put_u16_def nth_list_update bit_simps)
qed

lemma get_put_u32 [simp, field_simps32]:
  assumes "i + 3 < length b"
  shows "get_u32 (put_u32 b i v) i = v"
proof (rule bit_word_eqI)
  fix n assume "n < LENGTH(32)"
  then have "n < 32" by simp
  then show "bit (get_u32 (put_u32 b i v) i) n = bit v n"
    using assms
    by (cases rule: less_32_cases) (auto simp: get_u32_def put_u32_def nth_list_update bit_simps)
qed

lemma get_u32_put_u32_other [simp, frame_simps]:
  assumes "i + 4 \<le> j \<or> j + 4 \<le> i"
  shows "get_u32 (put_u32 b i v) j = get_u32 b j"
proof -
  have "put_u32 b i v ! k = b ! k" if "k < i \<or> i + 4 \<le> k" for k
    using that by (auto simp: put_u32_def)
  with assms show ?thesis by (auto simp: get_u32_def)
qed

lemma put_bytes_nth:
  "put_bytes b i xs ! k =
     (if i \<le> k \<and> k < i + length xs \<and> k < length b then xs ! (k - i) else b ! k)"
proof (induction b i xs arbitrary: k rule: put_bytes.induct)
  case (1 b i)
  then show ?case by auto
next
  case (2 b i x xs)
  then show ?case
    by (cases "k = i") (auto simp: list_update_beyond nth_Cons' nth_list_update Suc_diff_Suc)
qed

lemma get_put_bytes [simp]:
  assumes "i + length xs \<le> length b"
  shows "get_bytes (put_bytes b i xs) i (length xs) = xs"
  using assms by (intro nth_equalityI) (auto simp: get_bytes_def put_bytes_nth)

end
