(* ===== verification/LinkedList.thy ===== *)
theory LinkedList
  imports Prelude
begin

text \<open>
  The intrusive circular doubly linked list of \<^verbatim>\<open>src/kernel/src/base/linkedlist.c\<close> and
  \<^verbatim>\<open>src/kernel/include/base/linkedlist.h\<close>, which every kernel queue uses (buddy free lists,
  VM areas, slab caches, the run queue, event queues).  A node is an address of any type
  \<open>'a\<close>; the heap of links is a pair of functions \<open>next\<close> and \<open>prev\<close>.  The operations are
  transcribed as sequences of pointer stores, and each is shown to implement an operation on
  the abstract list of entries.
\<close>

section \<open>The operations\<close>

record 'a links =
  lnext :: "'a \<Rightarrow> 'a"
  lprev :: "'a \<Rightarrow> 'a"

abbreviation set_next :: "'a \<Rightarrow> 'a \<Rightarrow> 'a links \<Rightarrow> 'a links" where
  "set_next p v l \<equiv> l\<lparr>lnext := (lnext l)(p := v)\<rparr>"

abbreviation set_prev :: "'a \<Rightarrow> 'a \<Rightarrow> 'a links \<Rightarrow> 'a links" where
  "set_prev p v l \<equiv> l\<lparr>lprev := (lprev l)(p := v)\<rparr>"

definition dlist_init :: "'a \<Rightarrow> 'a links \<Rightarrow> 'a links" where
  "dlist_init h l = set_next h h (set_prev h h l)"

definition dlist_is_empty :: "'a \<Rightarrow> 'a links \<Rightarrow> bool" where
  "dlist_is_empty h l \<longleftrightarrow> h = lnext l h \<and> h = lprev l h"

definition dlist_remove_entry :: "'a \<Rightarrow> 'a links \<Rightarrow> 'a links" where
  "dlist_remove_entry e l =
     (let p = lprev l e; n = lnext l e;
          l1 = set_next p n l;
          l2 = set_prev n p l1;
          l3 = set_prev e e l2
      in set_next e e l3)"

definition dlist_add_prev :: "'a \<Rightarrow> 'a \<Rightarrow> 'a links \<Rightarrow> 'a links" where
  "dlist_add_prev h e l =
     (let l1 = set_next e h l;
          l2 = set_prev e (lprev l1 h) l1;
          l3 = set_next (lprev l2 e) e l2
      in set_prev (lnext l3 e) e l3)"

definition dlist_add_next :: "'a \<Rightarrow> 'a \<Rightarrow> 'a links \<Rightarrow> 'a links" where
  "dlist_add_next h e l =
     (let l1 = set_prev e h l;
          l2 = set_next e (lnext l1 h) l1;
          l3 = set_prev (lnext l2 e) e l2
      in set_next (lprev l3 e) e l3)"

text \<open>The out-parameter \<^verbatim>\<open>entry\<close> of the next four functions is a pointer to a pointer: the
  flag \<open>out\<close> says whether the caller passed a non-null one, and the result \<open>None\<close> is the null
  stored through it.\<close>

definition dlist_remove_prev :: "'a \<Rightarrow> bool \<Rightarrow> 'a links \<Rightarrow> 'a option \<times> 'a links" where
  "dlist_remove_prev h out l =
     (if \<not> out then (None, l)
      else let t = lprev l h
           in if t = h then (None, l)
              else let l1 = set_prev h (lprev l t) l;
                       l2 = set_next (lprev l1 t) h l1;
                       l3 = set_next t t l2
                   in (Some t, set_prev t t l3))"

definition dlist_remove_next :: "'a \<Rightarrow> bool \<Rightarrow> 'a links \<Rightarrow> 'a option \<times> 'a links" where
  "dlist_remove_next h out l =
     (if \<not> out then (None, l)
      else let t = lnext l h
           in if t = h then (None, l)
              else let l1 = set_next h (lnext l t) l;
                       l2 = set_prev (lnext l1 t) h l1;
                       l3 = set_next t t l2
                   in (Some t, set_prev t t l3))"

definition dlist_get_prev :: "'a \<Rightarrow> bool \<Rightarrow> 'a links \<Rightarrow> 'a option" where
  "dlist_get_prev h out l =
     (if \<not> out then None else let t = lprev l h in if t = h then None else Some t)"

definition dlist_get_next :: "'a \<Rightarrow> bool \<Rightarrow> 'a links \<Rightarrow> 'a option" where
  "dlist_get_next h out l =
     (if \<not> out then None else let t = lnext l h in if t = h then None else Some t)"

text \<open>\<^verbatim>\<open>dlist_foreach\<close> and \<^verbatim>\<open>dlist_foreach_prev\<close>: the entries visited, in order.  The loop stops when it is back
  at the head, which a corrupted list need not reach, so the walk may have no result.\<close>

partial_function (option) dlist_foreach_from :: "'a \<Rightarrow> 'a links \<Rightarrow> 'a \<Rightarrow> 'a list option" where
  "dlist_foreach_from h l e =
     (if e = h then Some []
      else Option.bind (dlist_foreach_from h l (lnext l e)) (\<lambda>xs. Some (e # xs)))"

definition dlist_foreach :: "'a \<Rightarrow> 'a links \<Rightarrow> 'a list option" where
  "dlist_foreach h l = dlist_foreach_from h l (lnext l h)"

partial_function (option) dlist_foreach_prev_from :: "'a \<Rightarrow> 'a links \<Rightarrow> 'a \<Rightarrow> 'a list option" where
  "dlist_foreach_prev_from h l e =
     (if e = h then Some []
      else Option.bind (dlist_foreach_prev_from h l (lprev l e)) (\<lambda>xs. Some (e # xs)))"

definition dlist_foreach_prev :: "'a \<Rightarrow> 'a links \<Rightarrow> 'a list option" where
  "dlist_foreach_prev h l = dlist_foreach_prev_from h l (lprev l h)"

section \<open>The abstract list of a ring of links\<close>

fun seg :: "('a \<Rightarrow> 'a) \<Rightarrow> ('a \<Rightarrow> 'a) \<Rightarrow> 'a \<Rightarrow> 'a list \<Rightarrow> 'a \<Rightarrow> bool" where
  "seg N P a [] b \<longleftrightarrow> N a = b \<and> P b = a"
| "seg N P a (x # xs) b \<longleftrightarrow> N a = x \<and> P x = a \<and> seg N P x xs b"

definition is_dlist :: "'a links \<Rightarrow> 'a \<Rightarrow> 'a list \<Rightarrow> bool" where
  "is_dlist l h xs \<longleftrightarrow> distinct (h # xs) \<and> seg (lnext l) (lprev l) h xs h"

lemma seg_append [simp]: "seg N P a (xs @ y # ys) b \<longleftrightarrow> seg N P a xs y \<and> seg N P y ys b"
  by (induction xs arbitrary: a) auto

lemma seg_upd_next [simp, frame_simps]:
  "c \<noteq> a \<Longrightarrow> c \<notin> set xs \<Longrightarrow> seg (N(c := v)) P a xs b = seg N P a xs b"
  by (induction xs arbitrary: a) auto

lemma seg_upd_prev [simp, frame_simps]:
  "c \<noteq> b \<Longrightarrow> c \<notin> set xs \<Longrightarrow> seg N (P(c := v)) a xs b = seg N P a xs b"
  by (induction xs arbitrary: a) auto

lemma seg_first: "seg N P a xs b \<Longrightarrow> N a = (case xs of [] \<Rightarrow> b | x # _ \<Rightarrow> x)"
  by (cases xs) auto

lemma seg_last: "seg N P a xs b \<Longrightarrow> P b = (if xs = [] then a else last xs)"
  by (induction xs arbitrary: a) auto

text \<open>Only the links of the nodes of a ring matter to it.\<close>

lemma seg_cong:
  assumes "\<And>x. x = a \<or> x \<in> set xs \<Longrightarrow> N x = N' x"
    and "\<And>x. x = b \<or> x \<in> set xs \<Longrightarrow> P x = P' x"
  shows "seg N P a xs b = seg N' P' a xs b"
  using assms by (induction xs arbitrary: a) auto

lemma is_dlist_cong:
  assumes "\<And>x. x = h \<or> x \<in> set xs \<Longrightarrow> lnext l x = lnext l' x \<and> lprev l x = lprev l' x"
  shows "is_dlist l h xs = is_dlist l' h xs"
  using seg_cong [of h xs "lnext l" "lnext l'" h "lprev l" "lprev l'"] assms
  by (auto simp: is_dlist_def)

lemma seg_unique:
  "seg N P a xs b \<Longrightarrow> seg N P a ys b \<Longrightarrow> b \<notin> set xs \<Longrightarrow> b \<notin> set ys \<Longrightarrow> xs = ys"
proof (induction xs arbitrary: a ys)
  case Nil
  then show ?case by (cases ys) auto
next
  case (Cons x xs)
  then show ?case by (cases ys) auto
qed

lemma is_dlist_unique: "is_dlist l h xs \<Longrightarrow> is_dlist l h ys \<Longrightarrow> xs = ys"
  by (auto simp: is_dlist_def intro: seg_unique)

lemma is_dlist_distinct: "is_dlist l h xs \<Longrightarrow> distinct xs \<and> (\<forall>x\<in>set xs. x \<noteq> h)"
  by (auto simp: is_dlist_def)

section \<open>Each operation implements its list operation\<close>

lemma dlist_init_is_dlist: "is_dlist (dlist_init h l) h []"
  by (simp add: is_dlist_def dlist_init_def)

lemma dlist_is_empty_iff: "is_dlist l h xs \<Longrightarrow> dlist_is_empty h l \<longleftrightarrow> xs = []"
  by (cases xs) (auto simp: is_dlist_def dlist_is_empty_def)

lemma dlist_add_next_head:
  assumes "is_dlist l h xs" and "e \<noteq> h" and "e \<notin> set xs"
  shows "is_dlist (dlist_add_next h e l) h (e # xs)"
  using assms by (cases xs) (auto simp: is_dlist_def dlist_add_next_def Let_def)

lemma dlist_add_next_entry:
  assumes "is_dlist l h (xs @ p # ys)" and "e \<noteq> h" and "e \<notin> set (xs @ p # ys)"
  shows "is_dlist (dlist_add_next p e l) h (xs @ p # e # ys)"
  using assms by (cases ys) (auto simp: is_dlist_def dlist_add_next_def Let_def)

lemma dlist_add_prev_head:
  assumes "is_dlist l h xs" and "e \<noteq> h" and "e \<notin> set xs"
  shows "is_dlist (dlist_add_prev h e l) h (xs @ [e])"
proof (cases xs rule: rev_cases)
  case Nil
  with assms show ?thesis by (auto simp: is_dlist_def dlist_add_prev_def Let_def)
next
  case (snoc ys y)
  with assms show ?thesis by (auto simp: is_dlist_def dlist_add_prev_def Let_def)
qed

lemma dlist_remove_entry_middle:
  assumes "is_dlist l h (xs @ e # ys)"
  shows "is_dlist (dlist_remove_entry e l) h (xs @ ys)"
proof (cases xs rule: rev_cases)
  case Nil
  with assms show ?thesis
    by (cases ys) (auto simp: is_dlist_def dlist_remove_entry_def Let_def)
next
  case (snoc zs z)
  with assms show ?thesis
    by (cases ys) (auto simp: is_dlist_def dlist_remove_entry_def Let_def)
qed

lemma dlist_remove_entry_self: "is_dlist (dlist_remove_entry e l) e []"
  by (simp add: is_dlist_def dlist_remove_entry_def Let_def)

lemma dlist_remove_entry_remove1:
  assumes "is_dlist l h xs" and "e \<in> set xs"
  shows "is_dlist (dlist_remove_entry e l) h (remove1 e xs)"
proof -
  from assms(2) obtain ys zs where xs: "xs = ys @ e # zs" and "e \<notin> set ys"
    by (meson split_list_first)
  then have "remove1 e xs = ys @ zs" by (simp add: remove1_append)
  with assms(1) xs show ?thesis by (simp add: dlist_remove_entry_middle)
qed

lemma dlist_remove_next_Nil:
  "is_dlist l h [] \<Longrightarrow> dlist_remove_next h True l = (None, l)"
  by (simp add: is_dlist_def dlist_remove_next_def)

lemma dlist_remove_next_Cons:
  assumes "is_dlist l h (x # xs)"
  shows "dlist_remove_next h True l = (Some x, snd (dlist_remove_next h True l))"
    and "is_dlist (snd (dlist_remove_next h True l)) h xs"
  using assms by (cases xs; auto simp: is_dlist_def dlist_remove_next_def Let_def)+

lemma dlist_remove_prev_Nil:
  "is_dlist l h [] \<Longrightarrow> dlist_remove_prev h True l = (None, l)"
  by (simp add: is_dlist_def dlist_remove_prev_def)

lemma dlist_remove_prev_snoc:
  assumes "is_dlist l h (xs @ [x])"
  shows "dlist_remove_prev h True l = (Some x, snd (dlist_remove_prev h True l))"
    and "is_dlist (snd (dlist_remove_prev h True l)) h xs"
  using assms
  by (cases xs rule: rev_cases; auto simp: is_dlist_def dlist_remove_prev_def Let_def)+

lemma dlist_get_next_eq:
  "is_dlist l h xs \<Longrightarrow> dlist_get_next h True l = (case xs of [] \<Rightarrow> None | x # _ \<Rightarrow> Some x)"
  by (cases xs) (auto simp: is_dlist_def dlist_get_next_def Let_def)

lemma dlist_get_prev_eq:
  "is_dlist l h xs \<Longrightarrow> dlist_get_prev h True l = (if xs = [] then None else Some (last xs))"
  by (cases xs rule: rev_cases) (auto simp: is_dlist_def dlist_get_prev_def Let_def)

text \<open>A \<^verbatim>\<open>dlist_foreach\<close> over a well-formed list ends and visits the entries once each, in order.\<close>

lemma dlist_foreach_from_seg:
  "seg (lnext l) (lprev l) a xs h \<Longrightarrow> h \<notin> set xs \<Longrightarrow> dlist_foreach_from h l (lnext l a) = Some xs"
proof (induction xs arbitrary: a)
  case Nil
  then show ?case by (simp add: dlist_foreach_from.simps)
next
  case (Cons x xs)
  then show ?case by (subst dlist_foreach_from.simps) auto
qed

lemma dlist_foreach_eq: "is_dlist l h xs \<Longrightarrow> dlist_foreach h l = Some xs"
  by (auto simp: is_dlist_def dlist_foreach_def intro: dlist_foreach_from_seg)

lemma dlist_foreach_prev_from_seg:
  "seg (lnext l) (lprev l) h xs b \<Longrightarrow> h \<notin> set xs \<Longrightarrow> dlist_foreach_prev_from h l (lprev l b) = Some (rev xs)"
proof (induction xs arbitrary: b rule: rev_induct)
  case Nil
  then show ?case by (simp add: dlist_foreach_prev_from.simps)
next
  case (snoc x xs)
  then show ?case by (subst dlist_foreach_prev_from.simps) auto
qed

lemma dlist_foreach_prev_eq: "is_dlist l h xs \<Longrightarrow> dlist_foreach_prev h l = Some (rev xs)"
  by (auto simp: is_dlist_def dlist_foreach_prev_def intro: dlist_foreach_prev_from_seg)

section \<open>Other lists are not disturbed\<close>

definition same_links :: "'a set \<Rightarrow> 'a links \<Rightarrow> 'a links \<Rightarrow> bool" where
  "same_links A l l' \<longleftrightarrow> (\<forall>x\<in>A. lnext l' x = lnext l x \<and> lprev l' x = lprev l x)"

lemma is_dlist_same_links:
  "same_links (insert g (set ys)) l l' \<Longrightarrow> is_dlist l g ys \<Longrightarrow> is_dlist l' g ys"
  by (subst is_dlist_cong [of g ys l' l]) (auto simp: same_links_def)

lemma same_links_mono: "same_links A l l' \<Longrightarrow> B \<subseteq> A \<Longrightarrow> same_links B l l'"
  by (auto simp: same_links_def)

lemma is_dlist_ends:
  assumes "is_dlist l h xs"
  shows "lnext l h \<in> insert h (set xs)" and "lprev l h \<in> insert h (set xs)"
  using assms seg_first [of "lnext l" "lprev l" h xs h] seg_last [of "lnext l" "lprev l" h xs h] last_in_set [of xs]
  by (auto simp: is_dlist_def split: list.splits)

lemma is_dlist_neighbours:
  assumes "is_dlist l h xs" and "e \<in> set xs"
  shows "lnext l e \<in> insert h (set xs)" and "lprev l e \<in> insert h (set xs)"
proof -
  from assms(2) obtain ys zs where xs: "xs = ys @ e # zs" by (meson split_list)
  with assms(1) have "seg (lnext l) (lprev l) h ys e" and "seg (lnext l) (lprev l) e zs h" by (auto simp: is_dlist_def)
  with xs seg_first [of "lnext l" "lprev l" e zs h] seg_last [of "lnext l" "lprev l" h ys e] last_in_set [of ys]
  show "lnext l e \<in> insert h (set xs)" and "lprev l e \<in> insert h (set xs)"
    by (auto split: list.splits)
qed

lemma dlist_add_next_same:
  "is_dlist l h xs \<Longrightarrow> same_links (- insert e (insert h (set xs))) l (dlist_add_next h e l)"
  using is_dlist_ends(1) [of l h xs] by (auto simp: same_links_def dlist_add_next_def Let_def)

lemma dlist_add_prev_same:
  "is_dlist l h xs \<Longrightarrow> same_links (- insert e (insert h (set xs))) l (dlist_add_prev h e l)"
  using is_dlist_ends(2) [of l h xs] by (auto simp: same_links_def dlist_add_prev_def Let_def)

text \<open>Insertion into the gap between \<open>xs\<close> and \<open>ys\<close>, from the node in front of it and from the node behind it.\<close>

lemma dlist_add_next_at:
  assumes "is_dlist l h (xs @ ys)" and "e \<noteq> h" and "e \<notin> set (xs @ ys)"
  shows "is_dlist (dlist_add_next (if xs = [] then h else last xs) e l) h (xs @ e # ys)"
proof (cases xs rule: rev_cases)
  case Nil
  then show ?thesis using dlist_add_next_head [of l h ys e] assms by simp
next
  case (snoc xs' p)
  then show ?thesis using dlist_add_next_entry [of l h xs' p ys e] assms by simp
qed

lemma gap_links:
  assumes "is_dlist l h (xs @ ys)"
  defines "p \<equiv> if xs = [] then h else last xs" and "q \<equiv> if ys = [] then h else hd ys"
  shows "lnext l p = q" and "lprev l q = p"
  using assms(1) by (cases xs rule: rev_cases; cases ys; auto simp: is_dlist_def p_def q_def)+

lemma dlist_add_prev_next:
  assumes "is_dlist l h (xs @ ys)" and "e \<noteq> h" and "e \<notin> set (xs @ ys)"
  shows "dlist_add_prev (if ys = [] then h else hd ys) e l = dlist_add_next (if xs = [] then h else last xs) e l"
proof -
  let ?p = "if xs = [] then h else last xs" and ?q = "if ys = [] then h else hd ys"
  have "e \<noteq> ?p" "e \<noteq> ?q" using assms(2,3) last_in_set [of xs] hd_in_set [of ys] by auto
  then show ?thesis using gap_links [OF assms(1)] unfolding dlist_add_prev_def dlist_add_next_def Let_def by (simp add: fun_upd_twist)
qed

lemma dlist_add_next_at_same:
  assumes "is_dlist l h (xs @ ys)"
  shows "same_links (- insert e (insert h (set (xs @ ys)))) l (dlist_add_next (if xs = [] then h else last xs) e l)"
proof -
  let ?p = "if xs = [] then h else last xs" and ?q = "if ys = [] then h else hd ys"
  have "?p \<in> insert h (set (xs @ ys))" "?q \<in> insert h (set (xs @ ys))" by auto
  then show ?thesis using gap_links(1) [OF assms] by (auto simp: same_links_def dlist_add_next_def Let_def)
qed

lemma dlist_remove_entry_same:
  "is_dlist l h xs \<Longrightarrow> e \<in> set xs \<Longrightarrow>
     same_links (- insert h (set xs)) l (dlist_remove_entry e l)"
  using is_dlist_neighbours [of l h xs e]
  by (auto simp: same_links_def dlist_remove_entry_def Let_def)

lemma dlist_remove_next_same:
  assumes "is_dlist l h xs"
  shows "same_links (- insert h (set xs)) l (snd (dlist_remove_next h True l))"
proof (cases xs)
  case Nil
  with assms show ?thesis by (simp add: dlist_remove_next_Nil same_links_def)
next
  case (Cons x ys)
  with assms show ?thesis
    by (cases ys) (auto simp: is_dlist_def same_links_def dlist_remove_next_def Let_def)
qed

section \<open>The queue interface the kernel builds on the list\<close>

text \<open>\<open>pop_n pop n s\<close> calls \<open>pop\<close> up to \<open>n\<close> times and collects the entries it returns.\<close>

fun pop_n :: "('s \<Rightarrow> 'a option \<times> 's) \<Rightarrow> nat \<Rightarrow> 's \<Rightarrow> 'a list \<times> 's" where
  "pop_n pop 0 s = ([], s)"
| "pop_n pop (Suc n) s =
     (case pop s of
        (None, s') \<Rightarrow> ([], s')
      | (Some x, s') \<Rightarrow> (case pop_n pop n s' of (xs, s'') \<Rightarrow> (x # xs, s'')))"

locale entry_queue =
  fixes rep :: "'s \<Rightarrow> 'a list \<Rightarrow> bool"
    and is_entry :: "'a \<Rightarrow> bool"
    and push_back :: "'a \<Rightarrow> 's \<Rightarrow> 's"
    and push_front :: "'a \<Rightarrow> 's \<Rightarrow> 's"
    and unlink :: "'a \<Rightarrow> 's \<Rightarrow> 's"
    and pop_front :: "'s \<Rightarrow> 'a option \<times> 's"
    and walk :: "'s \<Rightarrow> 'a list option"
  assumes rep_distinct: "rep s xs \<Longrightarrow> distinct xs \<and> (\<forall>x\<in>set xs. is_entry x)"
    and push_back_rep: "rep s xs \<Longrightarrow> is_entry e \<Longrightarrow> e \<notin> set xs \<Longrightarrow> rep (push_back e s) (xs @ [e])"
    and push_front_rep: "rep s xs \<Longrightarrow> is_entry e \<Longrightarrow> e \<notin> set xs \<Longrightarrow> rep (push_front e s) (e # xs)"
    and unlink_rep: "rep s xs \<Longrightarrow> e \<in> set xs \<Longrightarrow> rep (unlink e s) (remove1 e xs)"
    and pop_front_Nil: "rep s [] \<Longrightarrow> pop_front s = (None, s)"
    and pop_front_Cons: "rep s (x # xs) \<Longrightarrow> fst (pop_front s) = Some x \<and> rep (snd (pop_front s)) xs"
    and walk_rep: "rep s xs \<Longrightarrow> walk s = Some xs"
begin

lemma rep_unique: "rep s xs \<Longrightarrow> rep s ys \<Longrightarrow> xs = ys"
  by (metis option.inject walk_rep)

lemma fold_push_back:
  "rep s xs \<Longrightarrow> distinct (xs @ es) \<Longrightarrow> \<forall>e\<in>set es. is_entry e \<Longrightarrow>
     rep (fold push_back es s) (xs @ es)"
proof (induction es arbitrary: s xs)
  case Nil
  then show ?case by simp
next
  case (Cons e es)
  then have "rep (push_back e s) (xs @ [e])" by (auto intro: push_back_rep)
  from Cons.IH [OF this] Cons.prems show ?case by simp
qed

lemma fold_push_front:
  "rep s xs \<Longrightarrow> distinct (xs @ es) \<Longrightarrow> \<forall>e\<in>set es. is_entry e \<Longrightarrow>
     rep (fold push_front es s) (rev es @ xs)"
proof (induction es arbitrary: s xs)
  case Nil
  then show ?case by simp
next
  case (Cons e es)
  then have "rep (push_front e s) (e # xs)" by (auto intro: push_front_rep)
  from Cons.IH [OF this] Cons.prems show ?case by simp
qed

lemma pop_n_rep:
  "rep s xs \<Longrightarrow> fst (pop_n pop_front n s) = take n xs \<and> rep (snd (pop_n pop_front n s)) (drop n xs)"
proof (induction n arbitrary: s xs)
  case 0
  then show ?case by simp
next
  case (Suc n)
  show ?case
  proof (cases xs)
    case Nil
    with Suc.prems show ?thesis by (simp add: pop_front_Nil)
  next
    case (Cons x ys)
    with Suc.prems pop_front_Cons [of s x ys] obtain s'
      where s': "pop_front s = (Some x, s')" "rep s' ys" by (metis prod.collapse)
    with Suc.IH [of s' ys] Cons show ?thesis by (auto split: prod.split)
  qed
qed

lemma push_pop_fifo:
  assumes "rep s []" and "distinct es" and "\<forall>e\<in>set es. is_entry e"
  shows "fst (pop_n pop_front (length es) (fold push_back es s)) = es"
  using pop_n_rep [of "fold push_back es s" es "length es"] fold_push_back [of s "[]" es] assms
  by simp

lemma push_pop_lifo:
  assumes "rep s []" and "distinct es" and "\<forall>e\<in>set es. is_entry e"
  shows "fst (pop_n pop_front (length es) (fold push_front es s)) = rev es"
  using pop_n_rep [of "fold push_front es s" "rev es" "length es"] fold_push_front [of s "[]" es] assms
  by simp

lemma unlink_push_back:
  assumes "rep s xs" and "is_entry e" and "e \<notin> set xs"
  shows "rep (unlink e (push_back e s)) xs"
  using unlink_rep [OF push_back_rep [OF assms], of e] assms(3)
  by (simp add: remove1_append)

end

interpretation dl: entry_queue "\<lambda>l xs. is_dlist l h xs" "\<lambda>e. e \<noteq> h" "dlist_add_prev h"
    "dlist_add_next h" dlist_remove_entry "dlist_remove_next h True" "dlist_foreach h"
  for h :: 'a
proof unfold_locales
  fix l :: "'a links" and x xs
  assume "is_dlist l h (x # xs)"
  then show "fst (dlist_remove_next h True l) = Some x \<and> is_dlist (snd (dlist_remove_next h True l)) h xs"
    using dlist_remove_next_Cons [of l h x xs] by (metis fst_conv)
qed (auto dest: is_dlist_distinct intro: dlist_add_prev_head dlist_add_next_head
      dlist_remove_entry_remove1 dlist_remove_next_Nil dlist_foreach_eq)

section \<open>Properties\<close>

text \<open>C30: Entries appended with \<^verbatim>\<open>dlist_add_prev\<close> to an initialised list come back from
  \<^verbatim>\<open>dlist_remove_next\<close> first in, first out.\<close>

theorem dlist_fifo:
  assumes "distinct es" and "h \<notin> set es"
  shows "fst (pop_n (dlist_remove_next h True) (length es) (fold (dlist_add_prev h) es (dlist_init h l))) = es"
  using assms by (intro dl.push_pop_fifo dlist_init_is_dlist) auto

theorem dlist_fifo_witness:
  "fst (pop_n (dlist_remove_next 0 True) (length [5, 2, 9 :: nat]) (fold (dlist_add_prev 0) [5, 2, 9]
      (dlist_init 0 \<lparr>lnext = (\<lambda>x. x), lprev = (\<lambda>x. x)\<rparr>))) = [5, 2, 9 :: nat]"
  by (rule dlist_fifo) simp_all

text \<open>C31: Unlinking an entry removes exactly it from its list, leaves it a valid empty list of its
  own, and leaves every list that shares no node with that list as it was.\<close>

theorem dlist_remove_entry_refines:
  assumes "is_dlist l h xs" and "e \<in> set xs"
  shows "is_dlist (dlist_remove_entry e l) h (remove1 e xs) \<and> is_dlist (dlist_remove_entry e l) e [] \<and>
    (\<forall>g ys. is_dlist l g ys \<and> insert g (set ys) \<inter> insert h (set xs) = {} \<longrightarrow>
       is_dlist (dlist_remove_entry e l) g ys)"
proof -
  have "is_dlist (dlist_remove_entry e l) g ys"
    if "is_dlist l g ys" "insert g (set ys) \<inter> insert h (set xs) = {}" for g ys
    using that by (intro is_dlist_same_links [OF same_links_mono [OF dlist_remove_entry_same [OF assms]]]) auto
  then show ?thesis
    using dlist_remove_entry_remove1 [OF assms] dlist_remove_entry_self [of e l] by blast
qed

theorem dlist_remove_entry_refines_witness:
  "is_dlist (dlist_remove_entry 2 (fold (dlist_add_prev 0) [5, 2, 9]
      (dlist_init 0 \<lparr>lnext = (\<lambda>x. x), lprev = (\<lambda>x. x)\<rparr>))) 0 [5, 9 :: nat]"
proof -
  let ?l = "fold (dlist_add_prev (0 :: nat)) [5, 2, 9] (dlist_init 0 \<lparr>lnext = (\<lambda>x. x), lprev = (\<lambda>x. x)\<rparr>)"
  have "is_dlist ?l 0 ([] @ [5, 2, 9 :: nat])"
    by (rule dl.fold_push_back [OF dlist_init_is_dlist]) auto
  with dlist_remove_entry_refines [of ?l 0 "[5, 2, 9]" 2] show ?thesis by simp
qed

text \<open>C32: Let the list be \<open>xs @ ys\<close>.  Both \<^verbatim>\<open>dlist_add_next\<close> at the node in front of the gap (the last of \<open>xs\<close> or the head)
  and \<^verbatim>\<open>dlist_add_prev\<close> at the node behind it (the first of \<open>ys\<close> or the head) put a new entry between \<open>xs\<close> and \<open>ys\<close>; iteration
  forward and backward then ends after visiting each entry once, in order; and every list that shares no node with
  this one stays as it was.\<close>

theorem dlist_insert_walk:
  assumes "is_dlist l h (xs @ ys)" and "e \<noteq> h" and "e \<notin> set (xs @ ys)"
    and "l' \<in> {dlist_add_next (if xs = [] then h else last xs) e l, dlist_add_prev (if ys = [] then h else hd ys) e l}"
  shows "dlist_foreach h l' = Some (xs @ e # ys) \<and> dlist_foreach_prev h l' = Some (rev (xs @ e # ys)) \<and>
    (\<forall>g zs. is_dlist l g zs \<and> insert g (set zs) \<inter> insert e (insert h (set (xs @ ys))) = {} \<longrightarrow> is_dlist l' g zs)"
proof -
  have l': "l' = dlist_add_next (if xs = [] then h else last xs) e l" using assms(4) dlist_add_prev_next [OF assms(1-3)] by auto
  have "is_dlist l' h (xs @ e # ys)" unfolding l' by (rule dlist_add_next_at [OF assms(1-3)])
  moreover have "is_dlist l' g zs" if "is_dlist l g zs" "insert g (set zs) \<inter> insert e (insert h (set (xs @ ys))) = {}" for g zs
    unfolding l' using that
    by (intro is_dlist_same_links [OF same_links_mono [OF dlist_add_next_at_same [OF assms(1)]]]) auto
  ultimately show ?thesis by (simp add: dlist_foreach_eq dlist_foreach_prev_eq)
qed

theorem dlist_insert_walk_witness:
  "dlist_foreach 0 (dlist_add_next 5 7 (fold (dlist_add_prev 0) [5, 2]
      (dlist_init 0 \<lparr>lnext = (\<lambda>x. x), lprev = (\<lambda>x. x)\<rparr>))) = Some [5, 7, 2 :: nat] \<and>
   dlist_foreach_prev 0 (dlist_add_prev 2 7 (fold (dlist_add_prev 0) [5, 2]
      (dlist_init 0 \<lparr>lnext = (\<lambda>x. x), lprev = (\<lambda>x. x)\<rparr>))) = Some [2, 7, 5 :: nat]"
proof -
  let ?l = "fold (dlist_add_prev (0 :: nat)) [5, 2] (dlist_init 0 \<lparr>lnext = (\<lambda>x. x), lprev = (\<lambda>x. x)\<rparr>)"
  have "is_dlist ?l 0 ([] @ [5, 2 :: nat])" by (rule dl.fold_push_back [OF dlist_init_is_dlist]) auto
  with dlist_insert_walk [of ?l 0 "[5]" "[2]" 7 "dlist_add_next 5 7 ?l"] dlist_insert_walk [of ?l 0 "[5]" "[2]" 7 "dlist_add_prev 2 7 ?l"]
  show ?thesis by simp
qed

end
