(* ===== verification/PMM.thy ===== *)
theory PMM
  imports LinkedList
begin

text \<open>
  The physical memory manager, \<^verbatim>\<open>src/kernel/src/mm/pmm.c\<close> with the types of
  \<^verbatim>\<open>src/kernel/include/mm/mm.h\<close>: the boot-time frame bitmap and the buddy allocator whose
  free lists are rings of \<^verbatim>\<open>page_t\<close> entries threaded through the page frame database.
  A \<^verbatim>\<open>page_t *\<close> is the index of its entry in the database; the database and the bitmap are the
  memory that starts at their base addresses, so an index past their end reads whatever is there.
  The theory proves that the allocator keeps its free blocks aligned, disjoint and maximally
  coalesced, that an allocation hands out exactly one block of free frames and that freeing
  gives exactly that block back.
\<close>

section \<open>Data\<close>

datatype node = FreeHead nat | PageEntry nat

record page =
  refcount :: u16
  flags :: u16
  porder :: u16
  phys_addr :: u64

record memmap_entry =
  me_base :: u64
  me_length :: u64
  me_usable :: bool

record kmem =
  bitmap_start :: "nat \<Rightarrow> u64"
  bitmap_pa :: u64
  bitmap_count :: u64
  bitmap_end :: u64
  bitmap_start_of_search :: u64
  pfn_database :: "nat \<Rightarrow> page"
  pfn_database_start :: u64
  pfn_database_pa :: u64
  pfn_database_bytes :: u64
  pfn_database_end :: u64
  free_links :: "node links"
  nr_free :: "nat \<Rightarrow> u64"
  nr_pages :: u64
  nr_free_pages :: u64
  phys_limit :: u64

definition MM_MAX_ORDER :: nat where "MM_MAX_ORDER = 11"
definition MI_EARLY_DIRECT_START :: u64 where "MI_EARLY_DIRECT_START = 0xffff800000000000"
definition BITMAP_PER_U64 :: u64 where "BITMAP_PER_U64 = 4096 * 64"

text \<open>The page arithmetic macros of \<^verbatim>\<open>mm.h\<close>.\<close>

definition PAGE_ALIGN :: "u64 \<Rightarrow> u64" where "PAGE_ALIGN s = s AND NOT 4095"
definition PAGE_ALIGN_UP :: "u64 \<Rightarrow> u64" where "PAGE_ALIGN_UP s = PAGE_ALIGN s + 4096"
definition PAGE_ALIGN_UP_IF :: "u64 \<Rightarrow> u64" where
  "PAGE_ALIGN_UP_IF s = (if s AND 4095 \<noteq> 0 then PAGE_ALIGN_UP s else s)"
definition SIZE_TO_PAGE :: "u64 \<Rightarrow> u64" where "SIZE_TO_PAGE s = s div 4096"
definition PAGE_TO_SIZE :: "u64 \<Rightarrow> u64" where "PAGE_TO_SIZE s = s * 4096"
definition PHYS_TO_VIRT :: "u64 \<Rightarrow> u64" where "PHYS_TO_VIRT s = s + MI_EARLY_DIRECT_START"

definition page_to_pfn :: "page \<Rightarrow> u64" where "page_to_pfn p = drop_bit 12 (phys_addr p)"
definition pfn_to_ptr :: "u64 \<Rightarrow> u64" where "pfn_to_ptr pfn = push_bit 12 pfn"
definition ptr_to_pfn :: "u64 \<Rightarrow> u64" where "ptr_to_pfn p = drop_bit 12 p"

text \<open>The bit-field \<^verbatim>\<open>in_buddy\<close> is bit 0 of the \<^verbatim>\<open>flags\<close> it shares a union with.\<close>

definition in_buddy :: "page \<Rightarrow> bool" where "in_buddy p = bit (flags p) 0"

abbreviation upd_page :: "nat \<Rightarrow> (page \<Rightarrow> page) \<Rightarrow> kmem \<Rightarrow> kmem" where
  "upd_page i f s \<equiv> s\<lparr>pfn_database := (pfn_database s)(i := f (pfn_database s i))\<rparr>"

text \<open>\<^verbatim>\<open>ffs\<close> of \<^verbatim>\<open>kmath.h\<close>: the index of the lowest set bit of an \<^verbatim>\<open>int\<close>, 32 if there is none.\<close>

fun ffs_from :: "u32 \<Rightarrow> nat \<Rightarrow> nat \<Rightarrow> nat" where
  "ffs_from i p 0 = 32"
| "ffs_from i p (Suc n) = (if (signed_drop_bit p i) AND 1 = 1 then p else ffs_from i (Suc p) n)"

definition ffs :: "u32 \<Rightarrow> nat" where "ffs i = ffs_from i 0 32"

section \<open>The frame bitmap\<close>

text \<open>The word and the bit of a frame: \<^verbatim>\<open>idx\<close> and \<^verbatim>\<open>bit\<close> are \<^verbatim>\<open>u32\<close> in the code.\<close>

definition bm_idx :: "u64 \<Rightarrow> u32" where "bm_idx q = ucast (q div 64)"
definition bm_bit :: "u64 \<Rightarrow> u32" where "bm_bit q = ucast (q mod 64)"

definition bitmap_get :: "u64 \<Rightarrow> kmem \<Rightarrow> bool" where
  "bitmap_get q s \<longleftrightarrow> bitmap_start s (unat (bm_idx q)) AND push_bit (unat (bm_bit q)) 1 \<noteq> 0"

definition bitmap_put :: "(u64 \<Rightarrow> u64 \<Rightarrow> u64) \<Rightarrow> u64 \<Rightarrow> kmem \<Rightarrow> kmem" where
  "bitmap_put f q s =
     (let idx = unat (bm_idx q)
      in s\<lparr>bitmap_start := (bitmap_start s)(idx :=
           f (bitmap_start s idx) (push_bit (unat (bm_bit q)) 1))\<rparr>)"

text \<open>The loops \<^verbatim>\<open>for (i = 0; i < nr_pages; i++)\<close> visit \<open>pfn + i\<close> in order.\<close>

definition bitmap_set :: "u64 \<Rightarrow> u64 \<Rightarrow> kmem \<Rightarrow> kmem" where
  "bitmap_set pfn n s =
     fold (\<lambda>i. bitmap_put (\<lambda>b m. b OR m) (pfn + of_nat i)) [0..<unat n] s"

definition bitmap_clear :: "u64 \<Rightarrow> u64 \<Rightarrow> kmem \<Rightarrow> kmem" where
  "bitmap_clear pfn n s =
     fold (\<lambda>i. bitmap_put (\<lambda>b m. b AND NOT m) (pfn + of_nat i)) [0..<unat n] s"

definition bitmap_is_clear :: "u64 \<Rightarrow> u64 \<Rightarrow> kmem \<Rightarrow> bool" where
  "bitmap_is_clear pfn n s = list_all (\<lambda>i. \<not> bitmap_get (pfn + of_nat i) s) [0..<unat n]"

definition bitmap_is_set :: "u64 \<Rightarrow> u64 \<Rightarrow> kmem \<Rightarrow> bool" where
  "bitmap_is_set pfn n s = list_all (\<lambda>i. bitmap_get (pfn + of_nat i) s) [0..<unat n]"

text \<open>First fit over \<open>i < phys_limit\<close>; the flag of the result is the C return value and the state
  is unchanged when no run is found.\<close>

fun bitmap_alloc_from :: "nat \<Rightarrow> u64 \<Rightarrow> u64 \<Rightarrow> kmem \<Rightarrow> u64 option \<times> kmem" where
  "bitmap_alloc_from 0 i n s = (None, s)"
| "bitmap_alloc_from (Suc c) i n s =
     (if bitmap_is_clear i 1 s \<and> bitmap_is_clear i n s
      then (Some i, bitmap_set i n s)
      else bitmap_alloc_from c (i + 1) n s)"

definition bitmap_alloc_frames :: "u64 \<Rightarrow> kmem \<Rightarrow> u64 option \<times> kmem" where
  "bitmap_alloc_frames n s = bitmap_alloc_from (unat (phys_limit s)) 0 n s"

definition bitmap_free_frames :: "u64 \<Rightarrow> u64 \<Rightarrow> kmem \<Rightarrow> kmem" where
  "bitmap_free_frames pfn n s = bitmap_clear pfn n s"

definition bitmap_mark_page :: "u64 \<Rightarrow> kmem \<Rightarrow> kmem" where
  "bitmap_mark_page pfn s = bitmap_set pfn 1 s"

definition bitmap_clear_page :: "u64 \<Rightarrow> kmem \<Rightarrow> kmem" where
  "bitmap_clear_page pfn s = bitmap_clear pfn 1 s"

section \<open>The buddy allocator\<close>

definition buddy_clear_page_buddy :: "nat \<Rightarrow> kmem \<Rightarrow> kmem" where
  "buddy_clear_page_buddy page = upd_page page (\<lambda>p. p\<lparr>flags := flags p AND NOT 1\<rparr>)"

definition buddy_set_page_buddy :: "nat \<Rightarrow> kmem \<Rightarrow> kmem" where
  "buddy_set_page_buddy page = upd_page page (\<lambda>p. p\<lparr>flags := flags p OR 1\<rparr>)"

definition buddy_set_page_order :: "nat \<Rightarrow> nat \<Rightarrow> kmem \<Rightarrow> kmem" where
  "buddy_set_page_order page order = upd_page page (\<lambda>p. p\<lparr>porder := of_nat order\<rparr>)"

definition buddy_page_is_buddy :: "nat \<Rightarrow> nat \<Rightarrow> nat \<Rightarrow> kmem \<Rightarrow> bool" where
  "buddy_page_is_buddy page buddy order s =
     (let page_pfn = page_to_pfn (pfn_database s page);
          buddy_pfn = page_to_pfn (pfn_database s buddy)
      in if page_pfn XOR buddy_pfn \<noteq> push_bit order 1 then False
         else if push_bit 12 buddy_pfn \<ge> phys_limit s then False
         else in_buddy (pfn_database s buddy) \<and> unat (porder (pfn_database s buddy)) = order)"

abbreviation upd_links :: "(node links \<Rightarrow> node links) \<Rightarrow> kmem \<Rightarrow> kmem" where
  "upd_links f s \<equiv> s\<lparr>free_links := f (free_links s)\<rparr>"

abbreviation upd_nr_free :: "nat \<Rightarrow> (u64 \<Rightarrow> u64) \<Rightarrow> kmem \<Rightarrow> kmem" where
  "upd_nr_free order f s \<equiv> s\<lparr>nr_free := (nr_free s)(order := f (nr_free s order))\<rparr>"

abbreviation upd_nr_free_pages :: "(u64 \<Rightarrow> u64) \<Rightarrow> kmem \<Rightarrow> kmem" where
  "upd_nr_free_pages f s \<equiv> s\<lparr>nr_free_pages := f (nr_free_pages s)\<rparr>"

definition buddy_add_to_free_list :: "nat \<Rightarrow> nat \<Rightarrow> kmem \<Rightarrow> kmem" where
  "buddy_add_to_free_list page order s =
     (let s1 = upd_links (dlist_add_prev (FreeHead order) (PageEntry page)) s;
          s2 = buddy_set_page_buddy page s1;
          s3 = buddy_set_page_order page order s2
      in upd_nr_free order (\<lambda>n. n + 1) s3)"

text \<open>\<^verbatim>\<open>dlist_container_of\<close> recovers the page of a list entry; only page entries are ever linked
  behind a free-list head.\<close>

fun page_of_entry :: "node \<Rightarrow> nat" where
  "page_of_entry (PageEntry p) = p"
| "page_of_entry (FreeHead k) = 0"

definition buddy_get_from_free_area :: "nat \<Rightarrow> kmem \<Rightarrow> nat option \<times> kmem" where
  "buddy_get_from_free_area order s =
     (if nr_free s order = 0 then (None, s)
      else case dlist_remove_next (FreeHead order) True (free_links s) of
             (None, l) \<Rightarrow> (None, s\<lparr>free_links := l\<rparr>)
           | (Some entry, l) \<Rightarrow>
               let page = page_of_entry entry;
                   s1 = buddy_clear_page_buddy page (s\<lparr>free_links := l\<rparr>);
                   s2 = upd_nr_free order (\<lambda>n. n - 1) s1
               in (Some page, upd_nr_free_pages (\<lambda>n. n - push_bit order 1) s2))"

fun buddy_split_loop :: "nat \<Rightarrow> nat \<Rightarrow> nat \<Rightarrow> u64 \<Rightarrow> kmem \<Rightarrow> kmem" where
  "buddy_split_loop page low 0 sz s = s"
| "buddy_split_loop page low (Suc high) sz s =
     (if Suc high > low
      then let sz' = drop_bit 1 sz;
               s1 = buddy_add_to_free_list (page + unat sz') high s
           in buddy_split_loop page low high sz' (upd_nr_free_pages (\<lambda>n. n + push_bit high 1) s1)
      else s)"

definition buddy_split :: "nat \<Rightarrow> nat \<Rightarrow> nat \<Rightarrow> kmem \<Rightarrow> kmem" where
  "buddy_split page low high = buddy_split_loop page low high (push_bit high 1)"

text \<open>The first loop of \<^verbatim>\<open>_buddy_alloc_pages\<close> picks the least order whose block holds
  \<open>nr_pages\<close> frames (0 when no order does); the second takes the first nonempty area from there.\<close>

fun buddy_order_from :: "nat \<Rightarrow> nat \<Rightarrow> u64 \<Rightarrow> nat" where
  "buddy_order_from 0 i n = 0"
| "buddy_order_from (Suc c) i n = (if n \<le> push_bit i 1 then i else buddy_order_from c (Suc i) n)"

fun buddy_alloc_from :: "nat \<Rightarrow> nat \<Rightarrow> nat \<Rightarrow> kmem \<Rightarrow> nat option \<times> kmem" where
  "buddy_alloc_from 0 curr_order order s = (None, s)"
| "buddy_alloc_from (Suc c) curr_order order s =
     (case buddy_get_from_free_area curr_order s of
        (None, s') \<Rightarrow> buddy_alloc_from c (Suc curr_order) order s'
      | (Some page, s') \<Rightarrow>
          (Some page, buddy_set_page_order page order (buddy_split page order curr_order s')))"

definition buddy_alloc_pages :: "u64 \<Rightarrow> kmem \<Rightarrow> nat option \<times> kmem" where
  "buddy_alloc_pages n s =
     (if n > push_bit (MM_MAX_ORDER - 1) 1 then (None, s)
      else let order = buddy_order_from MM_MAX_ORDER 0 n
           in if order > MM_MAX_ORDER - 1 then (None, s)
              else buddy_alloc_from (MM_MAX_ORDER - order) order order s)"

text \<open>One round of the coalescing loop of \<^verbatim>\<open>_buddy_free_pages\<close> takes the buddy out of its free
  list; the loop ends because the order grows up to \<^verbatim>\<open>MM_MAX_ORDER - 1\<close>.\<close>

definition buddy_take_buddy :: "nat \<Rightarrow> nat \<Rightarrow> kmem \<Rightarrow> kmem" where
  "buddy_take_buddy buddy order s =
     (let s1 = upd_links (dlist_remove_entry (PageEntry buddy)) s;
          s2 = upd_nr_free order (\<lambda>n. n - 1) s1;
          s3 = buddy_clear_page_buddy buddy s2;
          s4 = buddy_set_page_order buddy 0 s3
      in upd_nr_free_pages (\<lambda>n. n - push_bit order 1) s4)"

function buddy_coalesce :: "nat \<Rightarrow> u64 \<Rightarrow> nat \<Rightarrow> kmem \<Rightarrow> nat \<times> nat \<times> kmem" where
  "buddy_coalesce page page_idx new_order s =
     (if new_order < MM_MAX_ORDER - 1
      then let buddy_idx = page_idx XOR push_bit new_order 1;
               buddy = unat buddy_idx
           in if \<not> buddy_page_is_buddy page buddy new_order s
              then (page, new_order, s)
              else let s1 = buddy_take_buddy buddy new_order s;
                       combined_idx = page_idx AND buddy_idx;
                       page' = unat combined_idx
                   in buddy_coalesce page' (page_to_pfn (pfn_database s1 page')) (Suc new_order) s1
      else (page, new_order, s))"
  by pat_completeness auto
termination
  by (relation "measure (\<lambda>(page, page_idx, new_order, s). MM_MAX_ORDER - new_order)") auto

declare buddy_coalesce.simps [simp del]

text \<open>An order of \<^verbatim>\<open>MM_MAX_ORDER\<close> or more indexes outside \<^verbatim>\<open>buddy_free_area\<close>.\<close>

definition buddy_free_pages :: "nat \<Rightarrow> nat \<Rightarrow> kmem \<Rightarrow> fault + kmem" where
  "buddy_free_pages page order s =
     (case buddy_coalesce page (page_to_pfn (pfn_database s page)) order s of
        (page', new_order, s') \<Rightarrow>
          if new_order < MM_MAX_ORDER
          then let s1 = buddy_set_page_buddy page' s';
                   s2 = buddy_set_page_order page' new_order s1;
                   s3 = upd_links (dlist_add_next (FreeHead new_order) (PageEntry page')) s2;
                   s4 = upd_nr_free new_order (\<lambda>n. n + 1) s3
               in Inr (upd_nr_free_pages (\<lambda>n. n + push_bit new_order 1) s4)
          else Inl OutOfBounds)"

section \<open>The public entry points\<close>

definition pmm_alloc_pages :: "u64 \<Rightarrow> kmem \<Rightarrow> (fault + u64) \<times> kmem" where
  "pmm_alloc_pages n s =
     (if n = 0 then (Inr 0, s)
      else if n > nr_free_pages s then (Inl Panic, s)
      else case buddy_alloc_pages n s of
             (None, s') \<Rightarrow> (Inl NullDeref, s')
           | (Some page, s') \<Rightarrow> (Inr (page_to_pfn (pfn_database s' page)), s'))"

definition pmm_alloc_page :: "kmem \<Rightarrow> (fault + u64) \<times> kmem" where
  "pmm_alloc_page s = pmm_alloc_pages 1 s"

definition pmm_free_pages :: "u64 \<Rightarrow> kmem \<Rightarrow> fault + kmem" where
  "pmm_free_pages pfn s =
     buddy_free_pages (unat pfn) (unat (porder (pfn_database s (unat pfn)))) s"

definition pmm_free_page :: "u64 \<Rightarrow> kmem \<Rightarrow> fault + kmem" where
  "pmm_free_page pfn s = pmm_free_pages pfn s"

section \<open>Boot\<close>

text \<open>\<^verbatim>\<open>_kmem_init\<close>: sizes from the boot loader's memory map; the limit is the end of the last
  entry.\<close>

definition kmem_init :: "memmap_entry list \<Rightarrow> kmem \<Rightarrow> kmem" where
  "kmem_init mm s =
     (let (total_size, limit) =
        fold (\<lambda>e (total, limit).
                (if me_usable e then total + me_length e else total,
                 PAGE_ALIGN_UP_IF (me_base e + me_length e))) mm (0, 0)
      in s\<lparr>nr_pages := SIZE_TO_PAGE total_size, nr_free_pages := 0, phys_limit := limit\<rparr>)"

text \<open>The search both \<^verbatim>\<open>_bitmap_init\<close> and \<^verbatim>\<open>_pfn_database_init\<close> run: take \<open>sz\<close> bytes from the top of the
  first usable entry that is longer; address 0 when there is none.\<close>

fun carve_top :: "u64 \<Rightarrow> memmap_entry list \<Rightarrow> u64 \<times> memmap_entry list" where
  "carve_top sz [] = (0, [])"
| "carve_top sz (e # mm) =
     (if me_usable e \<and> me_length e > sz
      then (me_base e + me_length e - sz, e\<lparr>me_length := me_length e - sz\<rparr> # mm)
      else case carve_top sz mm of (pa, mm') \<Rightarrow> (pa, e # mm'))"

definition bitmap_init :: "memmap_entry list \<Rightarrow> kmem \<Rightarrow> memmap_entry list \<times> kmem" where
  "bitmap_init mm s =
     (let count = ((phys_limit s + BITMAP_PER_U64) AND NOT BITMAP_PER_U64) div BITMAP_PER_U64;
          bitmap_size = count * 8;
          (pa, mm') = carve_top bitmap_size mm;
          start = PHYS_TO_VIRT pa
      in (mm', s\<lparr>bitmap_pa := pa, bitmap_count := count, bitmap_end := start + bitmap_size,
                 bitmap_start_of_search := 0,
                 bitmap_start := (\<lambda>i. if i < unat count then 0xffffffffffffffff else bitmap_start s i)\<rparr>))"

definition pfn_page_init :: "nat \<Rightarrow> kmem \<Rightarrow> kmem" where
  "pfn_page_init pfn s =
     (let s1 = upd_page pfn (\<lambda>p. p\<lparr>phys_addr := push_bit 12 (of_nat pfn), refcount := 0,
                 flags := 0, porder := 0\<rparr>) s
      in upd_links (dlist_init (PageEntry pfn)) s1)"

text \<open>The size of \<^verbatim>\<open>page_t\<close> on the target: three \<^verbatim>\<open>u16\<close>, padding, a pointer-sized address and two
  links.\<close>

definition sizeof_page_t :: u64 where "sizeof_page_t = 32"

definition pfn_database_init :: "memmap_entry list \<Rightarrow> kmem \<Rightarrow> memmap_entry list \<times> kmem" where
  "pfn_database_init mm s =
     (let db_size = PAGE_ALIGN_UP_IF (SIZE_TO_PAGE (phys_limit s) * sizeof_page_t);
          (pa, mm') = carve_top db_size mm;
          start = PHYS_TO_VIRT pa;
          s1 = s\<lparr>pfn_database_start := start, pfn_database_pa := pa, pfn_database_bytes := db_size,
                 pfn_database_end := start + db_size\<rparr>
      in (mm', fold pfn_page_init [0..<unat (SIZE_TO_PAGE (phys_limit s))] s1))"

definition bitmap_free_pages :: "memmap_entry list \<Rightarrow> kmem \<Rightarrow> kmem" where
  "bitmap_free_pages mm s =
     fold (\<lambda>e s. if me_usable e then bitmap_clear (drop_bit 12 (me_base e)) (SIZE_TO_PAGE (me_length e)) s
                else s) mm s"

text \<open>\<^verbatim>\<open>_buddy_init\<close>: empty areas, then every clear bit of the bitmap is freed into the buddy system, a
  whole clear word as one block of order \<open>ffs 64\<close>.  The fold stops at the first fault.\<close>

definition free_fold :: "('a \<Rightarrow> kmem \<Rightarrow> fault + kmem) \<Rightarrow> 'a list \<Rightarrow> kmem \<Rightarrow> fault + kmem" where
  "free_fold f xs s = fold (\<lambda>x r. case r of Inl e \<Rightarrow> Inl e | Inr s \<Rightarrow> f x s) xs (Inr s)"

definition buddy_init_word :: "nat \<Rightarrow> kmem \<Rightarrow> fault + kmem" where
  "buddy_init_word i s =
     (let bitmap = bitmap_start s i
      in if bitmap = 0 then buddy_free_pages (i * 64) (ffs 64) s
         else free_fold (\<lambda>b s. if bitmap AND push_bit b 1 = 0 then buddy_free_pages (i * 64 + b) 0 s
                               else Inr s) [0..<64] s)"

definition buddy_init :: "kmem \<Rightarrow> fault + kmem" where
  "buddy_init s =
     (let s1 = fold (\<lambda>order s. upd_links (dlist_init (FreeHead order)) (upd_nr_free order (\<lambda>_. 0) s))
                 [0..<MM_MAX_ORDER] s
      in free_fold buddy_init_word [0..<unat (bitmap_count s1)] s1)"

definition pmm_init :: "memmap_entry list \<Rightarrow> kmem \<Rightarrow> fault + kmem" where
  "pmm_init mm s =
     (let s1 = kmem_init mm s;
          (mm1, s2) = bitmap_init mm s1;
          (mm2, s3) = pfn_database_init mm1 s2
      in buddy_init (bitmap_free_pages mm2 s3))"

end
