(* ===== verification/Buddy.thy ===== *)
theory Buddy
  imports PMM
begin

text \<open>
  Correctness of the buddy allocator of \<open>PMM\<close>.  The abstract state is the set of free blocks
  \<open>(p, k)\<close>, first frame and order; a block is \<open>2 ^ k\<close> frames.  \<open>wf_blocks\<close> is what the free set
  keeps (aligned, within memory, pairwise disjoint, no two buddies both free) and
  \<open>buddy_rep\<close> ties the set to the rings, counters and page flags of the kernel state.
\<close>

section \<open>Free blocks as a set\<close>

type_synonym blk = "nat \<times> nat"

definition blk_frames :: "blk \<Rightarrow> nat set" where
  "blk_frames b = {fst b ..< fst b + 2 ^ snd b}"

definition free_frames :: "blk set \<Rightarrow> nat set" where
  "free_frames B = \<Union> (blk_frames ` B)"

definition blk_ok :: "nat \<Rightarrow> blk \<Rightarrow> bool" where
  "blk_ok n b \<longleftrightarrow> snd b < MM_MAX_ORDER \<and> 2 ^ snd b dvd fst b \<and> fst b + 2 ^ snd b \<le> n"

definition buddy_of :: "blk \<Rightarrow> blk" where
  "buddy_of b = (fst b XOR 2 ^ snd b, snd b)"

definition wf_blocks :: "nat \<Rightarrow> blk set \<Rightarrow> bool" where
  "wf_blocks n B \<longleftrightarrow>
     (\<forall>b\<in>B. blk_ok n b) \<and>
     (\<forall>b\<in>B. \<forall>c\<in>B. b \<noteq> c \<longrightarrow> blk_frames b \<inter> blk_frames c = {}) \<and>
     (\<forall>b\<in>B. snd b < MM_MAX_ORDER - 1 \<longrightarrow> buddy_of b \<notin> B)"

lemma wf_blocks_subset: "wf_blocks n B \<Longrightarrow> C \<subseteq> B \<Longrightarrow> wf_blocks n C"
  unfolding wf_blocks_def by blast

lemma blk_frames_nonempty [simp]: "blk_frames b \<noteq> {}"
  by (simp add: blk_frames_def)

lemma fst_in_blk_frames [simp]: "fst b \<in> blk_frames b"
  by (simp add: blk_frames_def)

lemma finite_blk_frames [simp]: "finite (blk_frames b)"
  by (simp add: blk_frames_def)

lemma card_blk_frames [simp]: "card (blk_frames b) = 2 ^ snd b"
  by (simp add: blk_frames_def)

lemma free_frames_insert [simp]: "free_frames (insert b B) = blk_frames b \<union> free_frames B"
  by (auto simp: free_frames_def)

lemma wf_blocks_same_head: "wf_blocks n B \<Longrightarrow> (p, j) \<in> B \<Longrightarrow> (p, k) \<in> B \<Longrightarrow> j = k"
  unfolding wf_blocks_def using fst_in_blk_frames by (metis disjoint_iff fst_conv prod.inject)

lemma free_frames_remove:
  assumes "wf_blocks n B" and "b \<in> B"
  shows "free_frames (B - {b}) = free_frames B - blk_frames b"
  using assms by (fastforce simp: wf_blocks_def free_frames_def)

lemma wf_blocks_finite:
  assumes "wf_blocks n B"
  shows "finite B"
proof (rule finite_subset)
  show "B \<subseteq> {..n} \<times> {..<MM_MAX_ORDER}"
    using assms by (fastforce simp: wf_blocks_def blk_ok_def)
qed simp

lemma card_free_frames:
  assumes "wf_blocks n B"
  shows "card (free_frames B) = (\<Sum>b\<in>B. 2 ^ snd b)"
  unfolding free_frames_def
  using assms wf_blocks_finite [OF assms]
  by (subst card_UN_disjoint) (auto simp: wf_blocks_def)

lemma free_frames_bound: "wf_blocks n B \<Longrightarrow> free_frames B \<subseteq> {..<n}"
  by (fastforce simp: wf_blocks_def blk_ok_def free_frames_def blk_frames_def)

section \<open>Buddies\<close>

text \<open>For an aligned block the exclusive or with its size adds or subtracts the size.\<close>

lemma xor_aligned: "(m * 2 ^ k) XOR 2 ^ k = (if even m then m + 1 else m - 1) * 2 ^ k" for m :: nat
proof -
  have *: "m * 2 ^ k = push_bit k m" "2 ^ k = push_bit k (1::nat)"
    by (simp_all add: push_bit_eq_mult)
  have "(m * 2 ^ k) XOR 2 ^ k = push_bit k (m XOR 1)"
    by (subst *(1), subst (1) *(2), simp only: push_bit_xor)
  also have "m XOR 1 = (if even m then m + 1 else m - 1)"
    by (cases "even m") (auto simp: xor_Suc_0_eq)
  finally show ?thesis by (simp only: push_bit_eq_mult)
qed

lemma and_aligned: "(m * 2 ^ k) AND ((m * 2 ^ k) XOR 2 ^ k) = (m div 2) * 2 ^ Suc k" for m :: nat
proof -
  have *: "m * 2 ^ k = push_bit k m" "2 ^ k = push_bit k (1::nat)"
    by (simp_all add: push_bit_eq_mult)
  have "(m * 2 ^ k) AND ((m * 2 ^ k) XOR 2 ^ k) = push_bit k (m AND (m XOR 1))"
    by (simp only: *(1)) (subst *(2), simp only: push_bit_xor push_bit_and)
  also have "m AND (m XOR 1) = 2 * (m div 2)"
    by (rule bit_eqI) (auto simp: bit_simps bit_double_iff bit_0 gr0_conv_Suc bit_Suc)
  finally show ?thesis by (simp add: push_bit_eq_mult)
qed

text \<open>Merging a block with its buddy gives the enclosing block of the next order.\<close>

lemma merge_aligned:
  assumes "2 ^ k dvd p"
  shows "blk_frames (p, k) \<union> blk_frames (buddy_of (p, k)) = blk_frames (p AND (p XOR 2 ^ k), Suc k)"
    and "2 ^ Suc k dvd p AND (p XOR 2 ^ k)"
    and "2 ^ k dvd p XOR 2 ^ k"
proof -
  from assms obtain m where p: "p = m * 2 ^ k" by (metis dvd_def mult.commute)
  show "2 ^ Suc k dvd p AND (p XOR 2 ^ k)" by (simp add: p and_aligned)
  show "2 ^ k dvd p XOR 2 ^ k" by (simp add: p xor_aligned)
  define c :: nat where "c = 2 ^ k"
  have x: "p XOR 2 ^ k = (if even m then m + 1 else m - 1) * c"
    and pc: "p = m * c" by (simp_all only: p xor_aligned c_def)
  have a: "p AND (p XOR 2 ^ k) = (m div 2) * (2 * c)"
    by (simp only: p and_aligned c_def power_Suc)
  have "{m * c..<m * c + c} \<union> {(if even m then m + 1 else m - 1) * c..<(if even m then m + 1 else m - 1) * c + c}
      = {(m div 2) * (2 * c)..<(m div 2) * (2 * c) + 2 * c}"
  proof (cases "even m")
    case True
    then obtain j where "m = 2 * j" by blast
    then show ?thesis by (auto simp: algebra_simps)
  next
    case False
    then obtain j where "m = 2 * j + 1" by (metis oddE)
    then show ?thesis by (auto simp: algebra_simps)
  qed
  then show "blk_frames (p, k) \<union> blk_frames (buddy_of (p, k)) = blk_frames (p AND (p XOR 2 ^ k), Suc k)"
    unfolding blk_frames_def buddy_of_def fst_conv snd_conv power_Suc a
    unfolding x by (simp only: pc c_def)
qed

lemma buddy_of_low_half: "2 ^ Suc k dvd p \<Longrightarrow> (p + 2 ^ k) XOR 2 ^ k = p" for p :: nat
proof -
  assume "2 ^ Suc k dvd p"
  then obtain m where "p = (2 * m) * 2 ^ k" by (metis dvd_def mult.assoc mult.commute power_Suc)
  then have "p + 2 ^ k = (2 * m + 1) * 2 ^ k" by simp
  with xor_aligned [of "2 * m + 1" k] \<open>p = _\<close> show ?thesis by (simp add: add.commute)
qed

lemma buddy_of_involution: "buddy_of (buddy_of b) = b"
  by (cases b) (simp add: buddy_of_def xor.assoc)

text \<open>Two aligned blocks are nested or disjoint, so blocks that do not overlap keep apart.\<close>

lemma wf_blocks_insert:
  assumes "wf_blocks n B" and "blk_ok n b" and "blk_frames b \<inter> free_frames B = {}"
    and "snd b < MM_MAX_ORDER - 1 \<Longrightarrow> buddy_of b \<notin> B"
  shows "wf_blocks n (insert b B)"
proof -
  have "b \<notin> B" using assms(3) fst_in_blk_frames [of b] unfolding free_frames_def by blast
  have other: "buddy_of c \<noteq> b" if "c \<in> B" "snd c < MM_MAX_ORDER - 1" for c
    using assms(4) that buddy_of_involution [of c] by (auto simp: buddy_of_def)
  have self: "buddy_of b \<noteq> b"
  proof
    assume "buddy_of b = b"
    then have "fst b XOR 2 ^ snd b = fst b" by (metis buddy_of_def fst_conv)
    then have "fst b XOR (fst b XOR 2 ^ snd b) = 0" by simp
    then show False by (simp flip: xor.assoc)
  qed
  have "blk_frames b \<inter> blk_frames c = {}" if "c \<in> B" for c
    using assms(3) that by (auto simp: free_frames_def)
  with assms \<open>b \<notin> B\<close> other self show ?thesis
    unfolding wf_blocks_def by (auto simp: Int_commute)
qed

section \<open>The kernel state that represents a set of free blocks\<close>

text \<open>\<open>F k\<close> is the free list of order \<open>k\<close>, first entry first.\<close>

definition heads :: "(nat \<Rightarrow> nat list) \<Rightarrow> blk set" where
  "heads F = {(p, k). k < MM_MAX_ORDER \<and> p \<in> set (F k)}"

definition nframes :: "kmem \<Rightarrow> nat" where
  "nframes s = unat (phys_limit s) div 4096"

definition pfn_db_ok :: "kmem \<Rightarrow> bool" where
  "pfn_db_ok s \<longleftrightarrow> 4096 dvd unat (phys_limit s) \<and>
     (\<forall>p < nframes s. phys_addr (pfn_database s p) = push_bit 12 (of_nat p))"

definition rings_ok :: "kmem \<Rightarrow> (nat \<Rightarrow> nat list) \<Rightarrow> bool" where
  "rings_ok s F \<longleftrightarrow> (\<forall>k < MM_MAX_ORDER.
     is_dlist (free_links s) (FreeHead k) (map PageEntry (F k)) \<and>
     nr_free s k = of_nat (length (F k)))"

definition flags_ok :: "kmem \<Rightarrow> blk set \<Rightarrow> bool" where
  "flags_ok s B \<longleftrightarrow>
     (\<forall>p < nframes s. in_buddy (pfn_database s p) \<longleftrightarrow> (\<exists>k. (p, k) \<in> B)) \<and>
     (\<forall>(p, k) \<in> B. porder (pfn_database s p) = of_nat k)"

definition count_ok :: "kmem \<Rightarrow> blk set \<Rightarrow> bool" where
  "count_ok s B \<longleftrightarrow> nr_free_pages s = of_nat (\<Sum>b\<in>B. 2 ^ snd b)"

definition buddy_rep :: "kmem \<Rightarrow> (nat \<Rightarrow> nat list) \<Rightarrow> bool" where
  "buddy_rep s F \<longleftrightarrow> pfn_db_ok s \<and> rings_ok s F \<and> flags_ok s (heads F) \<and> count_ok s (heads F) \<and>
     wf_blocks (nframes s) (heads F)"

definition buddy_inv :: "kmem \<Rightarrow> blk set \<Rightarrow> bool" where
  "buddy_inv s B \<longleftrightarrow> (\<exists>F. buddy_rep s F \<and> heads F = B)"

lemma nframes_less: "nframes s < 2 ^ 52"
  using unsigned_less [of "phys_limit s", where 'a = nat] by (simp add: nframes_def)

lemma page_to_pfn_ok:
  assumes "pfn_db_ok s" and "p < nframes s"
  shows "page_to_pfn (pfn_database s p) = of_nat p"
    and "unat (of_nat p :: u64) = p"
proof -
  have p: "p < 2 ^ 52" using assms(2) nframes_less [of s] by simp
  then show u: "unat (of_nat p :: u64) = p" by (simp add: unat_of_nat)
  have "drop_bit 12 (push_bit 12 (of_nat p :: u64)) = of_nat p"
  proof (rule bit_word_eqI)
    fix n assume "n < LENGTH(64)"
    have "bit p n \<Longrightarrow> n < 52" using p by (metis bit_take_bit_iff take_bit_nat_eq_self)
    then show "bit (drop_bit 12 (push_bit 12 (of_nat p :: u64))) n = bit (of_nat p :: u64) n"
      by (auto simp: bit_simps)
  qed
  with assms show "page_to_pfn (pfn_database s p) = of_nat p"
    by (simp add: page_to_pfn_def pfn_db_ok_def)
qed

lemma heads_remove:
  assumes "k < MM_MAX_ORDER" and "distinct (F k)"
  shows "heads (F(k := remove1 p (F k))) = heads F - {(p, k)}"
  using assms by (auto simp: heads_def split: if_splits)

lemma heads_add:
  assumes "k < MM_MAX_ORDER" and "set xs = insert p (set (F k))"
  shows "heads (F(k := xs)) = insert (p, k) (heads F)"
  using assms by (auto simp: heads_def split: if_splits)

text \<open>Different orders keep their rings apart.\<close>

lemma rings_apart:
  assumes "wf_blocks n (heads F)" and "j < MM_MAX_ORDER" and "k < MM_MAX_ORDER" and "j \<noteq> k"
  shows "insert (FreeHead j) (set (map PageEntry (F j))) \<inter>
         insert (FreeHead k) (set (map PageEntry (F k))) = {}"
  using assms wf_blocks_same_head [of n "heads F"] by (auto simp: heads_def)

lemma rings_ok_distinct: "rings_ok s F \<Longrightarrow> k < MM_MAX_ORDER \<Longrightarrow> distinct (F k)"
  by (auto simp: rings_ok_def is_dlist_def distinct_map)

lemma push_bit_one_u64: "push_bit k (1 :: u64) = of_nat (2 ^ k)"
  by (simp add: push_bit_eq_mult)

lemma in_heads: "k < MM_MAX_ORDER \<Longrightarrow> p \<in> set (F k) \<longleftrightarrow> (p, k) \<in> heads F"
  by (simp add: heads_def)

lemma head_in_range: "wf_blocks n B \<Longrightarrow> (p, k) \<in> B \<Longrightarrow> p < n"
  by (fastforce simp: wf_blocks_def blk_ok_def intro: less_le_trans [of p "p + 2 ^ k" n])

lemma head_in_free_frames: "(p, k) \<in> B \<Longrightarrow> p \<in> free_frames B"
  unfolding free_frames_def by (rule UN_I) (auto simp: blk_frames_def)

text \<open>Taking a block out of its ring, whichever way the pointers are changed.\<close>

lemma rings_ok_remove:
  assumes r: "rings_ok s F" and w: "wf_blocks n (heads F)" and k: "k < MM_MAX_ORDER"
    and p: "p \<in> set (F k)"
    and ring: "is_dlist (free_links s') (FreeHead k) (map PageEntry (remove1 p (F k)))"
    and same: "same_links (- insert (FreeHead k) (set (map PageEntry (F k)))) (free_links s) (free_links s')"
    and n: "nr_free s' = (nr_free s)(k := nr_free s k - 1)"
  shows "rings_ok s' (F(k := remove1 p (F k)))"
  unfolding rings_ok_def
proof (intro allI impI)
  fix j assume j: "j < MM_MAX_ORDER"
  let ?F = "F(k := remove1 p (F k))"
  show "is_dlist (free_links s') (FreeHead j) (map PageEntry (?F j)) \<and> nr_free s' j = of_nat (length (?F j))"
  proof (cases "j = k")
    case True
    have "length (F k) = Suc (length (remove1 p (F k)))"
      using p by (metis One_nat_def Suc_pred length_pos_if_in_set length_remove1)
    moreover have "nr_free s k = of_nat (length (F k))" using r k by (simp add: rings_ok_def)
    ultimately show ?thesis using True ring n by simp
  next
    case False
    have "is_dlist (free_links s) (FreeHead j) (map PageEntry (F j))" "nr_free s j = of_nat (length (F j))"
      using r j by (simp_all add: rings_ok_def)
    moreover have "same_links (insert (FreeHead j) (set (map PageEntry (F j)))) (free_links s) (free_links s')"
      by (rule same_links_mono [OF same]) (use rings_apart [OF w j k False] in blast)
    ultimately show ?thesis using False n by (simp add: is_dlist_same_links)
  qed
qed

lemma rings_ok_add:
  assumes r: "rings_ok s F" and w: "wf_blocks n (heads F)" and k: "k < MM_MAX_ORDER"
    and p: "\<And>j. (p, j) \<notin> heads F"
    and ring: "is_dlist (free_links s') (FreeHead k) (map PageEntry xs)"
    and same: "same_links (- insert (PageEntry p) (insert (FreeHead k) (set (map PageEntry (F k)))))
                 (free_links s) (free_links s')"
    and len: "length xs = Suc (length (F k))"
    and n: "nr_free s' = (nr_free s)(k := nr_free s k + 1)"
  shows "rings_ok s' (F(k := xs))"
  unfolding rings_ok_def
proof (intro allI impI)
  fix j assume j: "j < MM_MAX_ORDER"
  let ?F = "F(k := xs)"
  show "is_dlist (free_links s') (FreeHead j) (map PageEntry (?F j)) \<and> nr_free s' j = of_nat (length (?F j))"
  proof (cases "j = k")
    case True
    moreover have "nr_free s k = of_nat (length (F k))" using r k by (simp add: rings_ok_def)
    ultimately show ?thesis using ring n len by simp
  next
    case False
    have "is_dlist (free_links s) (FreeHead j) (map PageEntry (F j))" "nr_free s j = of_nat (length (F j))"
      using r j by (simp_all add: rings_ok_def)
    moreover have "p \<notin> set (F j)" using p in_heads [OF j, of p F] by simp
    then have "same_links (insert (FreeHead j) (set (map PageEntry (F j)))) (free_links s) (free_links s')"
      using rings_apart [OF w j k False] by (intro same_links_mono [OF same]) auto
    ultimately show ?thesis using False n by (simp add: is_dlist_same_links)
  qed
qed

text \<open>What an operation that changes one page entry keeps of the database.\<close>

definition page_changed :: "kmem \<Rightarrow> nat \<Rightarrow> page \<Rightarrow> kmem \<Rightarrow> bool" where
  "page_changed s p q s' \<longleftrightarrow> pfn_database s' = (pfn_database s)(p := q) \<and>
     phys_addr q = phys_addr (pfn_database s p) \<and> phys_limit s' = phys_limit s"

lemma page_changed_nframes: "page_changed s p q s' \<Longrightarrow> nframes s' = nframes s"
  by (simp add: page_changed_def nframes_def)

lemma page_changed_pfn_db_ok: "page_changed s p q s' \<Longrightarrow> pfn_db_ok s \<Longrightarrow> pfn_db_ok s'"
  by (auto simp: page_changed_def pfn_db_ok_def nframes_def)

lemma flags_ok_remove:
  assumes fl: "flags_ok s B" and w: "wf_blocks n B" and pk: "(p, k) \<in> B"
    and pg: "page_changed s p q s'" and q: "\<not> in_buddy q"
  shows "flags_ok s' (B - {(p, k)})"
proof -
  have "in_buddy (pfn_database s' r) \<longleftrightarrow> (\<exists>j. (r, j) \<in> B - {(p, k)})" if "r < nframes s" for r
  proof (cases "r = p")
    case True
    then show ?thesis using wf_blocks_same_head [OF w pk] pg q by (auto simp: page_changed_def)
  next
    case False
    then show ?thesis using fl pg that by (simp add: flags_ok_def page_changed_def)
  qed
  moreover have "porder (pfn_database s' r) = of_nat j" if "(r, j) \<in> B" "(r, j) \<noteq> (p, k)" for r j
  proof -
    have "r \<noteq> p" using wf_blocks_same_head [OF w pk] that by auto
    then show ?thesis using fl pg that by (auto simp: flags_ok_def page_changed_def)
  qed
  ultimately show ?thesis using page_changed_nframes [OF pg] by (auto simp: flags_ok_def)
qed

lemma buddy_rep_remove:
  assumes rep: "buddy_rep s F" and k: "k < MM_MAX_ORDER" and p: "p \<in> set (F k)"
    and ring: "is_dlist (free_links s') (FreeHead k) (map PageEntry (remove1 p (F k)))"
    and same: "same_links (- insert (FreeHead k) (set (map PageEntry (F k)))) (free_links s) (free_links s')"
    and n: "nr_free s' = (nr_free s)(k := nr_free s k - 1)"
    and np: "nr_free_pages s' = nr_free_pages s - push_bit k 1"
    and pg: "page_changed s p q s'" and q: "\<not> in_buddy q"
  shows "buddy_rep s' (F(k := remove1 p (F k)))" (is "buddy_rep s' ?F")
proof -
  from rep have db: "pfn_db_ok s" and r: "rings_ok s F" and fl: "flags_ok s (heads F)"
    and c: "count_ok s (heads F)" and w: "wf_blocks (nframes s) (heads F)" by (auto simp: buddy_rep_def)
  have B: "heads ?F = heads F - {(p, k)}" and pk: "(p, k) \<in> heads F"
    using heads_remove [of k F p, OF k rings_ok_distinct [OF r k]] in_heads [of k p F] k p by simp_all
  have "flags_ok s' (heads ?F)" unfolding B by (rule flags_ok_remove [OF fl w pk pg q])
  moreover have "count_ok s' (heads ?F)"
    using c pk np wf_blocks_finite [OF w] sum.remove [of "heads F" "(p, k)" "\<lambda>b. 2 ^ snd b :: u64"]
    by (simp add: count_ok_def B push_bit_one_u64)
  moreover have "wf_blocks (nframes s') (heads ?F)"
    using w B page_changed_nframes [OF pg] by (auto intro: wf_blocks_subset)
  ultimately show ?thesis
    using page_changed_pfn_db_ok [OF pg db] rings_ok_remove [OF r w k p ring same n]
    by (simp add: buddy_rep_def)
qed

lemma buddy_rep_add:
  assumes rep: "buddy_rep s F" and ok: "blk_ok (nframes s) (p, k)"
    and disj: "blk_frames (p, k) \<inter> free_frames (heads F) = {}"
    and bud: "k < MM_MAX_ORDER - 1 \<Longrightarrow> buddy_of (p, k) \<notin> heads F"
    and ring: "is_dlist (free_links s') (FreeHead k) (map PageEntry xs)"
    and same: "same_links (- insert (PageEntry p) (insert (FreeHead k) (set (map PageEntry (F k)))))
                 (free_links s) (free_links s')"
    and xs: "mset xs = add_mset p (mset (F k))"
    and n: "nr_free s' = (nr_free s)(k := nr_free s k + 1)"
    and np: "nr_free_pages s' = nr_free_pages s + push_bit k 1"
    and pg: "page_changed s p q s'" and q: "in_buddy q" "porder q = of_nat k"
  shows "buddy_rep s' (F(k := xs))" (is "buddy_rep s' ?F")
proof -
  from rep have db: "pfn_db_ok s" and r: "rings_ok s F" and fl: "flags_ok s (heads F)"
    and c: "count_ok s (heads F)" and w: "wf_blocks (nframes s) (heads F)" by (auto simp: buddy_rep_def)
  have k: "k < MM_MAX_ORDER" using ok by (simp add: blk_ok_def)
  have set: "set xs = insert p (set (F k))" and len: "length xs = Suc (length (F k))"
    using xs mset_eq_length [of xs "p # F k"] mset_eq_setD [of xs "p # F k"] by simp_all
  have B: "heads ?F = insert (p, k) (heads F)" by (rule heads_add [of k xs p F, OF k set])
  have new: "\<And>j. (p, j) \<notin> heads F"
    using disj head_in_free_frames [of p _ "heads F"] fst_in_blk_frames [of "(p, k)"] by auto
  have "flags_ok s' (heads ?F)"
    using fl pg q new by (auto simp: flags_ok_def B page_changed_def nframes_def)
  moreover have "count_ok s' (heads ?F)"
    using c new np wf_blocks_finite [OF w] by (simp add: count_ok_def B push_bit_one_u64 add.commute)
  moreover have "wf_blocks (nframes s') (heads ?F)"
    using wf_blocks_insert [OF w ok disj] bud B page_changed_nframes [OF pg] by simp
  ultimately show ?thesis
    using page_changed_pfn_db_ok [OF pg db] rings_ok_add [OF r w k new ring same len n]
    by (simp add: buddy_rep_def)
qed

section \<open>The operations keep the representation\<close>

lemma in_buddy_clear [simp]: "\<not> in_buddy (p\<lparr>flags := f AND - 2\<rparr>)"
  by (simp add: in_buddy_def bit_simps)

lemma in_buddy_set [simp]: "in_buddy (p\<lparr>flags := f OR 1\<rparr>)"
  by (simp add: in_buddy_def bit_simps)

lemma in_buddy_porder [simp]: "in_buddy (p\<lparr>porder := v\<rparr>) = in_buddy p"
  by (simp add: in_buddy_def)

lemmas buddy_page_defs = buddy_clear_page_buddy_def buddy_set_page_buddy_def buddy_set_page_order_def

lemma remove1_map_PageEntry: "map PageEntry (remove1 p xs) = remove1 (PageEntry p) (map PageEntry xs)"
  by (induction xs) auto

lemma buddy_rep_parts:
  assumes "buddy_rep s F"
  shows "pfn_db_ok s" "rings_ok s F" "flags_ok s (heads F)" "count_ok s (heads F)"
    "wf_blocks (nframes s) (heads F)"
  using assms by (auto simp: buddy_rep_def)

lemma buddy_rep_ring:
  assumes "buddy_rep s F" and "k < MM_MAX_ORDER"
  shows "is_dlist (free_links s) (FreeHead k) (map PageEntry (F k))"
    and "nr_free s k = of_nat (length (F k))"
  using assms by (auto simp: buddy_rep_def rings_ok_def)

lemma buddy_take_buddy_rep:
  assumes rep: "buddy_rep s F" and bk: "(b, k) \<in> heads F"
  shows "buddy_rep (buddy_take_buddy b k s) (F(k := remove1 b (F k)))"
proof -
  from bk have k: "k < MM_MAX_ORDER" and b: "b \<in> set (F k)" by (auto simp: heads_def)
  note ring = buddy_rep_ring(1) [OF rep k]
  show ?thesis
  proof (rule buddy_rep_remove [OF rep k b])
    show "page_changed s b ((pfn_database s b)\<lparr>flags := flags (pfn_database s b) AND NOT 1, porder := 0\<rparr>)
            (buddy_take_buddy b k s)"
      by (simp add: page_changed_def buddy_take_buddy_def buddy_page_defs Let_def)
  next
    show "is_dlist (free_links (buddy_take_buddy b k s)) (FreeHead k) (map PageEntry (remove1 b (F k)))"
      using dlist_remove_entry_remove1 [OF ring, of "PageEntry b"] b
      by (simp add: buddy_take_buddy_def buddy_page_defs Let_def remove1_map_PageEntry)
  next
    show "same_links (- insert (FreeHead k) (set (map PageEntry (F k)))) (free_links s)
            (free_links (buddy_take_buddy b k s))"
      using dlist_remove_entry_same [OF ring, of "PageEntry b"] b
      by (simp add: buddy_take_buddy_def buddy_page_defs Let_def)
  qed (simp_all add: buddy_take_buddy_def buddy_page_defs Let_def in_buddy_def bit_simps)
qed

lemma length_free_list: "buddy_rep s F \<Longrightarrow> k < MM_MAX_ORDER \<Longrightarrow> length (F k) < 2 ^ 52"
proof -
  assume rep: "buddy_rep s F" and k: "k < MM_MAX_ORDER"
  have "set (F k) \<subseteq> {..<nframes s}"
  proof
    fix p assume "p \<in> set (F k)"
    then have "(p, k) \<in> heads F" using k by (simp add: heads_def)
    then show "p \<in> {..<nframes s}" using head_in_range [OF buddy_rep_parts(5) [OF rep]] by simp
  qed
  then have "card (set (F k)) \<le> card {..<nframes s}" by (rule card_mono [OF finite_lessThan])
  moreover have "card (set (F k)) = length (F k)"
    using rings_ok_distinct [OF buddy_rep_parts(2) [OF rep] k] by (rule distinct_card)
  ultimately show ?thesis using nframes_less [of s] by simp
qed

lemma nr_free_zero_iff:
  assumes "buddy_rep s F" and "k < MM_MAX_ORDER"
  shows "nr_free s k = 0 \<longleftrightarrow> F k = []"
proof -
  have "unat (of_nat (length (F k)) :: u64) = length (F k)"
    using length_free_list [OF assms] by (simp add: unat_of_nat)
  then show ?thesis
    using buddy_rep_ring(2) [OF assms] unat_eq_0 [of "of_nat (length (F k)) :: u64"] by simp
qed

lemma buddy_get_empty:
  "buddy_rep s F \<Longrightarrow> k < MM_MAX_ORDER \<Longrightarrow> F k = [] \<Longrightarrow> buddy_get_from_free_area k s = (None, s)"
  by (simp add: buddy_get_from_free_area_def nr_free_zero_iff)

lemma buddy_get_Cons:
  assumes rep: "buddy_rep s F" and k: "k < MM_MAX_ORDER" and F: "F k = p # ps"
  shows "fst (buddy_get_from_free_area k s) = Some p"
    and "buddy_rep (snd (buddy_get_from_free_area k s)) (F(k := ps))"
proof -
  note ring = buddy_rep_ring(1) [OF rep k]
  obtain l where l: "dlist_remove_next (FreeHead k) True (free_links s) = (Some (PageEntry p), l)"
    and lr: "is_dlist l (FreeHead k) (map PageEntry ps)"
    using dlist_remove_next_Cons [of "free_links s" "FreeHead k" "PageEntry p" "map PageEntry ps"] ring F
    by auto
  have nz: "nr_free s k \<noteq> 0" using nr_free_zero_iff [OF rep k] F by simp
  have get: "buddy_get_from_free_area k s =
     (Some p, upd_nr_free_pages (\<lambda>n. n - push_bit k 1)
        (upd_nr_free k (\<lambda>n. n - 1) (buddy_clear_page_buddy p (s\<lparr>free_links := l\<rparr>))))"
    by (simp add: buddy_get_from_free_area_def nz l Let_def)
  then show "fst (buddy_get_from_free_area k s) = Some p" by simp
  let ?s = "snd (buddy_get_from_free_area k s)"
  have "buddy_rep ?s (F(k := remove1 p (F k)))"
  proof (rule buddy_rep_remove [OF rep k])
    show "page_changed s p ((pfn_database s p)\<lparr>flags := flags (pfn_database s p) AND NOT 1\<rparr>) ?s"
      by (simp add: page_changed_def get buddy_page_defs)
  next
    show "same_links (- insert (FreeHead k) (set (map PageEntry (F k)))) (free_links s) (free_links ?s)"
      using dlist_remove_next_same [OF ring] by (simp add: get buddy_page_defs l)
  qed (use F lr in \<open>simp_all add: get buddy_page_defs\<close>)
  then show "buddy_rep ?s (F(k := ps))" using F by simp
qed

lemma buddy_add_to_free_list_rep:
  assumes rep: "buddy_rep s F" and ok: "blk_ok (nframes s) (p, k)"
    and disj: "blk_frames (p, k) \<inter> free_frames (heads F) = {}"
    and bud: "k < MM_MAX_ORDER - 1 \<Longrightarrow> buddy_of (p, k) \<notin> heads F"
  shows "buddy_rep (upd_nr_free_pages (\<lambda>n. n + push_bit k 1) (buddy_add_to_free_list p k s))
           (F(k := F k @ [p]))"
proof -
  let ?s = "upd_nr_free_pages (\<lambda>n. n + push_bit k 1) (buddy_add_to_free_list p k s)"
  have k: "k < MM_MAX_ORDER" using ok by (simp add: blk_ok_def)
  note ring = buddy_rep_ring(1) [OF rep k]
  have new: "p \<notin> set (F k)"
    using disj head_in_free_frames [of p k "heads F"] fst_in_blk_frames [of "(p, k)"] k
    by (auto simp: heads_def)
  show ?thesis
  proof (rule buddy_rep_add [OF rep ok disj bud])
    show "page_changed s p
        ((pfn_database s p)\<lparr>flags := flags (pfn_database s p) OR 1, porder := of_nat k\<rparr>) ?s"
      by (simp add: page_changed_def buddy_add_to_free_list_def buddy_page_defs Let_def)
  next
    show "is_dlist (free_links ?s) (FreeHead k) (map PageEntry (F k @ [p]))"
      using dlist_add_prev_head [OF ring, of "PageEntry p"] new
      by (auto simp: buddy_add_to_free_list_def buddy_page_defs Let_def)
  next
    show "same_links (- insert (PageEntry p) (insert (FreeHead k) (set (map PageEntry (F k)))))
            (free_links s) (free_links ?s)"
      using dlist_add_prev_same [OF ring, of "PageEntry p"]
      by (simp add: buddy_add_to_free_list_def buddy_page_defs Let_def)
  qed (simp_all add: buddy_add_to_free_list_def buddy_page_defs Let_def)
qed

section \<open>The same on the set of free blocks\<close>

definition db_same :: "nat set \<Rightarrow> kmem \<Rightarrow> kmem \<Rightarrow> bool" where
  "db_same A s s' \<longleftrightarrow> phys_limit s' = phys_limit s \<and> (\<forall>p. p \<notin> A \<longrightarrow> pfn_database s' p = pfn_database s p)"

lemma db_same_refl [simp]: "db_same A s s"
  by (simp add: db_same_def)

lemma db_same_trans: "db_same A s s' \<Longrightarrow> db_same A' s' s'' \<Longrightarrow> A \<union> A' \<subseteq> C \<Longrightarrow> db_same C s s''"
  unfolding db_same_def by (metis Un_iff subsetD)

lemma db_same_mono: "db_same A s s' \<Longrightarrow> A \<subseteq> C \<Longrightarrow> db_same C s s'"
  by (auto simp: db_same_def)

lemma db_same_nframes: "db_same A s s' \<Longrightarrow> nframes s' = nframes s"
  by (simp add: db_same_def nframes_def)

lemma buddy_inv_wf: "buddy_inv s B \<Longrightarrow> wf_blocks (nframes s) B"
  by (auto simp: buddy_inv_def buddy_rep_def)

lemma buddy_inv_db: "buddy_inv s B \<Longrightarrow> pfn_db_ok s"
  by (auto simp: buddy_inv_def buddy_rep_def)

lemma buddy_take_buddy_inv:
  assumes "buddy_inv s B" and "(b, k) \<in> B"
  shows "buddy_inv (buddy_take_buddy b k s) (B - {(b, k)})"
proof -
  from assms obtain F where F: "buddy_rep s F" "heads F = B" by (auto simp: buddy_inv_def)
  then have k: "k < MM_MAX_ORDER" using assms(2) by (auto simp: heads_def)
  have "heads (F(k := remove1 b (F k))) = B - {(b, k)}"
    using heads_remove [of k F b, OF k rings_ok_distinct [OF buddy_rep_parts(2) [OF F(1)] k]] F(2) by simp
  then show ?thesis using buddy_take_buddy_rep [OF F(1), of b k] F(2) assms(2)
    by (auto simp: buddy_inv_def)
qed

lemma buddy_take_buddy_same: "db_same {b} s (buddy_take_buddy b k s)"
  by (simp add: db_same_def buddy_take_buddy_def buddy_page_defs Let_def)

lemma buddy_add_to_free_list_inv:
  assumes "buddy_inv s B" and "blk_ok (nframes s) (p, k)" and "blk_frames (p, k) \<inter> free_frames B = {}"
    and "k < MM_MAX_ORDER - 1 \<Longrightarrow> buddy_of (p, k) \<notin> B"
  shows "buddy_inv (upd_nr_free_pages (\<lambda>n. n + push_bit k 1) (buddy_add_to_free_list p k s))
           (insert (p, k) B)"
proof -
  from assms(1) obtain F where F: "buddy_rep s F" "heads F = B" by (auto simp: buddy_inv_def)
  have k: "k < MM_MAX_ORDER" using assms(2) by (simp add: blk_ok_def)
  have "heads (F(k := F k @ [p])) = insert (p, k) B"
    using heads_add [of k "F k @ [p]" p F] k F(2) by simp
  then show ?thesis using buddy_add_to_free_list_rep [OF F(1) assms(2)] F(2) assms(3,4)
    by (auto simp: buddy_inv_def)
qed

lemma buddy_add_to_free_list_same:
  "db_same {p} s (upd_nr_free_pages f (buddy_add_to_free_list p k s))"
  by (simp add: db_same_def buddy_add_to_free_list_def buddy_page_defs Let_def)

lemma buddy_get_inv:
  assumes "buddy_inv s B" and k: "k < MM_MAX_ORDER"
  obtains (Empty) "buddy_get_from_free_area k s = (None, s)" and "\<forall>p. (p, k) \<notin> B"
  | (Got) p s' where "buddy_get_from_free_area k s = (Some p, s')" and "(p, k) \<in> B"
      and "buddy_inv s' (B - {(p, k)})" and "db_same {p} s s'"
proof -
  from assms obtain F where F: "buddy_rep s F" "heads F = B" by (auto simp: buddy_inv_def)
  show ?thesis
  proof (cases "F k")
    case Nil
    moreover have "\<forall>p. (p, k) \<notin> B" using F(2) Nil by (auto simp: heads_def)
    ultimately show ?thesis using Empty buddy_get_empty [OF F(1) k] by blast
  next
    case (Cons p ps)
    obtain s' where s': "buddy_get_from_free_area k s = (Some p, s')"
      using buddy_get_Cons(1) [OF F(1) k Cons] by (metis prod.collapse)
    have "distinct (F k)" using rings_ok_distinct [OF buddy_rep_parts(2) [OF F(1)] k] .
    then have "heads (F(k := ps)) = B - {(p, k)}"
      using heads_remove [of k F p, OF k] Cons F(2) by simp
    then have "buddy_inv s' (B - {(p, k)})"
      using buddy_get_Cons(2) [OF F(1) k Cons] s' by (auto simp: buddy_inv_def)
    moreover have "(p, k) \<in> B" using Cons F(2) k by (auto simp: heads_def)
    moreover have "db_same {p} s s'"
      using s' by (auto simp: buddy_get_from_free_area_def db_same_def buddy_page_defs Let_def
          split: if_splits prod.splits option.splits)
    ultimately show ?thesis using Got s' by blast
  qed
qed

section \<open>Splitting a block\<close>

lemma blk_halves:
  "blk_frames (p, Suc k) = blk_frames (p, k) \<union> blk_frames (p + 2 ^ k, k)"
  "blk_frames (p, k) \<inter> blk_frames (p + 2 ^ k, k) = {}"
  by (auto simp: blk_frames_def)

lemma blk_frames_mono: "j \<le> k \<Longrightarrow> blk_frames (p, j) \<subseteq> blk_frames (p, k)"
  using power_increasing [of j k "2 :: nat"] by (auto simp: blk_frames_def)

lemma blk_ok_halves:
  assumes "blk_ok n (p, Suc k)"
  shows "blk_ok n (p, k)" and "blk_ok n (p + 2 ^ k, k)"
proof -
  have "2 ^ k dvd p" using assms by (auto simp: blk_ok_def elim: dvd_trans [rotated])
  then show "blk_ok n (p, k)" and "blk_ok n (p + 2 ^ k, k)" using assms by (auto simp: blk_ok_def)
qed

lemma push_bit_Suc_half: "k < 63 \<Longrightarrow> drop_bit 1 (push_bit (Suc k) 1 :: u64) = push_bit k 1"
  by (rule bit_word_eqI) (auto simp: bit_simps)

lemma unat_push_bit_one: "k < 64 \<Longrightarrow> unat (push_bit k 1 :: u64) = 2 ^ k"
  by (simp only: push_bit_one_u64 unat_of_nat, rule mod_less, rule power_strict_increasing) simp_all

lemma buddy_split_loop_inv:
  assumes "buddy_inv s B" and "blk_ok (nframes s) (p, high)"
    and "blk_frames (p, high) \<inter> free_frames B = {}" and "low \<le> high"
  shows "\<exists>B'. buddy_inv (buddy_split_loop p low high (push_bit high 1) s) B' \<and>
      free_frames B' = free_frames B \<union> (blk_frames (p, high) - blk_frames (p, low)) \<and>
      db_same (blk_frames (p, high) - {p}) s (buddy_split_loop p low high (push_bit high 1) s)"
  using assms
proof (induction high arbitrary: s B)
  case 0
  then show ?case by auto
next
  case (Suc h)
  show ?case
  proof (cases "low = Suc h")
    case True
    then show ?thesis using Suc.prems(1) by auto
  next
    case False
    then have low: "low \<le> h" using Suc.prems(4) by simp
    have h: "h < 10" using Suc.prems(2) by (simp add: blk_ok_def MM_MAX_ORDER_def)
    let ?q = "p + 2 ^ h"
    let ?s = "upd_nr_free_pages (\<lambda>n. n + push_bit h 1) (buddy_add_to_free_list ?q h s)"
    note halves = blk_halves [of p h]
    have "p \<notin> free_frames B" using Suc.prems(3) fst_in_blk_frames [of "(p, Suc h)"] by auto
    then have "buddy_of (?q, h) \<notin> B"
      using Suc.prems(2) head_in_free_frames buddy_of_low_half [of h p] by (auto simp: buddy_of_def blk_ok_def)
    moreover have "blk_frames (?q, h) \<inter> free_frames B = {}" using Suc.prems(3) halves(1) by blast
    ultimately have inv: "buddy_inv ?s (insert (?q, h) B)"
      by (intro buddy_add_to_free_list_inv [OF Suc.prems(1) blk_ok_halves(2) [OF Suc.prems(2)]]) auto
    have same: "db_same {?q} s ?s" by (rule buddy_add_to_free_list_same)
    have step: "buddy_split_loop p low (Suc h) (push_bit (Suc h) 1) s = buddy_split_loop p low h (push_bit h 1) ?s"
      using low push_bit_Suc_half [of h] unat_push_bit_one [of h] h
      by (simp only: buddy_split_loop.simps Let_def less_Suc_eq_le if_True)
    have "blk_frames (p, h) \<inter> free_frames (insert (?q, h) B) = {}" using Suc.prems(3) halves by auto
    with Suc.IH [OF inv _ _ low] blk_ok_halves(1) [OF Suc.prems(2)] db_same_nframes [OF same]
    obtain B' where B': "buddy_inv (buddy_split_loop p low h (push_bit h 1) ?s) B'"
      "free_frames B' = free_frames (insert (?q, h) B) \<union> (blk_frames (p, h) - blk_frames (p, low))"
      "db_same (blk_frames (p, h) - {p}) ?s (buddy_split_loop p low h (push_bit h 1) ?s)" by auto
    have "blk_frames (p, low) \<subseteq> blk_frames (p, h)" by (rule blk_frames_mono [OF low])
    then have "free_frames B' = free_frames B \<union> (blk_frames (p, Suc h) - blk_frames (p, low))"
      using B'(2) halves by auto
    moreover have "db_same (blk_frames (p, Suc h) - {p}) s (buddy_split_loop p low h (push_bit h 1) ?s)"
      by (rule db_same_trans [OF same B'(3)]) (auto simp: blk_frames_def)
    ultimately show ?thesis using B'(1) unfolding step by blast
  qed
qed

section \<open>Allocation\<close>

lemma MM_MAX_ORDER_Suc: "MM_MAX_ORDER = Suc 10"
  by (simp add: MM_MAX_ORDER_def)

lemma buddy_order_from_least:
  assumes "n \<le> push_bit (i + c) 1" and "\<forall>j<i. \<not> n \<le> push_bit j (1::u64)" and "i + c < m"
  shows "n \<le> push_bit (buddy_order_from (Suc c) i n) 1 \<and> buddy_order_from (Suc c) i n \<le> i + c \<and>
     (\<forall>j < buddy_order_from (Suc c) i n. \<not> n \<le> push_bit j 1)"
  using assms
proof (induction c arbitrary: i)
  case 0
  then show ?case by simp
next
  case (Suc c)
  show ?case
  proof (cases "n \<le> push_bit i 1")
    case True
    then show ?thesis using Suc.prems by simp
  next
    case False
    then have "\<forall>j<Suc i. \<not> n \<le> push_bit j (1::u64)" using Suc.prems(2) less_Suc_eq by auto
    with Suc.IH [of "Suc i"] Suc.prems False show ?thesis by simp
  qed
qed

text \<open>The order of a request: the least \<open>k\<close> with \<open>n \<le> 2 ^ k\<close>.\<close>

definition order_for :: "u64 \<Rightarrow> nat" where
  "order_for n = (LEAST k. unat n \<le> 2 ^ k)"

lemma order_for_1: "order_for 1 = 0"
  unfolding order_for_def by (rule Least_equality) simp_all

lemma buddy_order_from_eq:
  assumes "unat n \<le> 1024"
  shows "buddy_order_from MM_MAX_ORDER 0 n = order_for n" and "order_for n < MM_MAX_ORDER"
    and "unat n \<le> 2 ^ order_for n"
proof -
  have le: "n \<le> push_bit k 1 \<longleftrightarrow> unat n \<le> 2 ^ k" if "k < 64" for k
    using unat_push_bit_one [OF that] by (simp add: word_le_nat_alt)
  define k where "k = buddy_order_from (Suc 10) 0 n"
  have "n \<le> push_bit (0 + 10) 1" using le [of 10] assms by simp
  then have *: "n \<le> push_bit k 1 \<and> k \<le> 10 \<and> (\<forall>j < k. \<not> n \<le> push_bit j 1)"
    using buddy_order_from_least [of n 0 10 11] unfolding k_def by (simp del: buddy_order_from.simps)
  have k: "order_for n = k"
    unfolding order_for_def
  proof (rule Least_equality)
    show "unat n \<le> 2 ^ k" using * le [of k] by simp
  next
    fix j assume j: "unat n \<le> 2 ^ j"
    show "k \<le> j"
    proof (rule ccontr)
      assume "\<not> k \<le> j"
      then have "j < k" "j < 64" using * by auto
      then show False using * le [of j] j by blast
    qed
  qed
  show "buddy_order_from MM_MAX_ORDER 0 n = order_for n"
    by (simp only: k k_def MM_MAX_ORDER_Suc)
  show "order_for n < MM_MAX_ORDER" using * by (simp add: k MM_MAX_ORDER_def)
  show "unat n \<le> 2 ^ order_for n" using * le [of k] by (simp add: k)
qed

lemma buddy_set_page_order_inv:
  assumes "buddy_inv s B" and "p \<notin> free_frames B"
  shows "buddy_inv (buddy_set_page_order p k s) B"
proof -
  from assms(1) obtain F where F: "buddy_rep s F" "heads F = B" by (auto simp: buddy_inv_def)
  have p: "(p, j) \<notin> B" for j using assms(2) head_in_free_frames by blast
  have "flags_ok (buddy_set_page_order p k s) B"
    using buddy_rep_parts(3) [OF F(1)] p F(2)
    by (auto simp: flags_ok_def buddy_set_page_order_def nframes_def)
  then have "buddy_rep (buddy_set_page_order p k s) F"
    using F unfolding buddy_rep_def
    by (simp add: pfn_db_ok_def rings_ok_def count_ok_def buddy_set_page_order_def nframes_def)
  with F(2) show ?thesis by (auto simp: buddy_inv_def)
qed

text \<open>What a successful allocation of order \<open>k\<close> does to the free set.\<close>

definition alloc_ok :: "kmem \<Rightarrow> blk set \<Rightarrow> nat \<Rightarrow> nat \<Rightarrow> kmem \<Rightarrow> blk set \<Rightarrow> bool" where
  "alloc_ok s B k p s' B' \<longleftrightarrow> buddy_inv s' B' \<and> (\<exists>c. (p, c) \<in> B \<and> k \<le> c) \<and> blk_ok (nframes s) (p, k) \<and>
     blk_frames (p, k) \<subseteq> free_frames B \<and> free_frames B' = free_frames B - blk_frames (p, k) \<and>
     porder (pfn_database s' p) = of_nat k \<and> db_same (free_frames B) s s'"

lemma blk_ok_mono:
  assumes "blk_ok n (p, k)" and "j \<le> k"
  shows "blk_ok n (p, j)"
proof -
  have "2 ^ j dvd (2 ^ k :: nat)" using assms(2) by (rule le_imp_power_dvd)
  moreover have "p + 2 ^ j \<le> n"
    using assms le_trans [of "p + 2 ^ j" "p + 2 ^ k" n] by (simp add: blk_ok_def)
  ultimately show ?thesis
    using assms dvd_trans [of "2 ^ j" "2 ^ k" p] by (simp add: blk_ok_def)
qed

lemma buddy_split_alloc:
  assumes inv: "buddy_inv s B" and pk: "(p, c) \<in> B" and kc: "k \<le> c"
    and inv': "buddy_inv s' (B - {(p, c)})" and same: "db_same {p} s s'"
  shows "\<exists>B'. alloc_ok s B k p (buddy_set_page_order p k (buddy_split p k c s')) B'"
proof -
  note wf = buddy_inv_wf [OF inv]
  have ok: "blk_ok (nframes s) (p, c)" using wf pk by (auto simp: wf_blocks_def)
  have sub: "blk_frames (p, c) \<subseteq> free_frames B" using pk by (auto simp: free_frames_def)
  have rest: "free_frames (B - {(p, c)}) = free_frames B - blk_frames (p, c)"
    by (rule free_frames_remove [OF wf pk])
  obtain B' where B': "buddy_inv (buddy_split p k c s') B'"
    "free_frames B' = free_frames (B - {(p, c)}) \<union> (blk_frames (p, c) - blk_frames (p, k))"
    "db_same (blk_frames (p, c) - {p}) s' (buddy_split p k c s')"
    using buddy_split_loop_inv [OF inv' _ _ kc, of p] ok rest db_same_nframes [OF same]
    by (auto simp: buddy_split_def)
  have kp: "blk_frames (p, k) \<subseteq> blk_frames (p, c)" by (rule blk_frames_mono [OF kc])
  have p: "p \<in> blk_frames (p, k)" by (simp add: blk_frames_def)
  have free: "free_frames B' = free_frames B - blk_frames (p, k)" using B'(2) rest sub kp by blast
  have "db_same (free_frames B) s (buddy_split p k c s')"
    by (rule db_same_trans [OF same B'(3)]) (use sub kp p in blast)
  then have "db_same (free_frames B) s (buddy_set_page_order p k (buddy_split p k c s'))"
    using sub kp p by (auto simp: db_same_def buddy_set_page_order_def)
  moreover have "buddy_inv (buddy_set_page_order p k (buddy_split p k c s')) B'"
    using buddy_set_page_order_inv [OF B'(1)] free p by blast
  ultimately show ?thesis
    using free sub kp blk_ok_mono [OF ok kc] pk kc
    by (auto simp: alloc_ok_def buddy_set_page_order_def intro!: exI [of _ B'])
qed

lemma buddy_alloc_from_spec:
  assumes "buddy_inv s B" and "curr_order + c = MM_MAX_ORDER" and "k \<le> curr_order"
  shows "case buddy_alloc_from c curr_order k s of
           (None, s') \<Rightarrow> s' = s \<and> (\<forall>(p, j) \<in> B. j < curr_order)
         | (Some p, s') \<Rightarrow> \<exists>B'. alloc_ok s B k p s' B'"
  using assms
proof (induction c arbitrary: curr_order)
  case 0
  then show ?case using buddy_inv_wf [OF 0(1)] by (auto simp: wf_blocks_def blk_ok_def)
next
  case (Suc c)
  have "curr_order < MM_MAX_ORDER" using Suc.prems(2) by simp
  from Suc.prems(1) this show ?case
  proof (cases rule: buddy_get_inv)
    case Empty
    have "case buddy_alloc_from c (Suc curr_order) k s of
           (None, s') \<Rightarrow> s' = s \<and> (\<forall>(p, j) \<in> B. j < Suc curr_order)
         | (Some p, s') \<Rightarrow> \<exists>B'. alloc_ok s B k p s' B'"
      using Suc.IH [of "Suc curr_order"] Suc.prems by simp
    moreover have "(\<forall>(p, j) \<in> B. j < Suc curr_order) \<longrightarrow> (\<forall>(p, j) \<in> B. j < curr_order)"
      using Empty(2) less_antisym by blast
    ultimately show ?thesis using Empty(1) by (auto split: prod.splits option.splits)
  next
    case (Got p s')
    then show ?thesis using buddy_split_alloc [OF Suc.prems(1) Got(2) Suc.prems(3) Got(3,4)] by simp
  qed
qed

lemma buddy_alloc_pages_spec:
  assumes "buddy_inv s B"
  shows "case buddy_alloc_pages n s of
           (None, s') \<Rightarrow> s' = s \<and> (unat n > 1024 \<or> (\<forall>(p, j) \<in> B. 2 ^ j < unat n))
         | (Some p, s') \<Rightarrow> unat n \<le> 1024 \<and> (\<exists>B'. alloc_ok s B (order_for n) p s' B')"
proof (cases "unat n \<le> 1024")
  case False
  moreover have "n > push_bit 10 1" using False unat_push_bit_one [of 10] by (simp add: word_less_nat_alt)
  ultimately show ?thesis by (simp add: buddy_alloc_pages_def MM_MAX_ORDER_def)
next
  case True
  note ord = buddy_order_from_eq [OF True]
  have "\<not> n > push_bit 10 1" using True unat_push_bit_one [of 10] by (simp add: word_less_nat_alt)
  then have eq: "buddy_alloc_pages n s =
      buddy_alloc_from (MM_MAX_ORDER - order_for n) (order_for n) (order_for n) s"
    using ord(2) by (simp add: buddy_alloc_pages_def ord(1) Let_def) (simp add: MM_MAX_ORDER_def)
  have small: "2 ^ j < unat n" if "j < order_for n" for j
    using not_less_Least [of j "\<lambda>k. unat n \<le> 2 ^ k"] that by (simp add: order_for_def)
  show ?thesis
    using buddy_alloc_from_spec [OF assms, of "order_for n" "MM_MAX_ORDER - order_for n" "order_for n"]
      ord(2) small True unfolding eq
    by (auto split: prod.splits option.splits)
qed

section \<open>Freeing\<close>

text \<open>The last step of \<^verbatim>\<open>_buddy_free_pages\<close>.\<close>

definition buddy_insert_free :: "nat \<Rightarrow> nat \<Rightarrow> kmem \<Rightarrow> kmem" where
  "buddy_insert_free p k s =
     (let s1 = buddy_set_page_buddy p s;
          s2 = buddy_set_page_order p k s1;
          s3 = upd_links (dlist_add_next (FreeHead k) (PageEntry p)) s2;
          s4 = upd_nr_free k (\<lambda>n. n + 1) s3
      in upd_nr_free_pages (\<lambda>n. n + push_bit k 1) s4)"

lemma buddy_insert_free_same: "db_same {p} s (buddy_insert_free p k s)"
  by (simp add: db_same_def buddy_insert_free_def buddy_page_defs Let_def)

lemma buddy_insert_free_inv:
  assumes inv: "buddy_inv s B" and ok: "blk_ok (nframes s) (p, k)"
    and disj: "blk_frames (p, k) \<inter> free_frames B = {}"
    and bud: "k < MM_MAX_ORDER - 1 \<Longrightarrow> buddy_of (p, k) \<notin> B"
  shows "buddy_inv (buddy_insert_free p k s) (insert (p, k) B)"
proof -
  let ?s = "buddy_insert_free p k s"
  from inv obtain F where F: "buddy_rep s F" "heads F = B" by (auto simp: buddy_inv_def)
  have k: "k < MM_MAX_ORDER" using ok by (simp add: blk_ok_def)
  note ring = buddy_rep_ring(1) [OF F(1) k]
  have new: "p \<notin> set (F k)"
    using disj head_in_free_frames [of p k B] fst_in_blk_frames [of "(p, k)"] k F(2)
    by (auto simp: heads_def)
  have "buddy_rep ?s (F(k := p # F k))"
  proof (rule buddy_rep_add [OF F(1) ok])
    show "page_changed s p
        ((pfn_database s p)\<lparr>flags := flags (pfn_database s p) OR 1, porder := of_nat k\<rparr>) ?s"
      by (simp add: page_changed_def buddy_insert_free_def buddy_page_defs Let_def)
  next
    show "is_dlist (free_links ?s) (FreeHead k) (map PageEntry (p # F k))"
      using dlist_add_next_head [OF ring, of "PageEntry p"] new
      by (auto simp: buddy_insert_free_def buddy_page_defs Let_def)
  next
    show "same_links (- insert (PageEntry p) (insert (FreeHead k) (set (map PageEntry (F k)))))
            (free_links s) (free_links ?s)"
      using dlist_add_next_same [OF ring, of "PageEntry p"]
      by (simp add: buddy_insert_free_def buddy_page_defs Let_def)
  qed (use disj bud F(2) in \<open>simp_all add: buddy_insert_free_def buddy_page_defs Let_def\<close>)
  moreover have "heads (F(k := p # F k)) = insert (p, k) B"
    using heads_add [of k "p # F k" p F] k F(2) by simp
  ultimately show ?thesis by (auto simp: buddy_inv_def)
qed

lemma unat_xor_pow:
  assumes "p < 2 ^ 52" and "k < 64"
  shows "unat (of_nat p XOR push_bit k 1 :: u64) = p XOR 2 ^ k"
    and "unat (of_nat p AND (of_nat p XOR push_bit k 1) :: u64) = p AND (p XOR 2 ^ k)"
proof -
  have "unat (of_nat p :: u64) = p" using assms(1) by (simp add: unat_of_nat)
  then show "unat (of_nat p XOR push_bit k 1 :: u64) = p XOR 2 ^ k"
    and "unat (of_nat p AND (of_nat p XOR push_bit k 1) :: u64) = p AND (p XOR 2 ^ k)"
    using unat_push_bit_one [OF assms(2)] by (simp_all only: unsigned_xor_eq unsigned_and_eq)
qed

lemma unat_push_drop_12: "unat (push_bit 12 (drop_bit 12 w :: u64)) = unat (drop_bit 12 w) * 4096"
proof -
  have "unat (drop_bit 12 w) = unat w div 2 ^ 12" unfolding unat_drop_bit_eq by (rule drop_bit_eq_div)
  then have "unat (drop_bit 12 w) < 2 ^ 52" using unsigned_less [of w, where 'a = nat] by simp
  then show ?thesis by (simp add: push_bit_eq_mult unat_word_ariths)
qed

lemma xor_move: "a XOR b = c \<longleftrightarrow> b = a XOR c" for a b c :: "'a::len word"
  by (auto simp flip: xor.assoc)

lemma flags_ok_member:
  assumes "buddy_inv s B" and "b < nframes s" and "k < MM_MAX_ORDER"
  shows "in_buddy (pfn_database s b) \<and> unat (porder (pfn_database s b)) = k \<longleftrightarrow> (b, k) \<in> B"
proof -
  from assms(1) have fl: "flags_ok s B" by (auto simp: buddy_inv_def buddy_rep_def)
  have ord: "unat (porder (pfn_database s b)) = j" if "(b, j) \<in> B" for j
  proof -
    have "j < MM_MAX_ORDER" using buddy_inv_wf [OF assms(1)] that by (auto simp: wf_blocks_def blk_ok_def)
    moreover have "porder (pfn_database s b) = of_nat j" using fl that by (auto simp: flags_ok_def)
    ultimately show ?thesis by (simp add: MM_MAX_ORDER_def unat_of_nat)
  qed
  have "in_buddy (pfn_database s b) \<longleftrightarrow> (\<exists>j. (b, j) \<in> B)" using fl assms(2) by (simp add: flags_ok_def)
  with ord show ?thesis by blast
qed

lemma buddy_page_is_buddy_iff:
  assumes inv: "buddy_inv s B" and ok: "blk_ok (nframes s) (p, k)"
  shows "buddy_page_is_buddy p (p XOR 2 ^ k) k s \<longleftrightarrow> buddy_of (p, k) \<in> B"
proof -
  let ?b = "p XOR 2 ^ k"
  have k: "k < MM_MAX_ORDER" and k64: "k < 64" and p: "p < nframes s"
    using ok by (auto simp: blk_ok_def MM_MAX_ORDER_def intro: less_le_trans [of p "p + 2 ^ k"])
  note db = buddy_inv_db [OF inv]
  have p52: "p < 2 ^ 52" using p nframes_less [of s] by simp
  have pfn: "page_to_pfn (pfn_database s p) = of_nat p" by (rule page_to_pfn_ok [OF db p])
  define x where "x = page_to_pfn (pfn_database s ?b)"
  have xor: "of_nat p XOR x = push_bit k 1 \<longleftrightarrow> unat x = ?b"
  proof -
    have "of_nat p XOR x = push_bit k 1 \<longleftrightarrow> x = of_nat p XOR push_bit k 1" by (rule xor_move)
    also have "\<dots> \<longleftrightarrow> unat x = ?b" using unat_xor_pow(1) [OF p52 k64] by (metis word_unat_eq_iff)
    finally show ?thesis .
  qed
  have lim: "push_bit 12 x \<ge> phys_limit s \<longleftrightarrow> nframes s \<le> ?b" if "unat x = ?b"
  proof -
    have "x = drop_bit 12 (phys_addr (pfn_database s ?b))" by (simp add: x_def page_to_pfn_def)
    then have "unat (push_bit 12 x) = ?b * 4096" using that by (simp add: unat_push_drop_12)
    moreover have "4096 dvd unat (phys_limit s)" using db by (simp add: pfn_db_ok_def)
    ultimately show ?thesis by (auto simp: nframes_def word_le_nat_alt elim!: dvdE)
  qed
  show ?thesis
  proof (cases "?b < nframes s")
    case True
    then have "unat x = ?b" using page_to_pfn_ok [OF db True] by (simp add: x_def)
    then show ?thesis using True pfn xor lim flags_ok_member [OF inv True k]
      by (simp add: buddy_page_is_buddy_def Let_def buddy_of_def flip: x_def)
  next
    case False
    then have "buddy_of (p, k) \<notin> B"
      using head_in_range [OF buddy_inv_wf [OF inv]] by (auto simp: buddy_of_def)
    moreover have "\<not> buddy_page_is_buddy p ?b k s"
      using False pfn xor lim by (simp add: buddy_page_is_buddy_def Let_def flip: x_def)
    ultimately show ?thesis by simp
  qed
qed

lemma blk_ok_merge:
  assumes ok: "blk_ok n (p, k)" and k: "k < MM_MAX_ORDER - 1" and bud: "blk_ok n (buddy_of (p, k))"
  shows "blk_ok n (p AND (p XOR 2 ^ k), Suc k)"
proof -
  let ?q = "p AND (p XOR 2 ^ k)"
  have "2 ^ k dvd p" using ok by (simp add: blk_ok_def)
  note m = merge_aligned [OF this]
  obtain c where c: "2 ^ Suc k = Suc c" by (metis gr0_conv_Suc zero_less_numeral zero_less_power)
  then have "?q + c \<in> blk_frames (?q, Suc k)" unfolding blk_frames_def fst_conv snd_conv c by simp
  then have "?q + c < n"
    unfolding m(1) [symmetric] using ok bud by (auto simp: blk_frames_def blk_ok_def)
  then have "?q + 2 ^ Suc k \<le> n" unfolding c by simp
  with m(2) k show ?thesis by (simp add: blk_ok_def)
qed

definition coalesce_ok :: "kmem \<Rightarrow> blk set \<Rightarrow> blk \<Rightarrow> nat \<times> nat \<times> kmem \<Rightarrow> bool" where
  "coalesce_ok s B b r \<longleftrightarrow> (case r of (p', k', s') \<Rightarrow>
     \<exists>B'. buddy_inv s' B' \<and> blk_ok (nframes s) (p', k') \<and> blk_frames (p', k') \<inter> free_frames B' = {} \<and>
       blk_frames (p', k') \<union> free_frames B' = blk_frames b \<union> free_frames B \<and>
       (k' < MM_MAX_ORDER - 1 \<longrightarrow> buddy_of (p', k') \<notin> B') \<and> db_same (free_frames B) s s')"

lemma coalesce_ok_done:
  assumes "buddy_inv s B" and "blk_ok (nframes s) (p, k)" and "blk_frames (p, k) \<inter> free_frames B = {}"
    and "k < MM_MAX_ORDER - 1 \<longrightarrow> buddy_of (p, k) \<notin> B"
  shows "coalesce_ok s B (p, k) (p, k, s)"
  using assms by (auto simp: coalesce_ok_def)

lemma coalesce_ok_step:
  assumes inv: "buddy_inv s B" and ok: "blk_ok (nframes s) (p, k)"
    and disj: "blk_frames (p, k) \<inter> free_frames B = {}" and k: "k < MM_MAX_ORDER - 1"
    and bud: "buddy_of (p, k) \<in> B"
  defines "s1 \<equiv> buddy_take_buddy (p XOR 2 ^ k) k s" and "q \<equiv> p AND (p XOR 2 ^ k)"
  shows "buddy_inv s1 (B - {buddy_of (p, k)})" and "blk_ok (nframes s1) (q, Suc k)"
    and "blk_frames (q, Suc k) \<inter> free_frames (B - {buddy_of (p, k)}) = {}"
    and "coalesce_ok s1 (B - {buddy_of (p, k)}) (q, Suc k) r \<Longrightarrow> coalesce_ok s B (p, k) r"
proof -
  note wf = buddy_inv_wf [OF inv]
  have m: "blk_frames (q, Suc k) = blk_frames (p, k) \<union> blk_frames (buddy_of (p, k))"
    using ok merge_aligned(1) [of k p] by (simp add: q_def blk_ok_def)
  have rest: "free_frames (B - {buddy_of (p, k)}) = free_frames B - blk_frames (buddy_of (p, k))"
    by (rule free_frames_remove [OF wf bud])
  have sub: "blk_frames (buddy_of (p, k)) \<subseteq> free_frames B" using bud by (auto simp: free_frames_def)
  show "buddy_inv s1 (B - {buddy_of (p, k)})"
    using buddy_take_buddy_inv [OF inv] bud by (simp add: s1_def buddy_of_def)
  have same: "db_same {p XOR 2 ^ k} s s1" unfolding s1_def by (rule buddy_take_buddy_same)
  have n1: "nframes s1 = nframes s" by (rule db_same_nframes [OF same])
  show "blk_ok (nframes s1) (q, Suc k)"
    unfolding n1 q_def by (rule blk_ok_merge [OF ok k]) (use wf bud in \<open>auto simp: wf_blocks_def\<close>)
  show "blk_frames (q, Suc k) \<inter> free_frames (B - {buddy_of (p, k)}) = {}"
    using disj rest m by blast
  have "p XOR 2 ^ k \<in> free_frames B" using bud head_in_free_frames by (simp add: buddy_of_def)
  then have "db_same (free_frames B) s s'" if "db_same (free_frames (B - {buddy_of (p, k)})) s1 s'" for s'
    by (intro db_same_trans [OF same that]) (use rest in auto)
  then show "coalesce_ok s1 (B - {buddy_of (p, k)}) (q, Suc k) r \<Longrightarrow> coalesce_ok s B (p, k) r"
    using m rest sub n1 by (fastforce simp: coalesce_ok_def)
qed

lemma buddy_coalesce_spec:
  assumes "buddy_inv s B" and "blk_ok (nframes s) (p, k)" and "blk_frames (p, k) \<inter> free_frames B = {}"
  shows "coalesce_ok s B (p, k) (buddy_coalesce p (of_nat p) k s)"
  using assms
proof (induction "MM_MAX_ORDER - k" arbitrary: s B p k rule: less_induct)
  case less
  have p: "p < nframes s" using less.prems(2)
    by (auto simp: blk_ok_def intro: less_le_trans [of p "p + 2 ^ k"])
  then have idx: "unat (of_nat p XOR push_bit k 1 :: u64) = p XOR 2 ^ k"
      "unat (of_nat p AND (of_nat p XOR push_bit k 1) :: u64) = p AND (p XOR 2 ^ k)"
    using unat_xor_pow [of p k] nframes_less [of s] less.prems(2) by (simp_all add: blk_ok_def MM_MAX_ORDER_def)
  note isb = buddy_page_is_buddy_iff [OF less.prems(1,2)]
  show ?case
  proof (cases "k < MM_MAX_ORDER - 1 \<and> buddy_of (p, k) \<in> B")
    case False
    then have "buddy_coalesce p (of_nat p) k s = (p, k, s)"
      using isb idx by (subst buddy_coalesce.simps) (auto simp: Let_def)
    with coalesce_ok_done [OF less.prems] False show ?thesis by simp
  next
    case True
    let ?s = "buddy_take_buddy (p XOR 2 ^ k) k s" and ?q = "p AND (p XOR 2 ^ k)"
    note step = coalesce_ok_step [OF less.prems conjunct1 [OF True] conjunct2 [OF True]]
    have q: "?q < nframes ?s" using step(2)
      by (auto simp: blk_ok_def intro: less_le_trans [of ?q "?q + 2 ^ Suc k"])
    have "page_to_pfn (pfn_database ?s ?q) = of_nat ?q"
      by (rule page_to_pfn_ok(1) [OF buddy_inv_db q]) (rule step(1))
    then have "buddy_coalesce p (of_nat p) k s = buddy_coalesce ?q (of_nat ?q) (Suc k) ?s"
      using isb idx True by (subst buddy_coalesce.simps) (simp add: Let_def)
    moreover have "coalesce_ok ?s (B - {buddy_of (p, k)}) (?q, Suc k) (buddy_coalesce ?q (of_nat ?q) (Suc k) ?s)"
      by (rule less.hyps) (use step True in auto)
    ultimately show ?thesis using step(4) True by simp
  qed
qed

lemma buddy_free_pages_spec:
  assumes inv: "buddy_inv s B" and ok: "blk_ok (nframes s) (p, k)"
    and disj: "blk_frames (p, k) \<inter> free_frames B = {}"
  shows "\<exists>s' B'. buddy_free_pages p k s = Inr s' \<and> buddy_inv s' B' \<and>
      free_frames B' = free_frames B \<union> blk_frames (p, k) \<and>
      db_same (free_frames B \<union> blk_frames (p, k)) s s'"
proof -
  have p: "p < nframes s" using ok by (auto simp: blk_ok_def intro: less_le_trans [of p "p + 2 ^ k"])
  have pfn: "page_to_pfn (pfn_database s p) = of_nat p" by (rule page_to_pfn_ok(1) [OF buddy_inv_db [OF inv] p])
  obtain p' k' s1 where co: "buddy_coalesce p (of_nat p) k s = (p', k', s1)" by (metis prod_cases3)
  with buddy_coalesce_spec [OF assms] obtain B1 where B1: "buddy_inv s1 B1" "blk_ok (nframes s) (p', k')"
    "blk_frames (p', k') \<inter> free_frames B1 = {}"
    "blk_frames (p', k') \<union> free_frames B1 = blk_frames (p, k) \<union> free_frames B"
    "k' < MM_MAX_ORDER - 1 \<longrightarrow> buddy_of (p', k') \<notin> B1" "db_same (free_frames B) s s1"
    by (auto simp: coalesce_ok_def)
  let ?s = "buddy_insert_free p' k' s1"
  have "k' < MM_MAX_ORDER" using B1(2) by (simp add: blk_ok_def)
  then have "buddy_free_pages p k s = Inr ?s"
    by (simp add: buddy_free_pages_def pfn co buddy_insert_free_def Let_def)
  moreover have "buddy_inv ?s (insert (p', k') B1)"
    by (rule buddy_insert_free_inv [OF B1(1) _ B1(3)]) (use B1(2,5) db_same_nframes [OF B1(6)] in auto)
  moreover have "p' \<in> free_frames B \<union> blk_frames (p, k)" using B1(4) fst_in_blk_frames [of "(p', k')"] by auto
  then have "db_same (free_frames B \<union> blk_frames (p, k)) s ?s"
    by (intro db_same_trans [OF B1(6) buddy_insert_free_same]) auto
  moreover have "free_frames (insert (p', k') B1) = free_frames B \<union> blk_frames (p, k)" using B1(4) by auto
  ultimately show ?thesis by blast
qed

section \<open>The entry points\<close>

lemma nr_free_pages_card:
  assumes "buddy_inv s B"
  shows "unat (nr_free_pages s) = card (free_frames B)"
proof -
  note wf = buddy_inv_wf [OF assms]
  have "card (free_frames B) \<le> card {..<nframes s}"
    by (rule card_mono [OF finite_lessThan free_frames_bound [OF wf]])
  then have "card (free_frames B) < 2 ^ 52" using nframes_less [of s] by simp
  moreover have "nr_free_pages s = of_nat (card (free_frames B))"
    using assms card_free_frames [OF wf] by (auto simp: buddy_inv_def buddy_rep_def count_ok_def)
  ultimately show ?thesis by (simp add: unat_of_nat)
qed

lemma block_le_nr_free_pages:
  assumes "buddy_inv s B" and "(p, j) \<in> B"
  shows "2 ^ j \<le> unat (nr_free_pages s)"
proof -
  have "blk_frames (p, j) \<subseteq> free_frames B" using assms(2) by (auto simp: free_frames_def)
  moreover have "finite (free_frames B)"
    using free_frames_bound [OF buddy_inv_wf [OF assms(1)]] finite_subset by blast
  ultimately have "card (blk_frames (p, j)) \<le> card (free_frames B)" by (rule card_mono [rotated])
  then show ?thesis by (simp add: nr_free_pages_card [OF assms(1)])
qed

lemma alloc_ok_pfn:
  assumes "alloc_ok s B k p s' B'" and "pfn_db_ok s"
  shows "page_to_pfn (pfn_database s' p) = of_nat p" and "unat (of_nat p :: u64) = p"
proof -
  have p: "p < nframes s'" using assms(1) db_same_nframes [of _ s s']
    by (auto simp: alloc_ok_def blk_ok_def intro: less_le_trans [of p "p + 2 ^ k"])
  have "pfn_db_ok s'" using assms(1) buddy_inv_db by (auto simp: alloc_ok_def)
  from page_to_pfn_ok [OF this p]
  show "page_to_pfn (pfn_database s' p) = of_nat p" and "unat (of_nat p :: u64) = p" by simp_all
qed

lemma pmm_alloc_pages_Inr:
  assumes inv: "buddy_inv s B" and n: "n \<noteq> 0" and run: "pmm_alloc_pages n s = (Inr pfn, s')"
  shows "\<exists>B'. alloc_ok s B (order_for n) (unat pfn) s' B'" and "unat n \<le> 2 ^ order_for n"
proof -
  obtain p where b: "buddy_alloc_pages n s = (Some p, s')" and pfn: "pfn = page_to_pfn (pfn_database s' p)"
    using n run by (auto simp: pmm_alloc_pages_def split: if_splits prod.splits option.splits)
  have le: "unat n \<le> 1024" and "\<exists>B'. alloc_ok s B (order_for n) p s' B'"
    using buddy_alloc_pages_spec [OF inv, of n] b by auto
  then show "\<exists>B'. alloc_ok s B (order_for n) (unat pfn) s' B'"
    using alloc_ok_pfn [OF _ buddy_inv_db [OF inv]] pfn by metis
  show "unat n \<le> 2 ^ order_for n" by (rule buddy_order_from_eq(3) [OF le])
qed

lemma pow_order_mono: "a \<le> 2 ^ j \<Longrightarrow> j \<le> k \<Longrightarrow> a \<le> 2 ^ k" for a :: nat
  by (rule order_trans [OF _ power_increasing]) simp_all

lemma buddy_alloc_pages_None_iff:
  assumes inv: "buddy_inv s B"
  shows "fst (buddy_alloc_pages n s) = None \<longleftrightarrow> unat n > 1024 \<or> (\<forall>(p, j) \<in> B. 2 ^ j < unat n)"
proof (cases "buddy_alloc_pages n s")
  case (Pair r s')
  note spec = buddy_alloc_pages_spec [OF inv, of n]
  show ?thesis
  proof (cases r)
    case None
    with spec Pair show ?thesis by simp
  next
    case (Some p)
    with spec Pair obtain B' where le: "unat n \<le> 1024" and "alloc_ok s B (order_for n) p s' B'" by auto
    then obtain c where c: "(p, c) \<in> B" "order_for n \<le> c" by (auto simp: alloc_ok_def)
    have "unat n \<le> 2 ^ c" by (rule pow_order_mono [OF buddy_order_from_eq(3) [OF le] c(2)])
    with c(1) le Some Pair show ?thesis by force
  qed
qed

lemma pmm_alloc_pages_fails:
  assumes inv: "buddy_inv s B" and n: "n \<noteq> 0" and le: "n \<le> nr_free_pages s"
    and none: "unat n > 1024 \<or> (\<forall>(p, j) \<in> B. 2 ^ j < unat n)"
  shows "pmm_alloc_pages n s = (Inl NullDeref, s)"
proof -
  have "fst (buddy_alloc_pages n s) = None" using buddy_alloc_pages_None_iff [OF inv] none by blast
  then have "buddy_alloc_pages n s = (None, s)"
    using buddy_alloc_pages_spec [OF inv, of n] by (auto split: prod.splits)
  then show ?thesis using n le by (simp add: pmm_alloc_pages_def)
qed

lemma pmm_alloc_pages_succeeds:
  assumes inv: "buddy_inv s B" and n: "n \<noteq> 0" and pj: "(p, j) \<in> B" "unat n \<le> 2 ^ j"
  shows "\<exists>pfn s'. pmm_alloc_pages n s = (Inr pfn, s')"
proof -
  have "j \<le> 10" using buddy_inv_wf [OF inv] pj(1) by (auto simp: wf_blocks_def blk_ok_def MM_MAX_ORDER_def)
  then have "unat n \<le> 2 ^ 10" by (rule pow_order_mono [OF pj(2)])
  moreover have "\<not> (\<forall>(p, j) \<in> B. 2 ^ j < unat n)" using pj by force
  ultimately have "fst (buddy_alloc_pages n s) \<noteq> None"
    using buddy_alloc_pages_None_iff [OF inv, of n] by simp
  then obtain q s' where "buddy_alloc_pages n s = (Some q, s')" by (metis option.exhaust prod.collapse)
  moreover have "n \<le> nr_free_pages s"
    using block_le_nr_free_pages [OF inv pj(1)] pj(2) by (simp add: word_le_nat_alt)
  ultimately show ?thesis using n by (simp add: pmm_alloc_pages_def not_less)
qed

section \<open>Runs of allocations and frees\<close>

text \<open>A client that frees only what it was given: the state pairs the kernel state with the blocks
  handed out and not yet returned.  The order of a block is what the allocator recorded in its
  page entry.\<close>

inductive pmm_step :: "kmem \<times> blk set \<Rightarrow> kmem \<times> blk set \<Rightarrow> bool" where
  Alloc: "pmm_alloc_pages n s = (Inr pfn, s') \<Longrightarrow> n \<noteq> 0 \<Longrightarrow>
     pmm_step (s, A) (s', insert (unat pfn, unat (porder (pfn_database s' (unat pfn)))) A)"
| Free: "(p, k) \<in> A \<Longrightarrow> pmm_free_pages (of_nat p) s = Inr s' \<Longrightarrow> pmm_step (s, A) (s', A - {(p, k)})"

definition pmm_owned :: "kmem \<Rightarrow> blk set \<Rightarrow> bool" where
  "pmm_owned s A \<longleftrightarrow> (\<forall>(p, k) \<in> A. blk_ok (nframes s) (p, k) \<and> porder (pfn_database s p) = of_nat k) \<and>
     (\<forall>b\<in>A. \<forall>c\<in>A. b \<noteq> c \<longrightarrow> blk_frames b \<inter> blk_frames c = {})"

definition pmm_safe :: "nat set \<Rightarrow> kmem \<Rightarrow> blk set \<Rightarrow> bool" where
  "pmm_safe U s A \<longleftrightarrow> (\<exists>B. buddy_inv s B \<and> pmm_owned s A \<and>
     free_frames A \<inter> free_frames B = {} \<and> free_frames A \<union> free_frames B = U)"

lemma pmm_owned_db_same:
  assumes "pmm_owned s A" and "db_same C s s'" and "free_frames A \<inter> C = {}"
  shows "pmm_owned s' A"
proof -
  have "pfn_database s' p = pfn_database s p" if "(p, k) \<in> A" for p k
    using assms(2,3) head_in_free_frames [OF that] by (auto simp: db_same_def)
  then show ?thesis
    using assms(1) db_same_nframes [OF assms(2)] by (fastforce simp: pmm_owned_def)
qed

lemma pmm_owned_insert:
  assumes "pmm_owned s A" and "blk_ok (nframes s) (p, k)" and "porder (pfn_database s p) = of_nat k"
    and "blk_frames (p, k) \<inter> free_frames A = {}"
  shows "pmm_owned s (insert (p, k) A)"
proof -
  have "blk_frames (p, k) \<inter> blk_frames c = {}" if "c \<in> A" for c
    using assms(4) that by (auto simp: free_frames_def)
  with assms(1-3) show ?thesis unfolding pmm_owned_def by (auto simp: Int_commute)
qed

lemma unat_order: "k < MM_MAX_ORDER \<Longrightarrow> unat (of_nat k :: u16) = k"
  by (simp add: MM_MAX_ORDER_def unat_of_nat)

lemma pmm_free_owned:
  assumes inv: "buddy_inv s B" and own: "pmm_owned s A" and pk: "(p, k) \<in> A"
    and disj: "free_frames A \<inter> free_frames B = {}"
  shows "\<exists>s' B'. pmm_free_pages (of_nat p) s = Inr s' \<and> buddy_inv s' B' \<and>
      free_frames B' = free_frames B \<union> blk_frames (p, k) \<and> db_same (free_frames B \<union> blk_frames (p, k)) s s'"
proof -
  have ok: "blk_ok (nframes s) (p, k)" and ord: "porder (pfn_database s p) = of_nat k"
    using own pk by (auto simp: pmm_owned_def)
  have "p < nframes s" using ok by (auto simp: blk_ok_def intro: less_le_trans [of p "p + 2 ^ k"])
  then have p: "unat (of_nat p :: u64) = p" by (rule page_to_pfn_ok(2) [OF buddy_inv_db [OF inv]])
  have k: "unat (porder (pfn_database s p)) = k" using ok ord by (simp add: blk_ok_def unat_order)
  have "blk_frames (p, k) \<inter> free_frames B = {}" using disj pk by (auto simp: free_frames_def)
  from buddy_free_pages_spec [OF inv ok this] show ?thesis by (simp add: pmm_free_pages_def p k)
qed

lemma free_frames_remove_owned:
  assumes "pmm_owned s A" and "b \<in> A"
  shows "free_frames (A - {b}) = free_frames A - blk_frames b"
  using assms by (fastforce simp: pmm_owned_def free_frames_def)

lemma pmm_step_safe:
  assumes "pmm_step (s, A) (s', A')" and "pmm_safe U s A"
  shows "pmm_safe U s' A'"
  using assms(1)
proof cases
  case (Alloc n pfn)
  from assms(2) obtain B where B: "buddy_inv s B" "pmm_owned s A" "free_frames A \<inter> free_frames B = {}"
    "free_frames A \<union> free_frames B = U" by (auto simp: pmm_safe_def)
  from pmm_alloc_pages_Inr(1) [OF B(1) Alloc(3,2)] obtain B'
    where a: "alloc_ok s B (order_for n) (unat pfn) s' B'" ..
  let ?b = "(unat pfn, order_for n)"
  have same: "db_same (free_frames B) s s'" and sub: "blk_frames ?b \<subseteq> free_frames B"
    and ok: "blk_ok (nframes s) ?b" and rest: "free_frames B' = free_frames B - blk_frames ?b"
    and ord: "porder (pfn_database s' (unat pfn)) = of_nat (order_for n)" and inv: "buddy_inv s' B'"
    using a by (auto simp: alloc_ok_def)
  have A': "A' = insert ?b A" using Alloc(1) ok ord by (simp add: blk_ok_def unat_order)
  have "pmm_owned s' A" by (rule pmm_owned_db_same [OF B(2) same B(3)])
  then have "pmm_owned s' A'"
    unfolding A' by (rule pmm_owned_insert) (use ok ord sub B(3) db_same_nframes [OF same] in auto)
  with inv rest sub B(3,4) show ?thesis by (auto simp: pmm_safe_def A' intro!: exI [of _ B'])
next
  case (Free p k)
  from assms(2) obtain B where B: "buddy_inv s B" "pmm_owned s A" "free_frames A \<inter> free_frames B = {}"
    "free_frames A \<union> free_frames B = U" by (auto simp: pmm_safe_def)
  from pmm_free_owned [OF B(1,2) Free(2) B(3)] Free(3) obtain B' where B': "buddy_inv s' B'"
    "free_frames B' = free_frames B \<union> blk_frames (p, k)" "db_same (free_frames B \<union> blk_frames (p, k)) s s'"
    by auto
  have rest: "free_frames A' = free_frames A - blk_frames (p, k)"
    unfolding Free(1) by (rule free_frames_remove_owned [OF B(2) Free(2)])
  have sub: "blk_frames (p, k) \<subseteq> free_frames A" using Free(2) by (auto simp: free_frames_def)
  have "pmm_owned s A'" using B(2) by (auto simp: pmm_owned_def Free(1))
  then have "pmm_owned s' A'" by (rule pmm_owned_db_same [OF _ B'(3)]) (use rest B(3) in auto)
  with B'(1,2) rest sub B(3,4) show ?thesis by (auto simp: pmm_safe_def intro!: exI [of _ B'])
qed

lemma pmm_steps_safe:
  assumes "pmm_step\<^sup>*\<^sup>* (s, A) (s', A')" and "pmm_safe U s A"
  shows "pmm_safe U s' A'"
  using assms by (induction "(s', A')" arbitrary: s' A' rule: rtranclp_induct) (auto intro: pmm_step_safe)

end
