(* ===== verification/Paging.thy ===== *)
theory Paging
  imports Buddy
begin

text \<open>
  Four-level page tables and the recursive slot, \<^verbatim>\<open>src/kernel/include/mm/mm.h\<close> and \<^verbatim>\<open>ia32/paging.h\<close>.  Physical
  memory is a function from frames and word indices to 64-bit words; the processor translates a
  canonical address through four tables starting at the frame of \<^verbatim>\<open>cr3\<close>, with 4-KByte pages only.
  Entry 510 of the root refers to the root itself, so that the tables appear as an array of entries
  in virtual memory: the theory shows that the address the \<^verbatim>\<open>mi_\<close> functions compute is translated to
  the entry itself.
\<close>

section \<open>Entries\<close>

type_synonym pmem = "u64 \<Rightarrow> u64 \<Rightarrow> u64"

text \<open>Reading and assigning the bit-field of \<open>n\<close> bits from bit \<open>lo\<close> of an entry.\<close>

definition get_bits :: "nat \<Rightarrow> nat \<Rightarrow> u64 \<Rightarrow> u64" where
  "get_bits lo n e = take_bit n (drop_bit lo e)"

definition put_bits :: "nat \<Rightarrow> nat \<Rightarrow> u64 \<Rightarrow> u64 \<Rightarrow> u64" where
  "put_bits lo n v e = (e AND NOT (push_bit lo (mask n))) OR push_bit lo (take_bit n v)"

definition pt_present :: "u64 \<Rightarrow> bool" where
  "pt_present e \<longleftrightarrow> get_bits 0 1 e \<noteq> 0"

definition page_frame :: "u64 \<Rightarrow> u64" where
  "page_frame e = get_bits 12 36 e"

text \<open>The macros \<^verbatim>\<open>PT_ENTRY_64_PRESENT(flags)\<close> and the like: one bit of the flags.\<close>

definition flag_bit :: "nat \<Rightarrow> u64 \<Rightarrow> u64" where
  "flag_bit i fl = drop_bit i fl AND 1"

definition pml4e_fill :: "u64 \<Rightarrow> u64 \<Rightarrow> u64 \<Rightarrow> u64" where
  "pml4e_fill pfn fl e =
     put_bits 11 1 (flag_bit 11 fl) (put_bits 5 1 (flag_bit 5 fl) (put_bits 4 1 (flag_bit 4 fl)
       (put_bits 3 1 (flag_bit 3 fl) (put_bits 2 1 (flag_bit 2 fl) (put_bits 1 1 (flag_bit 1 fl)
         (put_bits 0 1 (flag_bit 0 fl) (put_bits 12 36 pfn e)))))))"

definition pdpte_fill :: "u64 \<Rightarrow> u64 \<Rightarrow> u64 \<Rightarrow> u64" where
  "pdpte_fill pfn fl e =
     put_bits 11 1 (flag_bit 11 fl) (put_bits 7 1 (flag_bit 7 fl) (put_bits 5 1 (flag_bit 5 fl)
       (put_bits 4 1 (flag_bit 4 fl) (put_bits 3 1 (flag_bit 3 fl) (put_bits 2 1 (flag_bit 2 fl)
         (put_bits 1 1 (flag_bit 1 fl) (put_bits 0 1 (flag_bit 0 fl) (put_bits 12 36 pfn e))))))))"

definition pde_fill :: "u64 \<Rightarrow> u64 \<Rightarrow> u64 \<Rightarrow> u64" where
  "pde_fill pfn fl e =
     put_bits 11 1 (flag_bit 11 fl) (put_bits 7 1 (flag_bit 7 fl) (put_bits 5 1 (flag_bit 5 fl)
       (put_bits 4 1 (flag_bit 4 fl) (put_bits 3 1 (flag_bit 3 fl) (put_bits 2 1 (flag_bit 2 fl)
         (put_bits 1 1 (flag_bit 1 fl) (put_bits 0 1 (flag_bit 0 fl) (put_bits 12 36 pfn e))))))))"

definition pte_fill :: "u64 \<Rightarrow> u64 \<Rightarrow> u64" where
  "pte_fill pfn fl =
     put_bits 11 1 (flag_bit 11 fl) (put_bits 6 1 (flag_bit 6 fl) (put_bits 5 1 (flag_bit 5 fl)
       (put_bits 4 1 (flag_bit 4 fl) (put_bits 3 1 (flag_bit 3 fl) (put_bits 2 1 (flag_bit 2 fl)
         (put_bits 1 1 (flag_bit 1 fl) (put_bits 0 1 (flag_bit 0 fl) (put_bits 12 36 pfn 0))))))))"

section \<open>Addresses\<close>

definition PAGING_PML4_INDEX :: "u64 \<Rightarrow> u64" where "PAGING_PML4_INDEX va = drop_bit 39 va AND 0x1ff"
definition PAGING_PDPT_INDEX :: "u64 \<Rightarrow> u64" where "PAGING_PDPT_INDEX va = drop_bit 30 va AND 0x1ff"
definition PAGING_PDT_INDEX :: "u64 \<Rightarrow> u64" where "PAGING_PDT_INDEX va = drop_bit 21 va AND 0x1ff"
definition PAGING_PT_INDEX :: "u64 \<Rightarrow> u64" where "PAGING_PT_INDEX va = drop_bit 12 va AND 0x1ff"
definition PAGING_OFFSET :: "u64 \<Rightarrow> u64" where "PAGING_OFFSET va = va AND 0xfff"

definition RECURSIVE_ENTRY_OFFSET :: u64 where "RECURSIVE_ENTRY_OFFSET = 0xff0"
definition RECURSIVE_ENTRY_IDX :: u64 where "RECURSIVE_ENTRY_IDX = RECURSIVE_ENTRY_OFFSET div 8"

definition MI_RESURSIVE_PML4E_BASE :: u64 where "MI_RESURSIVE_PML4E_BASE = 0xffffff7fbfdfe000"
definition MI_RESURSIVE_PDPTE_BASE :: u64 where "MI_RESURSIVE_PDPTE_BASE = 0xffffff7fbfc00000"
definition MI_RESURSIVE_PDE_BASE :: u64 where "MI_RESURSIVE_PDE_BASE = 0xffffff7f80000000"
definition MI_RESURSIVE_PTE_BASE :: u64 where "MI_RESURSIVE_PTE_BASE = 0xffffff0000000000"

definition mi_ptr_to_pml4e :: "u64 \<Rightarrow> u64" where
  "mi_ptr_to_pml4e addr = MI_RESURSIVE_PML4E_BASE + (drop_bit (39 - 3) addr AND push_bit 3 0x1ff)"

definition mi_ptr_to_pdpte :: "u64 \<Rightarrow> u64" where
  "mi_ptr_to_pdpte addr = MI_RESURSIVE_PDPTE_BASE + (drop_bit (30 - 3) addr AND push_bit 3 0x3ffff)"

definition mi_ptr_to_pde :: "u64 \<Rightarrow> u64" where
  "mi_ptr_to_pde addr = MI_RESURSIVE_PDE_BASE + (drop_bit (21 - 3) addr AND push_bit 3 0x7ffffff)"

definition mi_ptr_to_pte :: "u64 \<Rightarrow> u64" where
  "mi_ptr_to_pte addr = MI_RESURSIVE_PTE_BASE + (drop_bit (12 - 3) addr AND push_bit 3 0xfffffffff)"

text \<open>The inverse functions shift a signed number to the left and back.\<close>

definition mi_pml4e_to_ptr :: "u64 \<Rightarrow> u64" where
  "mi_pml4e_to_ptr p = signed_drop_bit 16 (push_bit 52 p)"

definition mi_pdpte_to_ptr :: "u64 \<Rightarrow> u64" where
  "mi_pdpte_to_ptr p = signed_drop_bit 16 (push_bit 43 p)"

definition mi_pde_to_ptr :: "u64 \<Rightarrow> u64" where
  "mi_pde_to_ptr p = signed_drop_bit 16 (push_bit 34 p)"

definition mi_pte_to_ptr :: "u64 \<Rightarrow> u64" where
  "mi_pte_to_ptr p = signed_drop_bit 16 (push_bit 25 p)"

section \<open>Translation\<close>

definition canonical :: "u64 \<Rightarrow> bool" where
  "canonical va \<longleftrightarrow> signed_take_bit 47 va = va"

definition mmu_step :: "pmem \<Rightarrow> u64 \<Rightarrow> u64 \<Rightarrow> u64 option" where
  "mmu_step pm t i = (if pt_present (pm t i) then Some (page_frame (pm t i)) else None)"

definition mmu_walk :: "pmem \<Rightarrow> u64 \<Rightarrow> u64 \<Rightarrow> u64 option" where
  "mmu_walk pm r va =
     (if canonical va
      then Option.bind (mmu_step pm r (PAGING_PML4_INDEX va)) (\<lambda>t3.
           Option.bind (mmu_step pm t3 (PAGING_PDPT_INDEX va)) (\<lambda>t2.
           Option.bind (mmu_step pm t2 (PAGING_PDT_INDEX va)) (\<lambda>t1.
           mmu_step pm t1 (PAGING_PT_INDEX va))))
      else None)"

text \<open>The state of virtual memory: the physical memory manager, physical memory and the frame of the
  root table that \<^verbatim>\<open>cr3\<close> holds.  An access to an address without translation is a page fault.\<close>

record vm =
  vm_kmem :: kmem
  vm_pm :: pmem
  vm_cr3 :: u64

definition word_index :: "u64 \<Rightarrow> u64" where
  "word_index va = drop_bit 3 (PAGING_OFFSET va)"

definition vread :: "u64 \<Rightarrow> (vm, u64) km" where
  "vread va s = (case mmu_walk (vm_pm s) (vm_cr3 s) va of
     None \<Rightarrow> Inl PageFault | Some f \<Rightarrow> Inr (vm_pm s f (word_index va), s))"

abbreviation set_word :: "u64 \<Rightarrow> u64 \<Rightarrow> u64 \<Rightarrow> pmem \<Rightarrow> pmem" where
  "set_word f i v pm \<equiv> pm(f := (pm f)(i := v))"

definition vwrite :: "u64 \<Rightarrow> u64 \<Rightarrow> (vm, unit) km" where
  "vwrite va v s = (case mmu_walk (vm_pm s) (vm_cr3 s) va of
     None \<Rightarrow> Inl PageFault | Some f \<Rightarrow> Inr ((), s\<lparr>vm_pm := set_word f (word_index va) v (vm_pm s)\<rparr>))"

text \<open>\<^verbatim>\<open>memset(p, 0, PAGE_SIZE)\<close> at the beginning of a page.\<close>

definition vzero_page :: "u64 \<Rightarrow> (vm, unit) km" where
  "vzero_page va s = (case mmu_walk (vm_pm s) (vm_cr3 s) va of
     None \<Rightarrow> Inl PageFault | Some f \<Rightarrow> Inr ((), s\<lparr>vm_pm := (vm_pm s)(f := (\<lambda>_. 0))\<rparr>))"

section \<open>Page numbers\<close>

text \<open>A page number has 36 bits, four digits of nine; \<open>tab d k\<close> is the table, at depth \<open>4\<close> the page,
  reached by the \<open>d\<close> digits of \<open>k\<close>.\<close>

definition vpn :: "u64 \<Rightarrow> nat" where
  "vpn va = (unat va div 4096) mod 2 ^ 36"

fun tab :: "pmem \<Rightarrow> u64 \<Rightarrow> nat \<Rightarrow> nat \<Rightarrow> u64 option" where
  "tab pm r 0 k = Some r"
| "tab pm r (Suc d) k = Option.bind (tab pm r d (k div 512)) (\<lambda>t. mmu_step pm t (of_nat (k mod 512)))"

lemma and_1ff: "w AND 0x1ff = take_bit 9 w" for w :: u64
  by (simp add: take_bit_eq_mask mask_eq_exp_minus_1)

lemma index_nat: "drop_bit n va AND 0x1ff = of_nat (unat va div 2 ^ n mod 512)" for va :: u64
proof -
  have "unat (take_bit 9 (drop_bit n va)) = take_bit 9 (drop_bit n (unat va))"
    by (simp add: unsigned_take_bit_eq unat_drop_bit_eq)
  also have "\<dots> = unat va div 2 ^ n mod 512" by (simp add: take_bit_eq_mod drop_bit_eq_div)
  finally show ?thesis unfolding and_1ff by (metis of_nat_unat ucast_id)
qed

lemma div_mod_pow: "(x mod (2 ^ (m + n))) div 2 ^ m = (x div 2 ^ m) mod 2 ^ n" for x :: nat
  by (metis div_mult_mod_eq drop_bit_eq_div drop_bit_take_bit add_diff_cancel_left' take_bit_eq_mod)

lemma vpn_digits:
  "vpn va mod 512 = unat va div 2 ^ 12 mod 512"
  "vpn va div 512 mod 512 = unat va div 2 ^ 21 mod 512"
  "vpn va div 512 div 512 mod 512 = unat va div 2 ^ 30 mod 512"
  "vpn va div 512 div 512 div 512 mod 512 = unat va div 2 ^ 39 mod 512"
proof -
  let ?x = "unat va div 4096"
  have m: "(y mod (512 * z)) mod 512 = y mod 512" for y z :: nat by (simp add: mod_mod_cancel)
  have d: "(?x mod 2 ^ 36) div 2 ^ 9 = ?x div 2 ^ 9 mod 2 ^ 27" "(?x mod 2 ^ 36) div 2 ^ 18 = ?x div 2 ^ 18 mod 2 ^ 18"
    "(?x mod 2 ^ 36) div 2 ^ 27 = ?x div 2 ^ 27 mod 2 ^ 9"
    using div_mod_pow [of ?x 9 27] div_mod_pow [of ?x 18 18] div_mod_pow [of ?x 27 9] by simp_all
  show "vpn va mod 512 = unat va div 2 ^ 12 mod 512" using m [of ?x "2 ^ 27"] by (simp add: vpn_def)
  show "vpn va div 512 mod 512 = unat va div 2 ^ 21 mod 512"
    using d(1) m [of "?x div 2 ^ 9" "2 ^ 18"] by (simp add: vpn_def div_mult2_eq [symmetric])
  show "vpn va div 512 div 512 mod 512 = unat va div 2 ^ 30 mod 512"
    using d(2) m [of "?x div 2 ^ 18" "2 ^ 9"] by (simp add: vpn_def div_mult2_eq [symmetric])
  show "vpn va div 512 div 512 div 512 mod 512 = unat va div 2 ^ 39 mod 512"
    using d(3) m [of "?x div 2 ^ 27" 1] by (simp add: vpn_def div_mult2_eq [symmetric])
qed

lemma tab_4:
  "tab pm r 4 k = Option.bind (mmu_step pm r (of_nat (k div 512 div 512 div 512 mod 512))) (\<lambda>t3.
     Option.bind (mmu_step pm t3 (of_nat (k div 512 div 512 mod 512))) (\<lambda>t2.
     Option.bind (mmu_step pm t2 (of_nat (k div 512 mod 512))) (\<lambda>t1. mmu_step pm t1 (of_nat (k mod 512)))))"
proof -
  have "(4 :: nat) = Suc (Suc (Suc (Suc 0)))" by simp
  then show ?thesis by (simp only: tab.simps Option.bind_assoc Option.bind_lunit)
qed

lemma walk_tab: "mmu_walk pm r va = (if canonical va then tab pm r 4 (vpn va) else None)"
  unfolding mmu_walk_def tab_4 vpn_digits
  by (simp only: PAGING_PML4_INDEX_def PAGING_PDPT_INDEX_def PAGING_PDT_INDEX_def PAGING_PT_INDEX_def index_nat)

section \<open>The recursive slot\<close>

text \<open>Entry \<open>k\<close> of the tables at depth \<open>d\<close>, in virtual memory.\<close>

definition ent_base :: "nat \<Rightarrow> u64" where
  "ent_base d = (if d = 0 then MI_RESURSIVE_PML4E_BASE else if d = 1 then MI_RESURSIVE_PDPTE_BASE
     else if d = 2 then MI_RESURSIVE_PDE_BASE else MI_RESURSIVE_PTE_BASE)"

definition ent_ptr :: "nat \<Rightarrow> nat \<Rightarrow> u64" where
  "ent_ptr d k = ent_base d + 8 * of_nat k"

lemmas ent_base_defs = ent_base_def MI_RESURSIVE_PML4E_BASE_def MI_RESURSIVE_PDPTE_BASE_def
  MI_RESURSIVE_PDE_BASE_def MI_RESURSIVE_PTE_BASE_def

lemma depth_cases:
  assumes "d < (4 :: nat)"
  obtains "d = 0" | "d = 1" | "d = 2" | "d = 3"
  using assms by linarith

lemma and_field: "x AND push_bit 3 (mask n) = push_bit 3 (take_bit n (drop_bit 3 x))" for x :: u64
  by (rule bit_word_eqI) (auto simp: bit_simps)

lemma field_nat:
  fixes va :: u64
  assumes "n + m = 36"
  shows "push_bit 3 (take_bit n (drop_bit (12 + m) va)) = 8 * of_nat (vpn va div 2 ^ m)"
proof -
  have mn: "m + n = 36" using assms by simp
  have "take_bit n (drop_bit (12 + m) (unat va)) = vpn va div 2 ^ m"
    using mn div_mod_pow [of "unat va div 4096" m n]
    by (simp add: vpn_def take_bit_eq_mod drop_bit_eq_div power_add div_mult2_eq)
  then have "unat (take_bit n (drop_bit (12 + m) va)) = vpn va div 2 ^ m"
    by (simp add: unsigned_take_bit_eq unat_drop_bit_eq)
  then have "take_bit n (drop_bit (12 + m) va) = of_nat (vpn va div 2 ^ m)" by (metis of_nat_unat ucast_id)
  then show ?thesis by (simp add: push_bit_eq_mult)
qed

lemma mi_ptr_ent:
  "mi_ptr_to_pml4e va = ent_ptr 0 (vpn va div 2 ^ 27)"
  "mi_ptr_to_pdpte va = ent_ptr 1 (vpn va div 2 ^ 18)"
  "mi_ptr_to_pde va = ent_ptr 2 (vpn va div 2 ^ 9)"
  "mi_ptr_to_pte va = ent_ptr 3 (vpn va)"
proof -
  have m: "(0x1ff :: u64) = mask 9" "(0x3ffff :: u64) = mask 18" "(0x7ffffff :: u64) = mask 27" "(0xfffffffff :: u64) = mask 36"
    by (simp_all add: mask_eq_exp_minus_1)
  show "mi_ptr_to_pml4e va = ent_ptr 0 (vpn va div 2 ^ 27)"
    unfolding mi_ptr_to_pml4e_def m and_field using field_nat [of 9 27 va] by (simp add: ent_ptr_def ent_base_def)
  show "mi_ptr_to_pdpte va = ent_ptr 1 (vpn va div 2 ^ 18)"
    unfolding mi_ptr_to_pdpte_def m and_field using field_nat [of 18 18 va] by (simp add: ent_ptr_def ent_base_def)
  show "mi_ptr_to_pde va = ent_ptr 2 (vpn va div 2 ^ 9)"
    unfolding mi_ptr_to_pde_def m and_field using field_nat [of 27 9 va] by (simp add: ent_ptr_def ent_base_def)
  show "mi_ptr_to_pte va = ent_ptr 3 (vpn va)"
    unfolding mi_ptr_to_pte_def m and_field using field_nat [of 36 0 va] by (simp add: ent_ptr_def ent_base_def)
qed

lemma vpn_less: "vpn va < 2 ^ 36"
  by (simp add: vpn_def)

lemma unat_ent_ptr:
  assumes "d < 4" and "k < 512 ^ Suc d"
  shows "unat (ent_ptr d k) = unat (ent_base d) + 8 * k"
proof -
  have lt: "unat (ent_base d) + 8 * k < 2 ^ 64"
    using assms(2) by (cases rule: depth_cases [OF assms(1)]) (auto simp: ent_base_defs)
  have eq: "ent_ptr d k = of_nat (unat (ent_base d) + 8 * k)" by (simp add: ent_ptr_def)
  show ?thesis unfolding eq unat_of_nat using lt by simp
qed

text \<open>The page that holds entry \<open>k\<close> at depth \<open>d\<close> is reached by the digit 510 followed by the path of the
  table.\<close>

definition rec_pre :: "nat \<Rightarrow> nat" where
  "rec_pre d = (if d = 0 then 0xff7fbfdfe else if d = 1 then 0xff7fbfc00 else if d = 2 then 0xff7f80000 else 0xff0000000)"

lemma mod_shift: "x < m \<Longrightarrow> (m * c + x) mod m = x" for x m c :: nat
  by simp

lemma vpn_ent_ptr:
  assumes "d < 4" and "k < 512 ^ Suc d"
  shows "vpn (ent_ptr d k) = rec_pre d + k div 512"
proof -
  have k: "k div 512 < 512 ^ d" using assms(2) by (simp add: div_less_iff_less_mult mult.commute)
  have b: "unat (ent_base d) = 4096 * (unat (ent_base d) div 4096)"
    by (cases rule: depth_cases [OF assms(1)]) (simp_all add: ent_base_defs)
  have "(unat (ent_base d) + 8 * k) div 4096 = unat (ent_base d) div 4096 + k div 512"
    by (subst b) (simp add: div_mult2_eq)
  then have v: "vpn (ent_ptr d k) = (unat (ent_base d) div 4096 + k div 512) mod 2 ^ 36"
    by (simp add: vpn_def unat_ent_ptr [OF assms])
  have b2: "unat (ent_base d) div 4096 = 2 ^ 36 * 65535 + rec_pre d" and "rec_pre d + 512 ^ d \<le> 2 ^ 36"
    by (cases rule: depth_cases [OF assms(1)], simp_all add: ent_base_defs rec_pre_def)+
  then have "rec_pre d + k div 512 < 2 ^ 36" using k by linarith
  then show ?thesis unfolding v b2 add.assoc by (rule mod_shift)
qed

lemma word_index_ent_ptr:
  assumes "d < 4" and "k < 512 ^ Suc d"
  shows "word_index (ent_ptr d k) = of_nat (k mod 512)"
proof -
  have m: "(0xfff :: u64) = mask 12" by (simp add: mask_eq_exp_minus_1)
  have "unat (drop_bit 3 (take_bit 12 (ent_ptr d k))) = (unat (ent_base d) + 8 * k) mod 4096 div 8"
    by (simp add: unat_drop_bit_eq unsigned_take_bit_eq unat_ent_ptr [OF assms])
      (simp add: take_bit_eq_mod drop_bit_eq_div)
  also have "\<dots> = 8 * k mod 4096 div 8"
    by (cases rule: depth_cases [OF assms(1)]) (simp_all add: ent_base_defs mod_add_eq [symmetric, of _ "8 * k"])
  also have "\<dots> = k mod 512" using mult_mod_right [of 8 k 512] by simp
  finally show ?thesis unfolding word_index_def PAGING_OFFSET_def m take_bit_eq_mask [symmetric]
    by (metis of_nat_unat ucast_id)
qed

lemma canonical_iff: "canonical va \<longleftrightarrow> (\<forall>n. 47 \<le> n \<and> n < 64 \<longrightarrow> bit va n = bit va 47)"
proof
  assume c: "canonical va"
  show "\<forall>n. 47 \<le> n \<and> n < 64 \<longrightarrow> bit va n = bit va 47"
  proof (intro allI impI)
    fix n :: nat assume n: "47 \<le> n \<and> n < 64"
    have "bit (signed_take_bit 47 va) n = bit va 47" using n by (auto simp: bit_signed_take_bit_iff min_def)
    with c show "bit va n = bit va 47" by (simp add: canonical_def)
  qed
next
  assume h: "\<forall>n. 47 \<le> n \<and> n < 64 \<longrightarrow> bit va n = bit va 47"
  show "canonical va" unfolding canonical_def
  proof (rule bit_word_eqI)
    fix n assume "n < LENGTH(64)"
    then show "bit (signed_take_bit 47 va) n = bit va n"
      using h [rule_format, of n] by (cases "n \<le> 47") (simp_all add: bit_signed_take_bit_iff min_def)
  qed
qed

lemma canonical_mi_pte_to_ptr [simp]: "canonical (mi_pte_to_ptr p)"
proof -
  have "bit (mi_pte_to_ptr p) n = bit (mi_pte_to_ptr p) 47" if "47 \<le> n" "n < 64" for n
    using that by (cases "n = 47") (auto simp: mi_pte_to_ptr_def bit_simps)
  then show ?thesis unfolding canonical_iff by blast
qed

lemma vpn_mi_pte_to_ptr: "vpn (mi_pte_to_ptr p) = unat p div 8 mod 2 ^ 36"
proof -
  have "take_bit 36 (drop_bit 12 (mi_pte_to_ptr p)) = take_bit 36 (drop_bit 3 p)"
    by (rule bit_word_eqI) (auto simp: mi_pte_to_ptr_def bit_simps)
  then have "unat (take_bit 36 (drop_bit 12 (mi_pte_to_ptr p))) = unat (take_bit 36 (drop_bit 3 p))" by simp
  then show ?thesis
    by (simp add: vpn_def unsigned_take_bit_eq unat_drop_bit_eq) (simp add: take_bit_eq_mod drop_bit_eq_div)
qed

lemma canonical_high:
  fixes va :: u64
  assumes "2 ^ 64 - 2 ^ 47 \<le> unat va"
  shows "canonical va"
proof -
  have "unat va < 2 ^ 64" by (rule order_less_le_trans [OF unsigned_less]) simp
  with assms have "unat va div 2 ^ 47 = 2 ^ 17 - 1" by (intro div_nat_eqI) simp_all
  then have "drop_bit 47 (unat va) = mask 17" by (simp add: drop_bit_eq_div mask_eq_exp_minus_1)
  then have m: "drop_bit 47 va = mask 17" by (simp add: word_unat_eq_iff unat_drop_bit_eq mask_eq_exp_minus_1)
  have "bit va n" if "47 \<le> n" "n < 64" for n
  proof -
    have "bit (drop_bit 47 va) (n - 47)" unfolding m using that by (auto simp: bit_simps)
    then show ?thesis using that by (simp add: bit_simps)
  qed
  then show ?thesis by (auto simp: canonical_iff)
qed

lemma canonical_ent_ptr:
  assumes "d < 4" and "k < 512 ^ Suc d"
  shows "canonical (ent_ptr d k)"
  by (rule canonical_high, unfold unat_ent_ptr [OF assms], cases rule: depth_cases [OF assms(1)])
    (simp_all add: ent_base_defs)

lemma tab_root:
  assumes "mmu_step pm r 510 = Some r" and "j < 512 ^ d"
  shows "tab pm r (Suc d) (510 * 512 ^ d + j) = tab pm r d j"
  using assms(2)
proof (induction d arbitrary: j)
  case 0
  then show ?case using assms(1) by simp
next
  case (Suc d)
  let ?x = "510 * 512 ^ Suc d + j"
  have j: "j div 512 < 512 ^ d" using Suc.prems by (simp add: div_less_iff_less_mult mult.commute)
  have e: "?x = j + 512 * (510 * 512 ^ d)" by simp
  have x: "?x div 512 = 510 * 512 ^ d + j div 512" "?x mod 512 = j mod 512"
    unfolding e by (rule div_mult_self2, simp) (rule mod_mult_self2)
  have "tab pm r (Suc (Suc d)) ?x = Option.bind (tab pm r (Suc d) (?x div 512)) (\<lambda>t. mmu_step pm t (of_nat (?x mod 512)))"
    by (rule tab.simps(2))
  also have "\<dots> = Option.bind (tab pm r d (j div 512)) (\<lambda>t. mmu_step pm t (of_nat (j mod 512)))"
    by (simp only: x Suc.IH [OF j])
  also have "\<dots> = tab pm r (Suc d) j" by (rule tab.simps(2) [symmetric])
  finally show ?case .
qed

lemma tab_rec:
  assumes r: "mmu_step pm r 510 = Some r" and j: "j < 512 ^ d" and d: "d < 4"
  shows "tab pm r 4 (rec_pre d + j) = tab pm r d j"
proof -
  have s: "Suc 3 = 4" "Suc 2 = 3" "Suc 1 = 2" by simp_all
  note t = tab_root [OF r, of _ 3, unfolded s] tab_root [OF r, of _ 2, unfolded s] tab_root [OF r, of _ 1, unfolded s]
    tab_root [OF r, of _ 0]
  show ?thesis using d
  proof (cases rule: depth_cases)
    case 1
    then show ?thesis using j t(1) [of "510 * 512 ^ 2 + (510 * 512 + 510)"] t(2) [of "510 * 512 + 510"] t(3) [of 510] t(4) [of 0]
      by (simp add: rec_pre_def del: tab.simps)
  next
    case 2
    then show ?thesis using j t(1) [of "510 * 512 ^ 2 + (510 * 512 + j)"] t(2) [of "510 * 512 + j"] t(3) [of j]
      by (simp add: rec_pre_def del: tab.simps)
  next
    case 3
    then show ?thesis using j t(1) [of "510 * 512 ^ 2 + j"] t(2) [of j] by (simp add: rec_pre_def del: tab.simps)
  next
    case 4
    then show ?thesis using j t(1) [of j] by (simp add: rec_pre_def del: tab.simps)
  qed
qed

lemma walk_ent:
  assumes r: "mmu_step pm r 510 = Some r" and d: "d < 4" and k: "k < 512 ^ Suc d"
  shows "mmu_walk pm r (ent_ptr d k) = tab pm r d (k div 512)"
proof -
  have "k div 512 < 512 ^ d" using k by (simp add: div_less_iff_less_mult mult.commute)
  then show ?thesis by (simp add: walk_tab canonical_ent_ptr [OF d k] vpn_ent_ptr [OF d k] tab_rec [OF r _ d])
qed

lemma walk_child:
  assumes r: "mmu_step pm r 510 = Some r" and d: "d < 3" and k: "k < 512 ^ Suc d"
  shows "mmu_walk pm r (mi_pte_to_ptr (ent_ptr d k)) = tab pm r (Suc d) k"
proof -
  have d4: "d < 4" using d by simp
  from d consider "d = 0" | "d = 1" | "d = 2" by linarith
  then have b: "unat (ent_base d) = 8 * (2 ^ 36 * (2 ^ 25 - 2) + rec_pre (Suc d)) \<and> rec_pre (Suc d) + 512 ^ Suc d \<le> 2 ^ 36"
    by cases (simp_all add: ent_base_defs rec_pre_def)
  then have "(unat (ent_base d) + 8 * k) div 8 = 2 ^ 36 * (2 ^ 25 - 2) + (rec_pre (Suc d) + k)" by simp
  moreover have "rec_pre (Suc d) + k < 2 ^ 36" using b k by linarith
  ultimately have "vpn (mi_pte_to_ptr (ent_ptr d k)) = rec_pre (Suc d) + k"
    unfolding vpn_mi_pte_to_ptr unat_ent_ptr [OF d4 k] by (simp only: mod_shift)
  then show ?thesis using d k by (simp add: walk_tab tab_rec [OF r] del: tab.simps)
qed

section \<open>Fields\<close>

lemma get_put_bits: "lo + n \<le> 64 \<Longrightarrow> get_bits lo n (put_bits lo n v e) = take_bit n v"
  by (rule bit_word_eqI) (auto simp: get_bits_def put_bits_def bit_simps)

lemma get_put_bits_other:
  "lo + n \<le> lo' \<or> lo' + n' \<le> lo \<Longrightarrow> get_bits lo n (put_bits lo' n' v e) = get_bits lo n e"
  by (rule bit_word_eqI) (auto simp: get_bits_def put_bits_def bit_simps dest: bit_imp_le_length)

lemma flag_bit_present: "take_bit 1 (flag_bit i fl) \<noteq> 0 \<longleftrightarrow> bit fl i" for fl :: u64
proof -
  have "take_bit 1 (flag_bit i fl) = of_bool (bit fl i)"
    by (simp add: flag_bit_def and_one_eq bit_iff_odd_drop_bit odd_iff_mod_2_eq_one of_bool_def)
  then show ?thesis by simp
qed

lemmas fill_defs = pml4e_fill_def pdpte_fill_def pde_fill_def pte_fill_def

lemma page_frame_fill:
  "page_frame (pml4e_fill pfn fl e) = take_bit 36 pfn" "page_frame (pdpte_fill pfn fl e) = take_bit 36 pfn"
  "page_frame (pde_fill pfn fl e) = take_bit 36 pfn" "page_frame (pte_fill pfn fl) = take_bit 36 pfn"
  by (simp_all add: page_frame_def fill_defs get_put_bits get_put_bits_other)

lemma pt_present_fill:
  "pt_present (pml4e_fill pfn fl e) = bit fl 0" "pt_present (pdpte_fill pfn fl e) = bit fl 0"
  "pt_present (pde_fill pfn fl e) = bit fl 0" "pt_present (pte_fill pfn fl) = bit fl 0"
  using flag_bit_present [of 0 fl] by (simp_all add: pt_present_def fill_defs get_put_bits get_put_bits_other)

lemma pt_present_0 [simp]: "\<not> pt_present 0"
  by (simp add: pt_present_def get_bits_def)

end
