(* ===== verification/Ptm.thy ===== *)
theory Ptm
  imports Paging
begin

text \<open>
  Page table management, \<^verbatim>\<open>src/kernel/src/mm/ptm.c\<close>: creating the tables for a range of addresses, mapping
  and unmapping pages through the recursive slot, and the tables that are prepared before the slot
  can be used.  The tables of an address space form a tree; the theory shows that mapping a range
  changes the translation of exactly its pages, and that the tables it takes from the physical
  memory manager were free.
\<close>

section \<open>Loops and the physical memory manager\<close>

fun kforeach :: "('a \<Rightarrow> ('s, unit) km) \<Rightarrow> 'a list \<Rightarrow> ('s, unit) km" where
  "kforeach f [] = kreturn ()"
| "kforeach f (x # xs) = kbind (f x) (\<lambda>_. kforeach f xs)"

definition vm_pmm_alloc :: "u64 \<Rightarrow> (vm, u64) km" where
  "vm_pmm_alloc n s = (case pmm_alloc_pages n (vm_kmem s) of
     (Inl e, _) \<Rightarrow> Inl e | (Inr pfn, k) \<Rightarrow> Inr (pfn, s\<lparr>vm_kmem := k\<rparr>))"

definition vm_pmm_free :: "u64 \<Rightarrow> (vm, unit) km" where
  "vm_pmm_free pfn s = (case pmm_free_pages pfn (vm_kmem s) of
     Inl e \<Rightarrow> Inl e | Inr k \<Rightarrow> Inr ((), s\<lparr>vm_kmem := k\<rparr>))"

text \<open>How often the loops \<^verbatim>\<open>for (p = start; p <= end; p++)\<close> and \<^verbatim>\<open>for (p = start; p < end; p++)\<close> over pointers
  to entries run.\<close>

definition pt_entries_upto :: "u64 \<Rightarrow> u64 \<Rightarrow> nat" where
  "pt_entries_upto p e = (if p \<le> e then Suc ((unat e - unat p) div 8) else 0)"

definition pt_entries_below :: "u64 \<Rightarrow> u64 \<Rightarrow> nat" where
  "pt_entries_below p e = (unat e - unat p + 7) div 8"

section \<open>Tables for a range\<close>

definition ptm_alloc_entry :: "(u64 \<Rightarrow> u64 \<Rightarrow> u64 \<Rightarrow> u64) \<Rightarrow> u64 \<Rightarrow> u64 \<Rightarrow> (vm, unit) km" where
  "ptm_alloc_entry fill fl p =
     kbind (vread p) (\<lambda>e.
       if pt_present e then kreturn ()
       else kbind (vm_pmm_alloc 1) (\<lambda>pfn.
            kbind (vwrite p (fill pfn fl e)) (\<lambda>_. vzero_page (mi_pte_to_ptr p))))"

definition ptm_alloc_range :: "(u64 \<Rightarrow> u64 \<Rightarrow> u64 \<Rightarrow> u64) \<Rightarrow> u64 \<Rightarrow> u64 \<Rightarrow> u64 \<Rightarrow> (vm, unit) km" where
  "ptm_alloc_range fill fl start stop =
     kforeach (\<lambda>i. ptm_alloc_entry fill fl (start + 8 * of_nat i)) [0..<pt_entries_upto start stop]"

text \<open>The number of pages is a \<^verbatim>\<open>u32\<close>, and so is its product with the page size.\<close>

definition ptm_alloc_pml4es :: "u64 \<Rightarrow> u32 \<Rightarrow> u64 \<Rightarrow> (vm, unit) km" where
  "ptm_alloc_pml4es va n fl =
     ptm_alloc_range pml4e_fill fl (mi_ptr_to_pml4e va) (mi_ptr_to_pml4e (va + ucast (n * 4096)))"

definition ptm_alloc_pdptes :: "u64 \<Rightarrow> u32 \<Rightarrow> u64 \<Rightarrow> (vm, unit) km" where
  "ptm_alloc_pdptes va n fl =
     ptm_alloc_range pdpte_fill fl (mi_ptr_to_pdpte va) (mi_ptr_to_pdpte (va + ucast (n * 4096)))"

definition ptm_alloc_pdes :: "u64 \<Rightarrow> u32 \<Rightarrow> u64 \<Rightarrow> (vm, unit) km" where
  "ptm_alloc_pdes va n fl =
     ptm_alloc_range pde_fill fl (mi_ptr_to_pde va) (mi_ptr_to_pde (va + ucast (n * 4096)))"

section \<open>Mapping and unmapping\<close>

definition ptm_map_entry :: "u64 \<Rightarrow> u64 \<Rightarrow> u64 \<Rightarrow> (vm, unit) km" where
  "ptm_map_entry fl p pfn =
     kbind (vread p) (\<lambda>e. if pt_present e then kfault Panic else vwrite p (pte_fill pfn fl))"

definition ptm_map_pages :: "u64 \<Rightarrow> u64 \<Rightarrow> u64 \<Rightarrow> u64 \<Rightarrow> (vm, unit) km" where
  "ptm_map_pages va pa n fl =
     (let pte_start = mi_ptr_to_pte va;
          pte_end = mi_ptr_to_pte (va + n * 4096);
          pfn = drop_bit 12 pa
      in kbind (ptm_alloc_pml4es va (ucast n) fl) (\<lambda>_.
         kbind (ptm_alloc_pdptes va (ucast n) fl) (\<lambda>_.
         kbind (ptm_alloc_pdes va (ucast n) fl) (\<lambda>_.
         kforeach (\<lambda>i. ptm_map_entry fl (pte_start + 8 * of_nat i) (pfn + of_nat i))
           [0..<pt_entries_below pte_start pte_end]))))"

definition ptm_unmap_entry :: "u64 \<Rightarrow> (vm, unit) km" where
  "ptm_unmap_entry p =
     kbind (vread p) (\<lambda>e.
       if \<not> pt_present e then kfault Panic
       else kbind (vm_pmm_free (page_frame e)) (\<lambda>_. vwrite p 0))"

definition ptm_unmap_pages :: "u64 \<Rightarrow> u64 \<Rightarrow> (vm, unit) km" where
  "ptm_unmap_pages va n =
     (let pte_start = mi_ptr_to_pte va;
          pte_end = mi_ptr_to_pte (va + n * 4096)
      in kforeach (\<lambda>i. ptm_unmap_entry (pte_start + 8 * of_nat i)) [0..<pt_entries_below pte_start pte_end])"

definition ptm_get_pte :: "u64 \<Rightarrow> u64" where
  "ptm_get_pte va = mi_ptr_to_pte va"

section \<open>The tables of an address space as a tree\<close>

text \<open>Paths that do not go through the recursive slot.\<close>

definition nonrec :: "nat \<Rightarrow> nat \<Rightarrow> bool" where
  "nonrec d k \<longleftrightarrow> k < 512 ^ d \<and> (d = 0 \<or> k div 512 ^ (d - 1) \<noteq> 510)"

definition pt_tree :: "pmem \<Rightarrow> u64 \<Rightarrow> bool" where
  "pt_tree pm r \<longleftrightarrow> mmu_step pm r 510 = Some r \<and>
     (\<forall>d d' k k'. d < 4 \<longrightarrow> d' < 4 \<longrightarrow> nonrec d k \<longrightarrow> nonrec d' k' \<longrightarrow> tab pm r d k \<noteq> None \<longrightarrow>
        tab pm r d k = tab pm r d' k' \<longrightarrow> d = d' \<and> k = k')"

definition tables :: "pmem \<Rightarrow> u64 \<Rightarrow> u64 set" where
  "tables pm r = {f. \<exists>d k. d < 4 \<and> nonrec d k \<and> tab pm r d k = Some f}"

lemma nonrec_0 [simp]: "nonrec 0 k \<longleftrightarrow> k = 0"
  by (simp add: nonrec_def)

lemma nonrec_parent: "nonrec (Suc d) k \<Longrightarrow> nonrec d (k div 512)"
  by (cases d) (auto simp: nonrec_def div_less_iff_less_mult mult.commute div_mult2_eq [symmetric])

lemma tab_Suc_None: "tab pm r d (k div 512) = None \<Longrightarrow> tab pm r (Suc d) k = None"
  by simp

lemma tab_below_None: "tab pm r d (k div 512 ^ m) = None \<Longrightarrow> tab pm r (d + m) k = None"
proof (induction m arbitrary: k)
  case 0
  then show ?case by simp
next
  case (Suc m)
  have "tab pm r (d + m) (k div 512) = None" by (rule Suc.IH) (use Suc.prems in \<open>simp add: div_mult2_eq\<close>)
  then show ?case by simp
qed

lemma tables_I: "d < 4 \<Longrightarrow> nonrec d k \<Longrightarrow> tab pm r d k = Some f \<Longrightarrow> f \<in> tables pm r"
  by (auto simp: tables_def)

lemma root_in_tables [simp]: "r \<in> tables pm r"
  by (rule tables_I [of 0 0]) simp_all

lemma pt_tree_root: "pt_tree pm r \<Longrightarrow> mmu_step pm r 510 = Some r"
  by (simp add: pt_tree_def)

lemma pt_tree_inj:
  "pt_tree pm r \<Longrightarrow> d < 4 \<Longrightarrow> d' < 4 \<Longrightarrow> nonrec d k \<Longrightarrow> nonrec d' k' \<Longrightarrow> tab pm r d k = Some f \<Longrightarrow>
   tab pm r d' k' = Some f \<Longrightarrow> d = d' \<and> k = k'"
  unfolding pt_tree_def by (metis option.distinct(1))

text \<open>Changing one entry, and anything outside the tables, changes the paths through that entry only.\<close>

lemma tab_upd_other:
  assumes tree: "pt_tree pm r" and d: "d < 4" and q: "nonrec d (K div 512)" "tab pm r d (K div 512) = Some t"
    and same: "\<And>f j. f \<in> tables pm r \<Longrightarrow> (f, j) \<noteq> (t, of_nat (K mod 512)) \<Longrightarrow> pm' f j = pm f j"
    and d': "d' \<le> 4" and k': "nonrec d' k'" and other: "\<not> (d < d' \<and> k' div 512 ^ (d' - Suc d) = K)"
  shows "tab pm' r d' k' = tab pm r d' k'"
  using d' k' other
proof (induction d' arbitrary: k')
  case 0
  then show ?case by simp
next
  case (Suc e)
  have nr: "nonrec e (k' div 512)" by (rule nonrec_parent [OF Suc.prems(2)])
  have "\<not> (d < e \<and> k' div 512 div 512 ^ (e - Suc d) = K)"
    using Suc.prems(3) by (auto simp: div_mult2_eq [symmetric] power_Suc [symmetric] Suc_diff_Suc simp del: power_Suc)
  then have par: "tab pm' r e (k' div 512) = tab pm r e (k' div 512)" using Suc.IH Suc.prems(1) nr by simp
  show ?case
  proof (cases "tab pm r e (k' div 512)")
    case None
    then show ?thesis using par by simp
  next
    case (Some u)
    have u: "u \<in> tables pm r" by (rule tables_I [OF _ nr Some]) (use Suc.prems(1) in simp)
    have "(u, of_nat (k' mod 512) :: u64) \<noteq> (t, of_nat (K mod 512))"
    proof
      assume eq: "(u, of_nat (k' mod 512) :: u64) = (t, of_nat (K mod 512))"
      then have "unat (of_nat (k' mod 512) :: u64) = unat (of_nat (K mod 512) :: u64)" by simp
      then have m: "k' mod 512 = K mod 512" by (simp add: unat_of_nat)
      have "e = d \<and> k' div 512 = K div 512"
        by (rule pt_tree_inj [OF tree _ d nr q(1) Some]) (use eq q(2) Suc.prems(1) in auto)
      with m Suc.prems(3) show False by (metis div_mult_mod_eq diff_self_eq_0 div_by_1 lessI power_0)
    qed
    from same [OF u this] show ?thesis using par Some by (simp add: mmu_step_def)
  qed
qed

text \<open>The premises of writing entry \<open>K\<close> of the tables at depth \<open>d\<close>, in table \<open>t\<close>, and of changing it to refer to
  \<open>g\<close>.\<close>

definition pt_write :: "pmem \<Rightarrow> u64 \<Rightarrow> nat \<Rightarrow> nat \<Rightarrow> u64 \<Rightarrow> pmem \<Rightarrow> bool" where
  "pt_write pm r d K t pm' \<longleftrightarrow> pt_tree pm r \<and> d < 4 \<and> nonrec (Suc d) K \<and> tab pm r d (K div 512) = Some t \<and>
     (\<forall>f j. f \<in> tables pm r \<longrightarrow> (f, j) \<noteq> (t, of_nat (K mod 512)) \<longrightarrow> pm' f j = pm f j)"

definition pt_change :: "pmem \<Rightarrow> u64 \<Rightarrow> nat \<Rightarrow> nat \<Rightarrow> u64 \<Rightarrow> u64 option \<Rightarrow> pmem \<Rightarrow> bool" where
  "pt_change pm r d K t g pm' \<longleftrightarrow> pt_write pm r d K t pm' \<and> mmu_step pm' t (of_nat (K mod 512)) = g \<and>
     (d < 3 \<longrightarrow> tab pm r (Suc d) K = None \<and> (\<forall>f. g = Some f \<longrightarrow> pm' f = (\<lambda>_. 0)))"

lemma tab_write_other:
  assumes w: "pt_write pm r d K t pm'" and d': "d' \<le> 4" and k': "nonrec d' k'"
    and other: "\<not> (d < d' \<and> k' div 512 ^ (d' - Suc d) = K)"
  shows "tab pm' r d' k' = tab pm r d' k'"
  by (rule tab_upd_other [where d = d and K = K and t = t])
    (use w nonrec_parent d' k' other in \<open>auto simp: pt_write_def\<close>)

lemma tab_write_new:
  assumes w: "pt_write pm r d K t pm'"
  shows "tab pm' r (Suc d) K = mmu_step pm' t (of_nat (K mod 512))"
proof -
  have "tab pm' r d (K div 512) = tab pm r d (K div 512)"
    by (rule tab_write_other [OF w]) (use w nonrec_parent in \<open>auto simp: pt_write_def\<close>)
  then show ?thesis using w by (simp add: pt_write_def)
qed

lemma tab_change:
  assumes ch: "pt_change pm r d K t g pm'" and d': "d' \<le> 4" and k': "nonrec d' k'"
  shows "tab pm' r d' k' = (if d' = Suc d \<and> k' = K then g else tab pm r d' k')"
proof (cases "d < d' \<and> k' div 512 ^ (d' - Suc d) = K")
  case False
  have w: "pt_write pm r d K t pm'" using ch by (simp only: pt_change_def)
  show ?thesis using False tab_write_other [OF w d' k' False] by auto
next
  case True
  have w: "pt_write pm r d K t pm'" using ch by (simp only: pt_change_def)
  have new: "tab pm' r (Suc d) K = g" using tab_write_new [OF w] ch by (simp add: pt_change_def)
  show ?thesis
  proof (cases "d' = Suc d")
    case True
    then show ?thesis using new \<open>d < d' \<and> _\<close> by simp
  next
    case False
    with True obtain m where m: "d' = Suc (Suc d) + m" by (metis Suc_lessI less_iff_Suc_add add_Suc)
    have dd: "d < 3" using d' m by simp
    have K: "k' div 512 ^ m div 512 = K" using True m by (simp add: div_mult2_eq [symmetric] mult.commute)
    have "tab pm' r (Suc (Suc d)) (k' div 512 ^ m) = None"
      using new ch dd K by (cases g) (auto simp: pt_change_def mmu_step_def)
    then have "tab pm' r d' k' = None" unfolding m by (rule tab_below_None)
    moreover have "k' div 512 ^ Suc m = K" using K by (metis div_mult2_eq power_Suc2)
    then have "tab pm r (Suc d) (k' div 512 ^ Suc m) = None" using ch dd by (simp only: pt_change_def)
    then have "tab pm r d' k' = None" using tab_below_None [of pm r "Suc d" k' "Suc m"] m by simp
    ultimately show ?thesis using False by simp
  qed
qed

lemma write_root:
  assumes w: "pt_write pm r d K t pm'"
  shows "mmu_step pm' r 510 = Some r"
proof -
  have tree: "pt_tree pm r" using w by (simp add: pt_write_def)
  have "(r, 510 :: u64) \<noteq> (t, of_nat (K mod 512))"
  proof
    assume eq: "(r, 510 :: u64) = (t, of_nat (K mod 512))"
    have "d = 0 \<and> K div 512 = 0"
      by (rule pt_tree_inj [OF tree, of _ _ _ _ r])
        (use w eq nonrec_parent in \<open>auto simp: pt_write_def\<close>)
    moreover have "unat (of_nat (K mod 512) :: u64) = K mod 512" by (simp add: unat_of_nat)
    then have "K mod 512 = 510" using eq by auto
    ultimately show False using w by (simp add: pt_write_def nonrec_def)
  qed
  then have "pm' r 510 = pm r 510" using w root_in_tables unfolding pt_write_def by blast
  then show ?thesis using pt_tree_root [OF tree] by (simp add: mmu_step_def split: if_splits)
qed

lemma change_tree:
  assumes ch: "pt_change pm r d K t g pm'" and fresh: "d < 3 \<Longrightarrow> g = Some f \<and> f \<notin> tables pm r"
  shows "pt_tree pm' r" and "tables pm' r = tables pm r \<union> (if d < 3 then {f} else {})"
proof -
  have tree: "pt_tree pm r" and nr: "nonrec (Suc d) K" and w: "pt_write pm r d K t pm'"
    using ch by (auto simp: pt_change_def pt_write_def)
  have tab: "tab pm' r d' k' = (if d' = Suc d \<and> k' = K then g else tab pm r d' k')" if "d' < 4" "nonrec d' k'" for d' k'
    by (rule tab_change [OF ch _ that(2)]) (use that(1) in simp)
  have old: "f \<in> tables pm r" if "d' < 4" "nonrec d' k'" "tab pm r d' k' = Some f" for d' k' f
    by (rule tables_I [OF that])
  have c: "(d < 3 \<and> d' = Suc d \<and> k' = K \<and> u = f) \<or> (tab pm r d' k' = Some u \<and> u \<in> tables pm r \<and> (d < 3 \<longrightarrow> u \<noteq> f))"
    if "d' < 4" "nonrec d' k'" "tab pm' r d' k' = Some u" for d' k' u
    using tab [OF that(1,2)] that(1,3) fresh old [OF that(1,2)] by (auto split: if_splits)
  show "pt_tree pm' r" unfolding pt_tree_def
  proof (intro conjI allI impI write_root [OF w])
    fix d1 d2 k1 k2
    assume a: "d1 < 4" "d2 < 4" "nonrec d1 k1" "nonrec d2 k2" "tab pm' r d1 k1 \<noteq> None" "tab pm' r d1 k1 = tab pm' r d2 k2"
    then obtain u where u: "tab pm' r d1 k1 = Some u" "tab pm' r d2 k2 = Some u" by auto
    from c [OF a(1,3) u(1)] c [OF a(2,4) u(2)] have "d1 = d2 \<and> k1 = k2"
      using pt_tree_inj [OF tree a(1-4)] by blast
    then show "d1 = d2" and "k1 = k2" by simp_all
  qed
  show "tables pm' r = tables pm r \<union> (if d < 3 then {f} else {})" (is "?L = ?R")
  proof (intro set_eqI iffI)
    fix u assume "u \<in> ?L"
    then obtain d1 k1 where "d1 < 4" "nonrec d1 k1" "tab pm' r d1 k1 = Some u" by (auto simp: tables_def)
    from c [OF this] show "u \<in> ?R" by auto
  next
    fix u assume "u \<in> ?R"
    then consider "u \<in> tables pm r" | "d < 3" "u = f" by (auto split: if_splits)
    then show "u \<in> ?L"
    proof cases
      case 1
      then obtain d1 k1 where 1: "d1 < 4" "nonrec d1 k1" "tab pm r d1 k1 = Some u" by (auto simp: tables_def)
      then have "\<not> (d1 = Suc d \<and> k1 = K)" using ch by (auto simp: pt_change_def)
      with 1 tab [of d1 k1] show ?thesis by (auto intro: tables_I)
    next
      case 2
      then have "tab pm' r (Suc d) K = Some u" using fresh nr tab [of "Suc d" K] by simp
      then show ?thesis by (rule tables_I [OF _ nr, rotated]) (use 2 in simp)
    qed
  qed
qed

section \<open>What the operations keep\<close>

abbreviation vtab :: "vm \<Rightarrow> nat \<Rightarrow> nat \<Rightarrow> u64 option" where
  "vtab s \<equiv> tab (vm_pm s) (vm_cr3 s)"

abbreviation vtables :: "vm \<Rightarrow> u64 set" where
  "vtables s \<equiv> tables (vm_pm s) (vm_cr3 s)"

definition pt_inv :: "vm \<Rightarrow> blk set \<Rightarrow> bool" where
  "pt_inv s B \<longleftrightarrow> pt_tree (vm_pm s) (vm_cr3 s) \<and> buddy_inv (vm_kmem s) B \<and> nframes (vm_kmem s) \<le> 2 ^ 36 \<and>
     (\<forall>f \<in> vtables s. unat f \<notin> free_frames B)"

text \<open>From \<open>s\<close> to \<open>s'\<close> frames were taken, and no frame in use was written to unless it is a table;
  moreover the frames taken became tables, tables were added only, and no page is translated
  otherwise.\<close>

abbreviation held :: "vm \<Rightarrow> blk set \<Rightarrow> nat set" where
  "held s B \<equiv> free_frames B \<union> unat ` vtables s"

definition pt_frame :: "vm \<Rightarrow> blk set \<Rightarrow> vm \<Rightarrow> blk set \<Rightarrow> bool" where
  "pt_frame s B s' B' \<longleftrightarrow> vm_cr3 s' = vm_cr3 s \<and> free_frames B' \<subseteq> free_frames B \<and>
     db_same (free_frames B) (vm_kmem s) (vm_kmem s') \<and>
     vtables s' \<subseteq> vtables s \<union> {f. unat f \<in> free_frames B} \<and>
     (\<forall>f. unat f \<notin> free_frames B \<longrightarrow> f \<notin> vtables s \<longrightarrow> vm_pm s' f = vm_pm s f)"

definition pt_grown :: "vm \<Rightarrow> blk set \<Rightarrow> vm \<Rightarrow> blk set \<Rightarrow> bool" where
  "pt_grown s B s' B' \<longleftrightarrow> pt_frame s B s' B' \<and> held s' B' = held s B \<and>
     (\<forall>d k. d \<le> 4 \<longrightarrow> nonrec d k \<longrightarrow> vtab s d k \<noteq> None \<longrightarrow> vtab s' d k = vtab s d k) \<and>
     (\<forall>k. nonrec 4 k \<longrightarrow> vtab s' 4 k = vtab s 4 k)"

lemma pt_frame_refl: "pt_frame s B s B"
  by (simp add: pt_frame_def)

lemma pt_grown_refl: "pt_grown s B s B"
  by (simp add: pt_grown_def pt_frame_refl)

lemma pt_frame_trans:
  assumes "pt_frame s B s1 B1" and "pt_frame s1 B1 s2 B2"
  shows "pt_frame s B s2 B2"
proof -
  have "db_same (free_frames B) (vm_kmem s) (vm_kmem s2)"
    by (rule db_same_trans [of "free_frames B" _ "vm_kmem s1" "free_frames B1"]) (use assms in \<open>auto simp: pt_frame_def\<close>)
  moreover have "\<forall>f. unat f \<notin> free_frames B \<longrightarrow> f \<notin> vtables s \<longrightarrow> vm_pm s2 f = vm_pm s f"
  proof (intro allI impI)
    fix f assume f: "unat f \<notin> free_frames B" "f \<notin> vtables s"
    then have "unat f \<notin> free_frames B1" "f \<notin> vtables s1" using assms(1) by (auto simp: pt_frame_def)
    then show "vm_pm s2 f = vm_pm s f" using f assms by (auto simp: pt_frame_def)
  qed
  moreover have "vtables s2 \<subseteq> vtables s \<union> {f. unat f \<in> free_frames B}"
    using assms unfolding pt_frame_def by blast
  ultimately show ?thesis using assms unfolding pt_frame_def by auto
qed

lemma pt_grown_trans:
  assumes "pt_grown s B s1 B1" and "pt_grown s1 B1 s2 B2"
  shows "pt_grown s B s2 B2"
proof -
  have "\<forall>d k. d \<le> 4 \<longrightarrow> nonrec d k \<longrightarrow> vtab s d k \<noteq> None \<longrightarrow> vtab s2 d k = vtab s d k"
    using assms unfolding pt_grown_def by metis
  then show ?thesis using assms pt_frame_trans unfolding pt_grown_def by metis
qed

lemma vm_pmm_alloc_1:
  assumes inv: "buddy_inv (vm_kmem s) B" and ne: "free_frames B \<noteq> {}"
  obtains pfn km B' where "vm_pmm_alloc 1 s = Inr (pfn, s\<lparr>vm_kmem := km\<rparr>)" and "buddy_inv km B'"
    and "unat pfn \<in> free_frames B" and "free_frames B' = free_frames B - {unat pfn}" and "unat pfn < nframes (vm_kmem s)"
    and "db_same (free_frames B) (vm_kmem s) km" and "porder (pfn_database km (unat pfn)) = 0"
proof -
  from ne obtain p j where "(p, j) \<in> B" by (auto simp: free_frames_def)
  from pmm_alloc_pages_succeeds [OF inv _ this, of 1] obtain pfn km where
    run: "pmm_alloc_pages 1 (vm_kmem s) = (Inr pfn, km)" by auto
  from pmm_alloc_pages_Inr(1) [OF inv _ run] obtain B' where
    a: "alloc_ok (vm_kmem s) B 0 (unat pfn) km B'" by (auto simp: order_for_1)
  have b: "blk_frames (unat pfn, 0) = {unat pfn}" by (auto simp: blk_frames_def)
  show ?thesis by (rule that [of pfn km B']) (use a run in \<open>auto simp: alloc_ok_def b vm_pmm_alloc_def blk_ok_def\<close>)
qed

lemma pt_change_intro:
  assumes tree: "pt_tree pm r" and d: "d < 4" and K: "nonrec (Suc d) K" and t: "tab pm r d (K div 512) = Some t"
    and new: "pm' = pm(f := h, t := (pm t)(of_nat (K mod 512) := e))" and ft: "f \<notin> tables pm r \<or> h = pm f"
    and g: "g = (if pt_present e then Some (page_frame e) else None)"
    and deep: "d < 3 \<longrightarrow> tab pm r (Suc d) K = None \<and> (g = None \<or> g = Some f \<and> h = (\<lambda>_. 0) \<and> f \<noteq> t)"
  shows "pt_change pm r d K t g pm'"
  using assms by (auto simp: pt_change_def pt_write_def mmu_step_def)

lemma unat_take_36: "unat pfn < 2 ^ 36 \<Longrightarrow> take_bit 36 pfn = pfn" for pfn :: u64
  by (rule word_take_bit_self)

lemma nonrec_less: "nonrec d k \<Longrightarrow> k < 512 ^ d"
  by (simp add: nonrec_def)

lemma vread_ent:
  assumes "pt_inv s B" and "d < 4" and "k < 512 ^ Suc d" and "vtab s d (k div 512) = Some t"
  shows "vread (ent_ptr d k) s = Inr (vm_pm s t (of_nat (k mod 512)), s)"
  using assms by (simp add: vread_def walk_ent [OF pt_tree_root] pt_inv_def word_index_ent_ptr)

lemma vwrite_ent:
  assumes "pt_tree (vm_pm s) (vm_cr3 s)" and "d < 4" and "k < 512 ^ Suc d" and "vtab s d (k div 512) = Some t"
  shows "vwrite (ent_ptr d k) v s = Inr ((), s\<lparr>vm_pm := set_word t (of_nat (k mod 512)) v (vm_pm s)\<rparr>)"
  using assms by (simp add: vwrite_def walk_ent [OF pt_tree_root] word_index_ent_ptr)

definition fills :: "(u64 \<Rightarrow> u64 \<Rightarrow> u64 \<Rightarrow> u64) \<Rightarrow> u64 \<Rightarrow> bool" where
  "fills fill fl \<longleftrightarrow> (\<forall>pfn e. page_frame (fill pfn fl e) = take_bit 36 pfn \<and> pt_present (fill pfn fl e))"

lemma fills_levels: "bit fl 0 \<Longrightarrow> fills pml4e_fill fl \<and> fills pdpte_fill fl \<and> fills pde_fill fl"
  by (simp add: fills_def page_frame_fill pt_present_fill)

lemma alloc_entry_spec:
  assumes inv: "pt_inv s B" and d: "d < 3" and k: "nonrec (Suc d) k" and t: "vtab s d (k div 512) = Some t"
    and fill: "fills fill fl"
    and mem: "free_frames B \<noteq> {}"
  shows "\<exists>s' B'. ptm_alloc_entry fill fl (ent_ptr d k) s = Inr ((), s') \<and> pt_inv s' B' \<and> pt_grown s B s' B' \<and>
    vtab s' (Suc d) k \<noteq> None \<and> card (free_frames B) \<le> Suc (card (free_frames B'))"
proof -
  let ?pm = "vm_pm s" and ?r = "vm_cr3 s" and ?i = "of_nat (k mod 512) :: u64"
  have d4: "d < 4" using d by simp
  note kl = nonrec_less [OF k]
  have rd: "vread (ent_ptr d k) s = Inr (?pm t ?i, s)" by (rule vread_ent [OF inv d4 kl t])
  show ?thesis
  proof (cases "pt_present (?pm t ?i)")
    case True
    then have "ptm_alloc_entry fill fl (ent_ptr d k) s = Inr ((), s)"
      using rd by (simp add: ptm_alloc_entry_def)
    moreover have "vtab s (Suc d) k \<noteq> None" using True t by (simp add: mmu_step_def)
    ultimately show ?thesis using inv pt_grown_refl by (metis le_SucI order_refl)
  next
    case False
    have tree: "pt_tree ?pm ?r" and b: "buddy_inv (vm_kmem s) B" and nf: "nframes (vm_kmem s) \<le> 2 ^ 36"
      and tf: "\<forall>f \<in> vtables s. unat f \<notin> free_frames B" using inv by (auto simp: pt_inv_def)
    from vm_pmm_alloc_1 [OF b mem] obtain pfn km B' where
      al: "vm_pmm_alloc 1 s = Inr (pfn, s\<lparr>vm_kmem := km\<rparr>)" "buddy_inv km B'" "unat pfn \<in> free_frames B"
        "free_frames B' = free_frames B - {unat pfn}" "unat pfn < nframes (vm_kmem s)"
        "db_same (free_frames B) (vm_kmem s) km" by metis
    have fresh: "pfn \<notin> vtables s" using tf al(3) by auto
    have tt: "t \<in> vtables s" by (rule tables_I [OF d4 nonrec_parent [OF k] t])
    define e where "e = fill pfn fl (?pm t ?i)"
    have pf: "page_frame e = pfn" "pt_present e"
      using fill [unfolded fills_def] unat_take_36 [of pfn] al(5) nf by (simp_all add: e_def)
    define pm2 where "pm2 = set_word t ?i e ?pm"
    define pm3 where "pm3 = pm2(pfn := (\<lambda>_. 0))"
    have old: "tab ?pm ?r (Suc d) k = None" using t False by (simp add: mmu_step_def)
    have "pt_write ?pm ?r d k t pm2" using tree d4 k t by (auto simp: pt_write_def pm2_def)
    note w2 = write_root [OF this] tab_write_new [OF this]
    have child: "mmu_walk pm2 ?r (mi_pte_to_ptr (ent_ptr d k)) = Some pfn"
      using walk_child [OF w2(1) d kl] w2(2) pf by (simp add: pm2_def mmu_step_def)
    let ?s = "s\<lparr>vm_kmem := km, vm_pm := pm3\<rparr>"
    have ch: "pt_change ?pm ?r d k t (Some pfn) pm3"
      by (rule pt_change_intro [OF tree d4 k t, where f = pfn and h = "\<lambda>_. 0" and e = e])
        (use fresh tt pf old in \<open>auto simp: pm3_def pm2_def\<close>)
    have run: "ptm_alloc_entry fill fl (ent_ptr d k) s = Inr ((), ?s)"
      using rd False al(1) child vwrite_ent [OF _ d4 kl, of "s\<lparr>vm_kmem := km\<rparr>" t e] tree t
      by (simp add: ptm_alloc_entry_def e_def [symmetric] pm2_def [symmetric] vzero_page_def pm3_def)
    have tr: "pt_tree pm3 ?r" "tables pm3 ?r = insert pfn (vtables s)"
      using change_tree [OF ch, of pfn] fresh d by auto
    have inv': "pt_inv ?s B'"
      using tr al tf nf db_same_nframes [OF al(6)] by (auto simp: pt_inv_def)
    have "pt_grown s B ?s B'"
      unfolding pt_grown_def pt_frame_def using al tr(2) tab_change [OF ch] old fresh d
      by (auto simp: pm3_def pm2_def tt)
    moreover have "vtab ?s (Suc d) k \<noteq> None" using tab_change [OF ch _ k] d by (simp del: tab.simps)
    moreover have "finite (free_frames B)" using free_frames_bound [OF buddy_inv_wf [OF b]] finite_subset by blast
    then have "card (free_frames B) \<le> Suc (card (free_frames B'))" using al(3) by (simp add: al(4) card_Suc_Diff1)
    ultimately show ?thesis using run inv' by metis
  qed
qed

section \<open>Ranges\<close>

lemma kforeach_upt:
  assumes "a \<le> b" and "P a s"
    and step: "\<And>i s. a \<le> i \<Longrightarrow> i < b \<Longrightarrow> P i s \<Longrightarrow> \<exists>s'. f i s = Inr ((), s') \<and> P (Suc i) s'"
  shows "\<exists>s'. kforeach f [a..<b] s = Inr ((), s') \<and> P b s'"
  using assms
proof (induction "b - a" arbitrary: a s)
  case 0
  then show ?case by simp
next
  case (Suc n)
  then have ab: "a < b" by simp
  from Suc.prems(3) [OF order_refl ab Suc.prems(2)] obtain s1 where s1: "f a s = Inr ((), s1)" "P (Suc a) s1" by auto
  have "\<exists>s'. kforeach f [Suc a..<b] s1 = Inr ((), s') \<and> P b s'"
    by (rule Suc.hyps(1)) (use Suc.hyps(2) ab s1(2) Suc.prems(3) in auto)
  then show ?case using s1(1) ab by (simp add: upt_conv_Cons)
qed

lemma ent_ptr_add: "ent_ptr d k + 8 * of_nat i = ent_ptr d (k + i)"
  by (simp add: ent_ptr_def distrib_left)

lemma entries_ent:
  assumes "d < 4" and "k0 \<le> k1" and "k1 < 512 ^ Suc d"
  shows "pt_entries_upto (ent_ptr d k0) (ent_ptr d k1) = Suc (k1 - k0)"
    and "pt_entries_below (ent_ptr d k0) (ent_ptr d k1) = k1 - k0"
proof -
  have u: "unat (ent_ptr d k0) = unat (ent_base d) + 8 * k0" "unat (ent_ptr d k1) = unat (ent_base d) + 8 * k1"
    by (rule unat_ent_ptr; use assms in simp)+
  have "unat (ent_ptr d k1) - unat (ent_ptr d k0) = 8 * (k1 - k0)" unfolding u by simp
  then show "pt_entries_upto (ent_ptr d k0) (ent_ptr d k1) = Suc (k1 - k0)"
    and "pt_entries_below (ent_ptr d k0) (ent_ptr d k1) = k1 - k0"
    using assms(2) u by (simp_all add: pt_entries_upto_def pt_entries_below_def word_le_nat_alt)
qed

lemma alloc_range_spec:
  assumes inv: "pt_inv s B" and d: "d < 3" and k: "k0 \<le> k1" "\<And>k. k0 \<le> k \<Longrightarrow> k \<le> k1 \<Longrightarrow> nonrec (Suc d) k"
    and t: "\<And>k. k0 \<le> k \<Longrightarrow> k \<le> k1 \<Longrightarrow> vtab s d (k div 512) \<noteq> None"
    and fill: "fills fill fl"
    and mem: "Suc (k1 - k0) \<le> card (free_frames B)"
  shows "\<exists>s' B'. ptm_alloc_range fill fl (ent_ptr d k0) (ent_ptr d k1) s = Inr ((), s') \<and> pt_inv s' B' \<and> pt_grown s B s' B' \<and>
    (\<forall>k. k0 \<le> k \<and> k \<le> k1 \<longrightarrow> vtab s' (Suc d) k \<noteq> None) \<and> card (free_frames B) \<le> Suc (k1 - k0) + card (free_frames B')"
proof -
  let ?P = "\<lambda>i s'. \<exists>B'. pt_inv s' B' \<and> pt_grown s B s' B' \<and> (\<forall>k. k0 \<le> k \<and> k < k0 + i \<longrightarrow> vtab s' (Suc d) k \<noteq> None) \<and>
    card (free_frames B) \<le> i + card (free_frames B')"
  let ?f = "\<lambda>i. ptm_alloc_entry fill fl (ent_ptr d k0 + 8 * of_nat i)"
  have "\<exists>s'. kforeach ?f [0..<Suc (k1 - k0)] s = Inr ((), s') \<and> ?P (Suc (k1 - k0)) s'"
  proof (rule kforeach_upt)
    show "?P 0 s" using inv pt_grown_refl by auto
    fix i s1 assume i: "i < Suc (k1 - k0)" and "?P i s1"
    then obtain B1 where B1: "pt_inv s1 B1" "pt_grown s B s1 B1" "\<forall>k. k0 \<le> k \<and> k < k0 + i \<longrightarrow> vtab s1 (Suc d) k \<noteq> None"
      "card (free_frames B) \<le> i + card (free_frames B1)" by auto
    have ki: "k0 \<le> k0 + i" "k0 + i \<le> k1" using i k(1) by auto
    note nr = k(2) [OF ki]
    have "vtab s1 d ((k0 + i) div 512) = vtab s d ((k0 + i) div 512)"
      using B1(2) t [OF ki] nonrec_parent [OF nr] d by (simp add: pt_grown_def)
    then obtain u where u: "vtab s1 d ((k0 + i) div 512) = Some u" using t [OF ki] by auto
    have "free_frames B1 \<noteq> {}" using B1(4) mem i by auto
    from alloc_entry_spec [OF B1(1) d nr u fill this] obtain s2 B2 where
      s2: "?f i s1 = Inr ((), s2)" "pt_inv s2 B2" "pt_grown s1 B1 s2 B2" "vtab s2 (Suc d) (k0 + i) \<noteq> None"
        "card (free_frames B1) \<le> Suc (card (free_frames B2))" unfolding ent_ptr_add by blast
    have "vtab s2 (Suc d) k \<noteq> None" if "k0 \<le> k \<and> k < k0 + Suc i" for k
    proof (cases "k = k0 + i")
      case False
      then have "vtab s1 (Suc d) k \<noteq> None" using B1(3) that by auto
      moreover have "nonrec (Suc d) k" using k(2) that ki by auto
      ultimately show ?thesis using s2(3) d by (simp add: pt_grown_def del: tab.simps)
    qed (use s2(4) in simp)
    with s2 B1 pt_grown_trans [OF B1(2) s2(3)] show "\<exists>s'. ?f i s1 = Inr ((), s') \<and> ?P (Suc i) s'"
      by (intro exI [of _ s2] conjI exI [of _ B2]) auto
  qed simp
  moreover have "pt_entries_upto (ent_ptr d k0) (ent_ptr d k1) = Suc (k1 - k0)"
    by (rule entries_ent) (use d k nonrec_less [OF k(2) [of k1]] in auto)
  ultimately show ?thesis using k(1) by (auto simp: ptm_alloc_range_def less_Suc_eq_le)
qed

end
