(* ===== verification/PtmMap.thy ===== *)
theory PtmMap
  imports Ptm
begin

text \<open>
  The effect of \<^verbatim>\<open>ptm_map_pages\<close> and \<^verbatim>\<open>ptm_unmap_pages\<close> on the translation of addresses.
\<close>

section \<open>Ranges of page numbers\<close>

lemma vpn_add:
  assumes "vpn va + unat n < 2 ^ 36"
  shows "vpn (va + n * 4096) = vpn va + unat n"
proof -
  let ?a = "unat va div 4096"
  have "unat (of_nat (unat va + unat n * 4096) :: u64) = (unat va + unat n * 4096) mod 2 ^ 64" by (simp only: unat_of_nat) simp
  then have "unat (va + n * 4096) = (unat va + unat n * 4096) mod 2 ^ 64" by simp
  then have "unat (va + n * 4096) div 4096 = (unat va + unat n * 4096) div 2 ^ 12 mod 2 ^ 52"
    using div_mod_pow [of "unat va + unat n * 4096" 12 52] by simp
  also have "(unat va + unat n * 4096) div 2 ^ 12 = ?a + unat n" by simp
  finally have "vpn (va + n * 4096) = (?a + unat n) mod 2 ^ 52 mod 2 ^ 36" by (simp only: vpn_def)
  also have "\<dots> = (?a + unat n) mod 2 ^ 36" by (rule mod_mod_cancel [OF le_imp_power_dvd]) simp
  also have "\<dots> = (?a mod 2 ^ 36 + unat n) mod 2 ^ 36" by (simp only: mod_add_left_eq)
  finally show ?thesis using assms by (simp add: vpn_def)
qed

lemma pages_u32: "unat n < 2 ^ 20 \<Longrightarrow> ucast ((ucast n :: u32) * 4096) = n * 4096" for n :: u64
proof -
  assume n: "unat n < 2 ^ 20"
  then have "unat (ucast n :: u32) = unat n" by (simp add: unsigned_ucast_eq take_bit_nat_eq_self)
  then have "unat ((ucast n :: u32) * 4096) = unat n * 4096" using n by (subst unat_mult_lem [THEN iffD1]) simp_all
  moreover have "unat (n * 4096) = unat n * 4096" using n by (subst unat_mult_lem [THEN iffD1]) simp_all
  ultimately have "unat (ucast ((ucast n :: u32) * 4096) :: u64) = unat (n * 4096)"
    using n by (simp add: unsigned_ucast_eq take_bit_nat_eq_self)
  then show ?thesis by (simp only: word_unat_eq_iff)
qed

lemma range_prefix:
  assumes "k0 \<le> k1" and "k0 div 512 ^ m \<le> q" and "q \<le> k1 div 512 ^ m"
  obtains k where "k0 \<le> k" and "k \<le> k1" and "k div 512 ^ m = (q :: nat)"
proof (cases "q * 512 ^ m \<le> k0")
  case True
  then have "k0 div 512 ^ m = q" using assms(2) by (simp add: less_eq_div_iff_mult_less_eq order_antisym)
  then show ?thesis using that assms(1) by blast
next
  case False
  then show ?thesis using that [of "q * 512 ^ m"] assms(3) by (simp add: less_eq_div_iff_mult_less_eq)
qed

lemma nonrec_prefix: "nonrec (d + m) k \<Longrightarrow> nonrec d (k div 512 ^ m)"
proof (induction m arbitrary: k)
  case 0
  then show ?case by simp
next
  case (Suc m)
  then have "nonrec (d + m) (k div 512)" using nonrec_parent [of "d + m" k] by simp
  from Suc.IH [OF this] show ?case by (simp add: div_mult2_eq)
qed

lemma nonrec_range:
  assumes "k0 \<le> k1" and nr: "\<And>k. k0 \<le> k \<Longrightarrow> k \<le> k1 \<Longrightarrow> nonrec (d + m) k"
    and "k0 div 512 ^ m \<le> q" and "q \<le> k1 div 512 ^ m"
  shows "nonrec d q"
proof -
  from range_prefix [OF assms(1,3,4)] obtain k where "k0 \<le> k" "k \<le> k1" "k div 512 ^ m = q" .
  with nonrec_prefix [OF nr] show ?thesis by blast
qed

lemma div_range_le: "(k0 + n) div c - k0 div c \<le> n div c + 1" for k0 n c :: nat
proof (cases "c = 0")
  case False
  have "k0 + n < c * (k0 div c + n div c + 2)"
  proof -
    have "k0 = c * (k0 div c) + k0 mod c" "n = c * (n div c) + n mod c" by simp_all
    moreover have "k0 mod c < c" "n mod c < c" using False by simp_all
    moreover have "c * (k0 div c + n div c + 2) = c * (k0 div c) + c * (n div c) + 2 * c" by (simp add: distrib_left)
    ultimately show ?thesis by linarith
  qed
  then have "(k0 + n) div c < k0 div c + n div c + 2" using False by (simp add: div_less_iff_less_mult mult.commute)
  then show ?thesis by simp
qed simp

section \<open>Tables for a range\<close>

definition need_tables :: "u64 \<Rightarrow> nat" where
  "need_tables n = 3 * (unat n div 512 + 2)"

lemma alloc_level:
  assumes inv: "pt_inv s B" and d: "d < 3" and m: "d + m = 3"
    and nr: "\<And>k. vpn va \<le> k \<Longrightarrow> k \<le> vpn va + unat n \<Longrightarrow> nonrec 4 k"
    and par: "\<And>q. vpn va div 512 ^ Suc m \<le> q \<Longrightarrow> q \<le> (vpn va + unat n) div 512 ^ Suc m \<Longrightarrow> vtab s d q \<noteq> None"
    and fill: "fills fill fl" and mem: "unat n div 512 + 2 \<le> card (free_frames B)"
  shows "\<exists>s' B'. ptm_alloc_range fill fl (ent_ptr d (vpn va div 512 ^ m)) (ent_ptr d ((vpn va + unat n) div 512 ^ m)) s = Inr ((), s') \<and>
    pt_inv s' B' \<and> pt_grown s B s' B' \<and>
    (\<forall>q. vpn va div 512 ^ m \<le> q \<and> q \<le> (vpn va + unat n) div 512 ^ m \<longrightarrow> vtab s' (Suc d) q \<noteq> None) \<and>
    card (free_frames B) \<le> (unat n div 512 + 2) + card (free_frames B')"
proof -
  let ?k0 = "vpn va div 512 ^ m" and ?k1 = "(vpn va + unat n) div 512 ^ m"
  obtain m' where m': "m = Suc m'" using d m by (cases m) auto
  have "?k1 - ?k0 \<le> unat n div 512 ^ m + 1" by (rule div_range_le)
  also have "unat n div 512 ^ m \<le> unat n div 512" by (simp add: m' div_le_mono2)
  finally have c: "Suc (?k1 - ?k0) \<le> unat n div 512 + 2" by simp
  have le: "?k0 \<le> ?k1" by (simp add: div_le_mono)
  have nr1: "nonrec (Suc d) k" if "?k0 \<le> k" "k \<le> ?k1" for k
    by (rule nonrec_range [of "vpn va" "vpn va + unat n" "Suc d" m]) (use nr m that in simp_all)
  have t: "vtab s d (k div 512) \<noteq> None" if "?k0 \<le> k" "k \<le> ?k1" for k
    by (rule par) (use that div_le_mono [of _ _ 512] in \<open>simp_all only: power_Suc2 div_mult2_eq\<close>)
  have "Suc (?k1 - ?k0) \<le> card (free_frames B)" using c mem by simp
  from alloc_range_spec [OF inv d le nr1 t fill this] obtain s' B' where
    r: "ptm_alloc_range fill fl (ent_ptr d ?k0) (ent_ptr d ?k1) s = Inr ((), s')" "pt_inv s' B'" "pt_grown s B s' B'"
      "\<forall>k. ?k0 \<le> k \<and> k \<le> ?k1 \<longrightarrow> vtab s' (Suc d) k \<noteq> None" "card (free_frames B) \<le> Suc (?k1 - ?k0) + card (free_frames B')"
    by blast
  have "card (free_frames B) \<le> (unat n div 512 + 2) + card (free_frames B')" using r(5) c by linarith
  with r(1-4) show ?thesis by blast
qed

lemma tables_for_range:
  assumes inv: "pt_inv s B" and fl: "bit fl 0" and n: "unat n < 2 ^ 20" "vpn va + unat n < 2 ^ 36"
    and nr: "\<And>k. vpn va \<le> k \<Longrightarrow> k \<le> vpn va + unat n \<Longrightarrow> nonrec 4 k"
    and mem: "need_tables n \<le> card (free_frames B)"
  shows "\<exists>s1 s2 s3 B'. ptm_alloc_pml4es va (ucast n) fl s = Inr ((), s1) \<and> ptm_alloc_pdptes va (ucast n) fl s1 = Inr ((), s2) \<and>
    ptm_alloc_pdes va (ucast n) fl s2 = Inr ((), s3) \<and> pt_inv s3 B' \<and> pt_grown s B s3 B' \<and>
    (\<forall>q. vpn va div 512 \<le> q \<and> q \<le> (vpn va + unat n) div 512 \<longrightarrow> vtab s3 3 q \<noteq> None) \<and>
    card (free_frames B) \<le> need_tables n + card (free_frames B')"
proof -
  let ?c = "unat n div 512 + 2"
  have m: "3 * ?c \<le> card (free_frames B)" using mem by (simp add: need_tables_def)
  have v: "vpn (va + ucast ((ucast n :: u32) * 4096)) = vpn va + unat n" by (simp only: pages_u32 [OF n(1)] vpn_add [OF n(2)])
  have p: "(2 :: nat) ^ 27 = 512 ^ 3" "(2 :: nat) ^ 18 = 512 ^ 2" "(2 :: nat) ^ 9 = 512 ^ 1" by simp_all
  note f = fills_levels [OF fl]
  have "\<exists>s1 B1. ptm_alloc_pml4es va (ucast n) fl s = Inr ((), s1) \<and> pt_inv s1 B1 \<and> pt_grown s B s1 B1 \<and>
    (\<forall>q. vpn va div 512 ^ 3 \<le> q \<and> q \<le> (vpn va + unat n) div 512 ^ 3 \<longrightarrow> vtab s1 (Suc 0) q \<noteq> None) \<and>
    card (free_frames B) \<le> ?c + card (free_frames B1)"
    unfolding ptm_alloc_pml4es_def mi_ptr_ent v p by (rule alloc_level [OF inv _ _ nr]) (use f m in auto)
  then obtain s1 B1 where 1: "ptm_alloc_pml4es va (ucast n) fl s = Inr ((), s1)" "pt_inv s1 B1" "pt_grown s B s1 B1"
    "\<forall>q. vpn va div 512 ^ 3 \<le> q \<and> q \<le> (vpn va + unat n) div 512 ^ 3 \<longrightarrow> vtab s1 (Suc 0) q \<noteq> None"
    "card (free_frames B) \<le> ?c + card (free_frames B1)" by blast
  have "\<exists>s2 B2. ptm_alloc_pdptes va (ucast n) fl s1 = Inr ((), s2) \<and> pt_inv s2 B2 \<and> pt_grown s1 B1 s2 B2 \<and>
    (\<forall>q. vpn va div 512 ^ 2 \<le> q \<and> q \<le> (vpn va + unat n) div 512 ^ 2 \<longrightarrow> vtab s2 (Suc 1) q \<noteq> None) \<and>
    card (free_frames B1) \<le> ?c + card (free_frames B2)"
    unfolding ptm_alloc_pdptes_def mi_ptr_ent v p
    by (rule alloc_level [OF 1(2) _ _ nr]) (use f m 1(4,5) in \<open>simp_all del: tab.simps\<close>)
  then obtain s2 B2 where 2: "ptm_alloc_pdptes va (ucast n) fl s1 = Inr ((), s2)" "pt_inv s2 B2" "pt_grown s1 B1 s2 B2"
    "\<forall>q. vpn va div 512 ^ 2 \<le> q \<and> q \<le> (vpn va + unat n) div 512 ^ 2 \<longrightarrow> vtab s2 (Suc 1) q \<noteq> None"
    "card (free_frames B1) \<le> ?c + card (free_frames B2)" by blast
  have "\<exists>s3 B3. ptm_alloc_pdes va (ucast n) fl s2 = Inr ((), s3) \<and> pt_inv s3 B3 \<and> pt_grown s2 B2 s3 B3 \<and>
    (\<forall>q. vpn va div 512 ^ 1 \<le> q \<and> q \<le> (vpn va + unat n) div 512 ^ 1 \<longrightarrow> vtab s3 (Suc 2) q \<noteq> None) \<and>
    card (free_frames B2) \<le> ?c + card (free_frames B3)"
    unfolding ptm_alloc_pdes_def mi_ptr_ent v p
    by (rule alloc_level [OF 2(2) _ _ nr]) (use f m 1(5) 2(4,5) in \<open>simp_all add: numeral_2_eq_2 del: tab.simps\<close>)
  then obtain s3 B3 where 3: "ptm_alloc_pdes va (ucast n) fl s2 = Inr ((), s3)" "pt_inv s3 B3" "pt_grown s2 B2 s3 B3"
    "\<forall>q. vpn va div 512 ^ 1 \<le> q \<and> q \<le> (vpn va + unat n) div 512 ^ 1 \<longrightarrow> vtab s3 (Suc 2) q \<noteq> None"
    "card (free_frames B2) \<le> ?c + card (free_frames B3)" by blast
  have "card (free_frames B) \<le> need_tables n + card (free_frames B3)"
    using 1(5) 2(5) 3(5) by (simp add: need_tables_def)
  moreover have "pt_grown s B s3 B3" by (rule pt_grown_trans [OF 1(3) pt_grown_trans [OF 2(3) 3(3)]])
  moreover have "Suc 2 = 3" by simp
  ultimately show ?thesis using 1(1) 2(1) 3 by (metis power_one_right)
qed

section \<open>Mapping\<close>

lemma map_entry_spec:
  assumes inv: "pt_inv s B" and k: "nonrec 4 k" and t: "vtab s 3 (k div 512) = Some t" and none: "vtab s 4 k = None"
    and fl: "bit fl 0" and pfn: "unat pfn < 2 ^ 36"
  shows "\<exists>s'. ptm_map_entry fl (ent_ptr 3 k) pfn s = Inr ((), s') \<and> pt_inv s' B \<and> pt_frame s B s' B \<and> vtables s' = vtables s \<and>
    (\<forall>d' k'. d' \<le> 4 \<longrightarrow> nonrec d' k' \<longrightarrow> vtab s' d' k' = (if d' = 4 \<and> k' = k then Some pfn else vtab s d' k'))"
proof -
  let ?i = "of_nat (k mod 512) :: u64"
  let ?pm = "set_word t ?i (pte_fill pfn fl) (vm_pm s)"
  have s3: "Suc 3 = 4" by simp
  have kl: "k < 512 ^ Suc 3" using nonrec_less [OF k] by simp
  have tree: "pt_tree (vm_pm s) (vm_cr3 s)" using inv by (simp add: pt_inv_def)
  have "tab (vm_pm s) (vm_cr3 s) (Suc 3) k = mmu_step (vm_pm s) t ?i" by (simp only: tab.simps t Option.bind_lunit)
  then have "\<not> pt_present (vm_pm s t ?i)" using none by (simp add: s3 mmu_step_def split: if_splits)
  then have run: "ptm_map_entry fl (ent_ptr 3 k) pfn s = Inr ((), s\<lparr>vm_pm := ?pm\<rparr>)"
    using vread_ent [OF inv _ kl t] vwrite_ent [OF tree _ kl t] by (simp add: ptm_map_entry_def)
  have ch: "pt_change (vm_pm s) (vm_cr3 s) 3 k t (Some pfn) ?pm"
    by (rule pt_change_intro [OF tree _ _ t, where f = t and h = "vm_pm s t" and e = "pte_fill pfn fl"])
      (use k fl unat_take_36 [OF pfn] in \<open>simp_all add: page_frame_fill pt_present_fill\<close>)
  have tr: "pt_tree ?pm (vm_cr3 s)" "tables ?pm (vm_cr3 s) = vtables s" using change_tree [OF ch] by simp_all
  have tt: "t \<in> vtables s" using tables_I [OF _ nonrec_parent t] k by simp
  have "pt_inv (s\<lparr>vm_pm := ?pm\<rparr>) B" using inv tr by (simp add: pt_inv_def)
  moreover have "pt_frame s B (s\<lparr>vm_pm := ?pm\<rparr>) B" using tr tt by (auto simp: pt_frame_def)
  ultimately show ?thesis using run tab_change [OF ch] tr(2)
    by (intro exI [of _ "s\<lparr>vm_pm := ?pm\<rparr>"]) simp
qed

lemma ptm_map_pages_spec:
  assumes inv: "pt_inv s B" and fl: "bit fl 0" and n: "unat n < 2 ^ 20" "vpn va + unat n < 2 ^ 36"
    and nr: "\<And>k. vpn va \<le> k \<Longrightarrow> k \<le> vpn va + unat n \<Longrightarrow> nonrec 4 k"
    and none: "\<And>k. vpn va \<le> k \<Longrightarrow> k < vpn va + unat n \<Longrightarrow> vtab s 4 k = None"
    and pa: "unat (drop_bit 12 pa) + unat n \<le> 2 ^ 36" and mem: "need_tables n \<le> card (free_frames B)"
  shows "\<exists>s' B'. ptm_map_pages va pa n fl s = Inr ((), s') \<and> pt_inv s' B' \<and> pt_frame s B s' B' \<and> held s' B' = held s B \<and>
    (\<forall>k. nonrec 4 k \<longrightarrow> vtab s' 4 k =
      (if vpn va \<le> k \<and> k < vpn va + unat n then Some (drop_bit 12 pa + of_nat (k - vpn va)) else vtab s 4 k)) \<and>
    card (free_frames B) \<le> need_tables n + card (free_frames B')"
proof -
  let ?k = "vpn va" and ?pfn = "drop_bit 12 pa"
  from tables_for_range [OF inv fl n nr mem] obtain s1 s2 s3 B' where
    r: "ptm_alloc_pml4es va (ucast n) fl s = Inr ((), s1)" "ptm_alloc_pdptes va (ucast n) fl s1 = Inr ((), s2)"
      "ptm_alloc_pdes va (ucast n) fl s2 = Inr ((), s3)" and i3: "pt_inv s3 B'" and g3: "pt_grown s B s3 B'"
    and t3: "\<forall>q. ?k div 512 \<le> q \<and> q \<le> (?k + unat n) div 512 \<longrightarrow> vtab s3 3 q \<noteq> None"
    and c: "card (free_frames B) \<le> need_tables n + card (free_frames B')" by blast
  let ?f = "\<lambda>i. ptm_map_entry fl (ent_ptr 3 ?k + 8 * of_nat i) (?pfn + of_nat i)"
  let ?P = "\<lambda>i s'. pt_inv s' B' \<and> pt_frame s3 B' s' B' \<and> vtables s' = vtables s3 \<and>
    (\<forall>d' k'. d' \<le> 4 \<longrightarrow> nonrec d' k' \<longrightarrow> vtab s' d' k' =
      (if d' = 4 \<and> ?k \<le> k' \<and> k' < ?k + i then Some (?pfn + of_nat (k' - ?k)) else vtab s3 d' k'))"
  have "\<exists>s'. kforeach ?f [0..<unat n] s3 = Inr ((), s') \<and> ?P (unat n) s'"
  proof (rule kforeach_upt)
    show "?P 0 s3" using i3 pt_frame_refl by auto
    fix i s4 assume i: "i < unat n" and P: "?P i s4"
    have k: "nonrec 4 (?k + i)" by (rule nr) (use i in simp_all)
    have "vtab s3 3 ((?k + i) div 512) \<noteq> None" using t3 i by (simp add: div_le_mono)
    moreover have "vtab s4 3 ((?k + i) div 512) = vtab s3 3 ((?k + i) div 512)"
      using P nonrec_parent [of 3 "?k + i"] k by simp
    ultimately obtain t where t: "vtab s4 3 ((?k + i) div 512) = Some t" by auto
    have "vtab s4 4 (?k + i) = None" using P k none [of "?k + i"] i g3 by (simp add: pt_grown_def)
    moreover have "unat (?pfn + of_nat i) = unat ?pfn + i"
    proof -
      have "unat (of_nat i :: u64) = i" using i n(1) by (simp add: unat_of_nat)
      then show ?thesis using pa i by (subst unat_add_lem [THEN iffD1]) simp_all
    qed
    then have "unat (?pfn + of_nat i) < 2 ^ 36" using pa i by simp
    ultimately obtain s5 where s5: "?f i s4 = Inr ((), s5)" "pt_inv s5 B'" "pt_frame s4 B' s5 B'" "vtables s5 = vtables s4"
      "\<forall>d' k'. d' \<le> 4 \<longrightarrow> nonrec d' k' \<longrightarrow> vtab s5 d' k' = (if d' = 4 \<and> k' = ?k + i then Some (?pfn + of_nat i) else vtab s4 d' k')"
      using map_entry_spec [OF conjunct1 [OF P] k t _ fl] unfolding ent_ptr_add by blast
    have "pt_frame s3 B' s5 B'" using P s5(3) pt_frame_trans by blast
    moreover have "\<forall>d' k'. d' \<le> 4 \<longrightarrow> nonrec d' k' \<longrightarrow> vtab s5 d' k' =
      (if d' = 4 \<and> ?k \<le> k' \<and> k' < ?k + Suc i then Some (?pfn + of_nat (k' - ?k)) else vtab s3 d' k')"
      using s5(5) P by auto
    moreover have "vtables s5 = vtables s3" using s5(4) P by simp
    ultimately show "\<exists>s'. ?f i s4 = Inr ((), s') \<and> ?P (Suc i) s'" using s5(1,2) by blast
  qed simp
  then obtain s' where s': "kforeach ?f [0..<unat n] s3 = Inr ((), s')" "?P (unat n) s'" by blast
  have "pt_entries_below (ent_ptr 3 ?k) (ent_ptr 3 (?k + unat n)) = ?k + unat n - ?k"
    by (rule entries_ent) (use n(2) in simp_all)
  then have "ptm_map_pages va pa n fl s = Inr ((), s')"
    using r s'(1) by (simp add: ptm_map_pages_def mi_ptr_ent vpn_add [OF n(2)])
  moreover have "pt_frame s B s' B'" using g3 s'(2) pt_frame_trans by (auto simp: pt_grown_def)
  moreover have "held s' B' = held s B" using g3 s'(2) by (simp add: pt_grown_def)
  moreover have "\<forall>k. nonrec 4 k \<longrightarrow> vtab s' 4 k =
      (if ?k \<le> k \<and> k < ?k + unat n then Some (?pfn + of_nat (k - ?k)) else vtab s 4 k)"
    using s'(2) g3 by (auto simp: pt_grown_def)
  ultimately show ?thesis using s'(2) c by blast
qed

section \<open>Unmapping\<close>

text \<open>The state of a client that owns the blocks \<open>A\<close> of page frames.\<close>

definition vm_ok :: "vm \<Rightarrow> blk set \<Rightarrow> blk set \<Rightarrow> bool" where
  "vm_ok s B A \<longleftrightarrow> pt_inv s B \<and> pmm_owned (vm_kmem s) A \<and> free_frames A \<inter> free_frames B = {} \<and>
     (\<forall>f \<in> vtables s. unat f \<notin> free_frames A)"

lemma vm_ok_inv: "vm_ok s B A \<Longrightarrow> pt_inv s B"
  by (simp add: vm_ok_def)

lemma vm_ok_frame:
  assumes ok: "vm_ok s B A" and inv: "pt_inv s' B'" and fr: "pt_frame s B s' B'"
  shows "vm_ok s' B' A"
proof -
  have "pmm_owned (vm_kmem s') A"
    by (rule pmm_owned_db_same [of _ _ "free_frames B"]) (use ok fr in \<open>auto simp: vm_ok_def pt_frame_def\<close>)
  moreover have "unat f \<notin> free_frames A" if "f \<in> vtables s'" for f
    using that ok fr by (auto simp: vm_ok_def pt_frame_def)
  ultimately show ?thesis using ok inv fr by (auto simp: vm_ok_def pt_frame_def)
qed

lemma vm_ok_alloc:
  assumes ok: "vm_ok s B A" and ne: "free_frames B \<noteq> {}"
  obtains pfn km B' where "vm_pmm_alloc 1 s = Inr (pfn, s\<lparr>vm_kmem := km\<rparr>)" and "unat pfn \<in> free_frames B"
    and "free_frames B' = free_frames B - {unat pfn}" and "vm_ok (s\<lparr>vm_kmem := km\<rparr>) B' (insert (unat pfn, 0) A)"
    and "pt_frame s B (s\<lparr>vm_kmem := km\<rparr>) B'" and "unat pfn < 2 ^ 36"
    and "phys_addr (pfn_database km (unat pfn)) = push_bit 12 pfn"
proof -
  have b: "buddy_inv (vm_kmem s) B" and nf: "nframes (vm_kmem s) \<le> 2 ^ 36" using ok by (auto simp: vm_ok_def pt_inv_def)
  from vm_pmm_alloc_1 [OF b ne] obtain pfn km B' where
    al: "vm_pmm_alloc 1 s = Inr (pfn, s\<lparr>vm_kmem := km\<rparr>)" "buddy_inv km B'" "unat pfn \<in> free_frames B"
      "free_frames B' = free_frames B - {unat pfn}" "unat pfn < nframes (vm_kmem s)"
      "db_same (free_frames B) (vm_kmem s) km" "porder (pfn_database km (unat pfn)) = 0" .
  have nf': "nframes km = nframes (vm_kmem s)" by (rule db_same_nframes [OF al(6)])
  have f: "blk_frames (unat pfn, 0) = {unat pfn}" by (auto simp: blk_frames_def)
  have "pmm_owned km A" by (rule pmm_owned_db_same [OF _ al(6)]) (use ok in \<open>auto simp: vm_ok_def\<close>)
  then have own: "pmm_owned km (insert (unat pfn, 0) A)"
    by (rule pmm_owned_insert) (use al(3,5,7) nf' f ok in \<open>auto simp: blk_ok_def MM_MAX_ORDER_def vm_ok_def\<close>)
  have inv': "pt_inv (s\<lparr>vm_kmem := km\<rparr>) B'" using ok al nf nf' by (auto simp: vm_ok_def pt_inv_def)
  have ok': "vm_ok (s\<lparr>vm_kmem := km\<rparr>) B' (insert (unat pfn, 0) A)"
    using ok own inv' al(3,4) f by (auto simp: vm_ok_def pt_inv_def)
  have "pt_frame s B (s\<lparr>vm_kmem := km\<rparr>) B'" using al by (auto simp: pt_frame_def)
  moreover have "phys_addr (pfn_database km (unat pfn)) = push_bit 12 pfn"
    using buddy_inv_db [OF al(2)] al(5) nf' by (simp add: pfn_db_ok_def)
  ultimately show ?thesis using that al(1,3,4,5) ok' nf by simp
qed

lemma unmap_entry_spec:
  assumes ok: "vm_ok s B A" and k: "nonrec 4 k" and f: "vtab s 4 k = Some f" and own: "(unat f, 0) \<in> A"
  shows "\<exists>s' B'. ptm_unmap_entry (ent_ptr 3 k) s = Inr ((), s') \<and> vm_ok s' B' (A - {(unat f, 0)}) \<and>
    vm_cr3 s' = vm_cr3 s \<and> free_frames B' = insert (unat f) (free_frames B) \<and> vtables s' = vtables s \<and>
    (\<forall>g. g \<notin> vtables s \<longrightarrow> vm_pm s' g = vm_pm s g) \<and>
    (\<forall>d' k'. d' \<le> 4 \<longrightarrow> nonrec d' k' \<longrightarrow> vtab s' d' k' = (if d' = 4 \<and> k' = k then None else vtab s d' k'))"
proof -
  let ?i = "of_nat (k mod 512) :: u64"
  have s3: "Suc 3 = 4" by simp
  have inv: "pt_inv s B" and tree: "pt_tree (vm_pm s) (vm_cr3 s)" and b: "buddy_inv (vm_kmem s) B"
    and po: "pmm_owned (vm_kmem s) A" and dj: "free_frames A \<inter> free_frames B = {}"
    using ok by (auto simp: vm_ok_def pt_inv_def)
  have kl: "k < 512 ^ Suc 3" using nonrec_less [OF k] by simp
  have e: "vtab s 4 k = Option.bind (vtab s 3 (k div 512)) (\<lambda>t. mmu_step (vm_pm s) t ?i)"
    using tab.simps(2) [of "vm_pm s" "vm_cr3 s" 3 k] by (simp only: s3)
  then obtain t where t: "vtab s 3 (k div 512) = Some t" and st: "mmu_step (vm_pm s) t ?i = Some f"
    using f by (cases "vtab s 3 (k div 512)") auto
  have pe: "pt_present (vm_pm s t ?i)" "page_frame (vm_pm s t ?i) = f" using st by (auto simp: mmu_step_def split: if_splits)
  have bf: "blk_frames (unat f, 0) = {unat f}" by (auto simp: blk_frames_def)
  from pmm_free_owned [OF b po own dj] obtain km B' where
    fr: "pmm_free_pages (of_nat (unat f)) (vm_kmem s) = Inr km" "buddy_inv km B'"
      "free_frames B' = free_frames B \<union> {unat f}" "db_same (free_frames B \<union> {unat f}) (vm_kmem s) km" unfolding bf by blast
  have ff: "of_nat (unat f) = f" by (metis of_nat_unat ucast_id)
  have vf: "vm_pmm_free f s = Inr ((), s\<lparr>vm_kmem := km\<rparr>)" using fr(1) by (simp only: vm_pmm_free_def ff) simp
  let ?pm = "set_word t ?i 0 (vm_pm s)" and ?s = "s\<lparr>vm_kmem := km, vm_pm := set_word t ?i 0 (vm_pm s)\<rparr>"
  have run: "ptm_unmap_entry (ent_ptr 3 k) s = Inr ((), ?s)"
    using vread_ent [OF inv _ kl t] vwrite_ent [of "s\<lparr>vm_kmem := km\<rparr>" 3 k t 0] tree kl t vf pe by (simp add: ptm_unmap_entry_def)
  have ch: "pt_change (vm_pm s) (vm_cr3 s) 3 k t None ?pm"
    by (rule pt_change_intro [OF tree _ _ t, where f = t and h = "vm_pm s t" and e = 0]) (use k in simp_all)
  have tr: "pt_tree ?pm (vm_cr3 s)" "tables ?pm (vm_cr3 s) = vtables s" using change_tree [OF ch] by simp_all
  have tt: "t \<in> vtables s" using tables_I [OF _ nonrec_parent t] k by simp
  have nf: "nframes km = nframes (vm_kmem s)" by (rule db_same_nframes [OF fr(4)])
  have fA: "unat f \<in> free_frames A" using own bf by (auto simp: free_frames_def)
  have inv': "pt_inv ?s B'" using inv tr fr(2,3) nf ok fA by (auto simp: pt_inv_def vm_ok_def)
  have rest: "free_frames (A - {(unat f, 0)}) = free_frames A - {unat f}"
    using free_frames_remove_owned [OF po own] by (simp add: bf)
  have "pmm_owned (vm_kmem s) (A - {(unat f, 0)})" using po by (auto simp: pmm_owned_def)
  then have "pmm_owned km (A - {(unat f, 0)})" by (rule pmm_owned_db_same [OF _ fr(4)]) (use rest dj in auto)
  then have "vm_ok ?s B' (A - {(unat f, 0)})" using inv' rest dj fr(3) ok tr by (auto simp: vm_ok_def)
  then show ?thesis using run fr(3) tr tt tab_change [OF ch] by auto
qed

end
