(* ===== verification/Boot.thy ===== *)
theory Boot
  imports Buddy
begin

text \<open>
  The boot path of the physical memory manager: the frame bitmap as a set of frames, and
  \<^verbatim>\<open>pmm_init\<close>, which turns the boot loader's memory map into a buddy system whose free frames
  are exactly the usable frames left after the bitmap and the page database took theirs.
\<close>

section \<open>The bitmap as a set of frames\<close>

definition bm_set :: "(nat \<Rightarrow> u64) \<Rightarrow> nat set" where
  "bm_set m = {q. bit (m (q div 64)) (q mod 64)}"

definition bitmap_frames :: "kmem \<Rightarrow> nat set" where
  "bitmap_frames s = bm_set (bitmap_start s)"

lemma bm_idx_bit:
  assumes "unat q < 2 ^ 38"
  shows "unat (bm_idx q) = unat q div 64" and "unat (bm_bit q) = unat q mod 64"
proof -
  have "unat q div 64 < 2 ^ 32" using assms by simp
  moreover have "unat (q div 64) = unat q div 64" "unat (q mod 64) = unat q mod 64"
    by (simp_all add: unat_div unat_mod)
  moreover have "unat q mod 64 < 2 ^ 32" by (rule less_trans [OF mod_less_divisor]) simp_all
  ultimately show "unat (bm_idx q) = unat q div 64" and "unat (bm_bit q) = unat q mod 64"
    by (simp_all add: bm_idx_def bm_bit_def unsigned_ucast_eq take_bit_nat_eq_self)
qed

lemma bitmap_get_iff: "unat q < 2 ^ 38 \<Longrightarrow> bitmap_get q s \<longleftrightarrow> unat q \<in> bitmap_frames s"
  by (simp add: bitmap_get_def bm_idx_bit bitmap_frames_def bm_set_def bit_iff_and_push_bit_not_eq_0)

lemma frame_split: "(q :: nat) = r \<longleftrightarrow> q div 64 = r div 64 \<and> q mod 64 = r mod 64"
  by (metis div_mult_mod_eq)

lemma bitmap_put_or:
  assumes "unat q < 2 ^ 38"
  shows "bitmap_frames (bitmap_put (\<lambda>b m. b OR m) q s) = insert (unat q) (bitmap_frames s)"
proof -
  have "bit (bitmap_start (bitmap_put (\<lambda>b m. b OR m) q s) (r div 64)) (r mod 64) \<longleftrightarrow>
      r = unat q \<or> bit (bitmap_start s (r div 64)) (r mod 64)" for r
    using frame_split [of r "unat q"] mod_less_divisor [of 64 r]
    by (auto simp: bitmap_put_def Let_def bm_idx_bit [OF assms] bit_simps simp del: mod_less_divisor)
  then show ?thesis by (auto simp: bitmap_frames_def bm_set_def)
qed

lemma bitmap_put_andnot:
  assumes "unat q < 2 ^ 38"
  shows "bitmap_frames (bitmap_put (\<lambda>b m. b AND NOT m) q s) = bitmap_frames s - {unat q}"
proof -
  have "bit (bitmap_start (bitmap_put (\<lambda>b m. b AND NOT m) q s) (r div 64)) (r mod 64) \<longleftrightarrow>
      r \<noteq> unat q \<and> bit (bitmap_start s (r div 64)) (r mod 64)" for r
    using frame_split [of r "unat q"] mod_less_divisor [of 64 r]
    by (auto simp: bitmap_put_def Let_def bm_idx_bit [OF assms] bit_simps simp del: mod_less_divisor)
  then show ?thesis by (auto simp: bitmap_frames_def bm_set_def)
qed

text \<open>A run of frames that the \<^verbatim>\<open>u32\<close> word index can reach.\<close>

definition run_ok :: "u64 \<Rightarrow> u64 \<Rightarrow> bool" where
  "run_ok pfn n \<longleftrightarrow> unat pfn + unat n \<le> 2 ^ 38"

definition run :: "u64 \<Rightarrow> u64 \<Rightarrow> nat set" where
  "run pfn n = {unat pfn ..< unat pfn + unat n}"

lemma run_image: "run pfn n = (\<lambda>i. unat pfn + i) ` {..<unat n}"
  by (simp add: run_def lessThan_atLeast0 image_add_atLeastLessThan add.commute)

lemma run_unat:
  assumes "unat pfn + i < 2 ^ 38"
  shows "unat (pfn + of_nat i) = unat (pfn :: u64) + i"
proof -
  have "unat (of_nat i :: u64) = i" using assms by (simp add: unat_of_nat)
  then show ?thesis using assms by (simp add: unat_word_ariths)
qed

lemma bitmap_set_frames:
  assumes "run_ok pfn n"
  shows "bitmap_frames (bitmap_set pfn n s) = bitmap_frames s \<union> run pfn n"
proof -
  have "bitmap_frames (fold (\<lambda>i. bitmap_put (\<lambda>b m. b OR m) (pfn + of_nat i)) [0..<m] s) =
      bitmap_frames s \<union> {unat pfn ..< unat pfn + m}" if "unat pfn + m \<le> 2 ^ 38" for m
    using that
  proof (induction m)
    case 0
    then show ?case by simp
  next
    case (Suc m)
    then have "unat pfn + m < 2 ^ 38" by simp
    then have "unat (pfn + of_nat m) = unat pfn + m" and "unat (pfn + of_nat m) < 2 ^ 38"
      using run_unat [of pfn m] by simp_all
    then show ?case using Suc bitmap_put_or [of "pfn + of_nat m"] by (simp add: atLeastLessThanSuc)
  qed
  with assms show ?thesis by (simp add: bitmap_set_def run_ok_def run_def)
qed

lemma bitmap_clear_frames:
  assumes "run_ok pfn n"
  shows "bitmap_frames (bitmap_clear pfn n s) = bitmap_frames s - run pfn n"
proof -
  have "bitmap_frames (fold (\<lambda>i. bitmap_put (\<lambda>b m. b AND NOT m) (pfn + of_nat i)) [0..<m] s) =
      bitmap_frames s - {unat pfn ..< unat pfn + m}" if "unat pfn + m \<le> 2 ^ 38" for m
    using that
  proof (induction m)
    case 0
    then show ?case by simp
  next
    case (Suc m)
    then have "unat pfn + m < 2 ^ 38" by simp
    then have "unat (pfn + of_nat m) = unat pfn + m" and "unat (pfn + of_nat m) < 2 ^ 38"
      using run_unat [of pfn m] by simp_all
    then show ?case using Suc bitmap_put_andnot [of "pfn + of_nat m"] by (auto simp: atLeastLessThanSuc)
  qed
  with assms show ?thesis by (simp add: bitmap_clear_def run_ok_def run_def)
qed

lemma bitmap_is_clear_iff:
  assumes "run_ok pfn n"
  shows "bitmap_is_clear pfn n s \<longleftrightarrow> run pfn n \<inter> bitmap_frames s = {}"
proof -
  have "bitmap_is_clear pfn n s \<longleftrightarrow> (\<forall>i < unat n. unat pfn + i \<notin> bitmap_frames s)"
    using assms by (auto simp: bitmap_is_clear_def list_all_iff run_ok_def bitmap_get_iff run_unat)
  also have "\<dots> \<longleftrightarrow> run pfn n \<inter> bitmap_frames s = {}"
    unfolding run_image by blast
  finally show ?thesis .
qed

lemma bitmap_is_set_iff:
  assumes "run_ok pfn n"
  shows "bitmap_is_set pfn n s \<longleftrightarrow> run pfn n \<subseteq> bitmap_frames s"
proof -
  have "bitmap_is_set pfn n s \<longleftrightarrow> (\<forall>i < unat n. unat pfn + i \<in> bitmap_frames s)"
    using assms by (auto simp: bitmap_is_set_def list_all_iff run_ok_def bitmap_get_iff run_unat)
  also have "\<dots> \<longleftrightarrow> run pfn n \<subseteq> bitmap_frames s"
    unfolding run_image by blast
  finally show ?thesis .
qed

text \<open>First fit: the run returned was free, is now taken, and no earlier start would have done.\<close>

definition fits :: "nat \<Rightarrow> nat \<Rightarrow> nat set \<Rightarrow> bool" where
  "fits i n A \<longleftrightarrow> i \<notin> A \<and> {i..<i + n} \<inter> A = {}"

lemma bitmap_alloc_from_spec:
  assumes "unat i + c + unat n < 2 ^ 38"
  shows "case bitmap_alloc_from c i n s of
       (None, s') \<Rightarrow> s' = s \<and> (\<forall>j. unat i \<le> j \<and> j < unat i + c \<longrightarrow> \<not> fits j (unat n) (bitmap_frames s))
     | (Some p, s') \<Rightarrow> unat i \<le> unat p \<and> unat p < unat i + c \<and> fits (unat p) (unat n) (bitmap_frames s) \<and>
         s' = bitmap_set p n s \<and> bitmap_frames s' = bitmap_frames s \<union> run p n \<and>
         (\<forall>j. unat i \<le> j \<and> j < unat p \<longrightarrow> \<not> fits j (unat n) (bitmap_frames s))"
  using assms
proof (induction c arbitrary: i)
  case 0
  then show ?case by auto
next
  case (Suc c)
  have i1: "unat (i + 1) = unat i + 1" using run_unat [of i 1] Suc.prems by simp
  have ok: "run_ok i 1" "run_ok i n" using Suc.prems by (auto simp: run_ok_def)
  have test: "bitmap_is_clear i 1 s \<and> bitmap_is_clear i n s \<longleftrightarrow> fits (unat i) (unat n) (bitmap_frames s)"
    by (auto simp: bitmap_is_clear_iff [OF ok(1)] bitmap_is_clear_iff [OF ok(2)] fits_def run_def)
  show ?case
  proof (cases "fits (unat i) (unat n) (bitmap_frames s)")
    case True
    then show ?thesis using test by (auto simp: bitmap_set_frames [OF ok(2)])
  next
    case False
    have "unat (i + 1) + c + unat n < 2 ^ 38" using Suc.prems i1 by simp
    note IH = Suc.IH [OF this, unfolded i1]
    have skip: "(\<forall>j. unat i \<le> j \<and> j < x \<longrightarrow> \<not> fits j (unat n) (bitmap_frames s)) \<longleftrightarrow>
        (\<forall>j. unat i + 1 \<le> j \<and> j < x \<longrightarrow> \<not> fits j (unat n) (bitmap_frames s))" for x
      using False by (metis Suc_eq_plus1 le_less less_eq_Suc_le)
    have "bitmap_alloc_from (Suc c) i n s = bitmap_alloc_from c (i + 1) n s" using False test by auto
    with IH show ?thesis unfolding skip by (auto split: prod.splits option.splits)
  qed
qed

section \<open>Filling the buddy system\<close>

lemma free_fold_Inl: "fold (\<lambda>x r. case r of Inl e \<Rightarrow> Inl e | Inr s \<Rightarrow> f x s) xs (Inl e) = Inl e"
  by (induction xs) auto

lemma free_fold_Nil [simp]: "free_fold f [] s = Inr s"
  by (simp add: free_fold_def)

lemma free_fold_Cons [simp]:
  "free_fold f (x # xs) s = (case f x s of Inl e \<Rightarrow> Inl e | Inr s' \<Rightarrow> free_fold f xs s')"
  by (simp add: free_fold_def free_fold_Inl split: sum.splits)

lemma free_fold_upt:
  assumes "a \<le> b" and "P a s" and "\<And>j s. a \<le> j \<Longrightarrow> j < b \<Longrightarrow> P j s \<Longrightarrow> \<exists>s'. f j s = Inr s' \<and> P (Suc j) s'"
  shows "\<exists>s'. free_fold f [a..<b] s = Inr s' \<and> P b s'"
  using assms
proof (induction "b - a" arbitrary: a s)
  case 0
  then show ?case by simp
next
  case (Suc d)
  then have ab: "a < b" by simp
  then obtain s' where s': "f a s = Inr s'" "P (Suc a) s'" using Suc.prems by blast
  have "\<exists>s''. free_fold f [Suc a..<b] s' = Inr s'' \<and> P b s''"
    using Suc.hyps(2) ab s'(2) Suc.prems(3) by (intro Suc.hyps(1)) auto
  with s'(1) ab show ?case by (simp add: upt_conv_Cons)
qed

text \<open>Where the bitmap and the page database lie; the buddy operations leave both where they are.\<close>

definition places :: "kmem \<Rightarrow> u64 \<times> u64 \<times> u64 \<times> u64" where
  "places s = (bitmap_pa s, bitmap_count s, pfn_database_pa s, pfn_database_bytes s)"

lemma buddy_take_buddy_bitmap [simp]:
  "bitmap_start (buddy_take_buddy b k s) = bitmap_start s"
  "places (buddy_take_buddy b k s) = places s"
  by (simp_all add: buddy_take_buddy_def buddy_page_defs Let_def places_def)

lemma buddy_coalesce_bitmap:
  "buddy_coalesce p i k s = (p', k', s') \<Longrightarrow> bitmap_start s' = bitmap_start s \<and> places s' = places s"
proof (induction p i k s rule: buddy_coalesce.induct)
  case (1 p i k s)
  note unf = 1(2) [unfolded buddy_coalesce.simps [of p i k s] Let_def]
  show ?case
  proof (cases "k < MM_MAX_ORDER - 1 \<and> buddy_page_is_buddy p (unat (i XOR push_bit k 1)) k s")
    case True
    with unf 1(1) show ?thesis by simp
  next
    case False
    with unf show ?thesis by (auto split: if_splits)
  qed
qed

lemma buddy_free_pages_bitmap:
  "buddy_free_pages p k s = Inr s' \<Longrightarrow> bitmap_start s' = bitmap_start s \<and> places s' = places s"
  by (auto simp: buddy_free_pages_def Let_def buddy_page_defs places_def dest: buddy_coalesce_bitmap
      split: prod.splits if_splits)

lemma free_fold_places:
  assumes "free_fold f xs s = Inr s'" and "\<And>x s s'. f x s = Inr s' \<Longrightarrow> places s' = places s"
  shows "places s' = places s"
  using assms(1)
proof (induction xs arbitrary: s)
  case (Cons x xs)
  then obtain s1 where s1: "f x s = Inr s1" "free_fold f xs s1 = Inr s'" by (cases "f x s") auto
  from Cons.IH [OF s1(2)] assms(2) [OF s1(1)] show ?case by simp
qed simp

lemma buddy_init_word_places: "buddy_init_word i s = Inr s' \<Longrightarrow> places s' = places s"
  by (auto simp: buddy_init_word_def Let_def dest: buddy_free_pages_bitmap
      elim!: free_fold_places split: if_splits)

text \<open>Progress of \<^verbatim>\<open>_buddy_init\<close>: every clear frame below \<open>j\<close> is free.\<close>

definition filled :: "(nat \<Rightarrow> u64) \<Rightarrow> u64 \<Rightarrow> nat \<Rightarrow> kmem \<Rightarrow> bool" where
  "filled m limit j s \<longleftrightarrow> bitmap_start s = m \<and> phys_limit s = limit \<and>
     (\<exists>B. buddy_inv s B \<and> free_frames B = {..<j} - bm_set m)"

lemma filled_free:
  assumes "filled m limit j s" and "blk_ok (unat limit div 4096) (j, k)"
    and "blk_frames (j, k) \<inter> bm_set m = {}"
  shows "\<exists>s'. buddy_free_pages j k s = Inr s' \<and> filled m limit (j + 2 ^ k) s'"
proof -
  from assms(1) obtain B where B: "bitmap_start s = m" "phys_limit s = limit" "buddy_inv s B"
    "free_frames B = {..<j} - bm_set m" by (auto simp: filled_def)
  have "blk_ok (nframes s) (j, k)" using assms(2) B(2) by (simp add: nframes_def)
  moreover have "blk_frames (j, k) \<inter> free_frames B = {}" unfolding B(4) by (auto simp: blk_frames_def)
  ultimately obtain s' B' where r: "buddy_free_pages j k s = Inr s'" "buddy_inv s' B'"
    "free_frames B' = free_frames B \<union> blk_frames (j, k)" "db_same (free_frames B \<union> blk_frames (j, k)) s s'"
    using buddy_free_pages_spec [OF B(3)] by blast
  have "free_frames B' = {..<j + 2 ^ k} - bm_set m"
    using r(3) B(4) assms(3) by (auto simp: blk_frames_def)
  with r B(1,2) buddy_free_pages_bitmap [OF r(1)] show ?thesis
    by (auto simp: filled_def db_same_def)
qed

lemma filled_skip: "filled m limit j s \<Longrightarrow> j \<in> bm_set m \<Longrightarrow> filled m limit (Suc j) s"
  by (auto simp: filled_def lessThan_Suc)

lemma ffs_64: "ffs 64 = 6"
  by code_simp

lemma zero_word_clear: "m i = 0 \<Longrightarrow> blk_frames (i * 64, 6) \<inter> bm_set m = {}"
proof -
  assume z: "m i = 0"
  have "q div 64 = i" if "q \<in> blk_frames (i * 64, 6)" for q
    using that by (auto simp: blk_frames_def)
  with z show ?thesis by (auto simp: bm_set_def)
qed

lemma buddy_init_word_filled:
  assumes s: "filled m limit (i * 64) s"
    and cov: "\<And>q. q div 64 = i \<Longrightarrow> q \<notin> bm_set m \<Longrightarrow> q < unat limit div 4096"
  shows "\<exists>s'. buddy_init_word i s = Inr s' \<and> filled m limit (Suc i * 64) s'"
proof (cases "m i = 0")
  case True
  have "i * 64 + 63 \<notin> bm_set m" using True by (simp add: bm_set_def)
  then have "i * 64 + 63 < unat limit div 4096" by (intro cov) auto
  then have "blk_ok (unat limit div 4096) (i * 64, 6)" by (simp add: blk_ok_def MM_MAX_ORDER_def)
  from filled_free [OF s this zero_word_clear [of m i, OF True]] True s show ?thesis
    by (simp add: buddy_init_word_def Let_def ffs_64 filled_def add.commute)
next
  case False
  let ?f = "\<lambda>b s. if m i AND push_bit b 1 = 0 then buddy_free_pages (i * 64 + b) 0 s else Inr s"
  have "\<exists>s'. free_fold ?f [0..<64] s = Inr s' \<and> filled m limit (i * 64 + 64) s'"
  proof (rule free_fold_upt [where P = "\<lambda>b s. filled m limit (i * 64 + b) s"])
    fix b s assume b: "b < (64 :: nat)" and f: "filled m limit (i * 64 + b) s"
    have mem: "i * 64 + b \<in> bm_set m \<longleftrightarrow> m i AND push_bit b 1 \<noteq> 0"
      using b by (simp add: bm_set_def bit_iff_and_push_bit_not_eq_0)
    show "\<exists>s'. ?f b s = Inr s' \<and> filled m limit (i * 64 + Suc b) s'"
    proof (cases "i * 64 + b \<in> bm_set m")
      case True
      with mem filled_skip [OF f] show ?thesis by simp
    next
      case False
      then have "i * 64 + b < unat limit div 4096" using b by (intro cov) auto
      then have "blk_ok (unat limit div 4096) (i * 64 + b, 0)" by (simp add: blk_ok_def MM_MAX_ORDER_def)
      moreover have "blk_frames (i * 64 + b, 0) \<inter> bm_set m = {}" using False by (simp add: blk_frames_def)
      ultimately show ?thesis using filled_free [OF f, of 0] mem False by simp
    qed
  qed (use s in simp_all)
  with False s show ?thesis by (simp add: buddy_init_word_def Let_def filled_def add.commute)
qed

text \<open>Empty areas: \<^verbatim>\<open>dlist_init\<close> on every list head.\<close>

definition areas_init :: "kmem \<Rightarrow> kmem" where
  "areas_init s = fold (\<lambda>order s. upd_links (dlist_init (FreeHead order)) (upd_nr_free order (\<lambda>_. 0) s))
     [0..<MM_MAX_ORDER] s"

lemma areas_init_upto:
  defines "step \<equiv> \<lambda>order s. upd_links (dlist_init (FreeHead order)) (upd_nr_free order (\<lambda>_. 0) s)"
  shows "(\<forall>k < n. is_dlist (free_links (fold step [0..<n] s)) (FreeHead k) [] \<and> nr_free (fold step [0..<n] s) k = 0) \<and>
     (\<exists>l f. fold step [0..<n] s = s\<lparr>nr_free := f, free_links := l\<rparr>)"
proof (induction n)
  case 0
  have "s = s\<lparr>nr_free := nr_free s, free_links := free_links s\<rparr>" by simp
  then show ?case by (metis fold_simps(1) not_less_zero upt_0)
next
  case (Suc n)
  then obtain l f where eq: "fold step [0..<n] s = s\<lparr>nr_free := f, free_links := l\<rparr>" by blast
  have "fold step [0..<Suc n] s = step n (fold step [0..<n] s)" by simp
  also have "\<dots> = s\<lparr>nr_free := f(n := 0), free_links := dlist_init (FreeHead n) l\<rparr>"
    unfolding eq by (simp add: step_def)
  finally have new: "fold step [0..<Suc n] s = \<dots>" .
  have "\<forall>k < n. is_dlist l (FreeHead k) [] \<and> f k = 0" using Suc unfolding eq by simp
  then have "\<forall>k < Suc n. is_dlist (dlist_init (FreeHead n) l) (FreeHead k) [] \<and> (f(n := 0)) k = 0"
    by (auto simp: less_Suc_eq is_dlist_def dlist_init_def)
  then show ?case unfolding new by fastforce
qed

lemma areas_init_inv:
  assumes "pfn_db_ok s" and "\<forall>p < nframes s. flags (pfn_database s p) = 0" and "nr_free_pages s = 0"
  shows "buddy_inv (areas_init s) {}" and "bitmap_start (areas_init s) = bitmap_start s"
    and "bitmap_count (areas_init s) = bitmap_count s" and "phys_limit (areas_init s) = phys_limit s"
proof -
  obtain l f where eq: "areas_init s = s\<lparr>nr_free := f, free_links := l\<rparr>"
    and ring: "\<forall>k < MM_MAX_ORDER. is_dlist l (FreeHead k) [] \<and> f k = 0"
    using areas_init_upto [of MM_MAX_ORDER s] by (auto simp: areas_init_def)
  have "heads (\<lambda>_. []) = {}" by (simp add: heads_def)
  then have "buddy_rep (areas_init s) (\<lambda>_. [])"
    using assms ring
    by (auto simp: eq buddy_rep_def pfn_db_ok_def rings_ok_def flags_ok_def count_ok_def wf_blocks_def
        nframes_def in_buddy_def)
  then show "buddy_inv (areas_init s) {}" using \<open>heads _ = {}\<close> by (auto simp: buddy_inv_def)
qed (use areas_init_upto [of MM_MAX_ORDER s] in \<open>auto simp: areas_init_def\<close>)

lemma buddy_init_places:
  assumes "buddy_init s = Inr s'"
  shows "places s' = places s"
proof -
  have "places s' = places (areas_init s)"
    by (rule free_fold_places) (use assms buddy_init_word_places in \<open>auto simp: buddy_init_def areas_init_def Let_def\<close>)
  then show ?thesis using areas_init_upto [of MM_MAX_ORDER s] by (auto simp: areas_init_def places_def)
qed

lemma buddy_init_spec:
  assumes "pfn_db_ok s" and "\<forall>p < nframes s. flags (pfn_database s p) = 0" and "nr_free_pages s = 0"
    and cov: "\<forall>q < unat (bitmap_count s) * 64. q \<notin> bitmap_frames s \<longrightarrow> q < nframes s"
  shows "\<exists>s' B. buddy_init s = Inr s' \<and> buddy_inv s' B \<and>
     free_frames B = {..<unat (bitmap_count s) * 64} - bitmap_frames s \<and> phys_limit s' = phys_limit s"
proof -
  note a = areas_init_inv [OF assms(1-3)]
  let ?P = "\<lambda>i s'. filled (bitmap_start s) (phys_limit s) (i * 64) s'"
  have "\<exists>s'. free_fold buddy_init_word [0..<unat (bitmap_count s)] (areas_init s) = Inr s' \<and>
      ?P (unat (bitmap_count s)) s'"
  proof (rule free_fold_upt)
    show "?P 0 (areas_init s)" using a by (auto simp: filled_def free_frames_def)
  next
    fix i s' assume i: "i < unat (bitmap_count s)" and f: "?P i s'"
    show "\<exists>s''. buddy_init_word i s' = Inr s'' \<and> ?P (Suc i) s''"
    proof (rule buddy_init_word_filled [OF f])
      fix q assume q: "q div 64 = i" "q \<notin> bm_set (bitmap_start s)"
      then have "q < unat (bitmap_count s) * 64" using i by (metis div_less_iff_less_mult zero_less_numeral)
      then show "q < unat (phys_limit s) div 4096"
        using cov q(2) by (simp add: bitmap_frames_def nframes_def)
    qed
  qed simp
  then show ?thesis
    unfolding buddy_init_def areas_init_def [symmetric] Let_def a(3) filled_def bitmap_frames_def by blast
qed

section \<open>From the memory map to the free frames\<close>

text \<open>The bytes and the frames of an entry.\<close>

definition entry_bytes :: "memmap_entry \<Rightarrow> nat set" where
  "entry_bytes e = {unat (me_base e) ..< unat (me_base e) + unat (me_length e)}"

definition entry_frames :: "memmap_entry \<Rightarrow> nat set" where
  "entry_frames e = {unat (me_base e) div 4096 ..< unat (me_base e) div 4096 + unat (me_length e) div 4096}"

definition usable_frames :: "memmap_entry list \<Rightarrow> nat set" where
  "usable_frames mm = \<Union> (entry_frames ` {e \<in> set mm. me_usable e})"

text \<open>The memory map after \<^verbatim>\<open>_bitmap_init\<close> and \<^verbatim>\<open>_pfn_database_init\<close> shortened their entries.\<close>

definition boot_memmap :: "memmap_entry list \<Rightarrow> kmem \<Rightarrow> memmap_entry list" where
  "boot_memmap mm s =
     (let (mm1, s2) = bitmap_init mm (kmem_init mm s) in fst (pfn_database_init mm1 s2))"

lemma PAGE_ALIGN_UP_IF_dvd: "4096 dvd unat (PAGE_ALIGN_UP_IF w)"
proof -
  have m: "4095 = (mask 12 :: u64)" by (simp add: mask_eq_exp_minus_1)
  have *: "4096 dvd unat v \<longleftrightarrow> v AND 4095 = 0" for v :: u64
  proof -
    have "v AND 4095 = 0 \<longleftrightarrow> take_bit 12 v = 0" unfolding m by (simp add: take_bit_eq_mask)
    also have "\<dots> \<longleftrightarrow> unat (take_bit 12 v) = 0" by (simp only: unat_eq_0)
    also have "unat (take_bit 12 v) = unat v mod 2 ^ 12"
      unfolding unsigned_take_bit_eq by (rule take_bit_eq_mod)
    finally show ?thesis by (simp add: dvd_eq_mod_eq_0)
  qed
  have "(w AND NOT 4095) AND 4095 = 0" by (rule bit_word_eqI) (simp add: bit_simps)
  then have "4096 dvd unat (w AND NOT 4095) + 4096" using * by simp
  then have "4096 dvd unat ((w AND NOT 4095) + 4096)"
    by (simp add: unat_word_ariths dvd_mod)
  then show ?thesis
    using * [of w] by (auto simp: PAGE_ALIGN_UP_IF_def PAGE_ALIGN_UP_def PAGE_ALIGN_def)
qed

text \<open>\<^verbatim>\<open>_pfn_database_init\<close> gives every frame its address and clears its flags.\<close>

lemma pfn_page_init_fold:
  defines "f \<equiv> \<lambda>n s. fold pfn_page_init [0..<n] s"
  shows "(\<forall>p < n. phys_addr (pfn_database (f n s) p) = push_bit 12 (of_nat p) \<and> flags (pfn_database (f n s) p) = 0) \<and>
     (\<exists>db l. f n s = s\<lparr>pfn_database := db, free_links := l\<rparr>)"
proof (induction n)
  case 0
  have "s = s\<lparr>pfn_database := pfn_database s, free_links := free_links s\<rparr>" by simp
  then show ?case unfolding f_def by (metis fold_simps(1) not_less_zero upt_0)
next
  case (Suc n)
  then obtain db l where eq: "f n s = s\<lparr>pfn_database := db, free_links := l\<rparr>" by blast
  have "f (Suc n) s = pfn_page_init n (f n s)" by (simp add: f_def)
  also have "\<dots> = s\<lparr>pfn_database := db(n := (db n)\<lparr>phys_addr := push_bit 12 (of_nat n), refcount := 0,
      flags := 0, porder := 0\<rparr>), free_links := dlist_init (PageEntry n) l\<rparr>"
    unfolding eq by (simp add: pfn_page_init_def Let_def)
  finally have new: "f (Suc n) s = \<dots>" .
  have "\<forall>p < n. phys_addr (db p) = push_bit 12 (of_nat p) \<and> flags (db p) = 0" using Suc unfolding eq by simp
  then show ?case unfolding new by (auto simp: less_Suc_eq)
qed

lemma carve_top_entries:
  assumes "carve_top sz mm = (pa, mm')" and "e' \<in> set mm'"
  shows "\<exists>e \<in> set mm. me_usable e' = me_usable e \<and> me_base e' = me_base e \<and> me_length e' \<le> me_length e"
  using assms
proof (induction mm arbitrary: mm')
  case Nil
  then show ?case by simp
next
  case (Cons e mm)
  show ?case
  proof (cases "me_usable e \<and> me_length e > sz")
    case True
    then have "me_length e - sz \<le> me_length e"
      by (simp add: word_le_nat_alt word_less_nat_alt unat_sub)
    with True Cons.prems show ?thesis by auto
  next
    case False
    then obtain mm1 where "carve_top sz mm = (pa, mm1)" "mm' = e # mm1"
      using Cons.prems(1) by (auto split: prod.splits)
    with Cons.IH [of mm1] Cons.prems(2) show ?thesis by auto
  qed
qed

text \<open>The state \<^verbatim>\<open>pmm_init\<close> hands to \<^verbatim>\<open>_bitmap_free_pages\<close>.\<close>

definition boot_state :: "memmap_entry list \<Rightarrow> kmem \<Rightarrow> kmem" where
  "boot_state mm s = (let (mm1, s2) = bitmap_init mm (kmem_init mm s) in snd (pfn_database_init mm1 s2))"

lemma pmm_init_eq: "pmm_init mm s = buddy_init (bitmap_free_pages (boot_memmap mm s) (boot_state mm s))"
  by (simp add: pmm_init_def boot_memmap_def boot_state_def Let_def split: prod.splits)

lemma kmem_init_limit:
  assumes "mm \<noteq> []"
  shows "phys_limit (kmem_init mm s) = PAGE_ALIGN_UP_IF (me_base (last mm) + me_length (last mm))"
    and "nr_free_pages (kmem_init mm s) = 0"
proof -
  have "snd (fold (\<lambda>e (total, limit). (if me_usable e then total + me_length e else total,
      PAGE_ALIGN_UP_IF (me_base e + me_length e))) mm z) = PAGE_ALIGN_UP_IF (me_base (last mm) + me_length (last mm))"
    for z using assms by (induction mm arbitrary: z) (auto split: prod.splits)
  then show "phys_limit (kmem_init mm s) = PAGE_ALIGN_UP_IF (me_base (last mm) + me_length (last mm))"
    and "nr_free_pages (kmem_init mm s) = 0"
    by (simp_all add: kmem_init_def Let_def case_prod_beta')
qed

lemma boot_state_fields:
  fixes mm :: "memmap_entry list" and s :: kmem
  defines "b \<equiv> snd (bitmap_init mm (kmem_init mm s))"
  shows "phys_limit (boot_state mm s) = phys_limit (kmem_init mm s)"
    and "nr_free_pages (boot_state mm s) = nr_free_pages (kmem_init mm s)"
    and "bitmap_count (boot_state mm s) = bitmap_count b"
    and "bitmap_start (boot_state mm s) = bitmap_start b"
    and "\<forall>p < nframes (boot_state mm s). phys_addr (pfn_database (boot_state mm s) p) = push_bit 12 (of_nat p) \<and>
           flags (pfn_database (boot_state mm s) p) = 0"
proof -
  obtain mm1 where b: "bitmap_init mm (kmem_init mm s) = (mm1, b)" unfolding b_def by (metis prod.collapse)
  have lim: "phys_limit b = phys_limit (kmem_init mm s)" "nr_free_pages b = nr_free_pages (kmem_init mm s)"
    by (simp_all add: b_def bitmap_init_def Let_def split: prod.splits)
  obtain pa mm2 where "carve_top (PAGE_ALIGN_UP_IF (SIZE_TO_PAGE (phys_limit b) * sizeof_page_t)) mm1 = (pa, mm2)"
    by (cases "carve_top (PAGE_ALIGN_UP_IF (SIZE_TO_PAGE (phys_limit b) * sizeof_page_t)) mm1") blast
  then obtain s1 where fold: "boot_state mm s = fold pfn_page_init [0..<unat (SIZE_TO_PAGE (phys_limit b))] s1"
    and s1: "phys_limit s1 = phys_limit b" "nr_free_pages s1 = nr_free_pages b"
      "bitmap_count s1 = bitmap_count b" "bitmap_start s1 = bitmap_start b"
    by (simp add: boot_state_def b pfn_database_init_def Let_def)
  from pfn_page_init_fold [of "unat (SIZE_TO_PAGE (phys_limit b))" s1]
  obtain db l where eq: "boot_state mm s = s1\<lparr>pfn_database := db, free_links := l\<rparr>"
    and db: "\<forall>p < unat (SIZE_TO_PAGE (phys_limit b)). phys_addr (pfn_database (boot_state mm s) p) = push_bit 12 (of_nat p) \<and>
           flags (pfn_database (boot_state mm s) p) = 0"
    unfolding fold [symmetric] by blast
  show "phys_limit (boot_state mm s) = phys_limit (kmem_init mm s)"
    and "nr_free_pages (boot_state mm s) = nr_free_pages (kmem_init mm s)"
    and "bitmap_count (boot_state mm s) = bitmap_count b"
    and "bitmap_start (boot_state mm s) = bitmap_start b" using eq s1 lim by simp_all
  have "unat (SIZE_TO_PAGE (phys_limit b)) = nframes (boot_state mm s)"
    by (simp add: nframes_def SIZE_TO_PAGE_def unat_div eq s1)
  with db show "\<forall>p < nframes (boot_state mm s). phys_addr (pfn_database (boot_state mm s) p) = push_bit 12 (of_nat p) \<and>
           flags (pfn_database (boot_state mm s) p) = 0" by simp
qed

lemma bitmap_clear_fields:
  "\<exists>m. bitmap_clear pfn n s = s\<lparr>bitmap_start := m\<rparr>"
proof -
  have "\<exists>m. fold (\<lambda>i. bitmap_put f (g i)) xs s = s\<lparr>bitmap_start := m\<rparr>" for xs f and g :: "nat \<Rightarrow> u64"
  proof (induction xs arbitrary: s)
    case Nil
    have "s = s\<lparr>bitmap_start := bitmap_start s\<rparr>" by simp
    then show ?case by (metis fold_simps(1))
  next
    case (Cons i xs)
    obtain m where m: "bitmap_put f (g i) s = s\<lparr>bitmap_start := m\<rparr>" by (auto simp: bitmap_put_def Let_def)
    obtain m' where "fold (\<lambda>i. bitmap_put f (g i)) xs (s\<lparr>bitmap_start := m\<rparr>) = s\<lparr>bitmap_start := m\<rparr>\<lparr>bitmap_start := m'\<rparr>"
      using Cons by blast
    then show ?case by (auto simp: m)
  qed
  then show ?thesis by (simp add: bitmap_clear_def)
qed

lemma entry_run: "run (drop_bit 12 (me_base e)) (SIZE_TO_PAGE (me_length e)) = entry_frames e"
proof -
  have "unat (drop_bit 12 (me_base e)) = unat (me_base e) div 2 ^ 12"
    unfolding unat_drop_bit_eq by (rule drop_bit_eq_div)
  then show ?thesis by (simp add: run_def entry_frames_def SIZE_TO_PAGE_def unat_div)
qed

text \<open>A usable entry lies below the limit, and the limit is within what the bitmap can index.\<close>

definition entries_below :: "nat \<Rightarrow> memmap_entry list \<Rightarrow> bool" where
  "entries_below limit mm \<longleftrightarrow> (\<forall>e \<in> set mm. me_usable e \<longrightarrow> unat (me_base e) + unat (me_length e) \<le> limit)"

lemma entry_frames_below:
  assumes "unat (me_base e) + unat (me_length e) \<le> limit"
  shows "unat (me_base e) div 4096 + unat (me_length e) div 4096 \<le> limit div 4096"
proof -
  have "unat (me_base e) div 4096 + unat (me_length e) div 4096 \<le>
      (unat (me_base e) + unat (me_length e)) div 4096" by simp
  also have "\<dots> \<le> limit div 4096" using assms by (rule div_le_mono)
  finally show ?thesis .
qed

lemma usable_frames_below: "entries_below limit mm \<Longrightarrow> usable_frames mm \<subseteq> {..<limit div 4096}"
  using entry_frames_below
  by (fastforce simp: entries_below_def usable_frames_def entry_frames_def intro: less_le_trans)

lemma bitmap_free_pages_frames:
  assumes "entries_below limit mm" and "limit \<le> 2 ^ 50"
  shows "bitmap_frames (bitmap_free_pages mm s) = bitmap_frames s - usable_frames mm \<and>
     (\<exists>m. bitmap_free_pages mm s = s\<lparr>bitmap_start := m\<rparr>)"
  using assms(1)
proof (induction mm arbitrary: s)
  case Nil
  have "s = s\<lparr>bitmap_start := bitmap_start s\<rparr>" by simp
  then have "\<exists>m. s = s\<lparr>bitmap_start := m\<rparr>" by blast
  then show ?case by (simp add: bitmap_free_pages_def usable_frames_def)
next
  case (Cons e mm)
  then have mm: "entries_below limit mm" by (simp add: entries_below_def)
  show ?case
  proof (cases "me_usable e")
    case False
    then have "usable_frames (e # mm) = usable_frames mm" by (auto simp: usable_frames_def)
    with False Cons.IH [OF mm, of s] show ?thesis by (simp add: bitmap_free_pages_def)
  next
    case True
    let ?s = "bitmap_clear (drop_bit 12 (me_base e)) (SIZE_TO_PAGE (me_length e)) s"
    have "unat (me_base e) div 4096 + unat (me_length e) div 4096 \<le> 2 ^ 38"
      using entry_frames_below [of e limit] Cons.prems True div_le_mono [OF assms(2), of 4096]
      by (simp add: entries_below_def)
    moreover have "unat (drop_bit 12 (me_base e)) = unat (me_base e) div 2 ^ 12"
      unfolding unat_drop_bit_eq by (rule drop_bit_eq_div)
    ultimately have "run_ok (drop_bit 12 (me_base e)) (SIZE_TO_PAGE (me_length e))"
      by (simp add: run_ok_def SIZE_TO_PAGE_def unat_div)
    then have 1: "bitmap_frames ?s = bitmap_frames s - entry_frames e"
      by (simp add: bitmap_clear_frames entry_run)
    obtain m where 2: "?s = s\<lparr>bitmap_start := m\<rparr>" using bitmap_clear_fields by blast
    have 3: "bitmap_free_pages (e # mm) s = bitmap_free_pages mm ?s"
      using True by (simp add: bitmap_free_pages_def)
    have "usable_frames (e # mm) = entry_frames e \<union> usable_frames mm"
      using True by (auto simp: usable_frames_def)
    with Cons.IH [OF mm, of ?s] 1 2 3 show ?thesis by auto
  qed
qed

lemma boot_memmap_below: "entries_below limit mm \<Longrightarrow> entries_below limit (boot_memmap mm s)"
proof -
  assume below: "entries_below limit mm"
  have step: "entries_below limit mm2" if "carve_top sz mm1 = (pa, mm2)" "entries_below limit mm1" for sz pa mm1 mm2
    unfolding entries_below_def
  proof (intro ballI impI)
    fix e' assume "e' \<in> set mm2" "me_usable e'"
    with carve_top_entries [OF that(1)] obtain e where e: "e \<in> set mm1" "me_usable e"
      "me_base e' = me_base e" "me_length e' \<le> me_length e" by metis
    with that(2) have "unat (me_base e) + unat (me_length e) \<le> limit" by (simp add: entries_below_def)
    with e(3,4) show "unat (me_base e') + unat (me_length e') \<le> limit" by (simp add: word_le_nat_alt)
  qed
  obtain mm1 s2 where 1: "bitmap_init mm (kmem_init mm s) = (mm1, s2)" by (metis prod.collapse)
  have "\<exists>sz pa. carve_top sz mm = (pa, mm1)"
    using 1 by (auto simp: bitmap_init_def Let_def split: prod.splits)
  then have mm1: "entries_below limit mm1" using step below by blast
  have "\<exists>sz pa. carve_top sz mm1 = (pa, fst (pfn_database_init mm1 s2))"
    by (auto simp: pfn_database_init_def Let_def split: prod.splits)
  then show ?thesis using step mm1 1 by (auto simp: boot_memmap_def)
qed

lemma boot_bitmap_full: "{..<unat (bitmap_count (boot_state mm s)) * 64} \<subseteq> bitmap_frames (boot_state mm s)"
proof
  fix q assume "q \<in> {..<unat (bitmap_count (boot_state mm s)) * 64}"
  then have "q div 64 < unat (bitmap_count (boot_state mm s))" by (simp add: div_less_iff_less_mult)
  moreover have "bitmap_start (boot_state mm s) i = 0xffffffffffffffff"
    if "i < unat (bitmap_count (boot_state mm s))" for i
    using that unfolding boot_state_fields(3,4)
    by (auto simp: bitmap_init_def Let_def split: prod.splits)
  moreover have "bit (0xffffffffffffffff :: u64) (q mod 64)"
  proof -
    have "0xffffffffffffffff = (- 1 :: u64)" by simp
    then show ?thesis by (simp only: bit_minus_1_iff) simp
  qed
  ultimately show "q \<in> bitmap_frames (boot_state mm s)" by (simp add: bitmap_frames_def bm_set_def)
qed

text \<open>What the boot path needs of the memory map: it is not empty, its last entry ends highest,
  the whole is small enough for the \<^verbatim>\<open>u32\<close> bitmap index, and the bitmap has a bit for every frame.\<close>

definition memmap_fits :: "memmap_entry list \<Rightarrow> kmem \<Rightarrow> bool" where
  "memmap_fits mm s \<longleftrightarrow> mm \<noteq> [] \<and> unat (phys_limit (kmem_init mm s)) \<le> 2 ^ 50 \<and>
     entries_below (unat (phys_limit (kmem_init mm s))) mm \<and>
     unat (phys_limit (kmem_init mm s)) div 4096 \<le> unat (bitmap_count (boot_state mm s)) * 64"

lemma pmm_init_spec:
  assumes "memmap_fits mm s"
  shows "\<exists>s' B. pmm_init mm s = Inr s' \<and> buddy_inv s' B \<and> free_frames B = usable_frames (boot_memmap mm s) \<and>
    nframes s' = unat (phys_limit (kmem_init mm s)) div 4096 \<and> places s' = places (boot_state mm s)"
proof -
  let ?L = "unat (phys_limit (kmem_init mm s))" and ?b = "boot_state mm s"
  let ?s = "bitmap_free_pages (boot_memmap mm s) ?b"
  from assms have ne: "mm \<noteq> []" and L: "?L \<le> 2 ^ 50" and below: "entries_below ?L mm"
    and cov: "?L div 4096 \<le> unat (bitmap_count ?b) * 64" by (auto simp: memmap_fits_def)
  note bb = boot_memmap_below [OF below, of s]
  obtain m where s: "?s = ?b\<lparr>bitmap_start := m\<rparr>"
    and fr: "bitmap_frames ?s = bitmap_frames ?b - usable_frames (boot_memmap mm s)"
    using bitmap_free_pages_frames [OF bb L, of ?b] by blast
  have nf: "nframes ?s = ?L div 4096" by (simp add: s nframes_def boot_state_fields(1))
  have sub: "usable_frames (boot_memmap mm s) \<subseteq> {..<?L div 4096}" by (rule usable_frames_below [OF bb])
  have "4096 dvd ?L" by (simp add: kmem_init_limit(1) [OF ne] PAGE_ALIGN_UP_IF_dvd)
  then have "pfn_db_ok ?s"
    using boot_state_fields(5) [of mm s] by (simp add: pfn_db_ok_def s boot_state_fields(1) nframes_def)
  moreover have "\<forall>p < nframes ?s. flags (pfn_database ?s p) = 0"
    using boot_state_fields(5) [of mm s] by (simp add: s nframes_def)
  moreover have "nr_free_pages ?s = 0" by (simp add: s boot_state_fields(2) kmem_init_limit(2) [OF ne])
  moreover have "\<forall>q < unat (bitmap_count ?s) * 64. q \<notin> bitmap_frames ?s \<longrightarrow> q < nframes ?s"
    using fr sub boot_bitmap_full [of mm s] by (auto simp: s nf) (use s nf in auto)
  ultimately obtain s' B where r: "buddy_init ?s = Inr s'" "buddy_inv s' B"
    "free_frames B = {..<unat (bitmap_count ?s) * 64} - bitmap_frames ?s" "phys_limit s' = phys_limit ?s"
    using buddy_init_spec [of ?s] by blast
  have "free_frames B = usable_frames (boot_memmap mm s)"
    using r(3) fr sub cov boot_bitmap_full [of mm s] by (auto simp: s)
  moreover have "places s' = places ?b" using buddy_init_places [OF r(1)] s by (simp add: places_def)
  ultimately show ?thesis using r nf by (auto simp: pmm_init_eq nframes_def)
qed

section \<open>The allocator's own memory\<close>

definition entries_apart :: "memmap_entry list \<Rightarrow> bool" where
  "entries_apart mm \<longleftrightarrow> sorted_wrt (\<lambda>e f. entry_bytes e \<inter> entry_bytes f = {}) mm"

definition bytes_at :: "u64 \<Rightarrow> u64 \<Rightarrow> nat set" where
  "bytes_at pa sz = {unat pa ..< unat pa + unat sz}"

lemma carve_top_bytes:
  assumes "carve_top sz mm = (pa, mm')" and "e' \<in> set mm'"
  shows "\<exists>e \<in> set mm. entry_bytes e' \<subseteq> entry_bytes e"
proof -
  from carve_top_entries [OF assms] obtain e where "e \<in> set mm" "me_base e' = me_base e"
    "me_length e' \<le> me_length e" by blast
  then show ?thesis by (auto simp: entry_bytes_def word_le_nat_alt intro!: bexI [of _ e])
qed

lemma carve_top_here:
  assumes "me_length e > sz" and "unat (me_base e) + unat (me_length e) < 2 ^ 64"
  shows "unat (me_base e + me_length e - sz) = unat (me_base e) + unat (me_length e) - unat sz"
    and "unat (me_length e - sz) = unat (me_length e) - unat sz"
proof -
  have le: "unat sz < unat (me_length e)" using assms(1) by (simp add: word_less_nat_alt)
  have "unat (me_base e + me_length e) = unat (me_base e) + unat (me_length e)"
    using assms(2) by (simp add: unat_word_ariths)
  moreover have "sz \<le> me_base e + me_length e" using le calculation by (simp add: word_le_nat_alt)
  ultimately show "unat (me_base e + me_length e - sz) = unat (me_base e) + unat (me_length e) - unat sz"
    by (simp add: unat_sub)
  show "unat (me_length e - sz) = unat (me_length e) - unat sz"
    using le by (simp add: unat_sub word_le_nat_alt)
qed

lemma carve_top_apart:
  assumes "carve_top sz mm = (pa, mm')" and "\<exists>e \<in> set mm. me_usable e \<and> me_length e > sz"
    and "entries_apart mm" and "\<forall>e \<in> set mm. unat (me_base e) + unat (me_length e) < 2 ^ 64"
  shows "bytes_at pa sz \<subseteq> \<Union> (entry_bytes ` set mm) \<and> (\<forall>e' \<in> set mm'. entry_bytes e' \<inter> bytes_at pa sz = {}) \<and>
    entries_apart mm'"
  using assms
proof (induction mm arbitrary: mm')
  case Nil
  then show ?case by simp
next
  case (Cons e mm)
  have apart: "entries_apart mm" "\<forall>f \<in> set mm. entry_bytes e \<inter> entry_bytes f = {}"
    using Cons.prems(3) by (auto simp: entries_apart_def)
  show ?case
  proof (cases "me_usable e \<and> me_length e > sz")
    case True
    let ?e = "e\<lparr>me_length := me_length e - sz\<rparr>"
    have r: "pa = me_base e + me_length e - sz" "mm' = ?e # mm" using True Cons.prems(1) by auto
    note h = carve_top_here [of sz e, OF conjunct2 [OF True]]
    have sub: "bytes_at pa sz \<subseteq> entry_bytes e" "entry_bytes ?e \<subseteq> entry_bytes e"
      "entry_bytes ?e \<inter> bytes_at pa sz = {}"
      using h True Cons.prems(4) by (auto simp: bytes_at_def entry_bytes_def r(1) word_less_nat_alt)
    with apart r(2) show ?thesis by (auto simp: entries_apart_def)
  next
    case False
    then obtain mm1 where r: "carve_top sz mm = (pa, mm1)" "mm' = e # mm1"
      using Cons.prems(1) by (auto split: prod.splits)
    have IH: "bytes_at pa sz \<subseteq> \<Union> (entry_bytes ` set mm)" "\<forall>e' \<in> set mm1. entry_bytes e' \<inter> bytes_at pa sz = {}"
      "entries_apart mm1" using Cons.IH [OF r(1)] False Cons.prems(2,4) apart(1) by auto
    have "\<forall>f \<in> set mm1. entry_bytes e \<inter> entry_bytes f = {}"
      using apart(2) carve_top_bytes [OF r(1)] by blast
    with IH apart(2) r(2) show ?thesis by (auto simp: entries_apart_def)
  qed
qed

text \<open>A free frame lies inside one usable entry of the shortened map.\<close>

definition frame_bytes :: "nat \<Rightarrow> nat set" where
  "frame_bytes q = {q * 4096 ..< q * 4096 + 4096}"

lemma usable_frame_bytes:
  assumes "q \<in> usable_frames mm" and "\<forall>e \<in> set mm. 4096 dvd unat (me_base e)"
  shows "\<exists>e \<in> set mm. me_usable e \<and> frame_bytes q \<subseteq> entry_bytes e"
proof -
  from assms(1) obtain e where e: "e \<in> set mm" "me_usable e" "q \<in> entry_frames e" by (auto simp: usable_frames_def)
  with assms(2) obtain b where b: "unat (me_base e) = 4096 * b" by (auto elim: dvdE)
  with e(3) have "b \<le> q" "q < b + unat (me_length e) div 4096" by (auto simp: entry_frames_def)
  then have "4096 * b \<le> q * 4096" "q * 4096 + 4096 \<le> 4096 * b + unat (me_length e) div 4096 * 4096" by auto
  moreover have "unat (me_length e) div 4096 * 4096 \<le> unat (me_length e)" by simp
  ultimately have "frame_bytes q \<subseteq> entry_bytes e" by (auto simp: entry_bytes_def frame_bytes_def b)
  with e(1,2) show ?thesis by blast
qed

text \<open>Both searches for a place succeed.\<close>

definition boot_found :: "memmap_entry list \<Rightarrow> kmem \<Rightarrow> bool" where
  "boot_found mm s \<longleftrightarrow>
     (\<exists>e \<in> set mm. me_usable e \<and> me_length e > bitmap_count (boot_state mm s) * 8) \<and>
     (\<exists>e \<in> set (fst (bitmap_init mm (kmem_init mm s))). me_usable e \<and> me_length e > pfn_database_bytes (boot_state mm s))"

lemma boot_carve:
  obtains mm1 where
    "carve_top (bitmap_count (boot_state mm s) * 8) mm = (bitmap_pa (boot_state mm s), mm1)"
    "fst (bitmap_init mm (kmem_init mm s)) = mm1"
    "carve_top (pfn_database_bytes (boot_state mm s)) mm1 = (pfn_database_pa (boot_state mm s), boot_memmap mm s)"
    "pfn_database_bytes (boot_state mm s) =
       PAGE_ALIGN_UP_IF (SIZE_TO_PAGE (phys_limit (kmem_init mm s)) * sizeof_page_t)"
proof -
  obtain mm1 s2 where 1: "bitmap_init mm (kmem_init mm s) = (mm1, s2)" by (metis prod.collapse)
  define sz where "sz = PAGE_ALIGN_UP_IF (SIZE_TO_PAGE (phys_limit s2) * sizeof_page_t)"
  obtain pa mm2 where 2: "carve_top sz mm1 = (pa, mm2)" by (metis prod.collapse)
  define s3 where "s3 = s2\<lparr>pfn_database_start := PHYS_TO_VIRT pa, pfn_database_pa := pa,
      pfn_database_bytes := sz, pfn_database_end := PHYS_TO_VIRT pa + sz\<rparr>"
  have f: "boot_state mm s = fold pfn_page_init [0..<unat (SIZE_TO_PAGE (phys_limit s2))] s3"
    and m: "boot_memmap mm s = mm2"
    using 2 by (simp_all add: boot_state_def boot_memmap_def 1 pfn_database_init_def Let_def s3_def flip: sz_def)
  obtain db l where "boot_state mm s = s3\<lparr>pfn_database := db, free_links := l\<rparr>"
    using pfn_page_init_fold [of "unat (SIZE_TO_PAGE (phys_limit s2))" s3] unfolding f by blast
  then have b: "bitmap_pa (boot_state mm s) = bitmap_pa s2" "bitmap_count (boot_state mm s) = bitmap_count s2"
    "pfn_database_bytes (boot_state mm s) = sz" "pfn_database_pa (boot_state mm s) = pa" by (simp_all add: s3_def)
  have "carve_top (bitmap_count s2 * 8) mm = (bitmap_pa s2, mm1)"
    using 1 by (auto simp: bitmap_init_def Let_def split: prod.splits)
  moreover have "phys_limit s2 = phys_limit (kmem_init mm s)"
    using 1 by (auto simp: bitmap_init_def Let_def split: prod.splits)
  ultimately show thesis using that 1 2 b m by (simp add: sz_def)
qed

text \<open>The memory maps the boot loader gives: entries that begin at page boundaries, do not wrap and do not overlap,
  two of them long enough for the bitmap and for the page database, and the whole as the boot path needs it.\<close>

definition memmap_ok :: "memmap_entry list \<Rightarrow> kmem \<Rightarrow> bool" where
  "memmap_ok mm s \<longleftrightarrow> memmap_fits mm s \<and> boot_found mm s \<and> entries_apart mm \<and>
     (\<forall>e \<in> set mm. unat (me_base e) + unat (me_length e) < 2 ^ 64 \<and> 4096 dvd unat (me_base e))"

text \<open>The bytes of the bitmap and of the page database.\<close>

definition bitmap_bytes :: "kmem \<Rightarrow> nat set" where
  "bitmap_bytes s = bytes_at (bitmap_pa s) (bitmap_count s * 8)"

definition database_bytes :: "kmem \<Rightarrow> nat set" where
  "database_bytes s = bytes_at (pfn_database_pa s) (pfn_database_bytes s)"

lemma places_bytes: "places s' = places s \<Longrightarrow> bitmap_bytes s' = bitmap_bytes s \<and> database_bytes s' = database_bytes s"
  by (simp add: places_def bitmap_bytes_def database_bytes_def)

lemma carve_top_usable:
  assumes "carve_top sz mm = (pa, mm')" and "e' \<in> set mm'"
  shows "\<exists>e \<in> set mm. me_usable e = me_usable e' \<and> entry_bytes e' \<subseteq> entry_bytes e"
proof -
  from carve_top_entries [OF assms] obtain e where "e \<in> set mm" "me_usable e' = me_usable e" "me_base e' = me_base e"
    "me_length e' \<le> me_length e" by blast
  then show ?thesis by (auto simp: entry_bytes_def word_le_nat_alt intro!: bexI [of _ e])
qed

lemma boot_reserved:
  assumes ok: "memmap_ok mm s"
  defines "b \<equiv> boot_state mm s"
  shows "bitmap_bytes b \<inter> database_bytes b = {}"
    and "q \<in> usable_frames (boot_memmap mm s) \<Longrightarrow> frame_bytes q \<inter> (bitmap_bytes b \<union> database_bytes b) = {} \<and>
      (\<exists>e \<in> set mm. me_usable e \<and> frame_bytes q \<subseteq> entry_bytes e)"
proof -
  have found: "boot_found mm s" and apart: "entries_apart mm"
    and nowrap: "\<forall>e \<in> set mm. unat (me_base e) + unat (me_length e) < 2 ^ 64"
    and align: "\<forall>e \<in> set mm. 4096 dvd unat (me_base e)" using ok by (auto simp: memmap_ok_def)
  obtain mm1 where c1: "carve_top (bitmap_count b * 8) mm = (bitmap_pa b, mm1)"
    and f1: "fst (bitmap_init mm (kmem_init mm s)) = mm1"
    and c2: "carve_top (pfn_database_bytes b) mm1 = (pfn_database_pa b, boot_memmap mm s)"
    unfolding b_def by (rule boot_carve)
  have one: "\<forall>e' \<in> set mm1. entry_bytes e' \<inter> bitmap_bytes b = {}" and apart1: "entries_apart mm1"
    using carve_top_apart [OF c1 _ apart nowrap] found by (auto simp: boot_found_def b_def bitmap_bytes_def)
  have keep1: "\<forall>e \<in> set mm1. unat (me_base e) + unat (me_length e) < 2 ^ 64 \<and> 4096 dvd unat (me_base e)"
    using carve_top_entries [OF c1] nowrap align by (fastforce simp: word_le_nat_alt)
  then have two: "database_bytes b \<subseteq> \<Union> (entry_bytes ` set mm1)"
      "\<forall>e' \<in> set (boot_memmap mm s). entry_bytes e' \<inter> database_bytes b = {}"
    using carve_top_apart [OF c2 _ apart1] found f1 by (auto simp: boot_found_def b_def database_bytes_def)
  show "bitmap_bytes b \<inter> database_bytes b = {}" using one two(1) by blast
  assume q: "q \<in> usable_frames (boot_memmap mm s)"
  have "\<forall>e \<in> set (boot_memmap mm s). 4096 dvd unat (me_base e)" using carve_top_entries [OF c2] keep1 by metis
  with usable_frame_bytes [OF q] obtain e where e: "e \<in> set (boot_memmap mm s)" "me_usable e" "frame_bytes q \<subseteq> entry_bytes e" by blast
  obtain e1 where e1: "e1 \<in> set mm1" "me_usable e1" "entry_bytes e \<subseteq> entry_bytes e1" using carve_top_usable [OF c2 e(1)] e(2) by blast
  obtain e2 where e2: "e2 \<in> set mm" "me_usable e2" "entry_bytes e1 \<subseteq> entry_bytes e2" using carve_top_usable [OF c1 e1(1)] e1(2) by blast
  have "frame_bytes q \<inter> bitmap_bytes b = {}" "frame_bytes q \<inter> database_bytes b = {}" using one two(2) e e1 by blast+
  then show "frame_bytes q \<inter> (bitmap_bytes b \<union> database_bytes b) = {} \<and> (\<exists>e \<in> set mm. me_usable e \<and> frame_bytes q \<subseteq> entry_bytes e)"
    using e(3) e1(3) e2 by blast
qed

section \<open>A concrete boot\<close>

text \<open>A machine with 512 KiB of memory whose first page is reserved.\<close>

definition kmem0 :: kmem where
  "kmem0 = \<lparr>bitmap_start = (\<lambda>_. 0), bitmap_pa = 0, bitmap_count = 0, bitmap_end = 0,
     bitmap_start_of_search = 0, pfn_database = (\<lambda>_. \<lparr>refcount = 0, flags = 0, porder = 0, phys_addr = 0\<rparr>),
     pfn_database_start = 0, pfn_database_pa = 0, pfn_database_bytes = 0, pfn_database_end = 0,
     free_links = \<lparr>lnext = (\<lambda>x. x), lprev = (\<lambda>x. x)\<rparr>, nr_free = (\<lambda>_. 0), nr_pages = 0,
     nr_free_pages = 0, phys_limit = 0\<rparr>"

definition memmap0 :: "memmap_entry list" where
  "memmap0 = [\<lparr>me_base = 0, me_length = 0x1000, me_usable = False\<rparr>,
              \<lparr>me_base = 0x1000, me_length = 0x7f000, me_usable = True\<rparr>]"

lemmas boot_eval = memmap0_def kmem_init_def bitmap_init_def pfn_database_init_def
  PAGE_ALIGN_UP_IF_def PAGE_ALIGN_UP_def PAGE_ALIGN_def SIZE_TO_PAGE_def BITMAP_PER_U64_def
  sizeof_page_t_def Let_def

lemma memmap0_limit: "phys_limit (kmem_init memmap0 kmem0) = 0x80000"
  by (simp add: boot_eval)

lemma memmap0_bitmap: "bitmap_init memmap0 (kmem_init memmap0 kmem0) =
    ([\<lparr>me_base = 0, me_length = 0x1000, me_usable = False\<rparr>,
      \<lparr>me_base = 0x1000, me_length = 0x7eff0, me_usable = True\<rparr>],
     snd (bitmap_init memmap0 (kmem_init memmap0 kmem0)))"
  and memmap0_count: "bitmap_count (snd (bitmap_init memmap0 (kmem_init memmap0 kmem0))) = 2"
  by (simp_all add: boot_eval)

lemma memmap0_s2: "phys_limit (snd (bitmap_init memmap0 (kmem_init memmap0 kmem0))) = 0x80000"
  by (simp add: boot_eval)

lemma fst_pfn_database_init:
  "fst (pfn_database_init mm s) = snd (carve_top (PAGE_ALIGN_UP_IF (SIZE_TO_PAGE (phys_limit s) * sizeof_page_t)) mm)"
  by (simp add: pfn_database_init_def Let_def split: prod.splits)

lemma memmap0_boot: "boot_memmap memmap0 kmem0 =
    [\<lparr>me_base = 0, me_length = 0x1000, me_usable = False\<rparr>,
     \<lparr>me_base = 0x1000, me_length = 0x7dff0, me_usable = True\<rparr>]"
  unfolding boot_memmap_def
  by (subst memmap0_bitmap) (simp add: fst_pfn_database_init memmap0_s2,
      simp add: SIZE_TO_PAGE_def sizeof_page_t_def PAGE_ALIGN_UP_IF_def)

lemma memmap0_db: "pfn_database_bytes (boot_state memmap0 kmem0) = 0x1000"
proof -
  have "pfn_database_bytes (boot_state memmap0 kmem0) =
      PAGE_ALIGN_UP_IF (SIZE_TO_PAGE (phys_limit (kmem_init memmap0 kmem0)) * sizeof_page_t)"
    by (rule boot_carve)
  then show ?thesis by (simp add: memmap0_limit SIZE_TO_PAGE_def sizeof_page_t_def PAGE_ALIGN_UP_IF_def)
qed

lemma memmap0_frames: "usable_frames (boot_memmap memmap0 kmem0) = {1..<126}"
proof -
  have "{e \<in> set (boot_memmap memmap0 kmem0). me_usable e} =
      {\<lparr>me_base = 0x1000, me_length = 0x7dff0, me_usable = True\<rparr>}"
    unfolding memmap0_boot by auto
  then show ?thesis by (simp add: usable_frames_def entry_frames_def)
qed

lemma memmap0_fits: "memmap_fits memmap0 kmem0"
proof -
  have "entries_below 0x80000 memmap0" by (simp add: entries_below_def memmap0_def)
  then show ?thesis
    unfolding memmap_fits_def memmap0_limit boot_state_fields(3) memmap0_count by (simp add: memmap0_def)
qed

lemma memmap0_reserved:
  "boot_found memmap0 kmem0" "entries_apart memmap0"
  "\<forall>e \<in> set memmap0. unat (me_base e) + unat (me_length e) < 2 ^ 64"
  "\<forall>e \<in> set memmap0. 4096 dvd unat (me_base e)"
proof -
  show "boot_found memmap0 kmem0"
    unfolding boot_found_def memmap0_db boot_state_fields(3) memmap0_count
    by (subst memmap0_bitmap) (simp add: memmap0_def)
qed (auto simp: memmap0_def entries_apart_def entry_bytes_def)

lemma memmap0_ok: "memmap_ok memmap0 kmem0"
  using memmap0_fits memmap0_reserved by (simp add: memmap_ok_def)

lemma pmm_boot_example:
  obtains s B where "pmm_init memmap0 kmem0 = Inr s" and "buddy_inv s B" and "free_frames B = {1..<126}" and "nframes s = 128"
  using pmm_init_spec [OF memmap0_fits] by (auto simp: memmap0_frames memmap0_limit)

lemma pmm_alloc_example:
  obtains s B pfn s' where "buddy_inv s B" and "free_frames B = {1..<126}" and "pmm_alloc_pages 1 s = (Inr pfn, s')"
proof -
  obtain s B where b: "pmm_init memmap0 kmem0 = Inr s" "buddy_inv s B" "free_frames B = {1..<126}"
    by (rule pmm_boot_example)
  have "1 \<in> free_frames B" by (simp add: b(3))
  then obtain p j where "(p, j) \<in> B" by (auto simp: free_frames_def)
  moreover have "unat (1 :: u64) \<le> 2 ^ j" by simp
  ultimately show thesis using that b pmm_alloc_pages_succeeds [OF b(2) one_neq_zero] by blast
qed

section \<open>Properties\<close>

text \<open>C2: A successful \<^verbatim>\<open>pmm_alloc_pages(n)\<close> returns the first frame of an aligned block of
  \<open>2 ^ k \<ge> n\<close> frames, \<open>k\<close> least; all of them were free, the free set loses exactly these frames, and
  the allocator's invariant (free blocks aligned, disjoint, inside memory, coalesced, rings and
  counters exact) still holds.\<close>

theorem pmm_alloc_pages_correct:
  assumes "buddy_inv s B" and "n \<noteq> 0" and "pmm_alloc_pages n s = (Inr pfn, s')"
  shows "\<exists>B'. buddy_inv s' B' \<and> unat n \<le> 2 ^ order_for n \<and> 2 ^ order_for n dvd unat pfn \<and>
    blk_frames (unat pfn, order_for n) \<subseteq> free_frames B \<and>
    free_frames B' = free_frames B - blk_frames (unat pfn, order_for n)"
  using pmm_alloc_pages_Inr [OF assms] by (auto simp: alloc_ok_def blk_ok_def)

theorem pmm_alloc_pages_correct_witness:
  "\<exists>s B pfn s' B'. buddy_inv s B \<and> free_frames B = {1..<126} \<and> pmm_alloc_pages 1 s = (Inr pfn, s') \<and>
     buddy_inv s' B' \<and> unat pfn \<in> {1..<126} \<and> free_frames B' = {1..<126} - {unat pfn}"
proof -
  obtain s B pfn s' where b: "buddy_inv s B" "free_frames B = {1..<126}" "pmm_alloc_pages 1 s = (Inr pfn, s')"
    by (rule pmm_alloc_example)
  obtain B' where "buddy_inv s' B'" "blk_frames (unat pfn, 0) \<subseteq> free_frames B"
    "free_frames B' = free_frames B - blk_frames (unat pfn, 0)"
    using pmm_alloc_pages_correct [OF b(1) one_neq_zero b(3)] unfolding order_for_1 by blast
  moreover have "blk_frames (unat pfn, 0) = {unat pfn}" by (simp add: blk_frames_def)
  ultimately show ?thesis using b
    by (intro exI [of _ s] exI [of _ B] exI [of _ pfn] exI [of _ s'] exI [of _ B']) auto
qed

text \<open>C3: Freeing a block of the free-list order recorded in its page entry, none of whose frames is
  free, succeeds, adds exactly those frames to the free set and keeps the invariant, in particular
  that no two free buddies are left uncoalesced.\<close>

theorem pmm_free_pages_correct:
  assumes "buddy_inv s B" and "porder (pfn_database s (unat pfn)) = of_nat k"
    and "blk_ok (nframes s) (unat pfn, k)" and "blk_frames (unat pfn, k) \<inter> free_frames B = {}"
  shows "\<exists>s' B'. pmm_free_pages pfn s = Inr s' \<and> buddy_inv s' B' \<and>
    free_frames B' = free_frames B \<union> blk_frames (unat pfn, k)"
  using buddy_free_pages_spec [OF assms(1,3,4)] assms(2,3)
  by (auto simp: pmm_free_pages_def blk_ok_def unat_order)

theorem pmm_free_pages_correct_witness:
  "\<exists>s B pfn s' B'. buddy_inv s B \<and> unat pfn \<in> {1..<126} \<and> free_frames B = {1..<126} - {unat pfn} \<and>
     pmm_free_pages pfn s = Inr s' \<and> buddy_inv s' B' \<and> free_frames B' = {1..<126}"
proof -
  obtain s B pfn s' where b: "buddy_inv s B" "free_frames B = {1..<126}" "pmm_alloc_pages 1 s = (Inr pfn, s')"
    by (rule pmm_alloc_example)
  obtain B' where a: "alloc_ok s B 0 (unat pfn) s' B'"
    using pmm_alloc_pages_Inr(1) [OF b(1) one_neq_zero b(3)] by (auto simp: order_for_1)
  have ok: "blk_ok (nframes s') (unat pfn, 0)"
    using a db_same_nframes [of _ s s'] by (auto simp: alloc_ok_def)
  have fr: "free_frames B' = {1..<126} - {unat pfn}" "unat pfn \<in> {1..<126}" "buddy_inv s' B'"
    using a b(2) by (auto simp: alloc_ok_def blk_frames_def)
  have "\<exists>s'' B''. pmm_free_pages pfn s' = Inr s'' \<and> buddy_inv s'' B'' \<and>
      free_frames B'' = free_frames B' \<union> blk_frames (unat pfn, 0)"
    using a fr by (intro pmm_free_pages_correct [OF fr(3) _ ok]) (auto simp: alloc_ok_def blk_frames_def)
  then show ?thesis using fr by (fastforce simp: blk_frames_def)
qed

text \<open>C1: Whatever sequence of allocations and frees of owned blocks runs, the blocks handed out are
  pairwise disjoint, disjoint from the free frames, and together with them make up exactly the
  frames that were free at the start: nothing is handed out twice and nothing is lost.\<close>

theorem pmm_run_safe:
  assumes "buddy_inv s B" and "pmm_step\<^sup>*\<^sup>* (s, {}) (s', A)"
  shows "(\<forall>b\<in>A. \<forall>c\<in>A. b \<noteq> c \<longrightarrow> blk_frames b \<inter> blk_frames c = {}) \<and>
    (\<exists>B'. buddy_inv s' B' \<and> free_frames A \<inter> free_frames B' = {} \<and>
       free_frames A \<union> free_frames B' = free_frames B)"
proof -
  have "pmm_safe (free_frames B) s {}"
    using assms(1) by (auto simp: pmm_safe_def pmm_owned_def free_frames_def)
  from pmm_steps_safe [OF assms(2) this] show ?thesis by (auto simp: pmm_safe_def pmm_owned_def)
qed

theorem pmm_run_safe_witness:
  "\<exists>s B s' A. buddy_inv s B \<and> free_frames B = {1..<126} \<and> pmm_step\<^sup>*\<^sup>* (s, {}) (s', A) \<and> A \<noteq> {} \<and>
     (\<exists>B'. buddy_inv s' B' \<and> free_frames A \<inter> free_frames B' = {} \<and> free_frames A \<union> free_frames B' = {1..<126})"
proof -
  obtain s B pfn s' where b: "buddy_inv s B" "free_frames B = {1..<126}" "pmm_alloc_pages 1 s = (Inr pfn, s')"
    by (rule pmm_alloc_example)
  let ?A = "{(unat pfn, unat (porder (pfn_database s' (unat pfn))))}"
  have "pmm_step\<^sup>*\<^sup>* (s, {}) (s', ?A)" by (rule r_into_rtranclp) (rule pmm_step.Alloc [OF b(3) one_neq_zero])
  with pmm_run_safe [OF b(1) this] b(1,2) show ?thesis
    by (intro exI [of _ s] exI [of _ B] exI [of _ s'] exI [of _ ?A]) auto
qed

text \<open>C4: Let the memory map have entries that start at page boundaries, do not wrap around and do not overlap, the last of
  them ending highest; let the bitmap have a bit for each frame below that end, and let the two searches for the
  memory of the bitmap and of the page database succeed (when one finds no usable entry that is long enough, the
  code goes on with address 0, which this theorem excludes).  Then \<^verbatim>\<open>pmm_init\<close> returns with the invariant
  established; the free frames are exactly the whole frames of the usable entries that remain after the bitmap and
  the page database were taken from them; the bitmap and the page database do not overlap; and each free frame lies
  inside a usable entry of the original map and overlaps neither of the two.\<close>

theorem pmm_init_correct:
  assumes "memmap_ok mm s"
  shows "\<exists>s' B. pmm_init mm s = Inr s' \<and> buddy_inv s' B \<and> free_frames B = usable_frames (boot_memmap mm s) \<and>
    bitmap_bytes s' \<inter> database_bytes s' = {} \<and>
    (\<forall>q \<in> free_frames B. frame_bytes q \<inter> (bitmap_bytes s' \<union> database_bytes s') = {} \<and>
       (\<exists>e \<in> set mm. me_usable e \<and> frame_bytes q \<subseteq> entry_bytes e))"
proof -
  obtain s' B where s': "pmm_init mm s = Inr s'" "buddy_inv s' B" "free_frames B = usable_frames (boot_memmap mm s)"
    "places s' = places (boot_state mm s)" using pmm_init_spec [of mm s] assms by (auto simp: memmap_ok_def)
  have "bitmap_bytes s' = bitmap_bytes (boot_state mm s)" "database_bytes s' = database_bytes (boot_state mm s)"
    using places_bytes [OF s'(4)] by simp_all
  note eq = this
  show ?thesis
  proof (intro exI [of _ s'] exI [of _ B] conjI ballI)
    show "bitmap_bytes s' \<inter> database_bytes s' = {}" unfolding eq by (rule boot_reserved(1) [OF assms])
    fix q assume "q \<in> free_frames B"
    note q = boot_reserved(2) [OF assms this [unfolded s'(3)]]
    show "frame_bytes q \<inter> (bitmap_bytes s' \<union> database_bytes s') = {}" unfolding eq using q by blast
    show "\<exists>e \<in> set mm. me_usable e \<and> frame_bytes q \<subseteq> entry_bytes e" using q by blast
  qed (rule s')+
qed

theorem pmm_init_correct_witness:
  "memmap_ok memmap0 kmem0 \<and> (\<exists>s' B. pmm_init memmap0 kmem0 = Inr s' \<and> buddy_inv s' B \<and> free_frames B = {1..<126} \<and>
     frame_bytes 125 \<inter> (bitmap_bytes s' \<union> database_bytes s') = {})"
proof -
  obtain s' B where s': "pmm_init memmap0 kmem0 = Inr s'" "buddy_inv s' B" "free_frames B = {1..<126}"
    "\<forall>q \<in> free_frames B. frame_bytes q \<inter> (bitmap_bytes s' \<union> database_bytes s') = {}"
    using pmm_init_correct [OF memmap0_ok] unfolding memmap0_frames by blast
  have "125 \<in> free_frames B" using s'(3) by simp
  then show ?thesis using s' memmap0_ok by blast
qed

text \<open>C23: A request that some free block can hold is served.\<close>

theorem pmm_alloc_pages_served:
  assumes "buddy_inv s B" and "n \<noteq> 0" and "(p, j) \<in> B" and "unat n \<le> 2 ^ j"
  shows "\<exists>pfn s'. pmm_alloc_pages n s = (Inr pfn, s')"
  by (rule pmm_alloc_pages_succeeds [OF assms])

theorem pmm_alloc_pages_served_witness:
  "\<exists>s B p j pfn s'. buddy_inv s B \<and> (p, j) \<in> B \<and> unat (1 :: u64) \<le> 2 ^ j \<and> pmm_alloc_pages 1 s = (Inr pfn, s')"
proof -
  obtain s B pfn s' where b: "buddy_inv s B" "free_frames B = {1..<126}" "pmm_alloc_pages 1 s = (Inr pfn, s')"
    by (rule pmm_alloc_example)
  have "1 \<in> free_frames B" by (simp add: b(2))
  then obtain p j where pj: "(p, j) \<in> B" by (auto simp: free_frames_def)
  have "unat (1 :: u64) \<le> 2 ^ j" by simp
  with pmm_alloc_pages_served [OF b(1) one_neq_zero pj] pj b(1) show ?thesis by blast
qed

text \<open>C29: When enough frames are free in total but no free block is large enough (in particular for
  every request above 1024 frames), \<^verbatim>\<open>pmm_alloc_pages\<close> reads the frame number through the null
  page the buddy allocator returned.\<close>

theorem pmm_alloc_pages_null:
  assumes "buddy_inv s B" and "n \<noteq> 0" and "n \<le> nr_free_pages s"
    and "unat n > 1024 \<or> (\<forall>(p, j) \<in> B. 2 ^ j < unat n)"
  shows "pmm_alloc_pages n s = (Inl NullDeref, s)"
  by (rule pmm_alloc_pages_fails [OF assms])

theorem pmm_alloc_pages_null_witness:
  "\<exists>s B. buddy_inv s B \<and> unat (nr_free_pages s) = 125 \<and> pmm_alloc_pages 125 s = (Inl NullDeref, s)"
proof -
  obtain s B where b: "pmm_init memmap0 kmem0 = Inr s" "buddy_inv s B" "free_frames B = {1..<126}"
    by (rule pmm_boot_example)
  have n: "unat (nr_free_pages s) = 125" using nr_free_pages_card [OF b(2)] b(3) by simp
  have "2 ^ j < (125 :: nat)" if "(p, j) \<in> B" for p j
  proof (rule ccontr)
    assume "\<not> 2 ^ j < (125 :: nat)"
    then have "6 < j" using power_increasing [of j 6 "2 :: nat"] by (cases "6 < j") auto
    then have "2 ^ 7 \<le> (2 ^ j :: nat)" by (intro power_increasing) auto
    with block_le_nr_free_pages [OF b(2) that] n show False by simp
  qed
  then have "\<forall>(p, j) \<in> B. 2 ^ j < unat (125 :: u64)" by auto
  then have "pmm_alloc_pages 125 s = (Inl NullDeref, s)"
    by (intro pmm_alloc_pages_null [OF b(2)]) (auto simp: n word_le_nat_alt)
  with b(2) n show ?thesis by blast
qed

text \<open>The boot-time bitmap allocator is first fit: the run it returns was entirely free, exactly
  that run is marked, and no lower start would have fitted; when it returns nothing, nothing fits
  and nothing changed.\<close>

theorem bitmap_alloc_frames_first_fit:
  assumes "unat (phys_limit s) + unat n < 2 ^ 38"
  shows "case bitmap_alloc_frames n s of
       (None, s') \<Rightarrow> s' = s \<and> (\<forall>j < unat (phys_limit s). \<not> fits j (unat n) (bitmap_frames s))
     | (Some p, s') \<Rightarrow> fits (unat p) (unat n) (bitmap_frames s) \<and>
         bitmap_frames s' = bitmap_frames s \<union> {unat p ..< unat p + unat n} \<and>
         (\<forall>j < unat p. \<not> fits j (unat n) (bitmap_frames s))"
  using bitmap_alloc_from_spec [of 0 "unat (phys_limit s)" n s] assms
  by (auto simp: bitmap_alloc_frames_def run_def split: prod.splits option.splits)

theorem bitmap_alloc_frames_first_fit_witness:
  "\<exists>s. s = kmem0\<lparr>phys_limit := 8, bitmap_start := (\<lambda>_. 0b1011)\<rparr> \<and> unat (phys_limit s) + unat (2 :: u64) < 2 ^ 38 \<and>
     (case bitmap_alloc_frames 2 s of
       (None, s') \<Rightarrow> s' = s \<and> (\<forall>j < unat (phys_limit s). \<not> fits j (unat (2 :: u64)) (bitmap_frames s))
     | (Some p, s') \<Rightarrow> fits (unat p) (unat (2 :: u64)) (bitmap_frames s) \<and>
         bitmap_frames s' = bitmap_frames s \<union> {unat p ..< unat p + unat (2 :: u64)} \<and>
         (\<forall>j < unat p. \<not> fits j (unat (2 :: u64)) (bitmap_frames s)))"
  using bitmap_alloc_frames_first_fit [of "kmem0\<lparr>phys_limit := 8, bitmap_start := (\<lambda>_. 0b1011)\<rparr>" 2]
  by simp

end
