(* ===== verification/Vmm.thy ===== *)
theory Vmm
  imports PtmMap Boot
begin

text \<open>
  The page part of \<^verbatim>\<open>src/kernel/src/mm/vmm.c\<close>: mapping given or freshly allocated frames, the direct mapping of
  physical memory from which the kernel takes whole pages, and the physical address of a page.
\<close>

section \<open>Operations\<close>

definition VMM_FLAGS_DEFAULT :: u64 where "VMM_FLAGS_DEFAULT = 0x01 OR 0x02"
definition VMM_FLAGS_USER :: u64 where "VMM_FLAGS_USER = VMM_FLAGS_DEFAULT OR 0x04"
definition VMM_FLAGS_MMIO :: u64 where "VMM_FLAGS_MMIO = VMM_FLAGS_DEFAULT OR 0x10 OR 0x08"
definition MI_DIRECT_MAPPING_RANGE_START :: u64 where "MI_DIRECT_MAPPING_RANGE_START = 0xfffff70000000000"

definition vmm_get_phys_addr :: "u64 \<Rightarrow> (vm, u64) km" where
  "vmm_get_phys_addr va = kbind (vread (ptm_get_pte va)) (\<lambda>e. kreturn (PAGE_TO_SIZE (page_frame e)))"

definition vmm_map :: "u64 \<Rightarrow> u64 \<Rightarrow> u64 \<Rightarrow> u64 \<Rightarrow> (vm, unit) km" where
  "vmm_map va pa n fl = ptm_map_pages va pa n fl"

definition vmm_unmap :: "u64 \<Rightarrow> u64 \<Rightarrow> (vm, unit) km" where
  "vmm_unmap va n = ptm_unmap_pages va n"

text \<open>How often \<^verbatim>\<open>for (va_start = va; va_start < va_end; va_start += PAGE_SIZE)\<close> runs, and \<^verbatim>\<open>pfn_to_page\<close> as an
  address.\<close>

definition pages_below :: "u64 \<Rightarrow> u64 \<Rightarrow> nat" where
  "pages_below va va_end = (unat va_end - unat va + 4095) div 4096"

definition pfn_to_page :: "u64 \<Rightarrow> kmem \<Rightarrow> u64" where
  "pfn_to_page pfn km = pfn_database_start km + pfn * sizeof_page_t"

definition vmm_vmap :: "u64 \<Rightarrow> u64 \<Rightarrow> u64 \<Rightarrow> (vm, unit) km" where
  "vmm_vmap va n fl =
     (if fl AND VMM_FLAGS_MMIO = VMM_FLAGS_MMIO
      then kbind (vm_pmm_alloc n) (\<lambda>pfn.
           kbind (kget (\<lambda>s. pfn_to_page pfn (vm_kmem s))) (\<lambda>pa. vmm_map va pa n VMM_FLAGS_MMIO))
      else kforeach (\<lambda>i. kbind (vm_pmm_alloc 1) (\<lambda>pfn.
                         kbind (kget (\<lambda>s. phys_addr (pfn_database (vm_kmem s) (unat pfn)))) (\<lambda>pa.
                         vmm_map (va + of_nat i * 4096) pa 1 fl)))
             [0..<pages_below va (va + PAGE_TO_SIZE n)])"

definition vmm_vunmap :: "u64 \<Rightarrow> u64 \<Rightarrow> u64 \<Rightarrow> (vm, unit) km" where
  "vmm_vunmap va n fl =
     (if fl AND VMM_FLAGS_MMIO = VMM_FLAGS_MMIO then vmm_unmap va n
      else kforeach (\<lambda>i. vmm_unmap (va + of_nat i * 4096) 1) [0..<pages_below va (va + PAGE_TO_SIZE n)])"

definition vmm_alloc_pages :: "u64 \<Rightarrow> (vm, u64) km" where
  "vmm_alloc_pages n =
     kbind (vm_pmm_alloc n) (\<lambda>pfn.
       let pa = pfn_to_ptr pfn;
           virt_addr = MI_DIRECT_MAPPING_RANGE_START + pa
       in kbind (ptm_map_pages virt_addr pa n VMM_FLAGS_DEFAULT) (\<lambda>_. kreturn virt_addr))"

definition vmm_free_pages :: "u64 \<Rightarrow> u64 \<Rightarrow> (vm, unit) km" where
  "vmm_free_pages ptr n = (if ptr = 0 then kreturn () else ptm_unmap_pages ptr n)"

definition vmm_alloc_page :: "(vm, u64) km" where
  "vmm_alloc_page = vmm_alloc_pages 1"

definition vmm_free_page :: "u64 \<Rightarrow> (vm, unit) km" where
  "vmm_free_page ptr = vmm_free_pages ptr 1"

section \<open>Addresses outside the recursive slot\<close>

lemma vpn_div3: "vpn va div 512 ^ 3 = unat (PAGING_PML4_INDEX va)"
proof -
  have "vpn va div 2 ^ 27 = unat va div 4096 div 2 ^ 27 mod 2 ^ 9"
    using div_mod_pow [of "unat va div 4096" 27 9] by (simp add: vpn_def)
  moreover have "unat (PAGING_PML4_INDEX va) = unat va div 2 ^ 39 mod 512"
    by (simp add: PAGING_PML4_INDEX_def index_nat unat_of_nat)
  ultimately show ?thesis by (simp add: div_mult2_eq [symmetric])
qed

lemma nonrec_vpn: "nonrec 4 (vpn va) \<longleftrightarrow> PAGING_PML4_INDEX va \<noteq> RECURSIVE_ENTRY_IDX"
proof -
  have "PAGING_PML4_INDEX va = RECURSIVE_ENTRY_IDX \<longleftrightarrow> unat (PAGING_PML4_INDEX va) = 510"
    by (simp add: word_unat_eq_iff RECURSIVE_ENTRY_IDX_def RECURSIVE_ENTRY_OFFSET_def)
  then show ?thesis using vpn_less [of va] vpn_div3 [of va] by (simp add: nonrec_def)
qed

text \<open>A range of pages that ends before the last page and does not meet the recursive slot.\<close>

definition clear_range :: "u64 \<Rightarrow> u64 \<Rightarrow> bool" where
  "clear_range va n \<longleftrightarrow> vpn va + unat n < 2 ^ 36 \<and> (vpn va + unat n < 510 * 512 ^ 3 \<or> 511 * 512 ^ 3 \<le> vpn va)"

lemma clear_range_nonrec:
  assumes "clear_range va n" and "vpn va \<le> k" and "k \<le> vpn va + unat n"
  shows "nonrec 4 k"
proof -
  have "k div 512 ^ 3 \<noteq> 510"
  proof
    assume k: "k div 512 ^ 3 = 510"
    have "510 * 512 ^ 3 \<le> k" "k < 511 * 512 ^ 3"
      using div_mult_mod_eq [of k "512 ^ 3"] mod_less_divisor [of "512 ^ 3" k] unfolding k by simp_all
    then show False using assms by (auto simp: clear_range_def)
  qed
  then show ?thesis using assms by (simp add: nonrec_def clear_range_def)
qed

definition in_range :: "u64 \<Rightarrow> u64 \<Rightarrow> u64 \<Rightarrow> bool" where
  "in_range va n va' \<longleftrightarrow> vpn va \<le> vpn va' \<and> vpn va' < vpn va + unat n"

abbreviation vwalk :: "vm \<Rightarrow> u64 \<Rightarrow> u64 option" where
  "vwalk s \<equiv> mmu_walk (vm_pm s) (vm_cr3 s)"

section \<open>Mapping fresh pages\<close>

lemma drop_push_12: "unat pfn < 2 ^ 36 \<Longrightarrow> drop_bit 12 (push_bit 12 pfn) = pfn" for pfn :: u64
proof -
  assume p: "unat pfn < 2 ^ 36"
  have "push_bit 12 pfn = pfn * 4096" by (simp add: push_bit_eq_mult)
  moreover have "unat (pfn * 4096) = unat pfn * 4096" using p by (subst unat_mult_lem [THEN iffD1]) simp_all
  ultimately have "unat (drop_bit 12 (push_bit 12 pfn)) = unat pfn" 
    by (simp only: unat_drop_bit_eq drop_bit_eq_div [where 'a = nat]) simp
  then show ?thesis by (simp only: word_unat_eq_iff)
qed

lemma finite_free: "pt_inv s B \<Longrightarrow> finite (free_frames B)"
proof -
  assume "pt_inv s B"
  then have "buddy_inv (vm_kmem s) B" by (simp add: pt_inv_def)
  from free_frames_bound [OF buddy_inv_wf [OF this]] show ?thesis by (rule finite_subset) simp
qed

lemma free_card: "pt_inv s B \<Longrightarrow> unat (nr_free_pages (vm_kmem s)) = card (free_frames B)"
  by (rule nr_free_pages_card) (simp add: pt_inv_def)

definition vmap_page :: "u64 \<Rightarrow> u64 \<Rightarrow> (vm, unit) km" where
  "vmap_page va fl = kbind (vm_pmm_alloc 1) (\<lambda>pfn. kbind (kget (\<lambda>s. phys_addr (pfn_database (vm_kmem s) (unat pfn)))) (\<lambda>pa.
     vmm_map va pa 1 fl))"

lemma vmap_page_spec:
  assumes ok: "vm_ok s B A" and fl: "bit fl 0" and k: "clear_range va 1" and none: "vtab s 4 (vpn va) = None"
    and mem: "7 \<le> card (free_frames B)"
  shows "\<exists>pfn s' B'. vmap_page va fl s = Inr ((), s') \<and> vm_ok s' B' (insert (unat pfn, 0) A) \<and> pt_frame s B s' B' \<and>
    held s B = insert (unat pfn) (held s' B') \<and>
    unat pfn \<in> free_frames B \<and> unat pfn \<notin> free_frames B' \<and> card (free_frames B) \<le> 7 + card (free_frames B') \<and>
    (\<forall>j. nonrec 4 j \<longrightarrow> vtab s' 4 j = (if j = vpn va then Some pfn else vtab s 4 j))"
proof -
  have ne: "free_frames B \<noteq> {}" using mem by auto
  from vm_ok_alloc [OF ok ne] obtain pfn km B1 where
    al: "vm_pmm_alloc 1 s = Inr (pfn, s\<lparr>vm_kmem := km\<rparr>)" "unat pfn \<in> free_frames B"
      "free_frames B1 = free_frames B - {unat pfn}" "vm_ok (s\<lparr>vm_kmem := km\<rparr>) B1 (insert (unat pfn, 0) A)"
      "pt_frame s B (s\<lparr>vm_kmem := km\<rparr>) B1" "unat pfn < 2 ^ 36" "phys_addr (pfn_database km (unat pfn)) = push_bit 12 pfn" .
  let ?s1 = "s\<lparr>vm_kmem := km\<rparr>"
  have c1: "card (free_frames B) = Suc (card (free_frames B1))"
    using finite_free [OF vm_ok_inv [OF ok]] al(2,3) card_Suc_Diff1 by (metis)
  have nt: "need_tables 1 = 6" by (simp add: need_tables_def)
  have "\<exists>s' B'. ptm_map_pages va (push_bit 12 pfn) 1 fl ?s1 = Inr ((), s') \<and> pt_inv s' B' \<and> pt_frame ?s1 B1 s' B' \<and> held s' B' = held ?s1 B1 \<and>
    (\<forall>j. nonrec 4 j \<longrightarrow> vtab s' 4 j = (if vpn va \<le> j \<and> j < vpn va + unat (1 :: u64)
       then Some (drop_bit 12 (push_bit 12 pfn) + of_nat (j - vpn va)) else vtab ?s1 4 j)) \<and>
    card (free_frames B1) \<le> need_tables 1 + card (free_frames B')"
    by (rule ptm_map_pages_spec [OF vm_ok_inv [OF al(4)] fl])
      (use k none c1 mem clear_range_nonrec [OF k] al(6) in
        \<open>auto simp: clear_range_def nt drop_push_12 le_less_Suc_eq\<close>)
  then obtain s' B' where s': "ptm_map_pages va (push_bit 12 pfn) 1 fl ?s1 = Inr ((), s')" "pt_inv s' B'" "pt_frame ?s1 B1 s' B'" "held s' B' = held ?s1 B1"
    "\<forall>j. nonrec 4 j \<longrightarrow> vtab s' 4 j = (if vpn va \<le> j \<and> j < vpn va + unat (1 :: u64)
       then Some (drop_bit 12 (push_bit 12 pfn) + of_nat (j - vpn va)) else vtab ?s1 4 j)"
    "card (free_frames B1) \<le> need_tables 1 + card (free_frames B')" by blast
  have "vmap_page va fl s = Inr ((), s')" using al(1,7) s'(1) by (simp add: vmap_page_def vmm_map_def)
  moreover have "\<forall>j. nonrec 4 j \<longrightarrow> vtab s' 4 j = (if j = vpn va then Some pfn else vtab s 4 j)"
    using s'(5) drop_push_12 [OF al(6)] by auto
  moreover have "held s B = insert (unat pfn) (held s' B')" using s'(4) al(2,3) by auto
  moreover have "unat pfn \<notin> free_frames B'" using s'(3) al(3) by (auto simp: pt_frame_def)
  moreover have "card (free_frames B) \<le> 7 + card (free_frames B')" using c1 s'(6) nt by simp
  ultimately show ?thesis using al(2) vm_ok_frame [OF al(4) s'(2,3)] pt_frame_trans [OF al(5) s'(3)] by blast
qed

lemma pages_below_range:
  assumes "clear_range va n" and "unat va + unat n * 4096 < 2 ^ 64"
  shows "pages_below va (va + PAGE_TO_SIZE n) = unat n"
proof -
  have m: "unat (n * 4096) = unat n * 4096" using assms(2) by (subst unat_mult_lem [THEN iffD1]) simp_all
  then have "unat (va + n * 4096) = unat va + unat n * 4096" using assms(2) by (subst unat_add_lem [THEN iffD1]) simp_all
  then show ?thesis by (simp add: pages_below_def PAGE_TO_SIZE_def)
qed

lemma clear_range_page:
  assumes "clear_range va n" and "i < unat n"
  shows "vpn (va + of_nat i * 4096) = vpn va + i" and "clear_range (va + of_nat i * 4096) 1"
proof -
  have u: "unat (of_nat i :: u64) = i" using assms(2) unsigned_less [of n, where 'a = nat] by (simp add: unat_of_nat)
  show v: "vpn (va + of_nat i * 4096) = vpn va + i"
    using vpn_add [of va "of_nat i"] assms u by (simp add: clear_range_def)
  show "clear_range (va + of_nat i * 4096) 1" using assms unfolding clear_range_def v by auto
qed

text \<open>Each page of the range gets a frame of its own that was free.\<close>

definition fresh_pages :: "vm \<Rightarrow> blk set \<Rightarrow> vm \<Rightarrow> u64 \<Rightarrow> nat \<Rightarrow> (nat \<Rightarrow> u64) \<Rightarrow> bool" where
  "fresh_pages s B s' va n F \<longleftrightarrow> (\<forall>i<n. unat (F i) \<in> free_frames B) \<and> inj_on F {..<n} \<and>
     (\<forall>j. nonrec 4 j \<longrightarrow> vtab s' 4 j = (if vpn va \<le> j \<and> j < vpn va + n then Some (F (j - vpn va)) else vtab s 4 j))"

definition page_blocks :: "nat \<Rightarrow> (nat \<Rightarrow> u64) \<Rightarrow> blk set" where
  "page_blocks n F = (\<lambda>i. (unat (F i), 0)) ` {..<n}"

lemma page_blocks_Suc: "page_blocks (Suc n) (F(n := f)) = insert (unat f, 0) (page_blocks n F)"
  by (auto simp: page_blocks_def lessThan_Suc)

lemma vmm_vmap_spec:
  assumes ok: "vm_ok s B A" and fl: "bit fl 0" "fl AND VMM_FLAGS_MMIO \<noteq> VMM_FLAGS_MMIO"
    and r: "clear_range va n" "unat va + unat n * 4096 < 2 ^ 64"
    and none: "\<And>j. vpn va \<le> j \<Longrightarrow> j < vpn va + unat n \<Longrightarrow> vtab s 4 j = None"
    and mem: "7 * unat n \<le> card (free_frames B)"
  shows "\<exists>s' B' F. vmm_vmap va n fl s = Inr ((), s') \<and> vm_ok s' B' (A \<union> page_blocks (unat n) F) \<and> pt_frame s B s' B' \<and>
    held s B = held s' B' \<union> (unat \<circ> F) ` {..<unat n} \<and> fresh_pages s B s' va (unat n) F \<and> (\<forall>i<unat n. unat (F i) \<notin> free_frames B')"
proof -
  let ?P = "\<lambda>i s'. \<exists>B' F. vm_ok s' B' (A \<union> page_blocks i F) \<and> pt_frame s B s' B' \<and> fresh_pages s B s' va i F \<and>
    held s B = held s' B' \<union> (unat \<circ> F) ` {..<i} \<and>
    (\<forall>j<i. unat (F j) \<notin> free_frames B') \<and> card (free_frames B) \<le> 7 * i + card (free_frames B')"
  let ?f = "\<lambda>i. vmap_page (va + of_nat i * 4096) fl"
  have "\<exists>s'. kforeach ?f [0..<unat n] s = Inr ((), s') \<and> ?P (unat n) s'"
  proof (rule kforeach_upt)
    show "?P 0 s" using ok pt_frame_refl
      by (intro exI [of _ B] exI [of _ "\<lambda>_. 0"]) (auto simp: page_blocks_def fresh_pages_def)
    fix i s1 assume i: "i < unat n" and "?P i s1"
    then obtain B1 F where P: "vm_ok s1 B1 (A \<union> page_blocks i F)" "pt_frame s B s1 B1" "fresh_pages s B s1 va i F"
      "held s B = held s1 B1 \<union> (unat \<circ> F) ` {..<i}"
      "\<forall>j<i. unat (F j) \<notin> free_frames B1" "card (free_frames B) \<le> 7 * i + card (free_frames B1)" by blast
    note v = clear_range_page [OF r(1) i]
    have nr: "nonrec 4 (vpn va + i)" by (rule clear_range_nonrec [OF r(1)]) (use i in simp_all)
    have "vtab s1 4 (vpn (va + of_nat i * 4096)) = None" using P(3) nr none [of "vpn va + i"] i v(1) by (simp add: fresh_pages_def)
    moreover have "7 \<le> card (free_frames B1)" using P(6) mem i by linarith
    ultimately obtain f s2 B2 where
      s2: "?f i s1 = Inr ((), s2)" "vm_ok s2 B2 (insert (unat f, 0) (A \<union> page_blocks i F))" "pt_frame s1 B1 s2 B2" "held s1 B1 = insert (unat f) (held s2 B2)"
        "unat f \<in> free_frames B1" "unat f \<notin> free_frames B2" "card (free_frames B1) \<le> 7 + card (free_frames B2)"
        "\<forall>j. nonrec 4 j \<longrightarrow> vtab s2 4 j = (if j = vpn va + i then Some f else vtab s1 4 j)"
      using vmap_page_spec [OF P(1) fl(1) v(2)] unfolding v(1) by blast
    have sub: "free_frames B1 \<subseteq> free_frames B" "free_frames B2 \<subseteq> free_frames B1" using P(2) s2(3) by (simp_all add: pt_frame_def)
    have "f \<notin> F ` {..<i}" using P(5) s2(5) by auto
    then have "inj_on (F(i := f)) {..<Suc i}"
      using P(3) by (auto simp: fresh_pages_def inj_on_def lessThan_Suc)
    moreover have "\<forall>j<Suc i. unat ((F(i := f)) j) \<in> free_frames B" using P(3) s2(5) sub by (auto simp: fresh_pages_def less_Suc_eq)
    moreover have "\<forall>j. nonrec 4 j \<longrightarrow> vtab s2 4 j =
        (if vpn va \<le> j \<and> j < vpn va + Suc i then Some ((F(i := f)) (j - vpn va)) else vtab s 4 j)"
      using s2(8) P(3) by (auto simp: fresh_pages_def)
    ultimately have "fresh_pages s B s2 va (Suc i) (F(i := f))" by (simp add: fresh_pages_def)
    moreover have "\<forall>j<Suc i. unat ((F(i := f)) j) \<notin> free_frames B2" using P(5) s2(6) sub by (auto simp: less_Suc_eq)
    moreover have "vm_ok s2 B2 (A \<union> page_blocks (Suc i) (F(i := f)))" using s2(2) by (simp add: page_blocks_Suc)
    moreover have "held s B = held s2 B2 \<union> (unat \<circ> (F(i := f))) ` {..<Suc i}"
    proof -
      have "(unat \<circ> (F(i := f))) ` {..<Suc i} = insert (unat f) ((unat \<circ> F) ` {..<i})" by (auto simp: lessThan_Suc)
      then show ?thesis using P(4) s2(4) by auto
    qed
    ultimately have "?P (Suc i) s2" using pt_frame_trans [OF P(2) s2(3)] P(6) s2(7)
      by (intro exI [of _ B2] exI [of _ "F(i := f)"]) simp
    then show "\<exists>s'. ?f i s1 = Inr ((), s') \<and> ?P (Suc i) s'" using s2(1) by blast
  qed simp
  then show ?thesis using fl(2) by (auto simp: vmm_vmap_def vmap_page_def pages_below_range [OF r])
qed

section \<open>Unmapping\<close>

lemma ptm_unmap_one:
  assumes ok: "vm_ok s B A" and k: "clear_range va 1" and f: "vtab s 4 (vpn va) = Some f" and own: "(unat f, 0) \<in> A"
  shows "\<exists>s' B'. vmm_unmap va 1 s = Inr ((), s') \<and> vm_ok s' B' (A - {(unat f, 0)}) \<and>
    vm_cr3 s' = vm_cr3 s \<and> free_frames B' = insert (unat f) (free_frames B) \<and> vtables s' = vtables s \<and>
    (\<forall>g. g \<notin> vtables s \<longrightarrow> vm_pm s' g = vm_pm s g) \<and>
    (\<forall>j. nonrec 4 j \<longrightarrow> vtab s' 4 j = (if j = vpn va then None else vtab s 4 j))"
proof -
  have nr: "nonrec 4 (vpn va)" by (rule clear_range_nonrec [OF k]) simp_all
  have v: "vpn (va + 1 * 4096) = vpn va + unat (1 :: u64)" by (rule vpn_add) (use k in \<open>simp add: clear_range_def\<close>)
  have "pt_entries_below (ent_ptr 3 (vpn va)) (ent_ptr 3 (vpn va + 1)) = vpn va + 1 - vpn va"
    by (rule entries_ent) (use k in \<open>simp_all add: clear_range_def\<close>)
  then have "vmm_unmap va 1 = kbind (ptm_unmap_entry (ent_ptr 3 (vpn va))) (\<lambda>_. kreturn ())"
    using v by (simp add: vmm_unmap_def ptm_unmap_pages_def mi_ptr_ent)
  with unmap_entry_spec [OF ok nr f own] show ?thesis by (auto simp: kbind_Inr_iff kreturn_def)
qed

lemma vmm_vunmap_spec:
  assumes ok: "vm_ok s B (A \<union> page_blocks (unat n) F)" and fl: "fl AND VMM_FLAGS_MMIO \<noteq> VMM_FLAGS_MMIO"
    and r: "clear_range va n" "unat va + unat n * 4096 < 2 ^ 64"
    and map: "\<And>i. i < unat n \<Longrightarrow> vtab s 4 (vpn va + i) = Some (F i)"
    and F: "inj_on F {..<unat n}" and A: "A \<inter> page_blocks (unat n) F = {}"
  shows "\<exists>s' B'. vmm_vunmap va n fl s = Inr ((), s') \<and> vm_ok s' B' A \<and> vm_cr3 s' = vm_cr3 s \<and> vtables s' = vtables s \<and>
    free_frames B' = free_frames B \<union> (unat \<circ> F) ` {..<unat n} \<and> (\<forall>g. g \<notin> vtables s \<longrightarrow> vm_pm s' g = vm_pm s g) \<and>
    (\<forall>j. nonrec 4 j \<longrightarrow> vtab s' 4 j = (if vpn va \<le> j \<and> j < vpn va + unat n then None else vtab s 4 j))"
proof -
  let ?A = "\<lambda>i. A \<union> (\<lambda>j. (unat (F j), 0)) ` {i..<unat n}"
  let ?P = "\<lambda>i s'. \<exists>B'. vm_ok s' B' (?A i) \<and> vm_cr3 s' = vm_cr3 s \<and> vtables s' = vtables s \<and>
    free_frames B' = free_frames B \<union> (unat \<circ> F) ` {..<i} \<and> (\<forall>g. g \<notin> vtables s \<longrightarrow> vm_pm s' g = vm_pm s g) \<and>
    (\<forall>j. nonrec 4 j \<longrightarrow> vtab s' 4 j = (if vpn va \<le> j \<and> j < vpn va + i then None else vtab s 4 j))"
  let ?f = "\<lambda>i. vmm_unmap (va + of_nat i * 4096) 1"
  have "\<exists>s'. kforeach ?f [0..<unat n] s = Inr ((), s') \<and> ?P (unat n) s'"
  proof (rule kforeach_upt [where P = ?P])
    have "?A 0 = A \<union> page_blocks (unat n) F" by (simp add: page_blocks_def lessThan_atLeast0)
    then show "?P 0 s" using ok by (intro exI [of _ B]) auto
    fix i s1 assume i: "i < unat n" and "?P i s1"
    then obtain B1 where P: "vm_ok s1 B1 (?A i)" "vm_cr3 s1 = vm_cr3 s" "vtables s1 = vtables s"
      "free_frames B1 = free_frames B \<union> (unat \<circ> F) ` {..<i}" "\<forall>g. g \<notin> vtables s \<longrightarrow> vm_pm s1 g = vm_pm s g"
      "\<forall>j. nonrec 4 j \<longrightarrow> vtab s1 4 j = (if vpn va \<le> j \<and> j < vpn va + i then None else vtab s 4 j)" by blast
    note v = clear_range_page [OF r(1) i]
    have "nonrec 4 (vpn va + i)" by (rule clear_range_nonrec [OF r(1)]) (use i in simp_all)
    then have "vtab s1 4 (vpn (va + of_nat i * 4096)) = Some (F i)" using P(6) map [OF i] v(1) by simp
    moreover have "(unat (F i), 0) \<in> ?A i" using i by auto
    ultimately obtain s2 B2 where s2: "?f i s1 = Inr ((), s2)" "vm_ok s2 B2 (?A i - {(unat (F i), 0)})" "vm_cr3 s2 = vm_cr3 s1"
      "free_frames B2 = insert (unat (F i)) (free_frames B1)" "vtables s2 = vtables s1"
      "\<forall>g. g \<notin> vtables s1 \<longrightarrow> vm_pm s2 g = vm_pm s1 g"
      "\<forall>j. nonrec 4 j \<longrightarrow> vtab s2 4 j = (if j = vpn va + i then None else vtab s1 4 j)"
      using ptm_unmap_one [OF P(1) v(2)] unfolding v(1) by blast
    have "unat (F j) \<noteq> unat (F i)" if "j \<in> {Suc i..<unat n}" for j
      using inj_onD [OF F, of j i] i that by (auto simp flip: word_unat_eq_iff)
    then have "(unat (F i), 0) \<notin> (\<lambda>j. (unat (F j), 0 :: nat)) ` {Suc i..<unat n}" by fastforce
    moreover have "(unat (F i), 0) \<notin> A" using A i by (auto simp: page_blocks_def)
    moreover have "{i..<unat n} = insert i {Suc i..<unat n}" using i by auto
    ultimately have "?A i - {(unat (F i), 0)} = ?A (Suc i)" by auto
    then have "?P (Suc i) s2" using s2 P by (intro exI [of _ B2]) (auto simp: lessThan_Suc)
    then show "\<exists>s'. ?f i s1 = Inr ((), s') \<and> ?P (Suc i) s'" using s2(1) by blast
  qed simp
  then show ?thesis using fl by (simp add: vmm_vunmap_def pages_below_range [OF r])
qed

section \<open>Translations\<close>

text \<open>Every page number outside the recursive slot is that of a canonical address.\<close>

lemma canonical_vpn:
  assumes "k < 2 ^ 36"
  obtains va where "canonical va" and "vpn va = k"
proof -
  have "unat (of_nat (8 * k) :: u64) = 8 * k" using assms by (simp only: unat_of_nat) simp
  then have "vpn (mi_pte_to_ptr (of_nat (8 * k))) = k" using assms by (simp add: vpn_mi_pte_to_ptr)
  then show ?thesis using that canonical_mi_pte_to_ptr by blast
qed

lemma unmapped_range:
  assumes "clear_range va n" and "\<forall>va'. in_range va n va' \<longrightarrow> vwalk s va' = None"
    and "vpn va \<le> j" and "j < vpn va + unat n"
  shows "vtab s 4 j = None"
proof -
  from canonical_vpn [of j] assms obtain va' where "canonical va'" "vpn va' = j" by (auto simp: clear_range_def)
  then show ?thesis using assms by (auto simp: in_range_def walk_tab)
qed

lemma vwalk_vtab:
  "canonical va' \<Longrightarrow> PAGING_PML4_INDEX va' \<noteq> RECURSIVE_ENTRY_IDX \<Longrightarrow> vwalk s va' = vtab s 4 (vpn va') \<and> nonrec 4 (vpn va')"
  by (simp add: walk_tab nonrec_vpn)

section \<open>An address space\<close>

text \<open>After boot with a small memory map: the root table is frame 5000 and maps nothing but itself.\<close>

definition demo_pm :: pmem where
  "demo_pm f i = (if f = 5000 \<and> i = 510 then 0x1388003 else 0)"

definition demo_vm :: "kmem \<Rightarrow> vm" where
  "demo_vm km = \<lparr>vm_kmem = km, vm_pm = demo_pm, vm_cr3 = 5000\<rparr>"

lemma demo_vroot: "mmu_step demo_pm 5000 510 = Some 5000"
proof -
  have "pt_present 0x1388003" by (simp add: pt_present_def get_bits_def)
  moreover have "page_frame 0x1388003 = 5000" by (simp add: page_frame_def get_bits_def)
  ultimately show ?thesis by (simp add: mmu_step_def demo_pm_def)
qed

lemma demo_vtab:
  assumes "nonrec d k" and "0 < d"
  shows "tab demo_pm 5000 d k = None"
proof -
  obtain m where m: "d = 1 + m" using assms(2) by (metis Suc_eq_plus1_left gr0_implies_Suc)
  have "nonrec 1 (k div 512 ^ m)" by (rule nonrec_prefix) (use assms m in simp)
  then have k: "k div 512 ^ m < 512" "k div 512 ^ m \<noteq> 510" by (auto simp: nonrec_def)
  have "(of_nat (k div 512 ^ m) :: u64) \<noteq> 510"
  proof
    assume "(of_nat (k div 512 ^ m) :: u64) = 510"
    then have "unat (of_nat (k div 512 ^ m) :: u64) = 510" by simp
    then show False using k by (simp add: unat_of_nat)
  qed
  then have "tab demo_pm 5000 1 (k div 512 ^ m) = None" using k by (simp add: mmu_step_def demo_pm_def)
  then show ?thesis unfolding m by (rule tab_below_None)
qed

lemma demo_tree: "pt_tree demo_pm 5000" and demo_tables: "tables demo_pm 5000 = {5000}"
proof -
  have 0: "d = 0 \<and> k = 0" if "nonrec d k" "tab demo_pm 5000 d k \<noteq> None" for d k
    using demo_vtab [OF that(1)] that by (cases d) auto
  show "pt_tree demo_pm 5000" unfolding pt_tree_def
  proof (intro conjI allI impI demo_vroot)
    fix d d' k k' assume "nonrec d k" "nonrec d' k'" "tab demo_pm 5000 d k \<noteq> None" "tab demo_pm 5000 d k = tab demo_pm 5000 d' k'"
    then show "d = d'" and "k = k'" using 0 [of d k] 0 [of d' k'] by auto
  qed
  show "tables demo_pm 5000 = {5000}"
  proof
    show "tables demo_pm 5000 \<subseteq> {5000}" using 0 unfolding tables_def by fastforce
  qed simp
qed

lemma demo_vm_inv:
  assumes "buddy_inv km B" and "nframes km \<le> 2 ^ 36" and "5000 \<notin> free_frames B"
  shows "vm_ok (demo_vm km) B {}"
  using assms demo_tree demo_tables by (simp add: vm_ok_def pt_inv_def demo_vm_def pmm_owned_def free_frames_def [of "{}"])

lemma demo_vm_ok:
  obtains km B where "vm_ok (demo_vm km) B {}" and "free_frames B = {1..<126}" and "nr_free_pages km = 125"
proof -
  obtain km B where b: "buddy_inv km B" "free_frames B = {1..<126}" "nframes km = 128"
    by (rule pmm_boot_example)
  have "unat (nr_free_pages km) = 125" using nr_free_pages_card [OF b(1)] b(2) by simp
  then have "nr_free_pages km = 125" by (simp add: word_unat_eq_iff)
  moreover have "vm_ok (demo_vm km) B {}" by (rule demo_vm_inv) (use b in simp_all)
  ultimately show ?thesis using that b(2) by blast
qed

lemma demo_unmapped: "PAGING_PML4_INDEX va \<noteq> RECURSIVE_ENTRY_IDX \<Longrightarrow> vwalk (demo_vm km) va = None"
  using demo_vtab [of 4 "vpn va"] by (simp add: walk_tab demo_vm_def nonrec_vpn)

lemma demo_range:
  "canonical 0x401000" "PAGING_PML4_INDEX 0x401000 \<noteq> RECURSIVE_ENTRY_IDX" "vpn 0x401000 = 1025" "vpn 0x400000 = 1024"
  "clear_range 0x400000 2" "in_range 0x400000 2 0x401000"
proof -
  show v: "vpn 0x401000 = 1025" "vpn 0x400000 = 1024" by (simp_all add: vpn_def)
  then show "clear_range 0x400000 2" "in_range 0x400000 2 0x401000" by (simp_all add: clear_range_def in_range_def)
  show "canonical 0x401000" by code_simp
  show "PAGING_PML4_INDEX 0x401000 \<noteq> RECURSIVE_ENTRY_IDX" by code_simp
qed

lemma demo_range_unmapped: "\<forall>va'. in_range 0x400000 2 va' \<longrightarrow> vwalk (demo_vm km) va' = None"
proof (intro allI impI)
  fix va' assume "in_range 0x400000 2 va'"
  then have "nonrec 4 (vpn va')" by (intro clear_range_nonrec [OF demo_range(5)]) (simp_all add: in_range_def)
  then show "vwalk (demo_vm km) va' = None" by (intro demo_unmapped) (simp add: nonrec_vpn)
qed

section \<open>Properties\<close>

text \<open>C5: \<^verbatim>\<open>ptm_map_pages\<close> maps exactly its range: with the tables a tree and enough free frames, mapping fewer than
  \<open>2 ^ 20\<close> unmapped pages outside the recursive slot succeeds, each page of the range is then
  translated to its frame, every other address as before, the tables are still a tree apart from
  the free frames, and no frame in use other than a table has been written to.\<close>

theorem ptm_map_pages_translates:
  assumes inv: "pt_inv s B" and fl: "bit fl 0" and n: "unat n < 2 ^ 20" and r: "clear_range va n"
    and none: "\<forall>va'. in_range va n va' \<longrightarrow> vwalk s va' = None"
    and pa: "unat (drop_bit 12 pa) + unat n \<le> 2 ^ 36" and mem: "need_tables n \<le> unat (nr_free_pages (vm_kmem s))"
  shows "\<exists>s' B'. ptm_map_pages va pa n fl s = Inr ((), s') \<and> pt_inv s' B' \<and>
    (\<forall>va'. canonical va' \<longrightarrow> PAGING_PML4_INDEX va' \<noteq> RECURSIVE_ENTRY_IDX \<longrightarrow>
       vwalk s' va' = (if in_range va n va' then Some (drop_bit 12 pa + of_nat (vpn va' - vpn va)) else vwalk s va')) \<and>
    (\<forall>f. unat f \<notin> free_frames B \<longrightarrow> f \<notin> vtables s \<longrightarrow> vm_pm s' f = vm_pm s f)"
proof -
  have "need_tables n \<le> card (free_frames B)" using mem by (simp add: free_card [OF inv])
  moreover have "vpn va + unat n < 2 ^ 36" using r by (simp add: clear_range_def)
  ultimately obtain s' B' where s': "ptm_map_pages va pa n fl s = Inr ((), s')" "pt_inv s' B'" "pt_frame s B s' B'"
    "\<forall>k. nonrec 4 k \<longrightarrow> vtab s' 4 k =
      (if vpn va \<le> k \<and> k < vpn va + unat n then Some (drop_bit 12 pa + of_nat (k - vpn va)) else vtab s 4 k)"
    using ptm_map_pages_spec [OF inv fl n _ clear_range_nonrec [OF r] unmapped_range [OF r none] pa] by blast
  then show ?thesis using vwalk_vtab by (auto simp: in_range_def pt_frame_def)
qed

theorem ptm_map_pages_translates_witness:
  "\<exists>s B s' B'. pt_inv s B \<and> vwalk s 0x401000 = None \<and> ptm_map_pages 0x400000 0x5000 2 7 s = Inr ((), s') \<and>
     pt_inv s' B' \<and> vwalk s' 0x401000 = Some 6"
proof -
  obtain km B where d: "vm_ok (demo_vm km) B {}" "nr_free_pages km = 125" by (rule demo_vm_ok)
  have "bit (7 :: u64) 0" "unat (2 :: u64) < 2 ^ 20" "unat (drop_bit 12 (0x5000 :: u64)) + unat (2 :: u64) \<le> 2 ^ 36"
    "need_tables 2 \<le> unat (nr_free_pages (vm_kmem (demo_vm km)))"
    by (simp_all add: demo_vm_def d(2) need_tables_def bit_0)
  note pre = vm_ok_inv [OF d(1)] this(1,2) demo_range(5) demo_range_unmapped this(3,4)
  from ptm_map_pages_translates [OF pre] obtain s' B' where s': "ptm_map_pages 0x400000 0x5000 2 7 (demo_vm km) = Inr ((), s')"
    "pt_inv s' B'" "vwalk s' 0x401000 = Some (drop_bit 12 0x5000 + of_nat (vpn 0x401000 - vpn 0x400000))"
    using demo_range by auto
  have "vwalk s' 0x401000 = Some 6" using s'(3) demo_range(3,4) by simp
  then show ?thesis using s'(1,2) pre(1) demo_unmapped [OF demo_range(2)] by blast
qed

text \<open>C6: For flags with the present bit that do not contain all bits of \<^verbatim>\<open>VMM_FLAGS_MMIO\<close>, \<^verbatim>\<open>vmm_vmap\<close> and \<^verbatim>\<open>vmm_vunmap\<close> undo each
  other.  Mapping a range of unmapped canonical pages outside the recursive slot, with seven frames free for each
  page, gives each page a frame of its own that was free, and changes no other translation; unmapping the range then
  restores every translation, and all frames are free again but those that became tables.  Flags with all bits of
  \<^verbatim>\<open>VMM_FLAGS_MMIO\<close> are excluded: that branch maps the address of a \<^verbatim>\<open>page_t\<close> instead of the frame.\<close>

theorem vmm_vmap_vunmap:
  assumes ok: "vm_ok s B A" and fl: "bit fl 0" "fl AND VMM_FLAGS_MMIO \<noteq> VMM_FLAGS_MMIO"
    and r: "clear_range va n" "unat va + unat n * 4096 < 2 ^ 64"
    and none: "\<forall>va'. in_range va n va' \<longrightarrow> vwalk s va' = None" and mem: "7 * unat n \<le> unat (nr_free_pages (vm_kmem s))"
  shows "\<exists>s1 F s2 B2. vmm_vmap va n fl s = Inr ((), s1) \<and> inj_on F {..<unat n} \<and> (\<forall>i<unat n. unat (F i) \<in> free_frames B) \<and>
    (\<forall>va'. canonical va' \<longrightarrow> PAGING_PML4_INDEX va' \<noteq> RECURSIVE_ENTRY_IDX \<longrightarrow>
       vwalk s1 va' = (if in_range va n va' then Some (F (vpn va' - vpn va)) else vwalk s va')) \<and>
    vmm_vunmap va n fl s1 = Inr ((), s2) \<and> vm_ok s2 B2 A \<and>
    (\<forall>va'. canonical va' \<longrightarrow> PAGING_PML4_INDEX va' \<noteq> RECURSIVE_ENTRY_IDX \<longrightarrow> vwalk s2 va' = vwalk s va') \<and>
    free_frames B2 = free_frames B - unat ` vtables s2"
proof -
  have inv: "pt_inv s B" by (rule vm_ok_inv [OF ok])
  have "7 * unat n \<le> card (free_frames B)" using mem by (simp add: free_card [OF inv])
  from vmm_vmap_spec [OF ok fl r unmapped_range [OF r(1) none] this] obtain s1 B1 F where
    1: "vmm_vmap va n fl s = Inr ((), s1)" "vm_ok s1 B1 (A \<union> page_blocks (unat n) F)" "pt_frame s B s1 B1"
      "held s B = held s1 B1 \<union> (unat \<circ> F) ` {..<unat n}" "fresh_pages s B s1 va (unat n) F"
      "\<forall>i<unat n. unat (F i) \<notin> free_frames B1" by blast
  have map: "vtab s1 4 (vpn va + i) = Some (F i)" if "i < unat n" for i
    using 1(5) clear_range_nonrec [OF r(1), of "vpn va + i"] that by (simp add: fresh_pages_def)
  have bf: "blk_frames (p, 0) = {p}" for p by (auto simp: blk_frames_def)
  have AB: "free_frames A \<inter> free_frames B = {}" using ok by (simp add: vm_ok_def)
  have "A \<inter> page_blocks (unat n) F = {}"
  proof (rule ccontr)
    assume "A \<inter> page_blocks (unat n) F \<noteq> {}"
    then obtain i where i: "i < unat n" "(unat (F i), 0) \<in> A" by (auto simp: page_blocks_def)
    then have "unat (F i) \<in> free_frames A" using bf [of "unat (F i)"] by (auto simp: free_frames_def)
    then show False using AB 1(5) i(1) by (auto simp: fresh_pages_def)
  qed
  from vmm_vunmap_spec [OF 1(2) fl(2) r map _ this] 1(5) obtain s2 B2 where
    2: "vmm_vunmap va n fl s1 = Inr ((), s2)" "vm_ok s2 B2 A" "vtables s2 = vtables s1"
      "free_frames B2 = free_frames B1 \<union> (unat \<circ> F) ` {..<unat n}"
      "\<forall>j. nonrec 4 j \<longrightarrow> vtab s2 4 j = (if vpn va \<le> j \<and> j < vpn va + unat n then None else vtab s1 4 j)"
    unfolding fresh_pages_def by blast
  have walks: "\<forall>va'. canonical va' \<longrightarrow> PAGING_PML4_INDEX va' \<noteq> RECURSIVE_ENTRY_IDX \<longrightarrow> vwalk s2 va' = vwalk s va'"
    using vwalk_vtab 2(5) 1(5) none by (auto simp: fresh_pages_def in_range_def)
  have "free_frames B2 \<inter> unat ` vtables s2 = {}" using vm_ok_inv [OF 2(2)] by (auto simp: pt_inv_def)
  moreover have "free_frames B \<inter> unat ` vtables s = {}" using inv by (auto simp: pt_inv_def)
  moreover have "free_frames B2 \<subseteq> free_frames B" using 1(3,5) 2(4) by (auto simp: pt_frame_def fresh_pages_def)
  moreover have "held s B = held s2 B2" using 1(4) 2(3,4) by auto
  ultimately have "free_frames B2 = free_frames B - unat ` vtables s2" by blast
  moreover have "\<forall>va'. canonical va' \<longrightarrow> PAGING_PML4_INDEX va' \<noteq> RECURSIVE_ENTRY_IDX \<longrightarrow>
       vwalk s1 va' = (if in_range va n va' then Some (F (vpn va' - vpn va)) else vwalk s va')"
    using vwalk_vtab 1(5) by (auto simp: fresh_pages_def in_range_def)
  moreover have "inj_on F {..<unat n}" "\<forall>i<unat n. unat (F i) \<in> free_frames B" using 1(5) by (simp_all add: fresh_pages_def)
  ultimately show ?thesis using 1(1) 2(1,2) walks by blast
qed

theorem vmm_vmap_vunmap_witness:
  "\<exists>s B s1 f s2 B2. vm_ok s B {} \<and> vmm_vmap 0x400000 2 VMM_FLAGS_USER s = Inr ((), s1) \<and>
     vwalk s1 0x401000 = Some f \<and> unat f \<in> {1..<126} \<and>
     vmm_vunmap 0x400000 2 VMM_FLAGS_USER s1 = Inr ((), s2) \<and> vm_ok s2 B2 {} \<and> vwalk s2 0x401000 = None"
proof -
  obtain km B where d: "vm_ok (demo_vm km) B {}" "free_frames B = {1..<126}" "nr_free_pages km = 125" by (rule demo_vm_ok)
  have f: "bit VMM_FLAGS_USER 0" "VMM_FLAGS_USER AND VMM_FLAGS_MMIO \<noteq> VMM_FLAGS_MMIO" by code_simp+
  have m: "unat (0x400000 :: u64) + unat (2 :: u64) * 4096 < 2 ^ 64" 
    "7 * unat (2 :: u64) \<le> unat (nr_free_pages (vm_kmem (demo_vm km)))" by (simp_all add: demo_vm_def d(3))
  from vmm_vmap_vunmap [OF d(1) f demo_range(5) m(1) demo_range_unmapped m(2)]
  obtain s1 F s2 B2 where s: "vmm_vmap 0x400000 2 VMM_FLAGS_USER (demo_vm km) = Inr ((), s1)"
    "\<forall>i<unat (2 :: u64). unat (F i) \<in> free_frames B" "vwalk s1 0x401000 = Some (F (vpn 0x401000 - vpn 0x400000))"
    "vmm_vunmap 0x400000 2 VMM_FLAGS_USER s1 = Inr ((), s2)" "vm_ok s2 B2 {}" "vwalk s2 0x401000 = vwalk (demo_vm km) 0x401000"
    using demo_range(1,2,6) by (elim exE conjE) simp
  have "unat (F 1) \<in> {1..<126}" using s(2) d(2) by simp
  moreover have "vwalk s1 0x401000 = Some (F 1)" using s(3) demo_range(3,4) by simp
  ultimately show ?thesis using s(1,4,5,6) d(1) demo_unmapped [OF demo_range(2)] by metis
qed

end
