(* ===== verification/DirectMap.thy ===== *)
theory DirectMap
  imports Vmm
begin

text \<open>
  The direct mapping: \<^verbatim>\<open>vmm_alloc_pages\<close> maps the block it allocates at a fixed distance from its physical
  address, so that kernel memory taken from it can be described by physical addresses.
\<close>

section \<open>Addresses of the direct mapping\<close>

abbreviation (input) dm_page :: "nat \<Rightarrow> nat" where
  "dm_page f \<equiv> 494 * 512 ^ 3 + f"

definition dm_at :: "u64 \<Rightarrow> nat \<Rightarrow> bool" where
  "dm_at va x \<longleftrightarrow> unat va = unat MI_DIRECT_MAPPING_RANGE_START + x \<and> x < 2 ^ 39"

lemma dm_start: "unat MI_DIRECT_MAPPING_RANGE_START = 2 ^ 64 - 9 * 2 ^ 40"
  by (simp add: MI_DIRECT_MAPPING_RANGE_START_def)

lemma dm_at_vpn:
  assumes "dm_at va x"
  shows "vpn va = dm_page (x div 4096)"
proof -
  have u: "unat va = 4096 * (2 ^ 36 * 65535 + 494 * 512 ^ 3) + x" and x: "x < 2 ^ 39"
    using assms by (auto simp: dm_at_def dm_start)
  have "unat va div 4096 = 2 ^ 36 * 65535 + (494 * 512 ^ 3 + x div 4096)" unfolding u by simp
  moreover have "x div 4096 < 2 ^ 27" using x by (simp add: div_less_iff_less_mult)
  ultimately show ?thesis using mod_shift [of "494 * 512 ^ 3 + x div 4096" "2 ^ 36" 65535] by (simp only: vpn_def) simp
qed

lemma dm_at_canonical: "dm_at va x \<Longrightarrow> canonical va"
  by (rule canonical_high) (simp add: dm_at_def dm_start)

lemma dm_nonrec: "f \<le> 2 ^ 27 \<Longrightarrow> nonrec 4 (dm_page f)"
proof -
  assume f: "f \<le> 2 ^ 27"
  have "(494 * 512 ^ 3 + f) div 512 ^ 3 \<le> (494 * 512 ^ 3 + 2 ^ 27) div 512 ^ (3 :: nat)" using f by (intro div_le_mono) simp
  then show ?thesis using f by (simp add: nonrec_def)
qed

lemma dm_at_index:
  assumes "dm_at va x"
  shows "word_index va = of_nat (x mod 4096 div 8)"
proof -
  have u: "unat va = 4096 * (2 ^ 36 * 65535 + 494 * 512 ^ 3) + x" using assms by (auto simp: dm_at_def dm_start)
  have m: "(0xfff :: u64) = mask 12" by (simp add: mask_eq_exp_minus_1)
  have "unat (drop_bit 3 (take_bit 12 va)) = unat va mod 4096 div 8"
    by (simp only: unat_drop_bit_eq unsigned_take_bit_eq drop_bit_eq_div [where 'a = nat] take_bit_eq_mod [where 'a = nat]) simp
  also have "unat va mod 4096 = x mod 4096" unfolding u by (simp only: mod_mult_self4)
  finally have "unat (word_index va) = x mod 4096 div 8"
    by (simp only: word_index_def PAGING_OFFSET_def m take_bit_eq_mask [symmetric])
  then show ?thesis by (metis of_nat_unat ucast_id)
qed

lemma dm_at_add:
  assumes "dm_at va x" and "x + unat o' < 2 ^ 39"
  shows "dm_at (va + o') (x + unat o')"
proof -
  have "unat va + unat o' < 2 ^ 64" using assms by (simp add: dm_at_def dm_start)
  then have "unat (va + o') = unat va + unat o'" by (subst unat_add_lem [THEN iffD1]) simp_all
  then show ?thesis using assms by (simp add: dm_at_def)
qed

lemma dm_at_inj: "dm_at va x \<Longrightarrow> dm_at va' x \<Longrightarrow> va = va'"
  by (simp add: dm_at_def word_unat_eq_iff)

lemma dm_at_unique: "dm_at va x \<Longrightarrow> dm_at va y \<Longrightarrow> x = y"
  by (simp add: dm_at_def)

section \<open>Writes to data\<close>

text \<open>From \<open>s\<close> to \<open>s'\<close> only the frames \<open>F\<close> were written to.\<close>

definition data_write :: "u64 set \<Rightarrow> vm \<Rightarrow> vm \<Rightarrow> bool" where
  "data_write F s s' \<longleftrightarrow> vm_kmem s' = vm_kmem s \<and> vm_cr3 s' = vm_cr3 s \<and> (\<forall>f. f \<notin> F \<longrightarrow> vm_pm s' f = vm_pm s f)"

lemma data_write_refl: "data_write F s s"
  by (simp add: data_write_def)

lemma data_write_trans: "data_write F s s1 \<Longrightarrow> data_write F s1 s2 \<Longrightarrow> data_write F s s2"
  by (simp add: data_write_def)

lemma data_write_mono: "data_write F s s' \<Longrightarrow> F \<subseteq> G \<Longrightarrow> data_write G s s'"
  by (auto simp: data_write_def)

lemma data_write_tab:
  assumes w: "data_write F s s'" and dj: "F \<inter> vtables s = {}" and "d \<le> 4" and "nonrec d k"
  shows "vtab s' d k = vtab s d k"
  using assms(3,4)
proof (induction d arbitrary: k)
  case 0
  then show ?case using w by (simp add: data_write_def)
next
  case (Suc d)
  have nr: "nonrec d (k div 512)" by (rule nonrec_parent [OF Suc.prems(2)])
  have e: "vtab s' d (k div 512) = vtab s d (k div 512)" using Suc.IH [OF _ nr] Suc.prems(1) by simp
  show ?case
  proof (cases "vtab s d (k div 512)")
    case (Some t)
    have "t \<in> vtables s" by (rule tables_I [OF _ nr Some]) (use Suc.prems(1) in simp)
    then have "vm_pm s' t = vm_pm s t" using w dj by (auto simp: data_write_def)
    then show ?thesis using e Some by (simp add: mmu_step_def)
  qed (use e in simp)
qed

lemma data_write_tables:
  assumes w: "data_write F s s'" and dj: "F \<inter> vtables s = {}"
  shows "vtables s' = vtables s"
proof -
  have t: "vtab s' d k = vtab s d k" if "d < 4" "nonrec d k" for d k
    by (rule data_write_tab [OF w dj]) (use that in simp_all)
  have "d < 4 \<and> nonrec d k \<and> vtab s' d k = Some f \<longleftrightarrow> d < 4 \<and> nonrec d k \<and> vtab s d k = Some f" for d k f
    using t [of d k] by auto
  then show ?thesis unfolding tables_def by (simp only:)
qed

lemma data_write_ok:
  assumes w: "data_write F s s'" and dj: "F \<inter> vtables s = {}" and ok: "vm_ok s B A"
  shows "vm_ok s' B A"
proof -
  have t: "vtab s' d k = vtab s d k" if "d < 4" "nonrec d k" for d k
    by (rule data_write_tab [OF w dj]) (use that in simp_all)
  have tree: "pt_tree (vm_pm s) (vm_cr3 s)" using ok by (simp add: vm_ok_def pt_inv_def)
  have "vm_cr3 s \<notin> F" using dj root_in_tables by blast
  then have "vm_pm s' (vm_cr3 s) = vm_pm s (vm_cr3 s)" using w by (simp add: data_write_def)
  then have "mmu_step (vm_pm s') (vm_cr3 s') 510 = Some (vm_cr3 s')"
    using pt_tree_root [OF tree] w by (simp add: mmu_step_def data_write_def split: if_splits)
  then have "pt_tree (vm_pm s') (vm_cr3 s')"
    using tree t unfolding pt_tree_def by (metis)
  then show ?thesis using ok w data_write_tables [OF w dj] by (simp add: vm_ok_def pt_inv_def data_write_def)
qed

section \<open>The direct mapping of the frames \<open>D\<close>\<close>

definition dm_ok :: "vm \<Rightarrow> blk set \<Rightarrow> blk set \<Rightarrow> nat set \<Rightarrow> bool" where
  "dm_ok s B A D \<longleftrightarrow> vm_ok s B A \<and> D \<subseteq> free_frames A \<and> nframes (vm_kmem s) \<le> 2 ^ 27 \<and>
     (\<forall>f<2 ^ 27. vtab s 4 (dm_page f) = (if f \<in> D then Some (of_nat f) else None))"

text \<open>The word at a physical address.\<close>

definition pword :: "vm \<Rightarrow> nat \<Rightarrow> u64" where
  "pword s x = vm_pm s (of_nat (x div 4096)) (of_nat (x mod 4096 div 8))"

lemma dm_ok_vm: "dm_ok s B A D \<Longrightarrow> vm_ok s B A"
  by (simp add: dm_ok_def)

lemma owned_bound: "pmm_owned km A \<Longrightarrow> f \<in> free_frames A \<Longrightarrow> f < nframes km"
  by (fastforce simp: pmm_owned_def free_frames_def blk_frames_def blk_ok_def)

lemma dm_ok_bound:
  assumes "dm_ok s B A D" and "f \<in> D"
  shows "f < 2 ^ 27" and "of_nat f \<notin> vtables s" and "unat (of_nat f :: u64) = f"
proof -
  have "f \<in> free_frames A" using assms by (auto simp: dm_ok_def)
  then show b: "f < 2 ^ 27" using owned_bound assms(1) by (fastforce simp: dm_ok_def vm_ok_def)
  then show u: "unat (of_nat f :: u64) = f" by (simp add: unat_of_nat)
  show "of_nat f \<notin> vtables s"
    using \<open>f \<in> free_frames A\<close> assms(1) u by (auto simp: dm_ok_def vm_ok_def)
qed

lemma dm_walk:
  assumes "dm_ok s B A D" and "dm_at va x" and "x div 4096 \<in> D"
  shows "vwalk s va = Some (of_nat (x div 4096))"
proof -
  have "x div 4096 < 2 ^ 27" by (rule dm_ok_bound(1) [OF assms(1,3)])
  then show ?thesis using assms dm_at_canonical [OF assms(2)] dm_at_vpn [OF assms(2)] by (simp add: walk_tab dm_ok_def)
qed

lemma dm_read:
  "dm_ok s B A D \<Longrightarrow> dm_at va x \<Longrightarrow> x div 4096 \<in> D \<Longrightarrow> vread va s = Inr (pword s x, s)"
  by (simp add: vread_def dm_walk dm_at_index pword_def)

lemma data_write_dm:
  assumes w: "data_write F s s'" and dj: "F \<inter> vtables s = {}" and ok: "dm_ok s B A D"
  shows "dm_ok s' B A D"
proof -
  have "vtab s' 4 (dm_page f) = vtab s 4 (dm_page f)" if "f < 2 ^ 27" for f
    by (rule data_write_tab [OF w dj]) (use dm_nonrec [of f] that in simp_all)
  then show ?thesis using ok w data_write_ok [OF w dj dm_ok_vm [OF ok]] by (simp add: dm_ok_def data_write_def)
qed

abbreviation dm_set :: "nat set \<Rightarrow> u64 set" where
  "dm_set D \<equiv> of_nat ` D"

lemma dm_set_tables: "dm_ok s B A D \<Longrightarrow> dm_set D \<inter> vtables s = {}"
  using dm_ok_bound(2) by fastforce

lemma word_addr_eq:
  "x div 4096 < 2 ^ 27 \<Longrightarrow> y div 4096 < 2 ^ 27 \<Longrightarrow>
   ((of_nat (y div 4096) :: u64) = of_nat (x div 4096) \<and> (of_nat (y mod 4096 div 8) :: u64) = of_nat (x mod 4096 div 8)) \<longleftrightarrow>
   y div 8 = x div 8" for x y :: nat
proof -
  assume a: "x div 4096 < 2 ^ 27" "y div 4096 < 2 ^ 27"
  have e: "(of_nat i :: u64) = of_nat j \<longleftrightarrow> i = j" if "i < 2 ^ 27" "j < 2 ^ 27" for i j
    using that by (simp add: word_unat_eq_iff unat_of_nat)
  have "x mod 4096 div 8 < 512" "y mod 4096 div 8 < 512" by (simp_all add: div_less_iff_less_mult)
  then have "((of_nat (y div 4096) :: u64) = of_nat (x div 4096) \<and> (of_nat (y mod 4096 div 8) :: u64) = of_nat (x mod 4096 div 8)) \<longleftrightarrow>
      y div 4096 = x div 4096 \<and> y mod 4096 div 8 = x mod 4096 div 8"
    using a e [of "y div 4096" "x div 4096"] e [of "y mod 4096 div 8" "x mod 4096 div 8"] by simp
  also have "\<dots> \<longleftrightarrow> y div 8 = x div 8"
  proof -
    have d: "z div 4096 = z div 8 div 512" "z mod 4096 div 8 = z div 8 mod 512" for z :: nat
      using div_mod_pow [of z 3 9] by (simp_all add: div_mult2_eq [symmetric])
    have "a div 512 = b div 512 \<and> a mod 512 = b mod 512 \<longleftrightarrow> a = b" for a b :: nat
      using div_mult_mod_eq [of a 512] div_mult_mod_eq [of b 512] by (intro iffI) (linarith, simp)
    then show ?thesis unfolding d .
  qed
  finally show ?thesis .
qed

lemma dm_write:
  assumes ok: "dm_ok s B A D" and at: "dm_at va x" and x: "x div 4096 \<in> D"
  shows "\<exists>s'. vwrite va v s = Inr ((), s') \<and> data_write (dm_set D) s s' \<and> dm_ok s' B A D \<and>
    (\<forall>y. y div 4096 < 2 ^ 27 \<longrightarrow> pword s' y = (if y div 8 = x div 8 then v else pword s y))"
proof -
  let ?f = "of_nat (x div 4096) :: u64" and ?i = "of_nat (x mod 4096 div 8) :: u64"
  let ?s = "s\<lparr>vm_pm := set_word ?f ?i v (vm_pm s)\<rparr>"
  have "vwrite va v s = Inr ((), ?s)" by (simp add: vwrite_def dm_walk [OF ok at x] dm_at_index [OF at])
  moreover have w: "data_write (dm_set D) s ?s" using x by (auto simp: data_write_def)
  moreover have "dm_ok ?s B A D" by (rule data_write_dm [OF w dm_set_tables [OF ok] ok])
  moreover have "pword ?s y = (if y div 8 = x div 8 then v else pword s y)" if "y div 4096 < 2 ^ 27" for y
    using word_addr_eq [OF dm_ok_bound(1) [OF ok x] that] by (auto simp: pword_def)
  ultimately show ?thesis by blast
qed

lemma dm_zero_page:
  assumes ok: "dm_ok s B A D" and at: "dm_at va (f * 4096)" and f: "f \<in> D"
  shows "\<exists>s'. vzero_page va s = Inr ((), s') \<and> data_write (dm_set D) s s' \<and> dm_ok s' B A D \<and>
    (\<forall>y. y div 4096 < 2 ^ 27 \<longrightarrow> pword s' y = (if y div 4096 = f then 0 else pword s y))"
proof -
  let ?s = "s\<lparr>vm_pm := (vm_pm s)(of_nat f := (\<lambda>_. 0))\<rparr>"
  have "vzero_page va s = Inr ((), ?s)" using dm_walk [OF ok at] f by (simp add: vzero_page_def)
  moreover have w: "data_write (dm_set D) s ?s" using f by (auto simp: data_write_def)
  moreover have "dm_ok ?s B A D" by (rule data_write_dm [OF w dm_set_tables [OF ok] ok])
  moreover have "pword ?s y = (if y div 4096 = f then 0 else pword s y)" if "y div 4096 < 2 ^ 27" for y
  proof -
    have "(of_nat (y div 4096) :: u64) = of_nat f \<longleftrightarrow> y div 4096 = f"
      using that dm_ok_bound(1,3) [OF ok f] by (simp add: word_unat_eq_iff unat_of_nat)
    then show ?thesis by (auto simp: pword_def)
  qed
  ultimately show ?thesis by blast
qed

section \<open>Allocating pages of the direct mapping\<close>

lemma vm_ok_alloc_block:
  assumes ok: "vm_ok s B A" and n: "n \<noteq> 0" and pj: "(p, j) \<in> B" "unat n \<le> 2 ^ j"
  obtains pfn km B' where "vm_pmm_alloc n s = Inr (pfn, s\<lparr>vm_kmem := km\<rparr>)"
    and "blk_frames (unat pfn, order_for n) \<subseteq> free_frames B"
    and "free_frames B' = free_frames B - blk_frames (unat pfn, order_for n)"
    and "vm_ok (s\<lparr>vm_kmem := km\<rparr>) B' (insert (unat pfn, order_for n) A)" and "pt_frame s B (s\<lparr>vm_kmem := km\<rparr>) B'"
    and "unat pfn + 2 ^ order_for n \<le> nframes (vm_kmem s)" and "nframes km = nframes (vm_kmem s)" and "unat n \<le> 2 ^ order_for n"
proof -
  have b: "buddy_inv (vm_kmem s) B" and nf: "nframes (vm_kmem s) \<le> 2 ^ 36" using ok by (auto simp: vm_ok_def pt_inv_def)
  from pmm_alloc_pages_succeeds [OF b n pj] obtain pfn km where run: "pmm_alloc_pages n (vm_kmem s) = (Inr pfn, km)" by auto
  from pmm_alloc_pages_Inr [OF b n run] obtain B' where
    a: "alloc_ok (vm_kmem s) B (order_for n) (unat pfn) km B'" and le: "unat n \<le> 2 ^ order_for n" by auto
  let ?b = "(unat pfn, order_for n)" and ?s = "s\<lparr>vm_kmem := km\<rparr>"
  have al: "buddy_inv km B'" "blk_ok (nframes (vm_kmem s)) ?b" "blk_frames ?b \<subseteq> free_frames B"
    "free_frames B' = free_frames B - blk_frames ?b" "porder (pfn_database km (unat pfn)) = of_nat (order_for n)"
    "db_same (free_frames B) (vm_kmem s) km" using a by (auto simp: alloc_ok_def)
  have nf': "nframes km = nframes (vm_kmem s)" by (rule db_same_nframes [OF al(6)])
  have "pmm_owned km A" by (rule pmm_owned_db_same [OF _ al(6)]) (use ok in \<open>auto simp: vm_ok_def\<close>)
  then have own: "pmm_owned km (insert ?b A)"
    by (rule pmm_owned_insert) (use al nf' ok in \<open>auto simp: vm_ok_def\<close>)
  have inv': "pt_inv ?s B'" using ok al nf nf' by (auto simp: vm_ok_def pt_inv_def)
  have "free_frames (insert ?b A) = blk_frames ?b \<union> free_frames A" by (simp add: free_frames_def)
  then have "vm_ok ?s B' (insert ?b A)"
    using ok own inv' al(3,4) by (auto simp: vm_ok_def pt_inv_def)
  moreover have "pt_frame s B ?s B'" using al by (auto simp: pt_frame_def)
  moreover have "unat pfn + 2 ^ order_for n \<le> nframes (vm_kmem s)" using al(2) by (simp add: blk_ok_def)
  ultimately show ?thesis using that run al(3,4) nf' le by (simp add: vm_pmm_alloc_def)
qed

lemma dm_at_frame: "f < 2 ^ 27 \<Longrightarrow> dm_at (MI_DIRECT_MAPPING_RANGE_START + push_bit 12 (of_nat f)) (f * 4096)"
proof -
  assume f: "f < 2 ^ 27"
  have "unat (of_nat (f * 4096) :: u64) = f * 4096" using f by (simp only: unat_of_nat) simp
  moreover have "push_bit 12 (of_nat f :: u64) = of_nat (f * 4096)" by (simp add: push_bit_eq_mult)
  ultimately show ?thesis using f dm_at_add [of MI_DIRECT_MAPPING_RANGE_START 0 "push_bit 12 (of_nat f)"]
    by (simp add: dm_at_def)
qed

text \<open>The most frames a request for \<open>n\<close> pages takes, tables included; and that it can be met: a large enough
  block is free, and enough frames besides for the tables.\<close>

definition grow_cost :: "u64 \<Rightarrow> nat" where
  "grow_cost n = 2 ^ order_for n + need_tables n"

definition pages_ready :: "blk set \<Rightarrow> u64 \<Rightarrow> bool" where
  "pages_ready B n \<longleftrightarrow> n \<noteq> 0 \<and> (\<exists>(p, j) \<in> B. unat n \<le> 2 ^ j) \<and> grow_cost n \<le> card (free_frames B)"

lemma vmm_alloc_pages_spec:
  assumes ok: "dm_ok s B A D" and n: "pages_ready B n"
  shows "\<exists>f s' B'. vmm_alloc_pages n s = Inr (MI_DIRECT_MAPPING_RANGE_START + push_bit 12 (of_nat f), s') \<and>
    dm_ok s' B' (insert (f, order_for n) A) (D \<union> {f..<f + unat n}) \<and> pt_frame s B s' B' \<and>
    blk_frames (f, order_for n) \<subseteq> free_frames B \<and> f + unat n \<le> 2 ^ 27 \<and> unat n \<le> 2 ^ order_for n \<and>
    card (free_frames B) \<le> grow_cost n + card (free_frames B') \<and>
    (\<forall>k. nonrec 4 k \<longrightarrow> \<not> (dm_page f \<le> k \<and> k < dm_page f + unat n) \<longrightarrow> vtab s' 4 k = vtab s 4 k)"
proof -
  note vok = dm_ok_vm [OF ok]
  obtain p j where pj: "(p, j) \<in> B" "unat n \<le> 2 ^ j" and n0: "n \<noteq> 0"
    and mem: "2 ^ order_for n + need_tables n \<le> card (free_frames B)" using n by (auto simp: pages_ready_def grow_cost_def)
  from vm_ok_alloc_block [OF vok n0 pj] obtain pfn km B1 where
    al: "vm_pmm_alloc n s = Inr (pfn, s\<lparr>vm_kmem := km\<rparr>)" "blk_frames (unat pfn, order_for n) \<subseteq> free_frames B"
      "free_frames B1 = free_frames B - blk_frames (unat pfn, order_for n)"
      "vm_ok (s\<lparr>vm_kmem := km\<rparr>) B1 (insert (unat pfn, order_for n) A)" "pt_frame s B (s\<lparr>vm_kmem := km\<rparr>) B1"
      "unat pfn + 2 ^ order_for n \<le> nframes (vm_kmem s)" "nframes km = nframes (vm_kmem s)" "unat n \<le> 2 ^ order_for n" .
  let ?f = "unat pfn" and ?s1 = "s\<lparr>vm_kmem := km\<rparr>" and ?b = "blk_frames (unat pfn, order_for n)"
  let ?va = "MI_DIRECT_MAPPING_RANGE_START + push_bit 12 pfn"
  have nf: "nframes (vm_kmem s) \<le> 2 ^ 27" using ok by (simp add: dm_ok_def)
  have fn: "?f + unat n \<le> 2 ^ 27" using al(6,8) nf by linarith
  have n0': "0 < unat n" using n0 by (simp add: unat_gt_0)
  have f27: "?f < 2 ^ 27" using fn n0' by linarith
  have pf: "of_nat ?f = pfn" by (metis of_nat_unat ucast_id)
  have at: "dm_at ?va (?f * 4096)" using dm_at_frame [OF f27] by (simp only: pf)
  have v: "vpn ?va = dm_page ?f" using dm_at_vpn [OF at] by simp
  have bf: "{?f..<?f + unat n} \<subseteq> ?b" using al(8) by (auto simp: blk_frames_def)
  have free: "?b \<subseteq> free_frames B" by (rule al(2))
  have dj: "free_frames B \<inter> D = {}" using ok by (auto simp: dm_ok_def vm_ok_def)
  have none: "vtab ?s1 4 k = None" if k: "vpn ?va \<le> k" "k < vpn ?va + unat n" for k
  proof -
    define i where "i = k - dm_page ?f"
    have i: "k = dm_page (?f + i)" "i < unat n" using k by (simp_all add: v i_def)
    then have "?f + i \<in> {?f..<?f + unat n}" by simp
    then have "?f + i \<notin> D" using bf free dj by blast
    then show ?thesis using ok i fn by (simp add: dm_ok_def)
  qed
  have nr: "nonrec 4 k" if "vpn ?va \<le> k" "k \<le> vpn ?va + unat n" for k
  proof -
    define i where "i = k - 494 * 512 ^ 3"
    have "k = dm_page i" "i \<le> 2 ^ 27" using that fn by (simp_all add: v i_def)
    then show ?thesis using dm_nonrec by simp
  qed
  have fin: "finite (free_frames B)" by (rule finite_free [OF vm_ok_inv [OF vok]])
  have cb: "card ?b = 2 ^ order_for n" by (simp add: blk_frames_def)
  have "card ?b \<le> card (free_frames B)" by (rule card_mono [OF fin free])
  then have c1: "card (free_frames B) = 2 ^ order_for n + card (free_frames B1)"
    using al(3) card_Diff_subset [OF finite_subset [OF free fin] free] cb by simp
  then have mem1: "need_tables n \<le> card (free_frames B1)" using mem by simp
  have n20: "unat n < 2 ^ 20"
  proof -
    have "order_for n \<le> 10" using al(4) by (auto simp: vm_ok_def pmm_owned_def blk_ok_def MM_MAX_ORDER_def)
    then have "2 ^ order_for n \<le> (2 ^ 10 :: nat)" by (rule power_increasing) simp
    then show ?thesis using al(8) by simp
  qed
  have dp: "drop_bit 12 (push_bit 12 pfn) = pfn" by (rule drop_push_12) (use f27 in simp)
  have "\<exists>s' B'. ptm_map_pages ?va (push_bit 12 pfn) n VMM_FLAGS_DEFAULT ?s1 = Inr ((), s') \<and> pt_inv s' B' \<and> pt_frame ?s1 B1 s' B' \<and>
     held s' B' = held ?s1 B1 \<and>
    (\<forall>k. nonrec 4 k \<longrightarrow> vtab s' 4 k = (if vpn ?va \<le> k \<and> k < vpn ?va + unat n
       then Some (drop_bit 12 (push_bit 12 pfn) + of_nat (k - vpn ?va)) else vtab ?s1 4 k)) \<and>
    card (free_frames B1) \<le> need_tables n + card (free_frames B')"
    by (rule ptm_map_pages_spec [OF vm_ok_inv [OF al(4)] _ n20 _ nr none _ mem1])
      (use fn v dp in \<open>simp_all add: VMM_FLAGS_DEFAULT_def bit_or_iff bit_0\<close>)
  then obtain s' B' where s': "ptm_map_pages ?va (push_bit 12 pfn) n VMM_FLAGS_DEFAULT ?s1 = Inr ((), s')" "pt_inv s' B'"
    "pt_frame ?s1 B1 s' B'"
    "\<forall>k. nonrec 4 k \<longrightarrow> vtab s' 4 k = (if dm_page ?f \<le> k \<and> k < dm_page ?f + unat n
       then Some (pfn + of_nat (k - dm_page ?f)) else vtab s 4 k)"
    "card (free_frames B1) \<le> need_tables n + card (free_frames B')" unfolding v dp by auto
  have c2: "card (free_frames B) \<le> grow_cost n + card (free_frames B')" using c1 s'(5) by (simp add: grow_cost_def)
  have run: "vmm_alloc_pages n s = Inr (?va, s')" using al(1) s'(1) by (simp add: vmm_alloc_pages_def pfn_to_ptr_def Let_def kreturn_def)
  have "vtab s' 4 (dm_page g) = (if g \<in> D \<union> {?f..<?f + unat n} then Some (of_nat g) else None)" if g: "g < 2 ^ 27" for g
  proof -
    have "nonrec 4 (dm_page g)" using dm_nonrec g by simp
    moreover have "pfn + of_nat (g - ?f) = of_nat g" if "?f \<le> g"
      using that pf by (metis le_add_diff_inverse of_nat_add)
    ultimately show ?thesis using s'(4) ok g by (auto simp: dm_ok_def)
  qed
  moreover have "nframes (vm_kmem s') \<le> 2 ^ 27"
    using s'(3) al(7) nf db_same_nframes by (fastforce simp: pt_frame_def)
  moreover have "D \<union> {?f..<?f + unat n} \<subseteq> free_frames (insert (?f, order_for n) A)"
    using ok bf by (auto simp: dm_ok_def free_frames_def)
  ultimately have "dm_ok s' B' (insert (?f, order_for n) A) (D \<union> {?f..<?f + unat n})"
    using vm_ok_frame [OF al(4) s'(2,3)] by (simp add: dm_ok_def)
  then show ?thesis using run pt_frame_trans [OF al(5) s'(3)] free fn al(8) s'(4) c2
    by (intro exI [of _ ?f] exI [of _ s'] exI [of _ B']) (auto simp: pf)
qed

end
