(* ===== verification/Slab.thy ===== *)
theory Slab
  imports DirectMap
begin

text \<open>
  The slab caches of \<^verbatim>\<open>src/kernel/src/mm/vmm.c\<close>.  A slab is a block of pages of the direct mapping that begins with a
  header and is otherwise divided into objects of one size; the free objects are linked through their
  first words, which are read and written through the page tables.  Headers and caches are kept in
  typed heaps, the lists of slabs and of caches as lists of addresses.
\<close>

section \<open>State\<close>

record slab =
  sl_mem :: u64
  sl_size :: u32
  sl_free_objects :: u32
  sl_free_list :: u64

record slab_cache =
  sc_name :: string
  sc_slabs :: "u64 list"
  sc_obj_size :: u64
  sc_free_objects :: u32
  sc_total_objects :: u32
  sc_nr_pages :: u32
  sc_total_pages :: u32

text \<open>The cache of caches is a variable of its own; every other cache is an object of it.\<close>

datatype cache_ref = MetaCache | CacheAt u64

record kheap =
  kh_vm :: vm
  kh_slab :: "u64 \<Rightarrow> slab option"
  kh_cache :: "cache_ref \<Rightarrow> slab_cache option"
  cache_cache_head :: "u64 list"

definition sizeof_slab_t :: u64 where "sizeof_slab_t = 40"
definition sizeof_slab_cache_t :: u64 where "sizeof_slab_cache_t = 112"
definition SLAB_META_CACHE_NRPAGES :: u32 where "SLAB_META_CACHE_NRPAGES = 2"
definition SLAB_ALLOC_MAX_SIZE :: u64 where "SLAB_ALLOC_MAX_SIZE = 8192"

definition slab_size_list :: "(string \<times> u32 \<times> u32) list" where
  "slab_size_list =
    [(''kmalloc-8'', 8, 1), (''kmalloc-16'', 16, 1), (''kmalloc-32'', 32, 1), (''kmalloc-64'', 64, 1),
     (''kmalloc-128'', 128, 2), (''kmalloc-256'', 256, 2), (''kmalloc-512'', 512, 2), (''kmalloc-1k'', 1024, 4),
     (''kmalloc-2k'', 2048, 4), (''kmalloc-4k'', 4096, 4), (''kmalloc-8k'', 8192, 4)]"

definition on_vm :: "(vm, 'a) km \<Rightarrow> (kheap, 'a) km" where
  "on_vm m s = (case m (kh_vm s) of Inl e \<Rightarrow> Inl e | Inr (x, v) \<Rightarrow> Inr (x, s\<lparr>kh_vm := v\<rparr>))"

definition slab_at :: "u64 \<Rightarrow> (kheap, slab) km" where
  "slab_at a s = (case kh_slab s a of None \<Rightarrow> Inl NullDeref | Some h \<Rightarrow> Inr (h, s))"

definition slab_put :: "u64 \<Rightarrow> slab \<Rightarrow> (kheap, unit) km" where
  "slab_put a h = kmodify (\<lambda>s. s\<lparr>kh_slab := (kh_slab s)(a \<mapsto> h)\<rparr>)"

definition cache_at :: "cache_ref \<Rightarrow> (kheap, slab_cache) km" where
  "cache_at c s = (case kh_cache s c of None \<Rightarrow> Inl NullDeref | Some k \<Rightarrow> Inr (k, s))"

definition cache_put :: "cache_ref \<Rightarrow> slab_cache \<Rightarrow> (kheap, unit) km" where
  "cache_put c k = kmodify (\<lambda>s. s\<lparr>kh_cache := (kh_cache s)(c \<mapsto> k)\<rparr>)"

section \<open>Slabs\<close>

text \<open>The loop of \<^verbatim>\<open>slab_create\<close> over \<^verbatim>\<open>i\<close>, with \<^verbatim>\<open>curr_entry\<close> as its variable.\<close>

fun slab_link :: "u64 \<Rightarrow> u64 \<Rightarrow> nat list \<Rightarrow> u64 \<Rightarrow> (vm, unit) km" where
  "slab_link obj_start osz [] curr_entry = kreturn ()"
| "slab_link obj_start osz (i # is) curr_entry =
     (let slab_entry = obj_start + of_nat i * osz
      in kbind (vwrite curr_entry slab_entry) (\<lambda>_.
         kbind (vread curr_entry) (\<lambda>curr_entry. slab_link obj_start osz is curr_entry)))"

definition slab_create :: "u32 \<Rightarrow> u32 \<Rightarrow> (kheap, u64 \<times> u32) km" where
  "slab_create nr osz =
     kbind (on_vm (vmm_alloc_pages (ucast nr))) (\<lambda>slab_start.
       if slab_start = 0 then kreturn (0, 0)
       else
         let slab_bytes = ucast (nr * 4096) :: u64;
             obj_count = ucast ((slab_bytes - sizeof_slab_t) div ucast osz) :: u32;
             obj_start = slab_start + sizeof_slab_t
         in kbind (on_vm (kforeach (\<lambda>i. vzero_page (slab_start + of_nat i * 4096)) [0..<unat slab_bytes div 4096])) (\<lambda>_.
            kbind (on_vm (slab_link obj_start (ucast osz) [1..<unat obj_count] obj_start)) (\<lambda>_.
            kbind (slab_put slab_start \<lparr>sl_mem = obj_start, sl_size = ucast slab_bytes, sl_free_objects = obj_count,
                                       sl_free_list = obj_start\<rparr>) (\<lambda>_.
            kreturn (slab_start, obj_count)))))"

section \<open>Caches\<close>

definition slab_cache_init :: "cache_ref \<Rightarrow> string \<Rightarrow> u32 \<Rightarrow> u32 \<Rightarrow> (kheap, unit) km" where
  "slab_cache_init c name osz nr =
     cache_put c \<lparr>sc_name = name, sc_slabs = [], sc_obj_size = ucast osz, sc_free_objects = 0,
                  sc_total_objects = 0, sc_nr_pages = nr, sc_total_pages = 0\<rparr>"

definition slab_cache_growth :: "cache_ref \<Rightarrow> (kheap, unit) km" where
  "slab_cache_growth c =
     kbind (cache_at c) (\<lambda>k.
     kbind (slab_create (sc_nr_pages k) (ucast (sc_obj_size k))) (\<lambda>(growth_slab, obj_count).
       if growth_slab = 0 then kreturn ()
       else kbind (cache_at c) (\<lambda>k.
            cache_put c (k\<lparr>sc_slabs := growth_slab # sc_slabs k,
                           sc_free_objects := sc_free_objects k + obj_count,
                           sc_total_objects := sc_total_objects k + obj_count,
                           sc_total_pages := sc_total_pages k + sc_nr_pages k\<rparr>))))"

text \<open>The loop of \<^verbatim>\<open>slab_cache_alloc\<close> over the slabs.\<close>

fun slab_take :: "cache_ref \<Rightarrow> u64 list \<Rightarrow> (kheap, u64) km" where
  "slab_take c [] = kreturn 0"
| "slab_take c (a # as) =
     kbind (slab_at a) (\<lambda>h.
       if 0 < sl_free_objects h
       then let free_object = sl_free_list h
            in kbind (on_vm (vread free_object)) (\<lambda>nxt.
               kbind (slab_put a (h\<lparr>sl_free_list := nxt, sl_free_objects := sl_free_objects h - 1\<rparr>)) (\<lambda>_.
               kbind (cache_at c) (\<lambda>k.
               kbind (cache_put c (k\<lparr>sc_free_objects := sc_free_objects k - 1\<rparr>)) (\<lambda>_.
               kbind (on_vm (vwrite free_object 0)) (\<lambda>_. kreturn free_object)))))
       else slab_take c as)"

definition slab_cache_alloc :: "cache_ref \<Rightarrow> u64 \<Rightarrow> (kheap, u64) km" where
  "slab_cache_alloc c size_of_bytes =
     kbind (cache_at c) (\<lambda>k.
       if sc_obj_size k < size_of_bytes then kreturn 0
       else kbind (if sc_free_objects k = 0 then slab_cache_growth c else kreturn ()) (\<lambda>_.
            kbind (cache_at c) (\<lambda>k. slab_take c (sc_slabs k))))"

text \<open>The loop of \<^verbatim>\<open>slab_cache_free\<close>.\<close>

fun slab_give :: "cache_ref \<Rightarrow> u64 \<Rightarrow> u64 list \<Rightarrow> (kheap, bool) km" where
  "slab_give c ptr [] = kreturn False"
| "slab_give c ptr (a # as) =
     kbind (slab_at a) (\<lambda>h.
       let range_start = sl_mem h;
           range_end = sl_mem h + ucast (sl_size h)
       in if range_start \<le> ptr \<and> ptr < range_end
          then kbind (on_vm (vwrite ptr (sl_free_list h))) (\<lambda>_.
               kbind (slab_put a (h\<lparr>sl_free_list := ptr, sl_free_objects := sl_free_objects h + 1\<rparr>)) (\<lambda>_.
               kbind (cache_at c) (\<lambda>k.
               kbind (cache_put c (k\<lparr>sc_free_objects := sc_free_objects k + 1\<rparr>)) (\<lambda>_. kreturn True))))
          else slab_give c ptr as)"

definition slab_cache_free :: "cache_ref \<Rightarrow> u64 \<Rightarrow> (kheap, bool) km" where
  "slab_cache_free c ptr = kbind (cache_at c) (\<lambda>k. slab_give c ptr (sc_slabs k))"

definition slab_cache_create_cache :: "string \<Rightarrow> u32 \<Rightarrow> u32 \<Rightarrow> (kheap, u64) km" where
  "slab_cache_create_cache name osz nr =
     kbind (slab_cache_alloc MetaCache sizeof_slab_cache_t) (\<lambda>slab_cache.
       if slab_cache = 0 then kreturn 0
       else kbind (slab_cache_init (CacheAt slab_cache) name osz nr) (\<lambda>_. kreturn slab_cache))"

section \<open>The allocator\<close>

fun slab_alloc_from :: "u64 \<Rightarrow> u64 list \<Rightarrow> (kheap, u64) km" where
  "slab_alloc_from sz [] = kreturn 0"
| "slab_alloc_from sz (c # cs) =
     kbind (cache_at (CacheAt c)) (\<lambda>k.
       if sz \<le> sc_obj_size k then slab_cache_alloc (CacheAt c) sz else slab_alloc_from sz cs)"

definition slab_alloc :: "u64 \<Rightarrow> (kheap, u64) km" where
  "slab_alloc sz = kbind (kget cache_cache_head) (\<lambda>cs. slab_alloc_from sz cs)"

fun slab_free_from :: "u64 \<Rightarrow> u64 list \<Rightarrow> (kheap, bool) km" where
  "slab_free_from ptr [] = kreturn False"
| "slab_free_from ptr (c # cs) =
     kbind (slab_cache_free (CacheAt c) ptr) (\<lambda>is_slab. if is_slab then kreturn True else slab_free_from ptr cs)"

definition slab_free :: "u64 \<Rightarrow> (kheap, bool) km" where
  "slab_free ptr = kbind (kget cache_cache_head) (\<lambda>cs. slab_free_from ptr cs)"

definition slab_init_cache :: "string \<times> u32 \<times> u32 \<Rightarrow> (kheap, unit) km" where
  "slab_init_cache e = (case e of (name, osz, nr) \<Rightarrow>
     kbind (slab_cache_create_cache name osz nr) (\<lambda>slab_cache.
     kbind (slab_cache_growth (CacheAt slab_cache)) (\<lambda>_.
     kmodify (\<lambda>s. s\<lparr>cache_cache_head := cache_cache_head s @ [slab_cache]\<rparr>))))"

definition slab_init :: "(kheap, unit) km" where
  "slab_init =
     kbind (slab_cache_init MetaCache ''slab_meta_cahce'' (ucast sizeof_slab_cache_t) SLAB_META_CACHE_NRPAGES) (\<lambda>_.
     kbind (slab_cache_growth MetaCache) (\<lambda>_.
     kbind (kmodify (\<lambda>s. s\<lparr>cache_cache_head := []\<rparr>)) (\<lambda>_.
     kforeach slab_init_cache slab_size_list)))"

end
