(* ===== verification/SlabInv.thy ===== *)
theory SlabInv
  imports Slab
begin

text \<open>
  The invariant of the slab caches: in each slab the objects lie behind the header and inside its pages, the
  free list visits each free object once, and the counters agree with it.
\<close>

section \<open>Geometry of a slab\<close>

definition slab_addr :: "nat \<Rightarrow> u64" where
  "slab_addr f = MI_DIRECT_MAPPING_RANGE_START + push_bit 12 (of_nat f)"

text \<open>The number of objects of \<open>z\<close> bytes in a slab of \<open>n\<close> pages, and the physical address of object \<open>i\<close> of the slab
  that begins at frame \<open>f\<close>.\<close>

definition nobj :: "nat \<Rightarrow> nat \<Rightarrow> nat" where
  "nobj n z = (n * 4096 - 40) div z"

definition ob :: "nat \<Rightarrow> nat \<Rightarrow> nat \<Rightarrow> nat" where
  "ob f z i = f * 4096 + 40 + i * z"

lemma ob_end: "i < nobj n z \<Longrightarrow> ob f z i + z \<le> (f + n) * 4096"
proof -
  assume i: "i < nobj n z"
  then have z: "0 < z" and n: "40 \<le> n * 4096" by (auto simp: nobj_def intro: ccontr)
  have "Suc i * z \<le> nobj n z * z" using i by (intro mult_le_mono1) simp
  also have "\<dots> \<le> n * 4096 - 40" by (simp add: nobj_def)
  finally show ?thesis using n by (simp add: ob_def distrib_right)
qed

lemma ob_frame: "i < nobj n z \<Longrightarrow> j < z \<Longrightarrow> (ob f z i + j) div 4096 \<in> {f..<f + n}"
proof -
  assume i: "i < nobj n z" and j: "j < z"
  have "ob f z i + j < (f + n) * 4096" using ob_end [OF i, of f] j by linarith
  then have "(ob f z i + j) div 4096 < f + n" by (simp add: div_less_iff_less_mult)
  moreover have "f * 4096 \<le> ob f z i + j" by (simp add: ob_def)
  then have "f \<le> (ob f z i + j) div 4096" by (simp add: less_eq_div_iff_mult_less_eq)
  ultimately show ?thesis by simp
qed

lemma ob_frame0: "i < nobj n z \<Longrightarrow> ob f z i div 4096 \<in> {f..<f + n}"
  using ob_frame [of i n z 0 f] by (cases z) (simp_all add: nobj_def)

lemma ob_apart:
  assumes "i \<noteq> i'" and "a < z" and "b < z"
  shows "ob f z i + a \<noteq> ob f z i' + b"
proof -
  have "i * z + z \<le> i' * z" if "i < i'" for i i' :: nat
    using mult_le_mono1 [of "Suc i" i' z] that by simp
  from this [of i i'] this [of i' i] show ?thesis using assms by (cases "i < i'") (auto simp: ob_def)
qed

lemma ob_word: "8 dvd z \<Longrightarrow> 8 dvd ob f z i"
  by (simp add: ob_def dvd_add)

lemma word_eq: "8 dvd x \<Longrightarrow> 8 dvd y \<Longrightarrow> x div 8 = y div 8 \<longleftrightarrow> x = y" for x y :: nat
  by auto

lemma word_page: "x div 8 = y div 8 \<Longrightarrow> x div 4096 = y div 4096" for x y :: nat
proof -
  assume "x div 8 = y div 8"
  then have "x div 8 div 512 = y div 8 div 512" by simp
  then show ?thesis by (simp add: div_mult2_eq [symmetric])
qed

lemma slab_addr_at: "f < 2 ^ 27 \<Longrightarrow> dm_at (slab_addr f) (f * 4096)"
  unfolding slab_addr_def by (rule dm_at_frame)

lemma obj_at:
  assumes a: "dm_at a (ob f z 0)" and z: "unat osz = z" and x: "ob f z i < 2 ^ 39"
  shows "dm_at (a + of_nat i * osz) (ob f z i)"
proof -
  have e: "of_nat i * osz = of_nat (i * z)" using z by (metis of_nat_mult of_nat_unat ucast_id)
  have "i * z < 2 ^ 39" using x by (simp add: ob_def)
  then have u: "unat (of_nat (i * z) :: u64) = i * z" by (simp only: unat_of_nat) simp
  have "ob f z 0 + i * z = ob f z i" by (simp add: ob_def)
  then show ?thesis using dm_at_add [OF a, of "of_nat i * osz"] x unfolding e u by simp
qed

section \<open>What the allocator leaves alone\<close>

text \<open>Frames that are in use, are not tables and are not frames \<open>D\<close> of the direct mapping keep their contents,
  and addresses outside the direct mapping their translation.\<close>

definition heap_frame :: "nat set \<Rightarrow> vm \<Rightarrow> blk set \<Rightarrow> vm \<Rightarrow> blk set \<Rightarrow> bool" where
  "heap_frame D s B s' B' \<longleftrightarrow> vm_cr3 s' = vm_cr3 s \<and> free_frames B' \<subseteq> free_frames B \<and>
     db_same (free_frames B) (vm_kmem s) (vm_kmem s') \<and>
     vtables s' \<subseteq> vtables s \<union> {f. unat f \<in> free_frames B} \<and>
     (\<forall>f. unat f \<notin> free_frames B \<longrightarrow> f \<notin> vtables s \<longrightarrow> unat f \<notin> D \<longrightarrow> vm_pm s' f = vm_pm s f) \<and>
     (\<forall>k. nonrec 4 k \<longrightarrow> \<not> (dm_page 0 \<le> k \<and> k < dm_page (2 ^ 27)) \<longrightarrow> vtab s' 4 k = vtab s 4 k)"

lemma heap_frame_refl: "heap_frame D s B s B"
  by (simp add: heap_frame_def)

lemma heap_frame_trans:
  assumes 1: "heap_frame D s B s1 B1" and 2: "heap_frame D1 s1 B1 s2 B2" and D: "D1 \<subseteq> D \<union> free_frames B"
  shows "heap_frame D s B s2 B2"
proof -
  have "db_same (free_frames B) (vm_kmem s) (vm_kmem s2)"
    by (rule db_same_trans [of "free_frames B" _ "vm_kmem s1" "free_frames B1"]) (use 1 2 in \<open>auto simp: heap_frame_def\<close>)
  moreover have "vm_pm s2 f = vm_pm s f" if "unat f \<notin> free_frames B" "f \<notin> vtables s" "unat f \<notin> D" for f
  proof -
    have "unat f \<notin> free_frames B1" "f \<notin> vtables s1" "unat f \<notin> D1" using 1 D that by (auto simp: heap_frame_def)
    then show ?thesis using that 1 2 by (auto simp: heap_frame_def)
  qed
  moreover have "vtables s2 \<subseteq> vtables s \<union> {f. unat f \<in> free_frames B}" using 1 2 unfolding heap_frame_def by blast
  ultimately show ?thesis using 1 2 unfolding heap_frame_def by auto
qed

lemma heap_frame_mono: "heap_frame D s B s' B' \<Longrightarrow> D \<subseteq> D' \<Longrightarrow> heap_frame D' s B s' B'"
  by (auto simp: heap_frame_def)

lemma data_write_heap_frame:
  assumes w: "data_write (dm_set D) s s'" and ok: "dm_ok s B A D"
  shows "heap_frame D s B s' B"
proof -
  note dj = dm_set_tables [OF ok]
  have "vm_pm s' f = vm_pm s f" if "unat f \<notin> D" for f
  proof -
    have "f \<notin> dm_set D" using that dm_ok_bound(3) [OF ok] by auto
    then show ?thesis using w by (simp add: data_write_def)
  qed
  moreover have "vtab s' 4 k = vtab s 4 k" if "nonrec 4 k" for k
    by (rule data_write_tab [OF w dj]) (use that in simp_all)
  ultimately show ?thesis using w data_write_tables [OF w dj] by (auto simp: heap_frame_def data_write_def)
qed

lemma dm_free_disj: "dm_ok s B A D \<Longrightarrow> D \<inter> free_frames B = {}"
  by (auto simp: dm_ok_def vm_ok_def)

lemma heap_frame_word:
  assumes fr: "pt_frame s B s' B'" and ok: "dm_ok s B A D" and x: "x div 4096 \<in> D"
  shows "pword s' x = pword s x"
proof -
  have "x div 4096 \<in> free_frames A" using ok x by (auto simp: dm_ok_def)
  then have "x div 4096 \<notin> free_frames B" using ok by (auto simp: dm_ok_def vm_ok_def)
  then have "vm_pm s' (of_nat (x div 4096)) = vm_pm s (of_nat (x div 4096))"
    using fr dm_ok_bound(2,3) [OF ok x] by (simp add: pt_frame_def)
  then show ?thesis by (simp add: pword_def)
qed

section \<open>A new slab\<close>

fun free_chain :: "vm \<Rightarrow> nat \<Rightarrow> nat \<Rightarrow> u64 \<Rightarrow> nat list \<Rightarrow> bool" where
  "free_chain v f z p [] \<longleftrightarrow> p = 0"
| "free_chain v f z p (i # is) \<longleftrightarrow> dm_at p (ob f z i) \<and> free_chain v f z (pword v (ob f z i)) is"

lemma free_chain_cong:
  "(\<And>i. i \<in> set is \<Longrightarrow> pword v' (ob f z i) = pword v (ob f z i)) \<Longrightarrow> free_chain v' f z p is = free_chain v f z p is"
  by (induction "is" arbitrary: p) auto

definition slab_ok :: "vm \<Rightarrow> nat set \<Rightarrow> nat \<Rightarrow> nat \<Rightarrow> nat \<Rightarrow> slab \<Rightarrow> nat list \<Rightarrow> bool" where
  "slab_ok v D n z f h xs \<longleftrightarrow> {f..<f + n} \<subseteq> D \<and> dm_at (sl_mem h) (ob f z 0) \<and> unat (sl_size h) = n * 4096 \<and>
     distinct xs \<and> set xs \<subseteq> {..<nobj n z} \<and> unat (sl_free_objects h) = length xs \<and> free_chain v f z (sl_free_list h) xs"

lemma slab_link_spec:
  assumes ok: "dm_ok v B A D" and D: "{f..<f + n} \<subseteq> D" and z: "unat osz = z" "8 dvd z"
    and a: "dm_at a (ob f z 0)" and m: "m \<le> nobj n z" and j: "0 < j" and c: "c = a + of_nat (j - 1) * osz"
  shows "\<exists>v'. slab_link a osz [j..<m] c v = Inr ((), v') \<and> dm_ok v' B A D \<and> data_write (dm_set D) v v' \<and>
    (\<forall>i. j \<le> Suc i \<longrightarrow> Suc i < m \<longrightarrow> pword v' (ob f z i) = a + of_nat (Suc i) * osz) \<and>
    (\<forall>y. y div 4096 < 2 ^ 27 \<longrightarrow> (\<forall>i. j \<le> Suc i \<longrightarrow> Suc i < m \<longrightarrow> y div 8 \<noteq> ob f z i div 8) \<longrightarrow> pword v' y = pword v y)"
  using ok j c
proof (induction "m - j" arbitrary: j c v)
  case 0
  then show ?case by (auto intro: data_write_refl simp: kreturn_def)
next
  case (Suc l)
  let ?x = "ob f z (j - 1)"
  have jm: "j < m" using Suc.hyps(2) by simp
  have lt: "j - 1 < nobj n z" using jm m Suc.prems(2) by simp
  have fr: "?x div 4096 \<in> D" using ob_frame0 [OF lt] D by blast
  have b27: "?x div 4096 < 2 ^ 27" by (rule dm_ok_bound(1) [OF ok fr])
  then have "?x < 2 ^ 39" by (simp add: div_less_iff_less_mult)
  then have at: "dm_at c ?x" unfolding Suc.prems(3) by (rule obj_at [OF a z(1)])
  from dm_write [OF Suc.prems(1) at fr, of "a + of_nat j * osz"] obtain v1 where
    v1: "vwrite c (a + of_nat j * osz) v = Inr ((), v1)" "data_write (dm_set D) v v1" "dm_ok v1 B A D"
      "\<forall>y. y div 4096 < 2 ^ 27 \<longrightarrow> pword v1 y = (if y div 8 = ?x div 8 then a + of_nat j * osz else pword v y)" by blast
  have rd: "vread c v1 = Inr (a + of_nat j * osz, v1)" using dm_read [OF v1(3) at fr] v1(4) b27 by simp
  have "\<exists>v'. slab_link a osz [Suc j..<m] (a + of_nat j * osz) v1 = Inr ((), v') \<and> dm_ok v' B A D \<and> data_write (dm_set D) v1 v' \<and>
    (\<forall>i. Suc j \<le> Suc i \<longrightarrow> Suc i < m \<longrightarrow> pword v' (ob f z i) = a + of_nat (Suc i) * osz) \<and>
    (\<forall>y. y div 4096 < 2 ^ 27 \<longrightarrow> (\<forall>i. Suc j \<le> Suc i \<longrightarrow> Suc i < m \<longrightarrow> y div 8 \<noteq> ob f z i div 8) \<longrightarrow> pword v' y = pword v1 y)"
    by (rule Suc.hyps(1)) (use Suc.hyps(2) v1(3) in simp_all)
  then obtain v' where v': "slab_link a osz [Suc j..<m] (a + of_nat j * osz) v1 = Inr ((), v')" "dm_ok v' B A D"
    "data_write (dm_set D) v1 v'" "\<forall>i. Suc j \<le> Suc i \<longrightarrow> Suc i < m \<longrightarrow> pword v' (ob f z i) = a + of_nat (Suc i) * osz"
    "\<forall>y. y div 4096 < 2 ^ 27 \<longrightarrow> (\<forall>i. Suc j \<le> Suc i \<longrightarrow> Suc i < m \<longrightarrow> y div 8 \<noteq> ob f z i div 8) \<longrightarrow> pword v' y = pword v1 y" by blast
  have run: "slab_link a osz [j..<m] c v = Inr ((), v')" using v1(1) rd v'(1) jm by (simp add: upt_conv_Cons)
  have zp: "0 < z" using lt by (auto simp: nobj_def intro: ccontr)
  have ne: "?x div 8 \<noteq> ob f z i div 8" if "j \<le> i" for i
    using ob_apart [of "j - 1" i 0 z 0 f] that Suc.prems(2) zp word_eq [OF ob_word [OF z(2)] ob_word [OF z(2)]] by simp
  have first: "pword v' ?x = a + of_nat j * osz" using v'(5) ne b27 v1(4) by simp
  have "pword v' (ob f z i) = a + of_nat (Suc i) * osz" if "j \<le> Suc i" "Suc i < m" for i
    using first v'(4) that Suc.prems(2) by (cases "j = Suc i") auto
  moreover have "pword v' y = pword v y"
    if y: "y div 4096 < 2 ^ 27" "\<forall>i. j \<le> Suc i \<longrightarrow> Suc i < m \<longrightarrow> y div 8 \<noteq> ob f z i div 8" for y
    using v'(5) v1(4) y Suc.prems(2) jm by (auto dest: spec [of _ "j - 1"])
  ultimately show ?case using run v'(2) data_write_trans [OF v1(2) v'(3)] by blast
qed

lemma zero_pages_spec:
  assumes ok: "dm_ok v B A D" and D: "{f..<f + n} \<subseteq> D"
  shows "\<exists>v'. kforeach (\<lambda>i. vzero_page (slab_addr f + of_nat i * 4096)) [0..<n] v = Inr ((), v') \<and> dm_ok v' B A D \<and>
    data_write (dm_set D) v v' \<and>
    (\<forall>y. y div 4096 < 2 ^ 27 \<longrightarrow> pword v' y = (if y div 4096 \<in> {f..<f + n} then 0 else pword v y))"
proof -
  let ?P = "\<lambda>i v'. dm_ok v' B A D \<and> data_write (dm_set D) v v' \<and>
    (\<forall>y. y div 4096 < 2 ^ 27 \<longrightarrow> pword v' y = (if y div 4096 \<in> {f..<f + i} then 0 else pword v y))"
  have "\<exists>v'. kforeach (\<lambda>i. vzero_page (slab_addr f + of_nat i * 4096)) [0..<n] v = Inr ((), v') \<and> ?P n v'"
  proof (rule kforeach_upt [where P = ?P])
    show "?P 0 v" using ok data_write_refl by simp
    fix i v1 assume i: "i < n" and P: "?P i v1"
    have fi: "f + i \<in> D" using D i by auto
    have "slab_addr f + of_nat i * 4096 = slab_addr (f + i)"
      by (simp add: slab_addr_def push_bit_eq_mult distrib_right)
    then have at: "dm_at (slab_addr f + of_nat i * 4096) ((f + i) * 4096)"
      using slab_addr_at [OF dm_ok_bound(1) [OF ok fi]] by simp
    from dm_zero_page [OF conjunct1 [OF P] at fi] obtain v2 where
      v2: "vzero_page (slab_addr f + of_nat i * 4096) v1 = Inr ((), v2)" "data_write (dm_set D) v1 v2" "dm_ok v2 B A D"
        "\<forall>y. y div 4096 < 2 ^ 27 \<longrightarrow> pword v2 y = (if y div 4096 = f + i then 0 else pword v1 y)" by blast
    then have "?P (Suc i) v2" using P data_write_trans by (auto simp: less_Suc_eq)
    then show "\<exists>v'. vzero_page (slab_addr f + of_nat i * 4096) v1 = Inr ((), v') \<and> ?P (Suc i) v'" using v2(1) by blast
  qed simp
  then show ?thesis by blast
qed

lemma on_vm_Inr [simp]: "m (kh_vm s) = Inr (x, v) \<Longrightarrow> on_vm m s = Inr (x, s\<lparr>kh_vm := v\<rparr>)"
  by (simp add: on_vm_def)

lemma slab_addr_nz: "f < 2 ^ 27 \<Longrightarrow> slab_addr f \<noteq> 0"
  using slab_addr_at [of f] by (auto simp: dm_at_def dm_start)

lemma slab_addr_inj: "f < 2 ^ 27 \<Longrightarrow> f' < 2 ^ 27 \<Longrightarrow> slab_addr f = slab_addr f' \<longleftrightarrow> f = f'"
  using slab_addr_at [of f] slab_addr_at [of f'] dm_at_unique by fastforce

lemma unat_ucast_32: "unat w < 2 ^ 32 \<Longrightarrow> unat (ucast w :: u32) = unat w" for w :: u64
  by (simp add: unsigned_ucast_eq take_bit_nat_eq_self)

lemma obj_count_eq:
  fixes nr osz :: u32
  assumes "unat nr = n" and "n \<le> 1024" and "unat osz = z" and "40 + z \<le> n * 4096"
  shows "unat (ucast (nr * 4096) :: u64) = n * 4096"
    and "unat (ucast ((ucast (nr * 4096) - sizeof_slab_t) div ucast osz :: u64) :: u32) = nobj n z"
    and "unat (ucast (ucast (nr * 4096) :: u64) :: u32) = n * 4096"
proof -
  have m: "unat (nr * 4096) = n * 4096" using assms(1,2) by (subst unat_mult_lem [THEN iffD1]) simp_all
  show b: "unat (ucast (nr * 4096) :: u64) = n * 4096" using m assms(2) by (simp add: unsigned_ucast_eq take_bit_nat_eq_self)
  show "unat (ucast (ucast (nr * 4096) :: u64) :: u32) = n * 4096"
    using b assms(2) by (subst unat_ucast_32) simp_all
  have "unat (ucast (nr * 4096) - sizeof_slab_t :: u64) = n * 4096 - 40"
    using b assms(4) by (subst unat_sub) (simp_all add: sizeof_slab_t_def word_le_nat_alt)
  moreover have "unat (ucast osz :: u64) = z" using assms(3) unsigned_less [of osz, where 'a = nat]
    by (simp add: unsigned_ucast_eq take_bit_nat_eq_self)
  ultimately have d: "unat ((ucast (nr * 4096) - sizeof_slab_t) div ucast osz :: u64) = nobj n z"
    by (simp add: unat_div nobj_def)
  have "nobj n z \<le> n * 4096" unfolding nobj_def by (rule order_trans [OF div_le_dividend]) simp
  then have "nobj n z < 2 ^ 32" using assms(2) by simp
  then show "unat (ucast ((ucast (nr * 4096) - sizeof_slab_t) div ucast osz :: u64) :: u32) = nobj n z"
    using d by (simp add: unsigned_ucast_eq take_bit_nat_eq_self)
qed

lemma chain_upt:
  assumes next': "\<And>i. Suc i < m \<Longrightarrow> pword v (ob f z i) = a + of_nat (Suc i) * osz" and last: "pword v (ob f z (m - 1)) = 0"
    and at: "\<And>i. i < m \<Longrightarrow> dm_at (a + of_nat i * osz) (ob f z i)" and "j < m"
  shows "free_chain v f z (a + of_nat j * osz) [j..<m]"
  using \<open>j < m\<close>
proof (induction "m - j" arbitrary: j)
  case (Suc l)
  show ?case
  proof (cases "Suc j < m")
    case True
    then have "free_chain v f z (a + of_nat (Suc j) * osz) [Suc j..<m]" by (intro Suc.hyps(1)) (use Suc.hyps(2) in simp_all)
    then show ?thesis using True at [of j] next' [of j] by (simp add: upt_conv_Cons)
  next
    case False
    then have "m = Suc j" using Suc.prems by simp
    then show ?thesis using at [of j] last by simp
  qed
qed simp

lemma slab_create_spec:
  assumes ok: "dm_ok (kh_vm s) B A D" and rdy: "pages_ready B (ucast nr)" and n: "unat nr = n" "n \<le> 1024"
    and z: "unat osz = z" "8 dvd z" "0 < z" "40 + z \<le> n * 4096"
  shows "\<exists>f v' B' h. slab_create nr osz s =
      Inr ((slab_addr f, of_nat (nobj n z)), s\<lparr>kh_vm := v', kh_slab := (kh_slab s)(slab_addr f \<mapsto> h)\<rparr>) \<and>
    dm_ok v' B' (insert (f, order_for (ucast nr)) A) (D \<union> {f..<f + n}) \<and> {f..<f + n} \<subseteq> free_frames B \<and> 0 < n \<and>
    slab_ok v' (D \<union> {f..<f + n}) n z f h [0..<nobj n z] \<and>
    (\<forall>x. x div 4096 \<in> D \<longrightarrow> pword v' x = pword (kh_vm s) x) \<and> heap_frame D (kh_vm s) B v' B' \<and>
    card (free_frames B) \<le> grow_cost (ucast nr) + card (free_frames B')"
proof -
  have u: "unat (ucast nr :: u64) = n" using n unsigned_less [of nr, where 'a = nat]
    by (simp add: unsigned_ucast_eq take_bit_nat_eq_self)
  from vmm_alloc_pages_spec [OF ok rdy] u obtain f v1 B' where
    v1: "vmm_alloc_pages (ucast nr) (kh_vm s) = Inr (slab_addr f, v1)"
      "dm_ok v1 B' (insert (f, order_for (ucast nr)) A) (D \<union> {f..<f + n})" "pt_frame (kh_vm s) B v1 B'"
      "blk_frames (f, order_for (ucast nr)) \<subseteq> free_frames B" "f + n \<le> 2 ^ 27" "n \<le> 2 ^ order_for (ucast nr)"
      "\<forall>k. nonrec 4 k \<longrightarrow> \<not> (dm_page f \<le> k \<and> k < dm_page f + n) \<longrightarrow> vtab v1 4 k = vtab (kh_vm s) 4 k"
      "card (free_frames B) \<le> grow_cost (ucast nr) + card (free_frames B')"
    unfolding slab_addr_def by auto
  let ?A = "insert (f, order_for (ucast nr)) A" and ?D = "D \<union> {f..<f + n}" and ?a = "slab_addr f + sizeof_slab_t"
  let ?osz = "ucast osz :: u64"
  have n0: "0 < n" using z by (cases n) auto
  have f27: "f < 2 ^ 27" using v1(5) n0 by simp
  have sub: "{f..<f + n} \<subseteq> free_frames B" using v1(4,6) by (auto simp: blk_frames_def)
  have uz: "unat ?osz = z" using z(1) unsigned_less [of osz, where 'a = nat] by (simp add: unsigned_ucast_eq take_bit_nat_eq_self)
  note cnt = obj_count_eq [OF n z(1,4)]
  have "f * 4096 + 40 < 2 ^ 39" using f27 by simp
  then have a: "dm_at ?a (ob f z 0)"
    using dm_at_add [OF slab_addr_at [OF f27], of sizeof_slab_t] by (simp add: ob_def sizeof_slab_t_def)
  from zero_pages_spec [OF v1(2), of f n] obtain v2 where
    v2: "kforeach (\<lambda>i. vzero_page (slab_addr f + of_nat i * 4096)) [0..<n] v1 = Inr ((), v2)" "dm_ok v2 B' ?A ?D"
      "data_write (dm_set ?D) v1 v2" "\<forall>y. y div 4096 < 2 ^ 27 \<longrightarrow> pword v2 y = (if y div 4096 \<in> {f..<f + n} then 0 else pword v1 y)"
    by auto
  have "\<exists>v'. slab_link ?a ?osz [1..<nobj n z] ?a v2 = Inr ((), v') \<and> dm_ok v' B' ?A ?D \<and> data_write (dm_set ?D) v2 v' \<and>
    (\<forall>i. 1 \<le> Suc i \<longrightarrow> Suc i < nobj n z \<longrightarrow> pword v' (ob f z i) = ?a + of_nat (Suc i) * ?osz) \<and>
    (\<forall>y. y div 4096 < 2 ^ 27 \<longrightarrow> (\<forall>i. 1 \<le> Suc i \<longrightarrow> Suc i < nobj n z \<longrightarrow> y div 8 \<noteq> ob f z i div 8) \<longrightarrow> pword v' y = pword v2 y)"
    by (rule slab_link_spec [OF v2(2) _ uz z(2) a order_refl]) simp_all
  then obtain v3 where v3: "slab_link ?a ?osz [1..<nobj n z] ?a v2 = Inr ((), v3)" "dm_ok v3 B' ?A ?D" "data_write (dm_set ?D) v2 v3"
    "\<forall>i. Suc i < nobj n z \<longrightarrow> pword v3 (ob f z i) = ?a + of_nat (Suc i) * ?osz"
    "\<forall>y. y div 4096 < 2 ^ 27 \<longrightarrow> (\<forall>i. Suc i < nobj n z \<longrightarrow> y div 8 \<noteq> ob f z i div 8) \<longrightarrow> pword v3 y = pword v2 y" by auto
  let ?h = "\<lparr>sl_mem = ?a, sl_size = ucast (ucast (nr * 4096) :: u64),
    sl_free_objects = ucast ((ucast (nr * 4096) - sizeof_slab_t) div ?osz :: u64), sl_free_list = ?a\<rparr>"
  have cw: "ucast ((ucast (nr * 4096) - sizeof_slab_t) div ?osz :: u64) = (of_nat (nobj n z) :: u32)"
    using cnt(2) by (metis of_nat_unat ucast_id)
  have run: "slab_create nr osz s = Inr ((slab_addr f, of_nat (nobj n z)), s\<lparr>kh_vm := v3, kh_slab := (kh_slab s)(slab_addr f \<mapsto> ?h)\<rparr>)"
    using v1(1) v2(1) v3(1) cnt slab_addr_nz [OF f27] cw
    by (simp add: slab_create_def Let_def slab_put_def kreturn_def)
  have pos: "0 < nobj n z" using z by (simp add: nobj_def div_greater_zero_iff)
  have page: "ob f z i div 4096 < 2 ^ 27" if "i < nobj n z" for i using ob_frame0 [OF that, of f] v1(5) by auto
  have at: "dm_at (?a + of_nat i * ?osz) (ob f z i)" if "i < nobj n z" for i
    by (rule obj_at [OF a uz]) (use page [OF that] in \<open>simp add: div_less_iff_less_mult\<close>)
  have "pword v3 (ob f z (nobj n z - 1)) = 0"
  proof -
    let ?l = "nobj n z - 1"
    have "ob f z ?l div 8 \<noteq> ob f z i div 8" if "Suc i < nobj n z" for i
      using ob_apart [of ?l i 0 z 0 f] that z(3) word_eq [OF ob_word [OF z(2)] ob_word [OF z(2)]] by simp
    then show ?thesis using v3(5) v2(4) page [of ?l] ob_frame0 [of ?l n z f] pos by simp
  qed
  then have ch: "free_chain v3 f z ?a [0..<nobj n z]"
    using chain_upt [of "nobj n z" v3 f z ?a ?osz 0] v3(4) at pos by simp
  have sok: "slab_ok v3 ?D n z f ?h [0..<nobj n z]"
    using a ch cnt by (auto simp: slab_ok_def)
  have "pword v3 x = pword (kh_vm s) x" if x: "x div 4096 \<in> D" for x
  proof -
    have nf: "x div 4096 \<notin> {f..<f + n}" using sub dm_free_disj [OF ok] x by blast
    have "x div 8 \<noteq> ob f z i div 8" if "Suc i < nobj n z" for i
      using word_page [of x "ob f z i"] ob_frame0 [of i n z f] that nf by auto
    then have "pword v3 x = pword v1 x" using v3(5) v2(4) nf dm_ok_bound(1) [OF ok x] by auto
    then show ?thesis using heap_frame_word [OF v1(3) ok x] by simp
  qed
  moreover have "heap_frame D (kh_vm s) B v3 B'"
  proof (rule heap_frame_trans)
    show "heap_frame D (kh_vm s) B v1 B'" using v1(3,7) v1(5) by (auto simp: heap_frame_def pt_frame_def)
    show "heap_frame ?D v1 B' v3 B'"
      by (rule data_write_heap_frame [OF data_write_trans [OF v2(3) v3(3)] v1(2)])
    show "?D \<subseteq> D \<union> free_frames B" using sub by auto
  qed
  ultimately show ?thesis using run v3(2) sub sok n0 v1(8) by blast
qed

end
