(* ===== verification/SlabOps.thy ===== *)
theory SlabOps
  imports SlabInv
begin

text \<open>
  The operations on slab caches keep the invariant, hand out one free object and take it back.
\<close>

section \<open>The invariant\<close>

abbreviation cn :: "slab_cache \<Rightarrow> nat" where "cn k \<equiv> unat (sc_nr_pages k)"
abbreviation cz :: "slab_cache \<Rightarrow> nat" where "cz k \<equiv> unat (sc_obj_size k)"

definition cache_geo :: "nat \<Rightarrow> nat \<Rightarrow> bool" where
  "cache_geo n z \<longleftrightarrow> 8 dvd z \<and> 8 \<le> z \<and> z < 2 ^ 32 \<and> n \<le> 1024 \<and> 40 + z \<le> n * 4096"

definition cache_ok :: "kheap \<Rightarrow> nat set \<Rightarrow> slab_cache \<Rightarrow> nat list \<Rightarrow> (nat \<Rightarrow> nat list) \<Rightarrow> bool" where
  "cache_ok s D k fs X \<longleftrightarrow> cache_geo (cn k) (cz k) \<and> sc_slabs k = map slab_addr fs \<and> distinct fs \<and>
     (\<forall>f \<in> set fs. \<exists>h. kh_slab s (slab_addr f) = Some h \<and> slab_ok (kh_vm s) D (cn k) (cz k) f h (X f)) \<and>
     sc_free_objects k = (\<Sum>f\<leftarrow>fs. of_nat (length (X f))) \<and>
     sc_total_objects k = of_nat (length fs * nobj (cn k) (cz k)) \<and> sc_total_pages k = of_nat (length fs * cn k)"

text \<open>\<open>F c\<close> lists the first frames of the slabs of cache \<open>c\<close>, and \<open>X f\<close> the free objects of the slab at frame \<open>f\<close> in the
  order of its free list.\<close>

definition slab_of :: "kheap \<Rightarrow> (cache_ref \<Rightarrow> nat list) \<Rightarrow> cache_ref \<Rightarrow> slab_cache \<Rightarrow> nat \<Rightarrow> bool" where
  "slab_of s F c k f \<longleftrightarrow> kh_cache s c = Some k \<and> f \<in> set (F c)"

definition slabs_apart :: "kheap \<Rightarrow> (cache_ref \<Rightarrow> nat list) \<Rightarrow> bool" where
  "slabs_apart s F \<longleftrightarrow> (\<forall>c c' k k' f f'. slab_of s F c k f \<longrightarrow> slab_of s F c' k' f' \<longrightarrow> (c, f) \<noteq> (c', f') \<longrightarrow>
     {f..<f + cn k} \<inter> {f'..<f' + cn k'} = {})"

definition meta_ok :: "kheap \<Rightarrow> (cache_ref \<Rightarrow> nat list) \<Rightarrow> (nat \<Rightarrow> nat list) \<Rightarrow> bool" where
  "meta_ok s F X \<longleftrightarrow> (\<forall>k. kh_cache s MetaCache = Some k \<longrightarrow> cn k = 2 \<and> cz k = 112) \<and>
     (\<forall>p k. kh_cache s (CacheAt p) = Some k \<longrightarrow>
        (\<exists>f \<in> set (F MetaCache). \<exists>i<nobj 2 112. i \<notin> set (X f) \<and> dm_at p (ob f 112 i)))"

definition heap_inv :: "kheap \<Rightarrow> blk set \<Rightarrow> blk set \<Rightarrow> nat set \<Rightarrow> (cache_ref \<Rightarrow> nat list) \<Rightarrow> (nat \<Rightarrow> nat list) \<Rightarrow> bool" where
  "heap_inv s B A D F X \<longleftrightarrow> dm_ok (kh_vm s) B A D \<and> (\<forall>c k. kh_cache s c = Some k \<longrightarrow> cache_ok s D k (F c) X) \<and>
     (\<forall>c. kh_cache s c = None \<longrightarrow> F c = []) \<and> slabs_apart s F \<and> meta_ok s F X"

lemma heap_inv_dm: "heap_inv s B A D F X \<Longrightarrow> dm_ok (kh_vm s) B A D"
  by (simp add: heap_inv_def)

lemma heap_inv_cache: "heap_inv s B A D F X \<Longrightarrow> kh_cache s c = Some k \<Longrightarrow> cache_ok s D k (F c) X"
  by (simp add: heap_inv_def)

lemma heap_inv_slab:
  assumes "heap_inv s B A D F X" and "slab_of s F c k f"
  obtains h where "kh_slab s (slab_addr f) = Some h" and "slab_ok (kh_vm s) D (cn k) (cz k) f h (X f)"
    and "cache_geo (cn k) (cz k)"
proof -
  have "cache_ok s D k (F c) X" and "f \<in> set (F c)" using assms heap_inv_cache by (auto simp: slab_of_def)
  then show ?thesis using that unfolding cache_ok_def by blast
qed

lemma slab_of_frames: "heap_inv s B A D F X \<Longrightarrow> slab_of s F c k f \<Longrightarrow> {f..<f + cn k} \<subseteq> D \<and> 0 < cn k \<and> f < 2 ^ 27"
proof -
  assume i: "heap_inv s B A D F X" and sl: "slab_of s F c k f"
  obtain h where "slab_ok (kh_vm s) D (cn k) (cz k) f h (X f)" "cache_geo (cn k) (cz k)" by (rule heap_inv_slab [OF i sl])
  then have D: "{f..<f + cn k} \<subseteq> D" and n: "0 < cn k" by (auto simp: slab_ok_def cache_geo_def)
  then have "f \<in> D" by auto
  then show ?thesis using D n dm_ok_bound(1) [OF heap_inv_dm [OF i]] by blast
qed

lemma slab_apartD:
  assumes "heap_inv s B A D F X" and "slab_of s F c k f" and "slab_of s F c' k' f'" and "(c, f) \<noteq> (c', f')"
  shows "{f..<f + cn k} \<inter> {f'..<f' + cn k'} = {}"
proof -
  have "slabs_apart s F" using assms(1) by (simp only: heap_inv_def)
  then show ?thesis using assms(2-4) unfolding slabs_apart_def by blast
qed

lemma slab_of_unique:
  assumes inv: "heap_inv s B A D F X" and sl: "slab_of s F c k f" "slab_of s F c' k' f"
  shows "c' = c" and "k' = k"
proof -
  have n: "0 < cn k" "0 < cn k'" using slab_of_frames [OF inv] sl by blast+
  show "c' = c"
  proof (rule ccontr)
    assume "c' \<noteq> c"
    then have "{f..<f + cn k} \<inter> {f..<f + cn k'} = {}" by (intro slab_apartD [OF inv sl]) simp
    then show False using n by (auto simp: disjoint_iff)
  qed
  then show "k' = k" using sl by (simp add: slab_of_def)
qed

section \<open>Changing the free list of one slab\<close>

lemma sum_list_upd:
  fixes g :: "'a \<Rightarrow> u32"
  assumes "distinct xs" and "x \<in> set xs"
  shows "(\<Sum>y\<leftarrow>xs. (g(x := v)) y) = (\<Sum>y\<leftarrow>xs. g y) - g x + v"
  using assms
proof (induction xs)
  case (Cons y ys)
  show ?case
  proof (cases "y = x")
    case True
    then have "(\<Sum>y\<leftarrow>ys. (g(x := v)) y) = (\<Sum>y\<leftarrow>ys. g y)" using Cons.prems(1) by (intro arg_cong [where f = sum_list] map_cong) auto
    then show ?thesis using True by simp
  qed (use Cons in auto)
qed simp

lemma slab_ok_cong:
  assumes ok: "slab_ok v D n z f h xs" and same: "\<And>i. i < nobj n z \<Longrightarrow> pword v' (ob f z i) = pword v (ob f z i)" and D: "D \<subseteq> D'"
  shows "slab_ok v' D' n z f h xs"
proof -
  have "free_chain v' f z (sl_free_list h) xs = free_chain v f z (sl_free_list h) xs"
    by (rule free_chain_cong) (use ok same in \<open>auto simp: slab_ok_def\<close>)
  then show ?thesis using ok D by (auto simp: slab_ok_def)
qed

lemma heap_inv_upd:
  assumes inv: "heap_inv s B A D F X" and sl: "slab_of s F c k f" and dm: "dm_ok v' B A D"
    and w: "\<And>y. y div 4096 < 2 ^ 27 \<Longrightarrow> y div 4096 \<notin> {f..<f + cn k} \<Longrightarrow> pword v' y = pword (kh_vm s) y"
    and new: "slab_ok v' D (cn k) (cz k) f h' xs" and meta: "c = MetaCache \<Longrightarrow> set xs \<subseteq> set (X f)"
    and k': "k' = k\<lparr>sc_free_objects := sc_free_objects k - of_nat (length (X f)) + of_nat (length xs)\<rparr>"
  shows "heap_inv (s\<lparr>kh_vm := v', kh_slab := (kh_slab s)(slab_addr f \<mapsto> h'), kh_cache := (kh_cache s)(c \<mapsto> k')\<rparr>) B A D F (X(f := xs))"
    (is "heap_inv ?s B A D F ?X")
proof -
  have kc: "kh_cache s c = Some k" and fF: "f \<in> set (F c)" using sl by (auto simp: slab_of_def)
  note co = heap_inv_cache [OF inv]
  have f27: "f < 2 ^ 27" using slab_of_frames [OF inv sl] by blast
  have sof: "slab_of ?s F c1 k1 f1 \<longleftrightarrow> (\<exists>k0. slab_of s F c1 k0 f1 \<and> k1 = (if c1 = c then k' else k0))" for c1 k1 f1
    using kc by (auto simp: slab_of_def)
  have geo: "cn k' = cn k" "cz k' = cz k" "sc_slabs k' = sc_slabs k" "sc_total_objects k' = sc_total_objects k"
    "sc_total_pages k' = sc_total_pages k" by (simp_all add: k')
  have keep: "\<exists>h. kh_slab ?s (slab_addr f1) = Some h \<and> slab_ok v' D (cn k1) (cz k1) f1 h (?X f1)" if s1: "slab_of s F c1 k1 f1" for c1 k1 f1
  proof (cases "f1 = f")
    case True
    then have "k1 = k" using slab_of_unique [OF inv sl] s1 by blast
    then show ?thesis using True new by auto
  next
    case False
    have "slab_addr f1 \<noteq> slab_addr f" using slab_addr_inj slab_of_frames [OF inv s1] f27 False by blast
    moreover from heap_inv_slab [OF inv s1] obtain h where
      h: "kh_slab s (slab_addr f1) = Some h" "slab_ok (kh_vm s) D (cn k1) (cz k1) f1 h (X f1)" by blast
    have "slab_ok v' D (cn k1) (cz k1) f1 h (X f1)"
    proof (rule slab_ok_cong [OF h(2) _ order_refl])
      fix i assume "i < nobj (cn k1) (cz k1)"
      from ob_frame0 [OF this, of f1] have o: "ob f1 (cz k1) i div 4096 \<in> {f1..<f1 + cn k1}" .
      have "{f1..<f1 + cn k1} \<inter> {f..<f + cn k} = {}" by (rule slab_apartD [OF inv s1 sl]) (use False in simp)
      moreover have "ob f1 (cz k1) i div 4096 < 2 ^ 27"
        using o slab_of_frames [OF inv s1] dm_ok_bound(1) [OF heap_inv_dm [OF inv]] by blast
      ultimately show "pword v' (ob f1 (cz k1) i) = pword (kh_vm s) (ob f1 (cz k1) i)" using o w by blast
    qed
    ultimately show ?thesis using h(1) False by simp
  qed
  have "cache_ok ?s D k1 (F c1) ?X" if c1: "kh_cache ?s c1 = Some k1" for c1 k1
  proof -
    obtain k0 where k0: "kh_cache s c1 = Some k0" "k1 = (if c1 = c then k' else k0)" using c1 kc by (auto split: if_splits)
    note co0 = co [OF k0(1)]
    have g0: "cn k1 = cn k0" "cz k1 = cz k0" "sc_slabs k1 = sc_slabs k0" "sc_total_objects k1 = sc_total_objects k0"
      "sc_total_pages k1 = sc_total_pages k0" using k0 geo kc by auto
    have slabs: "\<forall>f1 \<in> set (F c1). \<exists>h. kh_slab ?s (slab_addr f1) = Some h \<and> slab_ok v' D (cn k0) (cz k0) f1 h (?X f1)"
      using keep [of c1 k0] k0(1) by (auto simp: slab_of_def)
    have "sc_free_objects k1 = (\<Sum>f\<leftarrow>F c1. of_nat (length (?X f)))"
    proof (cases "c1 = c")
      case True
      have e: "(\<lambda>f1. of_nat (length (?X f1)) :: u32) = (\<lambda>f1. of_nat (length (X f1)))(f := of_nat (length xs))" by auto
      have "distinct (F c)" using co [OF kc] by (simp add: cache_ok_def)
      then have "(\<Sum>f\<leftarrow>F c. of_nat (length (?X f)) :: u32) = (\<Sum>f\<leftarrow>F c. of_nat (length (X f))) - of_nat (length (X f)) + of_nat (length xs)"
        by (simp only: e sum_list_upd [OF _ fF])
      moreover have "sc_free_objects k = (\<Sum>f\<leftarrow>F c. of_nat (length (X f)))" using co [OF kc] by (simp only: cache_ok_def)
      ultimately show ?thesis using True k0 kc by (simp add: k')
    next
      case False
      then have "f \<notin> set (F c1)" using slab_of_unique(1) [OF inv sl] k0(1) by (auto simp: slab_of_def)
      then have "(\<Sum>f\<leftarrow>F c1. of_nat (length (?X f)) :: u32) = (\<Sum>f\<leftarrow>F c1. of_nat (length (X f)))"
        by (intro arg_cong [where f = sum_list] map_cong) auto
      then show ?thesis using False k0 co0 by (simp add: cache_ok_def)
    qed
    with slabs co0 show ?thesis by (simp add: cache_ok_def g0)
  qed
  moreover have "slabs_apart ?s F"
    unfolding slabs_apart_def sof
  proof (intro allI impI)
    fix c1 c2 k1 k2 f1 f2
    assume "\<exists>k0. slab_of s F c1 k0 f1 \<and> k1 = (if c1 = c then k' else k0)" "\<exists>k0. slab_of s F c2 k0 f2 \<and> k2 = (if c2 = c then k' else k0)"
      and ne: "(c1, f1) \<noteq> (c2, f2)"
    then obtain k01 k02 where k0: "slab_of s F c1 k01 f1" "k1 = (if c1 = c then k' else k01)"
      "slab_of s F c2 k02 f2" "k2 = (if c2 = c then k' else k02)" by blast
    have "cn k1 = cn k01" "cn k2 = cn k02" using k0 kc geo by (auto simp: slab_of_def)
    then show "{f1..<f1 + cn k1} \<inter> {f2..<f2 + cn k2} = {}" using slab_apartD [OF inv k0(1,3) ne] by simp
  qed
  moreover have "meta_ok ?s F ?X"
  proof -
    have m: "meta_ok s F X" using inv by (simp only: heap_inv_def)
    have "i \<notin> set (?X f1)" if "f1 \<in> set (F MetaCache)" "i \<notin> set (X f1)" for i f1
    proof (cases "f1 = f")
      case True
      have "kh_cache s MetaCache \<noteq> None" using that(1) inv by (auto simp: heap_inv_def)
      then have "c = MetaCache" using slab_of_unique(1) [OF inv sl] that(1) True by (auto simp: slab_of_def)
      then show ?thesis using meta that(2) True by auto
    qed (use that in simp)
    then have "\<exists>f1 \<in> set (F MetaCache). \<exists>i<nobj 2 112. i \<notin> set (?X f1) \<and> dm_at p (ob f1 112 i)"
      if "kh_cache s (CacheAt p) \<noteq> None" for p
      using m that unfolding meta_ok_def by blast
    then show ?thesis using m kc geo by (auto simp: meta_ok_def)
  qed
  moreover have "\<forall>c1. kh_cache ?s c1 = None \<longrightarrow> F c1 = []" using inv by (auto simp: heap_inv_def split: if_splits)
  ultimately show ?thesis using dm by (simp add: heap_inv_def)
qed

section \<open>Taking an object\<close>

lemma slab_at_Some [simp]: "kh_slab s a = Some h \<Longrightarrow> slab_at a s = Inr (h, s)"
  by (simp add: slab_at_def)

lemma cache_at_Some [simp]: "kh_cache s c = Some k \<Longrightarrow> cache_at c s = Inr (k, s)"
  by (simp add: cache_at_def)

lemma kbind_put [simp]:
  "kbind (slab_put a h) g s = g () (s\<lparr>kh_slab := (kh_slab s)(a \<mapsto> h)\<rparr>)"
  "kbind (cache_put c k) g s = g () (s\<lparr>kh_cache := (kh_cache s)(c \<mapsto> k)\<rparr>)"
  by (simp_all add: slab_put_def cache_put_def)

text \<open>The sizes of the caches stay.  What an operation on cache \<open>c\<close> that is about object \<open>i\<close> of the slab at \<open>f\<close> may change besides the free list.\<close>

definition same_caches :: "kheap \<Rightarrow> kheap \<Rightarrow> bool" where
  "same_caches s s' \<longleftrightarrow> cache_cache_head s' = cache_cache_head s \<and>
     (\<forall>c. map_option (\<lambda>k. (sc_obj_size k, sc_nr_pages k)) (kh_cache s' c) =
          map_option (\<lambda>k. (sc_obj_size k, sc_nr_pages k)) (kh_cache s c))"

definition obj_step :: "kheap \<Rightarrow> kheap \<Rightarrow> nat set \<Rightarrow> nat \<Rightarrow> bool" where
  "obj_step s s' D x \<longleftrightarrow> data_write (dm_set D) (kh_vm s) (kh_vm s') \<and> same_caches s s' \<and>
     (\<forall>y. y div 4096 < 2 ^ 27 \<longrightarrow> y div 8 \<noteq> x div 8 \<longrightarrow> pword (kh_vm s') y = pword (kh_vm s) y)"

lemma slab_take_spec:
  assumes inv: "heap_inv s B A D F X" and k: "kh_cache s c = Some k" and fs: "set fs \<subseteq> set (F c)" "\<exists>f \<in> set fs. X f \<noteq> []"
  shows "\<exists>f i xs p s'. slab_take c (map slab_addr fs) s = Inr (p, s') \<and> f \<in> set fs \<and> X f = i # xs \<and> dm_at p (ob f (cz k) i) \<and>
    heap_inv s' B A D F (X(f := xs)) \<and> obj_step s s' D (ob f (cz k) i)"
  using fs
proof (induction fs)
  case (Cons f fs)
  have sl: "slab_of s F c k f" using k Cons.prems(1) by (simp add: slab_of_def)
  obtain h where h: "kh_slab s (slab_addr f) = Some h" "slab_ok (kh_vm s) D (cn k) (cz k) f h (X f)" "cache_geo (cn k) (cz k)"
    by (rule heap_inv_slab [OF inv sl])
  show ?case
  proof (cases "X f")
    case Nil
    then have "\<not> 0 < sl_free_objects h" using h(2) by (simp add: slab_ok_def word_less_nat_alt)
    then have e: "slab_take c (map slab_addr (f # fs)) s = slab_take c (map slab_addr fs) s" using h(1) by simp
    have "set fs \<subseteq> set (F c)" "\<exists>f \<in> set fs. X f \<noteq> []" using Cons.prems Nil by auto
    from Cons.IH [OF this] show ?thesis unfolding e by (meson list.set_intros(2))
  next
    case (Cons i xs)
    let ?x = "ob f (cz k) i" and ?p = "sl_free_list h"
    have so: "{f..<f + cn k} \<subseteq> D" "distinct (X f)" "set (X f) \<subseteq> {..<nobj (cn k) (cz k)}" "unat (sl_free_objects h) = length (X f)"
      "free_chain (kh_vm s) f (cz k) ?p (X f)" "dm_at (sl_mem h) (ob f (cz k) 0)" "unat (sl_size h) = cn k * 4096"
      using h(2) by (auto simp: slab_ok_def)
    have i: "i < nobj (cn k) (cz k)" and at: "dm_at ?p ?x" and ch: "free_chain (kh_vm s) f (cz k) (pword (kh_vm s) ?x) xs"
      using so Cons by auto
    have xf: "?x div 4096 \<in> {f..<f + cn k}" by (rule ob_frame0 [OF i])
    then have xD: "?x div 4096 \<in> D" using so(1) by blast
    have z8: "8 dvd cz k" "0 < cz k" using h(3) by (auto simp: cache_geo_def)
    note dm = heap_inv_dm [OF inv]
    from dm_write [OF dm at xD, of 0] obtain v' where
      v': "vwrite ?p 0 (kh_vm s) = Inr ((), v')" "data_write (dm_set D) (kh_vm s) v'" "dm_ok v' B A D"
        "\<forall>y. y div 4096 < 2 ^ 27 \<longrightarrow> pword v' y = (if y div 8 = ?x div 8 then 0 else pword (kh_vm s) y)" by blast
    let ?h = "h\<lparr>sl_free_list := pword (kh_vm s) ?x, sl_free_objects := sl_free_objects h - 1\<rparr>"
    let ?k = "k\<lparr>sc_free_objects := sc_free_objects k - 1\<rparr>"
    let ?s = "s\<lparr>kh_vm := v', kh_slab := (kh_slab s)(slab_addr f \<mapsto> ?h), kh_cache := (kh_cache s)(c \<mapsto> ?k)\<rparr>"
    have u: "unat (sl_free_objects h - 1) = length xs" using so(4) Cons by (subst unat_sub) (simp_all add: word_le_nat_alt)
    have run: "slab_take c (map slab_addr (f # fs)) s = Inr (?p, ?s)"
      using h(1) so(4) Cons dm_read [OF dm at xD] k v'(1) by (simp add: word_less_nat_alt kreturn_def Let_def)
    have ch': "free_chain v' f (cz k) (pword (kh_vm s) ?x) xs"
    proof (subst free_chain_cong [of xs v' f "cz k" "kh_vm s"])
      fix j assume j: "j \<in> set xs"
      then have jn: "j < nobj (cn k) (cz k)" "j \<noteq> i" using so(2,3) Cons by auto
      then have "ob f (cz k) j div 8 \<noteq> ?x div 8"
        using ob_apart [of j i 0 "cz k" 0 f] z8 word_eq [OF ob_word [OF z8(1)] ob_word [OF z8(1)]] by simp
      moreover have "ob f (cz k) j div 4096 < 2 ^ 27" using ob_frame0 [OF jn(1), of f] so(1) dm_ok_bound(1) [OF dm] by blast
      ultimately show "pword v' (ob f (cz k) j) = pword (kh_vm s) (ob f (cz k) j)" using v'(4) by simp
    qed (rule ch)
    have new: "slab_ok v' D (cn k) (cz k) f ?h xs" using so Cons u ch' by (simp add: slab_ok_def)
    have k': "?k = k\<lparr>sc_free_objects := sc_free_objects k - of_nat (length (X f)) + of_nat (length xs)\<rparr>" using Cons by simp
    have "heap_inv ?s B A D F (X(f := xs))"
    proof (rule heap_inv_upd [OF inv sl v'(3) _ new _ k'])
      fix y assume y: "y div 4096 < 2 ^ 27" "y div 4096 \<notin> {f..<f + cn k}"
      then have "y div 8 \<noteq> ?x div 8" using word_page [of y ?x] xf by auto
      then show "pword v' y = pword (kh_vm s) y" using v'(4) y by simp
    qed (use Cons in auto)
    moreover have "obj_step s ?s D ?x" using v'(2,4) k by (simp add: obj_step_def same_caches_def)
    moreover have "f \<in> set (f # fs)" by simp
    ultimately show ?thesis using run at Cons by blast
  qed
qed simp

section \<open>Giving an object back\<close>

lemma slab_range:
  assumes h: "slab_ok v D n z f h xs" and D: "\<forall>g \<in> D. g < 2 ^ 27" and n: "n \<le> 1024" "0 < n" and p: "dm_at p x"
  shows "(sl_mem h \<le> p \<and> p < sl_mem h + ucast (sl_size h)) \<longleftrightarrow> f * 4096 + 40 \<le> x \<and> x < (f + n) * 4096 + 40"
proof -
  have "f \<in> {f..<f + n}" using n(2) by simp
  then have f: "f < 2 ^ 27" using h D unfolding slab_ok_def by blast
  have m: "unat (sl_mem h) = unat MI_DIRECT_MAPPING_RANGE_START + (f * 4096 + 40)" using h by (simp add: slab_ok_def dm_at_def ob_def)
  have sz: "unat (ucast (sl_size h) :: u64) = n * 4096"
    using h unsigned_less [of "sl_size h", where 'a = nat] by (simp add: slab_ok_def unsigned_ucast_eq take_bit_nat_eq_self)
  have "unat (sl_mem h + ucast (sl_size h)) = unat (sl_mem h) + n * 4096"
    by (subst unat_add_lem [THEN iffD1]) (use m sz f n in \<open>simp_all add: dm_start\<close>)
  then show ?thesis using p m by (auto simp: word_le_nat_alt word_less_nat_alt dm_at_def distrib_right)
qed

lemma ivl_apart: "{a..<a + n} \<inter> {b..<b + m} = {} \<Longrightarrow> 0 < n \<Longrightarrow> 0 < m \<Longrightarrow> a + n \<le> b \<or> b + m \<le> a" for a b n m :: nat
proof (rule ccontr)
  assume e: "{a..<a + n} \<inter> {b..<b + m} = {}" and "0 < n" "0 < m" and "\<not> (a + n \<le> b \<or> b + m \<le> a)"
  then have "max a b \<in> {a..<a + n} \<inter> {b..<b + m}" by auto
  with e show False by blast
qed

lemma slab_give_spec:
  assumes inv: "heap_inv s B A D F X" and sl: "slab_of s F c k f" and i: "i < nobj (cn k) (cz k)" "i \<notin> set (X f)" and c: "c \<noteq> MetaCache"
    and p: "dm_at p (ob f (cz k) i)" and fs: "set fs \<subseteq> set (F c)" "f \<in> set fs"
  shows "\<exists>s'. slab_give c p (map slab_addr fs) s = Inr (True, s') \<and> heap_inv s' B A D F (X(f := i # X f)) \<and>
    obj_step s s' D (ob f (cz k) i)"
  using fs
proof (induction fs)
  case (Cons f1 fs)
  note dm = heap_inv_dm [OF inv]
  have kc: "kh_cache s c = Some k" using sl by (simp add: slab_of_def)
  have sl1: "slab_of s F c k f1" using sl Cons.prems(1) by (simp add: slab_of_def)
  obtain h where h: "kh_slab s (slab_addr f1) = Some h" "slab_ok (kh_vm s) D (cn k) (cz k) f1 h (X f1)" "cache_geo (cn k) (cz k)"
    by (rule heap_inv_slab [OF inv sl1])
  have D27: "\<forall>g \<in> D. g < 2 ^ 27" using dm_ok_bound(1) [OF dm] by blast
  have n: "cn k \<le> 1024" "0 < cn k" "8 dvd cz k" "0 < cz k" using h(3) by (auto simp: cache_geo_def)
  let ?x = "ob f (cz k) i"
  note rng = slab_range [OF h(2) D27 n(1,2) p]
  have x: "f * 4096 + 40 \<le> ?x" "?x < (f + cn k) * 4096" using ob_end [OF i(1), of f] n(4) by (auto simp: ob_def)
  show ?case
  proof (cases "f1 = f")
    case False
    have "{f1..<f1 + cn k} \<inter> {f..<f + cn k} = {}" by (rule slab_apartD [OF inv sl1 sl]) (use False in simp)
    then have "f1 + cn k \<le> f \<or> f + cn k \<le> f1" using n(2) by (intro ivl_apart)
    then have "\<not> (f1 * 4096 + 40 \<le> ?x \<and> ?x < (f1 + cn k) * 4096 + 40)" using x by auto
    then have "\<not> (sl_mem h \<le> p \<and> p < sl_mem h + ucast (sl_size h))" using rng by blast
    then have e: "slab_give c p (map slab_addr (f1 # fs)) s = slab_give c p (map slab_addr fs) s" using h(1) by (auto simp: Let_def)
    show ?thesis unfolding e by (rule Cons.IH) (use Cons.prems False in auto)
  next
    case True
    have so: "{f..<f + cn k} \<subseteq> D" "distinct (X f)" "set (X f) \<subseteq> {..<nobj (cn k) (cz k)}" "unat (sl_free_objects h) = length (X f)"
      "free_chain (kh_vm s) f (cz k) (sl_free_list h) (X f)" "dm_at (sl_mem h) (ob f (cz k) 0)" "unat (sl_size h) = cn k * 4096"
      using h(2) True by (auto simp: slab_ok_def)
    have xf: "?x div 4096 \<in> {f..<f + cn k}" by (rule ob_frame0 [OF i(1)])
    then have xD: "?x div 4096 \<in> D" using so(1) by blast
    from dm_write [OF dm p xD, of "sl_free_list h"] obtain v' where
      v': "vwrite p (sl_free_list h) (kh_vm s) = Inr ((), v')" "data_write (dm_set D) (kh_vm s) v'" "dm_ok v' B A D"
        "\<forall>y. y div 4096 < 2 ^ 27 \<longrightarrow> pword v' y = (if y div 8 = ?x div 8 then sl_free_list h else pword (kh_vm s) y)" by blast
    let ?h = "h\<lparr>sl_free_list := p, sl_free_objects := sl_free_objects h + 1\<rparr>"
    let ?k = "k\<lparr>sc_free_objects := sc_free_objects k + 1\<rparr>"
    let ?s = "s\<lparr>kh_vm := v', kh_slab := (kh_slab s)(slab_addr f \<mapsto> ?h), kh_cache := (kh_cache s)(c \<mapsto> ?k)\<rparr>"
    have "sl_mem h \<le> p \<and> p < sl_mem h + ucast (sl_size h)" unfolding rng using x True by simp
    then have run: "slab_give c p (map slab_addr (f1 # fs)) s = Inr (True, ?s)"
      using h(1) v'(1) kc True by (simp add: Let_def kreturn_def)
    have ch': "free_chain v' f (cz k) (sl_free_list h) (X f)"
    proof (subst free_chain_cong [of "X f" v' f "cz k" "kh_vm s"])
      fix j assume j: "j \<in> set (X f)"
      then have jn: "j < nobj (cn k) (cz k)" "j \<noteq> i" using so(3) i by auto
      then have "ob f (cz k) j div 8 \<noteq> ?x div 8"
        using ob_apart [of j i 0 "cz k" 0 f] n word_eq [OF ob_word [OF n(3)] ob_word [OF n(3)]] by simp
      moreover have "ob f (cz k) j div 4096 < 2 ^ 27" using ob_frame0 [OF jn(1), of f] so(1) dm_ok_bound(1) [OF dm] by blast
      ultimately show "pword v' (ob f (cz k) j) = pword (kh_vm s) (ob f (cz k) j)" using v'(4) by simp
    qed (rule so(5))
    have len: "length (X f) < nobj (cn k) (cz k)"
    proof -
      have "card (set (i # X f)) \<le> card {..<nobj (cn k) (cz k)}" by (rule card_mono) (use so(3) i in auto)
      then show ?thesis using distinct_card [OF so(2)] i(2) by simp
    qed
    have "nobj (cn k) (cz k) \<le> cn k * 4096" unfolding nobj_def by (rule order_trans [OF div_le_dividend]) simp
    then have u: "unat (sl_free_objects h + 1) = Suc (length (X f))"
      using so(4) len n(1) by (subst unat_add_lem [THEN iffD1]) simp_all
    have "pword v' ?x = sl_free_list h" using v'(4) dm_ok_bound(1) [OF dm xD] by simp
    then have new: "slab_ok v' D (cn k) (cz k) f ?h (i # X f)" using so u ch' p i by (simp add: slab_ok_def)
    have k': "?k = k\<lparr>sc_free_objects := sc_free_objects k - of_nat (length (X f)) + of_nat (length (i # X f))\<rparr>" by simp
    have "heap_inv ?s B A D F (X(f := i # X f))"
    proof (rule heap_inv_upd [OF inv sl v'(3) _ new _ k'])
      fix y assume y: "y div 4096 < 2 ^ 27" "y div 4096 \<notin> {f..<f + cn k}"
      then have "y div 8 \<noteq> ?x div 8" using word_page [of y ?x] xf by auto
      then show "pword v' y = pword (kh_vm s) y" using v'(4) y by simp
    qed (use c in simp)
    moreover have "obj_step s ?s D ?x" using v'(2,4) kc by (simp add: obj_step_def same_caches_def)
    ultimately show ?thesis using run by blast
  qed
qed simp

text \<open>A pointer outside the object area of every slab is not taken for an object of the cache.\<close>

lemma slab_give_none:
  assumes inv: "heap_inv s B A D F X" and k: "kh_cache s c = Some k" and fs: "set fs \<subseteq> set (F c)"
    and p: "dm_at p x" and out: "\<And>f. f \<in> set fs \<Longrightarrow> \<not> (f * 4096 + 40 \<le> x \<and> x < (f + cn k) * 4096 + 40)"
  shows "slab_give c p (map slab_addr fs) s = Inr (False, s)"
  using fs out
proof (induction fs)
  case (Cons f fs)
  have sl: "slab_of s F c k f" using k Cons.prems(1) by (simp add: slab_of_def)
  obtain h where h: "kh_slab s (slab_addr f) = Some h" "slab_ok (kh_vm s) D (cn k) (cz k) f h (X f)" "cache_geo (cn k) (cz k)"
    by (rule heap_inv_slab [OF inv sl])
  have "\<forall>g \<in> D. g < 2 ^ 27" using dm_ok_bound(1) [OF heap_inv_dm [OF inv]] by blast
  moreover have "cn k \<le> 1024" "0 < cn k" using h(3) by (auto simp: cache_geo_def)
  ultimately have "\<not> (sl_mem h \<le> p \<and> p < sl_mem h + ucast (sl_size h))"
    using slab_range [OF h(2) _ _ _ p] Cons.prems(2) [of f] by simp
  then have "slab_give c p (map slab_addr (f # fs)) s = slab_give c p (map slab_addr fs) s" using h(1) by (auto simp: Let_def)
  then show ?case using Cons by simp
qed (simp add: kreturn_def)

end
