(* ===== verification/SlabAlloc.thy ===== *)
theory SlabAlloc
  imports SlabOps
begin

text \<open>
  Growing a cache, allocating from a cache and from the caches, and freeing.
\<close>

section \<open>Growing a cache\<close>

lemma same_caches_refl [simp]: "same_caches s s"
  by (simp add: same_caches_def)

lemma same_caches_trans: "same_caches s s1 \<Longrightarrow> same_caches s1 s2 \<Longrightarrow> same_caches s s2"
  by (simp add: same_caches_def)

lemma same_caches_Some:
  assumes "same_caches s s'" and "kh_cache s c = Some k"
  obtains k' where "kh_cache s' c = Some k'" and "sc_obj_size k' = sc_obj_size k" and "sc_nr_pages k' = sc_nr_pages k"
proof -
  have "map_option (\<lambda>k. (sc_obj_size k, sc_nr_pages k)) (kh_cache s' c) = Some (sc_obj_size k, sc_nr_pages k)"
    using assms by (simp add: same_caches_def)
  then show ?thesis using that by auto
qed

lemma same_caches_None: "same_caches s s' \<Longrightarrow> kh_cache s' c = None \<longleftrightarrow> kh_cache s c = None"
proof -
  assume "same_caches s s'"
  then have "map_option (\<lambda>k. (sc_obj_size k, sc_nr_pages k)) (kh_cache s' c) = map_option (\<lambda>k. (sc_obj_size k, sc_nr_pages k)) (kh_cache s c)"
    by (simp add: same_caches_def)
  then show ?thesis by (cases "kh_cache s' c"; cases "kh_cache s c") simp_all
qed

lemma grow_fresh:
  assumes inv: "heap_inv s B A D F X" and n: "{f..<f + n} \<subseteq> free_frames B" "0 < n"
  shows "{f..<f + n} \<inter> D = {}" and "\<And>c k f'. slab_of s F c k f' \<Longrightarrow> f' \<noteq> f"
proof -
  show d: "{f..<f + n} \<inter> D = {}" using n(1) dm_free_disj [OF heap_inv_dm [OF inv]] by blast
  fix c k f' assume "slab_of s F c k f'"
  then have "{f'..<f' + cn k} \<subseteq> D" "0 < cn k" using slab_of_frames [OF inv] by blast+
  then have "f' \<in> D" by auto
  moreover have "f \<in> {f..<f + n}" using n(2) by simp
  ultimately show "f' \<noteq> f" using d by blast
qed

lemma heap_inv_grow:
  assumes inv: "heap_inv s B A D F X" and k: "kh_cache s c = Some k" and dm: "dm_ok v' B' A' (D \<union> {f..<f + cn k})"
    and free: "{f..<f + cn k} \<subseteq> free_frames B" and w: "\<And>x. x div 4096 \<in> D \<Longrightarrow> pword v' x = pword (kh_vm s) x"
    and new: "slab_ok v' (D \<union> {f..<f + cn k}) (cn k) (cz k) f h [0..<nobj (cn k) (cz k)]"
    and k': "k' = k\<lparr>sc_slabs := slab_addr f # sc_slabs k, sc_free_objects := sc_free_objects k + of_nat (nobj (cn k) (cz k)),
      sc_total_objects := sc_total_objects k + of_nat (nobj (cn k) (cz k)), sc_total_pages := sc_total_pages k + sc_nr_pages k\<rparr>"
  shows "heap_inv (s\<lparr>kh_vm := v', kh_slab := (kh_slab s)(slab_addr f \<mapsto> h), kh_cache := (kh_cache s)(c \<mapsto> k')\<rparr>) B' A'
      (D \<union> {f..<f + cn k}) (F(c := f # F c)) (X(f := [0..<nobj (cn k) (cz k)]))"
    (is "heap_inv ?s B' A' ?D ?F ?X")
proof -
  note co = heap_inv_cache [OF inv]
  have geo: "cn k' = cn k" "cz k' = cz k" by (simp_all add: k')
  have n0: "0 < cn k" using co [OF k] by (auto simp: cache_ok_def cache_geo_def)
  note fresh = grow_fresh [OF inv free n0]
  have f27: "f < 2 ^ 27" using dm_ok_bound(1) [OF dm, of f] n0 by simp
  have keep: "\<exists>h. kh_slab ?s (slab_addr f1) = Some h \<and> slab_ok v' ?D (cn k1) (cz k1) f1 h (?X f1)" if s1: "slab_of s F c1 k1 f1" for c1 k1 f1
  proof -
    have ne: "f1 \<noteq> f" by (rule fresh(2) [OF s1])
    then have "slab_addr f1 \<noteq> slab_addr f" using slab_addr_inj slab_of_frames [OF inv s1] f27 by blast
    moreover obtain h1 where h1: "kh_slab s (slab_addr f1) = Some h1" "slab_ok (kh_vm s) D (cn k1) (cz k1) f1 h1 (X f1)"
      using heap_inv_slab [OF inv s1] by blast
    have "slab_ok v' ?D (cn k1) (cz k1) f1 h1 (X f1)"
      by (rule slab_ok_cong [OF h1(2)]) (use w ob_frame0 slab_of_frames [OF inv s1] in blast)+
    ultimately show ?thesis using h1(1) ne by simp
  qed
  have "cache_ok ?s ?D k1 (?F c1) ?X" if c1: "kh_cache ?s c1 = Some k1" for c1 k1
  proof (cases "c1 = c")
    case True
    then have k1: "k1 = k'" using c1 by simp
    note ck = co [OF k, unfolded cache_ok_def]
    have nf: "f \<notin> set (F c)" using fresh(2) [of c k f] k by (auto simp: slab_of_def)
    have sum: "(\<Sum>f\<leftarrow>F c. of_nat (length (?X f)) :: u32) = (\<Sum>f\<leftarrow>F c. of_nat (length (X f)))"
      by (rule arg_cong [where f = sum_list], rule map_cong) (use nf in auto)
    have slabs: "\<forall>f1 \<in> set (f # F c). \<exists>h. kh_slab ?s (slab_addr f1) = Some h \<and> slab_ok v' ?D (cn k) (cz k) f1 h (?X f1)"
      using keep [of c k] new k by (auto simp: slab_of_def)
    have "sc_free_objects k' = (\<Sum>f\<leftarrow>f # F c. of_nat (length (?X f)))" using ck by (simp add: k' sum fun_upd_same del: fun_upd_apply)
    moreover have "sc_total_objects k' = of_nat (length (f # F c) * nobj (cn k) (cz k))" using ck by (simp add: k' algebra_simps)
    moreover have "sc_total_pages k' = of_nat (length (f # F c) * cn k)" using ck by (simp add: k' algebra_simps)
    ultimately show ?thesis unfolding k1 True cache_ok_def geo using ck slabs nf by (simp add: k')
  next
    case False
    then have k1: "kh_cache s c1 = Some k1" using c1 by simp
    have nf: "f \<notin> set (F c1)" using fresh(2) [of c1 k1 f] k1 by (auto simp: slab_of_def)
    have "(\<Sum>f\<leftarrow>F c1. of_nat (length (?X f)) :: u32) = (\<Sum>f\<leftarrow>F c1. of_nat (length (X f)))"
      by (rule arg_cong [where f = sum_list], rule map_cong) (use nf in auto)
    moreover have "\<forall>f1 \<in> set (F c1). \<exists>h. kh_slab ?s (slab_addr f1) = Some h \<and> slab_ok v' ?D (cn k1) (cz k1) f1 h (?X f1)"
      using keep [of c1 k1] k1 by (auto simp: slab_of_def)
    ultimately show ?thesis using co [OF k1] False by (simp add: cache_ok_def)
  qed
  moreover have "slabs_apart ?s ?F"
    unfolding slabs_apart_def
  proof (intro allI impI)
    fix c1 c2 k1 k2 f1 f2
    assume a: "slab_of ?s ?F c1 k1 f1" "slab_of ?s ?F c2 k2 f2" "(c1, f1) \<noteq> (c2, f2)"
    have old: "(c' = c \<and> f' = f \<and> cn k1' = cn k) \<or> (\<exists>k0. slab_of s F c' k0 f' \<and> cn k1' = cn k0)" if "slab_of ?s ?F c' k1' f'" for c' k1' f'
      using that k geo by (auto simp: slab_of_def split: if_splits)
    have D': "{f'..<f' + cn k0} \<inter> {f..<f + cn k} = {}" if "slab_of s F c' k0 f'" for c' k0 f'
      using slab_of_frames [OF inv that] fresh(1) by blast
    from old [OF a(1)] old [OF a(2)] show "{f1..<f1 + cn k1} \<inter> {f2..<f2 + cn k2} = {}"
    proof (elim disjE exE conjE)
      fix k0 assume "c1 = c" "f1 = f" "cn k1 = cn k" "slab_of s F c2 k0 f2" "cn k2 = cn k0"
      then show ?thesis using D' [of c2 k0 f2] by (simp only: Int_commute)
    next
      fix k0 assume "slab_of s F c1 k0 f1" "cn k1 = cn k0" "c2 = c" "f2 = f" "cn k2 = cn k"
      then show ?thesis using D' [of c1 k0 f1] by (simp only:)
    next
      fix k01 k02 assume "slab_of s F c1 k01 f1" "cn k1 = cn k01" "slab_of s F c2 k02 f2" "cn k2 = cn k02"
      then show ?thesis using slab_apartD [OF inv _ _ a(3), of k01 k02] by (simp only:)
    qed (use a(3) in simp)
  qed
  moreover have "meta_ok ?s ?F ?X"
  proof -
    have m: "meta_ok s F X" using inv by (simp only: heap_inv_def)
    have md: "\<exists>f1 \<in> set (?F MetaCache). \<exists>i<nobj 2 112. i \<notin> set (?X f1) \<and> dm_at p (ob f1 112 i)" if p: "kh_cache s (CacheAt p) \<noteq> None" for p
    proof -
      obtain f1 i where f1: "f1 \<in> set (F MetaCache)" "i < nobj 2 112" "i \<notin> set (X f1)" "dm_at p (ob f1 112 i)"
        using m p unfolding meta_ok_def by blast
      have "kh_cache s MetaCache \<noteq> None" using f1(1) inv by (auto simp: heap_inv_def)
      then have "f1 \<noteq> f" using fresh(2) f1(1) by (auto simp: slab_of_def)
      then show ?thesis using f1 by (intro bexI [of _ f1] exI [of _ i]) auto
    qed
    show ?thesis unfolding meta_ok_def
    proof (intro conjI allI impI)
      fix k1 assume "kh_cache ?s MetaCache = Some k1"
      then show "cn k1 = 2" "cz k1 = 112" using m k geo by (auto simp: meta_ok_def split: if_splits)
    next
      fix p k1 assume "kh_cache ?s (CacheAt p) = Some k1"
      then have "kh_cache s (CacheAt p) \<noteq> None" using k by (auto split: if_splits)
      then show "\<exists>f1 \<in> set (?F MetaCache). \<exists>i<nobj 2 112. i \<notin> set (?X f1) \<and> dm_at p (ob f1 112 i)" by (rule md)
    qed
  qed
  moreover have "\<forall>c1. kh_cache ?s c1 = None \<longrightarrow> ?F c1 = []" using inv by (auto simp: heap_inv_def)
  ultimately show ?thesis using dm by (simp add: heap_inv_def)
qed

lemma slab_cache_growth_spec:
  assumes inv: "heap_inv s B A D F X" and k: "kh_cache s c = Some k" and rdy: "pages_ready B (ucast (sc_nr_pages k))"
  shows "\<exists>f s' B' A'. slab_cache_growth c s = Inr ((), s') \<and> {f..<f + cn k} \<subseteq> free_frames B \<and>
    heap_inv s' B' A' (D \<union> {f..<f + cn k}) (F(c := f # F c)) (X(f := [0..<nobj (cn k) (cz k)])) \<and> A \<subseteq> A' \<and> same_caches s s' \<and>
    (\<forall>x. x div 4096 \<in> D \<longrightarrow> pword (kh_vm s') x = pword (kh_vm s) x) \<and> heap_frame D (kh_vm s) B (kh_vm s') B' \<and>
    card (free_frames B) \<le> grow_cost (ucast (sc_nr_pages k)) + card (free_frames B')"
proof -
  have g: "cache_geo (cn k) (cz k)" using heap_inv_cache [OF inv k] by (simp add: cache_ok_def)
  have z: "unat (ucast (sc_obj_size k) :: u32) = cz k" using g by (intro unat_ucast_32) (simp add: cache_geo_def)
  from slab_create_spec [OF heap_inv_dm [OF inv] rdy refl _ z] g obtain f v' B' h where
    c: "slab_create (sc_nr_pages k) (ucast (sc_obj_size k)) s =
        Inr ((slab_addr f, of_nat (nobj (cn k) (cz k))), s\<lparr>kh_vm := v', kh_slab := (kh_slab s)(slab_addr f \<mapsto> h)\<rparr>)"
      "dm_ok v' B' (insert (f, order_for (ucast (sc_nr_pages k))) A) (D \<union> {f..<f + cn k})" "{f..<f + cn k} \<subseteq> free_frames B" "0 < cn k"
      "slab_ok v' (D \<union> {f..<f + cn k}) (cn k) (cz k) f h [0..<nobj (cn k) (cz k)]"
      "\<forall>x. x div 4096 \<in> D \<longrightarrow> pword v' x = pword (kh_vm s) x" "heap_frame D (kh_vm s) B v' B'"
      "card (free_frames B) \<le> grow_cost (ucast (sc_nr_pages k)) + card (free_frames B')"
    unfolding cache_geo_def by auto
  let ?k = "k\<lparr>sc_slabs := slab_addr f # sc_slabs k, sc_free_objects := sc_free_objects k + of_nat (nobj (cn k) (cz k)),
      sc_total_objects := sc_total_objects k + of_nat (nobj (cn k) (cz k)), sc_total_pages := sc_total_pages k + sc_nr_pages k\<rparr>"
  let ?s = "s\<lparr>kh_vm := v', kh_slab := (kh_slab s)(slab_addr f \<mapsto> h), kh_cache := (kh_cache s)(c \<mapsto> ?k)\<rparr>"
  have "f < 2 ^ 27" using dm_ok_bound(1) [OF c(2), of f] c(4) by simp
  then have run: "slab_cache_growth c s = Inr ((), ?s)"
    using k c(1) slab_addr_nz by (simp add: slab_cache_growth_def cache_put_def kmodify_def)
  have "heap_inv ?s B' (insert (f, order_for (ucast (sc_nr_pages k))) A) (D \<union> {f..<f + cn k}) (F(c := f # F c)) (X(f := [0..<nobj (cn k) (cz k)]))"
    by (rule heap_inv_grow [OF inv k c(2,3) _ c(5) refl]) (use c(6) in blast)
  moreover have "same_caches s ?s" using k by (simp add: same_caches_def)
  ultimately show ?thesis using run c(3,6,7,8)
    by (intro exI [of _ f] exI [of _ ?s] exI [of _ B'] exI [of _ "insert (f, order_for (ucast (sc_nr_pages k))) A"]) auto
qed

section \<open>Allocated objects\<close>

definition objs :: "kheap \<Rightarrow> (cache_ref \<Rightarrow> nat list) \<Rightarrow> (nat \<Rightarrow> nat list) \<Rightarrow> cache_ref \<Rightarrow> (nat \<times> nat) set" where
  "objs s F X c = {(f, i). \<exists>k. slab_of s F c k f \<and> i < nobj (cn k) (cz k) \<and> i \<notin> set (X f)}"

lemma slab_of_same:
  assumes "same_caches s s'"
  shows "slab_of s' F c k' f \<Longrightarrow> \<exists>k. slab_of s F c k f \<and> sc_obj_size k = sc_obj_size k' \<and> sc_nr_pages k = sc_nr_pages k'"
    and "slab_of s F c k f \<Longrightarrow> \<exists>k'. slab_of s' F c k' f \<and> sc_obj_size k' = sc_obj_size k \<and> sc_nr_pages k' = sc_nr_pages k"
proof -
  have e: "map_option (\<lambda>k. (sc_obj_size k, sc_nr_pages k)) (kh_cache s' c) = map_option (\<lambda>k. (sc_obj_size k, sc_nr_pages k)) (kh_cache s c)"
    using assms by (simp add: same_caches_def)
  show "slab_of s' F c k' f \<Longrightarrow> \<exists>k. slab_of s F c k f \<and> sc_obj_size k = sc_obj_size k' \<and> sc_nr_pages k = sc_nr_pages k'"
    using e by (cases "kh_cache s c") (auto simp: slab_of_def)
  show "slab_of s F c k f \<Longrightarrow> \<exists>k'. slab_of s' F c k' f \<and> sc_obj_size k' = sc_obj_size k \<and> sc_nr_pages k' = sc_nr_pages k"
    using e by (cases "kh_cache s' c") (auto simp: slab_of_def)
qed

lemma objs_same:
  assumes "same_caches s s'"
  shows "objs s' F X c = objs s F X c"
proof (intro set_eqI iffI)
  fix y assume "y \<in> objs s' F X c"
  then obtain f i k' where y: "y = (f, i)" "slab_of s' F c k' f" "i < nobj (cn k') (cz k')" "i \<notin> set (X f)" by (auto simp: objs_def)
  obtain k where "slab_of s F c k f" "sc_obj_size k = sc_obj_size k'" "sc_nr_pages k = sc_nr_pages k'"
    using slab_of_same(1) [OF assms y(2)] by blast
  then show "y \<in> objs s F X c" using y by (auto simp: objs_def)
next
  fix y assume "y \<in> objs s F X c"
  then obtain f i k where y: "y = (f, i)" "slab_of s F c k f" "i < nobj (cn k) (cz k)" "i \<notin> set (X f)" by (auto simp: objs_def)
  obtain k' where "slab_of s' F c k' f" "sc_obj_size k' = sc_obj_size k" "sc_nr_pages k' = sc_nr_pages k"
    using slab_of_same(2) [OF assms y(2)] by blast
  then show "y \<in> objs s' F X c" using y by (auto simp: objs_def)
qed

lemma slab_of_at: "slab_of s F c k f \<Longrightarrow> slab_of s F c k' f \<longleftrightarrow> k' = k"
  by (auto simp: slab_of_def)

lemma objs_free_list:
  assumes inv: "heap_inv s B A D F X" and sl: "slab_of s F c k f"
  shows "objs s F (X(f := xs)) c' = (if c' = c then {(g, i) \<in> objs s F X c. g \<noteq> f} \<union> {(f, i) | i. i < nobj (cn k) (cz k) \<and> i \<notin> set xs} else objs s F X c')"
proof (cases "c' = c")
  case True
  have "(g, i) \<in> objs s F (X(f := xs)) c \<longleftrightarrow> (g, i) \<in> objs s F X c \<and> g \<noteq> f \<or> g = f \<and> i < nobj (cn k) (cz k) \<and> i \<notin> set xs" for g i
    using slab_of_at [OF sl] by (cases "g = f") (simp_all add: objs_def)
  then show ?thesis using True by auto
next
  case False
  then have "\<not> slab_of s F c' k' f" for k' using slab_of_unique(1) [OF inv sl] by blast
  then have "(\<exists>k. slab_of s F c' k g \<and> i < nobj (cn k) (cz k) \<and> i \<notin> set ((X(f := xs)) g)) \<longleftrightarrow>
      (\<exists>k. slab_of s F c' k g \<and> i < nobj (cn k) (cz k) \<and> i \<notin> set (X g))" for g i by (cases "g = f") auto
  then show ?thesis using False by (simp add: objs_def)
qed

lemma objs_take:
  assumes inv: "heap_inv s B A D F X" and sl: "slab_of s F c k f" and x: "X f = i # xs"
  shows "(f, i) \<notin> objs s F X c" and "objs s F (X(f := xs)) c' = (if c' = c then insert (f, i) (objs s F X c) else objs s F X c')"
proof -
  show "(f, i) \<notin> objs s F X c" using x by (auto simp: objs_def)
  obtain h where "slab_ok (kh_vm s) D (cn k) (cz k) f h (X f)" using heap_inv_slab [OF inv sl] by blast
  then have i: "i < nobj (cn k) (cz k)" "i \<notin> set xs" using x by (auto simp: slab_ok_def)
  have fo: "(f, j) \<in> objs s F X c \<longleftrightarrow> j < nobj (cn k) (cz k) \<and> j \<notin> set (i # xs)" for j
    using slab_of_at [OF sl] x by (simp add: objs_def)
  have "{(g, i) \<in> objs s F X c. g \<noteq> f} \<union> {(f, j) | j. j < nobj (cn k) (cz k) \<and> j \<notin> set xs} = insert (f, i) (objs s F X c)"
  proof (intro set_eqI)
    fix y :: "nat \<times> nat"
    obtain g j where y: "y = (g, j)" by (cases y)
    show "y \<in> {(g, i) \<in> objs s F X c. g \<noteq> f} \<union> {(f, j) | j. j < nobj (cn k) (cz k) \<and> j \<notin> set xs} \<longleftrightarrow> y \<in> insert (f, i) (objs s F X c)"
      unfolding y using fo [of j] i by (cases "g = f") auto
  qed
  then show "objs s F (X(f := xs)) c' = (if c' = c then insert (f, i) (objs s F X c) else objs s F X c')"
    unfolding objs_free_list [OF inv sl] by simp
qed

lemma objs_give:
  assumes inv: "heap_inv s B A D F X" and sl: "slab_of s F c k f"
  shows "objs s F (X(f := i # X f)) c' = (if c' = c then objs s F X c - {(f, i)} else objs s F X c')"
proof -
  have fo: "(f, j) \<in> objs s F X c \<longleftrightarrow> j < nobj (cn k) (cz k) \<and> j \<notin> set (X f)" for j
    using slab_of_at [OF sl] by (simp add: objs_def)
  have "{(g, i) \<in> objs s F X c. g \<noteq> f} \<union> {(f, j) | j. j < nobj (cn k) (cz k) \<and> j \<notin> set (i # X f)} = objs s F X c - {(f, i)}"
  proof (intro set_eqI)
    fix y :: "nat \<times> nat"
    obtain g j where y: "y = (g, j)" by (cases y)
    show "y \<in> {(g, i) \<in> objs s F X c. g \<noteq> f} \<union> {(f, j) | j. j < nobj (cn k) (cz k) \<and> j \<notin> set (i # X f)} \<longleftrightarrow> y \<in> objs s F X c - {(f, i)}"
      unfolding y using fo [of j] by (cases "g = f") auto
  qed
  then show ?thesis unfolding objs_free_list [OF inv sl] by simp
qed

lemma objs_grow:
  assumes inv: "heap_inv s B A D F X" and k: "kh_cache s c = Some k" and free: "{f..<f + cn k} \<subseteq> free_frames B"
  shows "objs s (F(c := f # F c)) (X(f := [0..<nobj (cn k) (cz k)])) c' = objs s F X c'"
proof -
  have n0: "0 < cn k" using heap_inv_cache [OF inv k] by (auto simp: cache_ok_def cache_geo_def)
  note fresh = grow_fresh(2) [OF inv free n0]
  have "(\<exists>k1. slab_of s (F(c := f # F c)) c' k1 g \<and> i < nobj (cn k1) (cz k1) \<and> i \<notin> set ((X(f := [0..<nobj (cn k) (cz k)])) g)) \<longleftrightarrow>
      (\<exists>k1. slab_of s F c' k1 g \<and> i < nobj (cn k1) (cz k1) \<and> i \<notin> set (X g))" for g i
    using fresh [of c' _ g] fresh [of c' _ f] k by (cases "g = f") (auto simp: slab_of_def)
  then show ?thesis by (simp add: objs_def)
qed

section \<open>Allocating from a cache\<close>

definition alloc_frame :: "kheap \<Rightarrow> blk set \<Rightarrow> blk set \<Rightarrow> nat set \<Rightarrow> kheap \<Rightarrow> blk set \<Rightarrow> blk set \<Rightarrow> nat set \<Rightarrow> nat \<Rightarrow> bool" where
  "alloc_frame s B A D s' B' A' D' x \<longleftrightarrow> same_caches s s' \<and> D \<subseteq> D' \<and> D' \<subseteq> D \<union> free_frames B \<and> A \<subseteq> A' \<and>
     heap_frame D (kh_vm s) B (kh_vm s') B' \<and> (\<forall>y. y div 4096 \<in> D \<longrightarrow> y div 8 \<noteq> x div 8 \<longrightarrow> pword (kh_vm s') y = pword (kh_vm s) y)"

lemma some_free:
  assumes "cache_ok s D k fs X" and "sc_free_objects k \<noteq> 0"
  shows "\<exists>f \<in> set fs. X f \<noteq> []"
proof (rule ccontr)
  assume "\<not> (\<exists>f \<in> set fs. X f \<noteq> [])"
  then have "map (\<lambda>f. of_nat (length (X f)) :: u32) fs = map (\<lambda>_. 0) fs" by (intro map_cong) auto
  then have "(\<Sum>f\<leftarrow>fs. of_nat (length (X f)) :: u32) = 0" by (simp only: sum_list_0)
  then show False using assms by (simp add: cache_ok_def)
qed

lemma take_alloc:
  assumes inv: "heap_inv s B A D F X" and k: "kh_cache s c = Some k" and ex: "\<exists>f \<in> set (F c). X f \<noteq> []"
  shows "\<exists>p f i s' X'. slab_take c (sc_slabs k) s = Inr (p, s') \<and> heap_inv s' B A D F X' \<and> dm_at p (ob f (cz k) i) \<and>
    (f, i) \<notin> objs s F X c \<and> (\<forall>c'. objs s' F X' c' = (if c' = c then insert (f, i) (objs s F X c) else objs s F X c')) \<and>
    alloc_frame s B A D s' B A D (ob f (cz k) i)"
proof -
  have sl: "sc_slabs k = map slab_addr (F c)" using heap_inv_cache [OF inv k] by (simp add: cache_ok_def)
  from slab_take_spec [OF inv k order_refl ex] obtain f i xs p s' where
    t: "slab_take c (map slab_addr (F c)) s = Inr (p, s')" "f \<in> set (F c)" "X f = i # xs" "dm_at p (ob f (cz k) i)"
      "heap_inv s' B A D F (X(f := xs))" "obj_step s s' D (ob f (cz k) i)" by blast
  have so: "slab_of s F c k f" using k t(2) by (simp add: slab_of_def)
  have same: "same_caches s s'" using t(6) by (simp add: obj_step_def)
  have "alloc_frame s B A D s' B A D (ob f (cz k) i)"
    using t(6) same data_write_heap_frame [OF _ heap_inv_dm [OF inv]] dm_ok_bound(1) [OF heap_inv_dm [OF inv]]
    by (auto simp: alloc_frame_def obj_step_def)
  moreover have "\<forall>c'. objs s' F (X(f := xs)) c' = (if c' = c then insert (f, i) (objs s F X c) else objs s F X c')"
    using objs_take(2) [OF inv so t(3)] objs_same [OF same] by simp
  ultimately show ?thesis using t(1,4,5) objs_take(1) [where A = A and B = B, OF inv so t(3)] unfolding sl by blast
qed

lemma slab_cache_alloc_spec:
  assumes inv: "heap_inv s B A D F X" and k: "kh_cache s c = Some k" and sz: "\<not> sc_obj_size k < sz"
    and rdy: "sc_free_objects k = 0 \<Longrightarrow> pages_ready B (ucast (sc_nr_pages k))"
  shows "\<exists>p f i s' B' A' D' F' X'. slab_cache_alloc c sz s = Inr (p, s') \<and> heap_inv s' B' A' D' F' X' \<and> dm_at p (ob f (cz k) i) \<and>
    (f, i) \<notin> objs s F X c \<and> (\<forall>c'. objs s' F' X' c' = (if c' = c then insert (f, i) (objs s F X c) else objs s F X c')) \<and>
    alloc_frame s B A D s' B' A' D' (ob f (cz k) i) \<and> card (free_frames B) \<le> grow_cost (ucast (sc_nr_pages k)) + card (free_frames B')"
proof (cases "sc_free_objects k = 0")
  case False
  then have "slab_cache_alloc c sz s = slab_take c (sc_slabs k) s" using k sz by (simp add: slab_cache_alloc_def)
  moreover have "\<exists>f \<in> set (F c). X f \<noteq> []" by (rule some_free [OF heap_inv_cache [OF inv k] False])
  ultimately show ?thesis using take_alloc [OF inv k] by (metis le_add2)
next
  case True
  from slab_cache_growth_spec [OF inv k rdy [OF True]] obtain f0 s1 B1 A1 where
    g: "slab_cache_growth c s = Inr ((), s1)" "{f0..<f0 + cn k} \<subseteq> free_frames B"
      "heap_inv s1 B1 A1 (D \<union> {f0..<f0 + cn k}) (F(c := f0 # F c)) (X(f0 := [0..<nobj (cn k) (cz k)]))" "A \<subseteq> A1" "same_caches s s1"
      "\<forall>x. x div 4096 \<in> D \<longrightarrow> pword (kh_vm s1) x = pword (kh_vm s) x" "heap_frame D (kh_vm s) B (kh_vm s1) B1"
      "card (free_frames B) \<le> grow_cost (ucast (sc_nr_pages k)) + card (free_frames B1)" by blast
  let ?D = "D \<union> {f0..<f0 + cn k}" and ?F = "F(c := f0 # F c)" and ?X = "X(f0 := [0..<nobj (cn k) (cz k)])"
  obtain k1 where k1: "kh_cache s1 c = Some k1" "sc_obj_size k1 = sc_obj_size k" "sc_nr_pages k1 = sc_nr_pages k"
    by (rule same_caches_Some [OF g(5) k])
  have "0 < nobj (cn k) (cz k)" using heap_inv_cache [OF inv k]
    by (auto simp: cache_ok_def cache_geo_def nobj_def div_greater_zero_iff)
  then have "\<exists>f \<in> set (?F c). ?X f \<noteq> []" by simp
  from take_alloc [OF g(3) k1(1) this] obtain p f i s' X' where
    t: "slab_take c (sc_slabs k1) s1 = Inr (p, s')" "heap_inv s' B1 A1 ?D ?F X'" "dm_at p (ob f (cz k) i)" "(f, i) \<notin> objs s1 ?F ?X c"
      "\<forall>c'. objs s' ?F X' c' = (if c' = c then insert (f, i) (objs s1 ?F ?X c) else objs s1 ?F ?X c')"
      "alloc_frame s1 B1 A1 ?D s' B1 A1 ?D (ob f (cz k) i)" unfolding k1(2) by blast
  have run: "slab_cache_alloc c sz s = Inr (p, s')" using k sz True g(1) k1(1) t(1) by (simp add: slab_cache_alloc_def)
  have o: "objs s1 ?F ?X c' = objs s F X c'" for c'
    using objs_same [OF g(5)] objs_grow [OF inv k g(2)] by simp
  have "alloc_frame s B A D s' B1 A1 ?D (ob f (cz k) i)"
    using t(6) g(2,4,6) same_caches_trans [OF g(5)] heap_frame_trans [OF g(7), of ?D "kh_vm s'" B1]
    by (auto simp: alloc_frame_def)
  then show ?thesis using run t(2-5) g(8) unfolding o by blast
qed

end
