(* ===== verification/SlabSafe.thy ===== *)
theory SlabSafe
  imports SlabAlloc
begin

text \<open>
  When the free frames suffice for a cache to grow, and the objects that the allocator has handed out: they lie
  apart from each other.
\<close>

section \<open>When a block of pages is free\<close>

lemma buddy_inv_subset: "buddy_inv s B \<Longrightarrow> buddy_inv s C \<Longrightarrow> B \<subseteq> C"
proof
  fix b assume B: "buddy_inv s B" and C: "buddy_inv s C" and b: "b \<in> B"
  obtain p k where bp: "b = (p, k)" by (cases b)
  have fB: "flags_ok s B" and fC: "flags_ok s C" using B C by (auto simp: buddy_inv_def buddy_rep_def)
  have ok: "blk_ok (nframes s) (p, k)" using buddy_inv_wf [OF B] b bp by (auto simp: wf_blocks_def)
  then have p: "p < nframes s" by (auto simp: blk_ok_def intro: less_le_trans [of p "p + 2 ^ k"])
  then obtain j where j: "(p, j) \<in> C" using fB fC b bp unfolding flags_ok_def by blast
  have "j < MM_MAX_ORDER" using buddy_inv_wf [OF C] j by (auto simp: wf_blocks_def blk_ok_def)
  moreover have "porder (pfn_database s p) = of_nat k" "porder (pfn_database s p) = of_nat j"
    using fB fC b bp j unfolding flags_ok_def by blast+
  then have "(of_nat j :: u16) = of_nat k" by simp
  ultimately have "j = k" using unat_order ok by (metis blk_ok_def snd_conv)
  then show "b \<in> C" using j bp by simp
qed

lemma buddy_inv_unique: "buddy_inv s B \<Longrightarrow> buddy_inv s C \<Longrightarrow> B = C"
  using buddy_inv_subset by blast

text \<open>An aligned group of frames that is entirely free lies in one free block, because free buddies are merged.\<close>

lemma full_group:
  assumes wf: "wf_blocks n B"
  shows "k < MM_MAX_ORDER \<Longrightarrow> {q * 2 ^ k..<q * 2 ^ k + 2 ^ k} \<subseteq> free_frames B \<Longrightarrow>
    \<exists>p j. (p, j) \<in> B \<and> k \<le> j \<and> q * 2 ^ k \<in> blk_frames (p, j)"
proof (induction k arbitrary: q)
  case 0
  then have "q \<in> free_frames B" by auto
  then show ?case by (auto simp: free_frames_def)
next
  case (Suc k)
  let ?a = "q * 2 ^ Suc k" and ?b = "q * 2 ^ Suc k + 2 ^ k"
  have ab: "?a = (2 * q) * 2 ^ k" "?b = Suc (2 * q) * 2 ^ k" by simp_all
  have sub: "{?a..<?a + 2 ^ k} \<subseteq> free_frames B" "{?b..<?b + 2 ^ k} \<subseteq> free_frames B" using Suc.prems(2) by auto
  have "k < MM_MAX_ORDER" using Suc.prems(1) by simp
  note IH = Suc.IH [OF this]
  have "\<exists>p j. (p, j) \<in> B \<and> k \<le> j \<and> ?a \<in> blk_frames (p, j)" using sub(1) unfolding ab by (rule IH)
  moreover have "\<exists>p j. (p, j) \<in> B \<and> k \<le> j \<and> ?b \<in> blk_frames (p, j)" using sub(2) unfolding ab(2) by (rule IH)
  ultimately obtain p1 j1 p2 j2 where 1: "(p1, j1) \<in> B" "k \<le> j1" "?a \<in> blk_frames (p1, j1)"
    and 2: "(p2, j2) \<in> B" "k \<le> j2" "?b \<in> blk_frames (p2, j2)" by blast
  have al: "2 ^ j1 dvd p1" "2 ^ j2 dvd p2" using wf 1(1) 2(1) by (auto simp: wf_blocks_def blk_ok_def)
  show ?case
  proof (cases "Suc k \<le> j1")
    case False
    then have j1: "j1 = k" using 1(2) by simp
    obtain m where m: "p1 = 2 ^ k * m" using al(1) j1 by auto
    have "m \<le> 2 * q" using 1(3) j1 m by (simp add: blk_frames_def ab)
    moreover have "2 ^ k * (2 * q) < 2 ^ k * Suc m" using 1(3) j1 m by (simp add: blk_frames_def mult.commute)
    then have "2 * q < Suc m" by (simp only: nat_mult_less_cancel_disj)
    ultimately have p1: "p1 = ?a" using m by simp
    show ?thesis
    proof (cases "Suc k \<le> j2")
      case True
      have "2 ^ Suc k dvd p2" using al(2) le_imp_power_dvd [OF True] dvd_trans by blast
      then obtain m where m: "p2 = 2 ^ Suc k * m" by auto
      have "(0 :: nat) < 2 ^ k" by simp
      moreover have "2 ^ Suc k * m \<le> 2 ^ Suc k * q + 2 ^ k" using 2(3) m by (simp add: blk_frames_def mult.commute)
      moreover have "2 ^ Suc k * Suc q = 2 ^ Suc k * q + 2 ^ k + (2 ^ k :: nat)" by simp
      ultimately have "2 ^ Suc k * m < 2 ^ Suc k * Suc q" by linarith
      then have "m < Suc q" by (simp only: nat_mult_less_cancel_disj)
      then have "p2 \<le> ?a" using m by simp
      then have "?a \<in> blk_frames (p2, j2)" using 2(3) by (simp add: blk_frames_def)
      then show ?thesis using 2(1) True by blast
    next
      case False
      then have j2: "j2 = k" using 2(2) by simp
      obtain m where m: "p2 = 2 ^ k * m" using al(2) j2 by auto
      have "2 ^ k * m \<le> 2 ^ k * Suc (2 * q)" using 2(3) j2 m by (simp add: blk_frames_def mult.commute)
      then have "m \<le> Suc (2 * q)" by (simp only: nat_mult_le_cancel_disj) simp
      moreover have "2 ^ k * Suc (2 * q) < 2 ^ k * Suc m" using 2(3) j2 m by (simp add: blk_frames_def mult.commute)
      then have "Suc (2 * q) < Suc m" by (simp only: nat_mult_less_cancel_disj)
      ultimately have "m = Suc (2 * q)" by simp
      then have p2: "p2 = ?b" using m by (simp add: mult.commute)
      have "buddy_of (p1, k) = (p2, k)" using xor_aligned [of "2 * q" k] unfolding p1 p2 ab by (simp add: buddy_of_def)
      moreover have "buddy_of (p1, k) \<notin> B" using wf 1(1) j1 Suc.prems(1) by (auto simp: wf_blocks_def)
      ultimately show ?thesis using 2(1) j2 by simp
    qed
  qed (use 1 in blast)
qed

lemma four_pages:
  assumes wf: "wf_blocks n B" and c: "3 * ((n + 3) div 4) < card (free_frames B)"
  shows "\<exists>p j. (p, j) \<in> B \<and> 2 \<le> j"
proof (rule ccontr)
  assume none: "\<not> (\<exists>p j. (p, j) \<in> B \<and> 2 \<le> j)"
  let ?g = "\<lambda>q. {q * 4..<q * 4 + 4} \<inter> free_frames B"
  have g3: "card (?g q) \<le> 3" for q
  proof -
    have "\<not> {q * 4..<q * 4 + 4} \<subseteq> free_frames B"
      using full_group [OF wf, of 2 q] none by (auto simp: MM_MAX_ORDER_def)
    then have "?g q \<subset> {q * 4..<q * 4 + 4}" by blast
    from psubset_card_mono [OF _ this] show ?thesis by simp
  qed
  have "free_frames B \<subseteq> (\<Union>q<(n + 3) div 4. ?g q)"
  proof
    fix f assume f: "f \<in> free_frames B"
    then have "f < n" using free_frames_bound [OF wf] by blast
    then have "f div 4 < (n + 3) div 4" by linarith
    moreover have "f \<in> ?g (f div 4)" using f by simp
    ultimately show "f \<in> (\<Union>q<(n + 3) div 4. ?g q)" by blast
  qed
  then have "card (free_frames B) \<le> card (\<Union>q<(n + 3) div 4. ?g q)" by (rule card_mono [rotated]) simp
  also have "\<dots> \<le> (\<Sum>q<(n + 3) div 4. card (?g q))" by (rule card_UN_le) simp
  also have "\<dots> \<le> (\<Sum>q<(n + 3) div 4. 3)" by (rule sum_mono) (rule g3)
  finally show False using c by simp
qed

lemma order_for_small: "order_for 2 = 1" "order_for 4 = 2"
proof -
  show "order_for 2 = 1" unfolding order_for_def
  proof (rule Least_equality)
    fix k assume "unat (2 :: u64) \<le> 2 ^ k"
    then show "1 \<le> k" by (cases k) simp_all
  qed simp
  show "order_for 4 = 2" unfolding order_for_def
  proof (rule Least_equality)
    fix k assume k: "unat (4 :: u64) \<le> 2 ^ k"
    show "2 \<le> k"
    proof (rule ccontr)
      assume "\<not> 2 \<le> k"
      then have "k = 0 \<or> k = 1" by auto
      with k show False by auto
    qed
  qed simp
qed

lemma grow_cost_small: "n \<in> {1, 2, 4} \<Longrightarrow> grow_cost n \<le> 10"
  by (auto simp: grow_cost_def order_for_1 order_for_small need_tables_def)

text \<open>A block of four pages or more and ten free frames: enough for any cache to grow.\<close>

definition slab_ready :: "kheap \<Rightarrow> bool" where
  "slab_ready s \<longleftrightarrow> (\<exists>j \<in> {2..<MM_MAX_ORDER}. nr_free (vm_kmem (kh_vm s)) j \<noteq> 0) \<and> 10 \<le> nr_free_pages (vm_kmem (kh_vm s))"

lemma slab_ready_pages:
  assumes r: "slab_ready s" and inv: "buddy_inv (vm_kmem (kh_vm s)) B" and n: "n \<in> {1, 2, 4}"
  shows "pages_ready B n"
proof -
  obtain F where F: "buddy_rep (vm_kmem (kh_vm s)) F" "heads F = B" using inv by (auto simp: buddy_inv_def)
  obtain j where j: "2 \<le> j" "j < MM_MAX_ORDER" "nr_free (vm_kmem (kh_vm s)) j \<noteq> 0" using r by (auto simp: slab_ready_def)
  then have "F j \<noteq> []" using F(1) by (auto simp: buddy_rep_def rings_ok_def)
  then obtain p where p: "(p, j) \<in> B" using F(2) j(2) by (fastforce simp: heads_def neq_Nil_conv)
  have "2 ^ 2 \<le> (2 ^ j :: nat)" by (rule power_increasing [OF j(1)]) simp
  then have "unat n \<le> 2 ^ j" using n by auto
  then have "\<exists>(p, j) \<in> B. unat n \<le> 2 ^ j" using p by blast
  moreover have "10 \<le> card (free_frames B)" using r nr_free_pages_card [OF inv] by (simp add: slab_ready_def word_le_nat_alt)
  ultimately show ?thesis using n grow_cost_small [OF n] by (auto simp: pages_ready_def)
qed

lemma slab_ready_if:
  assumes inv: "buddy_inv (vm_kmem (kh_vm s)) B" and c: "3 * ((nframes (vm_kmem (kh_vm s)) + 3) div 4) + 10 \<le> card (free_frames B)"
  shows "slab_ready s"
proof -
  let ?m = "vm_kmem (kh_vm s)"
  obtain F where F: "buddy_rep ?m F" "heads F = B" using inv by (auto simp: buddy_inv_def)
  obtain p j where pj: "(p, j) \<in> B" "2 \<le> j" using four_pages [OF buddy_inv_wf [OF inv]] c by auto
  have j: "j < MM_MAX_ORDER" "p \<in> set (F j)" using pj(1) F(2) by (auto simp: heads_def)
  have w: "wf_blocks (nframes ?m) (heads F)" and nr: "nr_free ?m j = of_nat (length (F j))"
    using F(1) j by (auto simp: buddy_rep_def rings_ok_def)
  have "distinct (F j)" using F(1) j(1) by (auto simp: buddy_rep_def rings_ok_def is_dlist_def distinct_map)
  then have "length (F j) = card (set (F j))" by (simp add: distinct_card)
  also have "\<dots> \<le> card {..<nframes ?m}"
  proof (rule card_mono)
    show "set (F j) \<subseteq> {..<nframes ?m}"
    proof
      fix q assume "q \<in> set (F j)"
      then have "blk_ok (nframes ?m) (q, j)" using w j(1) by (auto simp: wf_blocks_def heads_def)
      then show "q \<in> {..<nframes ?m}" by (auto simp: blk_ok_def intro: less_le_trans [of q "q + 2 ^ j"])
    qed
  qed simp
  finally have "length (F j) < 2 ^ 52" using nframes_less [of ?m] by simp
  then have "nr_free ?m j \<noteq> 0" using nr j(2) by (auto simp: word_unat_eq_iff unat_of_nat)
  moreover have "10 \<le> nr_free_pages ?m" using c nr_free_pages_card [OF inv] by (simp add: word_le_nat_alt)
  ultimately show ?thesis using pj(2) j(1) by (auto simp: slab_ready_def)
qed

section \<open>Objects handed out\<close>

text \<open>The objects in use of the caches that serve \<^verbatim>\<open>slab_alloc\<close>, as their addresses and sizes, and the addresses of the words of one.\<close>

definition handed :: "kheap \<Rightarrow> (cache_ref \<Rightarrow> nat list) \<Rightarrow> (nat \<Rightarrow> nat list) \<Rightarrow> (u64 \<times> u64) set" where
  "handed s F X = {(p, z). \<exists>a k f i. kh_cache s (CacheAt a) = Some k \<and> z = sc_obj_size k \<and>
     (f, i) \<in> objs s F X (CacheAt a) \<and> dm_at p (ob f (cz k) i)}"

definition obj_words :: "u64 \<times> u64 \<Rightarrow> u64 set" where
  "obj_words b = {fst b + 8 * of_nat j | j. j < unat (snd b) div 8}"

lemma handedE:
  assumes "(p, z) \<in> handed s F X"
  obtains a k f i where "slab_of s F (CacheAt a) k f" "z = sc_obj_size k" "i < nobj (cn k) (cz k)" "i \<notin> set (X f)"
    "dm_at p (ob f (cz k) i)"
  using assms by (auto simp: handed_def objs_def slab_of_def)

lemma handedI:
  "slab_of s F (CacheAt a) k f \<Longrightarrow> i < nobj (cn k) (cz k) \<Longrightarrow> i \<notin> set (X f) \<Longrightarrow> dm_at p (ob f (cz k) i) \<Longrightarrow>
   (p, sc_obj_size k) \<in> handed s F X"
  unfolding handed_def objs_def slab_of_def by blast

lemma obj_apart:
  assumes inv: "heap_inv s B A D F X" and a: "slab_of s F c k f" "i < nobj (cn k) (cz k)"
    and b: "slab_of s F c' k' f'" "i' < nobj (cn k') (cz k')" and ne: "(f, i) \<noteq> (f', i')"
  shows "ob f (cz k) i + cz k \<le> ob f' (cz k') i' \<or> ob f' (cz k') i' + cz k' \<le> ob f (cz k) i"
proof (cases "f' = f")
  case True
  then have k: "k' = k" using slab_of_unique(2) [OF inv a(1)] b(1) by blast
  have "i < i' \<or> i' < i" using ne True by auto
  then have "Suc i * cz k \<le> i' * cz k \<or> Suc i' * cz k \<le> i * cz k" by (auto intro: mult_le_mono1 simp: Suc_le_eq simp del: mult_Suc)
  then show ?thesis using True k by (auto simp: ob_def)
next
  case False
  have n: "0 < cn k" "0 < cn k'" using slab_of_frames [OF inv] a(1) b(1) by blast+
  have "{f..<f + cn k} \<inter> {f'..<f' + cn k'} = {}" by (rule slab_apartD [OF inv a(1) b(1)]) (use False in simp)
  then have "f + cn k \<le> f' \<or> f' + cn k' \<le> f" using n by (intro ivl_apart)
  then have "(f + cn k) * 4096 \<le> f' * 4096 \<or> (f' + cn k') * 4096 \<le> f * 4096" by auto
  moreover have "ob f (cz k) i + cz k \<le> (f + cn k) * 4096" "ob f' (cz k') i' + cz k' \<le> (f' + cn k') * 4096"
    using ob_end a(2) b(2) by blast+
  moreover have "f * 4096 \<le> ob f (cz k) i" "f' * 4096 \<le> ob f' (cz k') i'" by (simp_all add: ob_def)
  ultimately show ?thesis by linarith
qed

lemma handed_apart:
  assumes inv: "heap_inv s B A D F X" and p: "(p, z) \<in> handed s F X" and q: "(q, w) \<in> handed s F X" and ne: "(p, z) \<noteq> (q, w)"
  shows "unat p + unat z \<le> unat q \<or> unat q + unat w \<le> unat p"
proof -
  obtain a k f i where 1: "slab_of s F (CacheAt a) k f" "z = sc_obj_size k" "i < nobj (cn k) (cz k)" "dm_at p (ob f (cz k) i)"
    using handedE [OF p] by metis
  obtain a' k' f' i' where 2: "slab_of s F (CacheAt a') k' f'" "w = sc_obj_size k'" "i' < nobj (cn k') (cz k')" "dm_at q (ob f' (cz k') i')"
    using handedE [OF q] by metis
  have "(f, i) \<noteq> (f', i')"
  proof
    assume e: "(f, i) = (f', i')"
    then have "k' = k" using slab_of_unique(2) [OF inv 1(1)] 2(1) by blast
    then show False using e ne 1 2 dm_at_inj by auto
  qed
  from obj_apart [OF inv 1(1,3) 2(1,3) this] show ?thesis using 1(2,4) 2(2,4) by (auto simp: dm_at_def)
qed

end
