(* ===== verification/SlabSpec.thy ===== *)
theory SlabSpec
  imports SlabSafe
begin

text \<open>
  The allocator as a whole: \<^verbatim>\<open>slab_alloc\<close> and \<^verbatim>\<open>slab_free\<close> on the list of caches, and stores to objects in use.
\<close>

section \<open>Words of objects\<close>

definition word_at :: "kheap \<Rightarrow> u64 \<Rightarrow> u64 option" where
  "word_at s a = (case vread a (kh_vm s) of Inl _ \<Rightarrow> None | Inr (v, _) \<Rightarrow> Some v)"

lemma word_at_dm: "dm_ok (kh_vm s) B A D \<Longrightarrow> dm_at a x \<Longrightarrow> x div 4096 \<in> D \<Longrightarrow> word_at s a = Some (pword (kh_vm s) x)"
  by (simp add: word_at_def dm_read)

lemma obj_word:
  assumes inv: "heap_inv s B A D F X" and sl: "slab_of s F c k f" and i: "i < nobj (cn k) (cz k)" and p: "dm_at p (ob f (cz k) i)"
    and j: "j < cz k div 8"
  shows "dm_at (p + 8 * of_nat j) (ob f (cz k) i + 8 * j)" and "(ob f (cz k) i + 8 * j) div 4096 \<in> D"
    and "8 dvd ob f (cz k) i + 8 * j" and "8 * j + 8 \<le> cz k"
proof -
  have g: "cache_geo (cn k) (cz k)" using heap_inv_slab [OF inv sl] by blast
  show j8: "8 * j + 8 \<le> cz k" using j by linarith
  have fr: "(ob f (cz k) i + 8 * j) div 4096 \<in> {f..<f + cn k}" by (rule ob_frame [OF i]) (use j8 in simp)
  then show D: "(ob f (cz k) i + 8 * j) div 4096 \<in> D" using slab_of_frames [OF inv sl] by blast
  have "(ob f (cz k) i + 8 * j) div 4096 < 2 ^ 27" by (rule dm_ok_bound(1) [OF heap_inv_dm [OF inv] D])
  then have lt: "ob f (cz k) i + 8 * j < 2 ^ 39" by (simp add: div_less_iff_less_mult)
  have "8 * j < 2 ^ 32" using j8 g by (simp add: cache_geo_def)
  then have u: "unat (8 * of_nat j :: u64) = 8 * j" by (simp add: unat_word_ariths unat_of_nat)
  show "dm_at (p + 8 * of_nat j) (ob f (cz k) i + 8 * j)" using dm_at_add [OF p, of "8 * of_nat j"] u lt by simp
  show "8 dvd ob f (cz k) i + 8 * j" using g by (auto simp: ob_def cache_geo_def)
qed

lemma obj_words_keep:
  assumes inv: "heap_inv s B A D F X" and sl: "slab_of s F c k f" and i: "i < nobj (cn k) (cz k)" and p: "dm_at p (ob f (cz k) i)"
    and inv': "heap_inv s' B' A' D' F' X'" and D: "D \<subseteq> D'"
    and w: "\<And>j. j < cz k div 8 \<Longrightarrow> pword (kh_vm s') (ob f (cz k) i + 8 * j) = pword (kh_vm s) (ob f (cz k) i + 8 * j)"
    and a: "a \<in> obj_words (p, sc_obj_size k)"
  shows "word_at s' a = word_at s a" and "word_at s a \<noteq> None"
proof -
  obtain j where j: "a = p + 8 * of_nat j" "j < cz k div 8" using a by (auto simp: obj_words_def)
  note o = obj_word [OF inv sl i p j(2)]
  have "word_at s a = Some (pword (kh_vm s) (ob f (cz k) i + 8 * j))" unfolding j(1) by (rule word_at_dm [OF heap_inv_dm [OF inv] o(1,2)])
  moreover have "word_at s' a = Some (pword (kh_vm s') (ob f (cz k) i + 8 * j))"
    unfolding j(1) by (rule word_at_dm [OF heap_inv_dm [OF inv'] o(1)]) (use o(2) D in blast)
  ultimately show "word_at s' a = word_at s a" "word_at s a \<noteq> None" using w [OF j(2)] by simp_all
qed

text \<open>A word of one object is not a word of another.\<close>

lemma obj_word_apart:
  assumes inv: "heap_inv s B A D F X" and a: "slab_of s F c k f" "i < nobj (cn k) (cz k)" "j < cz k div 8"
    and b: "slab_of s F c' k' f'" "i' < nobj (cn k') (cz k')" "j' < cz k' div 8" and ne: "(f, i) \<noteq> (f', i')"
  shows "(ob f (cz k) i + 8 * j) div 8 \<noteq> (ob f' (cz k') i' + 8 * j') div 8"
proof -
  have "cache_geo (cn k) (cz k)" "cache_geo (cn k') (cz k')" using heap_inv_slab [OF inv] a(1) b(1) by metis+
  then have "8 dvd ob f (cz k) i + 8 * j" "8 dvd ob f' (cz k') i' + 8 * j'" by (auto simp: ob_def cache_geo_def)
  moreover have "8 * j + 8 \<le> cz k" "8 * j' + 8 \<le> cz k'" using a(3) b(3) by linarith+
  then have "ob f (cz k) i + 8 * j \<noteq> ob f' (cz k') i' + 8 * j'" using obj_apart [OF inv a(1,2) b(1,2) ne] by linarith
  ultimately show ?thesis by (simp only: word_eq not_False_eq_True)
qed

section \<open>The list of caches\<close>

text \<open>The caches in the list are those of \<^verbatim>\<open>slab_size_list\<close>, in that order, and there are no others.\<close>

definition cache_dim :: "slab_cache \<Rightarrow> u64 \<times> u32" where
  "cache_dim k = (sc_obj_size k, sc_nr_pages k)"

definition std_heap :: "(string \<times> u32 \<times> u32) list \<Rightarrow> kheap \<Rightarrow> bool" where
  "std_heap es s \<longleftrightarrow>
     map (\<lambda>p. map_option cache_dim (kh_cache s (CacheAt p))) (cache_cache_head s) = map (\<lambda>(_, z, n). Some (ucast z, n)) es \<and>
     (\<forall>p. kh_cache s (CacheAt p) \<noteq> None \<longrightarrow> p \<in> set (cache_cache_head s))"

definition slab_class :: "u64 \<Rightarrow> u64" where
  "slab_class sz = (case find (\<lambda>(_, z, _). sz \<le> ucast z) slab_size_list of None \<Rightarrow> 0 | Some (_, z, _) \<Rightarrow> ucast z)"

lemma std_heap_same: "same_caches s s' \<Longrightarrow> std_heap es s' = std_heap es s"
  using same_caches_None [of s s'] by (simp add: same_caches_def std_heap_def cache_dim_def [abs_def])

lemma slab_alloc_from_find:
  assumes "map (\<lambda>p. map_option cache_dim (kh_cache s (CacheAt p))) cs = map (\<lambda>(_, z, n). Some (ucast z, n)) es"
  shows "case find (\<lambda>(_, z, _). sz \<le> ucast z) es of None \<Rightarrow> slab_alloc_from sz cs s = Inr (0, s)
    | Some (_, z, n) \<Rightarrow> \<exists>p k. kh_cache s (CacheAt p) = Some k \<and> sc_obj_size k = ucast z \<and> sc_nr_pages k = n \<and>
        slab_alloc_from sz cs s = slab_cache_alloc (CacheAt p) sz s"
  using assms
proof (induction es arbitrary: cs)
  case Nil
  then show ?case by (simp add: kreturn_def)
next
  case (Cons e es)
  obtain nm z n where e: "e = (nm, z, n)" by (cases e)
  obtain p ps where cs: "cs = p # ps" using Cons.prems by (cases cs) auto
  obtain k where k: "kh_cache s (CacheAt p) = Some k" "sc_obj_size k = ucast z" "sc_nr_pages k = n"
    using Cons.prems cs e by (auto simp: cache_dim_def)
  show ?case
  proof (cases "sz \<le> ucast z")
    case True
    then show ?thesis using k cs e by auto
  next
    case False
    then have eq: "slab_alloc_from sz cs s = slab_alloc_from sz ps s" using k cs by simp
    have fd: "find (\<lambda>(_, z, _). sz \<le> ucast z) (e # es) = find (\<lambda>(_, z, _). sz \<le> ucast z) es" using e False by simp
    show ?thesis unfolding fd eq by (rule Cons.IH) (use Cons.prems cs in simp)
  qed
qed

lemma slab_class_find:
  assumes "sz \<le> SLAB_ALLOC_MAX_SIZE"
  shows "\<exists>nm z n. find (\<lambda>(_, z, _). sz \<le> ucast z) slab_size_list = Some (nm, z, n) \<and> ucast n \<in> {1, 2, 4 :: u64} \<and>
    slab_class sz = ucast z \<and> sz \<le> ucast z"
  using assms by (auto simp: slab_class_def slab_size_list_def SLAB_ALLOC_MAX_SIZE_def)

lemma slab_class_none: "SLAB_ALLOC_MAX_SIZE < sz \<Longrightarrow> find (\<lambda>(_, z, _). sz \<le> ucast z) slab_size_list = None"
  by (auto simp: find_None_iff slab_size_list_def SLAB_ALLOC_MAX_SIZE_def not_le intro: le_less_trans [rotated])

section \<open>Objects in use after a call\<close>

lemma handed_size:
  "handed s F X = {(p, z). \<exists>a f i. map_option sc_obj_size (kh_cache s (CacheAt a)) = Some z \<and>
     (f, i) \<in> objs s F X (CacheAt a) \<and> dm_at p (ob f (unat z) i)}"
  unfolding handed_def by auto

lemma same_caches_size: "same_caches s s' \<Longrightarrow> map_option sc_obj_size (kh_cache s' c) = map_option sc_obj_size (kh_cache s c)"
proof -
  assume "same_caches s s'"
  then have "map_option fst (map_option (\<lambda>k. (sc_obj_size k, sc_nr_pages k)) (kh_cache s' c)) =
    map_option fst (map_option (\<lambda>k. (sc_obj_size k, sc_nr_pages k)) (kh_cache s c))" by (simp only: same_caches_def)
  then show ?thesis by (simp add: option.map_comp comp_def)
qed

lemma handed_insert:
  assumes same: "same_caches s s'" and k: "kh_cache s (CacheAt a) = Some k" and p: "dm_at p (ob f (cz k) i)"
    and o: "\<forall>c'. objs s' F' X' c' = (if c' = CacheAt a then insert (f, i) (objs s F X (CacheAt a)) else objs s F X c')"
  shows "handed s' F' X' = insert (p, sc_obj_size k) (handed s F X)"
proof (intro set_eqI)
  fix b :: "u64 \<times> u64"
  obtain q w where b: "b = (q, w)" by (cases b)
  have mem: "(g, j) \<in> objs s' F' X' (CacheAt a') \<longleftrightarrow> (g, j) \<in> objs s F X (CacheAt a') \<or> a' = a \<and> g = f \<and> j = i" for a' g j
    using o by (cases "a' = a") auto
  have "b \<in> handed s' F' X' \<longleftrightarrow> (\<exists>a' g j. map_option sc_obj_size (kh_cache s (CacheAt a')) = Some w \<and>
      ((g, j) \<in> objs s F X (CacheAt a') \<or> a' = a \<and> g = f \<and> j = i) \<and> dm_at q (ob g (unat w) j))"
    unfolding b handed_size same_caches_size [OF same] mem_Collect_eq prod.case mem by (rule refl)
  also have "\<dots> \<longleftrightarrow> b \<in> handed s F X \<or> w = sc_obj_size k \<and> dm_at q (ob f (unat w) i)"
    unfolding b handed_size using k by auto
  also have "\<dots> \<longleftrightarrow> b \<in> insert (p, sc_obj_size k) (handed s F X)" unfolding b using p dm_at_inj by auto
  finally show "b \<in> handed s' F' X' \<longleftrightarrow> b \<in> insert (p, sc_obj_size k) (handed s F X)" .
qed

lemma objs_slab: "(f, i) \<in> objs s F X c \<Longrightarrow> kh_cache s c = Some k \<Longrightarrow> slab_of s F c k f \<and> i < nobj (cn k) (cz k) \<and> i \<notin> set (X f)"
  by (auto simp: objs_def slab_of_def)

lemma obj_at_unique:
  assumes inv: "heap_inv s B A D F X" and a: "slab_of s F c k f" "i < nobj (cn k) (cz k)"
    and b: "slab_of s F c' k' f'" "i' < nobj (cn k') (cz k')" and e: "ob f (cz k) i = ob f' (cz k') i'"
  shows "c' = c" and "k' = k" and "f' = f" and "i' = i"
proof -
  have z: "0 < cz k" "0 < cz k'" using a(2) b(2) by (auto simp: nobj_def intro: ccontr)
  have fi: "(f, i) = (f', i')"
  proof (rule ccontr)
    assume "(f, i) \<noteq> (f', i')"
    from obj_apart [OF inv a b this] show False using e z by linarith
  qed
  then show "f' = f" "i' = i" by simp_all
  then show "c' = c" "k' = k" using slab_of_unique [OF inv a(1)] b(1) by blast+
qed

text \<open>The object \<open>(f, i)\<close> of cache \<open>a\<close> was taken, the other objects in use stay where they are.\<close>

definition taken :: "kheap \<Rightarrow> (cache_ref \<Rightarrow> nat list) \<Rightarrow> (nat \<Rightarrow> nat list) \<Rightarrow> kheap \<Rightarrow> (cache_ref \<Rightarrow> nat list) \<Rightarrow> (nat \<Rightarrow> nat list) \<Rightarrow> u64 \<Rightarrow> nat \<Rightarrow> nat \<Rightarrow> bool" where
  "taken s F X s' F' X' a f i \<longleftrightarrow> same_caches s s' \<and> (f, i) \<notin> objs s F X (CacheAt a) \<and>
     (\<forall>c'. objs s' F' X' c' = (if c' = CacheAt a then insert (f, i) (objs s F X (CacheAt a)) else objs s F X c'))"

lemma taken_old:
  assumes t: "taken s F X s' F' X' a f i" and inv': "heap_inv s' B' A' D' F' X'"
    and o: "slab_of s F (CacheAt a2) k2 f2" "i2 < nobj (cn k2) (cz k2)" "i2 \<notin> set (X f2)"
  obtains k3 where "slab_of s' F' (CacheAt a2) k3 f2" and "sc_obj_size k3 = sc_obj_size k2" and "sc_nr_pages k3 = sc_nr_pages k2"
    and "(f2, i2) \<noteq> (f, i)"
proof -
  have same: "same_caches s s'" using t by (simp add: taken_def)
  have k2: "kh_cache s (CacheAt a2) = Some k2" and m: "(f2, i2) \<in> objs s F X (CacheAt a2)" using o by (auto simp: slab_of_def objs_def)
  obtain k3 where k3: "kh_cache s' (CacheAt a2) = Some k3" "sc_obj_size k3 = sc_obj_size k2" "sc_nr_pages k3 = sc_nr_pages k2"
    by (rule same_caches_Some [OF same k2])
  have "(f2, i2) \<in> objs s' F' X' (CacheAt a2)" using m t by (auto simp: taken_def)
  then have s3: "slab_of s' F' (CacheAt a2) k3 f2" using objs_slab [OF _ k3(1)] by blast
  have "(f2, i2) \<noteq> (f, i)"
  proof
    assume e: "(f2, i2) = (f, i)"
    have "(f, i) \<in> objs s' F' X' (CacheAt a)" using t by (auto simp: taken_def)
    then obtain k where "slab_of s' F' (CacheAt a) k f" by (auto simp: objs_def)
    then have "CacheAt a2 = CacheAt a" using slab_of_unique(1) [OF inv' _] s3 e by blast
    then show False using m e t by (simp add: taken_def)
  qed
  then show ?thesis using that s3 k3(2,3) by blast
qed

lemma taken_new:
  assumes t: "taken s F X s' F' X' a f i" and k: "kh_cache s (CacheAt a) = Some k"
  obtains k' where "slab_of s' F' (CacheAt a) k' f" and "i < nobj (cn k') (cz k')" and "sc_obj_size k' = sc_obj_size k"
    and "sc_nr_pages k' = sc_nr_pages k"
proof -
  obtain k' where k': "kh_cache s' (CacheAt a) = Some k'" "sc_obj_size k' = sc_obj_size k" "sc_nr_pages k' = sc_nr_pages k"
    using t by (auto simp: taken_def elim: same_caches_Some [OF _ k])
  have "(f, i) \<in> objs s' F' X' (CacheAt a)" using t by (auto simp: taken_def)
  then show ?thesis using that objs_slab [OF _ k'(1)] k'(2,3) by blast
qed

lemma taken_fresh:
  assumes t: "taken s F X s' F' X' a f i" and inv': "heap_inv s' B' A' D' F' X'" and k: "kh_cache s (CacheAt a) = Some k"
    and p: "dm_at p (ob f (cz k) i)"
  shows "(p, sc_obj_size k) \<notin> handed s F X"
proof
  assume "(p, sc_obj_size k) \<in> handed s F X"
  then obtain a2 k2 f2 i2 where o: "slab_of s F (CacheAt a2) k2 f2" "i2 < nobj (cn k2) (cz k2)" "i2 \<notin> set (X f2)"
    "dm_at p (ob f2 (cz k2) i2)" by (rule handedE)
  obtain k3 where k3: "slab_of s' F' (CacheAt a2) k3 f2" "sc_obj_size k3 = sc_obj_size k2" "sc_nr_pages k3 = sc_nr_pages k2" "(f2, i2) \<noteq> (f, i)"
    by (rule taken_old [OF t inv' o(1-3)])
  obtain k' where k': "slab_of s' F' (CacheAt a) k' f" "i < nobj (cn k') (cz k')" "sc_obj_size k' = sc_obj_size k" "sc_nr_pages k' = sc_nr_pages k"
    by (rule taken_new [OF t k])
  have "ob f (cz k') i = ob f2 (cz k3) i2" using o(4) p k3(2) k'(3) by (simp add: dm_at_def)
  from obj_at_unique(3,4) [OF inv' k'(1,2) k3(1) _ this] show False using o(2) k3 by simp
qed

lemma taken_keeps:
  assumes t: "taken s F X s' F' X' a f i" and inv: "heap_inv s B A D F X" and inv': "heap_inv s' B' A' D' F' X'"
    and k: "kh_cache s (CacheAt a) = Some k" and D: "D \<subseteq> D'"
    and keep: "\<And>y. y div 4096 \<in> D \<Longrightarrow> y div 8 \<noteq> ob f (cz k) i div 8 \<Longrightarrow> pword (kh_vm s') y = pword (kh_vm s) y"
    and b: "b \<in> handed s F X" "y \<in> obj_words b"
  shows "word_at s' y = word_at s y"
proof -
  obtain q w where q: "b = (q, w)" by (cases b)
  obtain a2 k2 f2 i2 where o: "slab_of s F (CacheAt a2) k2 f2" "w = sc_obj_size k2" "i2 < nobj (cn k2) (cz k2)" "i2 \<notin> set (X f2)"
    "dm_at q (ob f2 (cz k2) i2)" using b(1) unfolding q by (rule handedE)
  obtain k3 where k3: "slab_of s' F' (CacheAt a2) k3 f2" "sc_obj_size k3 = sc_obj_size k2" "sc_nr_pages k3 = sc_nr_pages k2" "(f2, i2) \<noteq> (f, i)"
    by (rule taken_old [OF t inv' o(1,3,4)])
  obtain k' where k': "slab_of s' F' (CacheAt a) k' f" "i < nobj (cn k') (cz k')" "sc_obj_size k' = sc_obj_size k" "sc_nr_pages k' = sc_nr_pages k"
    by (rule taken_new [OF t k])
  have z: "0 < cz k' div 8" using heap_inv_cache [OF inv k] k'(3,4) by (auto simp: cache_ok_def cache_geo_def)
  show ?thesis
  proof (rule obj_words_keep(1) [OF inv o(1,3,5) inv' D])
    fix j assume j: "j < cz k2 div 8"
    have "(ob f2 (cz k2) i2 + 8 * j) div 8 \<noteq> ob f (cz k) i div 8"
      using obj_word_apart [OF inv' k3(1) _ _ k'(1,2) z k3(4), of j] o(3) j k3 k' by simp
    then show "pword (kh_vm s') (ob f2 (cz k2) i2 + 8 * j) = pword (kh_vm s) (ob f2 (cz k2) i2 + 8 * j)"
      using keep obj_word(2) [OF inv o(1,3,5) j] by blast
  qed (use b(2) q o(2) in simp)
qed

lemma slab_alloc_spec:
  assumes inv: "heap_inv s B A D F X" and std: "std_heap slab_size_list s" and sz: "sz \<le> SLAB_ALLOC_MAX_SIZE"
    and rdy: "\<And>n. n \<in> {1, 2, 4} \<Longrightarrow> pages_ready B n"
  shows "\<exists>p s' B' A' D' F' X'. slab_alloc sz s = Inr (p, s') \<and> heap_inv s' B' A' D' F' X' \<and> std_heap slab_size_list s' \<and>
    handed s' F' X' = insert (p, slab_class sz) (handed s F X) \<and> (p, slab_class sz) \<notin> handed s F X \<and>
    (\<forall>b \<in> handed s F X. \<forall>a \<in> obj_words b. word_at s' a = word_at s a)"
proof -
  obtain nm z n where fd: "find (\<lambda>(_, z, _). sz \<le> ucast z) slab_size_list = Some (nm, z, n)" "ucast n \<in> {1, 2, 4 :: u64}"
    "slab_class sz = ucast z" "sz \<le> ucast z" using slab_class_find [OF sz] by blast
  have "\<exists>p k. kh_cache s (CacheAt p) = Some k \<and> sc_obj_size k = ucast z \<and> sc_nr_pages k = n \<and>
      slab_alloc_from sz (cache_cache_head s) s = slab_cache_alloc (CacheAt p) sz s"
    using slab_alloc_from_find [of s "cache_cache_head s" slab_size_list sz] std fd(1) by (simp add: std_heap_def)
  then obtain a k where k: "kh_cache s (CacheAt a) = Some k" "sc_obj_size k = ucast z" "sc_nr_pages k = n"
    and run: "slab_alloc_from sz (cache_cache_head s) s = slab_cache_alloc (CacheAt a) sz s" by blast
  have nl: "\<not> sc_obj_size k < sz" using k(2) fd(4) by simp
  have pr: "pages_ready B (ucast (sc_nr_pages k))" using rdy fd(2) k(3) by simp
  obtain p f i s' B' A' D' F' X' where r: "slab_cache_alloc (CacheAt a) sz s = Inr (p, s')" "heap_inv s' B' A' D' F' X'"
    "dm_at p (ob f (cz k) i)" "(f, i) \<notin> objs s F X (CacheAt a)"
    "\<forall>c'. objs s' F' X' c' = (if c' = CacheAt a then insert (f, i) (objs s F X (CacheAt a)) else objs s F X c')"
    "alloc_frame s B A D s' B' A' D' (ob f (cz k) i)" using slab_cache_alloc_spec [OF inv k(1) nl pr] by blast
  have same: "same_caches s s'" and D: "D \<subseteq> D'" and keep: "\<And>y. y div 4096 \<in> D \<Longrightarrow> y div 8 \<noteq> ob f (cz k) i div 8 \<Longrightarrow> pword (kh_vm s') y = pword (kh_vm s) y"
    using r(6) by (auto simp: alloc_frame_def)
  have h: "handed s' F' X' = insert (p, sc_obj_size k) (handed s F X)" by (rule handed_insert [OF same k(1) r(3,5)])
  have cl: "sc_obj_size k = slab_class sz" using k(2) fd(3) by simp
  have t: "taken s F X s' F' X' a f i" unfolding taken_def using same r(4,5) by blast
  have "std_heap slab_size_list s'" using std std_heap_same [OF same] by simp
  moreover have "slab_alloc sz s = Inr (p, s')" using run r(1) by (simp add: slab_alloc_def)
  ultimately show ?thesis
    using r(2) h taken_fresh [OF t r(2) k(1) r(3)] taken_keeps [OF t inv r(2) k(1) D keep] unfolding cl by blast
qed

lemma slab_alloc_large: "std_heap slab_size_list s \<Longrightarrow> SLAB_ALLOC_MAX_SIZE < sz \<Longrightarrow> slab_alloc sz s = Inr (0, s)"
  using slab_alloc_from_find [of s "cache_cache_head s" slab_size_list sz] slab_class_none [of sz]
  by (simp add: std_heap_def slab_alloc_def)

section \<open>Freeing and storing\<close>

text \<open>A write to a word of one object changes no word of another one.\<close>

lemma step_keeps:
  assumes inv: "heap_inv s B A D F X" and sl: "slab_of s F (CacheAt a) k f" "i < nobj (cn k) (cz k)" "j < cz k div 8"
    and p: "dm_at p (ob f (cz k) i)" and st: "obj_step s s' D (ob f (cz k) i + 8 * j)" and inv': "heap_inv s' B A D F X'"
    and b: "b \<in> handed s F X" "b \<noteq> (p, sc_obj_size k)" "y \<in> obj_words b"
  shows "word_at s' y = word_at s y"
proof -
  obtain q w where q: "b = (q, w)" by (cases b)
  obtain a2 k2 f2 i2 where o: "slab_of s F (CacheAt a2) k2 f2" "w = sc_obj_size k2" "i2 < nobj (cn k2) (cz k2)" "i2 \<notin> set (X f2)"
    "dm_at q (ob f2 (cz k2) i2)" using b(1) unfolding q by (rule handedE)
  have ne: "(f2, i2) \<noteq> (f, i)"
  proof
    assume e: "(f2, i2) = (f, i)"
    then have "k2 = k" using slab_of_unique(2) [OF inv sl(1)] o(1) by blast
    then show False using e o(2,5) p b(2) q dm_at_inj by auto
  qed
  show ?thesis
  proof (rule obj_words_keep(1) [OF inv o(1,3,5) inv' order_refl])
    fix j2 assume j2: "j2 < cz k2 div 8"
    have "(ob f2 (cz k2) i2 + 8 * j2) div 4096 < 2 ^ 27"
      by (rule dm_ok_bound(1) [OF heap_inv_dm [OF inv] obj_word(2) [OF inv o(1,3,5) j2]])
    then show "pword (kh_vm s') (ob f2 (cz k2) i2 + 8 * j2) = pword (kh_vm s) (ob f2 (cz k2) i2 + 8 * j2)"
      using st obj_word_apart [OF inv o(1,3) j2 sl ne] by (simp add: obj_step_def)
  qed (use b(3) q o(2) in simp)
qed

lemma slab_free_from_spec:
  assumes inv: "heap_inv s B A D F X" and sl: "slab_of s F (CacheAt a) k f" and i: "i < nobj (cn k) (cz k)" "i \<notin> set (X f)"
    and p: "dm_at p (ob f (cz k) i)" and cs: "a \<in> set cs" "\<forall>c \<in> set cs. kh_cache s (CacheAt c) \<noteq> None"
  shows "\<exists>s'. slab_free_from p cs s = Inr (True, s') \<and> heap_inv s' B A D F (X(f := i # X f)) \<and> obj_step s s' D (ob f (cz k) i)"
  using cs
proof (induction cs)
  case (Cons c cs)
  obtain k1 where k1: "kh_cache s (CacheAt c) = Some k1" using Cons.prems(2) by auto
  have l1: "sc_slabs k1 = map slab_addr (F (CacheAt c))" using heap_inv_cache [OF inv k1] by (simp add: cache_ok_def)
  show ?case
  proof (cases "c = a")
    case True
    have "f \<in> set (F (CacheAt c))" "k1 = k" using sl True k1 by (auto simp: slab_of_def)
    from slab_give_spec [OF inv sl i _ p _ this(1)] obtain s' where
      g: "slab_give (CacheAt a) p (sc_slabs k1) s = Inr (True, s')" "heap_inv s' B A D F (X(f := i # X f))" "obj_step s s' D (ob f (cz k) i)"
      using l1 True by auto
    have "slab_cache_free (CacheAt c) p s = Inr (True, s')" using k1 True g(1) by (simp add: slab_cache_free_def)
    then have "slab_free_from p (c # cs) s = Inr (True, s')" by (simp add: kbind_def kreturn_def)
    then show ?thesis using g(2,3) by blast
  next
    case False
    have "slab_give (CacheAt c) p (map slab_addr (F (CacheAt c))) s = Inr (False, s)"
    proof (rule slab_give_none [OF inv k1 order_refl p])
      fix f1 assume "f1 \<in> set (F (CacheAt c))"
      then have s1: "slab_of s F (CacheAt c) k1 f1" using k1 by (simp add: slab_of_def)
      have n: "0 < cn k1" "0 < cn k" using slab_of_frames [OF inv] s1 sl by blast+
      have "{f1..<f1 + cn k1} \<inter> {f..<f + cn k} = {}" by (rule slab_apartD [OF inv s1 sl]) (use False in simp)
      then have "f1 + cn k1 \<le> f \<or> f + cn k \<le> f1" using n by (intro ivl_apart)
      then have "(f1 + cn k1) * 4096 \<le> f * 4096 \<or> (f + cn k) * 4096 \<le> f1 * 4096" by auto
      moreover have "f * 4096 + 40 \<le> ob f (cz k) i" by (simp add: ob_def)
      moreover have "ob f (cz k) i \<le> (f + cn k) * 4096" using ob_end [OF i(1), of f] by simp
      ultimately show "\<not> (f1 * 4096 + 40 \<le> ob f (cz k) i \<and> ob f (cz k) i < (f1 + cn k1) * 4096 + 40)" by linarith
    qed
    then have "slab_cache_free (CacheAt c) p s = Inr (False, s)" using k1 l1 by (simp add: slab_cache_free_def)
    then have "slab_free_from p (c # cs) s = slab_free_from p cs s" by (simp add: kbind_def)
    then show ?thesis using Cons False by simp
  qed
qed simp

lemma handed_remove:
  assumes inv: "heap_inv s B A D F X" and same: "same_caches s s'" and sl: "slab_of s F (CacheAt a) k f" "i < nobj (cn k) (cz k)"
    and p: "dm_at p (ob f (cz k) i)"
  shows "handed s' F (X(f := i # X f)) = handed s F X - {(p, sc_obj_size k)}"
proof (intro set_eqI)
  fix b :: "u64 \<times> u64"
  obtain q w where b: "b = (q, w)" by (cases b)
  have mem: "(g, j) \<in> objs s' F (X(f := i # X f)) (CacheAt a') \<longleftrightarrow> (g, j) \<in> objs s F X (CacheAt a') \<and> \<not> (a' = a \<and> g = f \<and> j = i)" for a' g j
    unfolding objs_same [OF same] objs_give [OF inv sl(1)] by (cases "a' = a") auto
  have k: "kh_cache s (CacheAt a) = Some k" using sl(1) by (simp add: slab_of_def)
  have uni: "(a' = a \<and> g = f \<and> j = i) \<longleftrightarrow> b = (p, sc_obj_size k)"
    if th: "map_option sc_obj_size (kh_cache s (CacheAt a')) = Some w" "(g, j) \<in> objs s F X (CacheAt a')" "dm_at q (ob g (unat w) j)" for a' g j
  proof
    assume "a' = a \<and> g = f \<and> j = i"
    then show "b = (p, sc_obj_size k)" using th k p dm_at_inj b by auto
  next
    assume e: "b = (p, sc_obj_size k)"
    obtain k2 where k2: "kh_cache s (CacheAt a') = Some k2" "sc_obj_size k2 = w" using th(1) by auto
    have o: "slab_of s F (CacheAt a') k2 g" "j < nobj (cn k2) (cz k2)" using objs_slab [OF th(2) k2(1)] by auto
    have "ob f (cz k) i = ob g (cz k2) j" using e b th(3) k2(2) p by (simp add: dm_at_def)
    from obj_at_unique [OF inv sl o this] show "a' = a \<and> g = f \<and> j = i" by simp
  qed
  have "b \<in> handed s' F (X(f := i # X f)) \<longleftrightarrow> (\<exists>a' g j. map_option sc_obj_size (kh_cache s (CacheAt a')) = Some w \<and>
      ((g, j) \<in> objs s F X (CacheAt a') \<and> \<not> (a' = a \<and> g = f \<and> j = i)) \<and> dm_at q (ob g (unat w) j))"
    unfolding b handed_size same_caches_size [OF same] mem_Collect_eq prod.case mem by (rule refl)
  also have "\<dots> \<longleftrightarrow> b \<in> handed s F X - {(p, sc_obj_size k)}" using uni unfolding b handed_size by blast
  finally show "b \<in> handed s' F (X(f := i # X f)) \<longleftrightarrow> b \<in> handed s F X - {(p, sc_obj_size k)}" .
qed

lemma slab_free_spec:
  assumes inv: "heap_inv s B A D F X" and std: "std_heap slab_size_list s" and b: "(p, z) \<in> handed s F X"
  shows "\<exists>s' X'. slab_free p s = Inr (True, s') \<and> heap_inv s' B A D F X' \<and> std_heap slab_size_list s' \<and>
    handed s' F X' = handed s F X - {(p, z)} \<and> (\<forall>b \<in> handed s F X - {(p, z)}. \<forall>a \<in> obj_words b. word_at s' a = word_at s a)"
proof -
  obtain a k f i where o: "slab_of s F (CacheAt a) k f" "z = sc_obj_size k" "i < nobj (cn k) (cz k)" "i \<notin> set (X f)"
    "dm_at p (ob f (cz k) i)" using b by (rule handedE)
  have k: "kh_cache s (CacheAt a) = Some k" using o(1) by (simp add: slab_of_def)
  have a: "a \<in> set (cache_cache_head s)" using std k by (auto simp: std_heap_def)
  have "set (map (\<lambda>p. map_option cache_dim (kh_cache s (CacheAt p))) (cache_cache_head s)) \<subseteq> range Some"
    using std by (auto simp: std_heap_def)
  then have all: "\<forall>c \<in> set (cache_cache_head s). kh_cache s (CacheAt c) \<noteq> None" by auto
  obtain s' where r: "slab_free_from p (cache_cache_head s) s = Inr (True, s')" "heap_inv s' B A D F (X(f := i # X f))"
    "obj_step s s' D (ob f (cz k) i)" using slab_free_from_spec [OF inv o(1,3-5) a all] by blast
  have same: "same_caches s s'" using r(3) by (simp add: obj_step_def)
  have z: "0 < cz k div 8" using heap_inv_cache [OF inv k] by (auto simp: cache_ok_def cache_geo_def)
  have st: "obj_step s s' D (ob f (cz k) i + 8 * 0)" using r(3) by simp
  have "slab_free p s = Inr (True, s')" using r(1) by (simp add: slab_free_def)
  moreover have "std_heap slab_size_list s'" using std std_heap_same [OF same] by simp
  ultimately show ?thesis
    using r(2) handed_remove [OF inv same o(1,3,5)] step_keeps [OF inv o(1,3) z o(5) st r(2)] unfolding o(2) by blast
qed

lemma handed_word:
  assumes inv: "heap_inv s B A D F X" and b: "b \<in> handed s F X" "y \<in> obj_words b"
  obtains x where "dm_at y x" and "8 dvd x" and "x div 4096 \<in> D"
proof -
  obtain q w where q: "b = (q, w)" by (cases b)
  obtain a k f i where o: "slab_of s F (CacheAt a) k f" "w = sc_obj_size k" "i < nobj (cn k) (cz k)" "dm_at q (ob f (cz k) i)"
    using b(1) unfolding q by (rule handedE)
  obtain j where j: "y = q + 8 * of_nat j" "j < cz k div 8" using b(2) q o(2) by (auto simp: obj_words_def)
  show ?thesis using that obj_word [OF inv o(1,3,4) j(2)] unfolding j(1) by blast
qed

lemma heap_inv_store:
  assumes inv: "heap_inv s B A D F X" and sl: "slab_of s F c k f" and i: "i < nobj (cn k) (cz k)" "i \<notin> set (X f)" and j: "j < cz k div 8"
    and dm: "dm_ok v' B A D" and w: "\<forall>y. y div 4096 < 2 ^ 27 \<longrightarrow> y div 8 \<noteq> (ob f (cz k) i + 8 * j) div 8 \<longrightarrow> pword v' y = pword (kh_vm s) y"
  shows "heap_inv (s\<lparr>kh_vm := v'\<rparr>) B A D F X"
proof -
  let ?x = "ob f (cz k) i + 8 * j"
  obtain h where h: "kh_slab s (slab_addr f) = Some h" "slab_ok (kh_vm s) D (cn k) (cz k) f h (X f)" "cache_geo (cn k) (cz k)"
    by (rule heap_inv_slab [OF inv sl])
  have k: "kh_cache s c = Some k" using sl by (simp add: slab_of_def)
  have fr: "{f..<f + cn k} \<subseteq> D" using slab_of_frames [OF inv sl] by blast
  have z: "0 < cz k div 8" using h(3) by (auto simp: cache_geo_def)
  have "free_chain v' f (cz k) (sl_free_list h) (X f) = free_chain (kh_vm s) f (cz k) (sl_free_list h) (X f)"
  proof (rule free_chain_cong)
    fix m assume m: "m \<in> set (X f)"
    then have mn: "m < nobj (cn k) (cz k)" "(f, m) \<noteq> (f, i)" using h(2) i(2) by (auto simp: slab_ok_def)
    have "ob f (cz k) m div 8 \<noteq> ?x div 8" using obj_word_apart [OF inv sl mn(1) z sl i(1) j mn(2)] by simp
    moreover have "ob f (cz k) m div 4096 < 2 ^ 27" using ob_frame0 [OF mn(1), of f] fr dm_ok_bound(1) [OF dm] by blast
    ultimately show "pword v' (ob f (cz k) m) = pword (kh_vm s) (ob f (cz k) m)" using w by simp
  qed
  then have new: "slab_ok v' D (cn k) (cz k) f h (X f)" using h(2) by (simp add: slab_ok_def)
  have "heap_inv (s\<lparr>kh_vm := v', kh_slab := (kh_slab s)(slab_addr f \<mapsto> h), kh_cache := (kh_cache s)(c \<mapsto> k)\<rparr>) B A D F (X(f := X f))"
  proof (rule heap_inv_upd [OF inv sl dm _ new])
    fix y assume y: "y div 4096 < 2 ^ 27" "y div 4096 \<notin> {f..<f + cn k}"
    have "?x div 4096 \<in> {f..<f + cn k}" by (rule ob_frame [OF i(1)]) (use j in linarith)
    then have "y div 8 \<noteq> ?x div 8" using word_page [of y ?x] y(2) by auto
    then show "pword v' y = pword (kh_vm s) y" using w y(1) by simp
  qed simp_all
  moreover have "(kh_slab s)(slab_addr f \<mapsto> h) = kh_slab s" "(kh_cache s)(c \<mapsto> k) = kh_cache s" using h(1) k by auto
  ultimately show ?thesis by simp
qed

lemma slab_store_spec:
  assumes inv: "heap_inv s B A D F X" and std: "std_heap slab_size_list s" and b: "b \<in> handed s F X" and a: "a \<in> obj_words b"
  shows "\<exists>s'. on_vm (vwrite a v) s = Inr ((), s') \<and> heap_inv s' B A D F X \<and> std_heap slab_size_list s' \<and>
    handed s' F X = handed s F X \<and> (\<forall>b \<in> handed s F X. \<forall>y \<in> obj_words b. word_at s' y = (if y = a then Some v else word_at s y))"
proof -
  obtain q w where q: "b = (q, w)" by (cases b)
  obtain c k f i where o: "slab_of s F (CacheAt c) k f" "w = sc_obj_size k" "i < nobj (cn k) (cz k)" "i \<notin> set (X f)" "dm_at q (ob f (cz k) i)"
    using b unfolding q by (rule handedE)
  obtain j where j: "a = q + 8 * of_nat j" "j < cz k div 8" using a q o(2) by (auto simp: obj_words_def)
  let ?x = "ob f (cz k) i + 8 * j"
  have x: "dm_at a ?x" "?x div 4096 \<in> D" "8 dvd ?x" using obj_word [OF inv o(1,3,5) j(2)] unfolding j(1) by blast+
  note dm = heap_inv_dm [OF inv]
  from dm_write [OF dm x(1,2), of v] obtain v' where v': "vwrite a v (kh_vm s) = Inr ((), v')" "dm_ok v' B A D"
    "\<forall>y. y div 4096 < 2 ^ 27 \<longrightarrow> pword v' y = (if y div 8 = ?x div 8 then v else pword (kh_vm s) y)" by blast
  let ?s = "s\<lparr>kh_vm := v'\<rparr>"
  have inv': "heap_inv ?s B A D F X" by (rule heap_inv_store [OF inv o(1,3,4) j(2) v'(2)]) (use v'(3) in simp)
  have same: "same_caches s ?s" by (simp add: same_caches_def)
  have "word_at ?s y = (if y = a then Some v else word_at s y)" if y: "b2 \<in> handed s F X" "y \<in> obj_words b2" for b2 y
  proof -
    obtain xy where xy: "dm_at y xy" "8 dvd xy" "xy div 4096 \<in> D" by (rule handed_word [OF inv y])
    have "xy div 8 = ?x div 8 \<longleftrightarrow> y = a" using word_eq [OF xy(2) x(3)] xy(1) x(1) dm_at_inj by (auto simp: dm_at_def)
    moreover have "xy div 4096 < 2 ^ 27" by (rule dm_ok_bound(1) [OF dm xy(3)])
    moreover have "word_at ?s y = Some (pword v' xy)" using word_at_dm [OF heap_inv_dm [OF inv'] xy(1,3)] by simp
    ultimately show ?thesis using v'(3) word_at_dm [OF dm xy(1,3)] by simp
  qed
  moreover have "on_vm (vwrite a v) s = Inr ((), ?s)" by (simp add: on_vm_def v'(1))
  moreover have "handed ?s F X = handed s F X" unfolding handed_size same_caches_size [OF same] objs_same [OF same] by (rule refl)
  ultimately show ?thesis using inv' std std_heap_same [OF same] by blast
qed

end
