(* ===== verification/SlabInit.thy ===== *)
theory SlabInit
  imports SlabSpec
begin

text \<open>
  \<^verbatim>\<open>slab_init\<close> establishes the invariant of the slab caches.
\<close>

section \<open>A new cache\<close>

lemma heap_inv_head [simp]: "heap_inv (s\<lparr>cache_cache_head := cs\<rparr>) B A D F X = heap_inv s B A D F X"
  by (simp add: heap_inv_def cache_ok_def slabs_apart_def slab_of_def meta_ok_def)

lemma objs_head [simp]: "objs (s\<lparr>cache_cache_head := cs\<rparr>) F X c = objs s F X c"
  by (simp add: objs_def slab_of_def)

lemma heap_inv_new_cache:
  assumes inv: "heap_inv s B A D F X" and none: "kh_cache s c = None" and geo: "cache_geo (unat n) (unat z)"
    and meta: "c = MetaCache \<Longrightarrow> unat n = 2 \<and> unat z = 112"
    and at: "\<And>p. c = CacheAt p \<Longrightarrow> \<exists>f \<in> set (F MetaCache). \<exists>i<nobj 2 112. i \<notin> set (X f) \<and> dm_at p (ob f 112 i)"
    and k: "k = \<lparr>sc_name = nm, sc_slabs = [], sc_obj_size = z, sc_free_objects = 0, sc_total_objects = 0, sc_nr_pages = n, sc_total_pages = 0\<rparr>"
  shows "heap_inv (s\<lparr>kh_cache := (kh_cache s)(c \<mapsto> k)\<rparr>) B A D F X" (is "heap_inv ?s B A D F X")
    and "objs (s\<lparr>kh_cache := (kh_cache s)(c \<mapsto> k)\<rparr>) F X c' = objs s F X c'" and "objs s F X c = {}"
proof -
  have Fc: "F c = []" using inv none by (simp add: heap_inv_def)
  have so: "slab_of ?s F c1 k1 f1 \<longleftrightarrow> slab_of s F c1 k1 f1" for c1 k1 f1 using Fc by (auto simp: slab_of_def)
  show "objs ?s F X c' = objs s F X c'" by (simp add: objs_def so)
  show "objs s F X c = {}" using Fc by (simp add: objs_def slab_of_def)
  have "cache_ok ?s D k1 (F c1) X" if "kh_cache ?s c1 = Some k1" for c1 k1
  proof (cases "c1 = c")
    case True
    then show ?thesis using that Fc geo by (auto simp: cache_ok_def k)
  next
    case False
    then show ?thesis using that heap_inv_cache [OF inv, of c1 k1] by (simp add: cache_ok_def)
  qed
  moreover have "slabs_apart ?s F" using inv by (simp add: heap_inv_def slabs_apart_def so)
  moreover have "meta_ok ?s F X"
  proof -
    have m: "meta_ok s F X" using inv by (simp only: heap_inv_def)
    show ?thesis unfolding meta_ok_def
    proof (intro conjI allI impI)
      fix k1 assume "kh_cache ?s MetaCache = Some k1"
      then show "cn k1 = 2" "cz k1 = 112" using m meta by (auto simp: meta_ok_def k split: if_splits)
    next
      fix p k1 assume "kh_cache ?s (CacheAt p) = Some k1"
      then have "c = CacheAt p \<or> kh_cache s (CacheAt p) \<noteq> None" by (auto split: if_splits)
      then show "\<exists>f \<in> set (F MetaCache). \<exists>i<nobj 2 112. i \<notin> set (X f) \<and> dm_at p (ob f 112 i)"
        using at m unfolding meta_ok_def by blast
    qed
  qed
  ultimately show "heap_inv ?s B A D F X" using inv by (auto simp: heap_inv_def split: if_splits)
qed

text \<open>The address of an object of the cache of caches that is newly taken is not that of a cache.\<close>

lemma meta_fresh:
  assumes inv: "heap_inv s B A D F X" and inv': "heap_inv s' B' A' D' F' X'" and same: "same_caches s s'"
    and m: "kh_cache s MetaCache = Some m" and new: "(f, i) \<notin> objs s F X MetaCache" "(f, i) \<in> objs s' F' X' MetaCache"
    and o: "objs s F X MetaCache \<subseteq> objs s' F' X' MetaCache" and p: "dm_at p (ob f (cz m) i)"
  shows "kh_cache s' (CacheAt p) = None"
    and "\<exists>f \<in> set (F' MetaCache). \<exists>i<nobj 2 112. i \<notin> set (X' f) \<and> dm_at p (ob f 112 i)"
proof -
  have mm: "cn m = 2" "cz m = 112" and mo: "meta_ok s F X" using inv m by (auto simp: heap_inv_def meta_ok_def)
  obtain m' where m': "kh_cache s' MetaCache = Some m'" "sc_obj_size m' = sc_obj_size m" "sc_nr_pages m' = sc_nr_pages m"
    by (rule same_caches_Some [OF same m])
  have n: "slab_of s' F' MetaCache m' f" "i < nobj 2 112" "i \<notin> set (X' f)" using objs_slab [OF new(2) m'(1)] m' mm by auto
  then show "\<exists>f \<in> set (F' MetaCache). \<exists>i<nobj 2 112. i \<notin> set (X' f) \<and> dm_at p (ob f 112 i)"
    using p mm(2) by (auto simp: slab_of_def)
  show "kh_cache s' (CacheAt p) = None"
  proof (rule ccontr)
    assume "kh_cache s' (CacheAt p) \<noteq> None"
    then have "kh_cache s (CacheAt p) \<noteq> None" using same_caches_None [OF same] by simp
    then obtain f2 i2 where 2: "f2 \<in> set (F MetaCache)" "i2 < nobj 2 112" "i2 \<notin> set (X f2)" "dm_at p (ob f2 112 i2)"
      using mo unfolding meta_ok_def by blast
    have in2: "(f2, i2) \<in> objs s F X MetaCache" using 2 m mm by (auto simp: objs_def slab_of_def)
    then have o2: "slab_of s' F' MetaCache m' f2" using o objs_slab [OF _ m'(1)] by blast
    have "ob f (cz m') i = ob f2 (cz m') i2" using p 2(4) m'(2) mm(2) by (simp add: dm_at_def)
    from obj_at_unique(3,4) [OF inv' n(1) _ o2 _ this] have "f2 = f" "i2 = i" using n(2) 2(2) m' mm by simp_all
    then show False using in2 new(1) by simp
  qed
qed

section \<open>The caches of the table\<close>

text \<open>The state after the caches for \<open>es\<close> have been made: no object of theirs is in use, and besides three quarters of the
  frames another \<open>q\<close> are free.\<close>

definition init_ok :: "kheap \<Rightarrow> (string \<times> u32 \<times> u32) list \<Rightarrow> nat \<Rightarrow> bool" where
  "init_ok s es q \<longleftrightarrow> (\<exists>B A D F X. heap_inv s B A D F X \<and> kh_cache s MetaCache \<noteq> None \<and> std_heap es s \<and>
     (\<forall>a. objs s F X (CacheAt a) = {}) \<and> 3 * ((nframes (vm_kmem (kh_vm s)) + 3) div 4) + q \<le> card (free_frames B))"

lemma heap_inv_buddy: "heap_inv s B A D F X \<Longrightarrow> buddy_inv (vm_kmem (kh_vm s)) B"
  by (simp add: heap_inv_def dm_ok_def vm_ok_def pt_inv_def)

lemma heap_inv_ready:
  "heap_inv s B A D F X \<Longrightarrow> 3 * ((nframes (vm_kmem (kh_vm s)) + 3) div 4) + 10 \<le> card (free_frames B) \<Longrightarrow> n \<in> {1, 2, 4} \<Longrightarrow>
   pages_ready B n"
  using slab_ready_if slab_ready_pages heap_inv_buddy by blast

lemma heap_frame_nframes: "heap_frame D v B v' B' \<Longrightarrow> nframes (vm_kmem v') = nframes (vm_kmem v)"
  by (auto simp: heap_frame_def dest: db_same_nframes)

lemma growth_init:
  assumes inv: "heap_inv s B A D F X" and k: "kh_cache s c = Some k" and n: "ucast (sc_nr_pages k) \<in> {1, 2, 4 :: u64}"
    and q: "3 * ((nframes (vm_kmem (kh_vm s)) + 3) div 4) + (q + 10) \<le> card (free_frames B)"
  shows "\<exists>s' B' A' D' F' X'. slab_cache_growth c s = Inr ((), s') \<and> heap_inv s' B' A' D' F' X' \<and> same_caches s s' \<and>
    (\<forall>c'. objs s' F' X' c' = objs s F X c') \<and> 3 * ((nframes (vm_kmem (kh_vm s')) + 3) div 4) + q \<le> card (free_frames B')"
proof -
  have rdy: "pages_ready B (ucast (sc_nr_pages k))" by (rule heap_inv_ready [OF inv _ n]) (use q in simp)
  from slab_cache_growth_spec [OF inv k rdy] obtain f s' B' A' where g: "slab_cache_growth c s = Inr ((), s')"
    "{f..<f + cn k} \<subseteq> free_frames B" "heap_inv s' B' A' (D \<union> {f..<f + cn k}) (F(c := f # F c)) (X(f := [0..<nobj (cn k) (cz k)]))"
    "same_caches s s'" "heap_frame D (kh_vm s) B (kh_vm s') B'"
    "card (free_frames B) \<le> grow_cost (ucast (sc_nr_pages k)) + card (free_frames B')" by blast
  have "objs s' (F(c := f # F c)) (X(f := [0..<nobj (cn k) (cz k)])) c' = objs s F X c'" for c'
    using objs_same [OF g(4)] objs_grow [OF inv k g(2)] by simp
  moreover have "3 * ((nframes (vm_kmem (kh_vm s')) + 3) div 4) + q \<le> card (free_frames B')"
    using g(6) grow_cost_small [OF n] q heap_frame_nframes [OF g(5)] by simp
  ultimately show ?thesis using g(1,3,4) by blast
qed

lemma meta_alloc_init:
  assumes inv: "heap_inv s B A D F X" and m: "kh_cache s MetaCache = Some m"
    and q: "3 * ((nframes (vm_kmem (kh_vm s)) + 3) div 4) + (q + 10) \<le> card (free_frames B)"
  shows "\<exists>p s' B' A' D' F' X'. slab_cache_alloc MetaCache sizeof_slab_cache_t s = Inr (p, s') \<and> heap_inv s' B' A' D' F' X' \<and> p \<noteq> 0 \<and>
    same_caches s s' \<and> (\<forall>a. objs s' F' X' (CacheAt a) = objs s F X (CacheAt a)) \<and> kh_cache s' (CacheAt p) = None \<and>
    (\<exists>f \<in> set (F' MetaCache). \<exists>i<nobj 2 112. i \<notin> set (X' f) \<and> dm_at p (ob f 112 i)) \<and>
    3 * ((nframes (vm_kmem (kh_vm s')) + 3) div 4) + q \<le> card (free_frames B')"
proof -
  have mm: "cn m = 2" "cz m = 112" using inv m by (auto simp: heap_inv_def meta_ok_def)
  have n: "ucast (sc_nr_pages m) \<in> {1, 2, 4 :: u64}" using mm(1) by (simp add: word_unat_eq_iff unsigned_ucast_eq)
  have nl: "\<not> sc_obj_size m < sizeof_slab_cache_t" using mm(2) by (simp add: sizeof_slab_cache_t_def word_less_nat_alt)
  have rdy: "pages_ready B (ucast (sc_nr_pages m))" by (rule heap_inv_ready [OF inv _ n]) (use q in simp)
  from slab_cache_alloc_spec [OF inv m nl rdy] obtain p f i s' B' A' D' F' X' where
    r: "slab_cache_alloc MetaCache sizeof_slab_cache_t s = Inr (p, s')" "heap_inv s' B' A' D' F' X'" "dm_at p (ob f (cz m) i)"
      "(f, i) \<notin> objs s F X MetaCache"
      "\<forall>c'. objs s' F' X' c' = (if c' = MetaCache then insert (f, i) (objs s F X MetaCache) else objs s F X c')"
      "alloc_frame s B A D s' B' A' D' (ob f (cz m) i)"
      "card (free_frames B) \<le> grow_cost (ucast (sc_nr_pages m)) + card (free_frames B')" by blast
  have same: "same_caches s s'" and hf: "heap_frame D (kh_vm s) B (kh_vm s') B'" using r(6) by (auto simp: alloc_frame_def)
  note fresh = meta_fresh [OF inv r(2) same m r(4) _ _ r(3)]
  have "p \<noteq> 0" using r(3) by (auto simp: dm_at_def dm_start)
  moreover have "3 * ((nframes (vm_kmem (kh_vm s')) + 3) div 4) + q \<le> card (free_frames B')"
    using r(7) grow_cost_small [OF n] q heap_frame_nframes [OF hf] by simp
  moreover have "kh_cache s' (CacheAt p) = None" by (rule fresh(1)) (use r(5) in auto)
  moreover have "\<exists>f \<in> set (F' MetaCache). \<exists>i<nobj 2 112. i \<notin> set (X' f) \<and> dm_at p (ob f 112 i)" by (rule fresh(2)) (use r(5) in auto)
  moreover have "\<forall>a. objs s' F' X' (CacheAt a) = objs s F X (CacheAt a)" using r(5) by simp
  ultimately show ?thesis using r(1,2) same by blast
qed

lemma std_heap_new:
  assumes std: "std_heap es s" and none: "kh_cache s (CacheAt p) = None" and k: "cache_dim k = (ucast z, n)"
  shows "std_heap (es @ [(nm, z, n)]) (s\<lparr>kh_cache := (kh_cache s)(CacheAt p \<mapsto> k), cache_cache_head := cache_cache_head s @ [p]\<rparr>)"
proof -
  have "set (map (\<lambda>p. map_option cache_dim (kh_cache s (CacheAt p))) (cache_cache_head s)) \<subseteq> range Some"
    using std by (auto simp: std_heap_def)
  then have "p \<notin> set (cache_cache_head s)" using none by auto
  then have "map (\<lambda>q. map_option cache_dim (if q = p then Some k else kh_cache s (CacheAt q))) (cache_cache_head s) =
    map (\<lambda>q. map_option cache_dim (kh_cache s (CacheAt q))) (cache_cache_head s)" by (intro map_cong) auto
  also have "\<dots> = map (\<lambda>(_, z, n). Some (ucast z, n)) es" using std by (simp only: std_heap_def)
  finally show ?thesis using std k by (simp add: std_heap_def del: map_eq_conv)
qed

lemma slab_init_cache_spec:
  assumes ok: "init_ok s es (q + 20)" and geo: "cache_geo (unat n) (unat z)" and n: "ucast n \<in> {1, 2, 4 :: u64}"
  shows "\<exists>s'. slab_init_cache (nm, z, n) s = Inr ((), s') \<and> init_ok s' (es @ [(nm, z, n)]) q"
proof -
  obtain B A D F X m where inv: "heap_inv s B A D F X" and m: "kh_cache s MetaCache = Some m" and std: "std_heap es s"
    and o: "\<forall>a. objs s F X (CacheAt a) = {}"
    and q: "3 * ((nframes (vm_kmem (kh_vm s)) + 3) div 4) + ((q + 10) + 10) \<le> card (free_frames B)"
    using ok by (auto simp: init_ok_def)
  from meta_alloc_init [OF inv m q] obtain p s1 B1 A1 D1 F1 X1 where
    1: "slab_cache_alloc MetaCache sizeof_slab_cache_t s = Inr (p, s1)" "heap_inv s1 B1 A1 D1 F1 X1" "p \<noteq> 0" "same_caches s s1"
      "\<forall>a. objs s1 F1 X1 (CacheAt a) = objs s F X (CacheAt a)" "kh_cache s1 (CacheAt p) = None"
      "\<exists>f \<in> set (F1 MetaCache). \<exists>i<nobj 2 112. i \<notin> set (X1 f) \<and> dm_at p (ob f 112 i)"
      "3 * ((nframes (vm_kmem (kh_vm s1)) + 3) div 4) + (q + 10) \<le> card (free_frames B1)" by blast
  let ?k = "\<lparr>sc_name = nm, sc_slabs = [], sc_obj_size = ucast z, sc_free_objects = 0, sc_total_objects = 0, sc_nr_pages = n, sc_total_pages = 0\<rparr>"
  let ?s2 = "s1\<lparr>kh_cache := (kh_cache s1)(CacheAt p \<mapsto> ?k)\<rparr>"
  have z: "unat (ucast z :: u64) = unat z"
    using unsigned_less [of z, where 'a = nat] by (simp add: unsigned_ucast_eq take_bit_nat_eq_self)
  have geo': "cache_geo (unat n) (unat (ucast z :: u64))" using geo z by simp
  have 2: "heap_inv ?s2 B1 A1 D1 F1 X1" "objs ?s2 F1 X1 c = objs s1 F1 X1 c" for c
    by (rule heap_inv_new_cache [OF 1(2,6) geo' _ _ refl]; use 1(7) in simp)+
  have k2: "kh_cache ?s2 (CacheAt p) = Some ?k" by simp
  have q2: "3 * ((nframes (vm_kmem (kh_vm ?s2)) + 3) div 4) + (q + 10) \<le> card (free_frames B1)" using 1(8) by simp
  from growth_init [OF 2(1) k2 _ q2] n obtain s3 B3 A3 D3 F3 X3 where
    3: "slab_cache_growth (CacheAt p) ?s2 = Inr ((), s3)" "heap_inv s3 B3 A3 D3 F3 X3" "same_caches ?s2 s3"
      "\<forall>c'. objs s3 F3 X3 c' = objs ?s2 F1 X1 c'" "3 * ((nframes (vm_kmem (kh_vm s3)) + 3) div 4) + q \<le> card (free_frames B3)" by auto
  let ?s4 = "s3\<lparr>cache_cache_head := cache_cache_head s3 @ [p]\<rparr>"
  have run: "slab_init_cache (nm, z, n) s = Inr ((), ?s4)"
    using 1(1,3) 3(1) by (simp add: slab_init_cache_def slab_cache_create_cache_def slab_cache_init_def kmodify_def cache_put_def kbind_def kreturn_def)
  have "std_heap (es @ [(nm, z, n)]) (?s2\<lparr>cache_cache_head := cache_cache_head s1 @ [p]\<rparr>)"
    using std_heap_new [of es s1 p ?k z n nm] std std_heap_same [OF 1(4)] 1(6) by (simp add: cache_dim_def)
  moreover have "same_caches (?s2\<lparr>cache_cache_head := cache_cache_head s1 @ [p]\<rparr>) ?s4" using 3(3) by (simp add: same_caches_def)
  ultimately have std4: "std_heap (es @ [(nm, z, n)]) ?s4" using std_heap_same by blast
  obtain m1 where "kh_cache s1 MetaCache = Some m1" by (rule same_caches_Some [OF 1(4) m])
  then have "kh_cache ?s2 MetaCache \<noteq> None" by simp
  then have "kh_cache s3 MetaCache \<noteq> None" using same_caches_None [OF 3(3), of MetaCache] by simp
  moreover have "objs s3 F3 X3 (CacheAt a) = {}" for a using 3(4) 2(2) 1(5) o by simp
  moreover have "heap_inv ?s4 B3 A3 D3 F3 X3" using 3(2) by simp
  ultimately have "init_ok ?s4 (es @ [(nm, z, n)]) q" unfolding init_ok_def using std4 3(5) by fastforce
  then show ?thesis using run by blast
qed

lemma slab_init_loop:
  assumes "init_ok s es (q + 20 * length es')" and "\<forall>(nm, z, n) \<in> set es'. cache_geo (unat n) (unat z) \<and> ucast n \<in> {1, 2, 4 :: u64}"
  shows "\<exists>s'. kforeach slab_init_cache es' s = Inr ((), s') \<and> init_ok s' (es @ es') q"
  using assms
proof (induction es' arbitrary: s es)
  case (Cons e es')
  obtain nm z n where e: "e = (nm, z, n)" by (cases e)
  have "init_ok s es ((q + 20 * length es') + 20)" using Cons.prems(1) by (simp add: algebra_simps)
  moreover have "cache_geo (unat n) (unat z)" "ucast n \<in> {1, 2, 4 :: u64}" using Cons.prems(2) e by auto
  ultimately obtain s1 where 1: "slab_init_cache e s = Inr ((), s1)" "init_ok s1 (es @ [e]) (q + 20 * length es')"
    unfolding e using slab_init_cache_spec [of s es "q + 20 * length es'" n z nm] by blast
  from Cons.IH [OF 1(2)] Cons.prems(2) obtain s' where "kforeach slab_init_cache es' s1 = Inr ((), s')" "init_ok s' (es @ e # es') q" by auto
  then show ?case using 1(1) by simp
qed (simp add: kreturn_def)

lemma slab_init_spec:
  assumes dm: "dm_ok (kh_vm s) B A {}" and none: "kh_cache s = (\<lambda>_. None)"
    and q: "3 * ((nframes (vm_kmem (kh_vm s)) + 3) div 4) + (q + 230) \<le> card (free_frames B)"
  shows "\<exists>s'. slab_init s = Inr ((), s') \<and> init_ok s' slab_size_list q"
proof -
  let ?F = "\<lambda>_. [] :: nat list" and ?X = "\<lambda>_. [] :: nat list"
  have inv: "heap_inv s B A {} ?F ?X" using dm none by (simp add: heap_inv_def slabs_apart_def slab_of_def meta_ok_def)
  let ?m = "\<lparr>sc_name = ''slab_meta_cahce'', sc_slabs = [], sc_obj_size = ucast (ucast sizeof_slab_cache_t :: u32), sc_free_objects = 0,
    sc_total_objects = 0, sc_nr_pages = SLAB_META_CACHE_NRPAGES, sc_total_pages = 0\<rparr>"
  let ?s1 = "s\<lparr>kh_cache := (kh_cache s)(MetaCache \<mapsto> ?m)\<rparr>"
  have 1: "heap_inv ?s1 B A {} ?F ?X"
    by (rule heap_inv_new_cache [OF inv _ _ _ _ refl])
       (simp_all add: none cache_geo_def sizeof_slab_cache_t_def SLAB_META_CACHE_NRPAGES_def)
  have m1: "kh_cache ?s1 MetaCache = Some ?m" by simp
  have q1: "3 * ((nframes (vm_kmem (kh_vm ?s1)) + 3) div 4) + ((q + 220) + 10) \<le> card (free_frames B)" using q by simp
  have n1: "ucast (sc_nr_pages ?m) \<in> {1, 2, 4 :: u64}" by (simp add: SLAB_META_CACHE_NRPAGES_def)
  from growth_init [OF 1 m1 n1 q1] obtain s2 B2 A2 D2 F2 X2 where
    2: "slab_cache_growth MetaCache ?s1 = Inr ((), s2)" "heap_inv s2 B2 A2 D2 F2 X2" "same_caches ?s1 s2"
      "\<forall>c'. objs s2 F2 X2 c' = objs ?s1 ?F ?X c'" "3 * ((nframes (vm_kmem (kh_vm s2)) + 3) div 4) + (q + 220) \<le> card (free_frames B2)" by blast
  let ?s3 = "s2\<lparr>cache_cache_head := []\<rparr>"
  have nn: "kh_cache s2 (CacheAt p) = None" for p using same_caches_None [OF 2(3), of "CacheAt p"] none by simp
  have "std_heap [] ?s3" using nn by (simp add: std_heap_def)
  moreover have "kh_cache s2 MetaCache \<noteq> None" using same_caches_None [OF 2(3), of MetaCache] by simp
  moreover have "objs s2 F2 X2 c = {}" for c using 2(4) by (simp add: objs_def slab_of_def)
  ultimately have "init_ok ?s3 [] (q + 20 * length slab_size_list)"
    unfolding init_ok_def using 2(2,5) by (fastforce simp: slab_size_list_def)
  from slab_init_loop [OF this] obtain s' where "kforeach slab_init_cache slab_size_list ?s3 = Inr ((), s')" "init_ok s' slab_size_list q"
    by (auto simp: slab_size_list_def cache_geo_def)
  moreover from this 2(1) have "slab_init s = Inr ((), s')" by (simp add: slab_init_def slab_cache_init_def)
  ultimately show ?thesis by blast
qed

end
