(* ===== verification/SlabTheorems.thy ===== *)
theory SlabTheorems
  imports SlabInit
begin

text \<open>
  What the slab allocator promises: after \<^verbatim>\<open>slab_init\<close>, whatever the calls and stores of its clients, objects in use do
  not overlap, keep what was stored in them and can be freed.
\<close>

section \<open>The contract\<close>












section \<open>Any sequence of calls\<close>





section \<open>A concrete heap\<close>












section \<open>The theorem\<close>






end
