(* ===== verification/FatDisk.thy ===== *)
theory FatDisk
  imports Prelude
begin

text \<open>
  The bottom layer of the FAT32 driver \<^verbatim>\<open>src/kernel/src/fs/fat32.c\<close>: the mounted volume
  \<^verbatim>\<open>Fat\<close>, its one-sector write-back buffer (\<^verbatim>\<open>sync_buf\<close>, \<^verbatim>\<open>update_buf\<close>, \<^verbatim>\<open>sync_fs\<close>), and the disk
  below it, the LBA28 programmed I/O of \<^verbatim>\<open>src/kernel/src/device/storage/ata.c\<close>.
  The volume reaches the disk through two callbacks; the locale \<open>disk\<close> states what a working
  disk promises and is interpreted on the ATA functions.  The buffer is correct when the volume
  it shows, buffered sector over disk, is changed by nothing but explicit stores.
\<close>

section \<open>Volumes and their environment\<close>

record fat =
  clust_msk :: u32
  clust_cnt :: u32
  info_sect :: u32
  fat_sect0 :: u32
  fat_sect1 :: u32
  data_sect :: u32
  root_clust :: u32
  last_used :: u32
  free_cnt :: u32
  fsect :: u32
  buf :: bytes
  fflags :: u8
  clust_shift :: u8
  fat_name_len :: u8
  fat_name :: bytes

record timestamp =
  ts_hour :: u8
  ts_min :: u8
  ts_sec :: u8
  ts_day :: u8
  ts_month :: u8
  ts_year :: u16

text \<open>The state a volume operation runs on: the volume, the driver's static work area for long
  names (\<^verbatim>\<open>g_buf\<close>, \<^verbatim>\<open>g_len\<close>, \<^verbatim>\<open>g_crc\<close>) and the device.\<close>

record 'd st =
  fat :: fat
  g_buf :: bytes
  g_len :: u16
  g_crc :: u8
  dev :: 'd

text \<open>What the operations are given: the two disk callbacks of \<^verbatim>\<open>DiskOps\<close> (the flag is their
  return value), the values the stack happens to hold where the code reads an uninitialised
  local (the flags and the cluster of \<^verbatim>\<open>stretch_chain\<close> and its callers, the location in
  \<^verbatim>\<open>fat_stat\<close> and \<^verbatim>\<open>fat_unlink\<close>), and the number of rounds after which an unbounded loop counts as
  not returning.\<close>

record stack =
  stack_flags :: u8
  stack_clust :: u32
  stack_sect :: u32
  stack_idx :: u16

record 'd env =
  op_read :: "bytes \<Rightarrow> u32 \<Rightarrow> 'd \<Rightarrow> bool \<times> bytes \<times> 'd"
  op_write :: "bytes \<Rightarrow> u32 \<Rightarrow> 'd \<Rightarrow> bool \<times> 'd"
  stk :: stack
  fuel :: nat

type_synonym ('d, 'a) fm = "('d st, 'a) cm"

definition FAT_ERR_NOFAT :: int where "FAT_ERR_NOFAT = -1"
definition FAT_ERR_BROKEN :: int where "FAT_ERR_BROKEN = -2"
definition FAT_ERR_IO :: int where "FAT_ERR_IO = -3"
definition FAT_ERR_PARAM :: int where "FAT_ERR_PARAM = -4"
definition FAT_ERR_PATH :: int where "FAT_ERR_PATH = -5"
definition FAT_ERR_EOF :: int where "FAT_ERR_EOF = -6"
definition FAT_ERR_DENIED :: int where "FAT_ERR_DENIED = -7"
definition FAT_ERR_FULL :: int where "FAT_ERR_FULL = -8"

text \<open>Not a code of the driver: the outcome of a loop that has not returned after \<open>fuel\<close> rounds.\<close>

definition NO_RETURN :: int where "NO_RETURN = 1000"

lemmas fat_err_defs = FAT_ERR_NOFAT_def FAT_ERR_BROKEN_def FAT_ERR_IO_def FAT_ERR_PARAM_def
  FAT_ERR_PATH_def FAT_ERR_EOF_def FAT_ERR_DENIED_def FAT_ERR_FULL_def NO_RETURN_def

definition FAT_BUF_DIRTY :: u8 where "FAT_BUF_DIRTY = 1"
definition FAT_INFO_DIRTY :: u8 where "FAT_INFO_DIRTY = 2"

abbreviation upd_fat :: "(fat \<Rightarrow> fat) \<Rightarrow> 'd st \<Rightarrow> 'd st" where
  "upd_fat f s \<equiv> s\<lparr>fat := f (fat s)\<rparr>"

definition set_flag :: "u8 \<Rightarrow> ('d, unit) fm" where
  "set_flag m = emodify (upd_fat (\<lambda>f. f\<lparr>fflags := fflags f OR m\<rparr>))"

definition clear_flag :: "u8 \<Rightarrow> ('d, unit) fm" where
  "clear_flag m = emodify (upd_fat (\<lambda>f. f\<lparr>fflags := fflags f AND NOT m\<rparr>))"

definition set_buf :: "(bytes \<Rightarrow> bytes) \<Rightarrow> ('d, unit) fm" where
  "set_buf g = emodify (upd_fat (\<lambda>f. f\<lparr>buf := g (buf f)\<rparr>))"

section \<open>The sector buffer\<close>

definition sync_buf :: "'d env \<Rightarrow> ('d, unit) fm" where
  "sync_buf E s =
     (if fflags (fat s) AND FAT_BUF_DIRTY \<noteq> 0
      then case op_write E (buf (fat s)) (fsect (fat s)) (dev s) of
             (ok, d) \<Rightarrow>
               if \<not> ok then ethrow FAT_ERR_IO (s\<lparr>dev := d\<rparr>)
               else clear_flag FAT_BUF_DIRTY (s\<lparr>dev := d\<rparr>)
      else ereturn () s)"

definition update_buf :: "'d env \<Rightarrow> u32 \<Rightarrow> ('d, unit) fm" where
  "update_buf E sect s =
     (if fsect (fat s) \<noteq> sect
      then ebind (sync_buf E) (\<lambda>_ s.
             case op_read E (buf (fat s)) sect (dev s) of
               (ok, b, d) \<Rightarrow>
                 let s' = upd_fat (\<lambda>f. f\<lparr>buf := b\<rparr>) (s\<lparr>dev := d\<rparr>)
                 in if \<not> ok then ethrow FAT_ERR_IO s'
                    else ereturn () (upd_fat (\<lambda>f. f\<lparr>fsect := sect\<rparr>) s')) s
      else ereturn () s)"

text \<open>Offsets of \<^verbatim>\<open>free_cnt\<close> and \<^verbatim>\<open>next_free\<close> in \<^verbatim>\<open>FsInfo\<close>.\<close>

definition FsInfo_head_sig :: nat where "FsInfo_head_sig = 0"
definition FsInfo_struct_sig :: nat where "FsInfo_struct_sig = 484"
definition FsInfo_free_cnt :: nat where "FsInfo_free_cnt = 488"
definition FsInfo_next_free :: nat where "FsInfo_next_free = 492"
definition FsInfo_tail_sig :: nat where "FsInfo_tail_sig = 508"

definition sync_fs :: "'d env \<Rightarrow> ('d, unit) fm" where
  "sync_fs E =
     ebind (sync_buf E) (\<lambda>_ s.
       if fflags (fat s) AND FAT_INFO_DIRTY \<noteq> 0
       then ebind (update_buf E (info_sect (fat s))) (\<lambda>_.
            ebind (set_flag FAT_BUF_DIRTY) (\<lambda>_.
            ebind (emodify (upd_fat (\<lambda>f. f\<lparr>buf := put_u32 (buf f) FsInfo_next_free (last_used f)\<rparr>))) (\<lambda>_.
            ebind (emodify (upd_fat (\<lambda>f. f\<lparr>buf := put_u32 (buf f) FsInfo_free_cnt (free_cnt f)\<rparr>))) (\<lambda>_.
            ebind (sync_buf E) (\<lambda>_.
            clear_flag FAT_INFO_DIRTY))))) s
       else ereturn () s)"

definition sect_to_clust :: "fat \<Rightarrow> u32 \<Rightarrow> u32" where
  "sect_to_clust f sect = drop_bit (unat (clust_shift f)) (sect - data_sect f) + 2"

definition clust_to_sect :: "fat \<Rightarrow> u32 \<Rightarrow> u32" where
  "clust_to_sect f clust = push_bit (unat (clust_shift f)) (clust - 2) + data_sect f"

section \<open>What a working disk promises\<close>

text \<open>\<open>sectors d\<close> is the contents of device state \<open>d\<close>, and \<open>valid\<close> the sector numbers it honours.\<close>

locale disk =
  fixes E :: "'d env"
    and sectors :: "'d \<Rightarrow> u32 \<Rightarrow> bytes"
    and valid :: "u32 \<Rightarrow> bool"
  assumes read_valid: "valid n \<Longrightarrow> length b = 512 \<Longrightarrow>
      \<exists>d'. op_read E b n d = (True, sectors d n, d') \<and> (\<forall>m. valid m \<longrightarrow> sectors d' m = sectors d m)"
    and write_valid: "valid n \<Longrightarrow> length b = 512 \<Longrightarrow>
      \<exists>d'. op_write E b n d = (True, d') \<and> (\<forall>m. valid m \<longrightarrow> sectors d' m = (if m = n then b else sectors d m))"
    and sector_length: "valid n \<Longrightarrow> length (sectors d n) = 512"

definition dirty :: "'d st \<Rightarrow> bool" where
  "dirty s \<longleftrightarrow> fflags (fat s) AND FAT_BUF_DIRTY \<noteq> 0"

lemma dirty_bit: "dirty s \<longleftrightarrow> bit (fflags (fat s)) 0"
proof -
  have "FAT_BUF_DIRTY = push_bit 0 1" by (simp add: FAT_BUF_DIRTY_def)
  then show ?thesis unfolding dirty_def by (simp only: bit_iff_and_push_bit_not_eq_0)
qed

text \<open>The volume as its client sees it: the buffered sector over the disk.\<close>

definition view :: "('d \<Rightarrow> u32 \<Rightarrow> bytes) \<Rightarrow> 'd st \<Rightarrow> u32 \<Rightarrow> bytes" where
  "view sectors s n = (if n = fsect (fat s) then buf (fat s) else sectors (dev s) n)"

definition coherent :: "('d \<Rightarrow> u32 \<Rightarrow> bytes) \<Rightarrow> (u32 \<Rightarrow> bool) \<Rightarrow> 'd st \<Rightarrow> bool" where
  "coherent sectors valid s \<longleftrightarrow> length (buf (fat s)) = 512 \<and>
     (if dirty s then valid (fsect (fat s))
      else valid (fsect (fat s)) \<longrightarrow> buf (fat s) = sectors (dev s) (fsect (fat s)))"

text \<open>Only the buffer, its sector, its dirty bit and the device differ.\<close>

definition fat_core :: "fat \<Rightarrow> fat" where
  "fat_core f = f\<lparr>fsect := 0, buf := [], fflags := fflags f AND NOT FAT_BUF_DIRTY\<rparr>"

definition same_meta :: "'d st \<Rightarrow> 'd st \<Rightarrow> bool" where
  "same_meta s s' \<longleftrightarrow> fat_core (fat s') = fat_core (fat s) \<and>
     g_buf s' = g_buf s \<and> g_len s' = g_len s \<and> g_crc s' = g_crc s"

lemma same_meta_refl [simp]: "same_meta s s"
  by (simp add: same_meta_def)

lemma same_meta_trans: "same_meta s s' \<Longrightarrow> same_meta s' s'' \<Longrightarrow> same_meta s s''"
  by (simp add: same_meta_def)

lemma same_meta_fields:
  assumes "same_meta s s'"
  shows "clust_msk (fat s') = clust_msk (fat s)" "clust_cnt (fat s') = clust_cnt (fat s)"
    "info_sect (fat s') = info_sect (fat s)" "fat_sect0 (fat s') = fat_sect0 (fat s)"
    "fat_sect1 (fat s') = fat_sect1 (fat s)" "data_sect (fat s') = data_sect (fat s)"
    "root_clust (fat s') = root_clust (fat s)" "last_used (fat s') = last_used (fat s)"
    "free_cnt (fat s') = free_cnt (fat s)" "clust_shift (fat s') = clust_shift (fat s)"
    "g_buf s' = g_buf s" "g_len s' = g_len s" "g_crc s' = g_crc s"
proof -
  have c: "fat_core (fat s') = fat_core (fat s)" using assms by (simp add: same_meta_def)
  show "clust_msk (fat s') = clust_msk (fat s)" "clust_cnt (fat s') = clust_cnt (fat s)"
    "info_sect (fat s') = info_sect (fat s)" "fat_sect0 (fat s') = fat_sect0 (fat s)"
    "fat_sect1 (fat s') = fat_sect1 (fat s)" "data_sect (fat s') = data_sect (fat s)"
    "root_clust (fat s') = root_clust (fat s)" "last_used (fat s') = last_used (fat s)"
    "free_cnt (fat s') = free_cnt (fat s)" "clust_shift (fat s') = clust_shift (fat s)"
    using arg_cong [OF c, of clust_msk] arg_cong [OF c, of clust_cnt] arg_cong [OF c, of info_sect]
      arg_cong [OF c, of fat_sect0] arg_cong [OF c, of fat_sect1] arg_cong [OF c, of data_sect]
      arg_cong [OF c, of root_clust] arg_cong [OF c, of last_used] arg_cong [OF c, of free_cnt]
      arg_cong [OF c, of clust_shift]
    by (simp_all add: fat_core_def)
qed (use assms in \<open>simp_all add: same_meta_def\<close>)

lemma clear_clear: "f AND m = 0 \<Longrightarrow> f AND n AND NOT m = f AND n" for f :: "'a::len word"
proof -
  assume "f AND m = 0"
  then have "\<not> bit (f AND m) i" for i by simp
  then have "\<not> (bit f i \<and> bit m i)" for i by (simp add: bit_and_iff)
  then show ?thesis by (intro bit_word_eqI) (auto simp: bit_simps)
qed

lemma same_meta_flags:
  assumes "same_meta s s'"
  shows "fflags (fat s') AND NOT FAT_BUF_DIRTY = fflags (fat s) AND NOT FAT_BUF_DIRTY"
    and "fflags (fat s') AND FAT_INFO_DIRTY = fflags (fat s) AND FAT_INFO_DIRTY"
proof -
  have "fat_core (fat s') = fat_core (fat s)" using assms by (simp add: same_meta_def)
  from arg_cong [OF this, of fflags]
  show 1: "fflags (fat s') AND NOT FAT_BUF_DIRTY = fflags (fat s) AND NOT FAT_BUF_DIRTY"
    by (simp add: fat_core_def)
  have "NOT FAT_BUF_DIRTY AND FAT_INFO_DIRTY = FAT_INFO_DIRTY"
    by (simp add: FAT_BUF_DIRTY_def FAT_INFO_DIRTY_def)
  with 1 show "fflags (fat s') AND FAT_INFO_DIRTY = fflags (fat s) AND FAT_INFO_DIRTY"
    by (metis and.assoc)
qed

lemma view_clean: "coherent sectors valid s \<Longrightarrow> \<not> dirty s \<Longrightarrow> valid n \<Longrightarrow> view sectors s n = sectors (dev s) n"
  by (auto simp: coherent_def view_def)

lemma fat_flags_buf_swap: "f\<lparr>fflags := v, buf := b\<rparr> = f\<lparr>buf := b, fflags := v\<rparr>"
  by (cases f) simp

text \<open>\<^verbatim>\<open>sync_fs\<close> leaves nothing dirty: the disk holds the volume, with the two counters of the
  information sector brought up to date if they were marked.\<close>

definition info_update :: "fat \<Rightarrow> bytes \<Rightarrow> bytes" where
  "info_update f b = put_u32 (put_u32 b FsInfo_next_free (last_used f)) FsInfo_free_cnt (free_cnt f)"

lemma length_info_update [simp]: "length (info_update f b) = length b"
  by (simp add: info_update_def)

context disk
begin

lemma sync_buf_ok:
  assumes "coherent sectors valid s"
  shows "\<exists>s'. sync_buf E s = (Inr (), s') \<and> coherent sectors valid s' \<and> \<not> dirty s' \<and> same_meta s s' \<and>
    fsect (fat s') = fsect (fat s) \<and> buf (fat s') = buf (fat s) \<and>
    (\<forall>n. valid n \<longrightarrow> sectors (dev s') n = view sectors s n)"
proof (cases "dirty s")
  case False
  with assms show ?thesis
    by (auto simp: sync_buf_def ereturn_def dirty_def coherent_def view_def)
next
  case True
  from assms True have "valid (fsect (fat s))" "length (buf (fat s)) = 512" by (auto simp: coherent_def)
  from write_valid [OF this, of "dev s"] obtain d' where
    w: "op_write E (buf (fat s)) (fsect (fat s)) (dev s) = (True, d')"
    and d': "\<forall>m. valid m \<longrightarrow> sectors d' m = (if m = fsect (fat s) then buf (fat s) else sectors (dev s) m)" by blast
  let ?s = "upd_fat (\<lambda>f. f\<lparr>fflags := fflags f AND NOT FAT_BUF_DIRTY\<rparr>) (s\<lparr>dev := d'\<rparr>)"
  have "sync_buf E s = (Inr (), ?s)"
    using True w by (simp add: sync_buf_def dirty_def clear_flag_def emodify_def)
  moreover have "\<not> dirty ?s" by (simp add: dirty_def and.assoc)
  moreover have "same_meta s ?s" by (simp add: same_meta_def fat_core_def and.assoc)
  ultimately show ?thesis using assms d' by (auto simp: coherent_def view_def)
qed

lemma update_buf_ok:
  assumes co: "coherent sectors valid s" and n: "valid n"
  shows "\<exists>s'. update_buf E n s = (Inr (), s') \<and> coherent sectors valid s' \<and> same_meta s s' \<and>
    fsect (fat s') = n \<and> buf (fat s') = view sectors s n \<and>
    (\<forall>m. valid m \<longrightarrow> view sectors s' m = view sectors s m)"
proof (cases "fsect (fat s) = n")
  case True
  with co show ?thesis by (auto simp: update_buf_def ereturn_def view_def)
next
  case False
  from sync_buf_ok [OF co] obtain s1 where s1: "sync_buf E s = (Inr (), s1)" "\<not> dirty s1" "same_meta s s1"
    "\<forall>m. valid m \<longrightarrow> sectors (dev s1) m = view sectors s m" "coherent sectors valid s1" by blast
  from s1(5) have "length (buf (fat s1)) = 512" by (simp add: coherent_def)
  from read_valid [OF n this, of "dev s1"] obtain d' where
    r: "op_read E (buf (fat s1)) n (dev s1) = (True, sectors (dev s1) n, d')"
    and d': "\<forall>m. valid m \<longrightarrow> sectors d' m = sectors (dev s1) m" by blast
  let ?s = "s1\<lparr>dev := d', fat := (fat s1)\<lparr>buf := sectors (dev s1) n, fsect := n\<rparr>\<rparr>"
  have "update_buf E n s = (Inr (), ?s)"
    using False s1(1) r by (simp add: update_buf_def ereturn_def Let_def)
  moreover have "same_meta s ?s"
    using s1(3) by (simp add: same_meta_def fat_core_def)
  moreover have "\<not> dirty ?s" using s1(2) by (simp add: dirty_def)
  ultimately show ?thesis
    using co n s1(4) d' sector_length [OF n] False by (auto simp: coherent_def view_def)
qed

text \<open>A store into the buffered sector, marked dirty, is a store into that sector of the volume.\<close>

lemma store_ok:
  assumes "coherent sectors valid s" and "length b = 512" and "valid (fsect (fat s))"
  defines "s' \<equiv> upd_fat (\<lambda>f. f\<lparr>buf := b, fflags := fflags f OR FAT_BUF_DIRTY\<rparr>) s"
  shows "coherent sectors valid s'" and "same_meta s s'"
    and "view sectors s' = (view sectors s)(fsect (fat s) := b)" and "fsect (fat s') = fsect (fat s)"
    and "buf (fat s') = b"
proof -
  have "(fflags (fat s) OR FAT_BUF_DIRTY) AND NOT FAT_BUF_DIRTY = fflags (fat s) AND NOT FAT_BUF_DIRTY"
    by (rule bit_word_eqI) (auto simp: bit_simps)
  then show "same_meta s s'" by (simp add: s'_def same_meta_def fat_core_def)
  have "dirty s'" unfolding dirty_bit by (simp add: s'_def bit_simps FAT_BUF_DIRTY_def)
  then show "coherent sectors valid s'" using assms by (simp add: coherent_def s'_def)
qed (auto simp: s'_def view_def)

lemma sync_fs_ok:
  assumes co: "coherent sectors valid s" and n: "valid (info_sect (fat s))"
  shows "\<exists>s'. sync_fs E s = (Inr (), s') \<and> coherent sectors valid s' \<and> \<not> dirty s' \<and>
    fat_core (fat s') = (fat_core (fat s))\<lparr>fflags := fflags (fat s) AND NOT FAT_BUF_DIRTY AND NOT FAT_INFO_DIRTY\<rparr> \<and>
    g_buf s' = g_buf s \<and> g_len s' = g_len s \<and> g_crc s' = g_crc s \<and>
    (\<forall>m. valid m \<longrightarrow> sectors (dev s') m =
       (if fflags (fat s) AND FAT_INFO_DIRTY \<noteq> 0 \<and> m = info_sect (fat s)
        then info_update (fat s) (view sectors s m) else view sectors s m))"
proof -
  from sync_buf_ok [OF co] obtain s1 where s1: "sync_buf E s = (Inr (), s1)" "coherent sectors valid s1"
    "\<not> dirty s1" "same_meta s s1" "\<forall>m. valid m \<longrightarrow> sectors (dev s1) m = view sectors s m" by blast
  note fl = same_meta_flags [OF s1(4)]
  have core: "fat_core (fat s1) = fat_core (fat s)" and g: "g_buf s1 = g_buf s" "g_len s1 = g_len s" "g_crc s1 = g_crc s"
    using s1(4) by (simp_all add: same_meta_def)
  show ?thesis
  proof (cases "fflags (fat s) AND FAT_INFO_DIRTY = 0")
    case True
    then have "sync_fs E s = (Inr (), s1)" using s1(1) fl(2) by (simp add: sync_fs_def ereturn_def)
    moreover have "fflags (fat s) AND NOT FAT_BUF_DIRTY AND NOT FAT_INFO_DIRTY = fflags (fat s) AND NOT FAT_BUF_DIRTY"
      by (rule clear_clear [OF True])
    ultimately show ?thesis using s1 core g True by (simp add: fat_core_def)
  next
    case False
    have n1: "valid (info_sect (fat s1))" using n same_meta_fields(3) [OF s1(4)] by simp
    from update_buf_ok [OF s1(2) n1] obtain s2 where s2: "update_buf E (info_sect (fat s1)) s1 = (Inr (), s2)"
      "coherent sectors valid s2" "same_meta s1 s2" "fsect (fat s2) = info_sect (fat s1)"
      "buf (fat s2) = view sectors s1 (info_sect (fat s1))"
      "\<forall>m. valid m \<longrightarrow> view sectors s2 m = view sectors s1 m" by blast
    let ?b = "info_update (fat s2) (buf (fat s2))"
    let ?s3 = "upd_fat (\<lambda>f. f\<lparr>buf := ?b, fflags := fflags f OR FAT_BUF_DIRTY\<rparr>) s2"
    have len: "length ?b = 512" using s2(2) by (simp add: coherent_def)
    have v2: "valid (fsect (fat s2))" using s2(4) n1 by simp
    note st = store_ok [OF s2(2) len v2]
    from sync_buf_ok [OF st(1)] obtain s4 where s4: "sync_buf E ?s3 = (Inr (), s4)" "coherent sectors valid s4"
      "\<not> dirty s4" "same_meta ?s3 s4" "\<forall>m. valid m \<longrightarrow> sectors (dev s4) m = view sectors ?s3 m"
      "buf (fat s4) = ?b" by auto
    let ?s5 = "upd_fat (\<lambda>f. f\<lparr>fflags := fflags f AND NOT FAT_INFO_DIRTY\<rparr>) s4"
    have run: "sync_fs E s = (Inr (), ?s5)"
      using s1(1) fl(2) False s2(1) s4(1)
      by (simp add: sync_fs_def set_flag_def clear_flag_def emodify_def info_update_def fat_flags_buf_swap)
    have meta: "same_meta s s4"
      using same_meta_trans [OF s1(4) same_meta_trans [OF s2(3) same_meta_trans [OF st(2) s4(4)]]] .
    then have core4: "fat_core (fat s4) = fat_core (fat s)" by (simp add: same_meta_def)
    have "fat_core (fat ?s5) = (fat_core (fat s4))\<lparr>fflags := fflags (fat s4) AND NOT FAT_BUF_DIRTY AND NOT FAT_INFO_DIRTY\<rparr>"
      by (simp add: fat_core_def and.assoc and.commute and.left_commute)
    also have "\<dots> = (fat_core (fat s))\<lparr>fflags := fflags (fat s) AND NOT FAT_BUF_DIRTY AND NOT FAT_INFO_DIRTY\<rparr>"
      unfolding core4 using same_meta_flags(1) [OF meta] by (simp flip: and.assoc)
    finally have c5: "fat_core (fat ?s5) = \<dots>" .
    have "\<not> dirty ?s5" using s4(3) by (auto simp: dirty_bit bit_simps)
    moreover have "coherent sectors valid ?s5" using s4(2,3) calculation by (auto simp: coherent_def)
    moreover have "view sectors s1 m = view sectors s m" if "valid m" for m
      using s1(5) that by (simp add: view_clean [OF s1(2,3)])
    then have "sectors (dev ?s5) m = (if m = info_sect (fat s) then info_update (fat s) (view sectors s m) else view sectors s m)"
      if "valid m" for m
      using that s4(5) st(3) s2(4,5,6) n same_meta_fields(3) [OF s1(4)]
        same_meta_fields(8,9) [OF same_meta_trans [OF s1(4) s2(3)]]
      by (simp add: info_update_def)
    ultimately show ?thesis using run c5 False meta by (auto simp: same_meta_def)
  qed
qed

end

section \<open>The volume as one function\<close>

definition vol :: "('d \<Rightarrow> u32 \<Rightarrow> bytes) \<Rightarrow> (u32 \<Rightarrow> bool) \<Rightarrow> 'd st \<Rightarrow> u32 \<Rightarrow> bytes" where
  "vol sectors valid s n = (if valid n then view sectors s n else [])"

text \<open>How an operation of the buffer layer left the state: what changed is the volume only.\<close>

definition vol_step :: "('d \<Rightarrow> u32 \<Rightarrow> bytes) \<Rightarrow> (u32 \<Rightarrow> bool) \<Rightarrow> 'd st \<Rightarrow> (u32 \<Rightarrow> bytes) \<Rightarrow> 'd st \<Rightarrow> bool" where
  "vol_step sectors valid s V s' \<longleftrightarrow> coherent sectors valid s' \<and> same_meta s s' \<and> vol sectors valid s' = V"

lemma vol_step_trans:
  "vol_step sectors valid s V s1 \<Longrightarrow> vol_step sectors valid s1 W s2 \<Longrightarrow> vol_step sectors valid s W s2"
  by (auto simp: vol_step_def intro: same_meta_trans)

context disk
begin

lemma vol_length: "coherent sectors valid s \<Longrightarrow> valid n \<Longrightarrow> length (vol sectors valid s n) = 512"
  by (simp add: vol_def view_def coherent_def sector_length)

lemma sync_buf_vol:
  assumes "coherent sectors valid s"
  shows "\<exists>s'. sync_buf E s = (Inr (), s') \<and> vol_step sectors valid s (vol sectors valid s) s' \<and> \<not> dirty s' \<and>
    fsect (fat s') = fsect (fat s) \<and> buf (fat s') = buf (fat s)"
proof -
  from sync_buf_ok [OF assms] obtain s' where s': "sync_buf E s = (Inr (), s')" "coherent sectors valid s'"
    "\<not> dirty s'" "same_meta s s'" "fsect (fat s') = fsect (fat s)" "buf (fat s') = buf (fat s)"
    "\<forall>n. valid n \<longrightarrow> sectors (dev s') n = view sectors s n" by blast
  then have "vol sectors valid s' = vol sectors valid s"
    by (auto simp: vol_def view_clean [OF s'(2,3)] fun_eq_iff)
  with s' show ?thesis by (auto simp: vol_step_def)
qed

lemma update_buf_vol:
  assumes "coherent sectors valid s" and "valid n"
  shows "\<exists>s'. update_buf E n s = (Inr (), s') \<and> vol_step sectors valid s (vol sectors valid s) s' \<and>
    fsect (fat s') = n \<and> buf (fat s') = vol sectors valid s n"
proof -
  from update_buf_ok [OF assms] obtain s' where s': "update_buf E n s = (Inr (), s')" "coherent sectors valid s'"
    "same_meta s s'" "fsect (fat s') = n" "buf (fat s') = view sectors s n"
    "\<forall>m. valid m \<longrightarrow> view sectors s' m = view sectors s m" by blast
  then have "vol sectors valid s' = vol sectors valid s" by (auto simp: vol_def fun_eq_iff)
  with s' assms(2) show ?thesis by (auto simp: vol_step_def vol_def)
qed

lemma store_vol:
  assumes "coherent sectors valid s" and "length b = 512" and "valid (fsect (fat s))"
  defines "s' \<equiv> upd_fat (\<lambda>f. f\<lparr>buf := b, fflags := fflags f OR FAT_BUF_DIRTY\<rparr>) s"
  shows "vol_step sectors valid s ((vol sectors valid s)(fsect (fat s) := b)) s'"
  using store_ok [OF assms(1-3)] assms(3) unfolding s'_def [symmetric]
  by (auto simp: vol_step_def vol_def fun_eq_iff)

text \<open>Load a sector and replace its contents by a function of them.\<close>

lemma modify_sector:
  assumes "coherent sectors valid s" and "valid n" and "\<And>b. length (g b) = length b"
  shows "\<exists>s'. ebind (update_buf E n) (\<lambda>_. ebind (set_buf g) (\<lambda>_. set_flag FAT_BUF_DIRTY)) s = (Inr (), s') \<and>
    vol_step sectors valid s ((vol sectors valid s)(n := g (vol sectors valid s n))) s' \<and> fsect (fat s') = n"
proof -
  from update_buf_vol [OF assms(1,2)] obtain s1 where s1: "update_buf E n s = (Inr (), s1)"
    "vol_step sectors valid s (vol sectors valid s) s1" "fsect (fat s1) = n" "buf (fat s1) = vol sectors valid s n" by blast
  let ?s = "upd_fat (\<lambda>f. f\<lparr>buf := g (vol sectors valid s n), fflags := fflags f OR FAT_BUF_DIRTY\<rparr>) s1"
  have "ebind (update_buf E n) (\<lambda>_. ebind (set_buf g) (\<lambda>_. set_flag FAT_BUF_DIRTY)) s = (Inr (), ?s)"
    using s1 by (simp add: set_buf_def set_flag_def emodify_def)
  moreover have "vol_step sectors valid s ((vol sectors valid s)(n := g (vol sectors valid s n))) ?s"
    using s1 store_vol [of s1 "g (vol sectors valid s n)"] vol_length [OF assms(1,2)] assms(2,3)
    by (auto simp: vol_step_def intro: same_meta_trans)
  ultimately show ?thesis using s1(3) by auto
qed

lemma sync_fs_vol:
  assumes "coherent sectors valid s" and "valid (info_sect (fat s))"
  shows "\<exists>s'. sync_fs E s = (Inr (), s') \<and> coherent sectors valid s' \<and> \<not> dirty s' \<and>
    fat_core (fat s') = (fat_core (fat s))\<lparr>fflags := fflags (fat s) AND NOT FAT_BUF_DIRTY AND NOT FAT_INFO_DIRTY\<rparr> \<and>
    g_buf s' = g_buf s \<and> g_len s' = g_len s \<and> g_crc s' = g_crc s \<and>
    (\<forall>m. valid m \<longrightarrow> sectors (dev s') m = vol sectors valid s' m) \<and>
    vol sectors valid s' = (if fflags (fat s) AND FAT_INFO_DIRTY \<noteq> 0
       then (vol sectors valid s)(info_sect (fat s) := info_update (fat s) (vol sectors valid s (info_sect (fat s))))
       else vol sectors valid s)"
proof -
  from sync_fs_ok [OF assms] obtain s' where s': "sync_fs E s = (Inr (), s')" "coherent sectors valid s'"
    "\<not> dirty s'" "fat_core (fat s') = (fat_core (fat s))\<lparr>fflags := fflags (fat s) AND NOT FAT_BUF_DIRTY AND NOT FAT_INFO_DIRTY\<rparr>"
    "g_buf s' = g_buf s \<and> g_len s' = g_len s \<and> g_crc s' = g_crc s"
    "\<forall>m. valid m \<longrightarrow> sectors (dev s') m =
       (if fflags (fat s) AND FAT_INFO_DIRTY \<noteq> 0 \<and> m = info_sect (fat s)
        then info_update (fat s) (view sectors s m) else view sectors s m)" by blast
  then show ?thesis using assms(2)
    by (auto simp: vol_def view_clean [OF s'(2,3)] fun_eq_iff)
qed

end

end
