(* ===== verification/Ata.thy ===== *)
theory Ata
  imports FatDisk
begin

text \<open>
  The LBA28 programmed I/O of \<^verbatim>\<open>src/kernel/src/device/storage/ata.c\<close> and the disk callbacks of \<^verbatim>\<open>fat32.c\<close> on top of it.
  The other side of the ports is a channel as the ATA standard describes it for these commands: the task file, two
  devices of which the device register selects one, and the data register, which moves the words of as many sectors
  as the count register asked for, in the direction of the command.  After a command and after each sector the
  selected device is busy for a while; what is moved through the data register meanwhile is lost.  The devices report
  no error, so the panic of \<^verbatim>\<open>ata_poll\<close> does not occur; the delays, which only read a status port, are left out.  The theory shows that the callbacks are a working disk on the sectors
  below \<open>2 ^ 28\<close>.
\<close>

section \<open>The channel\<close>

record ata_device =
  ata_io :: u16
  ata_ctrl :: u16
  ata_slave :: u8

text \<open>A transfer in progress: the device, its sector, the sectors that are left and the next word of the sector.\<close>

datatype xfer = Idle | DataIn bool u32 nat nat | DataOut bool u32 nat nat

text \<open>\<open>busy\<close> is the number of reads of the status register that still show the device busy; \<open>latency\<close> has the waiting times
  of all phases to come, any finite numbers.\<close>

record channel =
  regs :: "nat \<Rightarrow> u8"
  media :: "bool \<Rightarrow> u32 \<Rightarrow> nat \<Rightarrow> u8"
  xfer :: xfer
  busy :: nat
  phase :: nat
  latency :: "nat \<Rightarrow> nat"

definition ATA_REG_FEATURES :: nat where "ATA_REG_FEATURES = 1"
definition ATA_REG_SECCOUNT0 :: nat where "ATA_REG_SECCOUNT0 = 2"
definition ATA_REG_LBA0 :: nat where "ATA_REG_LBA0 = 3"
definition ATA_REG_LBA1 :: nat where "ATA_REG_LBA1 = 4"
definition ATA_REG_LBA2 :: nat where "ATA_REG_LBA2 = 5"
definition ATA_REG_HDDEVSEL :: nat where "ATA_REG_HDDEVSEL = 6"
definition ATA_REG_COMMAND :: nat where "ATA_REG_COMMAND = 7"
definition ATA_STATUS_ERR :: u8 where "ATA_STATUS_ERR = 0x01"
definition ATA_STATUS_DRQ :: u8 where "ATA_STATUS_DRQ = 0x08"
definition ATA_STATUS_DF :: u8 where "ATA_STATUS_DF = 0x20"
definition ATA_STATUS_RDY :: u8 where "ATA_STATUS_RDY = 0x40"
definition ATA_STATUS_BSY :: u8 where "ATA_STATUS_BSY = 0x80"
definition ATA_CMD_READ_PIO :: u8 where "ATA_CMD_READ_PIO = 0x20"
definition ATA_CMD_WRITE_PIO :: u8 where "ATA_CMD_WRITE_PIO = 0x30"
definition ATA_CMD_CACHE_FLUSH :: u8 where "ATA_CMD_CACHE_FLUSH = 0xe7"

lemmas ata_reg_defs = ATA_REG_FEATURES_def ATA_REG_SECCOUNT0_def ATA_REG_LBA0_def ATA_REG_LBA1_def
  ATA_REG_LBA2_def ATA_REG_HDDEVSEL_def ATA_REG_COMMAND_def

lemmas ata_status_defs = ATA_STATUS_ERR_def ATA_STATUS_DRQ_def ATA_STATUS_DF_def ATA_STATUS_RDY_def ATA_STATUS_BSY_def

definition wait_phase :: "channel \<Rightarrow> channel" where
  "wait_phase d = d\<lparr>busy := latency d (phase d), phase := Suc (phase d)\<rparr>"

text \<open>The sector number the task file holds: 28 bits.  A count of 0 asks for 256 sectors.\<close>

definition taskfile_lba :: "channel \<Rightarrow> u32" where
  "taskfile_lba d = ucast (regs d ATA_REG_LBA0) OR push_bit 8 (ucast (regs d ATA_REG_LBA1))
     OR push_bit 16 (ucast (regs d ATA_REG_LBA2)) OR push_bit 24 (ucast (regs d ATA_REG_HDDEVSEL AND 0xf))"

definition taskfile_count :: "channel \<Rightarrow> nat" where
  "taskfile_count d = (if regs d ATA_REG_SECCOUNT0 = 0 then 256 else unat (regs d ATA_REG_SECCOUNT0))"

text \<open>Bit 6 of the device register selects sector numbers, bit 4 the device.  Without bit 6, or with a command other than
  the two transfers, no data moves.\<close>

definition ata_command :: "u8 \<Rightarrow> channel \<Rightarrow> channel" where
  "ata_command cmd d =
     (let dv = bit (regs d ATA_REG_HDDEVSEL) 4
      in wait_phase (d\<lparr>xfer :=
           if \<not> bit (regs d ATA_REG_HDDEVSEL) 6 then Idle
           else if cmd = ATA_CMD_READ_PIO then DataIn dv (taskfile_lba d) (taskfile_count d) 0
           else if cmd = ATA_CMD_WRITE_PIO then DataOut dv (taskfile_lba d) (taskfile_count d) 0
           else Idle\<rparr>))"

definition port_outb :: "nat \<Rightarrow> u8 \<Rightarrow> channel \<Rightarrow> channel" where
  "port_outb reg v d =
     (if reg = ATA_REG_COMMAND then ata_command v d else d\<lparr>regs := (regs d)(reg := v)\<rparr>)"

definition ata_status :: "(channel, u8) km" where
  "ata_status d =
     (if 0 < busy d then Inr (ATA_STATUS_BSY, d\<lparr>busy := busy d - 1\<rparr>)
      else Inr (if xfer d = Idle then ATA_STATUS_RDY else ATA_STATUS_RDY OR ATA_STATUS_DRQ, d))"

text \<open>Where the transfer stands when \<open>w\<close> words of sector \<open>n\<close> have been moved.\<close>

definition xfer_at :: "(u32 \<Rightarrow> nat \<Rightarrow> nat \<Rightarrow> xfer) \<Rightarrow> u32 \<Rightarrow> nat \<Rightarrow> nat \<Rightarrow> channel \<Rightarrow> channel" where
  "xfer_at mk n left w d =
     (if w < 256 then d\<lparr>xfer := mk n left w\<rparr>
      else wait_phase (d\<lparr>xfer := if left \<le> 1 then Idle else mk (n + 1) (left - 1) 0\<rparr>))"

definition port_inw :: "(channel, u16) km" where
  "port_inw d = (case xfer d of
       DataIn dv n left w \<Rightarrow>
         if 0 < busy d then Inr (0xffff, d)
         else Inr (ucast (media d dv n (2 * w)) OR push_bit 8 (ucast (media d dv n (2 * w + 1))),
                   xfer_at (DataIn dv) n left (Suc w) d)
     | _ \<Rightarrow> Inr (0xffff, d))"

definition put_word :: "bool \<Rightarrow> u32 \<Rightarrow> nat \<Rightarrow> u16 \<Rightarrow> channel \<Rightarrow> channel" where
  "put_word dv n w v d = d\<lparr>media := (media d)(dv := (media d dv)(n :=
     (media d dv n)(2 * w := ucast v, 2 * w + 1 := ucast (drop_bit 8 v))))\<rparr>"

definition port_outw :: "u16 \<Rightarrow> (channel, unit) km" where
  "port_outw v d = (case xfer d of
       DataOut dv n left w \<Rightarrow>
         if 0 < busy d then Inr ((), d)
         else Inr ((), xfer_at (DataOut dv) n left (Suc w) (put_word dv n w v d))
     | _ \<Rightarrow> Inr ((), d))"

fun port_insw :: "nat \<Rightarrow> (channel, u16 list) km" where
  "port_insw 0 = kreturn []"
| "port_insw (Suc k) = kbind port_inw (\<lambda>w. kbind (port_insw k) (\<lambda>ws. kreturn (w # ws)))"

definition words_to_bytes :: "u16 list \<Rightarrow> bytes" where
  "words_to_bytes ws = concat (map (\<lambda>w. [ucast w, ucast (drop_bit 8 w)]) ws)"

section \<open>Programmed I/O\<close>

text \<open>The two loops of \<^verbatim>\<open>ata_poll\<close>, which a device could keep from ending.  The second one starts to look at the error bits
  after its fifth read.\<close>

partial_function (option) poll_busy :: "channel \<Rightarrow> (fault + channel) option" where
  "poll_busy d = (case ata_status d of
       Inl e \<Rightarrow> Some (Inl e)
     | Inr (status, d1) \<Rightarrow> if status AND ATA_STATUS_BSY \<noteq> 0 then poll_busy d1 else Some (Inr d1))"

partial_function (option) poll_ready :: "int \<Rightarrow> channel \<Rightarrow> (fault + channel) option" where
  "poll_ready ignore d = (case ata_status d of
       Inl e \<Rightarrow> Some (Inl e)
     | Inr (status, d1) \<Rightarrow>
         if status = 0 then Some (Inr d1)
         else if ignore - 1 = 0 \<and> (status AND ATA_STATUS_ERR \<noteq> 0 \<or> status AND ATA_STATUS_DF \<noteq> 0) then Some (Inl Panic)
         else if status AND ATA_STATUS_DRQ \<noteq> 0 then Some (Inr d1)
         else poll_ready (ignore - 1) d1)"

definition ata_poll :: "bool \<Rightarrow> (channel, unit) km" where
  "ata_poll datardy d = (case poll_busy d of
       None \<Rightarrow> Inl NoReturn
     | Some (Inl e) \<Rightarrow> Inl e
     | Some (Inr d1) \<Rightarrow>
         if \<not> datardy then Inr ((), d1)
         else (case poll_ready 5 d1 of
             None \<Rightarrow> Inl NoReturn
           | Some (Inl e) \<Rightarrow> Inl e
           | Some (Inr d2) \<Rightarrow> Inr ((), d2)))"

text \<open>The register writes that both transfers start with.\<close>

definition ata_setup :: "ata_device \<Rightarrow> u8 \<Rightarrow> u32 \<Rightarrow> u8 \<Rightarrow> channel \<Rightarrow> channel" where
  "ata_setup a cnt lba cmd d =
     (let d1 = port_outb ATA_REG_HDDEVSEL
                 (0xe0 OR push_bit 4 (ata_slave a) OR (ucast (drop_bit 24 lba) AND 0xf)) d;
          d2 = port_outb ATA_REG_FEATURES 0 d1;
          d3 = port_outb ATA_REG_SECCOUNT0 cnt d2;
          d4 = port_outb ATA_REG_LBA0 (ucast lba) d3;
          d5 = port_outb ATA_REG_LBA1 (ucast (drop_bit 8 lba)) d4;
          d6 = port_outb ATA_REG_LBA2 (ucast (drop_bit 16 lba)) d5
      in port_outb ATA_REG_COMMAND cmd d6)"

fun read_sectors :: "nat \<Rightarrow> (channel, bytes) km" where
  "read_sectors 0 = kreturn []"
| "read_sectors (Suc k) =
     kbind (ata_poll True) (\<lambda>_.
     kbind (port_insw 256) (\<lambda>ws.
     kbind (read_sectors k) (\<lambda>b. kreturn (words_to_bytes ws @ b))))"

definition ata_pio_read28 :: "ata_device \<Rightarrow> u8 \<Rightarrow> u32 \<Rightarrow> (channel, bytes) km" where
  "ata_pio_read28 a cnt lba =
     kbind (kmodify (ata_setup a cnt lba ATA_CMD_READ_PIO)) (\<lambda>_.
     kbind (read_sectors (unat cnt)) (\<lambda>b.
     kbind (ata_poll False) (\<lambda>_. kreturn b)))"

fun outw_words :: "u16 list \<Rightarrow> (channel, unit) km" where
  "outw_words [] = kreturn ()"
| "outw_words (w # ws) = kbind (port_outw w) (\<lambda>_. outw_words ws)"

fun write_sectors :: "nat \<Rightarrow> bytes \<Rightarrow> (channel, unit) km" where
  "write_sectors 0 b = kreturn ()"
| "write_sectors (Suc k) b =
     kbind (ata_poll True) (\<lambda>_.
     kbind (outw_words (map (\<lambda>j. get_u16 b (2 * j)) [0..<256])) (\<lambda>_.
     write_sectors k (drop 512 b)))"

definition ata_pio_write28 :: "ata_device \<Rightarrow> u8 \<Rightarrow> u32 \<Rightarrow> bytes \<Rightarrow> (channel, unit) km" where
  "ata_pio_write28 a cnt lba b =
     kbind (kmodify (ata_setup a cnt lba ATA_CMD_WRITE_PIO)) (\<lambda>_.
     kbind (write_sectors (unat cnt) b) (\<lambda>_.
     kbind (ata_poll False) (\<lambda>_.
     kbind (kmodify (port_outb ATA_REG_COMMAND ATA_CMD_CACHE_FLUSH)) (\<lambda>_.
     ata_poll False))))"

section \<open>The callbacks of the FAT32 driver\<close>

text \<open>On this channel the transfers always return (\<open>ata_disk_ops\<close> below); the other cases, in which the kernel panics or
  hangs, have a value here only because a function must have one.\<close>

definition fat32_disk_read :: "ata_device \<Rightarrow> bytes \<Rightarrow> u32 \<Rightarrow> channel \<Rightarrow> bool \<times> bytes \<times> channel" where
  "fat32_disk_read a b sect d = (case ata_pio_read28 a 1 sect d of
     Inr (r, d') \<Rightarrow> (True, put_bytes b 0 r, d') | Inl _ \<Rightarrow> (False, b, d))"

definition fat32_disk_write :: "ata_device \<Rightarrow> bytes \<Rightarrow> u32 \<Rightarrow> channel \<Rightarrow> bool \<times> channel" where
  "fat32_disk_write a b sect d = (case ata_pio_write28 a 1 sect b d of
     Inr (_, d') \<Rightarrow> (True, d') | Inl _ \<Rightarrow> (False, d))"

definition ata_env :: "ata_device \<Rightarrow> stack \<Rightarrow> nat \<Rightarrow> channel env" where
  "ata_env a sk fu = \<lparr>op_read = fat32_disk_read a, op_write = fat32_disk_write a, stk = sk, fuel = fu\<rparr>"

section \<open>Polling\<close>

definition ata_unit :: "ata_device \<Rightarrow> bool" where
  "ata_unit a = bit (ata_slave a) 0"

definition sector_bytes :: "ata_device \<Rightarrow> channel \<Rightarrow> u32 \<Rightarrow> bytes" where
  "sector_bytes a d n = map (media d (ata_unit a) n) [0..<512]"

text \<open>The sectors the volume layer uses: sector 0, the boot record, is never buffered (a fresh
  volume has an empty buffer that claims sector 0).\<close>

definition lba28 :: "u32 \<Rightarrow> bool" where
  "lba28 n \<longleftrightarrow> 0 < n \<and> n < 2 ^ 28"

lemma status_bits [simp]:
  "ATA_STATUS_BSY \<noteq> 0" "ATA_STATUS_DRQ \<noteq> 0" "ATA_STATUS_RDY AND ATA_STATUS_BSY = 0"
  "(ATA_STATUS_RDY OR ATA_STATUS_DRQ) AND ATA_STATUS_BSY = 0" "ATA_STATUS_RDY OR ATA_STATUS_DRQ \<noteq> 0"
  "(ATA_STATUS_RDY OR ATA_STATUS_DRQ) AND ATA_STATUS_ERR = 0" "(ATA_STATUS_RDY OR ATA_STATUS_DRQ) AND ATA_STATUS_DF = 0"
  "(ATA_STATUS_RDY OR ATA_STATUS_DRQ) AND ATA_STATUS_DRQ \<noteq> 0"
  by code_simp+

lemma poll_busy_ends: "poll_busy d = Some (Inr (d\<lparr>busy := 0\<rparr>))"
proof (induction "busy d" arbitrary: d)
  case 0
  then show ?case by (subst poll_busy.simps) (simp add: ata_status_def)
next
  case (Suc k)
  have "poll_busy (d\<lparr>busy := k\<rparr>) = Some (Inr (d\<lparr>busy := 0\<rparr>))" using Suc.hyps(1) [of "d\<lparr>busy := k\<rparr>"] by simp
  then show ?case using Suc.hyps(2) [symmetric] by (subst poll_busy.simps) (simp add: ata_status_def)
qed

lemma ata_poll_False: "ata_poll False d = Inr ((), d\<lparr>busy := 0\<rparr>)"
  by (simp add: ata_poll_def poll_busy_ends)

lemma ata_poll_True: "xfer d \<noteq> Idle \<Longrightarrow> ata_poll True d = Inr ((), d\<lparr>busy := 0\<rparr>)"
  by (simp add: ata_poll_def poll_busy_ends poll_ready.simps [of 5] ata_status_def)

section \<open>Moving one sector\<close>

lemma port_insw_words:
  assumes "busy d = 0" and "w + k \<le> 256" and "0 < k"
  shows "port_insw k (d\<lparr>xfer := DataIn dv n left w\<rparr>) =
    Inr (map (\<lambda>j. ucast (media d dv n (2 * j)) OR push_bit 8 (ucast (media d dv n (2 * j + 1)))) [w..<w + k],
         xfer_at (DataIn dv) n left (w + k) d)"
  using assms(2,3)
proof (induction k arbitrary: w)
  case (Suc k)
  have one: "port_inw (d\<lparr>xfer := DataIn dv n left w\<rparr>) =
      Inr (ucast (media d dv n (2 * w)) OR push_bit 8 (ucast (media d dv n (2 * w + 1))), xfer_at (DataIn dv) n left (Suc w) d)"
    using assms(1) by (simp add: port_inw_def xfer_at_def wait_phase_def)
  show ?case
  proof (cases k)
    case 0
    then show ?thesis using one by (simp add: kreturn_def)
  next
    case (Suc k')
    have "xfer_at (DataIn dv) n left (Suc w) d = d\<lparr>xfer := DataIn dv n left (Suc w)\<rparr>" using Suc Suc.prems(1) by (simp add: xfer_at_def)
    moreover note Suc.IH [of "Suc w"]
    ultimately show ?thesis using one Suc Suc.prems(1) by (simp add: kreturn_def upt_conv_Cons del: upt_Suc)
  qed
qed simp

fun put_words :: "bool \<Rightarrow> u32 \<Rightarrow> nat \<Rightarrow> u16 list \<Rightarrow> channel \<Rightarrow> channel" where
  "put_words dv n w [] d = d"
| "put_words dv n w (v # vs) d = put_words dv n (Suc w) vs (put_word dv n w v d)"

lemma put_word_busy [simp]: "busy (put_word dv n w v d) = busy d"
  by (simp add: put_word_def)

lemma put_word_xfer: "put_word dv n w v (d\<lparr>xfer := x\<rparr>) = (put_word dv n w v d)\<lparr>xfer := x\<rparr>"
  by (simp add: put_word_def)

lemma outw_words_put:
  assumes "w + length vs \<le> 256" and "vs \<noteq> []" and "busy d = 0"
  shows "outw_words vs (d\<lparr>xfer := DataOut dv n left w\<rparr>) = Inr ((), xfer_at (DataOut dv) n left (w + length vs) (put_words dv n w vs d))"
  using assms
proof (induction vs arbitrary: w d)
  case (Cons v vs)
  have one: "port_outw v (d\<lparr>xfer := DataOut dv n left w\<rparr>) = Inr ((), xfer_at (DataOut dv) n left (Suc w) (put_word dv n w v d))"
    using Cons.prems(3) by (simp add: port_outw_def put_word_xfer xfer_at_def wait_phase_def)
  show ?case
  proof (cases vs)
    case Nil
    then show ?thesis using one by (simp add: kreturn_def)
  next
    case (Cons v' vs')
    have "xfer_at (DataOut dv) n left (Suc w) (put_word dv n w v d) = (put_word dv n w v d)\<lparr>xfer := DataOut dv n left (Suc w)\<rparr>"
      using Cons Cons.prems(1) by (simp add: xfer_at_def)
    moreover have "outw_words vs ((put_word dv n w v d)\<lparr>xfer := DataOut dv n left (Suc w)\<rparr>) =
        Inr ((), xfer_at (DataOut dv) n left (Suc w + length vs) (put_words dv n (Suc w) vs (put_word dv n w v d)))"
      by (rule Cons.IH) (use Cons Cons.prems in simp_all)
    ultimately show ?thesis using one by simp
  qed
qed simp

lemma media_put_words:
  "media (put_words dv n w vs d) dv' m i =
     (if dv' = dv \<and> m = n \<and> w \<le> i div 2 \<and> i div 2 < w + length vs
      then ucast (if even i then vs ! (i div 2 - w) else drop_bit 8 (vs ! (i div 2 - w))) else media d dv' m i)"
proof (induction vs arbitrary: w d)
  case (Cons v vs)
  have o: "i = 2 * w \<or> i = Suc (2 * w) \<longleftrightarrow> i div 2 = w" by auto
  show ?case
  proof (cases "i div 2 = w")
    case True
    then have "i = 2 * w \<or> i = Suc (2 * w)" using o by blast
    then show ?thesis by (auto simp: Cons.IH put_word_def)
  next
    case False
    then have ne: "i \<noteq> 2 * w" "i \<noteq> Suc (2 * w)" by auto
    have "Suc w \<le> i div 2 \<longleftrightarrow> w \<le> i div 2" using False by linarith
    moreover have "(v # vs) ! (i div 2 - w) = vs ! (i div 2 - Suc w)" if "Suc w \<le> i div 2" using that by (simp add: nth_Cons')
    ultimately show ?thesis using ne by (auto simp: Cons.IH put_word_def)
  qed
qed auto

lemma lit_e0: "bit (0xe0 :: u8) n \<longleftrightarrow> n \<in> {5, 6, 7}"
proof -
  have "0xe0 = (push_bit 5 (mask 3) :: u8)" by (simp add: mask_eq_exp_minus_1)
  then show ?thesis by (simp only: bit_push_bit_iff bit_mask_iff) auto
qed

lemma setup_regs:
  assumes "d' = ata_setup a cnt lba cmd d"
  shows "media d' = media d"
    and "xfer d' = (if cmd = ATA_CMD_READ_PIO then DataIn (ata_unit a) (take_bit 28 lba) (if cnt = 0 then 256 else unat cnt) 0
       else if cmd = ATA_CMD_WRITE_PIO then DataOut (ata_unit a) (take_bit 28 lba) (if cnt = 0 then 256 else unat cnt) 0 else Idle)"
proof -
  define d6 where "d6 = d\<lparr>regs := (regs d)(ATA_REG_HDDEVSEL := 0xe0 OR push_bit 4 (ata_slave a) OR (ucast (drop_bit 24 lba) AND 0xf),
    ATA_REG_FEATURES := 0, ATA_REG_SECCOUNT0 := cnt, ATA_REG_LBA0 := ucast lba, ATA_REG_LBA1 := ucast (drop_bit 8 lba),
    ATA_REG_LBA2 := ucast (drop_bit 16 lba))\<rparr>"
  have d': "d' = ata_command cmd d6" by (simp add: assms ata_setup_def Let_def port_outb_def ata_reg_defs d6_def)
  have sel: "regs d6 ATA_REG_HDDEVSEL = 0xe0 OR push_bit 4 (ata_slave a) OR (ucast (drop_bit 24 lba) AND 0xf)"
    by (simp add: d6_def ata_reg_defs)
  have "taskfile_lba d6 = take_bit 28 lba"
  proof (rule bit_word_eqI)
    fix n assume "n < LENGTH(32)"
    then have "n < 32" by simp
    then show "bit (taskfile_lba d6) n = bit (take_bit 28 lba) n"
      by (cases rule: less_32_cases)
        (auto simp: taskfile_lba_def d6_def ata_reg_defs and_lit_take_bit bit_simps lit_e0)
  qed
  moreover have "bit (regs d6 ATA_REG_HDDEVSEL) 6" "bit (regs d6 ATA_REG_HDDEVSEL) 4 = ata_unit a"
    unfolding sel by (auto simp: and_lit_take_bit bit_simps lit_e0 ata_unit_def)
  moreover have "taskfile_count d6 = (if cnt = 0 then 256 else unat cnt)" by (simp add: taskfile_count_def d6_def ata_reg_defs)
  ultimately show "xfer d' = (if cmd = ATA_CMD_READ_PIO then DataIn (ata_unit a) (take_bit 28 lba) (if cnt = 0 then 256 else unat cnt) 0
       else if cmd = ATA_CMD_WRITE_PIO then DataOut (ata_unit a) (take_bit 28 lba) (if cnt = 0 then 256 else unat cnt) 0 else Idle)"
    by (simp add: d' ata_command_def Let_def wait_phase_def)
  show "media d' = media d" by (simp add: d' ata_command_def Let_def wait_phase_def d6_def)
qed

lemma lba28_take: "n < 2 ^ 28 \<Longrightarrow> take_bit 28 n = n" for n :: u32
  by (rule word_take_bit_self) (simp add: word_less_nat_alt)

lemma lba28_take_bit: "take_bit 28 n < 2 ^ 28" for n :: u32
proof -
  have "unat (take_bit 28 n) < 2 ^ 28" using take_bit_nat_less_exp [of 28 "unat n"] by (simp add: unsigned_take_bit_eq)
  then show ?thesis by (simp add: word_less_nat_alt)
qed

lemma u8_high_bit: "\<not> bit (x :: u8) (8 + n)"
  using bit_imp_le_length [of x "8 + n"] by auto

lemma word16_bytes:
  "ucast (ucast x OR push_bit 8 (ucast y) :: u16) = x"
  "ucast (drop_bit 8 (ucast x) OR drop_bit 8 (push_bit 8 (ucast y)) :: u16) = y" for x y :: u8
  by (auto intro!: bit_word_eqI simp: bit_simps u8_high_bit)

lemma media_xfer_at [simp]: "media (xfer_at mk n left w d) = media d"
  by (simp add: xfer_at_def wait_phase_def)

lemma words_to_bytes_media:
  "words_to_bytes (map (\<lambda>j. ucast (m (2 * j)) OR push_bit 8 (ucast (m (Suc (2 * j))))) [0..<256]) = map m [0..<512]"
  for m :: "nat \<Rightarrow> u8"
proof -
  have "concat (map (\<lambda>j. [m (2 * j), m (Suc (2 * j))]) [0..<k]) = map m [0..<2 * k]" for k by (induction k) simp_all
  from this [of 256] show ?thesis by (simp add: words_to_bytes_def word16_bytes o_def)
qed

text \<open>One sector in and one sector out.\<close>

lemma ata_pio_read28_one:
  "\<exists>d'. ata_pio_read28 a 1 lba d = Inr (sector_bytes a d (take_bit 28 lba), d') \<and> media d' = media d"
proof -
  define d1 where "d1 = ata_setup a 1 lba ATA_CMD_READ_PIO d"
  have m1: "media d1 = media d" and x1: "xfer d1 = DataIn (ata_unit a) (take_bit 28 lba) 1 0"
    using setup_regs [OF d1_def] by simp_all
  let ?d2 = "d1\<lparr>busy := 0\<rparr>"
  have eq: "?d2 = ?d2\<lparr>xfer := DataIn (ata_unit a) (take_bit 28 lba) 1 0\<rparr>" using x1 by simp
  have "port_insw 256 ?d2 = Inr (map (\<lambda>j. ucast (media d (ata_unit a) (take_bit 28 lba) (2 * j)) OR
      push_bit 8 (ucast (media d (ata_unit a) (take_bit 28 lba) (2 * j + 1)))) [0..<256],
      xfer_at (DataIn (ata_unit a)) (take_bit 28 lba) 1 256 ?d2)"
    by (subst eq, subst port_insw_words) (simp_all add: m1)
  then have rd: "read_sectors 1 d1 = Inr (sector_bytes a d (take_bit 28 lba), xfer_at (DataIn (ata_unit a)) (take_bit 28 lba) 1 256 ?d2)"
    using x1 by (simp add: One_nat_def ata_poll_True kreturn_def words_to_bytes_media sector_bytes_def)
  show ?thesis using rd by (simp add: ata_pio_read28_def flip: d1_def) (simp add: ata_poll_False kreturn_def m1)
qed

lemma ata_pio_write28_one:
  assumes "length b = 512"
  shows "\<exists>d'. ata_pio_write28 a 1 lba b d = Inr ((), d') \<and>
    (\<forall>a' m. sector_bytes a' d' m = (if ata_unit a' = ata_unit a \<and> m = take_bit 28 lba then b else sector_bytes a' d m))"
proof -
  let ?ws = "map (\<lambda>j. get_u16 b (2 * j)) [0..<256]" and ?dv = "ata_unit a" and ?n = "take_bit 28 lba"
  define d1 where "d1 = ata_setup a 1 lba ATA_CMD_WRITE_PIO d"
  have m1: "media d1 = media d" and x1: "xfer d1 = DataOut ?dv ?n 1 0"
    using setup_regs [OF d1_def] by (simp_all add: ATA_CMD_READ_PIO_def ATA_CMD_WRITE_PIO_def)
  let ?d2 = "d1\<lparr>busy := 0\<rparr>" and ?d3 = "xfer_at (DataOut ?dv) ?n 1 256 (put_words ?dv ?n 0 ?ws (d1\<lparr>busy := 0\<rparr>))"
  have eq: "?d2 = ?d2\<lparr>xfer := DataOut ?dv ?n 1 0\<rparr>" using x1 by simp
  have "outw_words ?ws ?d2 = Inr ((), ?d3)" by (subst eq, subst outw_words_put) simp_all
  then have wr: "write_sectors 1 b d1 = Inr ((), ?d3)" using x1 by (simp add: One_nat_def ata_poll_True kreturn_def)
  define d4 where "d4 = (port_outb ATA_REG_COMMAND ATA_CMD_CACHE_FLUSH (?d3\<lparr>busy := 0\<rparr>))\<lparr>busy := 0\<rparr>"
  have run: "ata_pio_write28 a 1 lba b d = Inr ((), d4)"
    using wr by (simp add: ata_pio_write28_def d4_def flip: d1_def) (simp add: ata_poll_False)
  have m4: "media d4 = media (put_words ?dv ?n 0 ?ws ?d2)" by (simp add: d4_def port_outb_def ata_command_def Let_def wait_phase_def)
  have byte: "media d4 u m i = (if u = ?dv \<and> m = ?n then b ! i else media d u m i)" if i: "i < 512" for u m i
  proof -
    have e: "ucast (get_u16 b i) = b ! i" for i by (simp add: get_u16_def word16_bytes)
    have o: "ucast (drop_bit 8 (get_u16 b (i - Suc 0))) = b ! i" if "odd i" for i
      using odd_pos [OF that] by (simp add: get_u16_def word16_bytes)
    have "i div 2 < 256" using i by simp
    then show ?thesis unfolding m4 media_put_words by (auto simp: m1 e o)
  qed
  have "sector_bytes a' d4 m = (if ata_unit a' = ?dv \<and> m = ?n then b else sector_bytes a' d m)" for a' m
    using assms by (intro nth_equalityI) (auto simp: sector_bytes_def byte)
  then show ?thesis using run by blast
qed

section \<open>The callbacks are a working disk\<close>

lemma ata_disk_ops:
  assumes "length b = 512"
  shows "\<exists>d'. fat32_disk_read a b n d = (True, sector_bytes a d (take_bit 28 n), d') \<and> media d' = media d"
    and "\<exists>d'. fat32_disk_write a b n d = (True, d') \<and>
      (\<forall>a' m. sector_bytes a' d' m = (if ata_unit a' = ata_unit a \<and> m = take_bit 28 n then b else sector_bytes a' d m))"
proof -
  have len: "length (sector_bytes a d m) = 512" for m by (simp add: sector_bytes_def)
  have "put_bytes b 0 (sector_bytes a d (take_bit 28 n)) = sector_bytes a d (take_bit 28 n)"
    using put_bytes_nth [of b 0 "sector_bytes a d (take_bit 28 n)"] len assms by (intro nth_equalityI) auto
  then show "\<exists>d'. fat32_disk_read a b n d = (True, sector_bytes a d (take_bit 28 n), d') \<and> media d' = media d"
    using ata_pio_read28_one [of a n d] by (auto simp: fat32_disk_read_def)
  show "\<exists>d'. fat32_disk_write a b n d = (True, d') \<and>
      (\<forall>a' m. sector_bytes a' d' m = (if ata_unit a' = ata_unit a \<and> m = take_bit 28 n then b else sector_bytes a' d m))"
    using ata_pio_write28_one [OF assms, of a n d] by (auto simp: fat32_disk_write_def)
qed

interpretation ata: disk "ata_env a sk fu" "sector_bytes a" lba28
  for a sk fu
proof unfold_locales
  fix n and b :: bytes and d
  assume n: "lba28 n" and l: "length b = 512"
  have t: "take_bit 28 n = n" using n by (simp add: lba28_def lba28_take)
  show "\<exists>d'. op_read (ata_env a sk fu) b n d = (True, sector_bytes a d n, d') \<and>
      (\<forall>m. lba28 m \<longrightarrow> sector_bytes a d' m = sector_bytes a d m)"
    using ata_disk_ops(1) [OF l, of a n d] t by (fastforce simp: ata_env_def sector_bytes_def)
  show "\<exists>d'. op_write (ata_env a sk fu) b n d = (True, d') \<and>
      (\<forall>m. lba28 m \<longrightarrow> sector_bytes a d' m = (if m = n then b else sector_bytes a d m))"
    using ata_disk_ops(2) [OF l, of a n d] t by (fastforce simp: ata_env_def)
qed (simp add: sector_bytes_def)

end
