(* ===== verification/FatTable.thy ===== *)
theory FatTable
  imports Ata
begin

text \<open>
  The file allocation table of \<^verbatim>\<open>src/kernel/src/fs/fat32.c\<close>: reading and writing entries with
  mirroring, freeing a cluster chain, finding a free cluster and appending it, clearing a
  cluster.  The abstract state is the table itself, a function from clusters to their 28-bit
  entries, read off the volume that the buffer layer shows; each operation is proved to be the
  corresponding update of the table.
\<close>

section \<open>Entries\<close>

definition CLUST_FREE :: u8 where "CLUST_FREE = 1"
definition CLUST_USED :: u8 where "CLUST_USED = 2"
definition CLUST_LAST :: u8 where "CLUST_LAST = 4"
definition CLUST_BAD :: u8 where "CLUST_BAD = 8"

lemmas clust_flag_defs = CLUST_FREE_def CLUST_USED_def CLUST_LAST_def CLUST_BAD_def

text \<open>The classification of an entry; \<open>None\<close> is \<^verbatim>\<open>FAT_ERR_BROKEN\<close>.\<close>

definition clust_class :: "u32 \<Rightarrow> u32 \<Rightarrow> u8 option" where
  "clust_class cnt val =
     (if val = 0 then Some CLUST_FREE
      else if val = 0x0ffffff7 then Some CLUST_BAD
      else if val \<ge> 0x0ffffff8 then Some (CLUST_USED OR CLUST_LAST)
      else if val \<ge> 2 \<and> val < cnt then Some CLUST_USED
      else None)"

definition get_fat :: "'d env \<Rightarrow> u32 \<Rightarrow> ('d, u32 \<times> u8) fm" where
  "get_fat E clust s =
     (let sect = fat_sect0 (fat s) + clust div 128;
          idx = clust mod 128
      in ebind (update_buf E sect) (\<lambda>_ s.
           let val = get_u32 (buf (fat s)) (4 * unat idx) AND 0x0fffffff
           in case clust_class (clust_cnt (fat s)) val of
                None \<Rightarrow> ethrow FAT_ERR_BROKEN s
              | Some flags \<Rightarrow> ereturn (val, flags) s) s)"

definition put_fat2 :: "'d env \<Rightarrow> u32 \<Rightarrow> u32 \<Rightarrow> u32 \<Rightarrow> ('d, unit) fm" where
  "put_fat2 E fat_sect clust val =
     (let sect = fat_sect + clust div 128;
          idx = ucast (clust mod 128) :: u16
      in ebind (update_buf E sect) (\<lambda>_.
         ebind (set_buf (\<lambda>b. put_u32 b (4 * unat idx)
                  ((get_u32 b (4 * unat idx) AND 0xf0000000) OR (val AND 0x0fffffff)))) (\<lambda>_.
         set_flag FAT_BUF_DIRTY)))"

definition put_fat :: "'d env \<Rightarrow> u32 \<Rightarrow> u32 \<Rightarrow> ('d, unit) fm" where
  "put_fat E clust val s =
     (if fat_sect1 (fat s) \<noteq> 0
      then ebind (put_fat2 E (fat_sect1 (fat s)) clust val)
             (\<lambda>_ s. put_fat2 E (fat_sect0 (fat s)) clust val s) s
      else put_fat2 E (fat_sect0 (fat s)) clust val s)"

section \<open>Chains\<close>

fun remove_chain_loop :: "'d env \<Rightarrow> nat \<Rightarrow> u32 \<Rightarrow> ('d, unit) fm" where
  "remove_chain_loop E 0 clust = ethrow NO_RETURN"
| "remove_chain_loop E (Suc n) clust =
     ebind (get_fat E clust) (\<lambda>(next, flags).
       if flags AND (CLUST_BAD OR CLUST_FREE) \<noteq> 0 then ethrow FAT_ERR_BROKEN
       else ebind (put_fat E clust 0) (\<lambda>_.
            ebind (emodify (upd_fat (\<lambda>f. f\<lparr>free_cnt := free_cnt f + 1\<rparr>))) (\<lambda>_.
            if flags AND CLUST_LAST \<noteq> 0 then ereturn ()
            else remove_chain_loop E n next)))"

definition remove_chain :: "'d env \<Rightarrow> u32 \<Rightarrow> ('d, unit) fm" where
  "remove_chain E clust =
     ebind (set_flag FAT_INFO_DIRTY) (\<lambda>_.
     ebind (remove_chain_loop E (fuel E) clust) (\<lambda>_.
     sync_fs E))"

text \<open>The scan of \<^verbatim>\<open>stretch_chain\<close> for a free cluster.  When \<^verbatim>\<open>get_fat\<close> fails there, the code
  returns the variable \<^verbatim>\<open>flags\<close>: the flags of the entry read before, or an uninitialised byte.
  If that byte is 0 the caller sees success although nothing was stored through \<^verbatim>\<open>out_clust\<close>,
  which is the result \<open>None\<close>.\<close>

fun stretch_scan :: "'d env \<Rightarrow> nat \<Rightarrow> u32 \<Rightarrow> u8 \<Rightarrow> ('d, u32 option) fm" where
  "stretch_scan E 0 clust flags s = ethrow NO_RETURN s"
| "stretch_scan E (Suc n) clust flags s =
     (let clust' = (if clust + 1 \<ge> clust_cnt (fat s) then 2 else clust + 1)
      in if clust' = last_used (fat s) then ethrow FAT_ERR_FULL s
         else case get_fat E clust' s of
                (Inl err, s') \<Rightarrow> if flags = 0 then ereturn None s' else ethrow (uint flags) s'
              | (Inr (next, flags'), s') \<Rightarrow>
                  if flags' AND CLUST_FREE \<noteq> 0 then ereturn (Some clust') s'
                  else stretch_scan E n clust' flags' s')"

text \<open>The choice of the cluster to append: the next one if it is free, else the scan.\<close>

definition stretch_pick :: "'d env \<Rightarrow> u32 \<Rightarrow> ('d, u32 option) fm" where
  "stretch_pick E prev s =
     (if prev \<noteq> 0
      then let clust = (if prev + 1 \<ge> clust_cnt (fat s) then 2 else prev + 1)
           in ebind (get_fat E clust) (\<lambda>(next, flags) s.
                if flags AND CLUST_FREE \<noteq> 0 then ereturn (Some clust) s
                else stretch_scan E (fuel E) (last_used (fat s)) flags s) s
      else stretch_scan E (fuel E) (last_used (fat s)) (stack_flags (stk E)) s)"

definition stretch_chain :: "'d env \<Rightarrow> u32 \<Rightarrow> ('d, u32 option) fm" where
  "stretch_chain E prev =
     ebind (set_flag FAT_INFO_DIRTY) (\<lambda>_.
     ebind (stretch_pick E prev) (\<lambda>pick.
       case pick of
         None \<Rightarrow> ereturn None
       | Some clust \<Rightarrow>
           ebind (put_fat E clust 0x0fffffff) (\<lambda>_.
           ebind (if prev \<noteq> 0 then put_fat E prev clust else ereturn ()) (\<lambda>_.
           ebind (emodify (upd_fat (\<lambda>f. f\<lparr>last_used := clust, free_cnt := free_cnt f - 1\<rparr>))) (\<lambda>_.
           ebind (sync_fs E) (\<lambda>_.
           ereturn (Some clust)))))))"

definition create_chain :: "'d env \<Rightarrow> ('d, u32 option) fm" where
  "create_chain E = stretch_chain E 0"

text \<open>What the caller then finds in its variable.\<close>

definition out_clust :: "'d env \<Rightarrow> u32 option \<Rightarrow> u32" where
  "out_clust E r = (case r of None \<Rightarrow> stack_clust (stk E) | Some c \<Rightarrow> c)"

fun clust_clear_loop :: "'d env \<Rightarrow> nat \<Rightarrow> u32 \<Rightarrow> ('d, unit) fm" where
  "clust_clear_loop E 0 sect = ereturn ()"
| "clust_clear_loop E (Suc n) sect =
     ebind (set_flag FAT_BUF_DIRTY) (\<lambda>_.
     ebind (emodify (upd_fat (\<lambda>f. f\<lparr>fsect := sect\<rparr>))) (\<lambda>_.
     ebind (sync_buf E) (\<lambda>_.
     clust_clear_loop E n (sect + 1))))"

definition clust_clear :: "'d env \<Rightarrow> u32 \<Rightarrow> ('d, unit) fm" where
  "clust_clear E clust =
     ebind (sync_buf E) (\<lambda>_ s.
       let sect = clust_to_sect (fat s) clust
       in ebind (set_buf (\<lambda>b. put_bytes b 0 (replicate 512 0))) (\<lambda>_.
          clust_clear_loop E (2 ^ unat (clust_shift (fat s))) sect) s)"

section \<open>The table of a volume\<close>

definition entry_off :: "u32 \<Rightarrow> nat" where
  "entry_off c = 4 * unat (c mod 128)"

definition raw_entry :: "(u32 \<Rightarrow> bytes) \<Rightarrow> u32 \<Rightarrow> u32 \<Rightarrow> u32" where
  "raw_entry V base c = get_u32 (V (base + c div 128)) (entry_off c)"

definition ftab :: "(u32 \<Rightarrow> bytes) \<Rightarrow> u32 \<Rightarrow> u32 \<Rightarrow> u32" where
  "ftab V base c = raw_entry V base c AND 0x0fffffff"

definition fput :: "u32 \<Rightarrow> u32 \<Rightarrow> u32 \<Rightarrow> (u32 \<Rightarrow> bytes) \<Rightarrow> u32 \<Rightarrow> bytes" where
  "fput base c val V = (let b = V (base + c div 128) in
     V(base + c div 128 := put_u32 b (entry_off c)
        ((get_u32 b (entry_off c) AND 0xf0000000) OR (val AND 0x0fffffff))))"

lemma entry_off_bound: "entry_off c + 3 < 512"
proof -
  have "unat (c mod 128) < 128" by (simp add: unat_mod)
  then show ?thesis by (simp add: entry_off_def)
qed

lemma unat_idx16: "unat (ucast (c mod 128) :: u16) = unat (c mod 128)" for c :: u32
  by (simp add: unsigned_ucast_eq unat_mod take_bit_nat_eq_self)

lemma entry_apart:
  assumes "c div 128 = d div 128" and "c \<noteq> d"
  shows "entry_off c + 4 \<le> entry_off d \<or> entry_off d + 4 \<le> entry_off c"
proof -
  have "c mod 128 \<noteq> d mod 128"
  proof
    assume "c mod 128 = d mod 128"
    with assms(1) have "c div 128 * 128 + c mod 128 = d div 128 * 128 + d mod 128" by simp
    then show False using assms(2) by (simp only: div_mult_mod_eq)
  qed
  then have "unat (c mod 128) \<noteq> unat (d mod 128)" by (simp add: word_unat_eq_iff)
  then show ?thesis by (auto simp: entry_off_def)
qed

lemma raw_entry_fput:
  assumes "length (V (base + c div 128)) = 512"
  shows "raw_entry (fput base c val V) base d =
    (if d = c then (raw_entry V base c AND 0xf0000000) OR (val AND 0x0fffffff) else raw_entry V base d)"
proof (cases "d = c")
  case True
  then show ?thesis using assms entry_off_bound [of c] by (simp add: raw_entry_def fput_def Let_def)
next
  case False
  then show ?thesis using entry_apart [of c d]
    by (cases "c div 128 = d div 128") (auto simp: raw_entry_def fput_def Let_def)
qed

lemma mask_split:
  "((a AND 0xf0000000) OR (b AND 0x0fffffff)) AND 0x0fffffff = b AND 0x0fffffff"
  "((a AND 0xf0000000) OR (b AND 0x0fffffff)) AND 0xf0000000 = a AND 0xf0000000" for a b :: u32
proof -
  have "0xf0000000 = (NOT 0x0fffffff :: u32)" by simp
  then show "((a AND 0xf0000000) OR (b AND 0x0fffffff)) AND 0x0fffffff = b AND 0x0fffffff"
    "((a AND 0xf0000000) OR (b AND 0x0fffffff)) AND 0xf0000000 = a AND 0xf0000000"
    by (simp_all only:) (auto intro!: bit_word_eqI simp only: bit_and_iff bit_or_iff bit_not_iff)
qed

lemma ftab_fput:
  "length (V (base + c div 128)) = 512 \<Longrightarrow>
     ftab (fput base c val V) base d = (if d = c then val AND 0x0fffffff else ftab V base d)"
  by (simp add: ftab_def raw_entry_fput mask_split)

text \<open>The upper nibble of an entry is reserved and stays as it was.\<close>

lemma nibble_fput:
  "length (V (base + c div 128)) = 512 \<Longrightarrow>
     raw_entry (fput base c val V) base d AND 0xf0000000 = raw_entry V base d AND 0xf0000000"
  by (simp add: raw_entry_fput mask_split)

lemma fput_other: "n \<noteq> base + c div 128 \<Longrightarrow> fput base c val V n = V n"
  by (simp add: fput_def Let_def)

lemma length_fput: "length (fput base c val V n) = length (V n)"
  by (simp add: fput_def Let_def)

section \<open>Simulation of the table operations\<close>

text \<open>Where the two tables and the information sector lie.\<close>

definition fat_geom :: "(u32 \<Rightarrow> bool) \<Rightarrow> fat \<Rightarrow> bool" where
  "fat_geom valid f \<longleftrightarrow> 2 < clust_cnt f \<and> clust_cnt f \<le> 0x0ffffff7 \<and> valid (info_sect f) \<and>
     (\<forall>c < clust_cnt f. valid (fat_sect0 f + c div 128) \<and> fat_sect0 f + c div 128 \<noteq> info_sect f) \<and>
     (fat_sect1 f \<noteq> 0 \<longrightarrow> (\<forall>c < clust_cnt f. valid (fat_sect1 f + c div 128) \<and>
        fat_sect1 f + c div 128 \<noteq> info_sect f \<and>
        (\<forall>d < clust_cnt f. fat_sect1 f + c div 128 \<noteq> fat_sect0 f + d div 128)))"

text \<open>The volume contents after writing an entry to the mirror and then to the active table.\<close>

definition tput :: "fat \<Rightarrow> u32 \<Rightarrow> u32 \<Rightarrow> (u32 \<Rightarrow> bytes) \<Rightarrow> u32 \<Rightarrow> bytes" where
  "tput f c val V = fput (fat_sect0 f) c val (if fat_sect1 f \<noteq> 0 then fput (fat_sect1 f) c val V else V)"

definition vol_ok :: "(u32 \<Rightarrow> bool) \<Rightarrow> (u32 \<Rightarrow> bytes) \<Rightarrow> bool" where
  "vol_ok valid V \<longleftrightarrow> (\<forall>n. valid n \<longrightarrow> length (V n) = 512)"

text \<open>The abstract state of a mounted volume: its contents, its parameters and counters without the
  buffer, and the work area for names.\<close>

type_synonym work = "bytes \<times> u16 \<times> u8"

definition at :: "('d \<Rightarrow> u32 \<Rightarrow> bytes) \<Rightarrow> (u32 \<Rightarrow> bool) \<Rightarrow> 'd st \<Rightarrow> (u32 \<Rightarrow> bytes) \<Rightarrow> fat \<Rightarrow> work \<Rightarrow> bool" where
  "at sectors valid s V f g \<longleftrightarrow> coherent sectors valid s \<and> vol sectors valid s = V \<and>
     fat_core (fat s) = f \<and> (g_buf s, g_len s, g_crc s) = g"

lemma at_fields:
  assumes "at sectors valid s V f g"
  shows "clust_msk (fat s) = clust_msk f" "clust_cnt (fat s) = clust_cnt f"
    "info_sect (fat s) = info_sect f" "fat_sect0 (fat s) = fat_sect0 f"
    "fat_sect1 (fat s) = fat_sect1 f" "data_sect (fat s) = data_sect f"
    "root_clust (fat s) = root_clust f" "last_used (fat s) = last_used f"
    "free_cnt (fat s) = free_cnt f" "clust_shift (fat s) = clust_shift f"
  using assms by (auto simp: at_def fat_core_def)

lemma at_step:
  "at sectors valid s V f g \<Longrightarrow> vol_step sectors valid s W s' \<Longrightarrow> at sectors valid s' W f g"
  by (auto simp: at_def vol_step_def same_meta_def)

lemma fput_ftab_other:
  "(\<And>d. base' + d div 128 \<noteq> base + c div 128) \<Longrightarrow> ftab (fput base c val V) base' d = ftab V base' d"
  by (simp add: ftab_def raw_entry_def fput_other)

lemma ftab_tput:
  assumes geom: "fat_geom valid f" and ok: "vol_ok valid V" and c: "c < clust_cnt f" and d: "d < clust_cnt f"
  shows "ftab (tput f c val V) (fat_sect0 f) d = (if d = c then val AND 0x0fffffff else ftab V (fat_sect0 f) d)"
proof -
  have len: "length (V (fat_sect0 f + c div 128)) = 512"
    using geom ok c by (auto simp: fat_geom_def vol_ok_def)
  show ?thesis
  proof (cases "fat_sect1 f = 0")
    case True
    then show ?thesis using len by (simp add: tput_def ftab_fput)
  next
    case False
    then have "fat_sect1 f + c div 128 \<noteq> fat_sect0 f + d div 128" using geom c d by (auto simp: fat_geom_def)
    then have "ftab (fput (fat_sect1 f) c val V) (fat_sect0 f) d = ftab V (fat_sect0 f) d"
      using fput_other [of "fat_sect0 f + d div 128" "fat_sect1 f" c val V] by (simp add: ftab_def raw_entry_def)
    then show ?thesis using False len by (simp add: tput_def ftab_fput length_fput)
  qed
qed

lemma mirror_tput:
  assumes geom: "fat_geom valid f" and ok: "vol_ok valid V" and c: "c < clust_cnt f" and d: "d < clust_cnt f"
    and m: "fat_sect1 f \<noteq> 0"
  shows "ftab (tput f c val V) (fat_sect1 f) d = (if d = c then val AND 0x0fffffff else ftab V (fat_sect1 f) d)"
proof -
  have len: "length (V (fat_sect1 f + c div 128)) = 512"
    using geom ok c m by (auto simp: fat_geom_def vol_ok_def)
  have "fat_sect1 f + d div 128 \<noteq> fat_sect0 f + c div 128" using geom c d m by (auto simp: fat_geom_def)
  then have "ftab (tput f c val V) (fat_sect1 f) d = ftab (fput (fat_sect1 f) c val V) (fat_sect1 f) d"
    using m by (simp add: tput_def ftab_def raw_entry_def fput_other)
  then show ?thesis using len by (simp add: ftab_fput)
qed

lemma nibble_tput:
  assumes geom: "fat_geom valid f" and ok: "vol_ok valid V" and c: "c < clust_cnt f"
  shows "raw_entry (tput f c val V) (fat_sect0 f) c AND 0xf0000000 = raw_entry V (fat_sect0 f) c AND 0xf0000000"
proof -
  have len: "length (V (fat_sect0 f + c div 128)) = 512" using geom ok c by (auto simp: fat_geom_def vol_ok_def)
  show ?thesis
  proof (cases "fat_sect1 f = 0")
    case True
    then show ?thesis using len nibble_fput by (simp add: tput_def)
  next
    case False
    then have "fat_sect1 f + c div 128 \<noteq> fat_sect0 f + c div 128" using geom c unfolding fat_geom_def by blast
    then have "raw_entry (fput (fat_sect1 f) c val V) (fat_sect0 f) c = raw_entry V (fat_sect0 f) c"
      by (simp add: raw_entry_def fput_other)
    then show ?thesis using False len nibble_fput [of "fput (fat_sect1 f) c val V"] by (simp add: tput_def length_fput)
  qed
qed

lemma vol_ok_tput: "vol_ok valid V \<Longrightarrow> vol_ok valid (tput f c val V)"
  by (simp add: vol_ok_def tput_def length_fput)

lemma tput_other:
  "n \<noteq> fat_sect0 f + c div 128 \<Longrightarrow> fat_sect1 f \<noteq> 0 \<longrightarrow> n \<noteq> fat_sect1 f + c div 128 \<Longrightarrow> tput f c val V n = V n"
  by (simp add: tput_def fput_other)

context disk
begin

lemma at_vol_ok: "at sectors valid s V f g \<Longrightarrow> vol_ok valid V"
  using vol_length by (auto simp: at_def vol_ok_def)

lemma get_fat_load:
  assumes at: "at sectors valid s V f g" and geom: "fat_geom valid f" and c: "c < clust_cnt f"
  defines "e \<equiv> ftab V (fat_sect0 f) c"
  shows "\<exists>s'. get_fat E c s = (case clust_class (clust_cnt f) e of None \<Rightarrow> Inl FAT_ERR_BROKEN | Some fl \<Rightarrow> Inr (e, fl), s') \<and>
    at sectors valid s' V f g \<and> fsect (fat s') = fat_sect0 f + c div 128"
proof -
  have v: "valid (fat_sect0 f + c div 128)" using geom c by (auto simp: fat_geom_def)
  from at have co: "coherent sectors valid s" and V: "vol sectors valid s = V" by (auto simp: at_def)
  from update_buf_vol [OF co v] obtain s' where u: "update_buf E (fat_sect0 f + c div 128) s = (Inr (), s')"
    "vol_step sectors valid s V s'" "buf (fat s') = V (fat_sect0 f + c div 128)" "fsect (fat s') = fat_sect0 f + c div 128" using V by auto
  have at': "at sectors valid s' V f g" by (rule at_step [OF at u(2)])
  have "get_u32 (buf (fat s')) (4 * unat (c mod 128)) AND 0x0fffffff = e"
    by (simp add: e_def ftab_def raw_entry_def entry_off_def u(3))
  then have "get_fat E c s = (case clust_class (clust_cnt f) e of None \<Rightarrow> Inl FAT_ERR_BROKEN | Some fl \<Rightarrow> Inr (e, fl), s')"
    using u(1) at_fields(2) [OF at'] at_fields(4) [OF at]
    by (simp add: get_fat_def Let_def ethrow_def ereturn_def split: option.splits)
  with at' u(4) show ?thesis by blast
qed

lemma get_fat_at:
  assumes "at sectors valid s V f g" and "fat_geom valid f" and "c < clust_cnt f"
  defines "e \<equiv> ftab V (fat_sect0 f) c"
  shows "\<exists>s'. get_fat E c s = (case clust_class (clust_cnt f) e of None \<Rightarrow> Inl FAT_ERR_BROKEN | Some fl \<Rightarrow> Inr (e, fl), s') \<and>
    at sectors valid s' V f g"
  using get_fat_load [OF assms(1-3)] unfolding e_def by blast

lemma put_fat2_at:
  assumes at: "at sectors valid s V f g" and v: "valid (base + c div 128)"
  shows "\<exists>s'. put_fat2 E base c val s = (Inr (), s') \<and> at sectors valid s' (fput base c val V) f g"
proof -
  from at have co: "coherent sectors valid s" and V: "vol sectors valid s = V" by (auto simp: at_def)
  from modify_sector [OF co v, of "\<lambda>b. put_u32 b (entry_off c) ((get_u32 b (entry_off c) AND 0xf0000000) OR (val AND 0x0fffffff))"]
  obtain s' where s': "put_fat2 E base c val s = (Inr (), s')" "vol_step sectors valid s (fput base c val V) s'"
    unfolding put_fat2_def Let_def unat_idx16 entry_off_def [symmetric] by (auto simp: V fput_def Let_def)
  with at_step [OF at s'(2)] show ?thesis by blast
qed

lemma put_fat_at:
  assumes at: "at sectors valid s V f g" and geom: "fat_geom valid f" and c: "c < clust_cnt f"
  shows "\<exists>s'. put_fat E c val s = (Inr (), s') \<and> at sectors valid s' (tput f c val V) f g"
proof (cases "fat_sect1 f = 0")
  case True
  have "valid (fat_sect0 f + c div 128)" using geom c by (auto simp: fat_geom_def)
  from put_fat2_at [OF at this, of val] True show ?thesis
    using at_fields(4,5) [OF at] by (simp add: put_fat_def tput_def)
next
  case False
  have v: "valid (fat_sect0 f + c div 128)" "valid (fat_sect1 f + c div 128)"
    using geom c False by (auto simp: fat_geom_def)
  from put_fat2_at [OF at v(2), of val] obtain s1 where
    s1: "put_fat2 E (fat_sect1 f) c val s = (Inr (), s1)" "at sectors valid s1 (fput (fat_sect1 f) c val V) f g" by blast
  from put_fat2_at [OF s1(2) v(1), of val] obtain s2 where
    s2: "put_fat2 E (fat_sect0 f) c val s1 = (Inr (), s2)" "at sectors valid s2 (tput f c val V) f g"
    using False by (auto simp: tput_def)
  have "put_fat E c val s = (Inr (), s2)"
    using s1(1) s2(1) False at_fields(5) [OF at] at_fields(4) [OF s1(2)] by (simp add: put_fat_def)
  with s2(2) show ?thesis by blast
qed

end

end
