(* ===== verification/FatChain.thy ===== *)
theory FatChain
  imports FatTable
begin

text \<open>
  Cluster chains in the table: what a chain is, that \<^verbatim>\<open>remove_chain\<close> frees exactly its clusters and
  always returns, that \<^verbatim>\<open>stretch_chain\<close> takes a free cluster and links it, when it reports a full
  volume, and that \<^verbatim>\<open>clust_clear\<close> zeroes one cluster.  The general lemmas are proved for any disk
  that keeps its promises; the properties are stated for the ATA driver.
\<close>

section \<open>Chains\<close>

fun is_chain :: "u32 \<Rightarrow> (u32 \<Rightarrow> u32) \<Rightarrow> u32 \<Rightarrow> u32 list \<Rightarrow> bool" where
  "is_chain cnt T c [] \<longleftrightarrow> False"
| "is_chain cnt T c [x] \<longleftrightarrow> x = c \<and> c < cnt \<and> 0x0ffffff8 \<le> T c"
| "is_chain cnt T c (x # y # zs) \<longleftrightarrow> x = c \<and> c < cnt \<and> 2 \<le> T c \<and> T c < cnt \<and> T c < 0x0ffffff7 \<and>
     is_chain cnt T (T c) (y # zs)"

lemma is_chain_head: "is_chain cnt T c cs \<Longrightarrow> \<exists>r. cs = c # r \<and> c < cnt"
  by (induction cs rule: induct_list012) auto

lemma last_not_used: "0x0ffffff8 \<le> x \<Longrightarrow> \<not> x < 0x0ffffff7" for x :: u32
  by (simp add: word_le_nat_alt word_less_nat_alt)

lemma is_chain_unique: "is_chain cnt T c cs \<Longrightarrow> is_chain cnt T c ds \<Longrightarrow> cs = ds"
proof (induction cs arbitrary: c ds rule: induct_list012)
  case (2 x)
  then show ?case by (cases ds rule: remdups_adj.cases) (auto dest: last_not_used)
next
  case (3 x y zs)
  then show ?case by (cases ds rule: remdups_adj.cases) (auto dest: last_not_used)
qed simp

lemma is_chain_suffix:
  "is_chain cnt T c cs \<Longrightarrow> d \<in> set cs \<Longrightarrow> \<exists>ds. is_chain cnt T d ds \<and> length ds \<le> length cs"
proof (induction cs arbitrary: c rule: induct_list012)
  case (3 x y zs)
  show ?case
  proof (cases "d = c")
    case False
    with 3 obtain ds where "is_chain cnt T d ds" "length ds \<le> length (y # zs)" by auto
    then show ?thesis by (intro exI [of _ ds]) simp
  qed (use 3 in blast)
qed (auto intro: exI [of _ "[x]" for x])

lemma is_chain_distinct: "is_chain cnt T c cs \<Longrightarrow> distinct cs"
proof (induction cs arbitrary: c rule: induct_list012)
  case (3 x y zs)
  have "c \<notin> set (y # zs)"
  proof
    assume "c \<in> set (y # zs)"
    with is_chain_suffix [of cnt T "T c" "y # zs" c] 3(3)
    obtain ds where "is_chain cnt T c ds" "length ds \<le> length (y # zs)" by auto
    with is_chain_unique [OF 3(3), of ds] show False by auto
  qed
  with 3 show ?case by auto
qed auto

lemma is_chain_cong: "is_chain cnt T c cs \<Longrightarrow> (\<And>d. d \<in> set cs \<Longrightarrow> T' d = T d) \<Longrightarrow> is_chain cnt T' c cs"
  by (induction cs arbitrary: c rule: induct_list012) auto

lemma is_chain_nonzero: "is_chain cnt T c cs \<Longrightarrow> d \<in> set cs \<Longrightarrow> T d \<noteq> 0"
  by (induction cs arbitrary: c rule: induct_list012) auto

lemma is_chain_bound: "is_chain cnt T c cs \<Longrightarrow> d \<in> set cs \<Longrightarrow> d < cnt"
  by (induction cs arbitrary: c rule: induct_list012) auto

section \<open>Counters and flags of the abstract state\<close>

lemma info_or: "(x OR FAT_INFO_DIRTY) AND NOT FAT_BUF_DIRTY = (x AND NOT FAT_BUF_DIRTY) OR FAT_INFO_DIRTY"
  by (rule bit_word_eqI) (auto simp: bit_simps FAT_INFO_DIRTY_def FAT_BUF_DIRTY_def)

lemma dirty_or_info: "(x OR FAT_INFO_DIRTY) AND FAT_BUF_DIRTY = x AND FAT_BUF_DIRTY"
  by (rule bit_word_eqI) (auto simp: bit_simps FAT_INFO_DIRTY_def FAT_BUF_DIRTY_def)

lemma info_cleared: "(x OR FAT_INFO_DIRTY) AND NOT FAT_INFO_DIRTY = x AND NOT FAT_INFO_DIRTY"
  by (rule bit_word_eqI) (auto simp: bit_simps)

lemma info_bit: "(x OR FAT_INFO_DIRTY) AND FAT_INFO_DIRTY \<noteq> 0"
proof -
  have "(x OR FAT_INFO_DIRTY) AND FAT_INFO_DIRTY = FAT_INFO_DIRTY" by (rule bit_word_eqI) (auto simp: bit_simps)
  then show ?thesis by (simp add: FAT_INFO_DIRTY_def)
qed

lemma at_upd:
  assumes at: "at sectors valid s V f g" and "fsect (h (fat s)) = fsect (fat s)" "buf (h (fat s)) = buf (fat s)"
    and "fflags (h (fat s)) AND FAT_BUF_DIRTY = fflags (fat s) AND FAT_BUF_DIRTY"
    and core: "fat_core (h (fat s)) = k (fat_core (fat s))"
  shows "at sectors valid (upd_fat h s) V (k f) g"
proof -
  have "vol sectors valid (upd_fat h s) = vol sectors valid s" using assms(2,3) by (simp add: vol_def view_def fun_eq_iff)
  then show ?thesis using assms by (auto simp: at_def coherent_def dirty_def)
qed

lemma at_info_dirty:
  assumes "at sectors valid s V f g"
  shows "at sectors valid (upd_fat (\<lambda>f. f\<lparr>fflags := fflags f OR FAT_INFO_DIRTY\<rparr>) s) V
    (f\<lparr>fflags := fflags f OR FAT_INFO_DIRTY\<rparr>) g"
  by (rule at_upd [OF assms, where k = "\<lambda>f. f\<lparr>fflags := fflags f OR FAT_INFO_DIRTY\<rparr>"])
    (simp_all add: fat_core_def info_or dirty_or_info)

lemma at_free_inc:
  assumes "at sectors valid s V f g"
  shows "at sectors valid (upd_fat (\<lambda>f. f\<lparr>free_cnt := free_cnt f + 1\<rparr>) s) V (f\<lparr>free_cnt := free_cnt f + 1\<rparr>) g"
  by (rule at_upd [OF assms, where k = "\<lambda>f. f\<lparr>free_cnt := free_cnt f + 1\<rparr>"]) (simp_all add: fat_core_def)

lemma at_taken:
  assumes "at sectors valid s V f g"
  shows "at sectors valid (upd_fat (\<lambda>f. f\<lparr>last_used := c, free_cnt := free_cnt f - 1\<rparr>) s) V
      (f\<lparr>last_used := c, free_cnt := free_cnt f - 1\<rparr>) g"
  by (rule at_upd [OF assms, where k = "\<lambda>f. f\<lparr>last_used := c, free_cnt := free_cnt f - 1\<rparr>"]) (simp_all add: fat_core_def)

lemma geom_counters [simp]:
  "fat_geom valid (f\<lparr>free_cnt := n\<rparr>) = fat_geom valid f"
  "fat_geom valid (f\<lparr>last_used := c\<rparr>) = fat_geom valid f"
  "fat_geom valid (f\<lparr>fflags := x\<rparr>) = fat_geom valid f"
  by (simp_all add: fat_geom_def)

lemma tput_counters [simp]:
  "tput (f\<lparr>free_cnt := n\<rparr>) = tput f" "tput (f\<lparr>last_used := c\<rparr>) = tput f" "tput (f\<lparr>fflags := x\<rparr>) = tput f"
  by (simp_all add: tput_def fun_eq_iff)

text \<open>The contents after the information sector has been brought up to date.\<close>

definition info_put :: "fat \<Rightarrow> (u32 \<Rightarrow> bytes) \<Rightarrow> u32 \<Rightarrow> bytes" where
  "info_put f V = V(info_sect f := info_update f (V (info_sect f)))"

lemma ftab_info_put:
  "fat_geom valid f \<Longrightarrow> c < clust_cnt f \<Longrightarrow> ftab (info_put h V) (fat_sect0 f) c = ftab V (fat_sect0 f) c"
  if "info_sect h = info_sect f"
  using that by (auto simp: ftab_def raw_entry_def info_put_def fat_geom_def)

lemma mirror_info_put:
  "fat_geom valid f \<Longrightarrow> c < clust_cnt f \<Longrightarrow> fat_sect1 f \<noteq> 0 \<Longrightarrow>
     ftab (info_put h V) (fat_sect1 f) c = ftab V (fat_sect1 f) c"
  if "info_sect h = info_sect f"
  using that by (auto simp: ftab_def raw_entry_def info_put_def fat_geom_def)

context disk
begin

lemma sync_fs_at:
  assumes at: "at sectors valid s V f g" and v: "valid (info_sect f)" and d: "fflags f AND FAT_INFO_DIRTY \<noteq> 0"
  shows "\<exists>s'. sync_fs E s = (Inr (), s') \<and>
    at sectors valid s' (info_put f V) (f\<lparr>fflags := fflags f AND NOT FAT_INFO_DIRTY\<rparr>) g \<and> \<not> dirty s' \<and>
    (\<forall>m. valid m \<longrightarrow> sectors (dev s') m = info_put f V m)"
proof -
  from at have co: "coherent sectors valid s" and V: "vol sectors valid s = V" and f: "fat_core (fat s) = f"
    and g: "(g_buf s, g_len s, g_crc s) = g" by (auto simp: at_def)
  have fl: "fflags f = fflags (fat s) AND NOT FAT_BUF_DIRTY" using f by (auto simp: fat_core_def)
  have "NOT FAT_BUF_DIRTY AND FAT_INFO_DIRTY = FAT_INFO_DIRTY"
    by (simp add: FAT_BUF_DIRTY_def FAT_INFO_DIRTY_def)
  with d have d': "fflags (fat s) AND FAT_INFO_DIRTY \<noteq> 0" by (simp add: fl and.assoc)
  have i: "info_update (fat s) = info_update f"
    using at_fields(8,9) [OF at] by (simp add: info_update_def fun_eq_iff)
  have v': "valid (info_sect (fat s))" using v at_fields(3) [OF at] by simp
  from sync_fs_vol [OF co v'] obtain s' where s': "sync_fs E s = (Inr (), s')" "coherent sectors valid s'" "\<not> dirty s'"
    "fat_core (fat s') = f\<lparr>fflags := fflags (fat s) AND NOT FAT_BUF_DIRTY AND NOT FAT_INFO_DIRTY\<rparr>"
    "g_buf s' = g_buf s" "g_len s' = g_len s" "g_crc s' = g_crc s"
    "\<forall>m. valid m \<longrightarrow> sectors (dev s') m = vol sectors valid s' m" "vol sectors valid s' = info_put f V"
    using d' V f i at_fields(3) [OF at] by (auto simp: info_put_def)
  then have "at sectors valid s' (info_put f V) (f\<lparr>fflags := fflags f AND NOT FAT_INFO_DIRTY\<rparr>) g"
    using g by (simp add: at_def fl and.assoc)
  with s' show ?thesis by auto
qed

end

section \<open>Freeing a chain\<close>

lemma class_last: "0x0ffffff8 \<le> v \<Longrightarrow> clust_class cnt v = Some (CLUST_USED OR CLUST_LAST)"
  using last_not_used [of v] by (auto simp: clust_class_def)

lemma class_used: "2 \<le> v \<Longrightarrow> v < cnt \<Longrightarrow> v < 0x0ffffff7 \<Longrightarrow> clust_class cnt v = Some CLUST_USED"
  using last_not_used [of v] by (auto simp: clust_class_def)

lemma class_cases:
  assumes "clust_class cnt v = Some fl"
  obtains (free) "v = 0" "fl = CLUST_FREE" | (bad) "v = 0x0ffffff7" "fl = CLUST_BAD"
  | (last) "0x0ffffff8 \<le> v" "fl = CLUST_USED OR CLUST_LAST"
  | (used) "2 \<le> v" "v < cnt" "fl = CLUST_USED"
  using assms by (auto simp: clust_class_def split: if_splits)

lemma clust_flag_tests [simp]:
  "(CLUST_USED OR CLUST_LAST) AND (CLUST_BAD OR CLUST_FREE) = 0" "CLUST_USED AND (CLUST_BAD OR CLUST_FREE) = 0"
  "CLUST_FREE AND (CLUST_BAD OR CLUST_FREE) \<noteq> 0" "CLUST_BAD AND (CLUST_BAD OR CLUST_FREE) \<noteq> 0"
  "(CLUST_USED OR CLUST_LAST) AND CLUST_LAST \<noteq> 0" "CLUST_USED AND CLUST_LAST = 0"
  "CLUST_FREE AND CLUST_FREE \<noteq> 0" "(CLUST_USED OR CLUST_LAST) AND CLUST_FREE = 0" "CLUST_USED AND CLUST_FREE = 0"
  "CLUST_BAD AND CLUST_FREE = 0" "CLUST_LAST \<noteq> 0" "CLUST_FREE \<noteq> 0" "CLUST_BAD \<noteq> 0"
  by (simp_all add: clust_flag_defs)

definition free_chain :: "fat \<Rightarrow> u32 list \<Rightarrow> (u32 \<Rightarrow> bytes) \<Rightarrow> u32 \<Rightarrow> bytes" where
  "free_chain f cs V = fold (\<lambda>c. tput f c 0) cs V"

lemma free_chain_ok: "vol_ok valid V \<Longrightarrow> vol_ok valid (free_chain f cs V)"
  by (induction cs arbitrary: V) (simp_all add: free_chain_def vol_ok_tput)

lemma ftab_free_chain:
  "fat_geom valid f \<Longrightarrow> vol_ok valid V \<Longrightarrow> \<forall>c\<in>set cs. c < clust_cnt f \<Longrightarrow> d < clust_cnt f \<Longrightarrow>
     ftab (free_chain f cs V) (fat_sect0 f) d = (if d \<in> set cs then 0 else ftab V (fat_sect0 f) d)"
  by (induction cs arbitrary: V) (auto simp: free_chain_def ftab_tput vol_ok_tput)

lemma mirror_free_chain:
  "fat_geom valid f \<Longrightarrow> vol_ok valid V \<Longrightarrow> \<forall>c\<in>set cs. c < clust_cnt f \<Longrightarrow> d < clust_cnt f \<Longrightarrow> fat_sect1 f \<noteq> 0 \<Longrightarrow>
     ftab (free_chain f cs V) (fat_sect1 f) d = (if d \<in> set cs then 0 else ftab V (fat_sect1 f) d)"
  by (induction cs arbitrary: V) (auto simp: free_chain_def mirror_tput vol_ok_tput)

text \<open>The sectors of the two tables.\<close>

definition fat_sectors :: "fat \<Rightarrow> u32 set" where
  "fat_sectors f = {fat_sect0 f + c div 128 | c. c < clust_cnt f} \<union>
     (if fat_sect1 f = 0 then {} else {fat_sect1 f + c div 128 | c. c < clust_cnt f})"

lemma tput_outside: "c < clust_cnt f \<Longrightarrow> n \<notin> fat_sectors f \<Longrightarrow> tput f c val V n = V n"
  by (rule tput_other) (auto simp: fat_sectors_def split: if_splits)

lemma free_chain_outside:
  "\<forall>c\<in>set cs. c < clust_cnt f \<Longrightarrow> n \<notin> fat_sectors f \<Longrightarrow> free_chain f cs V n = V n"
  by (induction cs arbitrary: V) (auto simp: free_chain_def tput_outside)

context disk
begin

lemma remove_step_last:
  assumes at: "at sectors valid s V f g" and geom: "fat_geom valid f" and c: "c < clust_cnt f"
    and e: "0x0ffffff8 \<le> ftab V (fat_sect0 f) c"
  shows "\<exists>s'. remove_chain_loop E (Suc n) c s = (Inr (), s') \<and>
    at sectors valid s' (tput f c 0 V) (f\<lparr>free_cnt := free_cnt f + 1\<rparr>) g"
proof -
  from get_fat_at [OF at geom c] class_last [OF e] obtain s1 where
    s1: "get_fat E c s = (Inr (ftab V (fat_sect0 f) c, CLUST_USED OR CLUST_LAST), s1)" "at sectors valid s1 V f g" by auto
  from put_fat_at [OF s1(2) geom c, of 0] obtain s2 where
    s2: "put_fat E c 0 s1 = (Inr (), s2)" "at sectors valid s2 (tput f c 0 V) f g" by blast
  from s1(1) s2(1) have "remove_chain_loop E (Suc n) c s = (Inr (), upd_fat (\<lambda>f. f\<lparr>free_cnt := free_cnt f + 1\<rparr>) s2)"
    by (simp add: emodify_def ereturn_def)
  with at_free_inc [OF s2(2)] show ?thesis by blast
qed

lemma remove_step_used:
  assumes at: "at sectors valid s V f g" and geom: "fat_geom valid f" and c: "c < clust_cnt f"
    and e: "clust_class (clust_cnt f) (ftab V (fat_sect0 f) c) = Some CLUST_USED"
  shows "\<exists>s'. remove_chain_loop E (Suc n) c s = remove_chain_loop E n (ftab V (fat_sect0 f) c) s' \<and>
    at sectors valid s' (tput f c 0 V) (f\<lparr>free_cnt := free_cnt f + 1\<rparr>) g"
proof -
  from get_fat_at [OF at geom c] e obtain s1 where
    s1: "get_fat E c s = (Inr (ftab V (fat_sect0 f) c, CLUST_USED), s1)" "at sectors valid s1 V f g" by auto
  from put_fat_at [OF s1(2) geom c, of 0] obtain s2 where
    s2: "put_fat E c 0 s1 = (Inr (), s2)" "at sectors valid s2 (tput f c 0 V) f g" by blast
  from s1(1) s2(1) have "remove_chain_loop E (Suc n) c s =
      remove_chain_loop E n (ftab V (fat_sect0 f) c) (upd_fat (\<lambda>f. f\<lparr>free_cnt := free_cnt f + 1\<rparr>) s2)"
    by (simp add: emodify_def)
  with at_free_inc [OF s2(2)] show ?thesis by blast
qed

lemma remove_loop_at:
  assumes "at sectors valid s V f g" and "fat_geom valid f" and "is_chain (clust_cnt f) (ftab V (fat_sect0 f)) c cs"
    and "length cs \<le> n"
  shows "\<exists>s'. remove_chain_loop E n c s = (Inr (), s') \<and>
    at sectors valid s' (free_chain f cs V) (f\<lparr>free_cnt := free_cnt f + of_nat (length cs)\<rparr>) g"
  using assms
proof (induction cs arbitrary: s V f c n rule: induct_list012)
  case (2 x)
  then obtain m where "n = Suc m" by (cases n) auto
  with 2 remove_step_last [of s V f g c m] show ?case by (auto simp: free_chain_def)
next
  case (3 x y zs)
  from 3(6) obtain m where n: "n = Suc m" and m: "length (y # zs) \<le> m" by (cases n) auto
  let ?T = "ftab V (fat_sect0 f)" and ?f = "f\<lparr>free_cnt := free_cnt f + 1\<rparr>"
  from 3(5) have x: "x = c" and c: "c < clust_cnt f" and e: "clust_class (clust_cnt f) (?T c) = Some CLUST_USED"
    and tl: "is_chain (clust_cnt f) ?T (?T c) (y # zs)" by (auto intro: class_used)
  from remove_step_used [OF 3(3,4) c e, of m] obtain s' where
    s': "remove_chain_loop E n c s = remove_chain_loop E m (?T c) s'" "at sectors valid s' (tput f c 0 V) ?f g"
    unfolding n by blast
  have "c \<notin> set (y # zs)" using is_chain_distinct [OF 3(5)] x by auto
  then have "is_chain (clust_cnt f) (ftab (tput f c 0 V) (fat_sect0 f)) (?T c) (y # zs)"
    using is_chain_bound [OF tl] ftab_tput [OF 3(4) at_vol_ok [OF 3(3)] c] by (intro is_chain_cong [OF tl]) auto
  with 3(2) [OF s'(2), of "?T c" m] 3(4) m show ?case
    by (auto simp: s'(1) free_chain_def x add.assoc)
qed simp

lemma remove_chain_at:
  assumes at: "at sectors valid s V f g" and geom: "fat_geom valid f"
    and ch: "is_chain (clust_cnt f) (ftab V (fat_sect0 f)) c cs" and n: "length cs \<le> fuel E"
  defines "f' \<equiv> f\<lparr>free_cnt := free_cnt f + of_nat (length cs)\<rparr>"
  shows "\<exists>s'. remove_chain E c s = (Inr (), s') \<and>
    at sectors valid s' (info_put f' (free_chain f cs V)) (f'\<lparr>fflags := fflags f AND NOT FAT_INFO_DIRTY\<rparr>) g \<and>
    \<not> dirty s' \<and> (\<forall>m. valid m \<longrightarrow> sectors (dev s') m = info_put f' (free_chain f cs V) m)"
proof -
  let ?f = "f\<lparr>fflags := fflags f OR FAT_INFO_DIRTY\<rparr>"
  let ?s = "upd_fat (\<lambda>f. f\<lparr>fflags := fflags f OR FAT_INFO_DIRTY\<rparr>) s"
  have fc: "free_chain ?f cs V = free_chain f cs V" by (simp add: free_chain_def)
  let ?f' = "?f\<lparr>free_cnt := free_cnt f + of_nat (length cs)\<rparr>"
  have ip: "info_put ?f' = info_put f'" by (simp add: f'_def info_put_def info_update_def fun_eq_iff)
  from remove_loop_at [OF at_info_dirty [OF at], of c cs "fuel E"] geom ch n obtain s1 where
    s1: "remove_chain_loop E (fuel E) c ?s = (Inr (), s1)" "at sectors valid s1 (free_chain f cs V) ?f' g" by (auto simp: fc)
  have v: "valid (info_sect ?f')" using geom by (simp add: fat_geom_def)
  have f': "?f'\<lparr>fflags := fflags ?f' AND NOT FAT_INFO_DIRTY\<rparr> = f'\<lparr>fflags := fflags f AND NOT FAT_INFO_DIRTY\<rparr>"
    by (simp add: f'_def info_cleared)
  from sync_fs_at [OF s1(2) v] info_bit obtain s2 where s2: "sync_fs E s1 = (Inr (), s2)"
    "at sectors valid s2 (info_put f' (free_chain f cs V)) (f'\<lparr>fflags := fflags f AND NOT FAT_INFO_DIRTY\<rparr>) g"
    "\<not> dirty s2" "\<forall>m. valid m \<longrightarrow> sectors (dev s2) m = info_put f' (free_chain f cs V) m"
    unfolding f' ip by auto
  have "remove_chain E c s = (Inr (), s2)"
    using s1(1) s2(1) by (simp add: remove_chain_def set_flag_def emodify_def)
  with s2 show ?thesis by blast
qed

end

text \<open>The loop returns whatever the table holds: every round clears one entry that was not 0, so a
  cycle is met again as a free entry.\<close>

definition nonzero :: "fat \<Rightarrow> (u32 \<Rightarrow> bytes) \<Rightarrow> u32 set" where
  "nonzero f V = {c. c < clust_cnt f \<and> ftab V (fat_sect0 f) c \<noteq> 0}"

lemma card_nonzero_le: "card (nonzero f V) \<le> unat (clust_cnt f)"
proof -
  have "unat ` nonzero f V \<subseteq> {..< unat (clust_cnt f)}" by (auto simp: nonzero_def word_less_nat_alt)
  then have "card (unat ` nonzero f V) \<le> unat (clust_cnt f)" using card_mono [of "{..< unat (clust_cnt f)}"] by fastforce
  moreover have "inj_on unat (nonzero f V)" by (simp add: inj_on_def word_unat_eq_iff)
  ultimately show ?thesis by (simp add: card_image)
qed

lemma nonzero_tput:
  assumes "fat_geom valid f" "vol_ok valid V" "c < clust_cnt f" "ftab V (fat_sect0 f) c \<noteq> 0"
  shows "card (nonzero f (tput f c 0 V)) < card (nonzero f V)"
proof -
  have "nonzero f (tput f c 0 V) = nonzero f V - {c}" using assms by (auto simp: nonzero_def ftab_tput split: if_splits)
  moreover have "c \<in> nonzero f V" using assms by (simp add: nonzero_def)
  moreover have "finite (nonzero f V)" by (rule finite)
  ultimately show ?thesis by (metis card_Diff1_less)
qed

context disk
begin

lemma remove_loop_returns:
  assumes "at sectors valid s V f g" and "fat_geom valid f" and "c < clust_cnt f" and "card (nonzero f V) < n"
  shows "\<exists>r s' V' k. remove_chain_loop E n c s = (r, s') \<and> (r = Inr () \<or> r = Inl FAT_ERR_BROKEN) \<and>
    at sectors valid s' V' (f\<lparr>free_cnt := k\<rparr>) g"
  using assms
proof (induction n arbitrary: s V f c)
  case (Suc n)
  let ?e = "ftab V (fat_sect0 f) c"
  from get_fat_at [OF Suc(2,3,4)] obtain s1 where s1: "get_fat E c s =
      (case clust_class (clust_cnt f) ?e of None \<Rightarrow> Inl FAT_ERR_BROKEN | Some fl \<Rightarrow> Inr (?e, fl), s1)"
    "at sectors valid s1 V f g" by blast
  have id: "f\<lparr>free_cnt := free_cnt f\<rparr> = f" by simp
  have stop: ?case if "remove_chain_loop E (Suc n) c s = (Inl FAT_ERR_BROKEN, s1)"
    using that s1(2) by (intro exI [of _ "Inl FAT_ERR_BROKEN"] exI [of _ s1] exI [of _ V] exI [of _ "free_cnt f"]) simp
  show ?case
  proof (cases "clust_class (clust_cnt f) ?e")
    case None
    then show ?thesis using s1(1) by (intro stop) simp
  next
    case (Some fl)
    then show ?thesis
    proof (cases rule: class_cases)
      case last
      from remove_step_last [OF Suc(2,3,4) last(1), of n] show ?thesis by blast
    next
      case used
      from remove_step_used [OF Suc(2,3,4), of n] Some used(3) obtain s2 where
        s2: "remove_chain_loop E (Suc n) c s = remove_chain_loop E n ?e s2"
        "at sectors valid s2 (tput f c 0 V) (f\<lparr>free_cnt := free_cnt f + 1\<rparr>) g" by auto
      have "?e \<noteq> 0" using used(1) by auto
      then have "card (nonzero f (tput f c 0 V)) < n"
        using nonzero_tput [OF Suc(3) at_vol_ok [OF Suc(2)] Suc(4)] Suc(5) by linarith
      then have "card (nonzero (f\<lparr>free_cnt := free_cnt f + 1\<rparr>) (tput f c 0 V)) < n" by (simp add: nonzero_def)
      from Suc.IH [OF s2(2) _ _ this, of ?e] Suc(3) used(2) show ?thesis unfolding s2(1) by auto
    qed (rule stop, use s1(1) Some in \<open>simp add: ethrow_def\<close>)+
  qed
qed simp

lemma remove_chain_returns:
  assumes at: "at sectors valid s V f g" and geom: "fat_geom valid f" and c: "c < clust_cnt f" and n: "unat (clust_cnt f) < fuel E"
  shows "\<exists>r s' V' f'. remove_chain E c s = (r, s') \<and> (r = Inr () \<or> r = Inl FAT_ERR_BROKEN) \<and> at sectors valid s' V' f' g"
proof -
  let ?f = "f\<lparr>fflags := fflags f OR FAT_INFO_DIRTY\<rparr>"
  let ?s = "upd_fat (\<lambda>f. f\<lparr>fflags := fflags f OR FAT_INFO_DIRTY\<rparr>) s"
  have n': "card (nonzero ?f V) < fuel E" using n card_nonzero_le [of ?f V] by simp
  from remove_loop_returns [OF at_info_dirty [OF at] _ _ n', of c] geom c obtain r s1 V1 k where
    s1: "remove_chain_loop E (fuel E) c ?s = (r, s1)" "r = Inr () \<or> r = Inl FAT_ERR_BROKEN"
    "at sectors valid s1 V1 (?f\<lparr>free_cnt := k\<rparr>) g" by auto
  have "(fflags f OR FAT_INFO_DIRTY) AND FAT_INFO_DIRTY = FAT_INFO_DIRTY" by (rule bit_word_eqI) (auto simp: bit_simps)
  then have d: "fflags (?f\<lparr>free_cnt := k\<rparr>) AND FAT_INFO_DIRTY \<noteq> 0" by (simp add: FAT_INFO_DIRTY_def)
  have v: "valid (info_sect (?f\<lparr>free_cnt := k\<rparr>))" using geom by (simp add: fat_geom_def)
  from sync_fs_at [OF s1(3) v d] obtain s2 V2 f2 where s2: "sync_fs E s1 = (Inr (), s2)" "at sectors valid s2 V2 f2 g" by blast
  from s1(2) show ?thesis
  proof
    assume "r = Inr ()"
    then show ?thesis using s1(1) s2 by (intro exI) (auto simp: remove_chain_def set_flag_def emodify_def)
  next
    assume "r = Inl FAT_ERR_BROKEN"
    then show ?thesis using s1(1,3) by (intro exI) (auto simp: remove_chain_def set_flag_def emodify_def)
  qed
qed

end

section \<open>Finding a free cluster\<close>

definition succ_clust :: "u32 \<Rightarrow> u32 \<Rightarrow> u32" where
  "succ_clust cnt c = (if c + 1 \<ge> cnt then 2 else c + 1)"

text \<open>The clusters the scan still has to look at, and how many they are, when it is at \<open>c\<close> and started
  at \<open>l\<close>.\<close>

definition scan_set :: "u32 \<Rightarrow> u32 \<Rightarrow> u32 \<Rightarrow> u32 set" where
  "scan_set cnt l c = (if c < l then {d. c < d \<and> d < l} else {d. c < d \<and> d < cnt} \<union> {d. 2 \<le> d \<and> d < l})"

definition scan_dist :: "u32 \<Rightarrow> u32 \<Rightarrow> u32 \<Rightarrow> nat" where
  "scan_dist cnt l c = (if c < l then unat l - unat c else unat cnt - 2 - (unat c - unat l))"

lemma unat_succ_clust:
  assumes "cnt \<le> 0x0ffffff7" and "c < cnt"
  shows "unat (succ_clust cnt c) = (if unat c + 1 = unat cnt then 2 else unat c + 1)"
proof -
  have "unat c + 1 < 2 ^ 32" using assms by (simp add: word_le_nat_alt word_less_nat_alt)
  then have "unat (c + 1) = unat c + 1" using unat_add_lem [of c 1] by simp
  then show ?thesis using assms by (auto simp: succ_clust_def word_le_nat_alt word_less_nat_alt)
qed

lemma succ_clust_range:
  "2 < cnt \<Longrightarrow> cnt \<le> 0x0ffffff7 \<Longrightarrow> 2 \<le> c \<Longrightarrow> c < cnt \<Longrightarrow> 2 \<le> succ_clust cnt c \<and> succ_clust cnt c < cnt"
  using unat_succ_clust [of cnt c] by (auto simp: word_le_nat_alt word_less_nat_alt split: if_splits)

lemma scan_end:
  assumes "cnt \<le> 0x0ffffff7" "2 \<le> c" "c < cnt" "2 \<le> l" "l < cnt" "succ_clust cnt c = l"
  shows "scan_set cnt l c = {}"
  using unat_succ_clust [OF assms(1,3)] assms by (auto simp: scan_set_def word_le_nat_alt word_less_nat_alt split: if_splits)

lemma scan_next:
  assumes "cnt \<le> 0x0ffffff7" "2 \<le> c" "c < cnt" "2 \<le> l" "l < cnt" "succ_clust cnt c \<noteq> l"
  shows "scan_set cnt l c = insert (succ_clust cnt c) (scan_set cnt l (succ_clust cnt c))"
    and "scan_dist cnt l c = Suc (scan_dist cnt l (succ_clust cnt c))"
proof -
  have ne: "unat (succ_clust cnt c) \<noteq> unat l" using assms(6) by (simp add: word_unat_eq_iff)
  have eq: "x = succ_clust cnt c \<longleftrightarrow> unat x = unat (succ_clust cnt c)" for x by (simp add: word_unat_eq_iff)
  show "scan_set cnt l c = insert (succ_clust cnt c) (scan_set cnt l (succ_clust cnt c))"
    using unat_succ_clust [OF assms(1,3)] assms(2-5) ne
    by (intro set_eqI) (auto simp: eq scan_set_def word_le_nat_alt word_less_nat_alt split: if_splits)
  show "scan_dist cnt l c = Suc (scan_dist cnt l (succ_clust cnt c))"
    using unat_succ_clust [OF assms(1,3)] assms(2-5) ne
    by (auto simp: scan_dist_def word_le_nat_alt word_less_nat_alt split: if_splits)
qed

lemma scan_set_start: "scan_set cnt l l = {d. 2 \<le> d \<and> d < cnt \<and> d \<noteq> l}" if "2 \<le> l" "l < cnt"
  using that by (auto simp: scan_set_def)

text \<open>The answer of the scan: a free cluster of those it looks at, or \<^verbatim>\<open>FAT_ERR_FULL\<close> if there is none.\<close>

definition scan_result :: "(u32 \<Rightarrow> u32) \<Rightarrow> u32 set \<Rightarrow> int + u32 option \<Rightarrow> bool" where
  "scan_result T D r \<longleftrightarrow> (case r of Inl e \<Rightarrow> e = FAT_ERR_FULL \<and> (\<forall>d\<in>D. T d \<noteq> 0)
     | Inr None \<Rightarrow> False | Inr (Some c) \<Rightarrow> c \<in> D \<and> T c = 0)"

lemma scan_result_more: "scan_result T D r \<Longrightarrow> T a \<noteq> 0 \<Longrightarrow> scan_result T (D \<union> {a}) r"
  by (auto simp: scan_result_def split: sum.splits option.splits)

context disk
begin

lemma stretch_scan_at:
  assumes "at sectors valid s V f g" and "fat_geom valid f" and "2 \<le> c" "c < clust_cnt f"
    and "2 \<le> last_used f" "last_used f < clust_cnt f"
    and "scan_dist (clust_cnt f) (last_used f) c \<le> n" and "0 < n"
    and "\<forall>d \<in> scan_set (clust_cnt f) (last_used f) c. clust_class (clust_cnt f) (ftab V (fat_sect0 f) d) \<noteq> None"
  shows "\<exists>r s'. stretch_scan E n c fl s = (r, s') \<and> at sectors valid s' V f g \<and>
    scan_result (ftab V (fat_sect0 f)) (scan_set (clust_cnt f) (last_used f) c) r"
  using assms
proof (induction n arbitrary: s c fl)
  case (Suc n)
  let ?c = "succ_clust (clust_cnt f) c" and ?T = "ftab V (fat_sect0 f)" and ?l = "last_used f"
  have cnt: "2 < clust_cnt f" "clust_cnt f \<le> 0x0ffffff7" using Suc(3) by (auto simp: fat_geom_def)
  note r = succ_clust_range [OF cnt Suc(4,5)]
  note f = at_fields [OF Suc(2)]
  have c': "(if c + 1 \<ge> clust_cnt (fat s) then 2 else c + 1) = ?c" by (simp add: succ_clust_def f(2))
  show ?case
  proof (cases "?c = ?l")
    case True
    with scan_end [OF cnt(2) Suc(4,5,6,7)] Suc(2) show ?thesis
      by (auto simp: c' f(8) Let_def ethrow_def scan_result_def)
  next
    case False
    note nx = scan_next [OF cnt(2) Suc(4,5,6,7) False]
    from Suc(10) nx(1) obtain fl' where fl': "clust_class (clust_cnt f) (?T ?c) = Some fl'" by fastforce
    from get_fat_at [OF Suc(2,3), of ?c] r fl' obtain s1 where
      s1: "get_fat E ?c s = (Inr (?T ?c, fl'), s1)" "at sectors valid s1 V f g" by auto
    show ?thesis
    proof (cases "?T ?c = 0")
      case True
      with fl' have "fl' = CLUST_FREE" by (simp add: clust_class_def)
      with s1 True False nx(1) show ?thesis
        by (auto simp: c' f(8) Let_def ereturn_def scan_result_def)
    next
      case nz: False
      with fl' have nf: "fl' AND CLUST_FREE = 0" by (cases rule: class_cases) simp_all
      have n: "scan_dist (clust_cnt f) ?l ?c \<le> n" "0 < n"
        using Suc(8) nx(2) r Suc(6,7) False
        by (auto simp: scan_dist_def word_le_nat_alt word_less_nat_alt word_unat_eq_iff split: if_splits)
      from Suc.IH [OF s1(2) Suc(3) _ _ Suc(6,7) n, of fl'] r Suc(10) nx(1) obtain r' s2 where
        "stretch_scan E n ?c fl' s1 = (r', s2)" "at sectors valid s2 V f g"
        "scan_result ?T (scan_set (clust_cnt f) ?l ?c) r'" by auto
      with s1(1) nf nz False nx(1) show ?thesis
        by (auto simp: c' f(8) Let_def scan_result_def split: sum.splits option.splits)
    qed
  qed
qed simp

end

section \<open>Growing a chain\<close>

text \<open>The clusters a call may choose from: all but the one used last, and the one after \<open>prev\<close>.\<close>

definition candidates :: "fat \<Rightarrow> u32 \<Rightarrow> u32 set" where
  "candidates f prev = {d. 2 \<le> d \<and> d < clust_cnt f \<and> d \<noteq> last_used f} \<union>
     (if prev = 0 then {} else {succ_clust (clust_cnt f) prev})"

text \<open>No entry is broken, and the search pointer is a cluster.\<close>

definition tab_ok :: "fat \<Rightarrow> (u32 \<Rightarrow> bytes) \<Rightarrow> bool" where
  "tab_ok f V \<longleftrightarrow> 2 \<le> last_used f \<and> last_used f < clust_cnt f \<and>
     (\<forall>d. 2 \<le> d \<and> d < clust_cnt f \<longrightarrow> clust_class (clust_cnt f) (ftab V (fat_sect0 f) d) \<noteq> None)"

definition link :: "fat \<Rightarrow> u32 \<Rightarrow> u32 \<Rightarrow> (u32 \<Rightarrow> bytes) \<Rightarrow> u32 \<Rightarrow> bytes" where
  "link f prev c V = (if prev = 0 then tput f c 0x0fffffff V else tput f prev c (tput f c 0x0fffffff V))"

lemma candidates_range:
  "fat_geom valid f \<Longrightarrow> prev = 0 \<or> 2 \<le> prev \<and> prev < clust_cnt f \<Longrightarrow> c \<in> candidates f prev \<Longrightarrow> 2 \<le> c \<and> c < clust_cnt f"
  using succ_clust_range [of "clust_cnt f" prev] by (auto simp: candidates_def fat_geom_def split: if_splits)

lemma small_clust: "fat_geom valid f \<Longrightarrow> c < clust_cnt f \<Longrightarrow> c < 0x0ffffff7 \<and> c AND 0x0fffffff = c"
proof
  assume "fat_geom valid f" "c < clust_cnt f"
  then show c: "c < 0x0ffffff7" by (auto simp: fat_geom_def)
  then have "unat c < 2 ^ 28" by (simp add: word_less_nat_alt)
  then have "take_bit 28 c = c" by (simp add: word_unat_eq_iff unsigned_take_bit_eq take_bit_nat_eq_self)
  moreover have "c AND 0x0fffffff = take_bit 28 c" by (simp add: take_bit_eq_mask mask_eq_exp_minus_1)
  ultimately show "c AND 0x0fffffff = c" by simp
qed

lemma ftab_link:
  assumes geom: "fat_geom valid f" and ok: "vol_ok valid V" and p: "prev < clust_cnt f" and c: "c < clust_cnt f"
    and d: "d < clust_cnt f"
  shows "ftab (link f prev c V) (fat_sect0 f) d =
    (if prev \<noteq> 0 \<and> d = prev then c else if d = c then 0x0fffffff else ftab V (fat_sect0 f) d)"
  using ftab_tput [OF geom ok c] ftab_tput [OF geom vol_ok_tput [OF ok] p] d small_clust [OF geom c]
  by (auto simp: link_def)

lemma mirror_link:
  assumes geom: "fat_geom valid f" and ok: "vol_ok valid V" and p: "prev < clust_cnt f" and c: "c < clust_cnt f"
    and d: "d < clust_cnt f" and m: "fat_sect1 f \<noteq> 0"
  shows "ftab (link f prev c V) (fat_sect1 f) d =
    (if prev \<noteq> 0 \<and> d = prev then c else if d = c then 0x0fffffff else ftab V (fat_sect1 f) d)"
  using mirror_tput [OF geom ok c] mirror_tput [OF geom vol_ok_tput [OF ok] p] d m small_clust [OF geom c]
  by (auto simp: link_def)

lemma link_outside: "c < clust_cnt f \<Longrightarrow> prev < clust_cnt f \<Longrightarrow> n \<notin> fat_sectors f \<Longrightarrow> link f prev c V n = V n"
  by (simp add: link_def tput_outside)

lemma is_chain_append:
  assumes "is_chain cnt T c cs" and "a \<notin> set cs" and "2 \<le> a" "a < cnt" "a < 0x0ffffff7"
    and "T' a = 0x0fffffff" and "T' (last cs) = a" and "\<And>d. d \<in> set cs \<Longrightarrow> d \<noteq> last cs \<Longrightarrow> T' d = T d"
  shows "is_chain cnt T' c (cs @ [a])"
  using assms
proof (induction cs arbitrary: c rule: induct_list012)
  case (3 x y zs)
  have "x \<noteq> last (y # zs)" using is_chain_distinct [OF 3(3)] by (metis distinct.simps(2) last_in_set list.discI)
  with 3(3) 3(10) [of x] have "T' x = T x" by auto
  with 3 show ?case by auto
qed auto

context disk
begin

lemma stretch_pick_at:
  assumes at: "at sectors valid s V f g" and geom: "fat_geom valid f" and ok: "tab_ok f V"
    and p: "prev = 0 \<or> 2 \<le> prev \<and> prev < clust_cnt f" and n: "unat (clust_cnt f) \<le> fuel E"
  shows "\<exists>r s'. stretch_pick E prev s = (r, s') \<and> at sectors valid s' V f g \<and>
    scan_result (ftab V (fat_sect0 f)) (candidates f prev) r"
proof -
  let ?T = "ftab V (fat_sect0 f)" and ?l = "last_used f" and ?n = "clust_cnt f" and ?c = "succ_clust (clust_cnt f) prev"
  have cnt: "2 < ?n" "?n \<le> 0x0ffffff7" using geom by (auto simp: fat_geom_def)
  have l: "2 \<le> ?l" "?l < ?n" using ok by (auto simp: tab_ok_def)
  have n': "scan_dist ?n ?l ?l \<le> fuel E" "0 < fuel E"
    using n cnt by (auto simp: scan_dist_def word_less_nat_alt)
  have scan: "\<exists>r s''. stretch_scan E (fuel E) ?l fl s' = (r, s'') \<and> at sectors valid s'' V f g \<and>
      scan_result ?T {d. 2 \<le> d \<and> d < ?n \<and> d \<noteq> ?l} r" if "at sectors valid s' V f g" for fl s'
    using stretch_scan_at [OF that geom l l n'] ok unfolding scan_set_start [OF l] by (auto simp: tab_ok_def)
  show ?thesis
  proof (cases "prev = 0")
    case True
    with scan [OF at, of "stack_flags (stk E)"] show ?thesis
      using at_fields(8) [OF at] by (auto simp: stretch_pick_def candidates_def)
  next
    case False
    with p have c: "2 \<le> ?c" "?c < ?n" using succ_clust_range [OF cnt] by auto
    with ok obtain fl where fl: "clust_class ?n (?T ?c) = Some fl" by (auto simp: tab_ok_def)
    from get_fat_at [OF at geom c(2)] fl obtain s1 where
      s1: "get_fat E ?c s = (Inr (?T ?c, fl), s1)" "at sectors valid s1 V f g" by auto
    have c': "(if prev + 1 \<ge> clust_cnt (fat s) then 2 else prev + 1) = ?c"
      by (simp add: succ_clust_def at_fields(2) [OF at])
    show ?thesis
    proof (cases "?T ?c = 0")
      case True
      with fl have "fl = CLUST_FREE" by (simp add: clust_class_def)
      with s1 False True c show ?thesis
        by (auto simp: stretch_pick_def Let_def c' ereturn_def candidates_def scan_result_def)
    next
      case nz: False
      with fl have "fl AND CLUST_FREE = 0" by (cases rule: class_cases) simp_all
      with s1 False have "stretch_pick E prev s = stretch_scan E (fuel E) ?l fl s1"
        using at_fields(8) [OF s1(2)] by (simp add: stretch_pick_def Let_def c')
      with scan [OF s1(2), of fl] scan_result_more [of ?T _ _ ?c] nz False show ?thesis
        by (auto simp: candidates_def)
    qed
  qed
qed

end

context disk
begin

lemma link_at:
  assumes at: "at sectors valid s V f g" and geom: "fat_geom valid f"
    and p: "prev = 0 \<or> 2 \<le> prev \<and> prev < clust_cnt f" and c: "c < clust_cnt f"
  shows "\<exists>s1 s'. put_fat E c 0x0fffffff s = (Inr (), s1) \<and>
    (if prev \<noteq> 0 then put_fat E prev c else ereturn ()) s1 = (Inr (), s') \<and> at sectors valid s' (link f prev c V) f g"
proof -
  from put_fat_at [OF at geom c, of "0x0fffffff"] obtain s1 where
    s1: "put_fat E c 0x0fffffff s = (Inr (), s1)" "at sectors valid s1 (tput f c 0x0fffffff V) f g" by blast
  show ?thesis
  proof (cases "prev = 0")
    case True
    then show ?thesis using s1 by (simp add: ereturn_def link_def)
  next
    case False
    with p have "prev < clust_cnt f" by simp
    from put_fat_at [OF s1(2) geom this, of c] False show ?thesis using s1(1) by (simp add: link_def)
  qed
qed

lemma stretch_chain_at:
  assumes at: "at sectors valid s V f g" and geom: "fat_geom valid f" and ok: "tab_ok f V"
    and p: "prev = 0 \<or> 2 \<le> prev \<and> prev < clust_cnt f" and n: "unat (clust_cnt f) \<le> fuel E"
  shows "(\<exists>c s'. stretch_chain E prev s = (Inr (Some c), s') \<and> c \<in> candidates f prev \<and> ftab V (fat_sect0 f) c = 0 \<and>
      at sectors valid s' (info_put (f\<lparr>last_used := c, free_cnt := free_cnt f - 1\<rparr>) (link f prev c V))
        (f\<lparr>last_used := c, free_cnt := free_cnt f - 1, fflags := fflags f AND NOT FAT_INFO_DIRTY\<rparr>) g \<and> \<not> dirty s' \<and>
      (\<forall>m. valid m \<longrightarrow> sectors (dev s') m =
         info_put (f\<lparr>last_used := c, free_cnt := free_cnt f - 1\<rparr>) (link f prev c V) m)) \<or>
    (\<exists>s'. stretch_chain E prev s = (Inl FAT_ERR_FULL, s') \<and> (\<forall>d\<in>candidates f prev. ftab V (fat_sect0 f) d \<noteq> 0) \<and>
      at sectors valid s' V (f\<lparr>fflags := fflags f OR FAT_INFO_DIRTY\<rparr>) g)"
proof -
  let ?f = "f\<lparr>fflags := fflags f OR FAT_INFO_DIRTY\<rparr>"
  let ?s = "upd_fat (\<lambda>f. f\<lparr>fflags := fflags f OR FAT_INFO_DIRTY\<rparr>) s"
  have cd: "candidates ?f prev = candidates f prev" by (simp add: candidates_def)
  from stretch_pick_at [OF at_info_dirty [OF at], of prev] geom ok p n obtain r s1 where
    s1: "stretch_pick E prev ?s = (r, s1)" "at sectors valid s1 V ?f g"
    "scan_result (ftab V (fat_sect0 f)) (candidates f prev) r" by (auto simp: tab_ok_def cd)
  show ?thesis
  proof (cases r)
    case (Inl e)
    then show ?thesis using s1 by (auto simp: scan_result_def stretch_chain_def set_flag_def emodify_def)
  next
    case (Inr o')
    with s1(3) obtain c where r: "r = Inr (Some c)" and c: "c \<in> candidates f prev" "ftab V (fat_sect0 f) c = 0"
      by (cases o') (auto simp: scan_result_def)
    let ?k = "\<lambda>f. f\<lparr>last_used := c, free_cnt := free_cnt f - 1\<rparr>"
    have lk: "link ?f prev c V = link f prev c V" by (simp add: link_def)
    from link_at [OF s1(2), of prev c] geom p candidates_range [OF geom p c(1)] lk obtain s1' s2 where
      s1': "put_fat E c 0x0fffffff s1 = (Inr (), s1')" "(if prev \<noteq> 0 then put_fat E prev c else ereturn ()) s1' = (Inr (), s2)"
      and s2: "at sectors valid s2 (link f prev c V) ?f g" by auto
    let ?s3 = "upd_fat ?k s2"
    have ip: "info_put (?k ?f) = info_put (?k f)" by (simp add: info_put_def info_update_def fun_eq_iff)
    have v: "valid (info_sect (?k ?f))" using geom by (simp add: fat_geom_def)
    from sync_fs_at [OF at_taken [OF s2] v] obtain s4 where s4: "sync_fs E ?s3 = (Inr (), s4)"
      "at sectors valid s4 (info_put (?k f) (link f prev c V)) ((?k ?f)\<lparr>fflags := fflags (?k ?f) AND NOT FAT_INFO_DIRTY\<rparr>) g"
      "\<not> dirty s4" "\<forall>m. valid m \<longrightarrow> sectors (dev s4) m = info_put (?k f) (link f prev c V) m"
      using info_bit unfolding ip by auto
    have "stretch_chain E prev s = (Inr (Some c), s4)"
      using s1(1) s1' s4(1) r by (simp add: stretch_chain_def set_flag_def emodify_def ereturn_def)
    with s4 c show ?thesis by (auto simp: info_cleared)
  qed
qed

end

section \<open>Clearing a cluster\<close>

definition clust_sectors :: "fat \<Rightarrow> u32 \<Rightarrow> u32 set" where
  "clust_sectors f c = (\<lambda>i. clust_to_sect f c + of_nat i) ` {..<2 ^ unat (clust_shift f)}"

definition run_sectors :: "u32 \<Rightarrow> nat \<Rightarrow> u32 set" where
  "run_sectors sect n = (\<lambda>i. sect + of_nat i) ` {..<n}"

lemma run_sectors_Suc: "run_sectors sect (Suc n) = insert sect (run_sectors (sect + 1) n)"
  by (simp add: run_sectors_def lessThan_Suc_eq_insert_0 image_image add.assoc)

context disk
begin

lemma clear_step:
  assumes b: "buf (fat s) = Z" "length Z = 512" and v: "valid sect"
  shows "\<exists>s'. ebind (set_flag FAT_BUF_DIRTY) (\<lambda>_. ebind (emodify (upd_fat (\<lambda>f. f\<lparr>fsect := sect\<rparr>))) (\<lambda>_. sync_buf E)) s = (Inr (), s') \<and>
    same_meta s s' \<and> buf (fat s') = Z \<and> fsect (fat s') = sect \<and> \<not> dirty s' \<and>
    (\<forall>m. valid m \<longrightarrow> sectors (dev s') m = (if m = sect then Z else sectors (dev s) m))"
proof -
  let ?s = "upd_fat (\<lambda>f. f\<lparr>fsect := sect\<rparr>) (upd_fat (\<lambda>f. f\<lparr>fflags := fflags f OR FAT_BUF_DIRTY\<rparr>) s)"
  have d: "(fflags (fat s) OR FAT_BUF_DIRTY) AND FAT_BUF_DIRTY = FAT_BUF_DIRTY"
    "(fflags (fat s) OR FAT_BUF_DIRTY) AND NOT FAT_BUF_DIRTY = fflags (fat s) AND NOT FAT_BUF_DIRTY"
    by (rule bit_word_eqI; auto simp: bit_simps)+
  then have "dirty ?s" by (simp add: dirty_def FAT_BUF_DIRTY_def)
  then have "coherent sectors valid ?s" using b v by (simp add: coherent_def)
  from sync_buf_ok [OF this] obtain s' where s': "sync_buf E ?s = (Inr (), s')" "\<not> dirty s'" "same_meta ?s s'"
    "fsect (fat s') = sect" "buf (fat s') = Z" "\<forall>n. valid n \<longrightarrow> sectors (dev s') n = view sectors ?s n"
    using b by auto
  have "same_meta s ?s" using d by (simp add: same_meta_def fat_core_def)
  with s'(3) have "same_meta s s'" by (rule same_meta_trans [rotated])
  moreover have "view sectors ?s n = (if n = sect then Z else sectors (dev s) n)" for n using b by (simp add: view_def)
  ultimately show ?thesis using s' by (simp add: set_flag_def emodify_def)
qed

lemma clear_loop:
  assumes "buf (fat s) = Z" and Z: "length Z = 512" and "\<forall>m \<in> run_sectors sect n. valid m"
    and "\<forall>m. valid m \<longrightarrow> sectors (dev s) m = W m" and "0 < n"
  shows "\<exists>s'. clust_clear_loop E n sect s = (Inr (), s') \<and> same_meta s s' \<and> buf (fat s') = Z \<and>
    fsect (fat s') \<in> run_sectors sect n \<and> \<not> dirty s' \<and>
    (\<forall>m. valid m \<longrightarrow> sectors (dev s') m = (if m \<in> run_sectors sect n then Z else W m))"
  using assms
proof (induction n arbitrary: s sect W)
  case (Suc n)
  then have v: "valid sect" by (simp add: run_sectors_Suc)
  from clear_step [OF Suc(2,3) v] obtain s1 where
    s1: "ebind (set_flag FAT_BUF_DIRTY) (\<lambda>_. ebind (emodify (upd_fat (\<lambda>f. f\<lparr>fsect := sect\<rparr>))) (\<lambda>_. sync_buf E)) s = (Inr (), s1)"
    "same_meta s s1" "buf (fat s1) = Z" "fsect (fat s1) = sect" "\<not> dirty s1"
    "\<forall>m. valid m \<longrightarrow> sectors (dev s1) m = (if m = sect then Z else W m)" using Suc(5) by auto
  have step: "clust_clear_loop E (Suc n) sect s = clust_clear_loop E n (sect + 1) s1"
    using s1(1) by (simp add: set_flag_def emodify_def ebind_def split: prod.splits sum.splits)
  show ?case
  proof (cases n)
    case 0
    with step s1 show ?thesis by (auto simp: run_sectors_Suc ereturn_def run_sectors_def)
  next
    case (Suc m)
    from Suc.prems(3) have v': "\<forall>m \<in> run_sectors (sect + 1) n. valid m" by (simp add: run_sectors_Suc)
    from Suc.IH [OF s1(3) Z v' s1(6)] Suc obtain s2 where
      "clust_clear_loop E n (sect + 1) s1 = (Inr (), s2)" "same_meta s1 s2" "buf (fat s2) = Z"
      "fsect (fat s2) \<in> run_sectors (sect + 1) n" "\<not> dirty s2"
      "\<forall>m. valid m \<longrightarrow> sectors (dev s2) m = (if m \<in> run_sectors (sect + 1) n then Z else if m = sect then Z else W m)" by auto
    with step s1(2) show ?thesis by (auto simp: run_sectors_Suc intro: same_meta_trans)
  qed
qed simp

lemma clust_clear_at:
  assumes at: "at sectors valid s V f g" and v: "\<forall>m \<in> clust_sectors f c. valid m"
  shows "\<exists>s'. clust_clear E c s = (Inr (), s') \<and> \<not> dirty s' \<and>
    at sectors valid s' (\<lambda>m. if m \<in> clust_sectors f c then replicate 512 0 else V m) f g"
proof -
  let ?Z = "replicate 512 (0 :: u8)" and ?n = "2 ^ unat (clust_shift f) :: nat"
  from at have co: "coherent sectors valid s" and V: "vol sectors valid s = V" by (auto simp: at_def)
  from sync_buf_vol [OF co] obtain s1 where s1: "sync_buf E s = (Inr (), s1)" "vol_step sectors valid s V s1" "\<not> dirty s1"
    using V by auto
  have at1: "at sectors valid s1 V f g" by (rule at_step [OF at s1(2)])
  have W: "\<forall>m. valid m \<longrightarrow> sectors (dev s1) m = V m"
    using at1 s1(3) view_clean by (fastforce simp: at_def vol_def)
  let ?s = "upd_fat (\<lambda>f. f\<lparr>buf := put_bytes (buf f) 0 ?Z\<rparr>) s1"
  have "length (buf (fat s1)) = 512" using at1 by (simp add: at_def coherent_def)
  then have b: "buf (fat ?s) = ?Z" by (auto intro!: nth_equalityI simp: put_bytes_nth)
  have run: "clust_sectors f c = run_sectors (clust_to_sect f c) ?n" by (simp add: clust_sectors_def run_sectors_def)
  have geo: "clust_to_sect (fat s1) c = clust_to_sect f c" "clust_shift (fat s1) = clust_shift f"
    using at_fields [OF at1] by (simp_all add: clust_to_sect_def)
  from clear_loop [OF b, of "clust_to_sect f c" ?n V] v W obtain s2 where
    s2: "clust_clear_loop E ?n (clust_to_sect f c) ?s = (Inr (), s2)" "same_meta ?s s2" "buf (fat s2) = ?Z"
    "fsect (fat s2) \<in> clust_sectors f c" "\<not> dirty s2"
    "\<forall>m. valid m \<longrightarrow> sectors (dev s2) m = (if m \<in> clust_sectors f c then ?Z else V m)" unfolding run by auto
  have "clust_clear E c s = (Inr (), s2)"
    using s1(1) s2(1) by (simp add: clust_clear_def Let_def geo set_buf_def emodify_def)
  moreover have co2: "coherent sectors valid s2" using s2 v by (auto simp: coherent_def)
  moreover have "V m = []" if "\<not> valid m" for m using at1 that by (auto simp: vol_def at_def)
  then have "vol sectors valid s2 = (\<lambda>m. if m \<in> clust_sectors f c then ?Z else V m)"
    using s2(6) v view_clean [OF co2 s2(5)] by (auto simp: vol_def fun_eq_iff)
  moreover note this
  moreover have "fat_core (fat s2) = f \<and> (g_buf s2, g_len s2, g_crc s2) = g"
    using s2(2) at1 by (auto simp: same_meta_def at_def fat_core_def)
  ultimately show ?thesis using s2(5) by (auto simp: at_def)
qed

end

end
