(* ===== verification/FatNames.thy ===== *)
theory FatNames
  imports Prelude FatDisk
begin

text \<open>
  Names and times in directory entries of \<^verbatim>\<open>src/kernel/src/fs/fat32.c\<close>: case folding, path splitting,
  the checksum that ties long-name entries to their short entry, short (8.3) names, long-name
  fragments, and the packed date and time.  Characters are bytes; a C string is the list of its
  bytes before the terminator.
\<close>

section \<open>Constants and layouts\<close>

definition LFN_HEAD_MSK :: u8 where "LFN_HEAD_MSK = 0x40"
definition LFN_SEQ_MSK :: u8 where "LFN_SEQ_MSK = 0x1f"
definition SFN_FREE :: u8 where "SFN_FREE = 0xe5"
definition SFN_LAST :: u8 where "SFN_LAST = 0x00"
definition SFN_PAD :: u8 where "SFN_PAD = 0x20"

definition FAT_ATTR_RO :: u8 where "FAT_ATTR_RO = 0x01"
definition FAT_ATTR_SYS :: u8 where "FAT_ATTR_SYS = 0x04"
definition FAT_ATTR_LABEL :: u8 where "FAT_ATTR_LABEL = 0x08"
definition FAT_ATTR_DIR :: u8 where "FAT_ATTR_DIR = 0x10"
definition FAT_ATTR_ARCHIVE :: u8 where "FAT_ATTR_ARCHIVE = 0x20"
definition FAT_ATTR_LFN :: u8 where "FAT_ATTR_LFN = 0x0f"

lemmas attr_defs = FAT_ATTR_RO_def FAT_ATTR_SYS_def FAT_ATTR_LABEL_def FAT_ATTR_DIR_def
  FAT_ATTR_ARCHIVE_def FAT_ATTR_LFN_def

text \<open>Byte offsets of the fields of \<^verbatim>\<open>Sfn\<close> and \<^verbatim>\<open>Lfn\<close>.\<close>

definition sfn_attr :: nat where "sfn_attr = 11"
definition sfn_reserved :: nat where "sfn_reserved = 12"
definition sfn_tenth :: nat where "sfn_tenth = 13"
definition sfn_cre_time :: nat where "sfn_cre_time = 14"
definition sfn_cre_date :: nat where "sfn_cre_date = 16"
definition sfn_acc_date :: nat where "sfn_acc_date = 18"
definition sfn_clust_hi :: nat where "sfn_clust_hi = 20"
definition sfn_mod_time :: nat where "sfn_mod_time = 22"
definition sfn_mod_date :: nat where "sfn_mod_date = 24"
definition sfn_clust_lo :: nat where "sfn_clust_lo = 26"
definition sfn_size :: nat where "sfn_size = 28"

definition lfn_seq :: nat where "lfn_seq = 0"
definition lfn_attr :: nat where "lfn_attr = 11"
definition lfn_type :: nat where "lfn_type = 12"
definition lfn_crc :: nat where "lfn_crc = 13"
definition lfn_clust :: nat where "lfn_clust = 26"

lemmas field_defs = sfn_attr_def sfn_reserved_def sfn_tenth_def sfn_cre_time_def sfn_cre_date_def sfn_acc_date_def
  sfn_clust_hi_def sfn_mod_time_def sfn_mod_date_def sfn_clust_lo_def sfn_size_def
  lfn_seq_def lfn_attr_def lfn_type_def lfn_crc_def lfn_clust_def

definition g_lfn_indices :: "nat list" where
  "g_lfn_indices = [1, 3, 5, 7, 9, 14, 16, 18, 20, 22, 24, 28, 30]"

section \<open>Strings\<close>

definition to_upper :: "u8 \<Rightarrow> u8" where
  "to_upper c = (if 0x61 \<le> c \<and> c \<le> 0x7a then c AND NOT 0x20 else c)"

definition name_eq :: "bytes \<Rightarrow> bytes \<Rightarrow> nat \<Rightarrow> bool" where
  "name_eq a b len = list_all (\<lambda>i. to_upper (a ! i) = to_upper (b ! i)) [0..<len]"

fun subpath_len :: "bytes \<Rightarrow> nat" where
  "subpath_len [] = 0"
| "subpath_len (c # path) = (if c \<noteq> 0 \<and> c \<noteq> 0x2f then Suc (subpath_len path) else 0)"

fun skip_slashes :: "bytes \<Rightarrow> bytes" where
  "skip_slashes [] = []"
| "skip_slashes (c # path) = (if c = 0x2f then skip_slashes path else c # path)"

text \<open>The test \<^verbatim>\<open>*path\<close> of a string: its first byte, 0 at its end.\<close>

definition at_nul :: "bytes \<Rightarrow> bool" where
  "at_nul path \<longleftrightarrow> (case path of [] \<Rightarrow> True | c # _ \<Rightarrow> c = 0)"

definition last_subpath_len :: "bytes \<Rightarrow> nat" where
  "last_subpath_len path =
     (let len = subpath_len path
      in if len = 0 then 0
         else if at_nul (skip_slashes (drop len path)) then len else 0)"

section \<open>Checksum and time\<close>

definition get_crc :: "bytes \<Rightarrow> u8" where
  "get_crc name = fold (\<lambda>i sum. push_bit 7 (sum AND 1) + drop_bit 1 sum + name ! i) [0..<11] 0"

definition decode_timestamp :: "u16 \<Rightarrow> u16 \<Rightarrow> timestamp" where
  "decode_timestamp date time =
     \<lparr>ts_hour = ucast (drop_bit 11 time AND 0x1f), ts_min = ucast (drop_bit 5 time AND 0x3f),
      ts_sec = ucast (2 * (time AND 0x1f)), ts_day = ucast (date AND 0x1f),
      ts_month = ucast (drop_bit 5 date AND 0xf), ts_year = (drop_bit 9 date AND 0x3f) + 1980\<rparr>"

definition fat_get_timestamp :: timestamp where
  "fat_get_timestamp = \<lparr>ts_hour = 0, ts_min = 0, ts_sec = 0, ts_day = 1, ts_month = 1, ts_year = 1980\<rparr>"

definition pack_date :: "timestamp \<Rightarrow> u16" where
  "pack_date ts = push_bit 9 ((ts_year ts - 1980) AND 0x3f) OR push_bit 5 (ucast (ts_month ts) AND 0xf)
     OR (ucast (ts_day ts) AND 0x1f)"

definition pack_time :: "timestamp \<Rightarrow> u16" where
  "pack_time ts = (ucast (ts_sec ts div 2) AND 0x1f) OR push_bit 5 (ucast (ts_min ts) AND 0x3f)
     OR push_bit 11 (ucast (ts_hour ts) AND 0x1f)"

definition encode_timestamp :: "u16 \<times> u16" where
  "encode_timestamp = (let ts = fat_get_timestamp in (pack_date ts, pack_time ts))"

section \<open>Short names\<close>

text \<open>The special characters allowed in a short name, \<^verbatim>\<open>!#$%&'()-@^_`{}~\<close> and the space.\<close>

definition sfn_specials :: bytes where
  "sfn_specials = [0x21, 0x23, 0x24, 0x25, 0x26, 0x27, 0x28, 0x29, 0x2d, 0x40, 0x5e, 0x5f, 0x60, 0x7b, 0x7d, 0x7e, 0x20]"

definition sfn_char :: "u8 \<Rightarrow> u8" where
  "sfn_char c =
     (let c = to_upper c
      in if 0x41 \<le> c \<and> c \<le> 0x5a then c
         else if 0x30 \<le> c \<and> c \<le> 0x39 then c
         else if c \<in> set sfn_specials then c
         else 0x5f)"

text \<open>\<^verbatim>\<open>while (i < len && name[i++] != '.');\<close>\<close>

fun skip_dot :: "bytes \<Rightarrow> bytes" where
  "skip_dot [] = []"
| "skip_dot (c # cs) = (if c \<noteq> 0x2e then skip_dot cs else cs)"

definition put_sfn_name :: "bytes \<Rightarrow> nat \<Rightarrow> bytes" where
  "put_sfn_name name len =
     (let base = takeWhile (\<lambda>c. c \<noteq> 0x2e) (take (min len 8) name);
          i = length base;
          ext = take 3 (skip_dot (drop i (take len name)))
      in map sfn_char base @ replicate (8 - i) SFN_PAD
         @ map sfn_char ext @ replicate (3 - length ext) SFN_PAD)"

definition to_lower :: "u8 \<Rightarrow> u8" where
  "to_lower c = (if 0x41 \<le> c \<and> c \<le> 0x5a then c OR 0x20 else c)"

text \<open>The string \<^verbatim>\<open>parse_sfn_name\<close> writes to \<^verbatim>\<open>g_buf\<close>.\<close>

definition sfn_string :: "bytes \<Rightarrow> bytes" where
  "sfn_string sfn_name =
     map to_lower (takeWhile (\<lambda>c. c \<noteq> SFN_PAD) (take 8 sfn_name))
     @ (if sfn_name ! 8 \<noteq> SFN_PAD then [0x2e] else [])
     @ map to_lower (takeWhile (\<lambda>c. c \<noteq> SFN_PAD) (take 3 (drop 8 sfn_name)))"

definition parse_sfn_name :: "bytes \<Rightarrow> ('d, unit) fm" where
  "parse_sfn_name sfn_name = emodify (\<lambda>s. s\<lparr>g_buf := put_bytes (g_buf s) 0 (sfn_string sfn_name),
     g_len := of_nat (length (sfn_string sfn_name))\<rparr>)"

section \<open>Long-name fragments\<close>

text \<open>Write one 16-bit character of the fragment: low byte, then high byte.\<close>

definition put_lfn_char :: "nat \<Rightarrow> u8 \<Rightarrow> u8 \<Rightarrow> bytes \<Rightarrow> bytes" where
  "put_lfn_char i lo hi raw = raw[g_lfn_indices ! i := lo, g_lfn_indices ! i + 1 := hi]"

definition put_lfn_name_frag :: "bytes \<Rightarrow> bytes \<Rightarrow> nat \<Rightarrow> bytes" where
  "put_lfn_name_frag raw name len =
     (let raw1 = fold (\<lambda>i raw. put_lfn_char i (name ! i) 0 raw) [0..<len] raw
      in if len < 13
         then fold (\<lambda>i raw. put_lfn_char i 0xff 0xff raw) [Suc len..<13] (put_lfn_char len 0 0 raw1)
         else raw1)"

text \<open>The inner loop of \<^verbatim>\<open>parse_lfn_name\<close>, on the entry at offset \<open>off\<close> of the buffer \<open>b\<close>.  The test
  against \<^verbatim>\<open>0xff\<close> promotes a signed \<^verbatim>\<open>char\<close> to \<^verbatim>\<open>int\<close>.\<close>

fun lfn_copy :: "bytes \<Rightarrow> nat \<Rightarrow> nat \<Rightarrow> nat \<Rightarrow> nat \<Rightarrow> bytes \<times> u16 \<Rightarrow> bool \<times> bytes \<times> u16" where
  "lfn_copy b off cnt i 0 g = (True, g)"
| "lfn_copy b off cnt i (Suc n) (gb, gl) =
     (let c = b ! (off + g_lfn_indices ! i)
      in if sint c = 0xff then (False, gb, gl)
         else if c = 0 then (True, gb, gl)
         else lfn_copy b off cnt (Suc i) n (gb[13 * cnt + i := c], gl + 1))"

section \<open>Case folding and paths\<close>

lemma lower_bit5: "0x61 \<le> y \<Longrightarrow> y \<le> 0x7a \<Longrightarrow> bit y 5" for y :: u8
proof -
  assume "0x61 \<le> y" "y \<le> 0x7a"
  then have "unat y div 2 ^ 5 = 3" by (simp add: word_le_nat_alt)
  then have "bit (unat y) 5" by (simp add: bit_iff_odd)
  then show ?thesis by (simp add: bit_unsigned_iff)
qed

lemma to_upper_idem [simp]: "to_upper (to_upper c) = to_upper c"
proof -
  have "(0x20 :: u8) = push_bit 5 1" by simp
  then have "\<not> bit (c AND NOT 0x20) 5" by (simp only: bit_and_iff bit_not_iff bit_push_bit_iff) simp
  then show ?thesis using lower_bit5 [of "c AND NOT 0x20"] by (auto simp: to_upper_def)
qed

lemma name_eq_map:
  assumes "len \<le> length a" and "len \<le> length b"
  shows "name_eq a b len \<longleftrightarrow> map to_upper (take len a) = map to_upper (take len b)"
  using assms by (auto simp: name_eq_def list_all_iff list_eq_iff_nth_eq)

lemma subpath_len_le: "subpath_len path \<le> length path"
  by (induction path) auto

lemma subpath_len_takeWhile: "subpath_len path = length (takeWhile (\<lambda>c. c \<noteq> 0 \<and> c \<noteq> 0x2f) path)"
  by (induction path) auto

section \<open>Time stamps\<close>

text \<open>What the packed format can hold: two-second steps, and a year field of which the code keeps six
  bits.\<close>

definition timestamp_ok :: "timestamp \<Rightarrow> bool" where
  "timestamp_ok ts \<longleftrightarrow> ts_day ts < 32 \<and> ts_month ts < 16 \<and> 1980 \<le> ts_year ts \<and> ts_year ts < 2044 \<and>
     ts_hour ts < 32 \<and> ts_min ts < 64 \<and> ts_sec ts < 64 \<and> 2 dvd unat (ts_sec ts)"

lemma mask_lits:
  "x AND 0x1f = take_bit 5 x" "x AND 0x3f = take_bit 6 x" "x AND 0xf = take_bit 4 x" for x :: u16
  by (simp_all add: take_bit_eq_mask mask_eq_exp_minus_1)

lemma unpack_date:
  assumes "timestamp_ok ts"
  shows "ucast (pack_date ts AND 0x1f) = ts_day ts" "ucast (drop_bit 5 (pack_date ts) AND 0xf) = ts_month ts"
    "(drop_bit 9 (pack_date ts) AND 0x3f) + 1980 = ts_year ts"
proof -
  have d: "take_bit 5 (ts_day ts) = ts_day ts" and m: "take_bit 4 (ts_month ts) = ts_month ts"
    using assms by (simp_all add: timestamp_ok_def word_less_nat_alt word_take_bit_self)
  have "pack_date ts AND 0x1f = take_bit 5 (ucast (ts_day ts))"
    by (rule bit_word_eqI) (auto simp: pack_date_def mask_lits bit_simps)
  then have "ucast (pack_date ts AND 0x1f) = take_bit 5 (ts_day ts)"
    by (auto intro!: bit_word_eqI simp: bit_simps)
  then show "ucast (pack_date ts AND 0x1f) = ts_day ts" using d by simp
  have "drop_bit 5 (pack_date ts) AND 0xf = take_bit 4 (ucast (ts_month ts))"
    by (rule bit_word_eqI) (auto simp: pack_date_def mask_lits bit_simps)
  then have "ucast (drop_bit 5 (pack_date ts) AND 0xf) = take_bit 4 (ts_month ts)"
    by (auto intro!: bit_word_eqI simp: bit_simps)
  then show "ucast (drop_bit 5 (pack_date ts) AND 0xf) = ts_month ts" using m by simp
  have "unat (ts_year ts - 1980) < 2 ^ 6"
    using assms by (auto simp: timestamp_ok_def word_less_nat_alt word_le_nat_alt unat_sub)
  then have y: "take_bit 6 (ts_year ts - 1980) = ts_year ts - 1980" by (rule word_take_bit_self)
  have "drop_bit 9 (pack_date ts) AND 0x3f = take_bit 6 (ts_year ts - 1980)"
    by (rule bit_word_eqI) (auto simp: pack_date_def mask_lits bit_simps)
  then show "(drop_bit 9 (pack_date ts) AND 0x3f) + 1980 = ts_year ts" using y by simp
qed

lemma unpack_time:
  assumes "timestamp_ok ts"
  shows "ucast (drop_bit 11 (pack_time ts) AND 0x1f) = ts_hour ts" "ucast (drop_bit 5 (pack_time ts) AND 0x3f) = ts_min ts"
    "ucast (2 * (pack_time ts AND 0x1f)) = ts_sec ts"
proof -
  have h: "take_bit 5 (ts_hour ts) = ts_hour ts" and m: "take_bit 6 (ts_min ts) = ts_min ts"
    using assms by (simp_all add: timestamp_ok_def word_less_nat_alt word_take_bit_self)
  have "drop_bit 11 (pack_time ts) AND 0x1f = take_bit 5 (ucast (ts_hour ts))"
    by (rule bit_word_eqI) (auto simp: pack_time_def mask_lits bit_simps)
  then have "ucast (drop_bit 11 (pack_time ts) AND 0x1f) = take_bit 5 (ts_hour ts)"
    by (auto intro!: bit_word_eqI simp: bit_simps)
  then show "ucast (drop_bit 11 (pack_time ts) AND 0x1f) = ts_hour ts" using h by simp
  have "drop_bit 5 (pack_time ts) AND 0x3f = take_bit 6 (ucast (ts_min ts))"
    by (rule bit_word_eqI) (auto simp: pack_time_def mask_lits bit_simps)
  then have "ucast (drop_bit 5 (pack_time ts) AND 0x3f) = take_bit 6 (ts_min ts)"
    by (auto intro!: bit_word_eqI simp: bit_simps)
  then show "ucast (drop_bit 5 (pack_time ts) AND 0x3f) = ts_min ts" using m by simp
  have s: "unat (ts_sec ts) < 64" "2 dvd unat (ts_sec ts)" using assms by (simp_all add: timestamp_ok_def word_less_nat_alt)
  have "pack_time ts AND 0x1f = take_bit 5 (ucast (ts_sec ts div 2))"
    by (rule bit_word_eqI) (auto simp: pack_time_def mask_lits bit_simps)
  moreover have u: "unat (ucast (ts_sec ts div 2) :: u16) = unat (ts_sec ts) div 2"
    using s(1) by (simp add: unsigned_ucast_eq unat_div take_bit_nat_eq_self)
  ultimately have "unat (pack_time ts AND 0x1f) = unat (ts_sec ts) div 2"
    using s by (simp add: word_take_bit_self)
  then have "unat (2 * (pack_time ts AND 0x1f)) = unat (ts_sec ts)"
    using s by (simp add: unat_word_ariths)
  then have "unat (ucast (2 * (pack_time ts AND 0x1f)) :: u8) = unat (ts_sec ts)"
    using s by (simp add: unsigned_ucast_eq take_bit_nat_eq_self)
  then show "ucast (2 * (pack_time ts AND 0x1f)) = ts_sec ts" by (simp add: word_unat_eq_iff)
qed

section \<open>The checksum\<close>

definition ror1 :: "u8 \<Rightarrow> u8" where
  "ror1 x = push_bit 7 (x AND 1) + drop_bit 1 x"

lemma bit_ror1: "n < 8 \<Longrightarrow> bit (ror1 x) n = (if n = 7 then bit x 0 else bit x (Suc n))"
proof -
  have "push_bit 7 (x AND 1) AND drop_bit 1 x = 0"
    by (rule bit_word_eqI) (auto simp: bit_simps dest: bit_imp_le_length)
  then have "ror1 x = push_bit 7 (x AND 1) OR drop_bit 1 x" by (simp add: ror1_def disjunctive_add_eq_or)
  then show "n < 8 \<Longrightarrow> ?thesis" by (auto simp: bit_simps dest: bit_imp_le_length)
qed

lemma ror1_inj: "ror1 x = ror1 y \<Longrightarrow> x = y"
proof (rule bit_word_eqI)
  fix n assume eq: "ror1 x = ror1 y" and "n < LENGTH(8)"
  then have n: "n < 8" by simp
  have "bit (ror1 x) (if n = 0 then 7 else n - 1) = bit x n" "bit (ror1 y) (if n = 0 then 7 else n - 1) = bit y n"
    using n by (auto simp: bit_ror1)
  with eq show "bit x n = bit y n" by simp
qed

definition crc_step :: "u8 \<Rightarrow> u8 \<Rightarrow> u8" where
  "crc_step c acc = ror1 acc + c"

lemma get_crc_fold: "get_crc name = fold crc_step (map ((!) name) [0..<11]) 0"
proof -
  have "(\<lambda>i sum. push_bit 7 (sum AND 1) + drop_bit 1 sum + name ! i) = (\<lambda>i. crc_step (name ! i))"
    unfolding crc_step_def ror1_def by (rule refl)
  then show ?thesis unfolding get_crc_def by (simp only: fold_map comp_def)
qed

lemma crc_inj: "fold crc_step cs x = fold crc_step cs y \<Longrightarrow> x = y"
proof (induction cs arbitrary: x y)
  case (Cons c cs)
  from Cons.IH [of "crc_step c x" "crc_step c y"] Cons.prems have "ror1 x = ror1 y" by (simp add: crc_step_def)
  then show ?case by (rule ror1_inj)
qed simp

section \<open>Short names\<close>

lemma sfn_char_visible: "sfn_char c \<noteq> SFN_FREE" "sfn_char c \<noteq> SFN_LAST" "sfn_char c \<noteq> 0x2e"
proof -
  define d where "d = to_upper c"
  have e: "sfn_char c = (if 0x41 \<le> d \<and> d \<le> 0x5a then d else if 0x30 \<le> d \<and> d \<le> 0x39 then d
      else if d \<in> set sfn_specials then d else 0x5f)" by (simp add: sfn_char_def d_def Let_def)
  show "sfn_char c \<noteq> SFN_FREE" "sfn_char c \<noteq> SFN_LAST" "sfn_char c \<noteq> 0x2e"
    unfolding e by (auto simp: SFN_FREE_def SFN_LAST_def sfn_specials_def)
qed

lemma length_put_sfn_name: "len \<le> length name \<Longrightarrow> length (put_sfn_name name len) = 11"
proof -
  have "length (takeWhile (\<lambda>c. c \<noteq> 0x2e) (take (min len 8) name)) \<le> 8"
    by (rule order_trans [OF length_takeWhile_le]) simp
  then show ?thesis by (simp add: put_sfn_name_def Let_def)
qed

lemma put_sfn_name_visible: "len \<le> length name \<Longrightarrow> put_sfn_name name len ! 0 \<noteq> SFN_FREE \<and> put_sfn_name name len ! 0 \<noteq> SFN_LAST"
  by (cases "takeWhile (\<lambda>c. c \<noteq> 0x2e) (take (min len 8) name)")
    (use sfn_char_visible in \<open>auto simp: put_sfn_name_def Let_def nth_append SFN_PAD_def SFN_FREE_def SFN_LAST_def\<close>)

text \<open>A name of the form \<open>base.ext\<close> with allowed characters comes back in lower case.\<close>

definition sfn_plain :: "u8 \<Rightarrow> bool" where
  "sfn_plain c \<longleftrightarrow> 0x61 \<le> c \<and> c \<le> 0x7a \<or> 0x30 \<le> c \<and> c \<le> 0x39"

lemma unat_upper: "0x61 \<le> c \<Longrightarrow> c \<le> 0x7a \<Longrightarrow> unat (c AND NOT 0x20) = unat c - 32" for c :: u8
proof -
  assume c: "0x61 \<le> c" "c \<le> 0x7a"
  have t: "(0x20 :: u8) = push_bit 5 1" by simp
  have "(c AND NOT 0x20) AND 0x20 = 0" by (simp add: and.assoc)
  then have "(c AND NOT 0x20) + 0x20 = (c AND NOT 0x20) OR 0x20" by (rule disjunctive_add_eq_or)
  also have "\<dots> = c"
    unfolding t using lower_bit5 [OF c] by (intro bit_word_eqI) (auto simp only: bit_simps; auto)
  finally have "c - 0x20 = c AND NOT 0x20" by (metis add_diff_cancel_right')
  moreover have "unat (c - 0x20) = unat c - 32" using c by (simp add: unat_sub word_le_nat_alt)
  ultimately show ?thesis by simp
qed

lemma plain_char:
  assumes "sfn_plain c"
  shows "to_lower (sfn_char c) = c" "sfn_char c \<noteq> SFN_PAD" "c \<noteq> 0x2e"
proof -
  have "to_lower (sfn_char c) = c \<and> sfn_char c \<noteq> SFN_PAD"
  proof (cases "0x61 \<le> c \<and> c \<le> 0x7a")
    case True
    then have u: "unat (c AND NOT 0x20) = unat c - 32" using unat_upper [of c] by blast
    then have r: "0x41 \<le> c AND NOT 0x20" "c AND NOT 0x20 \<le> 0x5a" using True by (auto simp: word_le_nat_alt)
    have t: "(0x20 :: u8) = push_bit 5 1" by simp
    have "(c AND NOT 0x20) OR 0x20 = c"
      unfolding t using lower_bit5 [of c] True by (intro bit_word_eqI) (auto simp only: bit_simps; auto)
    then show ?thesis using True r
      by (auto simp: sfn_char_def to_upper_def to_lower_def Let_def SFN_PAD_def)
  next
    case False
    then have d: "0x30 \<le> c" "c \<le> 0x39" using assms by (auto simp: sfn_plain_def)
    then have "\<not> (0x41 \<le> c \<and> c \<le> 0x5a)" by (auto simp: word_le_nat_alt)
    then show ?thesis using False d by (auto simp: sfn_char_def to_upper_def to_lower_def Let_def SFN_PAD_def)
  qed
  then show "to_lower (sfn_char c) = c" "sfn_char c \<noteq> SFN_PAD" by auto
  show "c \<noteq> 0x2e" using assms by (auto simp: sfn_plain_def)
qed

section \<open>Long-name fragments\<close>

lemma lfn_index_table:
  "\<forall>i \<in> set [0..<13]. g_lfn_indices ! i + 1 < 32 \<and>
     (\<forall>j \<in> set [0..<13]. i \<noteq> j \<longrightarrow> g_lfn_indices ! i \<noteq> g_lfn_indices ! j) \<and>
     (\<forall>j \<in> set [0..<13]. g_lfn_indices ! i + 1 \<noteq> g_lfn_indices ! j)"
  by code_simp

lemma lfn_index:
  assumes "i < 13" and "j < 13"
  shows "g_lfn_indices ! i + 1 < 32" "i \<noteq> j \<Longrightarrow> g_lfn_indices ! i \<noteq> g_lfn_indices ! j"
    "g_lfn_indices ! i + 1 \<noteq> g_lfn_indices ! j"
  using lfn_index_table assms by auto

lemma length_put_lfn_char [simp]: "length (put_lfn_char i lo hi raw) = length raw"
  by (simp add: put_lfn_char_def)

lemma put_lfn_char_nth:
  assumes "i < 13" and "j < 13" and "length raw = 32"
  shows "put_lfn_char i lo hi raw ! (g_lfn_indices ! j) = (if i = j then lo else raw ! (g_lfn_indices ! j))"
  using lfn_index [OF assms(1,2)] assms(3) by (auto simp: put_lfn_char_def nth_list_update)

lemma length_fold_lfn [simp]: "length (fold (\<lambda>i. put_lfn_char i (f i) (h i)) is raw) = length raw"
  by (induction "is" arbitrary: raw) simp_all

lemma fold_lfn_nth:
  assumes "b \<le> 13" and "j < 13" and "length raw = 32"
  shows "fold (\<lambda>i. put_lfn_char i (f i) (h i)) [a..<b] raw ! (g_lfn_indices ! j) =
    (if a \<le> j \<and> j < b then f j else raw ! (g_lfn_indices ! j))"
  using assms(1)
proof (induction b)
  case (Suc b)
  show ?case
  proof (cases "a \<le> b")
    case True
    with Suc assms show ?thesis by (auto simp: put_lfn_char_nth)
  next
    case False
    then show ?thesis by auto
  qed
qed simp

lemma put_lfn_name_frag_nth:
  assumes "len \<le> 13" and "j < 13" and "length raw = 32"
  shows "put_lfn_name_frag raw name len ! (g_lfn_indices ! j) =
    (if j < len then name ! j else if j = len then 0 else 0xff)"
  using assms fold_lfn_nth [of len j raw "(!) name" "\<lambda>_. 0" 0]
    fold_lfn_nth [of 13 j _ "\<lambda>_. 0xff" "\<lambda>_. 0xff" "Suc len"]
  by (auto simp: put_lfn_name_frag_def Let_def put_lfn_char_nth)

lemma sint_char: "sint c \<noteq> 0xff" for c :: u8
  using sint_less [of c] by simp

lemma lfn_copy_frag:
  assumes "\<forall>k < 13. k \<le> len \<longrightarrow> b ! (off + g_lfn_indices ! k) = (if k < len then name ! k else 0)"
    and "len \<le> 13" and "\<forall>k < len. name ! k \<noteq> 0" and "i \<le> len" and "len \<le> length name"
  shows "lfn_copy b off cnt i (13 - i) (gb, gl) =
    (True, put_bytes gb (13 * cnt + i) (drop i (take len name)), gl + of_nat (len - i))"
  using assms(4)
proof (induction "len - i" arbitrary: i gb gl)
  case 0
  then have i: "i = len" by simp
  show ?case
  proof (cases "len = 13")
    case False
    then obtain n where "13 - len = Suc n" using assms(2) by (metis Suc_diff_Suc le_neq_implies_less)
    then show ?thesis using i assms(1) False assms(2) by (auto simp: sint_char)
  qed (simp add: i)
next
  case (Suc k)
  then have i: "i < len" by simp
  then have n: "13 - i = Suc (13 - Suc i)" using assms(2) by simp
  have "drop i (take len name) = name ! i # drop (Suc i) (take len name)"
    using i assms(5) by (metis (no_types, lifting) Cons_nth_drop_Suc length_take min.absorb2 nth_take)
  moreover have "of_nat (len - i) = (1 + of_nat (len - Suc i) :: u16)" using i by (simp flip: Suc_diff_Suc)
  ultimately show ?case
    unfolding n using Suc(1) [of "Suc i" "gb[13 * cnt + i := name ! i]" "gl + 1"] Suc(2,3) i assms(1,2,3)
    by (simp add: sint_char add.assoc)
qed

section \<open>Properties\<close>

text \<open>C38: Dates from 1980 to 2043 and times in two-second steps survive packing into a directory entry
  and unpacking.\<close>

theorem timestamp_round_trip:
  assumes "timestamp_ok ts"
  shows "decode_timestamp (pack_date ts) (pack_time ts) = ts"
  unfolding decode_timestamp_def unpack_date [OF assms] unpack_time [OF assms] by simp

theorem timestamp_round_trip_witness:
  "decode_timestamp (pack_date \<lparr>ts_hour = 23, ts_min = 59, ts_sec = 58, ts_day = 29, ts_month = 2, ts_year = 2024\<rparr>)
     (pack_time \<lparr>ts_hour = 23, ts_min = 59, ts_sec = 58, ts_day = 29, ts_month = 2, ts_year = 2024\<rparr>) =
     \<lparr>ts_hour = 23, ts_min = 59, ts_sec = 58, ts_day = 29, ts_month = 2, ts_year = 2024\<rparr>"
  by (rule timestamp_round_trip) (simp add: timestamp_ok_def)

lemma takeWhile_plain: "\<forall>c \<in> set base. sfn_plain c \<Longrightarrow> takeWhile (\<lambda>c. c \<noteq> 0x2e) (base @ 0x2e # ext) = base"
  by (induction base) (auto simp: plain_char(3))

lemma takeWhile_pad:
  "\<forall>c \<in> set base. sfn_plain c \<Longrightarrow> takeWhile (\<lambda>c. c \<noteq> SFN_PAD) (map sfn_char base @ replicate n SFN_PAD) = map sfn_char base"
  by (induction base) (auto simp: plain_char(2) takeWhile_eq_Nil_iff gr0_conv_Suc)

text \<open>C39: A name of at most eight letters or digits, a dot and one to three more comes back from its short
  entry in lower case.\<close>

theorem sfn_round_trip:
  assumes "\<forall>c \<in> set (base @ ext). sfn_plain c" and "length base \<le> 8" and "1 \<le> length ext" "length ext \<le> 3"
  shows "sfn_string (put_sfn_name (base @ 0x2e # ext) (length base + 1 + length ext)) = base @ 0x2e # ext"
proof -
  have b: "takeWhile (\<lambda>c. c \<noteq> 0x2e) (take (min (length base + 1 + length ext) 8) (base @ 0x2e # ext)) = base"
  proof (cases "length base = 8")
    case True
    then show ?thesis using assms by (auto simp: plain_char(3) takeWhile_eq_all_conv)
  next
    case False
    then have "take (min (length base + 1 + length ext) 8) (base @ 0x2e # ext) = base @ 0x2e # take (min (length base + 1 + length ext) 8 - length base - 1) ext"
      using assms(2,3) by (simp add: take_Cons')
    then show ?thesis using takeWhile_plain [of base] assms(1) by simp
  qed
  have e: "take 3 (skip_dot (drop (length base) (take (length base + 1 + length ext) (base @ 0x2e # ext)))) = ext"
    using assms(4) by simp
  have n: "put_sfn_name (base @ 0x2e # ext) (length base + 1 + length ext) =
      map sfn_char base @ replicate (8 - length base) SFN_PAD @ map sfn_char ext @ replicate (3 - length ext) SFN_PAD"
    unfolding put_sfn_name_def Let_def b e by simp
  have "map (\<lambda>c. to_lower (sfn_char c)) base = base" "map (\<lambda>c. to_lower (sfn_char c)) ext = ext"
    using assms(1) by (auto intro!: map_idI simp: plain_char(1))
  moreover have "sfn_char (ext ! 0) \<noteq> SFN_PAD" "ext \<noteq> []" using assms(1,3) by (cases ext; auto simp: plain_char(2))+
  ultimately show ?thesis
    unfolding n sfn_string_def using takeWhile_pad [of base "8 - length base"] takeWhile_pad [of ext "3 - length ext"] assms
    by (simp add: nth_append comp_def)
qed

theorem sfn_round_trip_witness:
  "sfn_string (put_sfn_name ([0x72, 0x65, 0x61, 0x64, 0x6d, 0x65] @ 0x2e # [0x74, 0x78, 0x74]) 10) =
     [0x72, 0x65, 0x61, 0x64, 0x6d, 0x65] @ 0x2e # [0x74, 0x78, 0x74]"
proof -
  have n: "length [0x72, 0x65, 0x61, 0x64, 0x6d, 0x65 :: u8] + 1 + length [0x74, 0x78, 0x74 :: u8] = 10" by simp
  show ?thesis unfolding n [symmetric] by (rule sfn_round_trip) (simp_all add: sfn_plain_def)
qed

text \<open>C40: The checksum in the long-name entries detects every change of a single byte of the short name.\<close>

theorem get_crc_detects:
  assumes "k < 11" and "11 \<le> length name" and "c \<noteq> name ! k"
  shows "get_crc (name[k := c]) \<noteq> get_crc name"
proof
  let ?a = "map ((!) name) [0..<k]" and ?b = "map ((!) name) [Suc k..<11]"
  have split: "[0..<11] = [0..<k] @ k # [Suc k..<11]"
    using assms(1) upt_add_eq_append [of 0 k "11 - k"] upt_conv_Cons [of k 11] by simp
  have m1: "map ((!) name) [0..<11] = ?a @ name ! k # ?b" unfolding split by simp
  have m2: "map ((!) (name[k := c])) [0..<11] = ?a @ c # ?b" unfolding split using assms by simp
  assume "get_crc (name[k := c]) = get_crc name"
  then have "fold crc_step ?b (crc_step c (fold crc_step ?a 0)) = fold crc_step ?b (crc_step (name ! k) (fold crc_step ?a 0))"
    unfolding get_crc_fold m1 m2 by simp
  then have "crc_step c (fold crc_step ?a 0) = crc_step (name ! k) (fold crc_step ?a 0)" by (rule crc_inj)
  then show False using assms(3) by (simp add: crc_step_def)
qed

theorem get_crc_detects_witness:
  "get_crc ((replicate 11 0x41)[3 := 0x42]) \<noteq> get_crc (replicate 11 0x41)"
  by (rule get_crc_detects) simp_all

end
