(* ===== verification/FatDir.thy ===== *)
theory FatDir
  imports FatChain FatNames
begin

text \<open>
  Directories of \<^verbatim>\<open>src/kernel/src/fs/fat32.c\<close>: the cursor \<^verbatim>\<open>Dir\<close> that walks the 32-byte entries along a
  cluster chain, reading long names, searching, adding, removing and listing entries.  An
  operation runs on the cursor and the volume and leaves both changed also when it fails, as the
  callers rely on the cursor after \<^verbatim>\<open>FAT_ERR_EOF\<close>.
\<close>

section \<open>The cursor\<close>

record dir =
  d_sclust :: u32
  d_clust :: u32
  d_sect :: u32
  d_idx :: u16

record loc =
  loc_sect :: u32
  loc_idx :: u16

record dirinfo =
  di_created :: timestamp
  di_modified :: timestamp
  di_size :: u32
  di_attr :: u8
  di_name :: bytes
  di_name_len :: u8

type_synonym ('d, 'a) dm = "(dir \<times> 'd st, 'a) cm"

text \<open>An operation on the volume alone, and one on the cursor (or another client) alone.\<close>

definition on_fat :: "('x \<Rightarrow> ('d, 'a) fm) \<Rightarrow> ('x \<times> 'd st, 'a) cm" where
  "on_fat m = (\<lambda>(d, s). case m d s of (r, s') \<Rightarrow> (r, d, s'))"

definition on_dir :: "(fat \<Rightarrow> 'x \<Rightarrow> 'x) \<Rightarrow> ('x \<times> 'd st, unit) cm" where
  "on_dir f = emodify (\<lambda>(d, s). (f (fat s) d, s))"

definition dir_at_clust :: "u32 \<Rightarrow> fat \<Rightarrow> dir \<Rightarrow> dir" where
  "dir_at_clust clust f d = d\<lparr>d_clust := clust, d_sect := clust_to_sect f clust, d_idx := 0\<rparr>"

definition dir_enter :: "u32 \<Rightarrow> fat \<Rightarrow> dir \<Rightarrow> dir" where
  "dir_enter clust f d =
     (let clust = (if clust = 0 then root_clust f else clust)
      in dir_at_clust clust f (d\<lparr>d_sclust := clust\<rparr>))"

definition dir_next :: "'d env \<Rightarrow> ('d, unit) dm" where
  "dir_next E = (\<lambda>(d, s).
     let d1 = d\<lparr>d_idx := d_idx d + 32\<rparr>
     in if d_idx d1 < 512 then ereturn () (d1, s)
        else let d2 = d1\<lparr>d_idx := 0, d_sect := d_sect d1 + 1\<rparr>
             in if d_sect d2 AND clust_msk (fat s) \<noteq> 0 then ereturn () (d2, s)
                else ebind (on_fat (\<lambda>d. get_fat E (d_clust d))) (\<lambda>(next, flags).
                       if flags AND (CLUST_BAD OR CLUST_FREE) \<noteq> 0 then ethrow FAT_ERR_BROKEN
                       else if flags AND CLUST_LAST \<noteq> 0 then ethrow FAT_ERR_EOF
                       else on_dir (dir_at_clust next)) (d2, s))"

fun dir_advance :: "'d env \<Rightarrow> nat \<Rightarrow> ('d, unit) dm" where
  "dir_advance E 0 = ereturn ()"
| "dir_advance E (Suc cnt) = ebind (dir_next E) (\<lambda>_. dir_advance E cnt)"

definition dir_next_stretch :: "'d env \<Rightarrow> ('d, unit) dm" where
  "dir_next_stretch E ds = (case dir_next E ds of
       (Inr _, ds1) \<Rightarrow> ereturn () ds1
     | (Inl err, ds1) \<Rightarrow>
         if err \<noteq> FAT_ERR_EOF then ethrow err ds1
         else ebind (on_fat (\<lambda>d. stretch_chain E (d_clust d))) (\<lambda>r.
              ebind (on_dir (dir_at_clust (out_clust E r))) (\<lambda>_.
              on_fat (\<lambda>d. clust_clear E (d_clust d)))) ds1)"

definition dir_at_root :: "fat \<Rightarrow> dir \<Rightarrow> bool" where
  "dir_at_root f d \<longleftrightarrow> d_clust d = root_clust f \<and> d_sect d = clust_to_sect f (root_clust f) \<and> d_idx d = 0"

section \<open>Entries\<close>

text \<open>The predicates take the buffer and the offset of the entry in it.\<close>

definition sfn_is_last :: "bytes \<Rightarrow> nat \<Rightarrow> bool" where
  "sfn_is_last b i \<longleftrightarrow> b ! i = SFN_LAST"

definition sfn_is_free :: "bytes \<Rightarrow> nat \<Rightarrow> bool" where
  "sfn_is_free b i \<longleftrightarrow> b ! i = SFN_LAST \<or> b ! i = SFN_FREE"

definition sfn_is_lfn :: "bytes \<Rightarrow> nat \<Rightarrow> bool" where
  "sfn_is_lfn b i \<longleftrightarrow> b ! (i + sfn_attr) = FAT_ATTR_LFN"

definition sfn_cluster :: "bytes \<Rightarrow> nat \<Rightarrow> u32" where
  "sfn_cluster b i = push_bit 16 (ucast (get_u16 b (i + sfn_clust_hi))) OR ucast (get_u16 b (i + sfn_clust_lo))"

text \<open>Load the sector of the cursor, and the entry it then points to, \<^verbatim>\<open>dir_ptr\<close>.\<close>

definition dir_load :: "'d env \<Rightarrow> ('d, unit) dm" where
  "dir_load E = on_fat (\<lambda>d. update_buf E (d_sect d))"

definition dir_ptr :: "dir \<Rightarrow> nat" where
  "dir_ptr d = unat (d_idx d)"

text \<open>Store into the entry under the cursor and mark the buffer.\<close>

definition dir_store :: "(bytes \<Rightarrow> bytes) \<Rightarrow> ('d, unit) dm" where
  "dir_store f = on_fat (\<lambda>d. ebind (set_flag FAT_BUF_DIRTY) (\<lambda>_.
     set_buf (\<lambda>b. put_bytes b (dir_ptr d) (f (get_bytes b (dir_ptr d) 32)))))"

fun parse_lfn_loop :: "'d env \<Rightarrow> nat \<Rightarrow> ('d, unit) dm" where
  "parse_lfn_loop E 0 ds = ereturn () ds"
| "parse_lfn_loop E (Suc cnt) (d, s) =
     (let b = buf (fat s); i = dir_ptr d
      in if b ! (i + lfn_attr) \<noteq> FAT_ATTR_LFN \<or> b ! (i + lfn_crc) \<noteq> g_crc s then ethrow FAT_ERR_BROKEN (d, s)
         else case lfn_copy b i cnt 0 13 (g_buf s, g_len s) of (ok, gb, gl) \<Rightarrow>
           let s1 = s\<lparr>g_buf := gb, g_len := gl\<rparr>
           in if \<not> ok then ethrow FAT_ERR_BROKEN (d, s1)
              else ebind (dir_next E) (\<lambda>_.
                   ebind (dir_load E) (\<lambda>_.
                   parse_lfn_loop E cnt)) (d, s1))"

definition parse_lfn_name :: "'d env \<Rightarrow> ('d, unit) dm" where
  "parse_lfn_name E = ebind (dir_load E) (\<lambda>_ (d, s).
     let b = buf (fat s); i = dir_ptr d;
         s1 = s\<lparr>g_crc := b ! (i + lfn_crc), g_len := 0\<rparr>;
         cnt = unat (b ! (i + lfn_seq) AND LFN_SEQ_MSK)
     in if cnt > 20 then ethrow FAT_ERR_BROKEN (d, s1)
        else ebind (parse_lfn_loop E cnt) (\<lambda>_ (d, s).
               if g_len s \<le> 255 then ereturn () (d, s) else ethrow FAT_ERR_BROKEN (d, s)) (d, s1))"

section \<open>Searching\<close>

fun dir_search_loop :: "'d env \<Rightarrow> nat \<Rightarrow> bytes \<Rightarrow> bytes \<Rightarrow> nat \<Rightarrow> ('d, loc) dm" where
  "dir_search_loop E 0 sfn_name name len = ethrow NO_RETURN"
| "dir_search_loop E (Suc n) sfn_name name len =
     ebind (dir_load E) (\<lambda>_ (d, s).
       let b = buf (fat s); i = dir_ptr d;
           loc = \<lparr>loc_sect = d_sect d, loc_idx = d_idx d\<rparr>;
           continue = ebind (dir_next E) (\<lambda>_. dir_search_loop E n sfn_name name len)
       in if sfn_is_last b i then ethrow FAT_ERR_EOF (d, s)
          else if sfn_is_free b i then continue (d, s)
          else if sfn_is_lfn b i
          then ebind (parse_lfn_name E) (\<lambda>_ (d, s).
                 let b = buf (fat s); i = dir_ptr d
                 in if sfn_is_free b i \<or> sfn_is_lfn b i \<or> g_crc s \<noteq> get_crc (get_bytes b i 11)
                    then ethrow FAT_ERR_BROKEN (d, s)
                    else if unat (g_len s) = len \<and> name_eq (g_buf s) name len then ereturn loc (d, s)
                    else continue (d, s)) (d, s)
          else if sfn_name = get_bytes b i 11 then ereturn loc (d, s)
          else continue (d, s))"

definition dir_search :: "'d env \<Rightarrow> bytes \<Rightarrow> nat \<Rightarrow> ('d, loc) dm" where
  "dir_search E name len =
     ebind (on_dir (\<lambda>f d. dir_at_clust (d_sclust d) f d)) (\<lambda>_.
       dir_search_loop E (fuel E) (put_sfn_name name len) name len)"

section \<open>Removing and adding\<close>

fun remove_entries_loop :: "'d env \<Rightarrow> nat \<Rightarrow> u32 \<Rightarrow> u16 \<Rightarrow> ('d, unit) dm" where
  "remove_entries_loop E 0 sect idx = ethrow NO_RETURN"
| "remove_entries_loop E (Suc n) sect idx =
     ebind (dir_load E) (\<lambda>_.
     ebind (dir_store (\<lambda>e. e[0 := SFN_FREE])) (\<lambda>_ (d, s).
       if d_sect d = sect \<and> d_idx d = idx then ereturn () (d, s)
       else ebind (dir_next E) (\<lambda>_. remove_entries_loop E n sect idx) (d, s)))"

definition remove_entries :: "'d env \<Rightarrow> loc \<Rightarrow> ('d, unit) dm" where
  "remove_entries E loc = (\<lambda>(d, s).
     ebind (on_dir (\<lambda>f d. d\<lparr>d_clust := sect_to_clust f (loc_sect loc), d_sect := loc_sect loc, d_idx := loc_idx loc\<rparr>)) (\<lambda>_.
       remove_entries_loop E (fuel E) (d_sect d) (d_idx d)) (d, s))"

text \<open>The search for \<open>need\<close> free entries in a row; the answer is whether the end mark was met and
  where the row begins.\<close>

fun dir_add_find :: "'d env \<Rightarrow> nat \<Rightarrow> nat \<Rightarrow> nat \<Rightarrow> bool \<Rightarrow> loc \<Rightarrow> ('d, bool \<times> loc) dm" where
  "dir_add_find E 0 need cnt eod loc = (if cnt < need then ethrow NO_RETURN else ereturn (eod, loc))"
| "dir_add_find E (Suc n) need cnt eod loc =
     (if cnt < need
      then ebind (dir_load E) (\<lambda>_ (d, s).
             let b = buf (fat s); i = dir_ptr d;
                 free = (eod \<or> sfn_is_free b i);
                 loc' = (if free \<and> cnt = 0 then \<lparr>loc_sect = d_sect d, loc_idx = d_idx d\<rparr> else loc);
                 cnt' = (if free then Suc cnt else 0);
                 eod' = (eod \<or> sfn_is_last b i)
             in ebind (dir_next_stretch E) (\<lambda>_. dir_add_find E n need cnt' eod' loc') (d, s))
      else ereturn (eod, loc))"

definition lfn_entry :: "bytes \<Rightarrow> nat \<Rightarrow> u8 \<Rightarrow> u8 \<Rightarrow> nat \<Rightarrow> bytes \<Rightarrow> bytes" where
  "lfn_entry name len crc msk i raw =
     (let pos = 13 * (i - 1);
          raw1 = put_lfn_name_frag raw (drop pos name) (min (len - pos) 13);
          raw2 = raw1[lfn_attr := FAT_ATTR_LFN, lfn_seq := msk OR of_nat i, lfn_crc := crc, lfn_type := 0]
      in put_u16 raw2 lfn_clust 0)"

fun dir_add_lfns :: "'d env \<Rightarrow> bytes \<Rightarrow> nat \<Rightarrow> u8 \<Rightarrow> u8 \<Rightarrow> nat \<Rightarrow> ('d, unit) dm" where
  "dir_add_lfns E name len crc msk 0 = ereturn ()"
| "dir_add_lfns E name len crc msk (Suc i) =
     ebind (dir_load E) (\<lambda>_.
     ebind (dir_store (lfn_entry name len crc msk (Suc i))) (\<lambda>_.
     ebind (dir_next E) (\<lambda>_.
     dir_add_lfns E name len crc 0 i)))"

definition sfn_entry :: "bytes \<Rightarrow> u8 \<Rightarrow> u32 \<Rightarrow> bytes \<Rightarrow> bytes" where
  "sfn_entry sfn_name attr clust raw =
     (let (date, time) = encode_timestamp;
          r1 = put_bytes raw 0 sfn_name;
          r2 = put_u16 r1 sfn_clust_hi (ucast (drop_bit 16 clust));
          r3 = put_u16 r2 sfn_clust_lo (ucast (clust AND 0xffff));
          r4 = r3[sfn_attr := attr, sfn_reserved := 0, sfn_tenth := 0];
          r5 = put_u16 r4 sfn_cre_time time;
          r6 = put_u16 r5 sfn_mod_time time;
          r7 = put_u16 r6 sfn_cre_date date;
          r8 = put_u16 r7 sfn_mod_date date;
          r9 = put_u16 r8 sfn_acc_date date
      in put_u32 r9 sfn_size 0)"

definition dir_add :: "'d env \<Rightarrow> bytes \<Rightarrow> nat \<Rightarrow> u8 \<Rightarrow> u32 \<Rightarrow> ('d, unit) dm" where
  "dir_add E name len attr clust =
     (if len = 0 \<or> len > 255 then ethrow FAT_ERR_PARAM
      else let lfns = (len + 12) div 13; sfn_name = put_sfn_name name len
      in ebind (on_dir (\<lambda>f d. dir_enter (d_sclust d) f d)) (\<lambda>_.
         ebind (dir_add_find E (fuel E) (lfns + 1) 0 False \<lparr>loc_sect = 0, loc_idx = 0\<rparr>) (\<lambda>(eod, loc).
         ebind (if eod then ebind (dir_load E) (\<lambda>_. dir_store (\<lambda>e. e[0 := 0])) else ereturn ()) (\<lambda>_.
         ebind (on_dir (\<lambda>f d. d\<lparr>d_clust := sect_to_clust f (loc_sect loc), d_sect := loc_sect loc, d_idx := loc_idx loc\<rparr>)) (\<lambda>_.
         ebind (dir_add_lfns E name len (get_crc sfn_name) LFN_HEAD_MSK lfns) (\<lambda>_.
         ebind (dir_load E) (\<lambda>_.
         dir_store (sfn_entry sfn_name attr clust))))))))"

section \<open>Listing\<close>

definition sfn_info :: "bytes \<Rightarrow> nat \<Rightarrow> 'd st \<Rightarrow> dirinfo" where
  "sfn_info b i s =
     \<lparr>di_created = decode_timestamp (get_u16 b (i + sfn_cre_date)) (get_u16 b (i + sfn_cre_time)),
      di_modified = decode_timestamp (get_u16 b (i + sfn_mod_date)) (get_u16 b (i + sfn_mod_time)),
      di_size = get_u32 b (i + sfn_size), di_attr = b ! (i + sfn_attr),
      di_name = take (unat (g_len s)) (g_buf s), di_name_len = ucast (g_len s)\<rparr>"

fun fat_dir_read_loop :: "'d env \<Rightarrow> nat \<Rightarrow> ('d, dirinfo) dm" where
  "fat_dir_read_loop E 0 = ethrow NO_RETURN"
| "fat_dir_read_loop E (Suc n) =
     ebind (dir_load E) (\<lambda>_ (d, s).
       let b = buf (fat s); i = dir_ptr d
       in if sfn_is_last b i then ethrow FAT_ERR_EOF (d, s)
          else if sfn_is_free b i then ebind (dir_next E) (\<lambda>_. fat_dir_read_loop E n) (d, s)
          else if sfn_is_lfn b i
          then ebind (parse_lfn_name E) (\<lambda>_.
               ebind (dir_load E) (\<lambda>_ (d, s).
                 let b = buf (fat s); i = dir_ptr d
                 in if sfn_is_free b i \<or> g_crc s \<noteq> get_crc (get_bytes b i 11) then ethrow FAT_ERR_BROKEN (d, s)
                    else ereturn (sfn_info b i s) (d, s))) (d, s)
          else ebind (on_fat (\<lambda>_. parse_sfn_name (get_bytes b i 11))) (\<lambda>_ (d, s).
                 ereturn (sfn_info b i s) (d, s)) (d, s))"

definition fat_dir_read :: "'d env \<Rightarrow> ('d, dirinfo) dm" where
  "fat_dir_read E = fat_dir_read_loop E (fuel E)"

definition fat_dir_next :: "'d env \<Rightarrow> ('d, unit) dm" where
  "fat_dir_next E = dir_next E"

definition fat_dir_rewind :: "('d, unit) dm" where
  "fat_dir_rewind = on_dir (\<lambda>f d. dir_at_clust (d_sclust d) f d)"

end
