(* ===== verification/FatFile.thy ===== *)
theory FatFile
  imports FatDir
begin

text \<open>
  Open files of \<^verbatim>\<open>src/kernel/src/fs/fat32.c\<close>: \<^verbatim>\<open>fat_file_seek\<close>, \<^verbatim>\<open>fat_file_read\<close>, \<^verbatim>\<open>fat_file_write\<close>,
  \<^verbatim>\<open>fat_file_sync\<close> and \<^verbatim>\<open>fat_file_close\<close>.  A file has a one-sector buffer of its own, which it moves
  along its cluster chain with direct disk transfers that bypass the buffer of the volume.
\<close>

section \<open>Files\<close>

definition FAT_ERR_NONE :: int where "FAT_ERR_NONE = 0"

definition FAT_WRITE :: u8 where "FAT_WRITE = 0x01"
definition FAT_READ :: u8 where "FAT_READ = 0x02"
definition FAT_APPEND :: u8 where "FAT_APPEND = 0x04"
definition FAT_TRUNC :: u8 where "FAT_TRUNC = 0x08"
definition FAT_CREATE :: u8 where "FAT_CREATE = 0x10"
definition FAT_ACCESSED :: u8 where "FAT_ACCESSED = 0x20"
definition FAT_MODIFIED :: u8 where "FAT_MODIFIED = 0x40"
definition FAT_FILE_DIRTY :: u8 where "FAT_FILE_DIRTY = 0x80"

definition FAT_SEEK_START :: int where "FAT_SEEK_START = 0"
definition FAT_SEEK_CURR :: int where "FAT_SEEK_CURR = 1"
definition FAT_SEEK_END :: int where "FAT_SEEK_END = 2"

text \<open>\<^verbatim>\<open>fl_fat\<close> names the volume, \<open>None\<close> the null pointer.\<close>

record fat_file =
  fl_fat :: "nat option"
  fl_dir_sect :: u32
  fl_sclust :: u32
  fl_clust :: u32
  fl_sect :: u32
  fl_size :: u32
  fl_offset :: u32
  fl_dir_idx :: u16
  fl_attr :: u8
  fl_flags :: u8
  fl_buf :: bytes

type_synonym ('d, 'a) lm = "(fat_file \<times> 'd st, 'a) cm"

section \<open>Seeking\<close>

text \<open>Follow the chain; when \<^verbatim>\<open>stretch_chain\<close> reports success without storing a cluster, \<^verbatim>\<open>next\<close> keeps the
  value \<^verbatim>\<open>get_fat\<close> gave it.\<close>

fun seek_loop :: "'d env \<Rightarrow> nat \<Rightarrow> ('d, unit) lm" where
  "seek_loop E 0 = ereturn ()"
| "seek_loop E (Suc n) =
     ebind (on_fat (\<lambda>fl. get_fat E (fl_clust fl))) (\<lambda>(next, flags).
       if flags AND (CLUST_BAD OR CLUST_FREE) \<noteq> 0 then ethrow FAT_ERR_BROKEN
       else ebind (if flags AND CLUST_LAST \<noteq> 0
                   then ebind (on_fat (\<lambda>fl. stretch_chain E (fl_clust fl))) (\<lambda>r.
                        ereturn (case r of None \<Rightarrow> next | Some c \<Rightarrow> c))
                   else ereturn next) (\<lambda>next.
            ebind (on_dir (\<lambda>_ fl. fl\<lparr>fl_clust := next\<rparr>)) (\<lambda>_.
            seek_loop E n)))"

text \<open>Write back a dirty buffer to the sector it came from, and load the one the file is at.\<close>

definition seek_buf :: "'d env \<Rightarrow> u32 \<Rightarrow> ('d, unit) lm" where
  "seek_buf E ssect =
     ebind (\<lambda>(fl, s).
       if fl_flags fl AND FAT_FILE_DIRTY \<noteq> 0
       then case op_write E (fl_buf fl) ssect (dev s) of (ok, d) \<Rightarrow>
              if \<not> ok then ethrow FAT_ERR_IO (fl, s\<lparr>dev := d\<rparr>)
              else ereturn () (fl\<lparr>fl_flags := fl_flags fl AND NOT FAT_FILE_DIRTY\<rparr>, s\<lparr>dev := d\<rparr>)
       else ereturn () (fl, s)) (\<lambda>_ (fl, s).
       case op_read E (fl_buf fl) (fl_sect fl) (dev s) of (ok, b, d) \<Rightarrow>
         if \<not> ok then ethrow FAT_ERR_IO (fl\<lparr>fl_buf := b\<rparr>, s\<lparr>dev := d\<rparr>)
         else ereturn () (fl\<lparr>fl_buf := b\<rparr>, s\<lparr>dev := d\<rparr>))"

definition fat_file_seek :: "'d env \<Rightarrow> u32 \<Rightarrow> int \<Rightarrow> ('d, unit) lm" where
  "fat_file_seek E offset seek = (\<lambda>(fl, s).
     let ssect = fl_sect fl
     in if fl_fat fl = None then ethrow FAT_ERR_PARAM (fl, s)
        else
          let base = (if seek = FAT_SEEK_CURR then uint (fl_offset fl)
                      else if seek = FAT_SEEK_END then uint (fl_size fl) else 0);
              off64 = base + sint offset
          in if off64 < 0 \<or> off64 > 0xffffffff then ethrow FAT_ERR_EOF (fl, s)
             else
               let off = word_of_int off64 :: u32;
                   clust_size = push_bit (unat (clust_shift (fat s))) 512 :: u32;
                   dst_clust = off div clust_size;
                   src_clust = fl_offset fl div clust_size;
                   (fl1, src) = (if dst_clust < src_clust
                     then (fl\<lparr>fl_clust := fl_sclust fl, fl_sect := clust_to_sect (fat s) (fl_sclust fl), fl_offset := 0\<rparr>, 0)
                     else (fl, src_clust))
               in ebind (seek_loop E (unat (dst_clust - src))) (\<lambda>_.
                  ebind (on_dir (\<lambda>f fl. fl\<lparr>fl_sect := clust_to_sect f (fl_clust fl) + ((off div 512) AND clust_msk f),
                                          fl_offset := off\<rparr>)) (\<lambda>_ (fl, s).
                    if fl_sect fl \<noteq> ssect then seek_buf E ssect (fl, s) else ereturn () (fl, s))) (fl1, s))"

section \<open>Reading and writing\<close>

text \<open>Both return the error code and the bytes moved, which the caller sees also on failure.\<close>

lemma read_progress:
  "0 < len \<Longrightarrow> off < sz \<Longrightarrow> len - min len (min (512 - x mod 512) (unat (sz - off))) < len" for off sz :: u32
proof -
  assume "0 < len" "off < sz"
  then have "0 < unat (sz - off)" by (auto simp: unat_gt_0)
  with \<open>0 < len\<close> show ?thesis by simp
qed

function read_loop :: "'d env \<Rightarrow> nat \<Rightarrow> bytes \<Rightarrow> fat_file \<times> 'd st \<Rightarrow> (int \<times> bytes) \<times> fat_file \<times> 'd st" where
  "read_loop E len dst (fl, s) =
     (if len = 0 \<or> fl_offset fl \<ge> fl_size fl then ((FAT_ERR_NONE, dst), fl, s)
      else let idx = unat (fl_offset fl) mod 512;
               cnt = min len (min (512 - idx) (unat (fl_size fl - fl_offset fl)));
               dst1 = dst @ get_bytes (fl_buf fl) idx cnt
           in case fat_file_seek E (of_nat cnt) FAT_SEEK_CURR (fl, s) of
                (Inl err, fl1, s1) \<Rightarrow> ((err, dst1), fl1, s1)
              | (Inr _, fl1, s1) \<Rightarrow> read_loop E (len - cnt) dst1 (fl1, s1))"
  by pat_completeness auto

termination
  by (relation "measure (\<lambda>(E, len, dst, x). len)") (auto simp: not_le intro!: read_progress)

definition fat_file_read :: "'d env \<Rightarrow> u32 \<Rightarrow> fat_file \<times> 'd st \<Rightarrow> (int \<times> bytes) \<times> fat_file \<times> 'd st" where
  "fat_file_read E len = (\<lambda>(fl, s).
     if fl_fat fl = None then ((FAT_ERR_PARAM, []), fl, s)
     else if fl_flags fl AND FAT_READ = 0 then ((FAT_ERR_DENIED, []), fl, s)
     else read_loop E (unat len) [] (fl\<lparr>fl_flags := fl_flags fl OR FAT_ACCESSED\<rparr>, s))"

text \<open>The loop of \<^verbatim>\<open>fat_file_write\<close> stops at the first failing seek; its result is the number of bytes
  taken from the source.\<close>

function write_loop :: "'d env \<Rightarrow> bytes \<Rightarrow> nat \<Rightarrow> fat_file \<times> 'd st \<Rightarrow> nat \<times> fat_file \<times> 'd st" where
  "write_loop E src moved (fl, s) =
     (if src = [] then (moved, fl, s)
      else let idx = unat (fl_offset fl) mod 512;
               cnt = min (length src) (512 - idx);
               fl1 = fl\<lparr>fl_buf := put_bytes (fl_buf fl) idx (take cnt src), fl_flags := fl_flags fl OR FAT_FILE_DIRTY\<rparr>
           in case fat_file_seek E (of_nat cnt) FAT_SEEK_CURR (fl1, s) of
                (Inl err, fl2, s2) \<Rightarrow> (moved + cnt, fl2, s2)
              | (Inr _, fl2, s2) \<Rightarrow> write_loop E (drop cnt src) (moved + cnt) (fl2, s2))"
  by pat_completeness auto

termination
  by (relation "measure (\<lambda>(E, src, moved, x). length src)") auto

text \<open>The error of the seek is assigned to a variable of the loop body, so the function always returns
  \<^verbatim>\<open>FAT_ERR_NONE\<close> once it writes.  The length is that of the source, a non-negative \<^verbatim>\<open>int\<close>.\<close>

definition fat_file_write :: "'d env \<Rightarrow> bytes \<Rightarrow> fat_file \<times> 'd st \<Rightarrow> (int \<times> nat) \<times> fat_file \<times> 'd st" where
  "fat_file_write E src = (\<lambda>(fl, s).
     if fl_fat fl = None then ((FAT_ERR_PARAM, 0), fl, s)
     else if fl_flags fl AND FAT_WRITE = 0 then ((FAT_ERR_DENIED, 0), fl, s)
     else case write_loop E src 0 (fl\<lparr>fl_flags := fl_flags fl OR (FAT_MODIFIED OR FAT_ACCESSED)\<rparr>, s) of
            (moved, fl1, s1) \<Rightarrow>
              ((FAT_ERR_NONE, moved), if fl_offset fl1 > fl_size fl1 then fl1\<lparr>fl_size := fl_offset fl1\<rparr> else fl1, s1))"

section \<open>Synchronising\<close>

definition sync_entry :: "fat_file \<Rightarrow> bytes \<Rightarrow> bytes" where
  "sync_entry fl b =
     (let (date, time) = encode_timestamp; i = unat (fl_dir_idx fl);
          b1 = (if fl_flags fl AND FAT_ACCESSED \<noteq> 0 then put_u16 b (i + sfn_acc_date) date else b)
      in if fl_flags fl AND FAT_MODIFIED \<noteq> 0
         then put_u16 (put_u16 (put_u32 (b1[i + sfn_attr := b1 ! (i + sfn_attr) OR FAT_ATTR_ARCHIVE])
                (i + sfn_size) (fl_size fl)) (i + sfn_mod_date) date) (i + sfn_mod_time) time
         else b1)"

definition fat_file_sync :: "'d env \<Rightarrow> ('d, unit) lm" where
  "fat_file_sync E = (\<lambda>(fl, s).
     if fl_fat fl = None then ethrow FAT_ERR_PARAM (fl, s)
     else case op_write E (fl_buf fl) (fl_sect fl) (dev s) of (ok, d) \<Rightarrow>
       if \<not> ok then ethrow FAT_ERR_IO (fl, s\<lparr>dev := d\<rparr>)
       else ebind (if fl_flags fl AND (FAT_ACCESSED OR FAT_MODIFIED) \<noteq> 0
                   then ebind (on_fat (\<lambda>fl. update_buf E (fl_dir_sect fl))) (\<lambda>_.
                        on_fat (\<lambda>fl. ebind (set_flag FAT_BUF_DIRTY) (\<lambda>_. set_buf (sync_entry fl))))
                   else ereturn ()) (\<lambda>_.
            ebind (on_fat (\<lambda>_. sync_fs E)) (\<lambda>_.
            on_dir (\<lambda>_ fl. fl\<lparr>fl_flags := fl_flags fl AND NOT (FAT_ACCESSED OR FAT_MODIFIED)\<rparr>))) (fl, s\<lparr>dev := d\<rparr>))"

definition fat_file_close :: "'d env \<Rightarrow> ('d, unit) lm" where
  "fat_file_close E = (\<lambda>(fl, s). if fl_fat fl = None then ethrow FAT_ERR_PARAM (fl, s) else fat_file_sync E (fl, s))"

end
