(* ===== verification/FatMount.thy ===== *)
theory FatMount
  imports FatFile
begin

text \<open>
  Probing, mounting and unmounting of \<^verbatim>\<open>src/kernel/src/fs/fat32.c\<close>: the partition table, the boot sector,
  the information sector, and the list of mounted volumes.  The state of the whole driver is the
  memory of its volumes, the list \<^verbatim>\<open>g_fat_list\<close>, the static work area and the device.
\<close>

section \<open>The state of the driver\<close>

record 'd drv =
  drv_mem :: "nat \<Rightarrow> fat"
  g_fat_list :: "nat list"
  drv_buf :: bytes
  drv_len :: u16
  drv_crc :: u8
  drv_dev :: 'd

text \<open>An operation on the volume at address \<open>i\<close>.\<close>

definition vol_st :: "nat \<Rightarrow> 'd drv \<Rightarrow> 'd st" where
  "vol_st i w = \<lparr>fat = drv_mem w i, g_buf = drv_buf w, g_len = drv_len w, g_crc = drv_crc w, dev = drv_dev w\<rparr>"

definition put_vol :: "nat \<Rightarrow> 'd st \<Rightarrow> 'd drv \<Rightarrow> 'd drv" where
  "put_vol i s w = w\<lparr>drv_mem := (drv_mem w)(i := fat s), drv_buf := g_buf s, drv_len := g_len s, drv_crc := g_crc s, drv_dev := dev s\<rparr>"

definition on_vol :: "nat \<Rightarrow> ('d st \<Rightarrow> 'r \<times> 'd st) \<Rightarrow> 'd drv \<Rightarrow> 'r \<times> 'd drv" where
  "on_vol i m w = (case m (vol_st i w) of (r, s) \<Rightarrow> (r, put_vol i s w))"

section \<open>Sectors of a partitioned disk\<close>

definition FSINFO_HEAD_SIG :: u32 where "FSINFO_HEAD_SIG = 0x41615252"
definition FSINFO_STRUCT_SIG :: u32 where "FSINFO_STRUCT_SIG = 0x61417272"
definition FSINFO_TAIL_SIG :: u32 where "FSINFO_TAIL_SIG = 0xaa550000"
definition EXT_FLAG_MIRROR :: u16 where "EXT_FLAG_MIRROR = 0x80"
definition EXT_FLAG_ACT :: u16 where "EXT_FLAG_ACT = 0x000f"
definition EXT_FLAG_SECOND :: u16 where "EXT_FLAG_SECOND = 0x0001"

definition mbr_part :: "nat \<Rightarrow> nat" where "mbr_part i = 446 + 16 * i"
definition part_type :: nat where "part_type = 4"
definition part_lba :: nat where "part_lba = 8"
definition mbr_sig :: nat where "mbr_sig = 510"

definition bpb_bytes_per_sect :: nat where "bpb_bytes_per_sect = 11"
definition bpb_sect_per_clust :: nat where "bpb_sect_per_clust = 13"
definition bpb_res_sect_cnt :: nat where "bpb_res_sect_cnt = 14"
definition bpb_fat_cnt :: nat where "bpb_fat_cnt = 16"
definition bpb_root_ent_cnt :: nat where "bpb_root_ent_cnt = 17"
definition bpb_sect_cnt_16 :: nat where "bpb_sect_cnt_16 = 19"
definition bpb_sect_per_fat_16 :: nat where "bpb_sect_per_fat_16 = 22"
definition bpb_sect_cnt_32 :: nat where "bpb_sect_cnt_32 = 32"
definition bpb_sect_per_fat_32 :: nat where "bpb_sect_per_fat_32 = 36"
definition bpb_ext_flags :: nat where "bpb_ext_flags = 40"
definition bpb_root_cluster :: nat where "bpb_root_cluster = 44"
definition bpb_info_sect :: nat where "bpb_info_sect = 48"
definition bpb_fs_type :: nat where "bpb_fs_type = 82"

lemmas bpb_defs = bpb_bytes_per_sect_def bpb_sect_per_clust_def bpb_res_sect_cnt_def bpb_fat_cnt_def
  bpb_root_ent_cnt_def bpb_sect_cnt_16_def bpb_sect_per_fat_16_def bpb_sect_cnt_32_def bpb_sect_per_fat_32_def
  bpb_ext_flags_def bpb_root_cluster_def bpb_info_sect_def bpb_fs_type_def

definition get_part_lba :: "bytes \<Rightarrow> nat \<Rightarrow> u32 option" where
  "get_part_lba b part =
     (if get_u16 b mbr_sig \<noteq> 0xaa55 then None
      else if b ! (mbr_part part + part_type) \<noteq> 0x0c then None
      else Some (get_u32 b (mbr_part part + part_lba)))"

text \<open>\<^verbatim>\<open>"FAT32   "\<close>\<close>

definition fat32_type :: bytes where
  "fat32_type = [0x46, 0x41, 0x54, 0x33, 0x32, 0x20, 0x20, 0x20]"

text \<open>The last test divides by \<^verbatim>\<open>sect_per_clust\<close>; \<open>None\<close> is the divide error of the processor.\<close>

definition check_fat :: "bytes \<Rightarrow> bool option" where
  "check_fat b =
     (if b ! 0 \<noteq> 0xeb \<and> b ! 0 \<noteq> 0xe9 then Some False
      else if b ! bpb_fat_cnt \<noteq> 2 then Some False
      else if get_u16 b bpb_root_ent_cnt \<noteq> 0 \<or> get_u16 b bpb_sect_cnt_16 \<noteq> 0 \<or> get_u16 b bpb_sect_per_fat_16 \<noteq> 0 then Some False
      else if get_u16 b bpb_info_sect \<noteq> 1 then Some False
      else if get_bytes b bpb_fs_type 8 \<noteq> fat32_type then Some False
      else if get_u16 b bpb_bytes_per_sect \<noteq> 512 then Some False
      else if get_u16 b bpb_ext_flags AND EXT_FLAG_MIRROR = 0 \<and> get_u16 b bpb_ext_flags AND EXT_FLAG_ACT > 1 then Some False
      else let sect_cnt = get_u32 b bpb_sect_cnt_32 -
                 (ucast (get_u16 b bpb_res_sect_cnt) + ucast (b ! bpb_fat_cnt) * get_u32 b bpb_sect_per_fat_32)
           in if b ! bpb_sect_per_clust = 0 then None
              else Some (sect_cnt div ucast (b ! bpb_sect_per_clust) \<ge> 65525))"

section \<open>Probing\<close>

text \<open>The outcome of a divide error, which is not a code of the driver.\<close>

definition DIVIDE_ERROR :: int where "DIVIDE_ERROR = 1001"

text \<open>Read a sector into \<^verbatim>\<open>g_buf\<close>.\<close>

definition probe_read :: "'d env \<Rightarrow> u32 \<Rightarrow> ('d drv, unit) cm" where
  "probe_read E lba w =
     (case op_read E (drv_buf w) lba (drv_dev w) of (ok, b, d) \<Rightarrow>
        let w1 = w\<lparr>drv_buf := b, drv_dev := d\<rparr>
        in if ok then ereturn () w1 else ethrow FAT_ERR_IO w1)"

definition probe_check :: "('d drv, bool) cm" where
  "probe_check w = (case check_fat (drv_buf w) of None \<Rightarrow> ethrow DIVIDE_ERROR w | Some r \<Rightarrow> ereturn r w)"

definition probe :: "'d env \<Rightarrow> nat \<Rightarrow> ('d drv, u32) cm" where
  "probe E part =
     ebind (probe_read E 0) (\<lambda>_.
     ebind probe_check (\<lambda>whole.
       if whole then (if part = 0 then ereturn 0 else ethrow FAT_ERR_NOFAT)
       else ebind (eget (\<lambda>w. get_part_lba (drv_buf w) part)) (\<lambda>r.
              case r of
                None \<Rightarrow> ethrow FAT_ERR_NOFAT
              | Some lba \<Rightarrow>
                  ebind (probe_read E lba) (\<lambda>_.
                  ebind probe_check (\<lambda>ok. if ok then ereturn lba else ethrow FAT_ERR_NOFAT)))))"

definition fat_probe :: "'d env \<Rightarrow> nat \<Rightarrow> ('d drv, unit) cm" where
  "fat_probe E part = ebind (probe E part) (\<lambda>_. ereturn ())"

section \<open>Mounting\<close>

text \<open>\<^verbatim>\<open>__builtin_ctz\<close> of a non-zero byte.\<close>

definition ctz8 :: "u8 \<Rightarrow> nat" where
  "ctz8 w = length (takeWhile (\<lambda>i. \<not> bit w i) [0..<8])"

text \<open>The fields of the volume that come from the boot sector.\<close>

definition mount_bpb :: "bytes \<Rightarrow> u32 \<Rightarrow> fat \<Rightarrow> fat" where
  "mount_bpb b lba f =
     (let mirror = (get_u16 b bpb_ext_flags AND EXT_FLAG_MIRROR \<noteq> 0);
          use_first = (get_u16 b bpb_ext_flags AND EXT_FLAG_SECOND = 0);
          res = ucast (get_u16 b bpb_res_sect_cnt);
          per_fat = get_u32 b bpb_sect_per_fat_32;
          fat_0 = lba + res;
          fat_1 = lba + res + per_fat
      in f\<lparr>clust_shift := of_nat (ctz8 (b ! bpb_sect_per_clust)),
           clust_msk := ucast (b ! bpb_sect_per_clust) - 1,
           clust_cnt := per_fat * 128,
           root_clust := get_u32 b bpb_root_cluster,
           fat_sect0 := (if use_first then fat_0 else fat_1),
           fat_sect1 := (if mirror then (if use_first then fat_1 else fat_0) else 0),
           info_sect := lba + ucast (get_u16 b bpb_info_sect),
           data_sect := lba + res + ucast (b ! bpb_fat_cnt) * per_fat\<rparr>)"

definition info_ok :: "bytes \<Rightarrow> bool" where
  "info_ok b \<longleftrightarrow> get_u32 b FsInfo_tail_sig = FSINFO_TAIL_SIG \<and> get_u32 b FsInfo_head_sig = FSINFO_HEAD_SIG \<and>
     get_u32 b FsInfo_struct_sig = FSINFO_STRUCT_SIG \<and> get_u32 b FsInfo_next_free \<noteq> 0xffffffff \<and>
     get_u32 b FsInfo_free_cnt \<noteq> 0xffffffff"

definition upd_vol :: "nat \<Rightarrow> (fat \<Rightarrow> fat) \<Rightarrow> 'd drv \<Rightarrow> 'd drv" where
  "upd_vol i g w = w\<lparr>drv_mem := (drv_mem w)(i := g (drv_mem w i))\<rparr>"

definition fat_mount :: "'d env \<Rightarrow> nat \<Rightarrow> nat \<Rightarrow> bytes \<Rightarrow> ('d drv, unit) cm" where
  "fat_mount E part i name =
     ebind (probe E part) (\<lambda>lba.
     ebind (emodify (\<lambda>w. upd_vol i (mount_bpb (drv_buf w) lba) w)) (\<lambda>_.
     ebind (eget (\<lambda>w. info_sect (drv_mem w i))) (\<lambda>sect.
     ebind (probe_read E sect) (\<lambda>_.
     ebind (eget (\<lambda>w. info_ok (drv_buf w))) (\<lambda>ok.
       if \<not> ok then ethrow FAT_ERR_NOFAT
       else ebind (emodify (\<lambda>w. upd_vol i (\<lambda>f. f\<lparr>last_used := get_u32 (drv_buf w) FsInfo_next_free,
                                                  free_cnt := get_u32 (drv_buf w) FsInfo_free_cnt\<rparr>) w)) (\<lambda>_.
            if length name > 32 then ethrow FAT_ERR_PARAM
            else emodify (\<lambda>w. (upd_vol i (\<lambda>f. f\<lparr>fat_name := put_bytes (fat_name f) 0 name, fat_name_len := of_nat (length name),
                                                  fsect := 0\<rparr>) w)\<lparr>g_fat_list := i # g_fat_list w\<rparr>)))))))"

definition fat_umount :: "'d env \<Rightarrow> nat \<Rightarrow> ('d drv, unit) cm" where
  "fat_umount E i w =
     (if i \<notin> set (g_fat_list w) then ethrow FAT_ERR_PARAM w
      else on_vol i (sync_fs E) (w\<lparr>g_fat_list := remove1 i (g_fat_list w)\<rparr>))"

definition fat_sync :: "'d env \<Rightarrow> nat \<Rightarrow> ('d drv, unit) cm" where
  "fat_sync E i = on_vol i (sync_fs E)"

definition find_fat_volume :: "'d drv \<Rightarrow> bytes \<Rightarrow> nat \<Rightarrow> nat option" where
  "find_fat_volume w name len =
     List.find (\<lambda>i. len = unat (fat_name_len (drv_mem w i)) \<and> name_eq name (fat_name (drv_mem w i)) len) (g_fat_list w)"

definition fat_errors :: "string list" where
  "fat_errors = [''FAT_ERR_NONE'', ''FAT_ERR_NOFAT'', ''FAT_ERR_BROKEN'', ''FAT_ERR_IO'', ''FAT_ERR_PARAM'', ''FAT_ERR_PATH'',
     ''FAT_ERR_EOF'', ''FAT_ERR_DENIED'', ''FAT_ERR_FULL'']"

definition fat_get_error :: "int \<Rightarrow> string" where
  "fat_get_error err =
     (if - err < 0 \<or> - err \<ge> int (length fat_errors) then ''null'' else fat_errors ! nat (- err))"

end
