(* ===== verification/FatApi.thy ===== *)
theory FatApi
  imports FatMount
begin

text \<open>
  The calls of \<^verbatim>\<open>src/kernel/src/fs/fat32.c\<close> that take a path: \<^verbatim>\<open>follow_path\<close> and the operations on top of it,
  \<^verbatim>\<open>fat_stat\<close>, \<^verbatim>\<open>fat_unlink\<close>, \<^verbatim>\<open>fat_file_open\<close>, \<^verbatim>\<open>fat_dir_create\<close> and \<^verbatim>\<open>fat_dir_open\<close>.  A directory handle is
  the volume it points to, if any, and the cursor.  A path is the bytes up to its terminating 0.
\<close>

section \<open>Paths\<close>

text \<open>The loop of \<^verbatim>\<open>follow_path\<close> on the volume: the code it returns, where the path pointer is left, and the
  location of the last entry found.\<close>

lemma length_skip_slashes: "length (skip_slashes str) \<le> length str"
  by (induction str) auto

lemma follow_progress:
  "subpath_len (skip_slashes str) \<noteq> 0 \<Longrightarrow> length (skip_slashes str) - subpath_len (skip_slashes str) < length str"
  using length_skip_slashes [of str] subpath_len_le [of "skip_slashes str"] by linarith

function follow_loop :: "'d env \<Rightarrow> bytes \<Rightarrow> u32 \<Rightarrow> bool \<Rightarrow> loc option \<Rightarrow> dir \<times> 'd st \<Rightarrow> (int \<times> bytes \<times> loc option) \<times> dir \<times> 'd st" where
  "follow_loop E str dir_clust dir_enterable loc (d, s) =
     (let str1 = skip_slashes str; len = subpath_len str1
      in if len = 0 then ((FAT_ERR_NONE, str1, loc), d, s)
         else if \<not> dir_enterable then ((FAT_ERR_PATH, str1, loc), d, s)
         else case dir_search E str1 len (dir_enter dir_clust (fat s) d, s) of
                (Inl err, d1, s1) \<Rightarrow> ((err, str1, loc), d1, s1)
              | (Inr loc1, d1, s1) \<Rightarrow>
                  follow_loop E (drop len str1) (sfn_cluster (buf (fat s1)) (dir_ptr d1))
                    (buf (fat s1) ! (dir_ptr d1 + sfn_attr) AND FAT_ATTR_DIR \<noteq> 0) (Some loc1) (d1, s1))"
  by pat_completeness auto

termination
  by (relation "measure (\<lambda>(E, str, x). length str)") (auto intro: follow_progress)

record followed =
  fw_err :: int
  fw_path :: bytes
  fw_loc :: "loc option"
  fw_fat :: "nat option"
  fw_dir :: dir

definition follow_path :: "'d env \<Rightarrow> bytes \<Rightarrow> nat option \<Rightarrow> dir \<Rightarrow> 'd drv \<Rightarrow> followed \<times> 'd drv" where
  "follow_path E path v d w =
     (let str = drop 1 path; len = subpath_len str
      in if at_nul path \<or> hd path \<noteq> 0x2f then (\<lparr>fw_err = FAT_ERR_PATH, fw_path = path, fw_loc = None, fw_fat = v, fw_dir = d\<rparr>, w)
         else if len = 0 then (\<lparr>fw_err = FAT_ERR_PATH, fw_path = path, fw_loc = None, fw_fat = v, fw_dir = d\<rparr>, w)
         else case find_fat_volume w str len of
                None \<Rightarrow> (\<lparr>fw_err = FAT_ERR_PATH, fw_path = path, fw_loc = None, fw_fat = None, fw_dir = d\<rparr>, w)
              | Some i \<Rightarrow>
                  let f = drv_mem w i; d1 = dir_enter (root_clust f) f d
                  in on_vol i (\<lambda>s. case follow_loop E (drop len str) (d_clust d1) True None (d1, s) of
                       ((err, path1, loc), d2, s1) \<Rightarrow>
                         (\<lparr>fw_err = err, fw_path = path1, fw_loc = loc, fw_fat = Some i, fw_dir = d2\<rparr>, s1)) w)"

text \<open>Run an operation of the volume layer on the cursor that a path led to.\<close>

definition on_dirh :: "nat \<Rightarrow> dir \<Rightarrow> ('d, 'a) dm \<Rightarrow> 'd drv \<Rightarrow> ((int + 'a) \<times> dir) \<times> 'd drv" where
  "on_dirh i d m = on_vol i (\<lambda>s. case m (d, s) of (r, d1, s1) \<Rightarrow> ((r, d1), s1))"

section \<open>Information\<close>

text \<open>For the root directory no entry is found and the location is what the stack holds.\<close>

definition fat_stat :: "'d env \<Rightarrow> bytes \<Rightarrow> dir \<Rightarrow> 'd drv \<Rightarrow> (int + dirinfo) \<times> 'd drv" where
  "fat_stat E path d0 w =
     (case follow_path E path None d0 w of (fw, w1) \<Rightarrow>
        if fw_err fw \<noteq> FAT_ERR_NONE then (Inl (fw_err fw), w1)
        else if subpath_len (fw_path fw) \<noteq> 0 then (Inl FAT_ERR_PATH, w1)
        else case fw_fat fw of
               None \<Rightarrow> (Inl FAT_ERR_PARAM, w1)
             | Some i \<Rightarrow>
                 let (sect, idx) = (case fw_loc fw of None \<Rightarrow> (stack_sect (stk E), stack_idx (stk E))
                                    | Some loc \<Rightarrow> (loc_sect loc, loc_idx loc));
                     d = (fw_dir fw)\<lparr>d_clust := sect_to_clust (drv_mem w1 i) sect, d_sect := sect, d_idx := idx\<rparr>
                 in case on_dirh i d (fat_dir_read E) w1 of ((r, _), w2) \<Rightarrow> (r, w2))"

section \<open>Unlinking\<close>

text \<open>The test that a directory has no entries but deleted ones.\<close>

fun dir_is_empty :: "'d env \<Rightarrow> nat \<Rightarrow> ('d, unit) dm" where
  "dir_is_empty E 0 = ethrow NO_RETURN"
| "dir_is_empty E (Suc n) =
     ebind (dir_load E) (\<lambda>_ (d, s).
       let b = buf (fat s); i = dir_ptr d
       in if sfn_is_last b i then ereturn () (d, s)
          else if \<not> sfn_is_free b i then ethrow FAT_ERR_DENIED (d, s)
          else ebind (dir_next E) (\<lambda>_. dir_is_empty E n) (d, s))"

definition unlink_check_dir :: "'d env \<Rightarrow> u32 \<Rightarrow> ('d, unit) dm" where
  "unlink_check_dir E clust = (\<lambda>(d, s).
     case ebind (on_dir (dir_enter clust)) (\<lambda>_. ebind (dir_advance E 2) (\<lambda>_. dir_is_empty E (fuel E))) (d, s) of
       (r, _, s1) \<Rightarrow> (r, d, s1))"

definition unlink_entry :: "'d env \<Rightarrow> loc \<Rightarrow> ('d, unit) dm" where
  "unlink_entry E loc = (\<lambda>(d, s).
     let b = buf (fat s); i = dir_ptr d; clust = sfn_cluster b i; attr = b ! (i + sfn_attr)
     in if attr AND (FAT_ATTR_RO OR FAT_ATTR_SYS OR FAT_ATTR_LABEL) \<noteq> 0 then ethrow FAT_ERR_DENIED (d, s)
        else ebind (if attr AND FAT_ATTR_DIR \<noteq> 0 then unlink_check_dir E clust else ereturn ()) (\<lambda>_.
             ebind (on_fat (\<lambda>_. remove_chain E clust)) (\<lambda>_.
             ebind (remove_entries E loc) (\<lambda>_.
             on_fat (\<lambda>_. sync_fs E)))) (d, s))"

definition fat_unlink :: "'d env \<Rightarrow> bytes \<Rightarrow> dir \<Rightarrow> 'd drv \<Rightarrow> (int + unit) \<times> 'd drv" where
  "fat_unlink E path d0 w =
     (case follow_path E path None d0 w of (fw, w1) \<Rightarrow>
        if fw_err fw \<noteq> FAT_ERR_NONE then (Inl (fw_err fw), w1)
        else case fw_fat fw of
               None \<Rightarrow> (Inl FAT_ERR_PARAM, w1)
             | Some i \<Rightarrow>
                 if dir_at_root (drv_mem w1 i) (fw_dir fw) then (Inl FAT_ERR_DENIED, w1)
                 else let loc = (case fw_loc fw of None \<Rightarrow> \<lparr>loc_sect = stack_sect (stk E), loc_idx = stack_idx (stk E)\<rparr>
                                 | Some loc \<Rightarrow> loc)
                      in case on_dirh i (fw_dir fw) (unlink_entry E loc) w1 of ((r, _), w2) \<Rightarrow> (r, w2))"

section \<open>Opening files\<close>

definition open_create :: "'d env \<Rightarrow> bytes \<Rightarrow> nat \<Rightarrow> ('d, unit) dm" where
  "open_create E path len =
     ebind (on_fat (\<lambda>_. create_chain E)) (\<lambda>r.
     dir_add E path len FAT_ATTR_ARCHIVE (out_clust E r))"

definition open_file :: "nat \<Rightarrow> bytes \<Rightarrow> dir \<Rightarrow> u8 \<Rightarrow> fat_file \<Rightarrow> fat_file" where
  "open_file v b d flags fl =
     (let i = dir_ptr d;
          fl1 = fl\<lparr>fl_fat := Some v, fl_dir_sect := d_sect d, fl_dir_idx := d_idx d, fl_sclust := sfn_cluster b i,
                   fl_clust := sfn_cluster b i, fl_sect := 0xffffffff, fl_offset := 0, fl_attr := b ! (i + sfn_attr),
                   fl_size := get_u32 b (i + sfn_size), fl_flags := flags\<rparr>
      in if fl_size fl1 \<noteq> 0 \<and> flags AND FAT_TRUNC \<noteq> 0
         then fl1\<lparr>fl_size := 0, fl_flags := fl_flags fl1 OR FAT_MODIFIED\<rparr> else fl1)"

definition open_seek :: "'d env \<Rightarrow> u8 \<Rightarrow> ('d, unit) lm" where
  "open_seek E flags = fat_file_seek E 0 (if flags AND FAT_APPEND \<noteq> 0 then FAT_SEEK_END else FAT_SEEK_START)"

definition fat_file_open :: "'d env \<Rightarrow> bytes \<Rightarrow> u8 \<Rightarrow> dir \<Rightarrow> fat_file \<Rightarrow> 'd drv \<Rightarrow> ((int + unit) \<times> fat_file) \<times> 'd drv" where
  "fat_file_open E path flags d0 fl w =
     (case follow_path E path None d0 w of (fw, w1) \<Rightarrow>
        if fw_err fw \<noteq> FAT_ERR_NONE \<and> fw_err fw \<noteq> FAT_ERR_EOF then ((Inl (fw_err fw), fl), w1)
        else case fw_fat fw of
               None \<Rightarrow> ((Inl FAT_ERR_PARAM, fl), w1)
             | Some v \<Rightarrow>
                 let found = (\<lambda>d w. on_vol v (\<lambda>s. case open_seek E flags (open_file v (buf (fat s)) d flags fl, s) of
                                (r, fl1, s1) \<Rightarrow> ((r, fl1), s1)) w)
                 in if fw_err fw = FAT_ERR_EOF
                    then if flags AND FAT_CREATE = 0 then ((Inl FAT_ERR_DENIED, fl), w1)
                         else let len = last_subpath_len (fw_path fw)
                              in if len = 0 then ((Inl FAT_ERR_PATH, fl), w1)
                                 else case on_dirh v (fw_dir fw) (open_create E (fw_path fw) len) w1 of
                                        ((Inl err, _), w2) \<Rightarrow> ((Inl err, fl), w2)
                                      | ((Inr _, d), w2) \<Rightarrow> found d w2
                    else found (fw_dir fw) w1)"

section \<open>Creating and opening directories\<close>

text \<open>The two entries \<^verbatim>\<open>.\<close> and \<^verbatim>\<open>..\<close> at the start of the sector in the buffer.\<close>

definition dot_entries :: "u32 \<Rightarrow> u32 \<Rightarrow> bytes \<Rightarrow> bytes" where
  "dot_entries clust parent b =
     (let (date, time) = encode_timestamp;
          b1 = put_bytes b 0 (0x2e # replicate 10 0x20);
          b2 = b1[sfn_attr := FAT_ATTR_DIR];
          b3 = put_u16 b2 sfn_clust_hi (ucast (drop_bit 16 clust));
          b4 = put_u16 b3 sfn_clust_lo (ucast (clust AND 0xffff));
          b5 = put_u16 b4 sfn_cre_date date;
          b6 = put_u16 b5 sfn_cre_time time;
          b7 = put_u16 b6 sfn_mod_date date;
          b8 = put_u16 b7 sfn_mod_time time;
          b9 = put_u16 b8 sfn_acc_date date;
          c0 = put_bytes b9 32 (get_bytes b9 0 32);
          c1 = c0[33 := 0x2e];
          c2 = put_u16 c1 (32 + sfn_clust_hi) (ucast (drop_bit 16 parent))
      in put_u16 c2 (32 + sfn_clust_lo) (ucast (parent AND 0xffff)))"

definition create_dir :: "'d env \<Rightarrow> bytes \<Rightarrow> nat \<Rightarrow> ('d, unit) dm" where
  "create_dir E path len =
     ebind (on_fat (\<lambda>_. create_chain E)) (\<lambda>r.
       let clust = out_clust E r
       in ebind (on_fat (\<lambda>_. clust_clear E clust)) (\<lambda>_.
          ebind (on_fat (\<lambda>_ s. update_buf E (clust_to_sect (fat s) clust) s)) (\<lambda>_.
          ebind (on_fat (\<lambda>d. ebind (set_flag FAT_BUF_DIRTY) (\<lambda>_.
                   emodify (upd_fat (\<lambda>f. f\<lparr>buf := dot_entries clust (if d_sclust d = root_clust f then 0 else d_sclust d) (buf f)\<rparr>))))) (\<lambda>_.
          ebind (dir_add E path len FAT_ATTR_DIR clust) (\<lambda>_.
          ebind (on_dir (dir_enter clust)) (\<lambda>_.
          on_fat (\<lambda>_. sync_fs E)))))))"

definition fat_dir_create :: "'d env \<Rightarrow> bytes \<Rightarrow> nat option \<times> dir \<Rightarrow> 'd drv \<Rightarrow> ((int + unit) \<times> nat option \<times> dir) \<times> 'd drv" where
  "fat_dir_create E path = (\<lambda>(v, d) w.
     case follow_path E path v d w of (fw, w1) \<Rightarrow>
       if fw_err fw = FAT_ERR_NONE then ((Inr (), fw_fat fw, fw_dir fw), w1)
       else if fw_err fw \<noteq> FAT_ERR_EOF then ((Inl (fw_err fw), fw_fat fw, fw_dir fw), w1)
       else let len = last_subpath_len (fw_path fw)
            in if len = 0 then ((Inl FAT_ERR_PATH, fw_fat fw, fw_dir fw), w1)
               else case fw_fat fw of
                      None \<Rightarrow> ((Inl FAT_ERR_PARAM, None, fw_dir fw), w1)
                    | Some i \<Rightarrow> (case on_dirh i (fw_dir fw) (create_dir E (fw_path fw) len) w1 of
                                  ((r, d1), w2) \<Rightarrow> ((r, Some i, d1), w2)))"

definition open_dir :: "'d env \<Rightarrow> ('d, unit) dm" where
  "open_dir E = (\<lambda>(d, s).
     if dir_at_root (fat s) d then ereturn () (d, s)
     else ebind (dir_load E) (\<lambda>_ (d, s).
            let b = buf (fat s); i = dir_ptr d
            in if b ! (i + sfn_attr) AND FAT_ATTR_DIR = 0 then ethrow FAT_ERR_PATH (d, s)
               else on_dir (dir_enter (sfn_cluster b i)) (d, s)) (d, s))"

definition fat_dir_open :: "'d env \<Rightarrow> bytes \<Rightarrow> nat option \<times> dir \<Rightarrow> 'd drv \<Rightarrow> ((int + unit) \<times> nat option \<times> dir) \<times> 'd drv" where
  "fat_dir_open E path = (\<lambda>(v, d) w.
     case follow_path E path v d w of (fw, w1) \<Rightarrow>
       if fw_err fw \<noteq> FAT_ERR_NONE then ((Inl (fw_err fw), fw_fat fw, fw_dir fw), w1)
       else case fw_fat fw of
              None \<Rightarrow> ((Inl FAT_ERR_PARAM, None, fw_dir fw), w1)
            | Some i \<Rightarrow> (case on_dirh i (fw_dir fw) (open_dir E) w1 of ((r, d1), w2) \<Rightarrow> ((r, Some i, d1), w2)))"

end
