(* ===== verification/FatTheorems.thy ===== *)
theory FatTheorems
  imports FatChain
begin

text \<open>
  The properties of the FAT32 allocation layer on the ATA driver, from the simulation lemmas of
  the theories below, and a small volume on which each of them is instantiated: sector 1 is the
  information sector, sectors 8 and 9 the two tables of 128 entries, and the clusters are single
  sectors from sector 16 on.  The clusters 3, 5, 6 form one chain, cluster 2 another.
\<close>

section \<open>A volume\<close>

definition demo_entry :: "u32 \<Rightarrow> u32" where
  "demo_entry c = (if c = 0 then 0x0ffffff8 else if c = 1 \<or> c = 2 \<or> c = 6 then 0x0fffffff
     else if c = 3 then 5 else if c = 5 then 6 else 0)"

definition demo_ata :: ata_device where
  "demo_ata = \<lparr>ata_io = 0x1f0, ata_ctrl = 0x3f6, ata_slave = 0\<rparr>"

text \<open>A channel whose first device has the given sectors and whose second one is empty.\<close>

definition demo_channel :: "(u32 \<Rightarrow> nat \<Rightarrow> u8) \<Rightarrow> channel" where
  "demo_channel m = \<lparr>regs = (\<lambda>_. 0), media = (\<lambda>dv. if dv then (\<lambda>_ _. 0) else m), xfer = Idle, busy = 3, phase = 0,
     latency = (\<lambda>k. k mod 7)\<rparr>"

lemma demo_channel_sector: "sector_bytes demo_ata (demo_channel m) n = map (m n) [0..<512]"
  by (simp add: sector_bytes_def demo_channel_def demo_ata_def ata_unit_def)

definition demo_drive :: channel where
  "demo_drive = demo_channel
     (\<lambda>n i. if n = 8 \<or> n = 9 then ucast (drop_bit (8 * (i mod 4)) (demo_entry (of_nat (i div 4)))) else 0)"

lemma demo_sector: "sector_bytes demo_ata demo_drive n =
  map (\<lambda>i. if n = 8 \<or> n = 9 then ucast (drop_bit (8 * (i mod 4)) (demo_entry (of_nat (i div 4)))) else 0) [0..<512]"
  unfolding demo_drive_def by (rule demo_channel_sector)

definition demo_fat :: fat where
  "demo_fat = \<lparr>clust_msk = 0, clust_cnt = 128, info_sect = 1, fat_sect0 = 8, fat_sect1 = 9, data_sect = 16,
     root_clust = 2, last_used = 6, free_cnt = 122, fsect = 0, buf = [], fflags = 0, clust_shift = 0,
     fat_name_len = 0, fat_name = []\<rparr>"

definition demo_st :: "channel st" where
  "demo_st = \<lparr>fat = demo_fat\<lparr>buf := replicate 512 0\<rparr>, g_buf = [], g_len = 0, g_crc = 0, dev = demo_drive\<rparr>"

definition demo_vol :: "u32 \<Rightarrow> bytes" where
  "demo_vol n = (if lba28 n then sector_bytes demo_ata demo_drive n else [])"

definition demo_stack :: stack where
  "demo_stack = \<lparr>stack_flags = 0, stack_clust = 0, stack_sect = 0, stack_idx = 0\<rparr>"

lemma demo_at: "at (sector_bytes demo_ata) lba28 demo_st demo_vol demo_fat ([], 0, 0)"
proof -
  have z: "sector_bytes demo_ata demo_drive 0 = replicate 512 0"
    by (auto intro!: nth_equalityI simp: demo_sector)
  then have "vol (sector_bytes demo_ata) lba28 demo_st = demo_vol"
    by (auto simp: vol_def view_def demo_st_def demo_fat_def demo_vol_def fun_eq_iff)
  then show ?thesis using z
    by (simp add: at_def coherent_def demo_st_def demo_fat_def fat_core_def lba28_def dirty_def)
qed

lemma word32_of_bytes:
  "ucast (ucast w :: u8) OR push_bit 8 (ucast (ucast (drop_bit 8 w) :: u8))
     OR push_bit 16 (ucast (ucast (drop_bit 16 w) :: u8)) OR push_bit 24 (ucast (ucast (drop_bit 24 w) :: u8)) = w" (is "?l = w")
  for w :: u32
proof (rule bit_word_eqI)
  fix n assume "n < LENGTH(32)"
  then have "n < 32" by simp
  then show "bit ?l n = bit w n" by (cases rule: less_32_cases) (auto simp: bit_simps)
qed

lemma demo_tab:
  assumes "c < 128" and b: "base = 8 \<or> base = 9"
  shows "ftab demo_vol base c = demo_entry c"
proof -
  have c: "unat c < 128" using assms by (simp add: word_less_nat_alt)
  have "unat (c div 128) = 0" using c by (simp add: unat_div)
  then have d: "c div 128 = 0" by (simp add: unat_eq_0)
  have "unat (c mod 128) = unat c" using c by (simp add: unat_mod)
  then have o: "entry_off c = 4 * unat c" by (simp add: entry_off_def)
  have n: "demo_vol base ! (4 * unat c + k) = ucast (drop_bit (8 * k) (demo_entry c))" if "k < 4" for k
    using b c that by (auto simp: demo_vol_def lba28_def demo_sector)
  have "get_u32 (demo_vol base) (4 * unat c) = demo_entry c"
    using n [of 0] n [of 1] n [of 2] n [of 3] word32_of_bytes [of "demo_entry c"] by (simp add: get_u32_def)
  moreover have "demo_entry c AND 0x0fffffff = demo_entry c" by (simp add: demo_entry_def)
  ultimately show ?thesis by (simp add: ftab_def raw_entry_def d o)
qed

lemma demo_geom: "fat_geom lba28 demo_fat"
proof -
  have "c div 128 = 0" if "c < 128" for c :: u32
  proof -
    have "unat (c div 128) = 0" using that by (simp add: unat_div word_less_nat_alt)
    then show ?thesis by (simp add: unat_eq_0)
  qed
  then show ?thesis by (auto simp: fat_geom_def demo_fat_def lba28_def)
qed

lemma demo_chain: "is_chain (clust_cnt demo_fat) (ftab demo_vol (fat_sect0 demo_fat)) 3 [3, 5, 6]"
  by (simp add: demo_fat_def demo_tab demo_entry_def)

lemma demo_ok: "tab_ok demo_fat demo_vol"
  by (simp add: tab_ok_def demo_fat_def demo_tab demo_entry_def clust_class_def)

section \<open>Properties\<close>

lemma info_clear: "fat_core f = h\<lparr>fflags := x AND NOT FAT_INFO_DIRTY\<rparr> \<Longrightarrow> fflags f AND FAT_INFO_DIRTY = 0"
proof -
  assume "fat_core f = h\<lparr>fflags := x AND NOT FAT_INFO_DIRTY\<rparr>"
  from arg_cong [OF this, of fflags] have "fflags f AND NOT FAT_BUF_DIRTY = x AND NOT FAT_INFO_DIRTY" by (simp add: fat_core_def)
  then have "fflags f AND NOT FAT_BUF_DIRTY AND FAT_INFO_DIRTY = 0" by (simp add: flip: and.assoc) (simp add: and.assoc)
  then show ?thesis by (simp add: FAT_BUF_DIRTY_def FAT_INFO_DIRTY_def)
qed



text \<open>C24: The sector buffer is transparent: loading a sector never changes the volume the driver sees,
  and what is then in the buffer is that sector's contents, stored data that has not reached the
  disk yet included.\<close>

theorem update_buf_transparent:
  assumes "at (sector_bytes a) lba28 s V f g" and "lba28 n"
  shows "\<exists>s'. update_buf (ata_env a sk fu) n s = (Inr (), s') \<and> at (sector_bytes a) lba28 s' V f g \<and>
     fsect (fat s') = n \<and> buf (fat s') = V n"
proof -
  have co: "coherent (sector_bytes a) lba28 s" and V: "vol (sector_bytes a) lba28 s = V" using assms(1) by (auto simp: at_def)
  from ata.update_buf_vol [OF co assms(2), of sk fu] obtain s' where
    "update_buf (ata_env a sk fu) n s = (Inr (), s')" "vol_step (sector_bytes a) lba28 s V s'"
    "fsect (fat s') = n" "buf (fat s') = V n" using V by auto
  with at_step [OF assms(1)] show ?thesis by blast
qed

theorem update_buf_transparent_witness:
  "\<exists>s'. update_buf (ata_env demo_ata demo_stack 1) 8 demo_st = (Inr (), s') \<and> buf (fat s') = sector_bytes demo_ata demo_drive 8"
  using update_buf_transparent [OF demo_at, of 8 demo_stack 1] by (auto simp: demo_vol_def lba28_def)

text \<open>C25: \<^verbatim>\<open>sync_fs\<close> makes everything durable: afterwards every sector on the disk is what the volume showed before, whatever
  was pending in the buffer, except that the information sector has the allocation counters if they were marked as
  changed; and neither the buffer nor the counters are marked any more.\<close>

theorem sync_fs_durable:
  assumes "at (sector_bytes a) lba28 s V f g" and "lba28 (info_sect f)"
  shows "\<exists>s'. sync_fs (ata_env a sk fu) s = (Inr (), s') \<and> \<not> dirty s' \<and> fflags (fat s') AND FAT_INFO_DIRTY = 0 \<and>
     (\<forall>m. lba28 m \<longrightarrow> sector_bytes a (dev s') m =
        (if fflags f AND FAT_INFO_DIRTY \<noteq> 0 \<and> m = info_sect f
         then put_u32 (put_u32 (V m) FsInfo_next_free (last_used f)) FsInfo_free_cnt (free_cnt f) else V m))"
proof -
  have co: "coherent (sector_bytes a) lba28 s" and V: "V = vol (sector_bytes a) lba28 s" and f: "fat_core (fat s) = f"
    using assms(1) by (auto simp: at_def)
  note fs = at_fields(3,8,9) [OF assms(1)]
  have fl: "fflags f AND FAT_INFO_DIRTY = fflags (fat s) AND FAT_INFO_DIRTY"
    unfolding f [symmetric] by (simp add: fat_core_def and.assoc FAT_BUF_DIRTY_def FAT_INFO_DIRTY_def)
  have i: "lba28 (info_sect (fat s))" using assms(2) fs(1) by simp
  from ata.sync_fs_ok [OF co i, of sk fu] obtain s' where s': "sync_fs (ata_env a sk fu) s = (Inr (), s')" "\<not> dirty s'"
    "fat_core (fat s') = (fat_core (fat s))\<lparr>fflags := fflags (fat s) AND NOT FAT_BUF_DIRTY AND NOT FAT_INFO_DIRTY\<rparr>"
    "\<forall>m. lba28 m \<longrightarrow> sector_bytes a (dev s') m = (if fflags (fat s) AND FAT_INFO_DIRTY \<noteq> 0 \<and> m = info_sect (fat s)
        then info_update (fat s) (view (sector_bytes a) s m) else view (sector_bytes a) s m)" by blast
  have "fflags (fat s') AND FAT_INFO_DIRTY = 0" by (rule info_clear [OF s'(3) [folded and.assoc]])
  then show ?thesis using s'(1,2,4) fs by (auto simp: fl V vol_def info_update_def)
qed

theorem sync_fs_durable_witness:
  "\<exists>s'. sync_fs (ata_env demo_ata demo_stack 1) (upd_fat (\<lambda>f. f\<lparr>fflags := fflags f OR FAT_INFO_DIRTY\<rparr>) demo_st) = (Inr (), s') \<and>
     get_u32 (sector_bytes demo_ata (dev s') 1) FsInfo_free_cnt = 122 \<and>
     sector_bytes demo_ata (dev s') 8 = sector_bytes demo_ata demo_drive 8"
proof -
  obtain s' where s':
    "sync_fs (ata_env demo_ata demo_stack 1) (upd_fat (\<lambda>f. f\<lparr>fflags := fflags f OR FAT_INFO_DIRTY\<rparr>) demo_st) = (Inr (), s')"
    "\<forall>m. lba28 m \<longrightarrow> sector_bytes demo_ata (dev s') m = (if m = 1
        then put_u32 (put_u32 (demo_vol m) FsInfo_next_free 6) FsInfo_free_cnt 122 else demo_vol m)"
    using sync_fs_durable [OF at_info_dirty [OF demo_at], of demo_stack 1] by (auto simp: demo_fat_def FAT_INFO_DIRTY_def lba28_def)
  have "length (demo_vol 1) = 512" by (simp add: demo_vol_def lba28_def demo_sector)
  then have "get_u32 (sector_bytes demo_ata (dev s') 1) FsInfo_free_cnt = 122"
    using s'(2) by (simp add: lba28_def FsInfo_free_cnt_def)
  moreover have "sector_bytes demo_ata (dev s') 8 = sector_bytes demo_ata demo_drive 8" using s'(2) by (simp add: lba28_def demo_vol_def)
  ultimately show ?thesis using s'(1) by blast
qed

text \<open>C35: After \<^verbatim>\<open>put_fat\<close> the entry reads back as the low 28 bits that were written, in the active
  table and in its mirror; the upper four bits of the stored entry, every other entry and every
  sector outside the tables keep their contents.\<close>

theorem put_fat_entry:
  assumes at: "at (sector_bytes a) lba28 s V f g" and geom: "fat_geom lba28 f" and c: "c < clust_cnt f"
  shows "\<exists>s' V'. put_fat (ata_env a sk fu) c val s = (Inr (), s') \<and> at (sector_bytes a) lba28 s' V' f g \<and>
     (\<forall>d < clust_cnt f. ftab V' (fat_sect0 f) d = (if d = c then val AND 0x0fffffff else ftab V (fat_sect0 f) d)) \<and>
     (fat_sect1 f \<noteq> 0 \<longrightarrow> (\<forall>d < clust_cnt f. ftab V' (fat_sect1 f) d = (if d = c then val AND 0x0fffffff else ftab V (fat_sect1 f) d))) \<and>
     raw_entry V' (fat_sect0 f) c AND 0xf0000000 = raw_entry V (fat_sect0 f) c AND 0xf0000000 \<and>
     (\<forall>n. n \<notin> fat_sectors f \<longrightarrow> V' n = V n)"
proof -
  note ok = ata.at_vol_ok [OF at]
  from ata.put_fat_at [OF at geom c, of sk fu val] obtain s' where
    "put_fat (ata_env a sk fu) c val s = (Inr (), s')" "at (sector_bytes a) lba28 s' (tput f c val V) f g" by blast
  moreover have "\<forall>d < clust_cnt f. ftab (tput f c val V) (fat_sect0 f) d = (if d = c then val AND 0x0fffffff else ftab V (fat_sect0 f) d)"
    using ftab_tput [OF geom ok c] by blast
  moreover have "fat_sect1 f \<noteq> 0 \<longrightarrow> (\<forall>d < clust_cnt f. ftab (tput f c val V) (fat_sect1 f) d =
      (if d = c then val AND 0x0fffffff else ftab V (fat_sect1 f) d))"
    using mirror_tput [OF geom ok c] by blast
  moreover have "\<forall>n. n \<notin> fat_sectors f \<longrightarrow> tput f c val V n = V n" using tput_outside [OF c] by blast
  ultimately show ?thesis using nibble_tput [OF geom ok c] by blast
qed

theorem put_fat_entry_witness:
  "fst (put_fat (ata_env demo_ata demo_stack 200) 4 7 demo_st) = Inr ()"
  using put_fat_entry [OF demo_at demo_geom, of 4 demo_stack 200 7] by (auto simp: demo_fat_def)

text \<open>C13: \<^verbatim>\<open>remove_chain\<close> frees exactly the clusters of the chain it is given, in both tables, adds their
  number to the free count, leaves every sector outside the tables and the information sector
  alone, and has written everything to the disk when it returns.\<close>

theorem remove_chain_frees:
  assumes at: "at (sector_bytes a) lba28 s V f g" and geom: "fat_geom lba28 f"
    and ch: "is_chain (clust_cnt f) (ftab V (fat_sect0 f)) c cs" and n: "length cs \<le> fu"
  shows "\<exists>s' V'. remove_chain (ata_env a sk fu) c s = (Inr (), s') \<and>
     at (sector_bytes a) lba28 s' V' (f\<lparr>free_cnt := free_cnt f + of_nat (length cs), fflags := fflags f AND NOT FAT_INFO_DIRTY\<rparr>) g \<and>
     (\<forall>d < clust_cnt f. ftab V' (fat_sect0 f) d = (if d \<in> set cs then 0 else ftab V (fat_sect0 f) d)) \<and>
     (fat_sect1 f \<noteq> 0 \<longrightarrow> (\<forall>d < clust_cnt f. ftab V' (fat_sect1 f) d = (if d \<in> set cs then 0 else ftab V (fat_sect1 f) d))) \<and>
     (\<forall>n. n \<notin> fat_sectors f \<and> n \<noteq> info_sect f \<longrightarrow> V' n = V n) \<and>
     (\<forall>n. lba28 n \<longrightarrow> sector_bytes a (dev s') n = V' n)"
proof -
  let ?f = "f\<lparr>free_cnt := free_cnt f + of_nat (length cs)\<rparr>" and ?W = "free_chain f cs V"
  note ok = ata.at_vol_ok [OF at]
  have cs: "\<forall>c\<in>set cs. c < clust_cnt f" using is_chain_bound [OF ch] by blast
  from ata.remove_chain_at [OF at geom ch, where sk = sk and fu = fu] n obtain s' where
    "remove_chain (ata_env a sk fu) c s = (Inr (), s')"
    "at (sector_bytes a) lba28 s' (info_put ?f ?W) (?f\<lparr>fflags := fflags f AND NOT FAT_INFO_DIRTY\<rparr>) g"
    "\<forall>n. lba28 n \<longrightarrow> sector_bytes a (dev s') n = info_put ?f ?W n" by (auto simp: ata_env_def)
  moreover have "\<forall>d < clust_cnt f. ftab (info_put ?f ?W) (fat_sect0 f) d = (if d \<in> set cs then 0 else ftab V (fat_sect0 f) d)"
    using ftab_free_chain [OF geom ok cs] ftab_info_put [of ?f f lba28 _ ?W] geom by simp
  moreover have "fat_sect1 f \<noteq> 0 \<longrightarrow> (\<forall>d < clust_cnt f. ftab (info_put ?f ?W) (fat_sect1 f) d =
      (if d \<in> set cs then 0 else ftab V (fat_sect1 f) d))"
    using mirror_free_chain [OF geom ok cs] mirror_info_put [of ?f f lba28 _ ?W] geom by simp
  moreover have "\<forall>n. n \<notin> fat_sectors f \<and> n \<noteq> info_sect f \<longrightarrow> info_put ?f ?W n = V n"
    using free_chain_outside [OF cs] by (simp add: info_put_def)
  ultimately show ?thesis by blast
qed

theorem remove_chain_frees_witness:
  "\<exists>s' V'. remove_chain (ata_env demo_ata demo_stack 3) 3 demo_st = (Inr (), s') \<and> free_cnt (fat s') = 125 \<and>
     ftab V' 8 3 = 0 \<and> ftab V' 8 5 = 0 \<and> ftab V' 8 6 = 0 \<and> ftab V' 9 6 = 0 \<and> ftab V' 8 2 = 0x0fffffff \<and>
     (\<forall>n. lba28 n \<longrightarrow> sector_bytes demo_ata (dev s') n = V' n)"
proof -
  from remove_chain_frees [OF demo_at demo_geom demo_chain, of 3 demo_stack] obtain s' V' where
    s': "remove_chain (ata_env demo_ata demo_stack 3) 3 demo_st = (Inr (), s')"
    "at (sector_bytes demo_ata) lba28 s' V' (demo_fat\<lparr>free_cnt := free_cnt demo_fat + 3, fflags := fflags demo_fat AND NOT FAT_INFO_DIRTY\<rparr>) ([], 0, 0)"
    "\<forall>d < clust_cnt demo_fat. ftab V' 8 d = (if d \<in> set [3, 5, 6] then 0 else ftab demo_vol 8 d)"
    "\<forall>d < clust_cnt demo_fat. ftab V' 9 d = (if d \<in> set [3, 5, 6] then 0 else ftab demo_vol 9 d)"
    "\<forall>n. lba28 n \<longrightarrow> sector_bytes demo_ata (dev s') n = V' n" by (auto simp: demo_fat_def)
  have "free_cnt (fat s') = 125" using at_fields(9) [OF s'(2)] by (simp add: demo_fat_def)
  moreover have "ftab V' 8 3 = 0" "ftab V' 8 5 = 0" "ftab V' 8 6 = 0" "ftab V' 9 6 = 0" "ftab V' 8 2 = 0x0fffffff"
    using s'(3) [rule_format, of 3] s'(3) [rule_format, of 5] s'(3) [rule_format, of 6] s'(3) [rule_format, of 2]
      s'(4) [rule_format, of 6] by (simp_all add: demo_fat_def demo_tab demo_entry_def)
  ultimately show ?thesis using s'(1,5) by blast
qed

text \<open>C33: \<^verbatim>\<open>remove_chain\<close> returns on every table, a cyclic or cross-linked one included: it either frees
  a chain to its end or reports \<^verbatim>\<open>FAT_ERR_BROKEN\<close>, within as many rounds as there are clusters.\<close>

theorem remove_chain_total:
  assumes "at (sector_bytes a) lba28 s V f g" and "fat_geom lba28 f" and "c < clust_cnt f" and "unat (clust_cnt f) < fu"
  shows "fst (remove_chain (ata_env a sk fu) c s) \<in> {Inr (), Inl FAT_ERR_BROKEN}"
  using ata.remove_chain_returns [OF assms(1-3), where sk = sk and fu = fu] assms(4)
  by (fastforce simp: ata_env_def)

theorem remove_chain_total_witness:
  "fst (remove_chain (ata_env demo_ata demo_stack 129) 4 demo_st) \<in> {Inr (), Inl FAT_ERR_BROKEN}"
  using remove_chain_total [OF demo_at demo_geom, of 4 129 demo_stack] by (simp add: demo_fat_def)

text \<open>C14: \<^verbatim>\<open>stretch_chain\<close> appends one cluster to a chain: the cluster was free, is a data cluster, becomes
  the new end of the chain, in the active table and, where there is one, in its mirror, and no other entry changes; the free count drops by
  one and the search pointer moves to the cluster.  This happens whenever some cluster other than
  the one used last is free.\<close>

theorem stretch_chain_appends:
  assumes at: "at (sector_bytes a) lba28 s V f g" and geom: "fat_geom lba28 f" and ok: "tab_ok f V"
    and ch: "is_chain (clust_cnt f) (ftab V (fat_sect0 f)) c0 cs" and p: "2 \<le> last cs"
    and free: "2 \<le> d" "d < clust_cnt f" "d \<noteq> last_used f" "ftab V (fat_sect0 f) d = 0"
    and n: "unat (clust_cnt f) \<le> fu"
  shows "\<exists>c s' V'. stretch_chain (ata_env a sk fu) (last cs) s = (Inr (Some c), s') \<and>
     2 \<le> c \<and> c < clust_cnt f \<and> ftab V (fat_sect0 f) c = 0 \<and>
     at (sector_bytes a) lba28 s' V' (f\<lparr>last_used := c, free_cnt := free_cnt f - 1, fflags := fflags f AND NOT FAT_INFO_DIRTY\<rparr>) g \<and>
     is_chain (clust_cnt f) (ftab V' (fat_sect0 f)) c0 (cs @ [c]) \<and>
     (\<forall>e < clust_cnt f. e \<noteq> c \<and> e \<noteq> last cs \<longrightarrow> ftab V' (fat_sect0 f) e = ftab V (fat_sect0 f) e) \<and>
     (fat_sect1 f \<noteq> 0 \<longrightarrow> (\<forall>e < clust_cnt f. ftab V' (fat_sect1 f) e =
        (if e = last cs then c else if e = c then 0x0fffffff else ftab V (fat_sect1 f) e))) \<and>
     (\<forall>m. m \<notin> fat_sectors f \<and> m \<noteq> info_sect f \<longrightarrow> V' m = V m) \<and>
     (\<forall>m. lba28 m \<longrightarrow> sector_bytes a (dev s') m = V' m)"
proof -
  let ?k = "\<lambda>c. f\<lparr>last_used := c, free_cnt := free_cnt f - 1\<rparr>" and ?T = "ftab V (fat_sect0 f)"
  have ne: "cs \<noteq> []" using ch by auto
  then have l: "last cs < clust_cnt f" using is_chain_bound [OF ch] by simp
  have d: "d \<in> candidates f (last cs)" using free by (simp add: candidates_def)
  have n': "unat (clust_cnt f) \<le> fuel (ata_env a sk fu)" using n by (simp add: ata_env_def)
  from ata.stretch_chain_at [OF at geom ok _ n'] p l d free(4) obtain c s' where
    s': "stretch_chain (ata_env a sk fu) (last cs) s = (Inr (Some c), s')"
    and c: "c \<in> candidates f (last cs)" "?T c = 0"
    and at': "at (sector_bytes a) lba28 s' (info_put (?k c) (link f (last cs) c V)) ((?k c)\<lparr>fflags := fflags f AND NOT FAT_INFO_DIRTY\<rparr>) g"
    and dk: "\<forall>m. lba28 m \<longrightarrow> sector_bytes a (dev s') m = info_put (?k c) (link f (last cs) c V) m" by fastforce
  have r: "2 \<le> c" "c < clust_cnt f" using candidates_range [OF geom _ c(1)] p l by auto
  let ?V = "info_put (?k c) (link f (last cs) c V)"
  have T: "ftab ?V (fat_sect0 f) e = (if e = last cs then c else if e = c then 0x0fffffff else ?T e)" if "e < clust_cnt f" for e
    using that ftab_link [OF geom ata.at_vol_ok [OF at] l r(2) that] ftab_info_put [of "?k c" f lba28 e] geom p
    by (cases "last cs = 0") auto
  have M: "ftab ?V (fat_sect1 f) e = (if e = last cs then c else if e = c then 0x0fffffff else ftab V (fat_sect1 f) e)"
    if "e < clust_cnt f" "fat_sect1 f \<noteq> 0" for e
    using that mirror_link [OF geom ata.at_vol_ok [OF at] l r(2) that] mirror_info_put [of "?k c" f lba28 e] geom p
    by (cases "last cs = 0") auto
  have c': "c \<notin> set cs" using is_chain_nonzero [OF ch] c(2) by blast
  have "is_chain (clust_cnt f) (ftab ?V (fat_sect0 f)) c0 (cs @ [c])"
    using is_chain_append [OF ch c' r] small_clust [OF geom r(2)] T is_chain_bound [OF ch] c' ne l r(2) last_in_set [OF ne]
    by (metis (no_types, lifting))
  moreover have "\<forall>m. m \<notin> fat_sectors f \<and> m \<noteq> info_sect f \<longrightarrow> ?V m = V m"
    using link_outside [OF r(2) l] by (simp add: info_put_def)
  ultimately show ?thesis using s' c(2) r at' T M dk by (intro exI [of _ c] exI [of _ s'] exI [of _ ?V]) auto
qed

theorem stretch_chain_appends_witness:
  "\<exists>c s'. stretch_chain (ata_env demo_ata demo_stack 128) 6 demo_st = (Inr (Some c), s') \<and> 2 \<le> c \<and> c < 128 \<and>
     demo_entry c = 0 \<and> free_cnt (fat s') = 121 \<and> last_used (fat s') = c"
proof -
  have "2 \<le> last [3, 5, 6 :: u32]" "(2 :: u32) \<le> 7" "7 < clust_cnt demo_fat" "7 \<noteq> last_used demo_fat"
    "ftab demo_vol (fat_sect0 demo_fat) 7 = 0" "unat (clust_cnt demo_fat) \<le> 128"
    by (simp_all add: demo_fat_def demo_tab demo_entry_def)
  from stretch_chain_appends [OF demo_at demo_geom demo_ok demo_chain this, of demo_stack] obtain c s' V' where
    s': "stretch_chain (ata_env demo_ata demo_stack 128) 6 demo_st = (Inr (Some c), s')" "2 \<le> c" "c < clust_cnt demo_fat"
    "ftab demo_vol (fat_sect0 demo_fat) c = 0"
    "at (sector_bytes demo_ata) lba28 s' V' (demo_fat\<lparr>last_used := c, free_cnt := free_cnt demo_fat - 1, fflags := fflags demo_fat AND NOT FAT_INFO_DIRTY\<rparr>) ([], 0, 0)"
    by auto
  have "c < 128" using s'(3) by (simp add: demo_fat_def)
  moreover have "demo_entry c = 0" using s'(4) demo_tab [OF \<open>c < 128\<close>, of 8] by (simp add: demo_fat_def)
  moreover have "free_cnt (fat s') = 121" "last_used (fat s') = c"
    using at_fields(8,9) [OF s'(5)] by (simp_all add: demo_fat_def)
  ultimately show ?thesis using s'(1,2) by blast
qed

text \<open>C34: \<^verbatim>\<open>stretch_chain\<close> reports \<^verbatim>\<open>FAT_ERR_FULL\<close> exactly when every cluster it considers is taken, and then
  no sector changes.  The cluster at the search pointer is not considered unless it follows \<open>prev\<close>.\<close>

theorem stretch_chain_full:
  assumes at: "at (sector_bytes a) lba28 s V f g" and geom: "fat_geom lba28 f" and ok: "tab_ok f V"
    and p: "prev = 0 \<or> 2 \<le> prev \<and> prev < clust_cnt f" and n: "unat (clust_cnt f) \<le> fu"
  shows "(fst (stretch_chain (ata_env a sk fu) prev s) = Inl FAT_ERR_FULL \<longleftrightarrow>
       (\<forall>d. 2 \<le> d \<and> d < clust_cnt f \<and> (d \<noteq> last_used f \<or> prev \<noteq> 0 \<and> d = succ_clust (clust_cnt f) prev) \<longrightarrow>
          ftab V (fat_sect0 f) d \<noteq> 0)) \<and>
     (fst (stretch_chain (ata_env a sk fu) prev s) = Inl FAT_ERR_FULL \<longrightarrow>
       (\<exists>f'. at (sector_bytes a) lba28 (snd (stretch_chain (ata_env a sk fu) prev s)) V f' g))"
proof -
  have n': "unat (clust_cnt f) \<le> fuel (ata_env a sk fu)" using n by (simp add: ata_env_def)
  have cand: "candidates f prev = {d. 2 \<le> d \<and> d < clust_cnt f \<and> (d \<noteq> last_used f \<or> prev \<noteq> 0 \<and> d = succ_clust (clust_cnt f) prev)}"
    using succ_clust_range [of "clust_cnt f" prev] p geom by (auto simp: candidates_def fat_geom_def)
  from ata.stretch_chain_at [OF at geom ok p n', unfolded cand] show ?thesis by (elim disjE exE conjE) auto
qed

theorem stretch_chain_full_witness:
  "fst (stretch_chain (ata_env demo_ata demo_stack 128) 0 demo_st) \<noteq> Inl FAT_ERR_FULL"
proof -
  have "(0 :: u32) = 0 \<or> 2 \<le> (0 :: u32) \<and> 0 < clust_cnt demo_fat" "unat (clust_cnt demo_fat) \<le> 128"
    by (simp_all add: demo_fat_def)
  from stretch_chain_full [OF demo_at demo_geom demo_ok this, of demo_stack]
  have "fst (stretch_chain (ata_env demo_ata demo_stack 128) 0 demo_st) = Inl FAT_ERR_FULL \<Longrightarrow>
      ftab demo_vol (fat_sect0 demo_fat) 7 \<noteq> 0"
    by (auto simp: demo_fat_def)
  then show ?thesis by (auto simp: demo_fat_def demo_tab demo_entry_def)
qed

text \<open>C36: \<^verbatim>\<open>clust_clear\<close> zeroes the sectors of one cluster and no other sector, and flushes the buffered
  sector first.\<close>

theorem clust_clear_zeroes:
  assumes "at (sector_bytes a) lba28 s V f g" and "\<forall>m \<in> clust_sectors f c. lba28 m"
  shows "\<exists>s' V'. clust_clear (ata_env a sk fu) c s = (Inr (), s') \<and> \<not> dirty s' \<and> at (sector_bytes a) lba28 s' V' f g \<and>
     (\<forall>m \<in> clust_sectors f c. V' m = replicate 512 0) \<and> (\<forall>m. m \<notin> clust_sectors f c \<longrightarrow> V' m = V m)"
  using ata.clust_clear_at [OF assms, of sk fu] by fastforce

theorem clust_clear_zeroes_witness:
  "\<exists>s'. clust_clear (ata_env demo_ata demo_stack 1) 4 demo_st = (Inr (), s') \<and> vol (sector_bytes demo_ata) lba28 s' 18 = replicate 512 0"
proof -
  have sec: "clust_sectors demo_fat 4 = {18}" by (auto simp: clust_sectors_def clust_to_sect_def demo_fat_def)
  have "\<forall>m \<in> clust_sectors demo_fat 4. lba28 m" unfolding sec by (simp add: lba28_def)
  from clust_clear_zeroes [OF demo_at this, of demo_stack 1] show ?thesis unfolding sec by (auto simp: at_def)
qed

end
