(* ===== verification/FatWalk.thy ===== *)
theory FatWalk
  imports FatDir
begin

text \<open>
  The entries of a directory as one list.  A directory is a chain of clusters; its entries are
  numbered along the chain, and the cursor of \<^verbatim>\<open>fat32.c\<close> at entry \<open>k\<close> has a definite cluster, sector and
  index.  The theory shows that \<^verbatim>\<open>dir_next\<close> steps from one number to the next and reports the end of
  the chain, on volumes whose data area is aligned to clusters (the code tests the absolute sector
  number against the cluster mask), and that loading and storing act on one element of the list.
\<close>

section \<open>Positions\<close>

definition spc :: "fat \<Rightarrow> nat" where
  "spc f = 2 ^ unat (clust_shift f)"

definition dsect :: "fat \<Rightarrow> u32 list \<Rightarrow> nat \<Rightarrow> u32" where
  "dsect f cs k = clust_to_sect f (cs ! (k div (16 * spc f))) + of_nat (k div 16 mod spc f)"

definition dpos :: "fat \<Rightarrow> u32 list \<Rightarrow> dir \<Rightarrow> nat \<Rightarrow> dir" where
  "dpos f cs d k = d\<lparr>d_clust := cs ! (k div (16 * spc f)), d_sect := dsect f cs k, d_idx := of_nat (32 * (k mod 16))\<rparr>"

definition dcount :: "fat \<Rightarrow> u32 list \<Rightarrow> nat" where
  "dcount f cs = length cs * (16 * spc f)"

definition entry :: "fat \<Rightarrow> u32 list \<Rightarrow> (u32 \<Rightarrow> bytes) \<Rightarrow> nat \<Rightarrow> bytes" where
  "entry f cs V k = get_bytes (V (dsect f cs k)) (32 * (k mod 16)) 32"

definition entries :: "fat \<Rightarrow> u32 list \<Rightarrow> (u32 \<Rightarrow> bytes) \<Rightarrow> bytes list" where
  "entries f cs V = map (entry f cs V) [0..<dcount f cs]"

text \<open>The data area: inside the 32-bit sector numbers, on valid sectors, apart from the tables and the
  information sector, and starting at a multiple of the size of a cluster.  The cursor of a directory
  relies on the last condition to see the end of a cluster, and \<^verbatim>\<open>fat_mount\<close> does not check it.\<close>

definition data_geom :: "(u32 \<Rightarrow> bool) \<Rightarrow> fat \<Rightarrow> bool" where
  "data_geom valid f \<longleftrightarrow> unat (clust_shift f) < 8 \<and> clust_msk f = 2 ^ unat (clust_shift f) - 1 \<and>
     unat (data_sect f) mod spc f = 0 \<and>
     (\<forall>c. 2 \<le> c \<and> c < clust_cnt f \<longrightarrow> unat (data_sect f) + (unat c - 1) * spc f \<le> 2 ^ 32 \<and>
        (\<forall>m \<in> clust_sectors f c. valid m \<and> m \<notin> fat_sectors f \<and> m \<noteq> info_sect f))"

text \<open>A directory: a chain of data clusters in the table.\<close>

definition dir_chain :: "fat \<Rightarrow> (u32 \<Rightarrow> bytes) \<Rightarrow> u32 list \<Rightarrow> bool" where
  "dir_chain f V cs \<longleftrightarrow> is_chain (clust_cnt f) (ftab V (fat_sect0 f)) (hd cs) cs \<and> (\<forall>c \<in> set cs. 2 \<le> c)"

lemma spc_pos: "0 < spc f"
  by (simp add: spc_def)

lemma pos_arith:
  assumes "0 < (n :: nat)" and "k < m * (16 * n)"
  shows "k div (16 * n) < m" and "k = k div (16 * n) * (16 * n) + k div 16 mod n * 16 + k mod 16"
proof -
  show "k div (16 * n) < m" using assms by (simp add: div_less_iff_less_mult)
  have "k div 16 = k div 16 div n * n + k div 16 mod n" by simp
  also have "k div 16 div n = k div (16 * n)" by (simp add: div_mult2_eq)
  finally have q: "k div 16 = k div (16 * n) * n + k div 16 mod n" .
  have "k = k div 16 * 16 + k mod 16" by simp
  also have "k div 16 * 16 = k div (16 * n) * (16 * n) + k div 16 mod n * 16"
    by (subst q) (simp add: algebra_simps)
  finally show "k = k div (16 * n) * (16 * n) + k div 16 mod n * 16 + k mod 16" .
qed

lemma dir_chain_clust: "dir_chain f V cs \<Longrightarrow> i < length cs \<Longrightarrow> 2 \<le> cs ! i \<and> cs ! i < clust_cnt f"
  using is_chain_bound [of "clust_cnt f" "ftab V (fat_sect0 f)" "hd cs" cs "cs ! i"] by (auto simp: dir_chain_def)

lemma unat_push: "n < 8 \<Longrightarrow> unat c * 2 ^ n < 2 ^ 32 \<Longrightarrow> unat (push_bit n c) = unat c * 2 ^ n" for c :: u32
  by (subst unsigned_push_bit_eq) (simp add: push_bit_eq_mult take_bit_nat_eq_self)

lemma unat_clust_sect:
  assumes g: "data_geom valid f" and c: "2 \<le> c" "c < clust_cnt f" and r: "r < spc f"
  shows "unat (clust_to_sect f c + of_nat r) = unat (data_sect f) + (unat c - 2) * spc f + r"
proof -
  let ?n = "unat (clust_shift f)"
  have n8: "?n < 8" using g by (simp add: data_geom_def)
  have b: "unat (data_sect f) + (unat c - 1) * spc f \<le> 2 ^ 32" using g c by (auto simp: data_geom_def)
  have c2: "unat (c - 2) = unat c - 2" using c by (simp add: unat_sub word_le_nat_alt)
  have "2 \<le> unat c" using c by (simp add: word_le_nat_alt)
  then have e: "(unat c - 1) * spc f = (unat c - 2) * spc f + spc f" 
    by (cases "unat c") (auto simp: Suc_le_eq gr0_conv_Suc)
  then have lt: "unat (data_sect f) + (unat c - 2) * spc f + r < 2 ^ 32" using b r by linarith
  then have "unat (push_bit ?n (c - 2)) = (unat c - 2) * spc f"
    using unat_push [OF n8, of "c - 2"] by (simp add: c2 spc_def)
  moreover have r': "unat (of_nat r :: u32) = r" using lt by (simp add: unsigned_of_nat take_bit_nat_eq_self)
  ultimately have "unat (clust_to_sect f c) = unat (data_sect f) + (unat c - 2) * spc f"
    using lt unat_add_lem [of "push_bit ?n (c - 2)" "data_sect f"] by (simp add: clust_to_sect_def)
  then show ?thesis using lt r' unat_add_lem [of "clust_to_sect f c" "of_nat r"] by simp
qed

lemma dsect_valid:
  assumes g: "data_geom valid f" and ch: "dir_chain f V cs" and k: "k < dcount f cs"
  shows "valid (dsect f cs k)" "dsect f cs k \<notin> fat_sectors f" "dsect f cs k \<noteq> info_sect f"
proof -
  let ?c = "cs ! (k div (16 * spc f))"
  have c: "2 \<le> ?c" "?c < clust_cnt f"
    using dir_chain_clust [OF ch] pos_arith(1) [OF spc_pos] k by (auto simp: dcount_def)
  have "dsect f cs k \<in> clust_sectors f ?c"
    using spc_pos [of f] by (auto simp: dsect_def clust_sectors_def spc_def)
  with g c show "valid (dsect f cs k)" "dsect f cs k \<notin> fat_sectors f" "dsect f cs k \<noteq> info_sect f"
    by (auto simp: data_geom_def)
qed

section \<open>Stepping\<close>

lemma mask_unat: "n < 8 \<Longrightarrow> w AND (2 ^ n - 1) = 0 \<longleftrightarrow> unat w mod 2 ^ n = 0" for w :: u32
proof -
  have "w AND (2 ^ n - 1) = take_bit n w" by (simp add: take_bit_eq_mask mask_eq_exp_minus_1)
  moreover have "unat (take_bit n w) = unat w mod 2 ^ n" by (subst unsigned_take_bit_eq) (rule take_bit_eq_mod)
  ultimately show ?thesis by (metis unat_eq_zero)
qed

lemma unat_inc: "unat (w + 1) mod 2 ^ n = (unat w + 1) mod 2 ^ n" if "n < 8" for w :: u32
proof -
  have "unat (w + 1) = (unat w + 1) mod 2 ^ 32" by (simp add: unat_word_ariths)
  moreover have "(2 :: nat) ^ n dvd 2 ^ 32" by (rule le_imp_power_dvd) (use that in simp)
  ultimately show ?thesis by (simp only: mod_mod_cancel)
qed

text \<open>Whether the sector after entry \<open>k\<close>'s is in the same cluster.\<close>

lemma dsect_mask:
  assumes g: "data_geom valid f" and ch: "dir_chain f V cs" and k: "k < dcount f cs"
  shows "(dsect f cs k + 1) AND clust_msk f \<noteq> 0 \<longleftrightarrow> k div 16 mod spc f + 1 < spc f"
proof -
  let ?c = "cs ! (k div (16 * spc f))" and ?r = "k div 16 mod spc f" and ?n = "unat (clust_shift f)"
  have c: "2 \<le> ?c" "?c < clust_cnt f"
    using dir_chain_clust [OF ch] pos_arith(1) [OF spc_pos] k by (auto simp: dcount_def)
  have r: "?r < spc f" using spc_pos by simp
  have n: "?n < 8" "clust_msk f = 2 ^ ?n - 1" "unat (data_sect f) mod spc f = 0" using g by (auto simp: data_geom_def)
  have "unat (dsect f cs k + 1) mod spc f = (unat (data_sect f) + (unat ?c - 2) * spc f + ?r + 1) mod spc f"
    using unat_inc [OF n(1), of "dsect f cs k"] unat_clust_sect [OF g c r] by (simp add: dsect_def spc_def)
  also have "unat (data_sect f) = unat (data_sect f) div spc f * spc f" using n(3) by (simp add: mult.commute mod_eq_0_iff_dvd)
  also have "(unat (data_sect f) div spc f * spc f + (unat ?c - 2) * spc f + ?r + 1) mod spc f =
      ((unat (data_sect f) div spc f + (unat ?c - 2)) * spc f + (?r + 1)) mod spc f" by (simp add: algebra_simps)
  also have "\<dots> = (?r + 1) mod spc f" by (rule mod_mult_self3)
  finally have "unat (dsect f cs k + 1) mod spc f = (?r + 1) mod spc f" .
  then have "(dsect f cs k + 1) AND clust_msk f = 0 \<longleftrightarrow> (?r + 1) mod spc f = 0"
    unfolding n(2) mask_unat [OF n(1)] by (simp add: spc_def)
  also have "\<dots> \<longleftrightarrow> \<not> ?r + 1 < spc f" 
  proof (cases "?r + 1 < spc f")
    case False
    with r have "?r + 1 = spc f" by linarith
    then show ?thesis by simp
  qed simp
  finally show ?thesis by blast
qed

lemma unat_of_nat16: "x < 2 ^ 16 \<Longrightarrow> unat (of_nat x :: u16) = x"
  by (simp add: unsigned_of_nat take_bit_nat_eq_self)

lemma idx_step:
  "of_nat (32 * Suc m) = (of_nat (32 * m) + 32 :: u16)"
  "m < 16 \<Longrightarrow> (of_nat (32 * m) + 32 :: u16) < 512 \<longleftrightarrow> m < 15"
proof -
  show s: "of_nat (32 * Suc m) = (of_nat (32 * m) + 32 :: u16)" by (simp add: algebra_simps)
  assume "m < 16"
  then have "32 * Suc m < 2 ^ 16" by simp
  then have "unat (of_nat (32 * Suc m) :: u16) = 32 * Suc m" by (rule unat_of_nat16)
  then show "(of_nat (32 * m) + 32 :: u16) < 512 \<longleftrightarrow> m < 15"
    unfolding s [symmetric] by (simp add: word_less_nat_alt del: of_nat_mult of_nat_Suc)
qed

lemma dir_idx_sect_swap: "d\<lparr>d_idx := i, d_sect := x\<rparr> = d\<lparr>d_sect := x, d_idx := i\<rparr>"
  by (cases d) simp

lemma pos_suc:
  assumes "0 < (n :: nat)"
  shows "k mod 16 < 15 \<Longrightarrow> Suc k mod 16 = Suc (k mod 16) \<and> Suc k div 16 = k div 16 \<and> Suc k div (16 * n) = k div (16 * n)"
    and "\<not> k mod 16 < 15 \<Longrightarrow> Suc k mod 16 = 0 \<and> Suc k div 16 = Suc (k div 16)"
    and "\<not> k mod 16 < 15 \<Longrightarrow> k div 16 mod n + 1 < n \<Longrightarrow> Suc k div 16 mod n = Suc (k div 16 mod n) \<and> Suc k div (16 * n) = k div (16 * n)"
    and "\<not> k mod 16 < 15 \<Longrightarrow> \<not> k div 16 mod n + 1 < n \<Longrightarrow> Suc k div 16 mod n = 0 \<and> Suc k div (16 * n) = Suc (k div (16 * n))"
proof -
  have q: "Suc k div (16 * n) = Suc k div 16 div n" "k div (16 * n) = k div 16 div n" by (simp_all add: div_mult2_eq)
  have d: "k div 16 mod n < n" using assms by simp
  show 1: "k mod 16 < 15 \<Longrightarrow> Suc k mod 16 = Suc (k mod 16) \<and> Suc k div 16 = k div 16 \<and> Suc k div (16 * n) = k div (16 * n)"
    unfolding q by (auto simp: mod_Suc div_Suc)
  show 2: "\<not> k mod 16 < 15 \<Longrightarrow> Suc k mod 16 = 0 \<and> Suc k div 16 = Suc (k div 16)"
    using mod_less_divisor [of 16 k] by (auto simp: mod_Suc div_Suc)
  show "\<not> k mod 16 < 15 \<Longrightarrow> k div 16 mod n + 1 < n \<Longrightarrow> Suc k div 16 mod n = Suc (k div 16 mod n) \<and> Suc k div (16 * n) = k div (16 * n)"
    unfolding q using 2 by (auto simp: mod_Suc div_Suc)
  show "\<not> k mod 16 < 15 \<Longrightarrow> \<not> k div 16 mod n + 1 < n \<Longrightarrow> Suc k div 16 mod n = 0 \<and> Suc k div (16 * n) = Suc (k div (16 * n))"
    unfolding q using 2 d by (auto simp: mod_Suc div_Suc)
qed

lemma is_chain_link:
  "is_chain cnt T c cs \<Longrightarrow> Suc i < length cs \<Longrightarrow> T (cs ! i) = cs ! Suc i \<and> clust_class cnt (T (cs ! i)) = Some CLUST_USED"
proof (induction cs arbitrary: c i rule: induct_list012)
  case (3 x y zs)
  then have "clust_class cnt (T x) = Some CLUST_USED" "T x = y" using is_chain_head [of cnt T "T x" "y # zs"] by (auto intro: class_used)
  with 3 show ?case by (cases i) auto
qed auto

lemma is_chain_end:
  "is_chain cnt T c cs \<Longrightarrow> clust_class cnt (T (last cs)) = Some (CLUST_USED OR CLUST_LAST)"
  by (induction cs arbitrary: c rule: induct_list012) (auto intro: class_last)

lemma dcount_last:
  assumes "k < dcount f cs" and "\<not> Suc k < dcount f cs"
  shows "\<not> k mod 16 < 15" "\<not> k div 16 mod spc f + 1 < spc f" "cs ! (k div (16 * spc f)) = last cs"
proof -
  let ?n = "spc f" and ?q = "k div (16 * spc f)"
  have k: "Suc k = length cs * (16 * ?n)" using assms by (simp add: dcount_def)
  then have d: "16 dvd Suc k" "16 * ?n dvd Suc k" by (auto simp: dvd_def mult.commute mult.left_commute)
  show m: "\<not> k mod 16 < 15" using d(1) pos_suc(1) [OF spc_pos [of f], of k] by (auto simp: dvd_eq_mod_eq_0)
  have "Suc k div 16 = length cs * ?n" using k by simp
  then have "Suc k div 16 mod ?n = 0" by (metis mod_mult_self2_is_0)
  then show r: "\<not> k div 16 mod ?n + 1 < ?n" using pos_suc(3) [OF spc_pos m] by fastforce
  have "Suc k div (16 * ?n) = length cs" using k spc_pos [of f] by simp
  then have "Suc ?q = length cs" using pos_suc(4) [OF spc_pos m r] by simp
  then show "cs ! ?q = last cs" by (metis diff_Suc_1 last_conv_nth length_0_conv nat.simps(3))
qed

context disk
begin

lemma dir_load_at:
  assumes at: "at sectors valid s V f g" and v: "valid (d_sect d)"
  shows "\<exists>s'. dir_load E (d, s) = (Inr (), d, s') \<and> at sectors valid s' V f g \<and>
    buf (fat s') = V (d_sect d) \<and> fsect (fat s') = d_sect d"
proof -
  from at have co: "coherent sectors valid s" and V: "vol sectors valid s = V" by (auto simp: at_def)
  from update_buf_vol [OF co v] obtain s' where "update_buf E (d_sect d) s = (Inr (), s')" "vol_step sectors valid s V s'"
    "fsect (fat s') = d_sect d" "buf (fat s') = V (d_sect d)" using V by auto
  with at_step [OF at] show ?thesis by (auto simp: dir_load_def on_fat_def)
qed

lemma dir_next_at:
  assumes at: "at sectors valid s V f g" and fg: "fat_geom valid f" and g: "data_geom valid f" and ch: "dir_chain f V cs"
    and k: "Suc k < dcount f cs"
  shows "\<exists>s'. dir_next E (dpos f cs d k, s) = (Inr (), dpos f cs d (Suc k), s') \<and> at sectors valid s' V f g"
proof -
  let ?n = "spc f" and ?q = "k div (16 * spc f)" and ?T = "ftab V (fat_sect0 f)"
  have k': "k < dcount f cs" using k by simp
  define i :: u16 where "i = of_nat (32 * (k mod 16))"
  have i: "i + 32 < 512 \<longleftrightarrow> k mod 16 < 15" unfolding i_def by (rule idx_step(2)) simp
  note suc = pos_suc [OF spc_pos [of f], of k] and fld = at_fields [OF at]
  note msk = dsect_mask [OF g ch k'] and c = dir_chain_clust [OF ch]
  consider (entry) "k mod 16 < 15" | (sector) "\<not> k mod 16 < 15" "k div 16 mod ?n + 1 < ?n"
    | (cluster) "\<not> k mod 16 < 15" "\<not> k div 16 mod ?n + 1 < ?n" by blast
  then show ?thesis
  proof cases
    case entry
    then have "dpos f cs d (Suc k) = (dpos f cs d k)\<lparr>d_idx := i + 32\<rparr>" "d_idx (dpos f cs d k) = i"
      using suc(1) [OF entry] idx_step(1) [of "k mod 16"] by (simp_all only: dpos_def dsect_def i_def) simp_all
    then show ?thesis using at i entry by (simp add: dir_next_def Let_def ereturn_def)
  next
    case sector
    have "dsect f cs (Suc k) = dsect f cs k + 1"
      using suc(2) [OF sector(1)] suc(3) [OF sector] by (simp add: dsect_def add.assoc add.commute)
    then have "dpos f cs d (Suc k) = (dpos f cs d k)\<lparr>d_idx := 0, d_sect := d_sect (dpos f cs d k) + 1\<rparr>"
      using suc(2) [OF sector(1)] suc(3) [OF sector] by (simp add: dpos_def dir_idx_sect_swap)
    moreover have "d_idx (dpos f cs d k) = i" "d_sect (dpos f cs d k) = dsect f cs k" by (simp_all add: dpos_def i_def)
    ultimately show ?thesis using at i sector msk by (simp add: dir_next_def Let_def ereturn_def fld(1))
  next
    case cluster
    have q: "Suc ?q < length cs" using suc(4) [OF cluster] pos_arith(1) [OF spc_pos [of f], of "Suc k" "length cs"] k
      by (simp add: dcount_def)
    have "is_chain (clust_cnt f) ?T (hd cs) cs" using ch by (simp add: dir_chain_def)
    note lk = is_chain_link [OF this q]
    from get_fat_at [OF at fg, of "cs ! ?q"] c [of ?q] q lk obtain s1 where
      s1: "get_fat E (cs ! ?q) s = (Inr (cs ! Suc ?q, CLUST_USED), s1)" "at sectors valid s1 V f g" by auto
    have cts: "clust_to_sect (fat s1) x = clust_to_sect f x" for x
      using at_fields [OF s1(2)] by (simp add: clust_to_sect_def)
    have "dpos f cs d (Suc k) = d\<lparr>d_clust := cs ! Suc ?q, d_sect := clust_to_sect f (cs ! Suc ?q), d_idx := 0\<rparr>"
      using suc(2) [OF cluster(1)] suc(4) [OF cluster] by (simp add: dpos_def dsect_def)
    moreover have "d_idx (dpos f cs d k) = i" "d_sect (dpos f cs d k) = dsect f cs k" "d_clust (dpos f cs d k) = cs ! ?q"
      by (simp_all add: dpos_def i_def)
    ultimately show ?thesis using s1 i cluster msk fld(1)
      by (simp add: dir_next_def Let_def on_fat_def on_dir_def emodify_def dir_at_clust_def cts ebind_def)
        (simp add: dpos_def)
  qed
qed

end

section \<open>Reading and writing one entry\<close>

text \<open>The volume after the entry \<open>k\<close> has been replaced by a function of itself.\<close>

definition eput :: "fat \<Rightarrow> u32 list \<Rightarrow> nat \<Rightarrow> (bytes \<Rightarrow> bytes) \<Rightarrow> (u32 \<Rightarrow> bytes) \<Rightarrow> u32 \<Rightarrow> bytes" where
  "eput f cs k F V = V(dsect f cs k := put_bytes (V (dsect f cs k)) (32 * (k mod 16)) (F (entry f cs V k)))"

lemma length_entry: "length (V (dsect f cs k)) = 512 \<Longrightarrow> length (entry f cs V k) = 32"
  using mod_less_divisor [of 16 k] by (auto simp: entry_def get_bytes_def)

lemma dsect_inj:
  assumes g: "data_geom valid f" and ch: "dir_chain f V cs" and j: "j < dcount f cs" and k: "k < dcount f cs"
    and eq: "dsect f cs j = dsect f cs k"
  shows "j div 16 = k div 16"
proof -
  let ?n = "spc f" and ?q = "\<lambda>k. k div (16 * spc f)" and ?r = "\<lambda>k. k div 16 mod spc f"
  have q: "?q j < length cs" "?q k < length cs" using pos_arith(1) [OF spc_pos] j k by (auto simp: dcount_def)
  note c = dir_chain_clust [OF ch q(1)] dir_chain_clust [OF ch q(2)]
  have r: "?r j < ?n" "?r k < ?n" using spc_pos by simp_all
  have "unat (data_sect f) + (unat (cs ! ?q j) - 2) * ?n + ?r j = unat (data_sect f) + (unat (cs ! ?q k) - 2) * ?n + ?r k"
    using unat_clust_sect [OF g _ _ r(1), of "cs ! ?q j"] unat_clust_sect [OF g _ _ r(2), of "cs ! ?q k"] c eq
    by (simp add: dsect_def)
  then have e: "(unat (cs ! ?q j) - 2) * ?n + ?r j = (unat (cs ! ?q k) - 2) * ?n + ?r k" by simp
  then have "((unat (cs ! ?q j) - 2) * ?n + ?r j) div ?n = ((unat (cs ! ?q k) - 2) * ?n + ?r k) div ?n" by simp
  then have "unat (cs ! ?q j) - 2 = unat (cs ! ?q k) - 2" using r by simp
  with c have "unat (cs ! ?q j) = unat (cs ! ?q k)" by (auto simp: word_le_nat_alt)
  then have "cs ! ?q j = cs ! ?q k" by (simp add: word_unat_eq_iff)
  moreover have "distinct cs" using ch by (auto simp: dir_chain_def dest: is_chain_distinct)
  ultimately have "?q j = ?q k" using q nth_eq_iff_index_eq by blast
  moreover from this e have "?r j = ?r k" by simp
  moreover have "x div 16 = ?q x * ?n + ?r x" for x by (simp add: div_mult2_eq)
  ultimately show ?thesis by metis
qed

lemma entry_eput:
  assumes g: "data_geom valid f" and ch: "dir_chain f V cs" and ok: "vol_ok valid V"
    and j: "j < dcount f cs" and k: "k < dcount f cs" and F: "length (F (entry f cs V k)) = 32"
  shows "entry f cs (eput f cs k F V) j = (if j = k then F (entry f cs V k) else entry f cs V j)"
proof -
  have len: "length (V (dsect f cs k)) = 512" using ok dsect_valid(1) [OF g ch k] by (simp add: vol_ok_def)
  have m: "32 * (x mod 16) + 32 \<le> 512" for x :: nat using mod_less_divisor [of 16 x] by linarith
  show ?thesis
  proof (cases "j = k")
    case True
    have "32 * (k mod 16) + length (F (entry f cs V k)) \<le> length (V (dsect f cs k))" using m [of k] F len by simp
    from get_put_bytes [OF this] True F show ?thesis by (simp add: entry_def eput_def)
  next
    case False
    show ?thesis
    proof (cases "dsect f cs j = dsect f cs k")
      case True
      from dsect_inj [OF g ch j k True] False have "j mod 16 \<noteq> k mod 16" by (metis div_mult_mod_eq)
      then have "32 * (j mod 16) + 32 \<le> 32 * (k mod 16) \<or> 32 * (k mod 16) + 32 \<le> 32 * (j mod 16)" by linarith
      then show ?thesis using False True F m [of j] len
        by (auto simp: entry_def eput_def get_bytes_def put_bytes_nth intro!: nth_equalityI)
    next
      case ne: False
      then show ?thesis using False by (simp add: entry_def eput_def)
    qed
  qed
qed

lemma eput_other: "n \<noteq> dsect f cs k \<Longrightarrow> eput f cs k F V n = V n"
  by (simp add: eput_def)

lemma ftab_eput:
  assumes "dsect f cs k \<notin> fat_sectors f" and "c < clust_cnt f"
  shows "ftab (eput f cs k F V) (fat_sect0 f) c = ftab V (fat_sect0 f) c"
proof -
  have "fat_sect0 f + c div 128 \<in> fat_sectors f" using assms(2) by (auto simp: fat_sectors_def)
  then have "fat_sect0 f + c div 128 \<noteq> dsect f cs k" using assms(1) by metis
  then show ?thesis by (simp add: ftab_def raw_entry_def eput_other)
qed

lemma dir_chain_eput:
  assumes g: "data_geom valid f" and ch: "dir_chain f V cs" and k: "k < dcount f cs"
  shows "dir_chain f (eput f cs k F V) cs"
proof -
  have c: "is_chain (clust_cnt f) (ftab V (fat_sect0 f)) (hd cs) cs" using ch by (simp add: dir_chain_def)
  show ?thesis using ch is_chain_cong [OF c, of "ftab (eput f cs k F V) (fat_sect0 f)"] is_chain_bound [OF c]
      ftab_eput [OF dsect_valid(2) [OF g ch k]] by (auto simp: dir_chain_def)
qed

lemma dpos_sel [simp]:
  "d_sect (dpos f cs d k) = dsect f cs k" "d_sclust (dpos f cs d k) = d_sclust d"
  "d_idx (dpos f cs d k) = of_nat (32 * (k mod 16))"
  by (simp_all add: dpos_def)

lemma dir_ptr_dpos [simp]: "dir_ptr (dpos f cs d k) = 32 * (k mod 16)"
proof -
  have "k mod 16 < 16" by simp
  then have "32 * (k mod 16) < 2 ^ 16" by simp
  then show ?thesis unfolding dir_ptr_def dpos_sel by (rule unat_of_nat16)
qed

context disk
begin

lemma dir_next_end:
  assumes at: "at sectors valid s V f g" and fg: "fat_geom valid f" and g: "data_geom valid f" and ch: "dir_chain f V cs"
    and k: "k < dcount f cs" "\<not> Suc k < dcount f cs"
  shows "\<exists>s' d'. dir_next E (dpos f cs d k, s) = (Inl FAT_ERR_EOF, d', s') \<and> at sectors valid s' V f g \<and>
    d_sclust d' = d_sclust d \<and> d_clust d' = last cs"
proof -
  let ?q = "k div (16 * spc f)" and ?T = "ftab V (fat_sect0 f)"
  have i: "(of_nat (32 * (k mod 16)) + 32 :: u16) < 512 \<longleftrightarrow> k mod 16 < 15" by (rule idx_step(2)) simp
  note l = dcount_last [OF k]
  have q: "?q < length cs" using pos_arith(1) [OF spc_pos [of f], of k "length cs"] k by (simp add: dcount_def)
  have "is_chain (clust_cnt f) ?T (hd cs) cs" using ch by (simp add: dir_chain_def)
  from is_chain_end [OF this] get_fat_at [OF at fg, of "last cs"] dir_chain_clust [OF ch q] l(3)
  obtain s1 e where s1: "get_fat E (last cs) s = (Inr (e, CLUST_USED OR CLUST_LAST), s1)" "at sectors valid s1 V f g" by auto
  have "d_clust (dpos f cs d k) = last cs" using l(3) by (simp add: dpos_def)
  then show ?thesis using s1 i l(1,2) dsect_mask [OF g ch k(1)] at_fields(1) [OF at]
    by (simp add: dir_next_def Let_def on_fat_def ebind_def ethrow_def del: of_nat_mult)
qed

lemma load_at:
  assumes at: "at sectors valid s V f g" and g: "data_geom valid f" and ch: "dir_chain f V cs" and k: "k < dcount f cs"
  shows "\<exists>s'. dir_load E (dpos f cs d k, s) = (Inr (), dpos f cs d k, s') \<and> at sectors valid s' V f g \<and>
    buf (fat s') = V (dsect f cs k) \<and> fsect (fat s') = dsect f cs k"
  using dir_load_at [OF at, of "dpos f cs d k"] dsect_valid(1) [OF g ch k] by simp

lemma store_at:
  assumes at: "at sectors valid s V f g" and g: "data_geom valid f" and ch: "dir_chain f V cs" and k: "k < dcount f cs"
    and b: "buf (fat s) = V (dsect f cs k)" "fsect (fat s) = dsect f cs k"
  shows "\<exists>s'. dir_store F (dpos f cs d k, s) = (Inr (), dpos f cs d k, s') \<and> at sectors valid s' (eput f cs k F V) f g \<and>
    buf (fat s') = eput f cs k F V (dsect f cs k) \<and> fsect (fat s') = dsect f cs k"
proof -
  let ?b = "put_bytes (buf (fat s)) (32 * (k mod 16)) (F (entry f cs V k))"
  from at have co: "coherent sectors valid s" and V: "vol sectors valid s = V" by (auto simp: at_def)
  have l: "length ?b = 512" using co by (simp add: coherent_def)
  have v: "valid (fsect (fat s))" using b(2) dsect_valid(1) [OF g ch k] by simp
  let ?s = "upd_fat (\<lambda>f. f\<lparr>buf := ?b, fflags := fflags f OR FAT_BUF_DIRTY\<rparr>) s"
  from store_vol [OF co l v] have "vol_step sectors valid s (eput f cs k F V) ?s" using b V by (simp add: eput_def)
  from at_step [OF at this] have "at sectors valid ?s (eput f cs k F V) f g" .
  moreover have "dir_store F (dpos f cs d k, s) = (Inr (), dpos f cs d k, ?s)"
    using b by (simp add: dir_store_def on_fat_def set_flag_def set_buf_def emodify_def entry_def fat_flags_buf_swap)
  ultimately show ?thesis using b by (simp add: eput_def)
qed

end

end
