(* ===== verification/FatSearch.thy ===== *)
theory FatSearch
  imports FatWalk
begin

text \<open>
  What a directory means: a sequence of items, each a deleted entry, a short entry, or a long name
  with its fragments and short entry, up to an end mark or the end of the chain.  \<^verbatim>\<open>dir_search\<close> is
  proved to return the first item that matches the name and to report \<^verbatim>\<open>FAT_ERR_EOF\<close> when there is
  none.
\<close>

section \<open>Items\<close>

datatype item = Gone bytes | Short bytes | Long bytes "bytes list" bytes

fun enc :: "item \<Rightarrow> bytes list" where
  "enc (Gone e) = [e]"
| "enc (Short e) = [e]"
| "enc (Long nm ls e) = ls @ [e]"

definition wf_sfn :: "bytes \<Rightarrow> bool" where
  "wf_sfn e \<longleftrightarrow> length e = 32 \<and> e ! 0 \<noteq> SFN_LAST \<and> e ! 0 \<noteq> SFN_FREE \<and> e ! sfn_attr \<noteq> FAT_ATTR_LFN"

text \<open>The entry that holds fragment \<open>j\<close> (characters \<open>13 * j\<close> on) of a long name.\<close>

definition wf_lfn :: "bytes \<Rightarrow> u8 \<Rightarrow> nat \<Rightarrow> bytes \<Rightarrow> bool" where
  "wf_lfn nm crc j l \<longleftrightarrow> length l = 32 \<and> l ! 0 \<noteq> SFN_LAST \<and> l ! 0 \<noteq> SFN_FREE \<and> l ! lfn_attr = FAT_ATTR_LFN \<and> l ! lfn_crc = crc \<and>
     (\<forall>i < 13. 13 * j + i \<le> length nm \<longrightarrow> l ! (g_lfn_indices ! i) = (if 13 * j + i < length nm then nm ! (13 * j + i) else 0))"

definition wf_long :: "bytes \<Rightarrow> bytes list \<Rightarrow> bytes \<Rightarrow> bool" where
  "wf_long nm ls e \<longleftrightarrow> wf_sfn e \<and> 0 < length ls \<and> length ls \<le> 20 \<and>
     13 * (length ls - 1) < length nm \<and> length nm \<le> 13 * length ls \<and> length nm \<le> 255 \<and> 0 \<notin> set nm \<and>
     unat (ls ! 0 ! lfn_seq AND LFN_SEQ_MSK) = length ls \<and>
     (\<forall>p < length ls. wf_lfn nm (get_crc (take 11 e)) (length ls - 1 - p) (ls ! p))"

fun wf_item :: "item \<Rightarrow> bool" where
  "wf_item (Gone e) \<longleftrightarrow> length e = 32 \<and> e ! 0 = SFN_FREE"
| "wf_item (Short e) \<longleftrightarrow> wf_sfn e"
| "wf_item (Long nm ls e) \<longleftrightarrow> wf_long nm ls e"

fun item_matches :: "bytes \<Rightarrow> nat \<Rightarrow> item \<Rightarrow> bool" where
  "item_matches name len (Gone e) \<longleftrightarrow> False"
| "item_matches name len (Short e) \<longleftrightarrow> put_sfn_name name len = take 11 e"
| "item_matches name len (Long nm ls e) \<longleftrightarrow> length nm = len \<and> name_eq nm name len"

text \<open>The first matching item from entry \<open>k\<close> on: the numbers of its first and last entry.\<close>

fun find_item :: "bytes \<Rightarrow> nat \<Rightarrow> nat \<Rightarrow> item list \<Rightarrow> (nat \<times> nat) option" where
  "find_item name len k [] = None"
| "find_item name len k (it # its) =
     (if item_matches name len it then Some (k, k + length (enc it) - 1)
      else find_item name len (k + length (enc it)) its)"

definition end_mark :: "bytes list \<Rightarrow> bool" where
  "end_mark rest \<longleftrightarrow> rest = [] \<or> hd rest ! 0 = SFN_LAST"

lemma enc_pos: "wf_item it \<Longrightarrow> 0 < length (enc it)"
  by (cases it) auto

section \<open>The buffer and the list of entries\<close>

lemma buf_entry:
  assumes "length (V (dsect f cs k)) = 512" and "j < 32"
  shows "V (dsect f cs k) ! (32 * (k mod 16) + j) = entry f cs V k ! j"
  using assms mod_less_divisor [of 16 k] by (simp add: entry_def get_bytes_def)

lemma buf_entry0: "length (V (dsect f cs k)) = 512 \<Longrightarrow> V (dsect f cs k) ! (32 * (k mod 16)) = entry f cs V k ! 0"
  using buf_entry [of V f cs k 0] by simp

lemma buf_entry_take:
  assumes "length (V (dsect f cs k)) = 512"
  shows "get_bytes (V (dsect f cs k)) (32 * (k mod 16)) 11 = take 11 (entry f cs V k)"
  by (simp add: entry_def get_bytes_def)

lemma entries_drop:
  assumes "drop k (entries f cs V) = xs @ r" and "i < length xs"
  shows "k + i < dcount f cs" and "entry f cs V (k + i) = xs ! i"
proof -
  have l: "length (xs @ r) = dcount f cs - k" using assms(1) [symmetric] by (simp add: entries_def)
  then show n: "k + i < dcount f cs" using assms(2) by simp
  have "drop k (entries f cs V) ! i = entries f cs V ! (k + i)" using n by (simp add: entries_def)
  then have "xs ! i = entries f cs V ! (k + i)" unfolding assms(1) using assms(2) by (simp add: nth_append)
  then show "entry f cs V (k + i) = xs ! i" using n by (simp add: entries_def)
qed

lemma at_work:
  "at sectors valid s V f (a, b, c) \<Longrightarrow> at sectors valid (s\<lparr>g_buf := a', g_len := b'\<rparr>) V f (a', b', c)"
  "at sectors valid s V f (a, b, c) \<Longrightarrow> at sectors valid (s\<lparr>g_crc := c', g_len := b'\<rparr>) V f (a, b', c')"
  by (auto simp: at_def coherent_def dirty_def vol_def view_def)

context disk
begin

lemma sect_length:
  assumes "at sectors valid s V f g" "data_geom valid f" "dir_chain f V cs" "k < dcount f cs"
  shows "length (V (dsect f cs k)) = 512"
  using at_vol_ok [OF assms(1)] dsect_valid(1) [OF assms(2-4)] by (simp add: vol_ok_def)

text \<open>One step: to the next entry, with its sector loaded.\<close>

lemma next_load_at:
  assumes at: "at sectors valid s V f g" and fg: "fat_geom valid f" and dg: "data_geom valid f" and ch: "dir_chain f V cs"
    and k: "Suc k < dcount f cs"
  shows "\<exists>s'. ebind (dir_next E) (\<lambda>_. ebind (dir_load E) m) (dpos f cs d k, s) = m () (dpos f cs d (Suc k), s') \<and>
    at sectors valid s' V f g \<and> buf (fat s') = V (dsect f cs (Suc k)) \<and> fsect (fat s') = dsect f cs (Suc k)"
proof -
  from dir_next_at [OF at fg dg ch k] obtain s1 where
    s1: "dir_next E (dpos f cs d k, s) = (Inr (), dpos f cs d (Suc k), s1)" "at sectors valid s1 V f g" by blast
  from load_at [OF s1(2) dg ch k] obtain s2 where
    "dir_load E (dpos f cs d (Suc k), s1) = (Inr (), dpos f cs d (Suc k), s2)" "at sectors valid s2 V f g"
    "buf (fat s2) = V (dsect f cs (Suc k))" "fsect (fat s2) = dsect f cs (Suc k)" by blast
  with s1 show ?thesis by auto
qed

lemma parse_loop_at:
  assumes "at sectors valid s V f (gb, gl, crc)" and fg: "fat_geom valid f" and dg: "data_geom valid f" and ch: "dir_chain f V cs"
    and "\<forall>p < n. wf_lfn nm crc (n - 1 - p) (entry f cs V (k + p))" and "k + n < dcount f cs"
    and "buf (fat s) = V (dsect f cs k)" "fsect (fat s) = dsect f cs k" and "length gb = 512" and "13 * n \<le> 512"
    and "n = 0 \<or> 13 * (n - 1) < length nm" and nz: "0 \<notin> set nm"
  shows "\<exists>s' gb'. parse_lfn_loop E n (dpos f cs d k, s) = (Inr (), dpos f cs d (k + n), s') \<and>
    at sectors valid s' V f (gb', gl + of_nat (min (13 * n) (length nm)), crc) \<and>
    buf (fat s') = V (dsect f cs (k + n)) \<and> fsect (fat s') = dsect f cs (k + n) \<and> length gb' = 512 \<and>
    (\<forall>x < min (13 * n) (length nm). gb' ! x = nm ! x) \<and> (\<forall>x \<ge> 13 * n. gb' ! x = gb ! x)"
  using assms(1,5-11)
proof (induction n arbitrary: k s gb gl)
  case 0
  then show ?case by (auto simp: ereturn_def)
next
  case (Suc n)
  let ?e = "entry f cs V k" and ?b = "V (dsect f cs k)" and ?len = "min (length nm - 13 * n) 13"
  have kN: "k < dcount f cs" using Suc.prems(3) by simp
  note len = sect_length [OF Suc.prems(1) dg ch kN]
  have w: "wf_lfn nm crc n ?e" using Suc.prems(2) [rule_format, of 0] by simp
  have nm: "13 * n < length nm" using Suc.prems(8) by simp
  have ex: "\<forall>i < 13. i \<le> ?len \<longrightarrow> ?b ! (32 * (k mod 16) + g_lfn_indices ! i) = (if i < ?len then (drop (13 * n) nm) ! i else 0)"
  proof (intro allI impI)
    fix i assume i: "i < 13" "i \<le> ?len"
    have "g_lfn_indices ! i < 32" using lfn_index(1) [OF i(1) i(1)] by simp
    then show "?b ! (32 * (k mod 16) + g_lfn_indices ! i) = (if i < ?len then (drop (13 * n) nm) ! i else 0)"
      using w i len nm by (auto simp: buf_entry wf_lfn_def)
  qed
  have nz': "\<forall>i < ?len. drop (13 * n) nm ! i \<noteq> 0" using nz by (auto simp: in_set_conv_nth)
  let ?gb = "put_bytes gb (13 * n) (take ?len (drop (13 * n) nm))" and ?gl = "gl + of_nat ?len"
  have cp: "lfn_copy ?b (32 * (k mod 16)) n 0 13 (gb, gl) = (True, ?gb, ?gl)"
    using lfn_copy_frag [OF ex _ nz', of 0 n gb gl] by simp
  let ?s = "s\<lparr>g_buf := ?gb, g_len := ?gl\<rparr>"
  have g: "g_buf s = gb" "g_len s = gl" "g_crc s = crc" using Suc.prems(1) by (auto simp: at_def)
  note at1 = at_work(1) [OF Suc.prems(1), where a' = ?gb and b' = ?gl]
  have k1: "Suc k < dcount f cs" using Suc.prems(3) by simp
  from next_load_at [OF at1 fg dg ch k1, of "\<lambda>_. parse_lfn_loop E n" d] obtain s1 where
    s1: "ebind (dir_next E) (\<lambda>_. ebind (dir_load E) (\<lambda>_. parse_lfn_loop E n)) (dpos f cs d k, ?s) =
      parse_lfn_loop E n (dpos f cs d (Suc k), s1)" "at sectors valid s1 V f (?gb, ?gl, crc)"
    "buf (fat s1) = V (dsect f cs (Suc k))" "fsect (fat s1) = dsect f cs (Suc k)" by blast
  have "?b ! (32 * (k mod 16) + lfn_attr) = FAT_ATTR_LFN" "?b ! (32 * (k mod 16) + lfn_crc) = crc"
    using w len by (simp_all add: buf_entry wf_lfn_def field_defs)
  then have step: "parse_lfn_loop E (Suc n) (dpos f cs d k, s) = parse_lfn_loop E n (dpos f cs d (Suc k), s1)"
    using cp s1(1) Suc.prems(4) g by (simp add: Let_def)
  have fr: "\<forall>p < n. wf_lfn nm crc (n - 1 - p) (entry f cs V (Suc k + p))"
  proof (intro allI impI)
    fix p assume "p < n"
    with Suc.prems(2) [rule_format, of "Suc p"] show "wf_lfn nm crc (n - 1 - p) (entry f cs V (Suc k + p))" by simp
  qed
  have pr: "Suc k + n < dcount f cs" "length ?gb = 512" "13 * n \<le> 512" "n = 0 \<or> 13 * (n - 1) < length nm"
    using Suc.prems(3,6,7) nm by auto
  from Suc.IH [OF s1(2) fr pr(1) s1(3,4) pr(2-4)] obtain s' gb' where r:
    "parse_lfn_loop E n (dpos f cs d (Suc k), s1) = (Inr (), dpos f cs d (Suc k + n), s')"
    "at sectors valid s' V f (gb', ?gl + of_nat (min (13 * n) (length nm)), crc)"
    "buf (fat s') = V (dsect f cs (Suc k + n))" "fsect (fat s') = dsect f cs (Suc k + n)" "length gb' = 512"
    "\<forall>x < min (13 * n) (length nm). gb' ! x = nm ! x" "\<forall>x \<ge> 13 * n. gb' ! x = ?gb ! x" by blast
  have "?len + min (13 * n) (length nm) = min (13 * Suc n) (length nm)" using nm by auto
  then have gl: "?gl + of_nat (min (13 * n) (length nm)) = gl + of_nat (min (13 * Suc n) (length nm))"
    by (simp add: add.assoc flip: of_nat_add)
  have "gb' ! x = nm ! x" if "x < min (13 * Suc n) (length nm)" for x
  proof (cases "x < 13 * n")
    case False
    then have "x - 13 * n < ?len" using that by auto
    then have "take ?len (drop (13 * n) nm) ! (x - 13 * n) = nm ! x" using False nm by (simp add: nth_drop)
    then show ?thesis using False r(7) that Suc.prems(6,7) by (auto simp: put_bytes_nth)
  qed (use r(6) that in auto)
  moreover have "gb' ! x = gb ! x" if "13 * Suc n \<le> x" for x using r(7) that by (auto simp: put_bytes_nth)
  ultimately show ?case using r(1-5) unfolding step gl by auto
qed

lemma parse_lfn_at:
  assumes at: "at sectors valid s V f (gb, gl, cr)" and fg: "fat_geom valid f" and dg: "data_geom valid f" and ch: "dir_chain f V cs"
    and w: "wf_long nm ls e" and en: "drop k (entries f cs V) = (ls @ [e]) @ r" and gb: "length gb = 512"
  shows "\<exists>s' gb'. parse_lfn_name E (dpos f cs d k, s) = (Inr (), dpos f cs d (k + length ls), s') \<and>
    at sectors valid s' V f (gb', of_nat (length nm), get_crc (take 11 e)) \<and>
    buf (fat s') = V (dsect f cs (k + length ls)) \<and> fsect (fat s') = dsect f cs (k + length ls) \<and>
    length gb' = 512 \<and> take (length nm) gb' = nm"
proof -
  let ?n = "length ls" and ?c = "get_crc (take 11 e)" and ?b = "V (dsect f cs k)"
  have n: "0 < ?n" "?n \<le> 20" "13 * (?n - 1) < length nm" "length nm \<le> 13 * ?n" "length nm \<le> 255" "0 \<notin> set nm"
    "unat (ls ! 0 ! lfn_seq AND LFN_SEQ_MSK) = ?n" using w by (auto simp: wf_long_def)
  have e0: "entry f cs V k = ls ! 0" and kN: "k < dcount f cs"
    using entries_drop [OF en, of 0] n(1) by (simp_all add: nth_append)
  have fr: "\<forall>p < ?n. wf_lfn nm ?c (?n - 1 - p) (entry f cs V (k + p))"
    using w entries_drop(2) [OF en] by (auto simp: wf_long_def nth_append)
  have kn: "k + ?n < dcount f cs" using entries_drop(1) [OF en, of ?n] by simp
  from load_at [OF at dg ch kN] obtain s1 where s1: "dir_load E (dpos f cs d k, s) = (Inr (), dpos f cs d k, s1)"
    "at sectors valid s1 V f (gb, gl, cr)" "buf (fat s1) = ?b" "fsect (fat s1) = dsect f cs k" by blast
  note len = sect_length [OF at dg ch kN]
  have seq: "?b ! (32 * (k mod 16) + lfn_seq) = ls ! 0 ! lfn_seq" "?b ! (32 * (k mod 16) + lfn_crc) = ?c"
    using fr n(1) e0 len buf_entry [of V f cs k lfn_seq, OF len] buf_entry [of V f cs k lfn_crc, OF len]
    by (auto simp: wf_lfn_def field_defs)
  let ?s = "s1\<lparr>g_crc := ?c, g_len := 0\<rparr>"
  note at2 = at_work(2) [OF s1(2), where b' = 0 and c' = ?c]
  have pr: "buf (fat ?s) = ?b" "fsect (fat ?s) = dsect f cs k" "13 * ?n \<le> 512" "?n = 0 \<or> 13 * (?n - 1) < length nm"
    using s1(3,4) n by auto
  from parse_loop_at [OF at2 fg dg ch fr kn pr(1,2) gb pr(3,4) n(6), of d] n(4) obtain s' gb' where
    r: "parse_lfn_loop E ?n (dpos f cs d k, ?s) = (Inr (), dpos f cs d (k + ?n), s')"
    "at sectors valid s' V f (gb', of_nat (length nm), ?c)" "buf (fat s') = V (dsect f cs (k + ?n))"
    "fsect (fat s') = dsect f cs (k + ?n)" "length gb' = 512" "\<forall>x < length nm. gb' ! x = nm ! x"
    by (auto simp: min_absorb2)
  have "g_len s' = of_nat (length nm)" using r(2) by (simp add: at_def)
  moreover have "(of_nat (length nm) :: u16) \<le> 255" using n(5) unat_of_nat16 [of "length nm"] by (simp add: word_le_nat_alt)
  ultimately have "parse_lfn_name E (dpos f cs d k, s) = (Inr (), dpos f cs d (k + ?n), s')"
    using s1(1,3) seq r(1) n(2,7) by (simp add: parse_lfn_name_def Let_def ereturn_def)
  moreover have "take (length nm) gb' = nm" using r(5,6) n(5) by (intro nth_equalityI) auto
  ultimately show ?thesis using r by blast
qed

end

text \<open>What the search leaves: the cursor on the last entry of the item found, its sector loaded, or the
  end.\<close>

definition search_post :: "('d \<Rightarrow> u32 \<Rightarrow> bytes) \<Rightarrow> (u32 \<Rightarrow> bool) \<Rightarrow> (u32 \<Rightarrow> bytes) \<Rightarrow> fat \<Rightarrow> u32 list \<Rightarrow> dir \<Rightarrow>
    (nat \<times> nat) option \<Rightarrow> (int + loc) \<times> dir \<times> 'd st \<Rightarrow> bool" where
  "search_post sectors valid V f cs d found = (\<lambda>(r, d', s').
     d_sclust d' = d_sclust d \<and> (\<exists>gb gl cr. at sectors valid s' V f (gb, gl, cr) \<and> length gb = 512) \<and>
     (case found of
        None \<Rightarrow> r = Inl FAT_ERR_EOF
      | Some (a, b) \<Rightarrow> r = Inr \<lparr>loc_sect = dsect f cs a, loc_idx = of_nat (32 * (a mod 16))\<rparr> \<and> d' = dpos f cs d b \<and>
          buf (fat s') = V (dsect f cs b) \<and> fsect (fat s') = dsect f cs b))"

context disk
begin

text \<open>From the last entry of an item: either the loop goes on at the next item or the chain ends.\<close>

lemma search_continue:
  assumes at: "at sectors valid s V f (gb, gl, cr)" and gb: "length gb = 512"
    and fg: "fat_geom valid f" and dg: "data_geom valid f" and ch: "dir_chain f V cs" and k: "k < dcount f cs"
    and more: "\<And>s' gb' gl' cr'. Suc k < dcount f cs \<Longrightarrow> at sectors valid s' V f (gb', gl', cr') \<Longrightarrow> length gb' = 512 \<Longrightarrow>
      search_post sectors valid V f cs d found (m (dpos f cs d (Suc k), s'))"
    and stop: "\<not> Suc k < dcount f cs \<Longrightarrow> found = None"
  shows "search_post sectors valid V f cs d found (ebind (dir_next E) (\<lambda>_. m) (dpos f cs d k, s))"
proof (cases "Suc k < dcount f cs")
  case True
  from dir_next_at [OF at fg dg ch True, of d] obtain s' where
    "dir_next E (dpos f cs d k, s) = (Inr (), dpos f cs d (Suc k), s')" "at sectors valid s' V f (gb, gl, cr)" by blast
  with more [OF True] gb show ?thesis by auto
next
  case False
  from dir_next_end [OF at fg dg ch k False, of d] obtain s' d' where
    "dir_next E (dpos f cs d k, s) = (Inl FAT_ERR_EOF, d', s')" "at sectors valid s' V f (gb, gl, cr)" "d_sclust d' = d_sclust d" by blast
  with stop [OF False] gb show ?thesis by (auto simp: search_post_def)
qed

lemma search_loop_at:
  assumes "at sectors valid s V f (gb, gl, cr)" and "length gb = 512"
    and fg: "fat_geom valid f" and dg: "data_geom valid f" and ch: "dir_chain f V cs"
    and "drop k (entries f cs V) = concat (map enc items) @ rest" and "\<forall>it \<in> set items. wf_item it"
    and em: "end_mark rest" and "k < dcount f cs" and "length items < n" and nl: "len \<le> length name"
  shows "search_post sectors valid V f cs d (find_item name len k items)
    (dir_search_loop E n (put_sfn_name name len) name len (dpos f cs d k, s))"
  using assms(1,2,6,7,9,10)
proof (induction items arbitrary: k s gb gl cr n)
  case Nil
  then obtain m where n: "n = Suc m" by (cases n) auto
  from load_at [OF Nil(1) dg ch Nil(5)] obtain s1 where s1: "dir_load E (dpos f cs d k, s) = (Inr (), dpos f cs d k, s1)"
    "at sectors valid s1 V f (gb, gl, cr)" "buf (fat s1) = V (dsect f cs k)" by blast
  have "rest \<noteq> []" using Nil(3,5) by (auto simp: entries_def)
  with em Nil(3) entries_drop(2) [of k f cs V rest "[]" 0] have "entry f cs V k ! 0 = SFN_LAST" by (auto simp: end_mark_def hd_conv_nth)
  then have "sfn_is_last (V (dsect f cs k)) (32 * (k mod 16))"
    using buf_entry0 [of V f cs k, OF sect_length [OF Nil(1) dg ch Nil(5)]] by (simp add: sfn_is_last_def)
  with s1 Nil(2) show ?case by (auto simp: n Let_def ethrow_def search_post_def)
next
  case (Cons it its)
  obtain m where n: "n = Suc m" and m: "length its < m" using Cons.prems(6) by (cases n) auto
  let ?sn = "put_sfn_name name len"
  have wf: "wf_item it" and wfs: "\<forall>it \<in> set its. wf_item it" using Cons.prems(4) by auto
  have dr: "drop k (entries f cs V) = enc it @ concat (map enc its) @ rest" using Cons.prems(3) by simp
  let ?k = "k + length (enc it) - 1"
  have sk: "Suc ?k = k + length (enc it)" using enc_pos [OF wf] by simp
  have kl: "?k < dcount f cs" using entries_drop(1) [OF dr, of "length (enc it) - 1"] enc_pos [OF wf] by simp
  have dr': "drop (Suc ?k) (entries f cs V) = concat (map enc its) @ rest"
    using dr unfolding sk by (metis add.commute append_eq_conv_conj drop_drop)
  note len = sect_length [OF Cons.prems(1) dg ch Cons.prems(5)]
  from load_at [OF Cons.prems(1) dg ch Cons.prems(5)] obtain s1 where
    s1: "dir_load E (dpos f cs d k, s) = (Inr (), dpos f cs d k, s1)"
    "at sectors valid s1 V f (gb, gl, cr)" "buf (fat s1) = V (dsect f cs k)" "fsect (fat s1) = dsect f cs k" by blast
  have cont: "search_post sectors valid V f cs d (find_item name len (Suc ?k) its)
      (ebind (dir_next E) (\<lambda>_. dir_search_loop E m ?sn name len) (dpos f cs d ?k, s'))"
    if "at sectors valid s' V f (gb', gl', cr')" "length gb' = 512" for s' gb' gl' cr'
  proof (rule search_continue [OF that fg dg ch kl])
    show "search_post sectors valid V f cs d (find_item name len (Suc ?k) its)
        (dir_search_loop E m ?sn name len (dpos f cs d (Suc ?k), s''))"
      if "Suc ?k < dcount f cs" "at sectors valid s'' V f (gb'', gl'', cr'')" "length gb'' = 512" for s'' gb'' gl'' cr''
      using Cons.IH [OF that(2,3) dr' wfs that(1) m] .
    assume "\<not> Suc ?k < dcount f cs"
    then have "concat (map enc its) @ rest = []" using dr' by (simp add: entries_def)
    then have "its = []" using wfs enc_pos by (cases its) fastforce+
    then show "find_item name len (Suc ?k) its = None" by simp
  qed
  have e: "entry f cs V k = enc it ! 0" using entries_drop(2) [OF dr, of 0] enc_pos [OF wf] by simp
  note b0 = buf_entry0 [of V f cs k, OF len] and ba = buf_entry [of V f cs k sfn_attr, OF len]
    and bt = buf_entry_take [of V f cs k, OF len]
  show ?case
  proof (cases it)
    case (Gone e')
    then have "\<not> sfn_is_last (V (dsect f cs k)) (32 * (k mod 16))" "sfn_is_free (V (dsect f cs k)) (32 * (k mod 16))"
      using wf e b0 by (simp_all add: sfn_is_last_def sfn_is_free_def SFN_LAST_def SFN_FREE_def)
    then show ?thesis using s1(1,3) cont [OF s1(2) Cons.prems(2)] Gone by (simp add: n Let_def)
  next
    case (Short e')
    then have "\<not> sfn_is_last (V (dsect f cs k)) (32 * (k mod 16))" "\<not> sfn_is_free (V (dsect f cs k)) (32 * (k mod 16))"
      "\<not> sfn_is_lfn (V (dsect f cs k)) (32 * (k mod 16))"
      using wf e b0 ba by (simp_all add: sfn_is_last_def sfn_is_free_def sfn_is_lfn_def wf_sfn_def field_defs)
    then show ?thesis using s1 cont [OF s1(2) Cons.prems(2)] Short bt e Cons.prems(2)
      by (auto simp: n Let_def ereturn_def search_post_def simp del: of_nat_mult)
  next
    case (Long nm ls e')
    let ?l = "k + length ls"
    have w: "wf_long nm ls e'" using wf Long by simp
    then have ls: "0 < length ls" "wf_lfn nm (get_crc (take 11 e')) (length ls - 1) (ls ! 0)" by (auto simp: wf_long_def)
    have e0: "entry f cs V k = ls ! 0" using e Long ls(1) by (simp add: nth_append)
    have f1: "\<not> sfn_is_last (V (dsect f cs k)) (32 * (k mod 16))" "\<not> sfn_is_free (V (dsect f cs k)) (32 * (k mod 16))"
      "sfn_is_lfn (V (dsect f cs k)) (32 * (k mod 16))"
      using w e0 b0 ba ls(2) by (simp_all add: sfn_is_last_def sfn_is_free_def sfn_is_lfn_def wf_long_def wf_lfn_def field_defs)
    from dr Long have dr2: "drop k (entries f cs V) = (ls @ [e']) @ concat (map enc its) @ rest" by simp
    from parse_lfn_at [OF s1(2) fg dg ch w dr2 Cons.prems(2), of d] obtain s2 gb' where
      s2: "parse_lfn_name E (dpos f cs d k, s1) = (Inr (), dpos f cs d ?l, s2)"
      "at sectors valid s2 V f (gb', of_nat (length nm), get_crc (take 11 e'))" "buf (fat s2) = V (dsect f cs ?l)"
      "fsect (fat s2) = dsect f cs ?l" "length gb' = 512" "take (length nm) gb' = nm" by blast
    have el: "entry f cs V ?l = e'" and lN: "?l < dcount f cs" using entries_drop [OF dr2, of "length ls"] by simp_all
    note len2 = sect_length [OF Cons.prems(1) dg ch lN]
    have f2: "\<not> sfn_is_free (V (dsect f cs ?l)) (32 * (?l mod 16))" "\<not> sfn_is_lfn (V (dsect f cs ?l)) (32 * (?l mod 16))"
      "get_bytes (V (dsect f cs ?l)) (32 * (?l mod 16)) 11 = take 11 e'"
      using w el buf_entry0 [of V f cs ?l, OF len2] buf_entry [of V f cs ?l sfn_attr, OF len2] buf_entry_take [of V f cs ?l, OF len2]
      by (simp_all add: sfn_is_free_def sfn_is_lfn_def wf_long_def wf_sfn_def field_defs)
    have g: "g_crc s2 = get_crc (take 11 e')" "g_len s2 = of_nat (length nm)" "g_buf s2 = gb'" using s2(2) by (simp_all add: at_def)
    have nm: "unat (of_nat (length nm) :: u16) = length nm" using w by (intro unat_of_nat16) (simp add: wf_long_def)
    have ne: "name_eq gb' name len = name_eq nm name len" if "length nm = len"
      using name_eq_map [of len gb' name] name_eq_map [of len nm name] that s2(5,6) nl w by (simp add: wf_long_def)
    have kk: "?k = ?l" using Long by simp
    show ?thesis using s1(1,3) s2 f1 f2 g nm ne cont [OF s2(2,5)] Long
      by (auto simp: n kk Let_def ereturn_def search_post_def simp del: of_nat_mult)
  qed
qed

lemma dir_search_at:
  assumes at: "at sectors valid s V f (gb, gl, cr)" and gb: "length gb = 512"
    and fg: "fat_geom valid f" and dg: "data_geom valid f" and ch: "dir_chain f V cs" and hd: "hd cs = d_sclust d"
    and en: "entries f cs V = concat (map enc items) @ rest" and wf: "\<forall>it \<in> set items. wf_item it" and em: "end_mark rest"
    and n: "length items < fuel E" and nl: "len \<le> length name"
  shows "search_post sectors valid V f cs d (find_item name len 0 items) (dir_search E name len (d, s))"
proof -
  have "cs \<noteq> []" using ch by (auto simp: dir_chain_def)
  then have k: "0 < dcount f cs" using spc_pos [of f] by (simp add: dcount_def)
  have "dir_at_clust (d_sclust d) (fat s) d = dpos f cs d 0"
    using hd \<open>cs \<noteq> []\<close> at_fields [OF at] by (simp add: dir_at_clust_def dpos_def dsect_def clust_to_sect_def hd_conv_nth)
  then have "dir_search E name len (d, s) =
      dir_search_loop E (fuel E) (put_sfn_name name len) name len (dpos f cs d 0, s)"
    by (simp add: dir_search_def on_dir_def)
  then show ?thesis using search_loop_at [OF at gb fg dg ch _ wf em k n nl, of d] en by simp
qed

end

end
