(* ===== verification/FatAdd.thy ===== *)
theory FatAdd
  imports FatSearch
begin

text \<open>
  Adding an entry.  \<^verbatim>\<open>dir_add\<close> looks for enough free entries in a row, renews the end mark if it went
  past it, and writes the fragments of the long name and the short entry.  On a directory with
  room it is proved to put exactly one new item in the place of deleted ones or before the end.
\<close>

section \<open>The new entries\<close>

lemma lfn_other_offsets:
  "\<forall>i \<in> set [0..<13]. g_lfn_indices ! i \<noteq> 0 \<and> g_lfn_indices ! i \<noteq> 11 \<and> g_lfn_indices ! i \<noteq> 12 \<and> g_lfn_indices ! i \<noteq> 13 \<and>
     g_lfn_indices ! i \<noteq> 26 \<and> g_lfn_indices ! i \<noteq> 27"
  by code_simp

lemma lfn_offset: "i < 13 \<Longrightarrow> g_lfn_indices ! i \<notin> {0, 11, 12, 13, 26, 27}"
  using lfn_other_offsets by auto

lemma length_put_lfn_name_frag [simp]: "length (put_lfn_name_frag raw name len) = length raw"
  by (simp add: put_lfn_name_frag_def Let_def)

lemma lfn_entry_wf:
  assumes i: "0 < i" "i \<le> 20" and raw: "length raw = 32" and len: "13 * (i - 1) < len" "len \<le> length name" and m: "msk = 0 \<or> msk = LFN_HEAD_MSK"
  shows "wf_lfn (take len name) crc (i - 1) (lfn_entry name len crc msk i raw)"
    and "lfn_entry name len crc msk i raw ! 0 = msk OR of_nat i"
proof -
  let ?e = "lfn_entry name len crc msk i raw" and ?l = "min (len - 13 * (i - 1)) 13"
  show seq: "?e ! 0 = msk OR of_nat i" using raw by (simp add: lfn_entry_def Let_def field_defs put_u16_def)
  have "i \<in> set [1..<21]" using i by simp
  moreover have "\<forall>i \<in> set [1..<21]. (0 OR of_nat i :: u8) \<noteq> SFN_LAST \<and> (0 OR of_nat i :: u8) \<noteq> SFN_FREE \<and>
      (LFN_HEAD_MSK OR of_nat i) \<noteq> SFN_LAST \<and> (LFN_HEAD_MSK OR of_nat i) \<noteq> SFN_FREE" by code_simp
  ultimately have nf: "?e ! 0 \<noteq> SFN_LAST" "?e ! 0 \<noteq> SFN_FREE" unfolding seq using m by auto
  have "?e ! (g_lfn_indices ! j) = (if j < ?l then drop (13 * (i - 1)) name ! j else 0)" if "j < 13" "j \<le> ?l" for j
  proof -
    have "?e ! (g_lfn_indices ! j) = put_lfn_name_frag raw (drop (13 * (i - 1)) name) ?l ! (g_lfn_indices ! j)"
      using lfn_offset [OF that(1)] by (simp add: lfn_entry_def Let_def field_defs put_u16_def)
    then show ?thesis using that raw by (simp add: put_lfn_name_frag_nth)
  qed
  then have "?e ! (g_lfn_indices ! j) = (if 13 * (i - 1) + j < length (take len name) then take len name ! (13 * (i - 1) + j) else 0)"
    if "j < 13" "13 * (i - 1) + j \<le> length (take len name)" for j
    using that len by auto
  then show "wf_lfn (take len name) crc (i - 1) ?e"
    using raw nf by (auto simp: wf_lfn_def lfn_entry_def Let_def field_defs put_u16_def)
qed

lemma length_sfn_entry [simp]: "length (sfn_entry sn attr clust raw) = length raw"
  by (simp add: sfn_entry_def Let_def split: prod.splits)

lemma sfn_entry_bytes:
  assumes "length raw = 32"
  shows "k < 11 \<Longrightarrow> sfn_entry sn attr clust raw ! k = put_bytes raw 0 sn ! k"
    and "sfn_entry sn attr clust raw ! 11 = attr"
    and "sfn_entry sn attr clust raw ! 20 = ucast (ucast (drop_bit 16 clust) :: u16)"
    and "sfn_entry sn attr clust raw ! 21 = ucast (drop_bit 8 (ucast (drop_bit 16 clust) :: u16))"
    and "sfn_entry sn attr clust raw ! 26 = ucast (ucast (clust AND 0xffff) :: u16)"
    and "sfn_entry sn attr clust raw ! 27 = ucast (drop_bit 8 (ucast (clust AND 0xffff) :: u16))"
    and "28 \<le> k \<Longrightarrow> k < 32 \<Longrightarrow> sfn_entry sn attr clust raw ! k = 0"
  using assms by (auto simp: sfn_entry_def Let_def field_defs put_u16_def put_u32_def nth_list_update split: prod.splits)

lemma word16_of_bytes: "ucast (ucast h :: u8) OR push_bit 8 (ucast (ucast (drop_bit 8 h) :: u8)) = h" (is "?l = h") for h :: u16
proof (rule bit_word_eqI)
  fix n assume "n < LENGTH(16)"
  then show "bit ?l n = bit h n" by (cases "n < 8") (auto simp: bit_simps)
qed

lemma word32_of_halves:
  "push_bit 16 (ucast (ucast (drop_bit 16 w) :: u16)) OR ucast (ucast (w AND 0xffff) :: u16) = w" (is "?l = w") for w :: u32
proof -
  have m: "w AND 0xffff = take_bit 16 w" by (simp add: take_bit_eq_mask mask_eq_exp_minus_1)
  show ?thesis unfolding m
  proof (rule bit_word_eqI)
    fix n assume "n < LENGTH(32)"
    then show "bit (push_bit 16 (ucast (ucast (drop_bit 16 w) :: u16)) OR ucast (ucast (take_bit 16 w) :: u16) :: u32) n = bit w n"
      by (cases "n < 16") (auto simp: bit_simps)
  qed
qed

lemma sfn_entry_fields:
  assumes raw: "length raw = 32" and sn: "length sn = 11"
  shows "take 11 (sfn_entry sn attr clust raw) = sn" "sfn_entry sn attr clust raw ! sfn_attr = attr"
    "sfn_cluster (sfn_entry sn attr clust raw) 0 = clust" "get_u32 (sfn_entry sn attr clust raw) sfn_size = 0"
proof -
  show "take 11 (sfn_entry sn attr clust raw) = sn"
    using raw sn by (intro nth_equalityI) (auto simp: sfn_entry_bytes(1) put_bytes_nth)
  show "sfn_entry sn attr clust raw ! sfn_attr = attr" by (simp add: sfn_attr_def sfn_entry_bytes(2) [OF raw])
  have "get_u16 (sfn_entry sn attr clust raw) sfn_clust_hi = ucast (drop_bit 16 clust)"
    using word16_of_bytes [of "ucast (drop_bit 16 clust)"] by (simp add: get_u16_def field_defs sfn_entry_bytes [OF raw])
  moreover have "get_u16 (sfn_entry sn attr clust raw) sfn_clust_lo = ucast (clust AND 0xffff)"
    using word16_of_bytes [of "ucast (clust AND 0xffff)"] by (simp add: get_u16_def field_defs sfn_entry_bytes [OF raw])
  ultimately show "sfn_cluster (sfn_entry sn attr clust raw) 0 = clust"
    using word32_of_halves [of clust] by (simp add: sfn_cluster_def)
  show "get_u32 (sfn_entry sn attr clust raw) sfn_size = 0"
    by (simp add: get_u32_def sfn_size_def sfn_entry_bytes(7) [OF raw])
qed

section \<open>Where the new entries go\<close>

text \<open>The search over items: whether the end mark was met, and the entry where the row starts.\<close>

fun afind :: "nat \<Rightarrow> nat \<Rightarrow> nat \<Rightarrow> item list \<Rightarrow> bool \<times> nat" where
  "afind need k cnt [] = (True, k - cnt)"
| "afind need k cnt (Gone e # its) = (if Suc cnt = need then (False, k - cnt) else afind need (Suc k) (Suc cnt) its)"
| "afind need k cnt (it # its) = afind need (k + length (enc it)) 0 its"

definition gone :: "item \<Rightarrow> bool" where
  "gone it \<longleftrightarrow> (case it of Gone e \<Rightarrow> True | _ \<Rightarrow> False)"

lemma gone_simps [simp]: "gone (Gone e)" "\<not> gone (Short e)" "\<not> gone (Long nm ls e)"
  by (simp_all add: gone_def)

lemma enc_gone: "\<forall>g \<in> set gs. gone g \<Longrightarrow> length (concat (map enc gs)) = length gs"
  by (induction gs) (auto simp: gone_def split: item.splits)

lemma afind_split:
  assumes "afind need k cnt items = (eod, p)" and "cnt < need" and "length pre = cnt" and "\<forall>g \<in> set pre. gone g" and "cnt \<le> k"
  shows "\<exists>xs gs ys. pre @ items = xs @ gs @ ys \<and> (\<forall>g \<in> set gs. gone g) \<and> p = k - cnt + length (concat (map enc xs)) \<and>
    (if eod then ys = [] \<and> length gs < need else length gs = need)"
  using assms
proof (induction need k cnt items arbitrary: pre rule: afind.induct [case_names none freed short long])
  case (none need k cnt)
  then show ?case by (intro exI [of _ "[]"] exI [of _ pre]) auto
next
  case (freed need k cnt e its)
  show ?case
  proof (cases "Suc cnt = need")
    case True
    with freed show ?thesis by (intro exI [of _ "[]"] exI [of _ "pre @ [Gone e]"] exI [of _ its]) auto
  next
    case False
    have "\<exists>xs gs ys. (pre @ [Gone e]) @ its = xs @ gs @ ys \<and> (\<forall>g \<in> set gs. gone g) \<and> p = Suc k - Suc cnt + length (concat (map enc xs)) \<and>
      (if eod then ys = [] \<and> length gs < need else length gs = need)"
      by (rule freed.IH) (use False freed in auto)
    then show ?thesis by simp
  qed
next
  case (short need k cnt e its)
  from short.IH [of "[]"] short.prems obtain xs gs ys where x: "its = xs @ gs @ ys" "\<forall>g \<in> set gs. gone g"
    "p = Suc k + length (concat (map enc xs))" "if eod then ys = [] \<and> length gs < need else length gs = need" by auto
  moreover have "length (concat (map enc pre)) = cnt" using enc_gone [of pre] short.prems by simp
  ultimately show ?case using short.prems
    by (intro exI [of _ "pre @ Short e # xs"] exI [of _ gs] exI [of _ ys]) auto
next
  case (long need k cnt nm ls e its)
  from long.IH [of "[]"] long.prems obtain xs gs ys where x: "its = xs @ gs @ ys" "\<forall>g \<in> set gs. gone g"
    "p = Suc (k + length ls) + length (concat (map enc xs))" "if eod then ys = [] \<and> length gs < need else length gs = need" by auto
  moreover have "length (concat (map enc pre)) = cnt" using enc_gone [of pre] long.prems by simp
  ultimately show ?case using long.prems
    by (intro exI [of _ "pre @ Long nm ls e # xs"] exI [of _ gs] exI [of _ ys]) auto
qed

lemma drop_app: "drop k xs = a @ b \<Longrightarrow> drop (k + length a) xs = b"
  by (metis add.commute append_eq_conv_conj drop_drop)

definition pos_loc :: "fat \<Rightarrow> u32 list \<Rightarrow> nat \<Rightarrow> loc" where
  "pos_loc f cs k = \<lparr>loc_sect = dsect f cs k, loc_idx = of_nat (32 * (k mod 16))\<rparr>"

context disk
begin

lemma next_stretch_at:
  assumes "at sectors valid s V f g" "fat_geom valid f" "data_geom valid f" "dir_chain f V cs" "Suc k < dcount f cs"
  shows "\<exists>s'. dir_next_stretch E (dpos f cs d k, s) = (Inr (), dpos f cs d (Suc k), s') \<and> at sectors valid s' V f g"
  using dir_next_at [OF assms, of d] by (auto simp: dir_next_stretch_def ereturn_def)

text \<open>One round of the search.\<close>

lemma find_round:
  assumes at: "at sectors valid s V f g" and fg: "fat_geom valid f" and dg: "data_geom valid f" and ch: "dir_chain f V cs"
    and k: "Suc k < dcount f cs" and c: "cnt < need"
    and fr: "fr \<longleftrightarrow> eod \<or> entry f cs V k ! 0 = SFN_LAST \<or> entry f cs V k ! 0 = SFN_FREE"
  shows "\<exists>s'. dir_add_find E (Suc n) need cnt eod loc (dpos f cs d k, s) =
      dir_add_find E n need (if fr then Suc cnt else 0) (eod \<or> entry f cs V k ! 0 = SFN_LAST)
        (if fr \<and> cnt = 0 then pos_loc f cs k else loc) (dpos f cs d (Suc k), s') \<and> at sectors valid s' V f g"
proof -
  have kN: "k < dcount f cs" using k by simp
  from load_at [OF at dg ch kN] obtain s1 where s1: "dir_load E (dpos f cs d k, s) = (Inr (), dpos f cs d k, s1)"
    "at sectors valid s1 V f g" "buf (fat s1) = V (dsect f cs k)" by blast
  from next_stretch_at [OF s1(2) fg dg ch k, of d] obtain s2 where
    s2: "dir_next_stretch E (dpos f cs d k, s1) = (Inr (), dpos f cs d (Suc k), s2)" "at sectors valid s2 V f g" by blast
  note b0 = buf_entry0 [of V f cs k, OF sect_length [OF at dg ch kN]]
  have "dir_add_find E (Suc n) need cnt eod loc (dpos f cs d k, s) =
      dir_add_find E n need (if fr then Suc cnt else 0) (eod \<or> entry f cs V k ! 0 = SFN_LAST)
        (if fr \<and> cnt = 0 then pos_loc f cs k else loc) (dpos f cs d (Suc k), s2)"
    using s1(1,3) s2(1) c b0 fr by (simp add: Let_def sfn_is_last_def sfn_is_free_def pos_loc_def)
  with s2(2) show ?thesis by blast
qed

lemma find_eod:
  assumes "at sectors valid s V f g" and fg: "fat_geom valid f" and dg: "data_geom valid f" and ch: "dir_chain f V cs"
    and "k + (need - cnt) < dcount f cs" and "0 < cnt" "cnt \<le> need" and "need - cnt \<le> n"
  shows "\<exists>s'. dir_add_find E n need cnt True loc (dpos f cs d k, s) = (Inr (True, loc), dpos f cs d (k + (need - cnt)), s') \<and>
    at sectors valid s' V f g"
  using assms(1,5-8)
proof (induction "need - cnt" arbitrary: k cnt s n)
  case 0
  then have "\<not> cnt < need" by simp
  then show ?case using 0 by (cases n) (auto simp: ereturn_def)
next
  case (Suc m)
  then obtain n' where n: "n = Suc n'" by (cases n) auto
  have p: "Suc k < dcount f cs" "cnt < need" using Suc by auto
  from find_round [OF Suc.prems(1) fg dg ch p, of True True n' loc d] obtain s1 where
    s1: "dir_add_find E n need cnt True loc (dpos f cs d k, s) = dir_add_find E n' need (Suc cnt) True loc (dpos f cs d (Suc k), s1)"
    "at sectors valid s1 V f g" using Suc.prems(3) n by auto
  have "\<exists>s'. dir_add_find E n' need (Suc cnt) True loc (dpos f cs d (Suc k), s1) =
      (Inr (True, loc), dpos f cs d (Suc k + (need - Suc cnt)), s') \<and> at sectors valid s' V f g"
    by (rule Suc.hyps(1) [OF _ s1(2)]) (use Suc n in auto)
  moreover have "Suc k + (need - Suc cnt) = k + (need - cnt)" using p(2) by simp
  ultimately show ?case using s1(1) by metis
qed

text \<open>Entries in use are passed over.\<close>

lemma find_skip:
  assumes "at sectors valid s V f g" and fg: "fat_geom valid f" and dg: "data_geom valid f" and ch: "dir_chain f V cs"
    and "\<forall>j < m. entry f cs V (k + j) ! 0 \<noteq> SFN_LAST \<and> entry f cs V (k + j) ! 0 \<noteq> SFN_FREE"
    and "k + m < dcount f cs" and "cnt < need" and "0 < m"
  shows "\<exists>s'. dir_add_find E (m + n) need cnt False loc (dpos f cs d k, s) =
      dir_add_find E n need 0 False loc (dpos f cs d (k + m), s') \<and> at sectors valid s' V f g"
  using assms(1,5-8)
proof (induction m arbitrary: k cnt s)
  case (Suc m)
  have p: "Suc k < dcount f cs" using Suc.prems by simp
  have e: "entry f cs V k ! 0 \<noteq> SFN_LAST" "entry f cs V k ! 0 \<noteq> SFN_FREE" using Suc.prems(2) [rule_format, of 0] by auto
  from find_round [OF Suc.prems(1) fg dg ch p Suc.prems(4), of False False "m + n" loc d] e obtain s1 where
    s1: "dir_add_find E (Suc m + n) need cnt False loc (dpos f cs d k, s) = dir_add_find E (m + n) need 0 False loc (dpos f cs d (Suc k), s1)"
    "at sectors valid s1 V f g" by auto
  show ?case
  proof (cases m)
    case 0
    with s1 show ?thesis by auto
  next
    case (Suc m')
    have "\<exists>s'. dir_add_find E (m + n) need 0 False loc (dpos f cs d (Suc k), s1) =
      dir_add_find E n need 0 False loc (dpos f cs d (Suc k + m), s') \<and> at sectors valid s' V f g"
      by (rule Suc.IH [OF s1(2)]) (use Suc.prems Suc in \<open>auto dest: spec [of _ "Suc _"]\<close>)
    with s1(1) show ?thesis by auto
  qed
qed simp

lemma find_used:
  assumes at: "at sectors valid s V f g" and fg: "fat_geom valid f" and dg: "data_geom valid f" and ch: "dir_chain f V cs"
    and dr: "drop k (entries f cs V) = enc it @ r" and r: "r \<noteq> []" and wf: "wf_item it" and u: "\<not> gone it"
    and c: "cnt < need" and n: "length (enc it) \<le> n"
  shows "\<exists>s'. dir_add_find E n need cnt False loc (dpos f cs d k, s) =
      dir_add_find E (n - length (enc it)) need 0 False loc (dpos f cs d (k + length (enc it)), s') \<and> at sectors valid s' V f g"
proof -
  have "enc it ! j ! 0 \<noteq> SFN_LAST \<and> enc it ! j ! 0 \<noteq> SFN_FREE" if "j < length (enc it)" for j
    using wf u that by (cases it) (auto simp: wf_sfn_def wf_long_def wf_lfn_def nth_append less_Suc_eq)
  then have e: "\<forall>j < length (enc it). entry f cs V (k + j) ! 0 \<noteq> SFN_LAST \<and> entry f cs V (k + j) ! 0 \<noteq> SFN_FREE"
    using entries_drop(2) [OF dr] by simp
  have "drop k (entries f cs V) = (enc it @ [hd r]) @ tl r" using dr r by simp
  then have k: "k + length (enc it) < dcount f cs" by (rule entries_drop(1)) simp
  from find_skip [OF at fg dg ch e k c enc_pos [OF wf], of "n - length (enc it)" loc d] n show ?thesis by simp
qed

lemma find_at:
  assumes "at sectors valid s V f g" and fg: "fat_geom valid f" and dg: "data_geom valid f" and ch: "dir_chain f V cs"
    and "drop k (entries f cs V) = concat (map enc items) @ rest" and "\<forall>it \<in> set items. wf_item it"
    and em: "end_mark rest" and "cnt < need" and "cnt \<le> k"
    and "0 < cnt \<longrightarrow> loc = pos_loc f cs (k - cnt)" and "length (concat (map enc items)) + need \<le> n" and "need < length rest"
  shows "\<exists>s' eod p. afind need k cnt items = (eod, p) \<and> at sectors valid s' V f g \<and>
    dir_add_find E n need cnt False loc (dpos f cs d k, s) = (Inr (eod, pos_loc f cs p), dpos f cs d (p + need), s')"
  using assms(1,5,6,8-12)
proof (induction need k cnt items arbitrary: s n loc rule: afind.induct [case_names none freed short long])
  case (none need k cnt)
  note room = none(8)
  from none obtain m where n: "n = Suc m" by (cases n) auto
  have e: "entry f cs V k ! 0 = SFN_LAST"
    using em room none(2) entries_drop(2) [of k f cs V rest "[]" 0] by (auto simp: end_mark_def hd_conv_nth)
  have kr: "k + need < dcount f cs" using entries_drop(1) [of k f cs V rest "[]" need] none(2) room by simp
  then have p: "Suc k < dcount f cs" using none(4) by simp
  from find_round [OF none(1) fg dg ch p none(4), of True False m loc d] e obtain s1 where
    s1: "dir_add_find E n need cnt False loc (dpos f cs d k, s) =
      dir_add_find E m need (Suc cnt) True (pos_loc f cs (k - cnt)) (dpos f cs d (Suc k), s1)"
    "at sectors valid s1 V f g" using none(6) n by (cases "cnt = 0") auto
  have "\<exists>s'. dir_add_find E m need (Suc cnt) True (pos_loc f cs (k - cnt)) (dpos f cs d (Suc k), s1) =
      (Inr (True, pos_loc f cs (k - cnt)), dpos f cs d (Suc k + (need - Suc cnt)), s') \<and> at sectors valid s' V f g"
    by (rule find_eod [OF s1(2) fg dg ch]) (use none n kr in auto)
  moreover have "Suc k + (need - Suc cnt) = k - cnt + need" using none(4,5) by simp
  ultimately show ?case using s1(1) by auto
next
  case (freed need k cnt e its)
  note room = freed(9)
  from freed obtain m where n: "n = Suc m" by (cases n) auto
  have dr: "drop k (entries f cs V) = [e] @ (concat (map enc its) @ rest)" using freed(3) by simp
  have ek: "entry f cs V k ! 0 = SFN_FREE" "entry f cs V k ! 0 \<noteq> SFN_LAST"
    using entries_drop(2) [OF dr, of 0] freed(4) by (auto simp: SFN_FREE_def SFN_LAST_def)
  have dr': "drop (Suc k) (entries f cs V) = concat (map enc its) @ rest" using dr by (metis add.commute append_Cons append_Nil drop0 drop_Suc_Cons drop_drop plus_1_eq_Suc)
  have p: "Suc k < dcount f cs" using arg_cong [OF dr', of length] room by (auto simp: entries_def)
  from find_round [OF freed(2) fg dg ch p freed(5), of True False m loc d] ek obtain s1 where
    s1: "dir_add_find E n need cnt False loc (dpos f cs d k, s) =
      dir_add_find E m need (Suc cnt) False (pos_loc f cs (k - cnt)) (dpos f cs d (Suc k), s1)"
    "at sectors valid s1 V f g" using freed(7) n by (cases "cnt = 0") auto
  show ?case
  proof (cases "Suc cnt = need")
    case True
    then have "dir_add_find E m need (Suc cnt) False (pos_loc f cs (k - cnt)) (dpos f cs d (Suc k), s1) =
      (Inr (False, pos_loc f cs (k - cnt)), dpos f cs d (Suc k), s1)" by (cases m) (auto simp: ereturn_def)
    then show ?thesis using s1 True freed(6) by auto
  next
    case False
    have "\<exists>s' eod p. afind need (Suc k) (Suc cnt) its = (eod, p) \<and> at sectors valid s' V f g \<and>
      dir_add_find E m need (Suc cnt) False (pos_loc f cs (k - cnt)) (dpos f cs d (Suc k), s1) =
        (Inr (eod, pos_loc f cs p), dpos f cs d (p + need), s')"
      by (rule freed.IH [OF False s1(2) dr']) (use freed False n in auto)
    then show ?thesis using s1(1) False by simp
  qed
next
  case (short need k cnt e its)
  note room = short.prems(8)
  have dr: "drop k (entries f cs V) = enc (Short e) @ (concat (map enc its) @ rest)" using short.prems by simp
  have "concat (map enc its) @ rest \<noteq> []" "wf_item (Short e)" "\<not> gone (Short e)" "length (enc (Short e)) \<le> n"
    using short.prems room by auto
  from find_used [OF short.prems(1) fg dg ch dr this(1-3) short.prems(4) this(4), of loc d] obtain s1 where s1:
    "dir_add_find E n need cnt False loc (dpos f cs d k, s) = dir_add_find E (n - 1) need 0 False loc (dpos f cs d (k + 1), s1)"
    "at sectors valid s1 V f g" by auto
  have "\<exists>s' eod p. afind need (k + length (enc (Short e))) 0 its = (eod, p) \<and> at sectors valid s' V f g \<and>
      dir_add_find E (n - 1) need 0 False loc (dpos f cs d (k + length (enc (Short e))), s1) =
        (Inr (eod, pos_loc f cs p), dpos f cs d (p + need), s')"
    by (rule short.IH [OF s1(2) drop_app [OF dr]]) (use short.prems in auto)
  with s1(1) show ?case by simp
next
  case (long need k cnt nm ls e its)
  note room = long.prems(8)
  let ?it = "Long nm ls e"
  have dr: "drop k (entries f cs V) = enc ?it @ (concat (map enc its) @ rest)" using long.prems by simp
  have "concat (map enc its) @ rest \<noteq> []" "wf_item ?it" "\<not> gone ?it" "length (enc ?it) \<le> n"
    using long.prems room by auto
  from find_used [OF long.prems(1) fg dg ch dr this(1-3) long.prems(4) this(4), of loc d] obtain s1 where s1:
    "dir_add_find E n need cnt False loc (dpos f cs d k, s) =
      dir_add_find E (n - length (enc ?it)) need 0 False loc (dpos f cs d (k + length (enc ?it)), s1)"
    "at sectors valid s1 V f g" by blast
  have "\<exists>s' eod p. afind need (k + length (enc ?it)) 0 its = (eod, p) \<and> at sectors valid s' V f g \<and>
      dir_add_find E (n - length (enc ?it)) need 0 False loc (dpos f cs d (k + length (enc ?it)), s1) =
        (Inr (eod, pos_loc f cs p), dpos f cs d (p + need), s')"
    by (rule long.IH [OF s1(2) drop_app [OF dr]]) (use long.prems in auto)
  with s1(1) show ?case by simp
qed

end

section \<open>Writing the entries\<close>

definition dir_sectors :: "fat \<Rightarrow> u32 list \<Rightarrow> u32 set" where
  "dir_sectors f cs = dsect f cs ` {..<dcount f cs}"

lemma entries_eput:
  assumes g: "data_geom valid f" and ch: "dir_chain f V cs" and ok: "vol_ok valid V" and k: "k < dcount f cs"
    and F: "length (F (entry f cs V k)) = 32"
  shows "entries f cs (eput f cs k F V) = (entries f cs V)[k := F (entries f cs V ! k)]"
  using entry_eput [where F = F, OF g ch ok _ k F] k by (intro nth_equalityI) (auto simp: entries_def nth_list_update)

text \<open>The fragments, last first, over the list of entries.\<close>

fun alfns :: "bytes \<Rightarrow> nat \<Rightarrow> u8 \<Rightarrow> u8 \<Rightarrow> nat \<Rightarrow> nat \<Rightarrow> bytes list \<Rightarrow> bytes list" where
  "alfns name len crc msk 0 p es = es"
| "alfns name len crc msk (Suc i) p es =
     alfns name len crc 0 i (Suc p) (es[p := lfn_entry name len crc msk (Suc i) (es ! p)])"

lemma length_lfn_entry [simp]: "length (lfn_entry name len crc msk i raw) = length raw"
  by (simp add: lfn_entry_def Let_def)

lemma alfns_spec:
  assumes "p + i \<le> length es" and "\<forall>e \<in> set es. length e = 32" and "i \<le> 20" and "i = 0 \<or> 13 * (i - 1) < len" and "len \<le> length name"
    and "msk = 0 \<or> msk = LFN_HEAD_MSK"
  shows "\<exists>ls. alfns name len crc msk i p es = take p es @ ls @ drop (p + i) es \<and> length ls = i \<and>
    (\<forall>q < i. wf_lfn (take len name) crc (i - 1 - q) (ls ! q)) \<and> (0 < i \<longrightarrow> ls ! 0 ! 0 = msk OR of_nat i)"
  using assms
proof (induction i arbitrary: p es msk)
  case (Suc i)
  let ?l = "lfn_entry name len crc msk (Suc i) (es ! p)"
  have p: "p < length es" "length (es ! p) = 32" using Suc.prems(1,2) by auto
  have w: "wf_lfn (take len name) crc i ?l" "?l ! 0 = msk OR of_nat (Suc i)"
    using lfn_entry_wf [of "Suc i" "es ! p" len name msk crc] Suc.prems(3-6) p(2) by auto
  have "\<exists>ls. alfns name len crc 0 i (Suc p) (es[p := ?l]) = take (Suc p) (es[p := ?l]) @ ls @ drop (Suc p + i) (es[p := ?l]) \<and> length ls = i \<and>
    (\<forall>q < i. wf_lfn (take len name) crc (i - 1 - q) (ls ! q)) \<and> (0 < i \<longrightarrow> ls ! 0 ! 0 = 0 OR of_nat i)"
    using Suc.prems p by (intro Suc.IH) (auto dest!: set_update_subset_insert [THEN subsetD])
  then obtain ls where ls: "alfns name len crc 0 i (Suc p) (es[p := ?l]) = take (Suc p) (es[p := ?l]) @ ls @ drop (Suc p + i) (es[p := ?l])"
    "length ls = i" "\<forall>q < i. wf_lfn (take len name) crc (i - 1 - q) (ls ! q)" by blast
  have "alfns name len crc msk (Suc i) p es = take p es @ (?l # ls) @ drop (p + Suc i) es"
    using ls(1) p(1) by (simp add: take_Suc_conv_app_nth)
  moreover have "wf_lfn (take len name) crc (Suc i - 1 - q) ((?l # ls) ! q)" if "q < Suc i" for q
    using w(1) ls(3) that by (cases q) auto
  ultimately show ?case using ls(2) w(2) by (intro exI [of _ "?l # ls"]) auto
qed simp

context disk
begin

text \<open>Load an entry and store into it.\<close>

lemma load_store_at:
  assumes at: "at sectors valid s V f g" and dg: "data_geom valid f" and ch: "dir_chain f V cs" and k: "k < dcount f cs"
    and F: "length (F (entry f cs V k)) = 32"
  shows "\<exists>s' V'. ebind (dir_load E) (\<lambda>_. ebind (dir_store F) m) (dpos f cs d k, s) = m () (dpos f cs d k, s') \<and>
    ebind (dir_load E) (\<lambda>_. dir_store F) (dpos f cs d k, s) = (Inr (), dpos f cs d k, s') \<and>
    at sectors valid s' V' f g \<and> dir_chain f V' cs \<and> entries f cs V' = (entries f cs V)[k := F (entries f cs V ! k)] \<and>
    (\<forall>n. n \<notin> dir_sectors f cs \<longrightarrow> V' n = V n) \<and> buf (fat s') = V' (dsect f cs k) \<and> fsect (fat s') = dsect f cs k"
proof -
  from load_at [OF at dg ch k] obtain s1 where s1: "dir_load E (dpos f cs d k, s) = (Inr (), dpos f cs d k, s1)"
    "at sectors valid s1 V f g" "buf (fat s1) = V (dsect f cs k)" "fsect (fat s1) = dsect f cs k" by blast
  from store_at [OF s1(2) dg ch k s1(3,4), of F d] obtain s2 where
    s2: "dir_store F (dpos f cs d k, s1) = (Inr (), dpos f cs d k, s2)" "at sectors valid s2 (eput f cs k F V) f g"
    "buf (fat s2) = eput f cs k F V (dsect f cs k)" "fsect (fat s2) = dsect f cs k" by blast
  have "n \<notin> dir_sectors f cs \<longrightarrow> eput f cs k F V n = V n" for n
    using k by (auto simp: dir_sectors_def intro: eput_other)
  with s1(1) s2 dir_chain_eput [OF dg ch k] entries_eput [where F = F, OF dg ch at_vol_ok [OF at] k F] show ?thesis
    by (intro exI [of _ s2] exI [of _ "eput f cs k F V"]) auto
qed

lemma add_lfns_at:
  assumes "at sectors valid s V f g" and fg: "fat_geom valid f" and dg: "data_geom valid f" and "dir_chain f V cs"
    and "p + i < dcount f cs"
  shows "\<exists>s' V'. dir_add_lfns E name len crc msk i (dpos f cs d p, s) = (Inr (), dpos f cs d (p + i), s') \<and>
    at sectors valid s' V' f g \<and> dir_chain f V' cs \<and> entries f cs V' = alfns name len crc msk i p (entries f cs V) \<and>
    (\<forall>n. n \<notin> dir_sectors f cs \<longrightarrow> V' n = V n)"
  using assms(1,4,5)
proof (induction i arbitrary: p s V msk)
  case 0
  then show ?case by (auto simp: ereturn_def)
next
  case (Suc i)
  have p: "p < dcount f cs" "Suc p < dcount f cs" using Suc.prems(3) by auto
  let ?F = "lfn_entry name len crc msk (Suc i)"
  have F: "length (?F (entry f cs V p)) = 32"
    using length_entry [of V f cs p, OF sect_length [OF Suc.prems(1) dg Suc.prems(2) p(1)]] by simp
  from load_store_at [where F = ?F, OF Suc.prems(1) dg Suc.prems(2) p(1) F,
      of "\<lambda>_. ebind (dir_next E) (\<lambda>_. dir_add_lfns E name len crc 0 i)" d]
  obtain s1 V1 where s1: "dir_add_lfns E name len crc msk (Suc i) (dpos f cs d p, s) =
      ebind (dir_next E) (\<lambda>_. dir_add_lfns E name len crc 0 i) (dpos f cs d p, s1)"
    "at sectors valid s1 V1 f g" "dir_chain f V1 cs" "entries f cs V1 = (entries f cs V)[p := ?F (entries f cs V ! p)]"
    "\<forall>n. n \<notin> dir_sectors f cs \<longrightarrow> V1 n = V n" by auto
  from dir_next_at [OF s1(2) fg dg s1(3) p(2), of d] obtain s2 where
    s2: "dir_next E (dpos f cs d p, s1) = (Inr (), dpos f cs d (Suc p), s2)" "at sectors valid s2 V1 f g" by blast
  have pi: "Suc p + i < dcount f cs" using Suc.prems(3) by simp
  from Suc.IH [OF s2(2) s1(3) pi, of 0] obtain s3 V3 where
    "dir_add_lfns E name len crc 0 i (dpos f cs d (Suc p), s2) = (Inr (), dpos f cs d (Suc p + i), s3)"
    "at sectors valid s3 V3 f g" "dir_chain f V3 cs" "entries f cs V3 = alfns name len crc 0 i (Suc p) (entries f cs V1)"
    "\<forall>n. n \<notin> dir_sectors f cs \<longrightarrow> V3 n = V1 n" by blast
  with s1 s2 show ?case by (intro exI [of _ s3] exI [of _ V3]) auto
qed

end

lemma sect_to_clust_dsect:
  assumes g: "data_geom valid f" and ch: "dir_chain f V cs" and k: "k < dcount f cs"
  shows "sect_to_clust f (dsect f cs k) = cs ! (k div (16 * spc f))"
proof -
  let ?c = "cs ! (k div (16 * spc f))" and ?r = "k div 16 mod spc f"
  have c: "2 \<le> ?c" "?c < clust_cnt f"
    using dir_chain_clust [OF ch] pos_arith(1) [OF spc_pos] k by (auto simp: dcount_def)
  have r: "?r < spc f" using spc_pos by simp
  note u = unat_clust_sect [OF g c r]
  then have "unat (dsect f cs k - data_sect f) = (unat ?c - 2) * spc f + ?r"
    by (subst unat_sub) (auto simp: dsect_def word_le_nat_alt)
  then have "unat (drop_bit (unat (clust_shift f)) (dsect f cs k - data_sect f)) = unat ?c - 2"
    unfolding unat_drop_bit_eq using r by (simp add: drop_bit_eq_div flip: spc_def)
  also have "\<dots> = unat (?c - 2)" using c(1) by (simp add: unat_sub word_le_nat_alt)
  finally have "drop_bit (unat (clust_shift f)) (dsect f cs k - data_sect f) = ?c - 2" by (simp add: word_unat_eq_iff)
  then show ?thesis by (simp add: sect_to_clust_def)
qed

lemma new_item_wf:
  assumes len: "0 < len" "len \<le> 255" "len \<le> length name" and nz: "0 \<notin> set (take len name)" and attr: "attr \<noteq> FAT_ATTR_LFN"
    and raw: "length raw = 32" and n: "n = (len + 12) div 13" and e: "e = sfn_entry (put_sfn_name name len) attr clust raw"
    and ls: "length ls = n" "\<forall>q < n. wf_lfn (take len name) (get_crc (put_sfn_name name len)) (n - 1 - q) (ls ! q)"
      "ls ! 0 ! 0 = LFN_HEAD_MSK OR of_nat n"
  shows "wf_long (take len name) ls e"
proof -
  have n20: "0 < n" "n \<le> 20" "13 * (n - 1) < len" "len \<le> 13 * n" using len n by linarith+
  have f: "take 11 e = put_sfn_name name len" "e ! 11 = attr" "length e = 32"
    using sfn_entry_fields [OF raw length_put_sfn_name [OF len(3)], of attr clust] raw e by (simp_all add: sfn_attr_def)
  have "e ! 0 = put_sfn_name name len ! 0" using f(1) by (metis nth_take zero_less_numeral)
  then have w: "wf_sfn e" using f attr put_sfn_name_visible [OF len(3)] by (simp add: wf_sfn_def field_defs)
  have "\<forall>n \<in> set [1..<21]. unat ((LFN_HEAD_MSK OR of_nat n) AND LFN_SEQ_MSK) = n" by code_simp
  then have "unat ((LFN_HEAD_MSK OR of_nat n) AND LFN_SEQ_MSK) = n" using n20 by auto
  then show ?thesis using w n20 ls len nz f(1) by (simp add: wf_long_def lfn_seq_def min_absorb2)
qed

text \<open>The list of entries after the end mark was renewed, the fragments written and the short entry
  written.\<close>

definition added :: "bytes \<Rightarrow> nat \<Rightarrow> u8 \<Rightarrow> u32 \<Rightarrow> bool \<Rightarrow> nat \<Rightarrow> bytes list \<Rightarrow> bytes list" where
  "added name len attr clust eod p es =
     (let n = (len + 12) div 13; sn = put_sfn_name name len;
          es1 = (if eod then es[p + Suc n := (es ! (p + Suc n))[0 := 0]] else es);
          es2 = alfns name len (get_crc sn) LFN_HEAD_MSK n p es1
      in es2[p + n := sfn_entry sn attr clust (es2 ! (p + n))])"

lemma added_spec:
  assumes es: "es = concat (map enc items) @ rest" and l32: "\<forall>e \<in> set es. length e = 32" and em: "end_mark rest"
    and n: "n = (len + 12) div 13" and room: "Suc n < length rest" and fd: "afind (Suc n) 0 0 items = (eod, p)"
    and len: "0 < len" "len \<le> 255" "len \<le> length name" and nz: "0 \<notin> set (take len name)" and attr: "attr \<noteq> FAT_ATTR_LFN"
  shows "\<exists>xs gs ys ls e rest'. items = xs @ gs @ ys \<and> (\<forall>g \<in> set gs. gone g) \<and> p = length (concat (map enc xs)) \<and> length ls = n \<and>
    added name len attr clust eod p es = concat (map enc (xs @ [Long (take len name) ls e] @ ys)) @ rest' \<and>
    wf_long (take len name) ls e \<and> end_mark rest' \<and> take 11 e = put_sfn_name name len \<and> e ! sfn_attr = attr \<and>
    sfn_cluster e 0 = clust \<and> get_u32 e sfn_size = 0"
proof -
  from afind_split [OF fd, of "[]"] obtain xs gs ys where x: "items = xs @ gs @ ys" "\<forall>g \<in> set gs. gone g"
    "p = length (concat (map enc xs))" "if eod then ys = [] \<and> length gs < Suc n else length gs = Suc n" by auto
  let ?sn = "put_sfn_name name len" and ?X = "concat (map enc xs)" and ?G = "concat (map enc gs)"
  define es1 where "es1 = (if eod then es[p + Suc n := (es ! (p + Suc n))[0 := 0]] else es)"
  have G: "length ?G = length gs" by (rule enc_gone [OF x(2)])
  have l: "p + Suc n < length es" using x(3,4) room G es x(1) by (auto split: if_splits)
  have l1: "length es1 = length es" "\<forall>e \<in> set es1. length e = 32"
    using l32 l by (auto simp: es1_def dest!: set_update_subset_insert [THEN subsetD])
  have n20: "n \<le> 20" "n = 0 \<or> 13 * (n - 1) < len" "0 < n" using len n by linarith+
  have pn: "p + n \<le> length es1" using l l1 by simp
  from alfns_spec [OF pn l1(2) n20(1,2) len(3), of LFN_HEAD_MSK "get_crc ?sn"] n20(3) obtain ls where
    ls: "alfns name len (get_crc ?sn) LFN_HEAD_MSK n p es1 = take p es1 @ ls @ drop (p + n) es1" "length ls = n"
    "\<forall>q < n. wf_lfn (take len name) (get_crc ?sn) (n - 1 - q) (ls ! q)" "ls ! 0 ! 0 = LFN_HEAD_MSK OR of_nat n" by auto
  let ?raw = "es1 ! (p + n)" and ?es2 = "alfns name len (get_crc ?sn) LFN_HEAD_MSK n p es1"
  let ?e = "sfn_entry ?sn attr clust ?raw"
  have raw: "length ?raw = 32" using l l1 by simp
  have dn: "drop (p + n) es1 = ?raw # drop (p + Suc n) es1" using l l1(1) by (simp add: Cons_nth_drop_Suc)
  have X: "take p es1 = ?X" using es x(1,3) l by (simp add: es1_def)
  have ad: "added name len attr clust eod p es = ?X @ ls @ ?e # drop (p + Suc n) es1"
    unfolding added_def Let_def n [symmetric] es1_def [symmetric] ls(1) X dn
    using ls(2) x(3) by (simp add: list_update_append nth_append)
  have tl: "\<exists>rest'. drop (p + Suc n) es1 = concat (map enc ys) @ rest' \<and> end_mark rest'"
  proof (cases eod)
    case True
    then have "ys = []" "length gs < Suc n" using x(4) by auto
    then have "drop (p + Suc n) es = drop (Suc n - length gs) rest" using es x(1,3) G by (simp add: Suc_diff_le)
    moreover have "drop (p + Suc n) es1 = (es ! (p + Suc n))[0 := 0] # drop (Suc (p + Suc n)) es"
      using l True by (simp add: es1_def Cons_nth_drop_Suc [symmetric])
    moreover have "length (es ! (p + Suc n)) = 32" using l l32 by simp
    ultimately show ?thesis using \<open>ys = []\<close> by (auto simp: end_mark_def SFN_LAST_def intro!: exI [of _ "drop (p + Suc n) es1"])
  next
    case False
    then have "drop (p + Suc n) es1 = concat (map enc ys) @ rest" using es x(1,3,4) G by (simp add: es1_def)
    then show ?thesis using em by blast
  qed
  then obtain rest' where r: "drop (p + Suc n) es1 = concat (map enc ys) @ rest'" "end_mark rest'" by blast
  have "wf_long (take len name) ls ?e"
    by (rule new_item_wf [OF len nz attr raw n refl ls(2-4)])
  then show ?thesis
    using x(1-3) ls(2) ad r sfn_entry_fields [OF raw length_put_sfn_name [OF len(3)], of attr clust]
    by (intro exI [of _ xs] exI [of _ gs] exI [of _ ys] exI [of _ ls] exI [of _ ?e] exI [of _ rest']) auto
qed

text \<open>A directory: its items, up to the end mark.\<close>

definition dir_items :: "fat \<Rightarrow> u32 list \<Rightarrow> (u32 \<Rightarrow> bytes) \<Rightarrow> item list \<Rightarrow> bytes list \<Rightarrow> bool" where
  "dir_items f cs V items rest \<longleftrightarrow> dir_chain f V cs \<and> entries f cs V = concat (map enc items) @ rest \<and>
     (\<forall>it \<in> set items. wf_item it) \<and> end_mark rest"

lemma dpos_reset [simp]: "(dpos f cs d k)\<lparr>d_clust := c, d_sect := x, d_idx := i\<rparr> = d\<lparr>d_clust := c, d_sect := x, d_idx := i\<rparr>"
  by (simp add: dpos_def)

context disk
begin

lemma dir_add_entries:
  assumes at: "at sectors valid s V f g" and fg: "fat_geom valid f" and dg: "data_geom valid f" and ch: "dir_chain f V cs"
    and hd: "hd cs = d_sclust d" and en: "entries f cs V = concat (map enc items) @ rest" and wf: "\<forall>it \<in> set items. wf_item it"
    and em: "end_mark rest" and n: "n = (len + 12) div 13" and room: "Suc n < length rest" and len: "0 < len" "len \<le> 255"
    and fu: "dcount f cs \<le> fuel E" and fd: "afind (Suc n) 0 0 items = (eod, p)" and pl: "p + Suc n < dcount f cs"
  shows "\<exists>s' V'. dir_add E name len attr clust (d, s) = (Inr (), dpos f cs d (p + n), s') \<and> at sectors valid s' V' f g \<and>
    dir_chain f V' cs \<and> entries f cs V' = added name len attr clust eod p (entries f cs V) \<and>
    (\<forall>n. n \<notin> dir_sectors f cs \<longrightarrow> V' n = V n) \<and> buf (fat s') = V' (dsect f cs (p + n)) \<and> fsect (fat s') = dsect f cs (p + n)"
proof -
  let ?sn = "put_sfn_name name len" and ?N = "Suc n"
  have cs: "cs \<noteq> []" using ch by (auto simp: dir_chain_def)
  then have "2 \<le> d_sclust d" using dir_chain_clust [OF ch, of 0] hd by (simp add: hd_conv_nth)
  then have nz: "d_sclust d \<noteq> 0" by auto
  have d0: "dir_enter (d_sclust d) (fat s) d = dpos f cs d 0"
    using hd cs nz at_fields [OF at] by (simp add: dir_enter_def dir_at_clust_def dpos_def dsect_def clust_to_sect_def hd_conv_nth Let_def)
  have n1: "length (concat (map enc items)) + ?N \<le> fuel E"
    using arg_cong [OF en, of length] room fu by (simp add: entries_def)
  have dr: "drop 0 (entries f cs V) = concat (map enc items) @ rest" using en by simp
  from find_at [OF at fg dg ch dr wf em _ _ _ n1 room, of 0 "\<lparr>loc_sect = 0, loc_idx = 0\<rparr>" d] fd obtain s1 where
    s1: "dir_add_find E (fuel E) ?N 0 False \<lparr>loc_sect = 0, loc_idx = 0\<rparr> (dpos f cs d 0, s) =
      (Inr (eod, pos_loc f cs p), dpos f cs d (p + ?N), s1)" "at sectors valid s1 V f g" by auto
  have F0: "length ((entry f cs V (p + ?N))[0 := 0]) = 32"
    using length_entry [of V f cs "p + ?N", OF sect_length [OF at dg ch pl]] by simp
  from load_store_at [where F = "\<lambda>e. e[0 := 0]", OF s1(2) dg ch pl F0, of "\<lambda>_. ereturn ()" d] s1(2) ch obtain s2 V2 where
    s2: "(if eod then ebind (dir_load E) (\<lambda>_. dir_store (\<lambda>e. e[0 := 0])) else ereturn ()) (dpos f cs d (p + ?N), s1) =
      (Inr (), dpos f cs d (p + ?N), s2)" "at sectors valid s2 V2 f g" "dir_chain f V2 cs"
    "entries f cs V2 = (if eod then (entries f cs V)[p + ?N := (entries f cs V ! (p + ?N))[0 := 0]] else entries f cs V)"
    "\<forall>n. n \<notin> dir_sectors f cs \<longrightarrow> V2 n = V n"
    by (cases eod) (auto simp: ereturn_def)
  have pN: "p < dcount f cs" "p + n < dcount f cs" using pl by auto
  have rewind: "d\<lparr>d_clust := sect_to_clust (fat s2) (dsect f cs p), d_sect := dsect f cs p, d_idx := of_nat (32 * (p mod 16))\<rparr> = dpos f cs d p"
    using sect_to_clust_dsect [OF dg ch pN(1)] at_fields [OF s2(2)] by (simp add: sect_to_clust_def) (simp add: dpos_def)
  from add_lfns_at [OF s2(2) fg dg s2(3) pN(2), of name len "get_crc ?sn" LFN_HEAD_MSK d] obtain s3 V3 where
    s3: "dir_add_lfns E name len (get_crc ?sn) LFN_HEAD_MSK n (dpos f cs d p, s2) = (Inr (), dpos f cs d (p + n), s3)"
    "at sectors valid s3 V3 f g" "dir_chain f V3 cs"
    "entries f cs V3 = alfns name len (get_crc ?sn) LFN_HEAD_MSK n p (entries f cs V2)"
    "\<forall>n. n \<notin> dir_sectors f cs \<longrightarrow> V3 n = V2 n" by blast
  have F1: "length (sfn_entry ?sn attr clust (entry f cs V3 (p + n))) = 32"
    using length_entry [of V3 f cs "p + n", OF sect_length [OF s3(2) dg s3(3) pN(2)]] by simp
  from load_store_at [where F = "sfn_entry ?sn attr clust", OF s3(2) dg s3(3) pN(2) F1, of "\<lambda>_. ereturn ()" d] obtain s4 V4 where
    s4: "ebind (dir_load E) (\<lambda>_. dir_store (sfn_entry ?sn attr clust)) (dpos f cs d (p + n), s3) = (Inr (), dpos f cs d (p + n), s4)"
    "at sectors valid s4 V4 f g" "dir_chain f V4 cs"
    "entries f cs V4 = (entries f cs V3)[p + n := sfn_entry ?sn attr clust (entries f cs V3 ! (p + n))]"
    "\<forall>n. n \<notin> dir_sectors f cs \<longrightarrow> V4 n = V3 n" "buf (fat s4) = V4 (dsect f cs (p + n))" "fsect (fat s4) = dsect f cs (p + n)" by blast
  have "dir_add E name len attr clust (d, s) = (Inr (), dpos f cs d (p + n), s4)"
    using len d0 s1(1) s2(1) s3(1) s4(1) rewind
    by (simp add: dir_add_def Let_def on_dir_def pos_loc_def flip: n)
  moreover have "entries f cs V4 = added name len attr clust eod p (entries f cs V)"
    unfolding added_def Let_def s4(4) s3(4) s2(4) n [symmetric] ..
  ultimately show ?thesis using s4 s3(5) s2(5) by (intro exI [of _ s4] exI [of _ V4]) auto
qed

lemma dir_add_at:
  assumes at: "at sectors valid s V f g" and fg: "fat_geom valid f" and dg: "data_geom valid f"
    and di: "dir_items f cs V items rest" and hd: "hd cs = d_sclust d"
    and room: "Suc ((len + 12) div 13) < length rest" and len: "0 < len" "len \<le> 255" "len \<le> length name"
    and nz: "0 \<notin> set (take len name)" and attr: "attr \<noteq> FAT_ATTR_LFN" and fu: "dcount f cs \<le> fuel E"
  shows "\<exists>s' V' xs gs ys ls e rest' k. dir_add E name len attr clust (d, s) = (Inr (), dpos f cs d k, s') \<and> at sectors valid s' V' f g \<and>
    (\<forall>n. n \<notin> dir_sectors f cs \<longrightarrow> V' n = V n) \<and> items = xs @ gs @ ys \<and> (\<forall>g \<in> set gs. gone g) \<and>
    dir_items f cs V' (xs @ [Long (take len name) ls e] @ ys) rest' \<and> entry f cs V' k = e \<and>
    take 11 e = put_sfn_name name len \<and> e ! sfn_attr = attr \<and> sfn_cluster e 0 = clust \<and> get_u32 e sfn_size = 0 \<and>
    buf (fat s') = V' (dsect f cs k) \<and> fsect (fat s') = dsect f cs k"
proof -
  let ?n = "(len + 12) div 13" and ?es = "entries f cs V"
  have ch: "dir_chain f V cs" and en: "?es = concat (map enc items) @ rest" and wf: "\<forall>it \<in> set items. wf_item it"
    and em: "end_mark rest" using di by (auto simp: dir_items_def)
  obtain eod p where fd: "afind (Suc ?n) 0 0 items = (eod, p)" by fastforce
  have l32: "\<forall>e \<in> set ?es. length e = 32"
    using length_entry [where V = V] sect_length [OF at dg ch] by (auto simp: entries_def)
  from added_spec [OF en l32 em refl room fd len nz attr, of clust] obtain xs gs ys ls e rest' where
    x: "items = xs @ gs @ ys" "\<forall>g \<in> set gs. gone g" "p = length (concat (map enc xs))" "length ls = ?n"
    "added name len attr clust eod p ?es = concat (map enc (xs @ [Long (take len name) ls e] @ ys)) @ rest'"
    "wf_long (take len name) ls e" "end_mark rest'" "take 11 e = put_sfn_name name len" "e ! sfn_attr = attr"
    "sfn_cluster e 0 = clust" "get_u32 e sfn_size = 0" by blast
  have pl: "p + Suc ?n < dcount f cs"
    using afind_split [OF fd, of "[]"] arg_cong [OF en, of length] room by (auto simp: entries_def enc_gone split: if_splits)
  from dir_add_entries [OF at fg dg ch hd en wf em refl room len(1,2) fu fd pl, of name attr clust] obtain s' V' where
    s': "dir_add E name len attr clust (d, s) = (Inr (), dpos f cs d (p + ?n), s')" "at sectors valid s' V' f g"
    "dir_chain f V' cs" "entries f cs V' = added name len attr clust eod p ?es"
    "\<forall>n. n \<notin> dir_sectors f cs \<longrightarrow> V' n = V n" "buf (fat s') = V' (dsect f cs (p + ?n))" "fsect (fat s') = dsect f cs (p + ?n)" by blast
  have "drop p (entries f cs V') = (ls @ [e]) @ concat (map enc ys) @ rest'" using s'(4) x(3,5) by simp
  from entries_drop(2) [OF this, of ?n] x(4) have "entry f cs V' (p + ?n) = e" by (simp add: nth_append)
  moreover have "dir_items f cs V' (xs @ [Long (take len name) ls e] @ ys) rest'"
    using s'(3,4) x(1,5-7) wf by (auto simp: dir_items_def)
  ultimately show ?thesis using s' x by blast
qed

end

section \<open>Removing an item\<close>

definition freed :: "nat \<Rightarrow> nat \<Rightarrow> bytes list \<Rightarrow> bytes list" where
  "freed a b es = map (\<lambda>i. if a \<le> i \<and> i \<le> b then (es ! i)[0 := SFN_FREE] else es ! i) [0..<length es]"

lemma length_entries [simp]: "length (entries f cs V) = dcount f cs"
  by (simp add: entries_def)

lemma freed_step: "a < b \<Longrightarrow> b < length es \<Longrightarrow> freed (Suc a) b (es[a := (es ! a)[0 := SFN_FREE]]) = freed a b es"
  by (auto simp: freed_def nth_list_update)

lemma freed_one: "a < length es \<Longrightarrow> es[a := (es ! a)[0 := SFN_FREE]] = freed a a es"
  by (intro nth_equalityI) (auto simp: freed_def nth_list_update)

lemma freed_append:
  assumes "gs \<noteq> []"
  shows "freed (length xs) (length xs + length gs - 1) (xs @ gs @ ys) = xs @ map (\<lambda>e. e[0 := SFN_FREE]) gs @ ys"
proof (rule nth_equalityI)
  fix i assume "i < length (freed (length xs) (length xs + length gs - 1) (xs @ gs @ ys))"
  then have "i < length (xs @ gs @ ys)" by (simp add: freed_def)
  then show "freed (length xs) (length xs + length gs - 1) (xs @ gs @ ys) ! i = (xs @ map (\<lambda>e. e[0 := SFN_FREE]) gs @ ys) ! i"
    using assms by (cases "i < length xs"; cases "i < length xs + length gs")
      (auto simp: freed_def nth_append neq_Nil_conv)
qed (simp add: freed_def)

lemma dpos_eq_iff:
  assumes g: "data_geom valid f" and ch: "dir_chain f V cs" and j: "j < dcount f cs" and k: "k < dcount f cs"
  shows "dsect f cs j = dsect f cs k \<and> (of_nat (32 * (j mod 16)) :: u16) = of_nat (32 * (k mod 16)) \<longleftrightarrow> j = k"
proof
  assume eq: "dsect f cs j = dsect f cs k \<and> (of_nat (32 * (j mod 16)) :: u16) = of_nat (32 * (k mod 16))"
  have "unat (of_nat (32 * (x mod 16)) :: u16) = 32 * (x mod 16)" for x :: nat
    by (rule unat_of_nat16) (use mod_less_divisor [of 16 x] in simp)
  then have "j mod 16 = k mod 16" using eq by (metis mult_cancel1 zero_neq_numeral)
  then show "j = k" using dsect_inj [OF g ch j k] eq by (metis div_mult_mod_eq)
qed simp

context disk
begin

lemma remove_loop_at:
  assumes "at sectors valid s V f g" and fg: "fat_geom valid f" and dg: "data_geom valid f" and "dir_chain f V cs"
    and "a \<le> b" and b: "b < dcount f cs" and "b - a < n"
  shows "\<exists>s' V'. remove_entries_loop E n (dsect f cs b) (of_nat (32 * (b mod 16))) (dpos f cs d a, s) = (Inr (), dpos f cs d b, s') \<and>
    at sectors valid s' V' f g \<and> dir_chain f V' cs \<and> entries f cs V' = freed a b (entries f cs V) \<and>
    (\<forall>n. n \<notin> dir_sectors f cs \<longrightarrow> V' n = V n)"
  using assms(1,4,5,7)
proof (induction n arbitrary: a s V)
  case (Suc n)
  let ?t = "\<lambda>_ (d, s). if d_sect d = dsect f cs b \<and> d_idx d = of_nat (32 * (b mod 16)) then ereturn () (d, s)
    else ebind (dir_next E) (\<lambda>_. remove_entries_loop E n (dsect f cs b) (of_nat (32 * (b mod 16)))) (d, s)"
  have a: "a < dcount f cs" using Suc.prems(3) b by simp
  have F: "length ((entry f cs V a)[0 := SFN_FREE]) = 32"
    using length_entry [of V f cs a, OF sect_length [OF Suc.prems(1) dg Suc.prems(2) a]] by simp
  from load_store_at [where F = "\<lambda>e. e[0 := SFN_FREE]", OF Suc.prems(1) dg Suc.prems(2) a F, of ?t d] obtain s1 V1 where
    s1: "remove_entries_loop E (Suc n) (dsect f cs b) (of_nat (32 * (b mod 16))) (dpos f cs d a, s) = ?t () (dpos f cs d a, s1)"
    "at sectors valid s1 V1 f g" "dir_chain f V1 cs" "entries f cs V1 = (entries f cs V)[a := (entries f cs V ! a)[0 := SFN_FREE]]"
    "\<forall>n. n \<notin> dir_sectors f cs \<longrightarrow> V1 n = V n" unfolding remove_entries_loop.simps by blast
  note stop = dpos_eq_iff [OF dg s1(3) a b]
  show ?case
  proof (cases "a = b")
    case True
    then show ?thesis using s1 freed_one [of a "entries f cs V"] a by (auto simp: ereturn_def simp del: remove_entries_loop.simps of_nat_mult)
  next
    case False
    then have ab: "a < b" "Suc a < dcount f cs" using Suc.prems(3) b by auto
    from dir_next_at [OF s1(2) fg dg s1(3) ab(2), of d] obtain s2 where
      s2: "dir_next E (dpos f cs d a, s1) = (Inr (), dpos f cs d (Suc a), s2)" "at sectors valid s2 V1 f g" by blast
    have "Suc a \<le> b" "b - Suc a < n" using ab Suc.prems(4) by auto
    from Suc.IH [OF s2(2) s1(3) this] obtain s3 V3 where
      s3: "remove_entries_loop E n (dsect f cs b) (of_nat (32 * (b mod 16))) (dpos f cs d (Suc a), s2) = (Inr (), dpos f cs d b, s3)"
      "at sectors valid s3 V3 f g" "dir_chain f V3 cs" "entries f cs V3 = freed (Suc a) b (entries f cs V1)"
      "\<forall>n. n \<notin> dir_sectors f cs \<longrightarrow> V3 n = V1 n" by blast
    have "?t () (dpos f cs d a, s1) = (Inr (), dpos f cs d b, s3)" using stop False s2(1) s3(1) by (auto simp del: of_nat_mult)
    then show ?thesis using s1 s3 freed_step [OF ab(1), of "entries f cs V"] b
      by (intro exI [of _ s3] exI [of _ V3]) (auto simp del: remove_entries_loop.simps of_nat_mult)
  qed
qed simp

lemma remove_entries_at:
  assumes at: "at sectors valid s V f g" and fg: "fat_geom valid f" and dg: "data_geom valid f"
    and di: "dir_items f cs V (xs @ [it] @ ys) rest" and fu: "dcount f cs \<le> fuel E"
    and a: "a = length (concat (map enc xs))" and b: "b = a + length (enc it) - 1"
  shows "\<exists>s' V'. remove_entries E (pos_loc f cs a) (dpos f cs d b, s) = (Inr (), dpos f cs d b, s') \<and> at sectors valid s' V' f g \<and>
    (\<forall>n. n \<notin> dir_sectors f cs \<longrightarrow> V' n = V n) \<and>
    dir_items f cs V' (xs @ map (\<lambda>e. Gone (e[0 := SFN_FREE])) (enc it) @ ys) rest"
proof -
  have ch: "dir_chain f V cs" and en: "entries f cs V = concat (map enc xs) @ enc it @ concat (map enc ys) @ rest"
    and wf: "wf_item it" using di by (auto simp: dir_items_def)
  have bN: "b < dcount f cs" "a \<le> b" "a < dcount f cs" "b - a < fuel E"
    using arg_cong [OF en, of length] enc_pos [OF wf] a b fu by (simp_all del: length_greater_0_conv)
  have rewind: "d\<lparr>d_clust := sect_to_clust (fat s) (dsect f cs a), d_sect := dsect f cs a, d_idx := of_nat (32 * (a mod 16))\<rparr> = dpos f cs d a"
    using sect_to_clust_dsect [OF dg ch bN(3)] at_fields [OF at] by (simp add: sect_to_clust_def) (simp add: dpos_def)
  from remove_loop_at [OF at fg dg ch bN(2,1,4), of d] obtain s' V' where
    r: "remove_entries_loop E (fuel E) (dsect f cs b) (of_nat (32 * (b mod 16))) (dpos f cs d a, s) = (Inr (), dpos f cs d b, s')"
    "at sectors valid s' V' f g" "dir_chain f V' cs" "entries f cs V' = freed a b (entries f cs V)"
    "\<forall>n. n \<notin> dir_sectors f cs \<longrightarrow> V' n = V n" by blast
  have "remove_entries E (pos_loc f cs a) (dpos f cs d b, s) = (Inr (), dpos f cs d b, s')"
    using r(1) rewind by (simp add: remove_entries_def on_dir_def pos_loc_def del: of_nat_mult)
  moreover have "entries f cs V' = concat (map enc xs) @ map (\<lambda>e. e[0 := SFN_FREE]) (enc it) @ concat (map enc ys) @ rest"
    unfolding r(4) en a b using enc_pos [OF wf] by (intro freed_append) auto
  moreover have "concat (map enc (map (\<lambda>e. Gone (e[0 := SFN_FREE])) es)) = map (\<lambda>e. e[0 := SFN_FREE]) es" for es
    by (induction es) auto
  moreover have "wf_item (Gone (e[0 := SFN_FREE]))" if "e \<in> set (enc it)" for e
    using wf that by (cases it) (auto simp: wf_sfn_def wf_long_def wf_lfn_def in_set_conv_nth)
  ultimately show ?thesis using r(2,3,5) di by (intro exI [of _ s'] exI [of _ V']) (auto simp: dir_items_def)
qed

end

end
