(* ===== verification/FatDirTheorems.thy ===== *)
theory FatDirTheorems
  imports FatTheorems FatAdd
begin

text \<open>
  The properties of the directory operations of \<^verbatim>\<open>fat32.c\<close> on the ATA driver, with the empty root
  directory of the demonstration volume as instance.
\<close>

lemma buf_entry_u16:
  assumes "length (V (dsect f cs k)) = 512" and "i + 1 < 32"
  shows "get_u16 (V (dsect f cs k)) (32 * (k mod 16) + i) = get_u16 (entry f cs V k) i"
  using buf_entry [of V f cs k i] buf_entry [of V f cs k "i + 1"] assms by (simp add: get_u16_def)

lemma buf_entry_u32:
  assumes "length (V (dsect f cs k)) = 512" and "i + 3 < 32"
  shows "get_u32 (V (dsect f cs k)) (32 * (k mod 16) + i) = get_u32 (entry f cs V k) i"
  using buf_entry [of V f cs k i] buf_entry [of V f cs k "i + 1"] buf_entry [of V f cs k "i + 2"] buf_entry [of V f cs k "i + 3"] assms
  by (simp add: get_u32_def add.assoc)

lemma buf_entry_cluster:
  assumes "length (V (dsect f cs k)) = 512"
  shows "sfn_cluster (V (dsect f cs k)) (32 * (k mod 16)) = sfn_cluster (entry f cs V k) 0"
  using buf_entry_u16 [of V f cs k sfn_clust_hi] buf_entry_u16 [of V f cs k sfn_clust_lo] assms
  by (simp add: sfn_cluster_def sfn_clust_hi_def sfn_clust_lo_def)

lemma find_item_none: "find_item name len k items = None \<longleftrightarrow> (\<forall>it \<in> set items. \<not> item_matches name len it)"
  by (induction items arbitrary: k) auto

lemma find_item_first:
  assumes "\<forall>it \<in> set xs. \<not> item_matches name len it" and "item_matches name len it"
  shows "find_item name len k (xs @ it # ys) = Some (k + length (concat (map enc xs)), k + length (concat (map enc xs)) + length (enc it) - 1)"
  using assms by (induction xs arbitrary: k) (auto simp: algebra_simps)

lemma items_le: "\<forall>it \<in> set its. wf_item it \<Longrightarrow> length its \<le> length (concat (map enc its))"
proof (induction its)
  case (Cons it its)
  then have "0 < length (enc it)" "length its \<le> length (concat (map enc its))" using enc_pos by auto
  then show ?case by (simp del: length_greater_0_conv)
qed simp

lemma dpos_dpos [simp]: "dpos f cs (dpos f cs d j) k = dpos f cs d k"
  by (simp add: dpos_def)

lemma name_eq_self: "len \<le> length name \<Longrightarrow> name_eq (take len name) name len"
  by (simp add: name_eq_map)

section \<open>A directory\<close>

definition demo_dir :: dir where
  "demo_dir = \<lparr>d_sclust = 2, d_clust = 2, d_sect = 16, d_idx = 0\<rparr>"

definition demo_st2 :: "channel st" where
  "demo_st2 = demo_st\<lparr>g_buf := replicate 512 0\<rparr>"

definition demo_name :: bytes where
  "demo_name = [0x72, 0x65, 0x61, 0x64, 0x6d, 0x65, 0x2e, 0x74, 0x78, 0x74]"

lemma demo_at2: "at (sector_bytes demo_ata) lba28 demo_st2 demo_vol demo_fat (replicate 512 0, 0, 0)"
  using at_work(1) [OF demo_at, where a' = "replicate 512 0" and b' = 0] by (simp add: demo_st2_def demo_st_def)

lemma demo_data_geom: "data_geom lba28 demo_fat"
proof -
  have "lba28 (c - 2 + 16) \<and> c - 2 + 16 \<notin> {8, 9} \<and> c - 2 + 16 \<noteq> 1" if "2 \<le> c" "c < 128" for c :: u32
  proof -
    define x where "x = c - 2"
    have "unat x = unat c - 2" unfolding x_def using that by (simp add: unat_sub word_le_nat_alt)
    then have "unat x < 126" using that by (simp add: word_less_nat_alt)
    moreover from this have "unat (x + 16) = unat x + 16" using unat_add_lem [of x 16] by simp
    ultimately show ?thesis unfolding x_def [symmetric] by (auto simp: lba28_def word_less_nat_alt word_unat_eq_iff)
  qed
  moreover have "fat_sectors demo_fat \<subseteq> {8, 9}"
  proof -
    have "c div 128 = 0" if "c < 128" for c :: u32
    proof -
      have "unat (c div 128) = 0" using that by (simp add: unat_div word_less_nat_alt)
      then show ?thesis by (simp add: unat_eq_0)
    qed
    then show ?thesis by (auto simp: fat_sectors_def demo_fat_def)
  qed
  moreover have "unat (16 :: u32) + (unat c - 1) * 1 \<le> 2 ^ 32" if "c < 128" for c :: u32
    using that by (simp add: word_less_nat_alt)
  ultimately show ?thesis by (fastforce simp: data_geom_def clust_sectors_def clust_to_sect_def spc_def demo_fat_def)
qed

lemma demo_dir_items: "dir_items demo_fat [2] demo_vol [] (replicate 16 (replicate 32 0))"
proof -
  have "demo_vol 16 = replicate 512 0"
    by (auto intro!: nth_equalityI simp: demo_vol_def lba28_def demo_sector)
  moreover have "dsect demo_fat [2] k = 16" if "k < 16" for k
    using that by (simp add: dsect_def demo_fat_def clust_to_sect_def spc_def)
  moreover have c: "dcount demo_fat [2] = 16" by (simp add: dcount_def spc_def demo_fat_def)
  ultimately have "entries demo_fat [2] demo_vol = replicate 16 (replicate 32 0)"
    by (intro nth_equalityI) (auto simp: entries_def entry_def get_bytes_def)
  moreover have "dir_chain demo_fat demo_vol [2]" by (simp add: dir_chain_def demo_fat_def demo_tab demo_entry_def)
  ultimately show ?thesis by (simp add: dir_items_def end_mark_def SFN_LAST_def)
qed

section \<open>Properties\<close>

text \<open>C20: \<^verbatim>\<open>dir_search\<close> returns the first item of the directory that matches the name (a long name
  without regard to case, a short entry by its padded form): the location of its first entry, with
  the cursor on its last one and that sector in the buffer.  When no item matches it reports
  \<^verbatim>\<open>FAT_ERR_EOF\<close>.  The volume is unchanged.\<close>

theorem dir_search_first:
  assumes "at (sector_bytes a) lba28 s V f (gb, gl, cr)" and "length gb = 512" and "fat_geom lba28 f" and "data_geom lba28 f"
    and "dir_items f cs V items rest" and "hd cs = d_sclust d" and "length items < fu" and "len \<le> length name"
  shows "search_post (sector_bytes a) lba28 V f cs d (find_item name len 0 items) (dir_search (ata_env a sk fu) name len (d, s))"
proof -
  have "length items < fuel (ata_env a sk fu)" using assms(7) by (simp add: ata_env_def)
  then show ?thesis using ata.dir_search_at [OF assms(1-4), of cs d items rest sk fu len name] assms(5,6,8)
    by (auto simp: dir_items_def)
qed

theorem dir_search_first_witness:
  "search_post (sector_bytes demo_ata) lba28 demo_vol demo_fat [2] demo_dir None (dir_search (ata_env demo_ata demo_stack 1) demo_name 10 (demo_dir, demo_st2))"
  using dir_search_first [OF demo_at2 _ demo_geom demo_data_geom demo_dir_items, of demo_dir 1 10 demo_name demo_stack]
  by (simp add: demo_dir_def demo_name_def)

text \<open>C21: \<^verbatim>\<open>dir_add\<close> on a directory with room puts exactly one item into it, in the place of deleted
  entries or at the end: a well-formed long name with its short entry, which carries the attribute,
  the cluster and size 0; the other items stay in their order and every sector outside the
  directory is unchanged.  The cursor ends on the new short entry.\<close>

theorem dir_add_adds:
  assumes "at (sector_bytes a) lba28 s V f g" and "fat_geom lba28 f" and "data_geom lba28 f"
    and "dir_items f cs V items rest" and "hd cs = d_sclust d"
    and "Suc ((len + 12) div 13) < length rest" and "0 < len" "len \<le> 255" "len \<le> length name"
    and "0 \<notin> set (take len name)" and "attr \<noteq> FAT_ATTR_LFN" and "dcount f cs \<le> fu"
  shows "\<exists>s' V' xs gs ys ls e rest' k. dir_add (ata_env a sk fu) name len attr clust (d, s) = (Inr (), dpos f cs d k, s') \<and>
    at (sector_bytes a) lba28 s' V' f g \<and> (\<forall>n. n \<notin> dir_sectors f cs \<longrightarrow> V' n = V n) \<and>
    items = xs @ gs @ ys \<and> (\<forall>g \<in> set gs. gone g) \<and>
    dir_items f cs V' (xs @ [Long (take len name) ls e] @ ys) rest' \<and> entry f cs V' k = e \<and>
    take 11 e = put_sfn_name name len \<and> e ! sfn_attr = attr \<and> sfn_cluster e 0 = clust \<and> get_u32 e sfn_size = 0"
proof -
  have "dcount f cs \<le> fuel (ata_env a sk fu)" using assms(12) by (simp add: ata_env_def)
  from ata.dir_add_at [OF assms(1-11) this, of clust] show ?thesis by blast
qed

theorem dir_add_adds_witness:
  "\<exists>s' V' ls e rest' k. dir_add (ata_env demo_ata demo_stack 16) demo_name 10 FAT_ATTR_ARCHIVE 7 (demo_dir, demo_st2) =
      (Inr (), dpos demo_fat [2] demo_dir k, s') \<and>
    dir_items demo_fat [2] V' [Long demo_name ls e] rest' \<and> sfn_cluster e 0 = 7"
proof -
  have "dcount demo_fat [2] \<le> 16" by (simp add: dcount_def spc_def demo_fat_def)
  from dir_add_adds [OF demo_at2 demo_geom demo_data_geom demo_dir_items, of demo_dir 10 demo_name FAT_ATTR_ARCHIVE 16 demo_stack 7] this
  show ?thesis by (simp add: demo_dir_def demo_name_def FAT_ATTR_ARCHIVE_def FAT_ATTR_LFN_def) blast
qed

text \<open>C12: What \<^verbatim>\<open>dir_add\<close> put there is what \<^verbatim>\<open>dir_search\<close> then finds, with its attribute, cluster and size, and
  removing the entries found with \<^verbatim>\<open>remove_entries\<close> leaves the directory with the items it had, deleted
  ones apart.\<close>

theorem dir_add_search_remove:
  assumes at: "at (sector_bytes a) lba28 s V f (gb, gl, cr)" and gb: "length gb = 512" and fg: "fat_geom lba28 f" and dg: "data_geom lba28 f"
    and di: "dir_items f cs V items rest" and hd: "hd cs = d_sclust d"
    and room: "Suc ((len + 12) div 13) < length rest" and len: "0 < len" "len \<le> 255" "len \<le> length name"
    and nz: "0 \<notin> set (take len name)" and attr: "attr \<noteq> FAT_ATTR_LFN" and fu: "dcount f cs \<le> fu"
    and new: "\<forall>it \<in> set items. \<not> item_matches name len it"
  shows "\<exists>d1 s1 loc d2 s2 d3 s3 V' items' rest'. dir_add (ata_env a sk fu) name len attr clust (d, s) = (Inr (), d1, s1) \<and>
    dir_search (ata_env a sk fu) name len (d1, s1) = (Inr loc, d2, s2) \<and>
    buf (fat s2) ! (dir_ptr d2 + sfn_attr) = attr \<and> sfn_cluster (buf (fat s2)) (dir_ptr d2) = clust \<and>
    get_u32 (buf (fat s2)) (dir_ptr d2 + sfn_size) = 0 \<and>
    remove_entries (ata_env a sk fu) loc (d2, s2) = (Inr (), d3, s3) \<and> vol (sector_bytes a) lba28 s3 = V' \<and>
    dir_items f cs V' items' rest' \<and> filter (\<lambda>it. \<not> gone it) items' = filter (\<lambda>it. \<not> gone it) items"
proof -
  let ?E = "ata_env a sk fu"
  have fu': "dcount f cs \<le> fuel ?E" using fu by (simp add: ata_env_def)
  from ata.dir_add_at [OF at fg dg di hd room len nz attr fu', of clust] obtain s1 V1 xs gs ys ls e rest' k where
    ad: "dir_add ?E name len attr clust (d, s) = (Inr (), dpos f cs d k, s1)" "at (sector_bytes a) lba28 s1 V1 f (gb, gl, cr)"
    "items = xs @ gs @ ys" "\<forall>g \<in> set gs. gone g" "dir_items f cs V1 (xs @ [Long (take len name) ls e] @ ys) rest'"
    "entry f cs V1 k = e" "e ! sfn_attr = attr" "sfn_cluster e 0 = clust" "get_u32 e sfn_size = 0" by blast
  let ?it = "Long (take len name) ls e" and ?a = "length (concat (map enc xs))"
  let ?b = "?a + length (enc ?it) - 1"
  have m: "item_matches name len ?it" using len name_eq_self [of len name] by simp
  have fi: "find_item name len 0 (xs @ [?it] @ ys) = Some (?a, ?b)"
    using find_item_first [of xs name len ?it 0 ys] m new ad(3) by auto
  have ch: "dir_chain f V1 cs" and en: "entries f cs V1 = concat (map enc xs) @ (ls @ [e]) @ concat (map enc ys) @ rest'"
    using ad(5) by (auto simp: dir_items_def)
  have wf: "\<forall>it \<in> set (xs @ [?it] @ ys). wf_item it" and em: "end_mark rest'" using ad(5) by (auto simp: dir_items_def)
  then have "0 < length ls" "length xs \<le> ?a" "length ys \<le> length (concat (map enc ys))"
    by (auto simp: wf_long_def intro!: items_le)
  then have n: "length (xs @ [?it] @ ys) < fuel ?E"
    using arg_cong [OF en, of length] fu' by (simp del: length_greater_0_conv)
  have "search_post (sector_bytes a) lba28 V1 f cs (dpos f cs d k) (Some (?a, ?b)) (dir_search ?E name len (dpos f cs d k, s1))"
    using ata.dir_search_at [OF ad(2) gb fg dg ch _ _ wf em n len(3), of "dpos f cs d k"] hd en unfolding fi by simp
  then obtain s2 gb2 gl2 cr2 where se: "dir_search ?E name len (dpos f cs d k, s1) = (Inr (pos_loc f cs ?a), dpos f cs d ?b, s2)"
    "at (sector_bytes a) lba28 s2 V1 f (gb2, gl2, cr2)" "buf (fat s2) = V1 (dsect f cs ?b)"
    by (auto simp: search_post_def pos_loc_def split: prod.splits)
  have dr: "drop ?a (entries f cs V1) = (ls @ [e]) @ concat (map enc ys) @ rest'" using en by simp
  have b: "entry f cs V1 ?b = e" "?b < dcount f cs"
    using entries_drop [OF dr, of "length ls"] by (simp_all add: nth_append)
  note len1 = ata.sect_length [OF ad(2) dg ch b(2)]
  have fl: "buf (fat s2) ! (dir_ptr (dpos f cs d ?b) + sfn_attr) = attr" "sfn_cluster (buf (fat s2)) (dir_ptr (dpos f cs d ?b)) = clust"
    "get_u32 (buf (fat s2)) (dir_ptr (dpos f cs d ?b) + sfn_size) = 0"
    using ad(7-9) b(1) se(3) buf_entry [of V1 f cs ?b sfn_attr, OF len1] buf_entry_cluster [of V1 f cs ?b, OF len1]
      buf_entry_u32 [of V1 f cs ?b sfn_size, OF len1] by (simp_all add: sfn_attr_def sfn_size_def)
  from ata.remove_entries_at [OF se(2) fg dg ad(5) fu' refl refl, of d] obtain s3 V3 where
    re: "remove_entries ?E (pos_loc f cs ?a) (dpos f cs d ?b, s2) = (Inr (), dpos f cs d ?b, s3)"
    "at (sector_bytes a) lba28 s3 V3 f (gb2, gl2, cr2)"
    "dir_items f cs V3 (xs @ map (\<lambda>e. Gone (e[0 := SFN_FREE])) (enc ?it) @ ys) rest'" by blast
  have "vol (sector_bytes a) lba28 s3 = V3" using re(2) by (simp add: at_def)
  moreover have "filter (\<lambda>it. \<not> gone it) (xs @ map (\<lambda>e. Gone (e[0 := SFN_FREE])) (enc ?it) @ ys) = filter (\<lambda>it. \<not> gone it) items"
    using ad(3,4) by (simp add: filter_False)
  ultimately show ?thesis using ad(1) se(1) fl re by blast
qed

theorem dir_add_search_remove_witness:
  "\<exists>d1 s1 loc d2 s2 d3 s3. dir_add (ata_env demo_ata demo_stack 16) demo_name 10 FAT_ATTR_ARCHIVE 7 (demo_dir, demo_st2) = (Inr (), d1, s1) \<and>
    dir_search (ata_env demo_ata demo_stack 16) demo_name 10 (d1, s1) = (Inr loc, d2, s2) \<and>
    sfn_cluster (buf (fat s2)) (dir_ptr d2) = 7 \<and> remove_entries (ata_env demo_ata demo_stack 16) loc (d2, s2) = (Inr (), d3, s3)"
proof -
  have "dcount demo_fat [2] \<le> 16" by (simp add: dcount_def spc_def demo_fat_def)
  from dir_add_search_remove [OF demo_at2 _ demo_geom demo_data_geom demo_dir_items, of demo_dir 10 demo_name FAT_ATTR_ARCHIVE 16 demo_stack 7] this
  show ?thesis by (simp add: demo_dir_def demo_name_def FAT_ATTR_ARCHIVE_def FAT_ATTR_LFN_def) blast
qed

end
