(* ===== verification/FatFileOps.thy ===== *)
theory FatFileOps
  imports FatFile FatDirTheorems
begin

text \<open>
  What an open file means: the bytes along its cluster chain, with the file's own buffer over its
  current sector.  Seeking changes the position and nothing else of this view, reading returns
  its bytes and writing replaces them.
\<close>

section \<open>Positions in a file\<close>

definition fpos :: "fat \<Rightarrow> u32 list \<Rightarrow> nat \<Rightarrow> u32" where
  "fpos f cs x = dsect f cs (x div 32)"

definition fcap :: "fat \<Rightarrow> u32 list \<Rightarrow> nat" where
  "fcap f cs = length cs * (512 * spc f)"

definition fbyte :: "fat \<Rightarrow> u32 list \<Rightarrow> (u32 \<Rightarrow> bytes) \<Rightarrow> nat \<Rightarrow> u8" where
  "fbyte f cs W x = W (fpos f cs x) ! (x mod 512)"

text \<open>The volume as the file shows it.\<close>

definition fshow :: "(u32 \<Rightarrow> bytes) \<Rightarrow> fat_file \<Rightarrow> u32 \<Rightarrow> bytes" where
  "fshow V fl = V(fl_sect fl := fl_buf fl)"

definition file_ok :: "(u32 \<Rightarrow> bytes) \<Rightarrow> fat \<Rightarrow> u32 list \<Rightarrow> fat_file \<Rightarrow> bool" where
  "file_ok V f cs fl \<longleftrightarrow> fl_fat fl \<noteq> None \<and> fl_sclust fl = hd cs \<and> unat (fl_offset fl) < fcap f cs \<and>
     fl_clust fl = cs ! (unat (fl_offset fl) div (512 * spc f)) \<and> fl_sect fl = fpos f cs (unat (fl_offset fl)) \<and>
     length (fl_buf fl) = 512 \<and> (fl_flags fl AND FAT_FILE_DIRTY = 0 \<longrightarrow> fl_buf fl = V (fl_sect fl))"

lemma fpos_eq: "fpos f cs x = clust_to_sect f (cs ! (x div (512 * spc f))) + of_nat (x div 512 mod spc f)"
proof -
  have "x div 32 div (16 * spc f) = x div (512 * spc f)" by (simp flip: div_mult2_eq)
  moreover have "x div 32 div 16 = x div 512" by (simp flip: div_mult2_eq)
  ultimately show ?thesis by (simp add: fpos_def dsect_def)
qed

lemma fpos_bound: "x < fcap f cs \<Longrightarrow> x div 32 < dcount f cs" "x < fcap f cs \<Longrightarrow> x div (512 * spc f) < length cs"
  using spc_pos [of f] by (simp_all add: fcap_def dcount_def div_less_iff_less_mult ac_simps)

lemma fpos_sectors: "x < fcap f cs \<Longrightarrow> fpos f cs x \<in> dir_sectors f cs"
  using fpos_bound by (auto simp: fpos_def dir_sectors_def)

lemma fpos_valid:
  assumes "data_geom valid f" "dir_chain f V cs" "x < fcap f cs"
  shows "valid (fpos f cs x)" "fpos f cs x \<notin> fat_sectors f" "fpos f cs x \<noteq> info_sect f"
  using dsect_valid [OF assms(1,2) fpos_bound(1) [OF assms(3)]] by (simp_all add: fpos_def)

lemma fpos_same: "x div 512 = y div 512 \<Longrightarrow> fpos f cs x = fpos f cs y"
  unfolding fpos_eq by (metis div_mult2_eq)

lemma fpos_inj:
  assumes "data_geom valid f" "dir_chain f V cs" "x < fcap f cs" "y < fcap f cs" "fpos f cs x = fpos f cs y"
  shows "x div 512 = y div 512"
proof -
  have "x div 32 div 16 = y div 32 div 16"
    using dsect_inj [OF assms(1,2) fpos_bound(1) [OF assms(3)] fpos_bound(1) [OF assms(4)]] assms(5) by (simp add: fpos_def)
  then show ?thesis by (simp flip: div_mult2_eq)
qed

lemma sector_run: "j < 512 - x mod 512 \<Longrightarrow> (x + j) div 512 = x div 512 \<and> (x + j) mod 512 = x mod 512 + j" for x :: nat
proof -
  assume j: "j < 512 - x mod 512"
  define q r where "q = x div 512" and "r = x mod 512"
  have x: "x = q * 512 + r" by (simp add: q_def r_def)
  have rj: "r + j < 512" using j by (simp add: r_def)
  have "(q * 512 + (r + j)) div 512 = q" "(q * 512 + (r + j)) mod 512 = r + j" using rj by simp_all
  then have "(x + j) div 512 = q \<and> (x + j) mod 512 = r + j" unfolding x add.assoc by blast
  then show ?thesis unfolding q_def r_def .
qed

lemma dir_sectors_meta:
  assumes "data_geom valid f" "dir_chain f V cs" "n \<in> dir_sectors f cs"
  shows "valid n" "n \<notin> fat_sectors f" "n \<noteq> info_sect f"
  using assms dsect_valid [OF assms(1,2)] by (auto simp: dir_sectors_def)

lemma dir_chain_same:
  assumes ch: "dir_chain f V cs" and eq: "\<And>n. n \<in> fat_sectors f \<Longrightarrow> V' n = V n"
  shows "dir_chain f V' cs"
proof -
  have c: "is_chain (clust_cnt f) (ftab V (fat_sect0 f)) (hd cs) cs" using ch by (simp add: dir_chain_def)
  have "ftab V' (fat_sect0 f) c = ftab V (fat_sect0 f) c" if "c < clust_cnt f" for c
  proof -
    have "fat_sect0 f + c div 128 \<in> fat_sectors f" using that by (auto simp: fat_sectors_def)
    from eq [OF this] show ?thesis by (simp add: ftab_def raw_entry_def)
  qed
  then show ?thesis using ch is_chain_cong [OF c, of "ftab V' (fat_sect0 f)"] is_chain_bound [OF c] by (auto simp: dir_chain_def)
qed

section \<open>Direct transfers\<close>

context disk
begin

lemma direct_write_at:
  assumes at: "at sectors valid s V f g" and n: "valid n" "n \<noteq> fsect (fat s)" and b: "length b = 512"
  shows "\<exists>d'. op_write E b n (dev s) = (True, d') \<and> at sectors valid (s\<lparr>dev := d'\<rparr>) (V(n := b)) f g"
proof -
  from write_valid [OF n(1) b, of "dev s"] obtain d' where
    d': "op_write E b n (dev s) = (True, d')" "\<forall>m. valid m \<longrightarrow> sectors d' m = (if m = n then b else sectors (dev s) m)" by blast
  have V: "V = vol sectors valid s" using at by (simp add: at_def)
  have "vol sectors valid (s\<lparr>dev := d'\<rparr>) = V(n := b)" unfolding V using d'(2) n by (auto simp: vol_def view_def fun_eq_iff)
  then show ?thesis using at n d' by (intro exI [of _ d']) (auto simp: at_def coherent_def dirty_def)
qed

lemma direct_read_at:
  assumes at: "at sectors valid s V f g" and n: "valid n" "n \<noteq> fsect (fat s)" and b: "length b = 512"
  shows "\<exists>d'. op_read E b n (dev s) = (True, V n, d') \<and> at sectors valid (s\<lparr>dev := d'\<rparr>) V f g"
proof -
  from read_valid [OF n(1) b, of "dev s"] obtain d' where
    d': "op_read E b n (dev s) = (True, sectors (dev s) n, d')" "\<forall>m. valid m \<longrightarrow> sectors d' m = sectors (dev s) m" by blast
  moreover have "sectors (dev s) n = V n" using at n by (auto simp: at_def vol_def view_def)
  moreover have V: "V = vol sectors valid s" using at by (simp add: at_def)
  have "vol sectors valid (s\<lparr>dev := d'\<rparr>) = V" unfolding V using d'(2) by (auto simp: vol_def view_def fun_eq_iff)
  ultimately show ?thesis using at by (intro exI [of _ d']) (auto simp: at_def coherent_def dirty_def)
qed

text \<open>Moving the file buffer from one sector of the file to another.\<close>

lemma seek_buf_at:
  assumes at: "at sectors valid s V f g" and old: "valid x" "x \<noteq> fsect (fat s)" and new: "valid (fl_sect fl)" "fl_sect fl \<noteq> fsect (fat s)"
    and b: "length (fl_buf fl) = 512" and cl: "fl_flags fl AND FAT_FILE_DIRTY = 0 \<longrightarrow> fl_buf fl = V x"
  shows "\<exists>s'. seek_buf E x (fl, s) =
      (Inr (), fl\<lparr>fl_buf := (V(x := fl_buf fl)) (fl_sect fl), fl_flags := fl_flags fl AND NOT FAT_FILE_DIRTY\<rparr>, s') \<and>
    at sectors valid s' (V(x := fl_buf fl)) f g \<and> fsect (fat s') = fsect (fat s)"
proof (cases "fl_flags fl AND FAT_FILE_DIRTY = 0")
  case True
  then have "V(x := fl_buf fl) = V" using cl by (auto simp: fun_eq_iff)
  moreover have "fl_flags fl AND NOT FAT_FILE_DIRTY = fl_flags fl" using clear_clear [OF True, of "fl_flags fl"] by simp
  moreover from direct_read_at [OF at new b] obtain d' where
    "op_read E (fl_buf fl) (fl_sect fl) (dev s) = (True, V (fl_sect fl), d')" "at sectors valid (s\<lparr>dev := d'\<rparr>) V f g" by blast
  ultimately show ?thesis using True by (auto simp: seek_buf_def ereturn_def ebind_def)
next
  case False
  from direct_write_at [OF at old b] obtain d1 where d1: "op_write E (fl_buf fl) x (dev s) = (True, d1)"
    "at sectors valid (s\<lparr>dev := d1\<rparr>) (V(x := fl_buf fl)) f g" by blast
  from direct_read_at [OF d1(2) new(1) _ b] new(2) obtain d2 where
    "op_read E (fl_buf fl) (fl_sect fl) d1 = (True, (V(x := fl_buf fl)) (fl_sect fl), d2)"
    "at sectors valid (s\<lparr>dev := d2\<rparr>) (V(x := fl_buf fl)) f g" by auto
  then show ?thesis using False d1(1) by (auto simp: seek_buf_def ereturn_def ebind_def)
qed

lemma seek_loop_at:
  assumes "at sectors valid s V f g" and fg: "fat_geom valid f" and dg: "data_geom valid f" and ch: "dir_chain f V cs"
    and "fl_clust fl = cs ! i" and "i + n < length cs" and "fsect (fat s) \<notin> dir_sectors f cs"
  shows "\<exists>s'. seek_loop E n (fl, s) = (Inr (), fl\<lparr>fl_clust := cs ! (i + n)\<rparr>, s') \<and> at sectors valid s' V f g \<and>
    fsect (fat s') \<notin> dir_sectors f cs"
  using assms(1,5-7)
proof (induction n arbitrary: i fl s)
  case 0
  then show ?case by (auto simp: ereturn_def)
next
  case (Suc n)
  have i: "Suc i < length cs" using Suc.prems(3) by simp
  have c: "is_chain (clust_cnt f) (ftab V (fat_sect0 f)) (hd cs) cs" using ch by (simp add: dir_chain_def)
  have b: "cs ! i < clust_cnt f" using dir_chain_clust [OF ch, of i] i by simp
  from get_fat_load [OF Suc.prems(1) fg b] is_chain_link [OF c i] obtain s1 where
    s1: "get_fat E (cs ! i) s = (Inr (cs ! Suc i, CLUST_USED), s1)" "at sectors valid s1 V f g"
    "fsect (fat s1) = fat_sect0 f + cs ! i div 128" by auto
  have "fsect (fat s1) \<in> fat_sectors f" using b s1(3) by (auto simp: fat_sectors_def)
  then have o: "fsect (fat s1) \<notin> dir_sectors f cs" using dir_sectors_meta(2) [OF dg ch] by blast
  have "\<exists>s'. seek_loop E n (fl\<lparr>fl_clust := cs ! Suc i\<rparr>, s1) =
      (Inr (), fl\<lparr>fl_clust := cs ! Suc i, fl_clust := cs ! (Suc i + n)\<rparr>, s') \<and>
    at sectors valid s' V f g \<and> fsect (fat s') \<notin> dir_sectors f cs"
    by (rule Suc.IH [OF s1(2) _ _ o]) (use Suc.prems in auto)
  then show ?case using s1(1) Suc.prems(2) by (auto simp: on_fat_def on_dir_def ereturn_def clust_flag_defs)
qed

end

section \<open>Seeking\<close>

definition file_core :: "fat_file \<Rightarrow> fat_file" where
  "file_core fl = fl\<lparr>fl_clust := 0, fl_sect := 0, fl_offset := 0, fl_flags := fl_flags fl AND NOT FAT_FILE_DIRTY, fl_buf := []\<rparr>"

lemma file_core_fields:
  assumes "file_core fl' = file_core fl"
  shows "fl_fat fl' = fl_fat fl" "fl_sclust fl' = fl_sclust fl" "fl_size fl' = fl_size fl"
    "fl_flags fl' AND NOT FAT_FILE_DIRTY = fl_flags fl AND NOT FAT_FILE_DIRTY"
  using arg_cong [OF assms, of fl_fat] arg_cong [OF assms, of fl_sclust] arg_cong [OF assms, of fl_size] arg_cong [OF assms, of fl_flags]
  by (simp_all add: file_core_def)

lemma clust_size_unat:
  assumes "data_geom valid f"
  shows "unat (push_bit (unat (clust_shift f)) (512 :: u32)) = 512 * spc f"
proof -
  have n: "unat (clust_shift f) < 8" using assms by (simp add: data_geom_def)
  then have "(2 :: nat) ^ unat (clust_shift f) \<le> 2 ^ 7" by (intro power_increasing) auto
  then show ?thesis using unat_push [OF n, of 512] by (simp add: spc_def)
qed

lemma sect_offset:
  fixes w :: u32
  assumes "data_geom valid f"
  shows "(w div 512) AND clust_msk f = of_nat (unat w div 512 mod spc f)"
proof -
  let ?n = "unat (clust_shift f)"
  have m: "clust_msk f = 2 ^ ?n - 1" "?n < 8" using assms by (simp_all add: data_geom_def)
  have "(w div 512) AND clust_msk f = take_bit ?n (w div 512)" by (simp add: m take_bit_eq_mask mask_eq_exp_minus_1)
  moreover have "unat (take_bit ?n (w div 512)) = unat w div 512 mod spc f"
    by (subst unsigned_take_bit_eq) (simp add: take_bit_eq_mod spc_def unat_div)
  ultimately show ?thesis by (metis of_nat_unat ucast_id)
qed

lemma not_dirty_flag: "(w AND NOT FAT_FILE_DIRTY) AND FAT_FILE_DIRTY = 0"
  by (simp add: and.assoc)

context disk
begin

text \<open>The last part of a seek: the position is set and the buffer follows.\<close>

lemma seek_finish_at:
  assumes at: "at sectors valid s V f g" and dg: "data_geom valid f" and ch: "dir_chain f V cs"
    and ok: "file_ok V f cs fl" and fs: "fsect (fat s) \<notin> dir_sectors f cs" and x: "x < fcap f cs" "x < 2 ^ 32"
    and fl1: "file_core fl1 = file_core fl" "fl_clust fl1 = cs ! (x div (512 * spc f))" "fl_buf fl1 = fl_buf fl" "fl_flags fl1 = fl_flags fl"
    and p: "p = fl1\<lparr>fl_sect := fpos f cs x, fl_offset := of_nat x\<rparr>"
  shows "\<exists>fl' s' V'. (if fl_sect p \<noteq> fl_sect fl then seek_buf E (fl_sect fl) (p, s) else ereturn () (p, s)) = (Inr (), fl', s') \<and>
    at sectors valid s' V' f g \<and> dir_chain f V' cs \<and> file_ok V' f cs fl' \<and> fl_offset fl' = of_nat x \<and>
    fshow V' fl' = fshow V fl \<and> fsect (fat s') \<notin> dir_sectors f cs \<and> file_core fl' = file_core fl"
proof -
  let ?o = "unat (fl_offset fl)"
  have o: "?o < fcap f cs" "fl_sect fl = fpos f cs ?o" "length (fl_buf fl) = 512"
    "fl_flags fl AND FAT_FILE_DIRTY = 0 \<longrightarrow> fl_buf fl = V (fl_sect fl)" "fl_fat fl \<noteq> None" "fl_sclust fl = hd cs"
    using ok by (auto simp: file_ok_def)
  note v = fpos_valid(1) [OF dg ch o(1)] fpos_valid(1) [OF dg ch x(1)]
  have nf: "fpos f cs y \<noteq> fsect (fat s)" if "y < fcap f cs" for y using fpos_sectors [OF that] fs by metis
  have ux: "unat (of_nat x :: u32) = x" using x(2) by (simp add: unsigned_of_nat take_bit_nat_eq_self)
  note core = file_core_fields [OF fl1(1)]
  show ?thesis
  proof (cases "fpos f cs x = fl_sect fl")
    case True
    moreover have "file_ok V f cs p" using True o x ux fl1 core by (simp add: p file_ok_def)
    moreover have "file_core p = file_core fl" using fl1(1) by (simp add: p file_core_def)
    ultimately show ?thesis using at ch fs fl1(3) by (intro exI [of _ p] exI [of _ s] exI [of _ V]) (auto simp: p ereturn_def fshow_def)
  next
    case False
    let ?V = "V(fl_sect fl := fl_buf fl)"
    let ?p = "p\<lparr>fl_buf := ?V (fpos f cs x), fl_flags := fl_flags fl AND NOT FAT_FILE_DIRTY\<rparr>"
    have b: "fl_buf p = fl_buf fl" "fl_sect p = fpos f cs x" "fl_flags p = fl_flags fl" using fl1 by (simp_all add: p)
    from seek_buf_at [OF at, of "fl_sect fl" p] v nf [OF o(1)] nf [OF x(1)] o b obtain s' where
      s': "seek_buf E (fl_sect fl) (p, s) = (Inr (), ?p, s')" "at sectors valid s' ?V f g" "fsect (fat s') = fsect (fat s)" by auto
    have "dir_chain f ?V cs" by (rule dir_chain_same [OF ch]) (use fpos_valid(2) [OF dg ch o(1)] o(2) in auto)
    moreover have "length (V (fpos f cs x)) = 512" using at_vol_ok [OF at] v(2) by (simp add: vol_ok_def)
    then have "file_ok ?V f cs ?p" using o x ux fl1 core False not_dirty_flag by (auto simp: p file_ok_def)
    moreover have "file_core ?p = file_core fl" using fl1(1,4) by (simp add: p file_core_def and.assoc)
    moreover have "fshow ?V ?p = fshow V fl" using b by (simp add: fshow_def p fun_eq_iff)
    ultimately show ?thesis using s' fs False b by (intro exI [of _ ?p] exI [of _ s'] exI [of _ ?V]) (auto simp: p)
  qed
qed

lemma seek_at:
  assumes at: "at sectors valid s V f g" and fg: "fat_geom valid f" and dg: "data_geom valid f" and ch: "dir_chain f V cs"
    and ok: "file_ok V f cs fl" and fs: "fsect (fat s) \<notin> dir_sectors f cs" and x: "x < fcap f cs" "x < 2 ^ 32"
    and off: "int x = (if seek = FAT_SEEK_CURR then uint (fl_offset fl) else if seek = FAT_SEEK_END then uint (fl_size fl) else 0) + sint offset"
  shows "\<exists>fl' s' V'. fat_file_seek E offset seek (fl, s) = (Inr (), fl', s') \<and> at sectors valid s' V' f g \<and> dir_chain f V' cs \<and>
    file_ok V' f cs fl' \<and> fl_offset fl' = of_nat x \<and> fshow V' fl' = fshow V fl \<and> fsect (fat s') \<notin> dir_sectors f cs \<and>
    file_core fl' = file_core fl"
proof -
  let ?S = "512 * spc f" and ?o = "fl_offset fl" and ?c = "push_bit (unat (clust_shift f)) (512 :: u32)" and ?x = "of_nat x :: u32"
  have fld: "clust_shift (fat s) = clust_shift f" "clust_to_sect (fat s') = clust_to_sect f" "clust_msk (fat s') = clust_msk f"
    if "at sectors valid s' V f g" for s'
    using at_fields [OF at] at_fields [OF that] by (simp_all add: clust_to_sect_def fun_eq_iff)
  have S: "unat ?c = ?S" by (rule clust_size_unat [OF dg])
  have ux: "unat ?x = x" using x(2) by (simp add: unsigned_of_nat take_bit_nat_eq_self)
  have d: "unat (?x div ?c) = x div ?S" "unat (?o div ?c) = unat ?o div ?S" unfolding unat_div S ux by simp_all
  define r where "r \<longleftrightarrow> x div ?S < unat ?o div ?S"
  have r: "?x div ?c < ?o div ?c \<longleftrightarrow> r" by (simp add: word_less_nat_alt d r_def)
  define j where "j = (if r then 0 else unat ?o div ?S)"
  have j: "j \<le> x div ?S" "x div ?S < length cs" using fpos_bound(2) [OF x(1)] by (auto simp: j_def r_def)
  let ?fl = "if r then fl\<lparr>fl_clust := fl_sclust fl, fl_sect := clust_to_sect f (fl_sclust fl), fl_offset := 0\<rparr> else fl"
  let ?src = "if r then 0 else ?o div ?c"
  have n: "unat (?x div ?c - ?src) = x div ?S - j" using r d by (auto simp: j_def r_def unat_sub word_le_nat_alt)
  have cs: "cs \<noteq> []" using ch by (auto simp: dir_chain_def)
  have ok': "fl_fat fl \<noteq> None" "fl_sclust fl = hd cs" "fl_clust fl = cs ! (unat ?o div ?S)" using ok by (auto simp: file_ok_def)
  then have "fl_clust ?fl = cs ! j" using cs by (simp add: j_def hd_conv_nth)
  from seek_loop_at [OF at fg dg ch this, of "x div ?S - j"] j fs obtain s1 where
    s1: "seek_loop E (x div ?S - j) (?fl, s) = (Inr (), ?fl\<lparr>fl_clust := cs ! (x div ?S)\<rparr>, s1)" "at sectors valid s1 V f g"
    "fsect (fat s1) \<notin> dir_sectors f cs" by auto
  let ?fl1 = "?fl\<lparr>fl_clust := cs ! (x div ?S)\<rparr>"
  let ?p = "?fl1\<lparr>fl_sect := fpos f cs x, fl_offset := ?x\<rparr>"
  have "file_core ?fl1 = file_core fl" "fl_clust ?fl1 = cs ! (x div ?S)" "fl_buf ?fl1 = fl_buf fl" "fl_flags ?fl1 = fl_flags fl"
    by (simp_all add: file_core_def)
  note fin = seek_finish_at [OF s1(2) dg ch ok s1(3) x this refl]
  have pos: "clust_to_sect f (cs ! (x div ?S)) + ((?x div 512) AND clust_msk f) = fpos f cs x"
    unfolding sect_offset [OF dg] ux fpos_eq ..
  have "\<not> (int x < 0 \<or> int x > 0xffffffff)" "word_of_int (int x) = ?x" using x(2) by auto
  moreover obtain v where "fl_fat fl = Some v" using ok'(1) by blast
  ultimately have "fat_file_seek E offset seek (fl, s) =
      (if fl_sect ?p \<noteq> fl_sect fl then seek_buf E (fl_sect fl) (?p, s1) else ereturn () (?p, s1))"
    using s1(1) off [symmetric] r n pos fld [OF at] fld [OF s1(2)]
    unfolding fat_file_seek_def Let_def by (cases r) (simp_all add: on_dir_def)
  with fin show ?thesis by simp
qed

end

section \<open>Reading\<close>

text \<open>The state of an open file: the volume, and the file on it, shown as \<open>W\<close>.\<close>

definition file_at :: "('d \<Rightarrow> u32 \<Rightarrow> bytes) \<Rightarrow> (u32 \<Rightarrow> bool) \<Rightarrow> fat \<Rightarrow> work \<Rightarrow> u32 list \<Rightarrow> (u32 \<Rightarrow> bytes) \<Rightarrow> fat_file \<Rightarrow> 'd st \<Rightarrow> bool" where
  "file_at sectors valid f g cs W fl s \<longleftrightarrow> (\<exists>V. at sectors valid s V f g \<and> dir_chain f V cs \<and> file_ok V f cs fl \<and>
     fshow V fl = W \<and> fsect (fat s) \<notin> dir_sectors f cs)"

lemma fbyte_run:
  assumes ok: "file_ok V f cs fl" and c: "cnt \<le> 512 - unat (fl_offset fl) mod 512"
  shows "get_bytes (fl_buf fl) (unat (fl_offset fl) mod 512) cnt = map (fbyte f cs (fshow V fl)) [unat (fl_offset fl)..<unat (fl_offset fl) + cnt]"
proof (rule nth_equalityI)
  have l: "length (fl_buf fl) = 512" using ok by (simp add: file_ok_def)
  have m: "unat (fl_offset fl) mod 512 < 512" by simp
  show "length (get_bytes (fl_buf fl) (unat (fl_offset fl) mod 512) cnt) = length (map (fbyte f cs (fshow V fl)) [unat (fl_offset fl)..<unat (fl_offset fl) + cnt])"
    using l c m by (simp add: get_bytes_def)
  fix j assume "j < length (get_bytes (fl_buf fl) (unat (fl_offset fl) mod 512) cnt)"
  then have j: "j < cnt" by (simp add: get_bytes_def)
  then have "j < 512 - unat (fl_offset fl) mod 512" using c by simp
  note run = sector_run [OF this]
  then have "fpos f cs (unat (fl_offset fl) + j) = fl_sect fl"
    using ok fpos_same [of "unat (fl_offset fl) + j" "unat (fl_offset fl)"] by (simp add: file_ok_def)
  then show "get_bytes (fl_buf fl) (unat (fl_offset fl) mod 512) cnt ! j = map (fbyte f cs (fshow V fl)) [unat (fl_offset fl)..<unat (fl_offset fl) + cnt] ! j"
    using run j l c m by (simp add: fbyte_def fshow_def get_bytes_def)
qed

lemma unat_of_nat32: "x < 2 ^ 32 \<Longrightarrow> unat (of_nat x :: u32) = x"
  by (simp add: unsigned_of_nat take_bit_nat_eq_self)

lemma sint_small: "cnt \<le> 512 \<Longrightarrow> sint (of_nat cnt :: u32) = int cnt"
proof -
  assume "cnt \<le> 512"
  then have "int cnt < 2 ^ 31" by simp
  then have "signed_take_bit 31 (int cnt) = int cnt" by (intro signed_take_bit_int_eq_self) auto
  then show ?thesis by (simp add: signed_of_nat)
qed

context disk
begin

text \<open>A seek forward from the current position, as the loops do it.\<close>

lemma file_advance:
  assumes fa: "file_at sectors valid f g cs W fl s" and fg: "fat_geom valid f" and dg: "data_geom valid f"
    and c: "cnt \<le> 512" and x: "unat (fl_offset fl) + cnt < fcap f cs" "unat (fl_offset fl) + cnt < 2 ^ 32"
  shows "\<exists>fl' s'. fat_file_seek E (of_nat cnt) FAT_SEEK_CURR (fl, s) = (Inr (), fl', s') \<and> file_at sectors valid f g cs W fl' s' \<and>
    unat (fl_offset fl') = unat (fl_offset fl) + cnt \<and> file_core fl' = file_core fl"
proof -
  from fa obtain V where V: "at sectors valid s V f g" "dir_chain f V cs" "file_ok V f cs fl" "fshow V fl = W"
    "fsect (fat s) \<notin> dir_sectors f cs" by (auto simp: file_at_def)
  let ?x = "unat (fl_offset fl) + cnt"
  have "int ?x = (if FAT_SEEK_CURR = FAT_SEEK_CURR then uint (fl_offset fl) else if FAT_SEEK_CURR = FAT_SEEK_END then uint (fl_size fl) else 0) + sint (of_nat cnt :: u32)"
    using sint_small [OF c] by simp
  from seek_at [OF V(1) fg dg V(2,3,5) x this] obtain fl' s' V' where
    r: "fat_file_seek E (of_nat cnt) FAT_SEEK_CURR (fl, s) = (Inr (), fl', s')" "at sectors valid s' V' f g" "dir_chain f V' cs"
    "file_ok V' f cs fl'" "fl_offset fl' = of_nat ?x" "fshow V' fl' = fshow V fl" "fsect (fat s') \<notin> dir_sectors f cs"
    "file_core fl' = file_core fl" by blast
  have "unat (fl_offset fl') = ?x" unfolding r(5) by (rule unat_of_nat32 [OF x(2)])
  with r V(4) show ?thesis by (auto simp: file_at_def)
qed

lemma read_loop_at:
  assumes "file_at sectors valid f g cs W fl s" and fg: "fat_geom valid f" and dg: "data_geom valid f"
    and "m = min len (unat (fl_size fl) - unat (fl_offset fl))" and "unat (fl_offset fl) + m < fcap f cs"
  shows "\<exists>fl' s'. read_loop E len dst (fl, s) =
      ((FAT_ERR_NONE, dst @ map (fbyte f cs W) [unat (fl_offset fl)..<unat (fl_offset fl) + m]), fl', s') \<and>
    file_at sectors valid f g cs W fl' s' \<and> unat (fl_offset fl') = unat (fl_offset fl) + m \<and> file_core fl' = file_core fl"
  using assms(1,4,5)
proof (induction len arbitrary: m dst fl s rule: less_induct)
  case (less len)
  let ?o = "unat (fl_offset fl)"
  show ?case
  proof (cases "len = 0 \<or> fl_size fl \<le> fl_offset fl")
    case True
    then have "m = 0" using less.prems(2) by (auto simp: word_le_nat_alt)
    then show ?thesis using True less.prems(1) by auto
  next
    case False
    define cnt where "cnt = min len (min (512 - ?o mod 512) (unat (fl_size fl - fl_offset fl)))"
    have lt: "0 < len" "fl_offset fl < fl_size fl" using False by auto
    then have sz: "unat (fl_size fl - fl_offset fl) = unat (fl_size fl) - ?o" by (simp add: unat_sub)
    have cnt: "0 < cnt" "cnt \<le> len" "cnt \<le> 512" "cnt \<le> 512 - ?o mod 512" "cnt \<le> m" "len - cnt < len"
      using lt sz less.prems(2) by (auto simp: cnt_def word_less_nat_alt min_le_iff_disj)
    have sz32: "unat (fl_size fl) < 2 ^ LENGTH(32)" by (rule unsigned_less)
    have "?o + m \<le> unat (fl_size fl)" using less.prems(2) lt(2) by (auto simp: word_less_nat_alt)
    then have x: "?o + cnt < fcap f cs" "?o + cnt < 2 ^ 32" using less.prems(3) cnt(5) sz32 by auto
    from file_advance [OF less.prems(1) fg dg cnt(3) x] obtain fl1 s1 where
      s1: "fat_file_seek E (of_nat cnt) FAT_SEEK_CURR (fl, s) = (Inr (), fl1, s1)" "file_at sectors valid f g cs W fl1 s1"
      "unat (fl_offset fl1) = ?o + cnt" "file_core fl1 = file_core fl" by blast
    have run: "get_bytes (fl_buf fl) (?o mod 512) cnt = map (fbyte f cs W) [?o..<?o + cnt]"
      using less.prems(1) fbyte_run [OF _ cnt(4), of _ f cs] by (auto simp: file_at_def)
    have m1: "m - cnt = min (len - cnt) (unat (fl_size fl1) - unat (fl_offset fl1))"
      using less.prems(2) cnt(2,5) file_core_fields(3) [OF s1(4)] s1(3) by (simp add: min_def)
    have "unat (fl_offset fl1) + (m - cnt) < fcap f cs" using s1(3) less.prems(3) cnt(5) by simp
    from less.IH [OF cnt(6) s1(2) m1 this, of "dst @ map (fbyte f cs W) [?o..<?o + cnt]"] obtain fl' s' where
      r: "read_loop E (len - cnt) (dst @ map (fbyte f cs W) [?o..<?o + cnt]) (fl1, s1) =
        ((FAT_ERR_NONE, (dst @ map (fbyte f cs W) [?o..<?o + cnt]) @ map (fbyte f cs W) [?o + cnt..<?o + m]), fl', s')"
      "file_at sectors valid f g cs W fl' s'" "unat (fl_offset fl') = ?o + m" "file_core fl' = file_core fl1"
      using s1(3) cnt(5) by auto
    have "read_loop E len dst (fl, s) = read_loop E (len - cnt) (dst @ map (fbyte f cs W) [?o..<?o + cnt]) (fl1, s1)"
      using False s1(1) run by (subst read_loop.simps) (simp add: Let_def flip: cnt_def)
    moreover have "[?o..<?o + cnt] @ [?o + cnt..<?o + m] = [?o..<?o + m]"
      using cnt(5) upt_add_eq_append [of ?o "?o + cnt" "m - cnt"] by simp
    ultimately show ?thesis using r s1(4) by (auto simp flip: map_append)
  qed
qed

end

section \<open>Writing\<close>

text \<open>\<open>W'\<close> is \<open>W\<close> with the bytes from position \<open>x\<close> on replaced by \<open>src\<close>.\<close>

definition wrote :: "fat \<Rightarrow> u32 list \<Rightarrow> nat \<Rightarrow> bytes \<Rightarrow> (u32 \<Rightarrow> bytes) \<Rightarrow> (u32 \<Rightarrow> bytes) \<Rightarrow> bool" where
  "wrote f cs x src W W' \<longleftrightarrow>
     (\<forall>y < fcap f cs. fbyte f cs W' y = (if x \<le> y \<and> y < x + length src then src ! (y - x) else fbyte f cs W y)) \<and>
     (\<forall>n. n \<notin> dir_sectors f cs \<longrightarrow> W' n = W n)"

lemma wrote_nil: "wrote f cs x [] W W"
  by (auto simp: wrote_def)

lemma wrote_append: "wrote f cs x a W W1 \<Longrightarrow> wrote f cs (x + length a) b W1 W2 \<Longrightarrow> wrote f cs x (a @ b) W W2"
  by (auto simp: wrote_def nth_append)

lemma flag_or_dirty: "(w OR FAT_FILE_DIRTY) AND FAT_FILE_DIRTY \<noteq> 0" "(w OR FAT_FILE_DIRTY) AND NOT FAT_FILE_DIRTY = w AND NOT FAT_FILE_DIRTY"
proof -
  have "bit ((w OR FAT_FILE_DIRTY) AND FAT_FILE_DIRTY) 7" by (simp add: bit_simps FAT_FILE_DIRTY_def)
  then show "(w OR FAT_FILE_DIRTY) AND FAT_FILE_DIRTY \<noteq> 0" by force
  show "(w OR FAT_FILE_DIRTY) AND NOT FAT_FILE_DIRTY = w AND NOT FAT_FILE_DIRTY" by (rule bit_word_eqI) (auto simp: bit_simps)
qed

context disk
begin

text \<open>The bytes put into the file's buffer.\<close>

lemma file_put:
  assumes fa: "file_at sectors valid f g cs W fl s" and dg: "data_geom valid f" and c: "unat (fl_offset fl) mod 512 + length a \<le> 512"
    and fl1: "fl1 = fl\<lparr>fl_buf := put_bytes (fl_buf fl) (unat (fl_offset fl) mod 512) a, fl_flags := fl_flags fl OR FAT_FILE_DIRTY\<rparr>"
  shows "\<exists>W1. file_at sectors valid f g cs W1 fl1 s \<and> wrote f cs (unat (fl_offset fl)) a W W1"
proof -
  let ?o = "unat (fl_offset fl)"
  from fa obtain V where V: "at sectors valid s V f g" "dir_chain f V cs" "file_ok V f cs fl" "fshow V fl = W"
    "fsect (fat s) \<notin> dir_sectors f cs" by (auto simp: file_at_def)
  let ?W = "fshow V fl1"
  have ok: "?o < fcap f cs" "fl_sect fl = fpos f cs ?o" "length (fl_buf fl) = 512" using V(3) by (auto simp: file_ok_def)
  have "file_ok V f cs fl1" using V(3) flag_or_dirty(1) by (simp add: fl1 file_ok_def)
  then have "file_at sectors valid f g cs ?W fl1 s" using V by (auto simp: file_at_def)
  moreover have "fbyte f cs ?W y = (if ?o \<le> y \<and> y < ?o + length a then a ! (y - ?o) else fbyte f cs W y)" if y: "y < fcap f cs" for y
  proof (cases "fpos f cs y = fl_sect fl")
    case True
    then have d: "y div 512 = ?o div 512" using fpos_inj [OF dg V(2) y ok(1)] ok(2) by simp
    then have yo: "y - y mod 512 = ?o - ?o mod 512" by (metis minus_mod_eq_div_mult)
    then have "y mod 512 < ?o mod 512 \<longleftrightarrow> y < ?o" "y mod 512 - ?o mod 512 = y - ?o" "y mod 512 < ?o mod 512 + length a \<longleftrightarrow> y < ?o + length a"
      using mod_less_eq_dividend [of y 512] mod_less_eq_dividend [of ?o 512] by linarith+
    then show ?thesis using True V(4) ok(3) c
      by (auto simp: fbyte_def fshow_def fl1 put_bytes_nth)
  next
    case False
    then have "\<not> (?o \<le> y \<and> y < ?o + length a)"
      using sector_run [of "y - ?o" ?o] c fpos_same [of y ?o f cs] ok(2) by force
    then show ?thesis using False V(4) by (auto simp: fbyte_def fshow_def fl1)
  qed
  moreover have "?W n = W n" if "n \<notin> dir_sectors f cs" for n
    using that V(4) ok(2) fpos_sectors [OF ok(1)] by (auto simp: fshow_def fl1)
  ultimately show ?thesis by (auto simp: wrote_def)
qed

lemma write_loop_at:
  assumes "file_at sectors valid f g cs W fl s" and fg: "fat_geom valid f" and dg: "data_geom valid f"
    and "unat (fl_offset fl) + length src < fcap f cs" and "unat (fl_offset fl) + length src < 2 ^ 32"
  shows "\<exists>fl' s' W'. write_loop E src moved (fl, s) = (moved + length src, fl', s') \<and> file_at sectors valid f g cs W' fl' s' \<and>
    wrote f cs (unat (fl_offset fl)) src W W' \<and> unat (fl_offset fl') = unat (fl_offset fl) + length src \<and> file_core fl' = file_core fl"
  using assms(1,4,5)
proof (induction "length src" arbitrary: src moved fl s W rule: less_induct)
  case less
  let ?o = "unat (fl_offset fl)"
  show ?case
  proof (cases "src = []")
    case True
    then show ?thesis using less.prems(1) wrote_nil by fastforce
  next
    case False
    define cnt where "cnt = min (length src) (512 - ?o mod 512)"
    have m: "?o mod 512 < 512" by simp
    have cnt: "0 < cnt" "cnt \<le> length src" "cnt \<le> 512" "?o mod 512 + cnt \<le> 512" using False m by (auto simp: cnt_def)
    let ?a = "take cnt src"
    let ?fl = "fl\<lparr>fl_buf := put_bytes (fl_buf fl) (?o mod 512) ?a, fl_flags := fl_flags fl OR FAT_FILE_DIRTY\<rparr>"
    have la: "length ?a = cnt" using cnt(2) by simp
    from file_put [OF less.prems(1) dg _ refl, of ?a] la cnt(4) obtain W1 where
      W1: "file_at sectors valid f g cs W1 ?fl s" "wrote f cs ?o ?a W W1" by auto
    have x: "unat (fl_offset ?fl) + cnt < fcap f cs" "unat (fl_offset ?fl) + cnt < 2 ^ 32" using less.prems(2,3) cnt(2) by auto
    from file_advance [OF W1(1) fg dg cnt(3) x] obtain fl1 s1 where
      s1: "fat_file_seek E (of_nat cnt) FAT_SEEK_CURR (?fl, s) = (Inr (), fl1, s1)" "file_at sectors valid f g cs W1 fl1 s1"
      "unat (fl_offset fl1) = ?o + cnt" "file_core fl1 = file_core ?fl" by auto
    have core: "file_core ?fl = file_core fl" using flag_or_dirty(2) by (simp add: file_core_def)
    have "length (drop cnt src) < length src" "unat (fl_offset fl1) + length (drop cnt src) < fcap f cs"
      "unat (fl_offset fl1) + length (drop cnt src) < 2 ^ 32" using cnt(1,2) s1(3) less.prems(2,3) False by auto
    from less.hyps [OF this(1) s1(2) this(2,3), of "moved + cnt"] obtain fl' s' W' where
      r: "write_loop E (drop cnt src) (moved + cnt) (fl1, s1) = (moved + cnt + length (drop cnt src), fl', s')"
      "file_at sectors valid f g cs W' fl' s'" "wrote f cs (unat (fl_offset fl1)) (drop cnt src) W1 W'"
      "unat (fl_offset fl') = unat (fl_offset fl1) + length (drop cnt src)" "file_core fl' = file_core fl1" by blast
    have "write_loop E src moved (fl, s) = write_loop E (drop cnt src) (moved + cnt) (fl1, s1)"
      using False s1(1) by (subst write_loop.simps) (simp add: Let_def flip: cnt_def)
    moreover have "wrote f cs ?o src W W'"
      using wrote_append [OF W1(2), of "drop cnt src" W'] r(3) s1(3) la by simp
    ultimately show ?thesis using r s1(3,4) core cnt(2) by (intro exI [of _ fl'] exI [of _ s'] exI [of _ W']) auto
  qed
qed

end

section \<open>Synchronising\<close>

lemma length_sync_entry [simp]: "length (sync_entry fl b) = length b"
proof -
  obtain date time where e: "encode_timestamp = (date, time)" by fastforce
  show ?thesis unfolding sync_entry_def e Let_def prod.case by simp
qed

lemma get_u32_put_u16_other:
  assumes "j + 2 \<le> i \<or> i + 4 \<le> j"
  shows "get_u32 (put_u16 b j v) i = get_u32 b i"
proof -
  have "put_u16 b j v ! k = b ! k" if "k = i \<or> k = i + 1 \<or> k = i + 2 \<or> k = i + 3" for k
    using assms that by (auto simp: put_u16_def)
  then show ?thesis by (simp add: get_u32_def)
qed

lemma sync_entry_size:
  assumes "unat (fl_dir_idx fl) + 32 \<le> length b" and "fl_flags fl AND FAT_MODIFIED \<noteq> 0"
  shows "get_u32 (sync_entry fl b) (unat (fl_dir_idx fl) + sfn_size) = fl_size fl"
proof -
  obtain date time where e: "encode_timestamp = (date, time)" by fastforce
  have o: "unat (fl_dir_idx fl) + sfn_mod_time + 2 \<le> unat (fl_dir_idx fl) + sfn_size" "unat (fl_dir_idx fl) + sfn_mod_date + 2 \<le> unat (fl_dir_idx fl) + sfn_size"
    by (simp_all add: sfn_mod_time_def sfn_mod_date_def sfn_size_def)
  have l: "unat (fl_dir_idx fl) + sfn_size + 3 < length b" using assms(1) by (simp add: sfn_size_def)
  show ?thesis unfolding sync_entry_def e Let_def prod.case if_P [OF assms(2)]
    by (subst get_u32_put_u16_other, use o in blast)+ (use l in \<open>simp add: get_put_u32\<close>)
qed

context disk
begin

lemma sync_fs_vol:
  assumes at: "at sectors valid s V f g" and n: "valid (info_sect f)"
  shows "\<exists>s'. sync_fs E s = (Inr (), s') \<and> (\<forall>m. valid m \<longrightarrow> m \<noteq> info_sect f \<longrightarrow> sectors (dev s') m = V m)"
proof -
  have co: "coherent sectors valid s" and V: "V = vol sectors valid s" using at by (auto simp: at_def)
  have n': "valid (info_sect (fat s))" using n at_fields(3) [OF at] by simp
  from sync_fs_ok [OF co n'] obtain s' where "sync_fs E s = (Inr (), s')"
    "\<forall>m. valid m \<longrightarrow> sectors (dev s') m = (if fflags (fat s) AND FAT_INFO_DIRTY \<noteq> 0 \<and> m = info_sect (fat s)
        then info_update (fat s) (view sectors s m) else view sectors s m)" by blast
  then show ?thesis using at_fields(3) [OF at] by (auto simp: V vol_def)
qed

lemma file_sync_at:
  assumes fa: "file_at sectors valid f g cs W fl s" and dg: "data_geom valid f" and i: "valid (info_sect f)"
    and d: "valid (fl_dir_sect fl)" "fl_dir_sect fl \<notin> dir_sectors f cs" "fl_dir_sect fl \<noteq> info_sect f" "unat (fl_dir_idx fl) + 32 \<le> 512"
    and m: "fl_flags fl AND FAT_MODIFIED \<noteq> 0"
  shows "\<exists>fl' s'. fat_file_sync E (fl, s) = (Inr (), fl', s') \<and>
    (\<forall>n \<in> dir_sectors f cs. sectors (dev s') n = W n) \<and>
    get_u32 (sectors (dev s') (fl_dir_sect fl)) (unat (fl_dir_idx fl) + sfn_size) = fl_size fl"
proof -
  from fa obtain V where V: "at sectors valid s V f g" "dir_chain f V cs" "file_ok V f cs fl" "fshow V fl = W"
    "fsect (fat s) \<notin> dir_sectors f cs" by (auto simp: file_at_def)
  have o: "unat (fl_offset fl) < fcap f cs" "fl_sect fl = fpos f cs (unat (fl_offset fl))" "length (fl_buf fl) = 512"
    "fl_fat fl \<noteq> None" using V(3) by (auto simp: file_ok_def)
  then obtain v where v: "fl_fat fl = Some v" by blast
  have so: "fl_sect fl \<in> dir_sectors f cs" using fpos_sectors [OF o(1)] o(2) by simp
  have "valid (fl_sect fl)" "fl_sect fl \<noteq> fsect (fat s)" using dir_sectors_meta(1) [OF dg V(2) so] so V(5) by auto
  from direct_write_at [OF V(1) this o(3)] obtain d1 where d1: "op_write E (fl_buf fl) (fl_sect fl) (dev s) = (True, d1)"
    "at sectors valid (s\<lparr>dev := d1\<rparr>) W f g" using V(4) by (auto simp: fshow_def)
  let ?s1 = "s\<lparr>dev := d1\<rparr>" and ?n = "fl_dir_sect fl"
  have co: "coherent sectors valid ?s1" and W: "vol sectors valid ?s1 = W" using d1(2) by (auto simp: at_def)
  from update_buf_vol [OF co d(1)] obtain s2 where s2: "update_buf E ?n ?s1 = (Inr (), s2)" "vol_step sectors valid ?s1 W s2"
    "fsect (fat s2) = ?n" "buf (fat s2) = W ?n" using W by auto
  have at2: "at sectors valid s2 W f g" by (rule at_step [OF d1(2) s2(2)])
  then have co2: "coherent sectors valid s2" and W2: "vol sectors valid s2 = W" by (auto simp: at_def)
  have l: "length (W ?n) = 512" using at_vol_ok [OF at2] d(1) by (simp add: vol_ok_def)
  let ?s3 = "upd_fat (\<lambda>f. f\<lparr>buf := sync_entry fl (W ?n), fflags := fflags f OR FAT_BUF_DIRTY\<rparr>) s2"
  from store_vol [OF co2, of "sync_entry fl (W ?n)"] l d(1) s2(3) W2 have
    "vol_step sectors valid s2 (W(?n := sync_entry fl (W ?n))) ?s3" by simp
  from at_step [OF at2 this] have at3: "at sectors valid ?s3 (W(?n := sync_entry fl (W ?n))) f g" .
  from sync_fs_vol [OF at3 i] obtain s4 where s4: "sync_fs E ?s3 = (Inr (), s4)"
    "\<forall>m. valid m \<longrightarrow> m \<noteq> info_sect f \<longrightarrow> sectors (dev s4) m = (W(?n := sync_entry fl (W ?n))) m" by blast
  have nz: "fl_flags fl AND (FAT_ACCESSED OR FAT_MODIFIED) \<noteq> 0"
  proof
    assume z: "fl_flags fl AND (FAT_ACCESSED OR FAT_MODIFIED) = 0"
    have "fl_flags fl AND FAT_MODIFIED = (fl_flags fl AND (FAT_ACCESSED OR FAT_MODIFIED)) AND FAT_MODIFIED"
      by (simp add: and.assoc FAT_ACCESSED_def FAT_MODIFIED_def)
    also have "\<dots> = 0" unfolding z by simp
    finally show False using m by blast
  qed
  have "fat_file_sync E (fl, s) = (Inr (), fl\<lparr>fl_flags := fl_flags fl AND NOT (FAT_ACCESSED OR FAT_MODIFIED)\<rparr>, s4)"
    using d1(1) s2 s4(1) nz v by (simp add: fat_file_sync_def on_fat_def on_dir_def set_flag_def set_buf_def emodify_def fat_flags_buf_swap)
  moreover have "sectors (dev s4) n = W n" if "n \<in> dir_sectors f cs" for n
    using s4(2) dir_sectors_meta [OF dg V(2) that] d(2) that by auto
  moreover have "get_u32 (sectors (dev s4) ?n) (unat (fl_dir_idx fl) + sfn_size) = fl_size fl"
    using s4(2) d sync_entry_size [OF _ m, of "W ?n"] l by auto
  ultimately show ?thesis by blast
qed

end

end
