(* ===== verification/FatFileTheorems.thy ===== *)
theory FatFileTheorems
  imports FatFileOps
begin

text \<open>
  The properties of open files on the ATA driver, with a file on the chain 3, 5, 6 of the
  demonstration volume as instance.
\<close>

lemma file_at_meta:
  assumes "file_at sectors valid f g cs W fl s"
  shows "file_at sectors valid f g cs W (fl\<lparr>fl_size := z\<rparr>) s"
    and "m AND FAT_FILE_DIRTY = 0 \<Longrightarrow> file_at sectors valid f g cs W (fl\<lparr>fl_flags := fl_flags fl OR m\<rparr>) s"
proof -
  show "file_at sectors valid f g cs W (fl\<lparr>fl_size := z\<rparr>) s" using assms by (auto simp: file_at_def file_ok_def fshow_def)
  assume "m AND FAT_FILE_DIRTY = 0"
  then have "(fl_flags fl OR m) AND FAT_FILE_DIRTY = fl_flags fl AND FAT_FILE_DIRTY"
    by (simp add: bit.conj_disj_distrib2)
  then show "file_at sectors valid f g cs W (fl\<lparr>fl_flags := fl_flags fl OR m\<rparr>) s"
    using assms by (auto simp: file_at_def file_ok_def fshow_def)
qed

section \<open>A file\<close>

definition demo_file :: fat_file where
  "demo_file = \<lparr>fl_fat = Some 0, fl_dir_sect = 16, fl_sclust = 3, fl_clust = 3, fl_sect = 17, fl_size = 1024, fl_offset = 0,
     fl_dir_idx = 32, fl_attr = FAT_ATTR_ARCHIVE, fl_flags = FAT_READ OR FAT_WRITE OR FAT_MODIFIED, fl_buf = replicate 512 0\<rparr>"

lemma demo_file_at: "file_at (sector_bytes demo_ata) lba28 demo_fat ([], 0, 0) [3, 5, 6] demo_vol demo_file demo_st"
proof -
  have v: "demo_vol 17 = replicate 512 0"
    by (auto intro!: nth_equalityI simp: demo_vol_def lba28_def demo_sector)
  have ch: "dir_chain demo_fat demo_vol [3, 5, 6]" by (simp add: dir_chain_def demo_fat_def demo_tab demo_entry_def)
  have "0 \<notin> dir_sectors demo_fat [3, 5, 6]" using dir_sectors_meta(1) [OF demo_data_geom ch, of 0] by (auto simp: lba28_def)
  moreover have "file_ok demo_vol demo_fat [3, 5, 6] demo_file"
    by (simp add: file_ok_def demo_file_def fcap_def spc_def fpos_eq demo_fat_def clust_to_sect_def v)
  moreover have "fshow demo_vol demo_file = demo_vol" by (auto simp: fshow_def demo_file_def fun_eq_iff v)
  moreover have "fsect (fat demo_st) = 0" by (simp add: demo_st_def demo_fat_def)
  ultimately show ?thesis unfolding file_at_def using demo_at ch by (intro exI [of _ demo_vol]) auto
qed

lemma demo_fcap: "fcap demo_fat [3, 5, 6] = 1536"
  by (simp add: fcap_def spc_def demo_fat_def)

section \<open>Properties\<close>

text \<open>C9: \<^verbatim>\<open>fat_file_read\<close> returns the bytes of the file from its offset on, as many as asked for but not
  beyond the size of the file, and advances the offset by that number; the contents of the file
  stay as they are, unwritten data in its buffer included.  It holds when the end of the read is
  inside the clusters of the file.\<close>

theorem fat_file_read_contents:
  assumes fa: "file_at (sector_bytes a) lba28 f g cs W fl s" and fg: "fat_geom lba28 f" and dg: "data_geom lba28 f"
    and fl: "fl_flags fl AND FAT_READ \<noteq> 0" and m: "m = min (unat len) (unat (fl_size fl) - unat (fl_offset fl))"
    and c: "unat (fl_offset fl) + m < fcap f cs"
  shows "\<exists>fl' s'. fat_file_read (ata_env a sk fu) len (fl, s) =
      ((FAT_ERR_NONE, map (fbyte f cs W) [unat (fl_offset fl)..<unat (fl_offset fl) + m]), fl', s') \<and>
    file_at (sector_bytes a) lba28 f g cs W fl' s' \<and> unat (fl_offset fl') = unat (fl_offset fl) + m \<and> fl_size fl' = fl_size fl"
proof -
  let ?fl = "fl\<lparr>fl_flags := fl_flags fl OR FAT_ACCESSED\<rparr>"
  have "file_at (sector_bytes a) lba28 f g cs W ?fl s"
    by (rule file_at_meta(2) [OF fa]) (simp add: FAT_ACCESSED_def FAT_FILE_DIRTY_def)
  from ata.read_loop_at [OF this fg dg, of m "unat len" sk fu "[]"] m c obtain fl' s' where
    r: "read_loop (ata_env a sk fu) (unat len) [] (?fl, s) =
      ((FAT_ERR_NONE, map (fbyte f cs W) [unat (fl_offset fl)..<unat (fl_offset fl) + m]), fl', s')"
    "file_at (sector_bytes a) lba28 f g cs W fl' s'" "unat (fl_offset fl') = unat (fl_offset fl) + m" "file_core fl' = file_core ?fl" by auto
  have "fl_fat fl \<noteq> None" using fa by (auto simp: file_at_def file_ok_def)
  then obtain v where "fl_fat fl = Some v" by blast
  then have "fat_file_read (ata_env a sk fu) len (fl, s) = read_loop (ata_env a sk fu) (unat len) [] (?fl, s)"
    using fl by (simp add: fat_file_read_def del: read_loop.simps)
  then show ?thesis using r file_core_fields(3) [OF r(4)] by auto
qed

theorem fat_file_read_contents_witness:
  "\<exists>fl' s'. fat_file_read (ata_env demo_ata demo_stack 1) 600 (demo_file, demo_st) = ((FAT_ERR_NONE, replicate 600 0), fl', s') \<and>
     unat (fl_offset fl') = 600"
proof -
  have f: "fl_flags demo_file AND FAT_READ \<noteq> 0" "unat (fl_offset demo_file) + 600 < fcap demo_fat [3, 5, 6]"
    "600 = min (unat (600 :: u32)) (unat (fl_size demo_file) - unat (fl_offset demo_file))"
    by (simp_all add: demo_file_def demo_fcap FAT_READ_def FAT_WRITE_def FAT_MODIFIED_def)
  have z: "fbyte demo_fat [3, 5, 6] demo_vol x = 0" if "x < 600" for x
  proof -
    have "x div 512 = 0 \<or> x div 512 = 1" using that by linarith
    then show ?thesis
      by (auto simp: fbyte_def fpos_eq spc_def demo_fat_def clust_to_sect_def demo_vol_def lba28_def demo_sector)
  qed
  then have "map (fbyte demo_fat [3, 5, 6] demo_vol) [0..<600] = replicate 600 0" by (intro nth_equalityI) auto
  moreover have "unat (fl_offset demo_file) = 0" by (simp add: demo_file_def)
  ultimately show ?thesis
    using fat_file_read_contents [OF demo_file_at demo_geom demo_data_geom f(1,3,2), of demo_stack 1] by auto
qed

text \<open>C8: \<^verbatim>\<open>fat_file_write\<close> into space the file already has replaces the bytes from the offset on by the
  source and no others, of the file or of the volume, advances the offset by the length and raises
  the size if the write went past it.\<close>

theorem fat_file_write_contents:
  assumes fa: "file_at (sector_bytes a) lba28 f g cs W fl s" and fg: "fat_geom lba28 f" and dg: "data_geom lba28 f"
    and fl: "fl_flags fl AND FAT_WRITE \<noteq> 0" and c: "unat (fl_offset fl) + length src < fcap f cs" "unat (fl_offset fl) + length src < 2 ^ 32"
  shows "\<exists>fl' s' W'. fat_file_write (ata_env a sk fu) src (fl, s) = ((FAT_ERR_NONE, length src), fl', s') \<and>
    file_at (sector_bytes a) lba28 f g cs W' fl' s' \<and> wrote f cs (unat (fl_offset fl)) src W W' \<and>
    unat (fl_offset fl') = unat (fl_offset fl) + length src \<and>
    unat (fl_size fl') = max (unat (fl_size fl)) (unat (fl_offset fl) + length src)"
proof -
  let ?fl = "fl\<lparr>fl_flags := fl_flags fl OR (FAT_MODIFIED OR FAT_ACCESSED)\<rparr>"
  have "file_at (sector_bytes a) lba28 f g cs W ?fl s"
    by (rule file_at_meta(2) [OF fa]) (simp add: FAT_ACCESSED_def FAT_MODIFIED_def FAT_FILE_DIRTY_def)
  from ata.write_loop_at [OF this fg dg, of src sk fu 0] c obtain fl1 s1 W1 where
    r: "write_loop (ata_env a sk fu) src 0 (?fl, s) = (length src, fl1, s1)" "file_at (sector_bytes a) lba28 f g cs W1 fl1 s1"
    "wrote f cs (unat (fl_offset fl)) src W W1" "unat (fl_offset fl1) = unat (fl_offset fl) + length src" "file_core fl1 = file_core ?fl" by auto
  have sz: "fl_size fl1 = fl_size fl" using file_core_fields(3) [OF r(5)] by simp
  have "fl_fat fl \<noteq> None" using fa by (auto simp: file_at_def file_ok_def)
  then obtain v where "fl_fat fl = Some v" by blast
  then have "fat_file_write (ata_env a sk fu) src (fl, s) =
      ((FAT_ERR_NONE, length src), if fl_offset fl1 > fl_size fl1 then fl1\<lparr>fl_size := fl_offset fl1\<rparr> else fl1, s1)"
    using fl r(1) by (simp add: fat_file_write_def del: write_loop.simps)
  then show ?thesis using r(2-4) file_at_meta(1) [OF r(2), of "fl_offset fl1"] sz
    by (intro exI [of _ "if fl_offset fl1 > fl_size fl1 then fl1\<lparr>fl_size := fl_offset fl1\<rparr> else fl1"] exI [of _ s1] exI [of _ W1])
      (auto simp: word_less_nat_alt)
qed

theorem fat_file_write_contents_witness:
  "\<exists>fl' s' W'. fat_file_write (ata_env demo_ata demo_stack 1) (replicate 1100 7) (demo_file, demo_st) = ((FAT_ERR_NONE, 1100), fl', s') \<and>
     file_at (sector_bytes demo_ata) lba28 demo_fat ([], 0, 0) [3, 5, 6] W' fl' s' \<and>
     (\<forall>x \<in> {..<1536}. fbyte demo_fat [3, 5, 6] W' x = (if x < 1100 then 7 else fbyte demo_fat [3, 5, 6] demo_vol x)) \<and>
     unat (fl_size fl') = 1100"
proof -
  have f: "fl_flags demo_file AND FAT_WRITE \<noteq> 0" "unat (fl_offset demo_file) + length (replicate 1100 7 :: bytes) < fcap demo_fat [3, 5, 6]"
    "unat (fl_offset demo_file) + length (replicate 1100 7 :: bytes) < 2 ^ 32" "unat (fl_offset demo_file) = 0" "unat (fl_size demo_file) = 1024"
    by (simp_all add: demo_file_def demo_fcap FAT_READ_def FAT_WRITE_def FAT_MODIFIED_def)
  from fat_file_write_contents [OF demo_file_at demo_geom demo_data_geom f(1-3), of demo_stack 1] f(4,5) obtain fl' s' W' where
    r: "fat_file_write (ata_env demo_ata demo_stack 1) (replicate 1100 7) (demo_file, demo_st) = ((FAT_ERR_NONE, 1100), fl', s')"
    "file_at (sector_bytes demo_ata) lba28 demo_fat ([], 0, 0) [3, 5, 6] W' fl' s'" "wrote demo_fat [3, 5, 6] 0 (replicate 1100 7) demo_vol W'"
    "unat (fl_size fl') = 1100" by auto
  have "\<forall>x \<in> {..<1536}. fbyte demo_fat [3, 5, 6] W' x = (if x < 1100 then 7 else fbyte demo_fat [3, 5, 6] demo_vol x)"
    using r(3) by (simp add: wrote_def demo_fcap)
  with r show ?thesis by blast
qed

text \<open>C19: After \<^verbatim>\<open>fat_file_sync\<close> of a modified file the disk holds the contents of the file, and its
  directory entry the size.\<close>

theorem fat_file_sync_durable:
  assumes fa: "file_at (sector_bytes a) lba28 f g cs W fl s" and dg: "data_geom lba28 f" and i: "lba28 (info_sect f)"
    and d: "lba28 (fl_dir_sect fl)" "fl_dir_sect fl \<notin> dir_sectors f cs" "fl_dir_sect fl \<noteq> info_sect f" "unat (fl_dir_idx fl) + 32 \<le> 512"
    and m: "fl_flags fl AND FAT_MODIFIED \<noteq> 0"
  shows "\<exists>fl' s'. fat_file_sync (ata_env a sk fu) (fl, s) = (Inr (), fl', s') \<and>
    (\<forall>x < fcap f cs. sector_bytes a (dev s') (fpos f cs x) ! (x mod 512) = fbyte f cs W x) \<and>
    get_u32 (sector_bytes a (dev s') (fl_dir_sect fl)) (unat (fl_dir_idx fl) + sfn_size) = fl_size fl"
proof -
  from ata.file_sync_at [OF assms, of sk fu] obtain fl' s' where
    r: "fat_file_sync (ata_env a sk fu) (fl, s) = (Inr (), fl', s')" "\<forall>n \<in> dir_sectors f cs. sector_bytes a (dev s') n = W n"
    "get_u32 (sector_bytes a (dev s') (fl_dir_sect fl)) (unat (fl_dir_idx fl) + sfn_size) = fl_size fl" by blast
  have "sector_bytes a (dev s') (fpos f cs x) ! (x mod 512) = fbyte f cs W x" if "x < fcap f cs" for x
    using r(2) fpos_sectors [OF that] by (simp add: fbyte_def)
  with r(1,3) show ?thesis by blast
qed

theorem fat_file_sync_durable_witness:
  "\<exists>fl' s'. fat_file_sync (ata_env demo_ata demo_stack 1) (demo_file, demo_st) = (Inr (), fl', s') \<and>
     get_u32 (sector_bytes demo_ata (dev s') 16) (32 + sfn_size) = 1024"
proof -
  have n: "16 \<notin> dir_sectors demo_fat [3, 5, 6]"
  proof
    assume "16 \<in> dir_sectors demo_fat [3, 5, 6]"
    then obtain k where k: "k < 48" "16 = dsect demo_fat [3, 5, 6] k" by (auto simp: dir_sectors_def dcount_def spc_def demo_fat_def)
    have "k div 16 = 0 \<or> k div 16 = 1 \<or> k div 16 = 2" using k(1) by linarith
    then show False using k(2) by (auto simp: dsect_def spc_def demo_fat_def clust_to_sect_def)
  qed
  have "lba28 (info_sect demo_fat)" "lba28 (fl_dir_sect demo_file)" "fl_dir_sect demo_file \<notin> dir_sectors demo_fat [3, 5, 6]"
    "fl_dir_sect demo_file \<noteq> info_sect demo_fat" "unat (fl_dir_idx demo_file) + 32 \<le> 512" "fl_flags demo_file AND FAT_MODIFIED \<noteq> 0"
    using n by (simp_all add: demo_fat_def demo_file_def lba28_def FAT_READ_def FAT_WRITE_def FAT_MODIFIED_def)
  from fat_file_sync_durable [OF demo_file_at demo_data_geom this, of demo_stack 1]
  show ?thesis by (auto simp: demo_file_def)
qed

end
