(* ===== verification/FatMountTheorems.thy ===== *)
theory FatMountTheorems
  imports FatApi FatFileTheorems
begin

text \<open>
  What \<^verbatim>\<open>fat_mount\<close> establishes on the ATA driver: the state every property of the volume layer starts
  from.
\<close>

section \<open>Geometry\<close>

lemma table_sector:
  fixes c w :: u32
  assumes "c < w * 128" and "unat w < 2 ^ 21"
  shows "unat (c div 128) < unat w"
proof -
  have "unat (w * 128) = unat w * 128" using assms(2) unat_mult_lem [of w 128] by simp
  then have "unat c < unat w * 128" using assms(1) by (simp add: word_less_nat_alt)
  then show ?thesis by (simp add: unat_div div_less_iff_less_mult)
qed

lemma mount_geom:
  assumes res: "res = unat (get_u16 b bpb_res_sect_cnt)" "1 < res" and pf: "pf = get_u32 b bpb_sect_per_fat_32" "0 < pf" "unat pf < 2 ^ 21"
    and lim: "unat lba + res + 2 * unat pf \<le> 2 ^ 28" and info: "get_u16 b bpb_info_sect = 1" and f: "f = fat_core (mount_bpb b lba f0)"
  shows "fat_geom lba28 f"
proof -
  have "unat (get_u16 b bpb_res_sect_cnt) < 2 ^ LENGTH(16)" by (rule unsigned_less)
  then have r: "unat (ucast (get_u16 b bpb_res_sect_cnt) :: u32) = res" unfolding res(1) by (simp add: unsigned_ucast_eq take_bit_nat_eq_self)
  have u: "unat (lba + ucast (get_u16 b bpb_res_sect_cnt)) = unat lba + res"
    using lim r unat_add_lem [of lba "ucast (get_u16 b bpb_res_sect_cnt) :: u32"] by simp
  then have u2: "unat (lba + ucast (get_u16 b bpb_res_sect_cnt) + pf) = unat lba + res + unat pf"
    using lim unat_add_lem [of "lba + ucast (get_u16 b bpb_res_sect_cnt)" pf] by simp
  have ui: "unat (lba + 1) = unat lba + 1" using lim res(2) unat_add_lem [of lba 1] by simp
  have cnt: "unat (pf * 128) = unat pf * 128" using pf(3) unat_mult_lem [of pf 128] by simp
  have t: "unat (x + c div 128) = unat x + unat (c div 128)" if "unat x + unat pf \<le> 2 ^ 28" "c < pf * 128" for x c :: u32
    using table_sector [OF that(2) pf(3)] that(1) unat_add_lem [of x "c div 128"] by simp
  note d = table_sector [OF _ pf(3)]
  let ?a = "lba + ucast (get_u16 b bpb_res_sect_cnt)"
  have A: "unat (?a + c div 128) = unat lba + res + unat (c div 128)" "unat (?a + pf + c div 128) = unat lba + res + unat pf + unat (c div 128)"
    if "c < pf * 128" for c using t [of ?a c] t [of "?a + pf" c] that u u2 lim by auto
  have "lba28 (?a + c div 128) \<and> ?a + c div 128 \<noteq> lba + 1" "lba28 (?a + pf + c div 128) \<and> ?a + pf + c div 128 \<noteq> lba + 1"
    if "c < pf * 128" for c
    using A [OF that] d [OF that] lim res(2) ui by (auto simp: lba28_def word_less_nat_alt word_unat_eq_iff)
  moreover have "?a + c div 128 \<noteq> ?a + pf + e div 128" if "c < pf * 128" "e < pf * 128" for c e
    using A(1) [OF that(1)] A(2) [OF that(2)] d [OF that(1)] by (auto simp: word_unat_eq_iff)
  moreover have "lba28 (lba + 1)" using ui lim res(2) by (simp add: lba28_def word_less_nat_alt)
  moreover have "2 < pf * 128" "pf * 128 \<le> 0x0ffffff7" using cnt pf(2,3) by (auto simp: word_less_nat_alt word_le_nat_alt)
  ultimately show ?thesis using info pf(1) by (simp add: fat_geom_def f fat_core_def mount_bpb_def Let_def) metis
qed

section \<open>Mounting\<close>

text \<open>What is on the disk: a FAT32 file system on the whole disk or in the partition.\<close>

definition has_fat :: "(u32 \<Rightarrow> bytes) \<Rightarrow> nat \<Rightarrow> u32 \<Rightarrow> bool" where
  "has_fat D part lba \<longleftrightarrow> (if check_fat (D 0) = Some True then part = 0 \<and> lba = 0
     else check_fat (D 0) = Some False \<and> get_part_lba (D 0) part = Some lba \<and> check_fat (D lba) = Some True)"

lemma probe_read_ata:
  assumes "n < 2 ^ 28" and "length (drv_buf w) = 512"
  shows "\<exists>d. probe_read (ata_env a sk fu) n w = (Inr (), w\<lparr>drv_buf := sector_bytes a (drv_dev w) n, drv_dev := d\<rparr>) \<and>
    sector_bytes a d = sector_bytes a (drv_dev w)"
proof -
  obtain d where "fat32_disk_read a (drv_buf w) n (drv_dev w) = (True, sector_bytes a (drv_dev w) n, d)" "media d = media (drv_dev w)"
    using ata_disk_ops(1) [OF assms(2), of a n "drv_dev w"] lba28_take [OF assms(1)] by auto
  then show ?thesis by (auto simp: probe_read_def ata_env_def ereturn_def Let_def sector_bytes_def fun_eq_iff)
qed

lemma length_sector_bytes [simp]: "length (sector_bytes a d n) = 512"
  by (simp add: sector_bytes_def)

lemma probe_ata:
  assumes l: "length (drv_buf w) = 512" and h: "has_fat (sector_bytes a (drv_dev w)) part lba" and n: "lba < 2 ^ 28"
  shows "\<exists>d. probe (ata_env a sk fu) part w = (Inr lba, w\<lparr>drv_buf := sector_bytes a (drv_dev w) lba, drv_dev := d\<rparr>) \<and>
    sector_bytes a d = sector_bytes a (drv_dev w)"
proof -
  let ?D = "sector_bytes a (drv_dev w)" and ?E = "ata_env a sk fu"
  from probe_read_ata [of 0 w a sk fu] l obtain d1 where
    d1: "probe_read ?E 0 w = (Inr (), w\<lparr>drv_buf := ?D 0, drv_dev := d1\<rparr>)" "sector_bytes a d1 = ?D" by auto
  show ?thesis
  proof (cases "check_fat (?D 0) = Some True")
    case True
    then show ?thesis using h d1 by (auto simp: has_fat_def probe_def probe_check_def ereturn_def)
  next
    case False
    then have c: "check_fat (?D 0) = Some False" "get_part_lba (?D 0) part = Some lba" "check_fat (?D lba) = Some True"
      using h by (auto simp: has_fat_def)
    from probe_read_ata [OF n, of "w\<lparr>drv_buf := ?D 0, drv_dev := d1\<rparr>" a sk fu] d1(2) obtain d2 where
      d2: "probe_read ?E lba (w\<lparr>drv_buf := ?D 0, drv_dev := d1\<rparr>) = (Inr (), w\<lparr>drv_buf := ?D lba, drv_dev := d2\<rparr>)"
      "sector_bytes a d2 = ?D" by auto
    have "probe_check (w\<lparr>drv_buf := ?D 0, drv_dev := d1\<rparr>) = (Inr False, w\<lparr>drv_buf := ?D 0, drv_dev := d1\<rparr>)"
      "probe_check (w\<lparr>drv_buf := ?D lba, drv_dev := d2\<rparr>) = (Inr True, w\<lparr>drv_buf := ?D lba, drv_dev := d2\<rparr>)"
      using c by (simp_all add: probe_check_def ereturn_def)
    then have "probe ?E part w = (Inr lba, w\<lparr>drv_buf := ?D lba, drv_dev := d2\<rparr>)"
      using d1(1) d2(1) c(2) unfolding probe_def by (simp add: ebind_def eget_def ereturn_def split del: if_split)
    then show ?thesis using d2(2) by blast
  qed
qed

lemma check_fat_info: "check_fat b = Some True \<Longrightarrow> get_u16 b bpb_info_sect = 1"
  by (auto simp: check_fat_def Let_def split: if_splits)

text \<open>C10: Mounting a FAT32 file system with \<^verbatim>\<open>fat_mount\<close>, into a zeroed volume structure, succeeds, puts the
  volume in front of the list, and leaves it in the state the other properties start from: its
  contents are the sectors of the disk, its buffer is coherent with them, its tables and its
  information sector lie apart from each other on valid sectors, its data begin behind all tables,
  and its counters are those of the information sector.  The layout of the disk must leave the information sector in the reserved
  area and end within the reach of LBA28.\<close>

theorem fat_mount_establishes:
  assumes l: "length (drv_buf w) = 512" and D: "D = sector_bytes a (drv_dev w)" and h: "has_fat D part lba"
    and b: "b = D lba" and info: "info_ok (D (lba + 1))" and nm: "length name \<le> 32"
    and z: "length (buf (drv_mem w i)) = 512" "fflags (drv_mem w i) = 0"
    and res: "1 < unat (get_u16 b bpb_res_sect_cnt)" and pf: "0 < get_u32 b bpb_sect_per_fat_32" "unat (get_u32 b bpb_sect_per_fat_32) < 2 ^ 21"
    and lim: "unat lba + unat (get_u16 b bpb_res_sect_cnt) + 2 * unat (get_u32 b bpb_sect_per_fat_32) \<le> 2 ^ 28"
  shows "\<exists>w' f g. fat_mount (ata_env a sk fu) part i name w = (Inr (), w') \<and> g_fat_list w' = i # g_fat_list w \<and>
    at (sector_bytes a) lba28 (vol_st i w') (\<lambda>n. if lba28 n then D n else []) f g \<and> fat_geom lba28 f \<and>
    clust_cnt f = get_u32 b bpb_sect_per_fat_32 * 128 \<and> root_clust f = get_u32 b bpb_root_cluster \<and>
    clust_shift f = of_nat (ctz8 (b ! bpb_sect_per_clust)) \<and>
    data_sect f = lba + ucast (get_u16 b bpb_res_sect_cnt) + ucast (b ! bpb_fat_cnt) * get_u32 b bpb_sect_per_fat_32 \<and>
    last_used f = get_u32 (D (lba + 1)) FsInfo_next_free \<and> free_cnt f = get_u32 (D (lba + 1)) FsInfo_free_cnt"
proof -
  let ?E = "ata_env a sk fu"
  have lba: "lba < 2 ^ 28" "lba + 1 < 2 ^ 28"
    using lim res unat_add_lem [of lba 1] by (auto simp: word_less_nat_alt)
  have cf: "check_fat b = Some True" using h b by (auto simp: has_fat_def split: if_splits)
  note i1 = check_fat_info [OF cf]
  from probe_ata [OF l _ lba(1), of a part sk fu] h D obtain d1 where
    p: "probe ?E part w = (Inr lba, w\<lparr>drv_buf := D lba, drv_dev := d1\<rparr>)" "sector_bytes a d1 = D" by auto
  let ?f1 = "mount_bpb b lba (drv_mem w i)"
  let ?w1 = "upd_vol i (mount_bpb b lba) (w\<lparr>drv_buf := D lba, drv_dev := d1\<rparr>)"
  have f1: "drv_mem ?w1 i = ?f1" "drv_buf ?w1 = D lba" "drv_dev ?w1 = d1" by (simp_all add: upd_vol_def)
  have ise: "info_sect ?f1 = lba + 1" using i1 by (simp add: mount_bpb_def Let_def)
  from probe_read_ata [OF lba(2), of ?w1 a sk fu] f1 p(2) D obtain d2 where
    r: "probe_read ?E (lba + 1) ?w1 = (Inr (), ?w1\<lparr>drv_buf := D (lba + 1), drv_dev := d2\<rparr>)" "sector_bytes a d2 = D" by auto
  let ?f2 = "?f1\<lparr>last_used := get_u32 (D (lba + 1)) FsInfo_next_free, free_cnt := get_u32 (D (lba + 1)) FsInfo_free_cnt,
      fat_name := put_bytes (fat_name ?f1) 0 name, fat_name_len := of_nat (length name), fsect := 0\<rparr>"
  let ?w2 = "w\<lparr>drv_mem := (drv_mem w)(i := ?f2), drv_buf := D (lba + 1), drv_dev := d2, g_fat_list := i # g_fat_list w\<rparr>"
  have run: "fat_mount ?E part i name w = (Inr (), ?w2)"
    using p(1) r(1) info nm f1 ise b unfolding fat_mount_def by (simp add: ebind_def eget_def emodify_def upd_vol_def)
  let ?f = "fat_core ?f2" and ?g = "(D (lba + 1), drv_len w, drv_crc w)"
  have fl: "fflags ?f2 = 0" "length (buf ?f2) = 512" using z by (simp_all add: mount_bpb_def Let_def)
  have "at (sector_bytes a) lba28 (vol_st i ?w2) (\<lambda>n. if lba28 n then D n else []) ?f ?g"
    using fl r(2) by (auto simp: at_def coherent_def vol_st_def dirty_def vol_def view_def lba28_def fun_eq_iff)
  moreover have "fat_geom lba28 ?f"
  proof -
    have "fat_geom lba28 (fat_core ?f1)" by (rule mount_geom [OF refl res refl pf lim i1 refl])
    then show ?thesis by (simp add: fat_geom_def fat_core_def)
  qed
  moreover have "clust_cnt ?f = get_u32 b bpb_sect_per_fat_32 * 128" "root_clust ?f = get_u32 b bpb_root_cluster"
    "clust_shift ?f = of_nat (ctz8 (b ! bpb_sect_per_clust))"
    "data_sect ?f = lba + ucast (get_u16 b bpb_res_sect_cnt) + ucast (b ! bpb_fat_cnt) * get_u32 b bpb_sect_per_fat_32"
    by (simp_all add: fat_core_def mount_bpb_def Let_def)
  ultimately show ?thesis using run by (intro exI [of _ ?w2] exI [of _ ?f] exI [of _ ?g]) (simp add: fat_core_def)
qed

text \<open>A disk with one FAT32 file system: two reserved sectors, two tables of 512 sectors, clusters of one
  sector.\<close>

definition demo_boot :: "nat \<Rightarrow> u8" where
  "demo_boot i = (if i = 0 then 0xeb else if i = 12 then 2 else if i = 13 then 1 else if i = 14 then 2 else if i = 16 then 2
     else if i = 34 then 2 else if i = 37 then 2 else if i = 40 then 0x80 else if i = 44 then 2 else if i = 48 then 1
     else if 82 \<le> i \<and> i < 90 then fat32_type ! (i - 82) else 0)"

definition demo_info :: "nat \<Rightarrow> u8" where
  "demo_info i = (if i = 0 \<or> i = 1 then 0x52 else if i = 2 then 0x61 else if i = 3 then 0x41
     else if i = 484 \<or> i = 485 then 0x72 else if i = 486 then 0x41 else if i = 487 then 0x61
     else if i = 488 then 100 else if i = 492 then 2 else if i = 510 then 0x55 else if i = 511 then 0xaa else 0)"

definition demo_disk :: channel where
  "demo_disk = demo_channel (\<lambda>n. if n = 0 then demo_boot else if n = 1 then demo_info else (\<lambda>_. 0))"

definition demo_drv :: "channel drv" where
  "demo_drv = \<lparr>drv_mem = (\<lambda>_. demo_fat\<lparr>buf := replicate 512 0\<rparr>), g_fat_list = [], drv_buf = replicate 512 0, drv_len = 0, drv_crc = 0,
     drv_dev = demo_disk\<rparr>"

lemma demo_sectors:
  "i < 512 \<Longrightarrow> sector_bytes demo_ata demo_disk 0 ! i = demo_boot i" "i < 512 \<Longrightarrow> sector_bytes demo_ata demo_disk 1 ! i = demo_info i"
  by (simp_all add: demo_disk_def demo_channel_sector)

lemma demo_bpb:
  "get_u16 (sector_bytes demo_ata demo_disk 0) bpb_res_sect_cnt = 2" "get_u32 (sector_bytes demo_ata demo_disk 0) bpb_sect_per_fat_32 = 512"
  "get_u32 (sector_bytes demo_ata demo_disk 0) bpb_sect_cnt_32 = 131072" "get_u16 (sector_bytes demo_ata demo_disk 0) bpb_root_ent_cnt = 0"
  "get_u16 (sector_bytes demo_ata demo_disk 0) bpb_sect_cnt_16 = 0" "get_u16 (sector_bytes demo_ata demo_disk 0) bpb_sect_per_fat_16 = 0"
  "get_u16 (sector_bytes demo_ata demo_disk 0) bpb_info_sect = 1" "get_u16 (sector_bytes demo_ata demo_disk 0) bpb_bytes_per_sect = 512"
  "get_u16 (sector_bytes demo_ata demo_disk 0) bpb_ext_flags = 0x80"
  by (simp_all add: get_u16_def get_u32_def bpb_defs demo_sectors demo_boot_def)

lemma demo_type: "get_bytes (sector_bytes demo_ata demo_disk 0) bpb_fs_type 8 = fat32_type"
proof (rule nth_equalityI)
  show "length (get_bytes (sector_bytes demo_ata demo_disk 0) bpb_fs_type 8) = length fat32_type"
    by (simp add: get_bytes_def fat32_type_def bpb_fs_type_def)
  fix i assume "i < length (get_bytes (sector_bytes demo_ata demo_disk 0) bpb_fs_type 8)"
  then have "i < 8" by (simp add: get_bytes_def)
  then show "get_bytes (sector_bytes demo_ata demo_disk 0) bpb_fs_type 8 ! i = fat32_type ! i"
    by (simp add: get_bytes_def bpb_fs_type_def demo_sectors demo_boot_def)
qed

lemma demo_has_fat: "has_fat (sector_bytes demo_ata demo_disk) 0 0"
proof -
  have "sector_bytes demo_ata demo_disk 0 ! 0 = 0xeb" "sector_bytes demo_ata demo_disk 0 ! bpb_fat_cnt = 2" "sector_bytes demo_ata demo_disk 0 ! bpb_sect_per_clust = 1"
    by (simp_all add: demo_sectors demo_boot_def bpb_defs)
  then have "check_fat (sector_bytes demo_ata demo_disk 0) = Some True"
    using demo_type by (simp add: check_fat_def demo_bpb Let_def EXT_FLAG_MIRROR_def)
  then show ?thesis by (simp add: has_fat_def)
qed

lemma demo_info_ok: "info_ok (sector_bytes demo_ata demo_disk 1)"
  by (simp add: info_ok_def get_u32_def FsInfo_tail_sig_def FsInfo_head_sig_def FsInfo_struct_sig_def FsInfo_next_free_def
      FsInfo_free_cnt_def demo_sectors demo_info_def FSINFO_TAIL_SIG_def FSINFO_HEAD_SIG_def FSINFO_STRUCT_SIG_def)

theorem fat_mount_establishes_witness:
  "\<exists>w' f g. fat_mount (ata_env demo_ata demo_stack 1) 0 0 [0x72, 0x6f, 0x6f, 0x74] demo_drv = (Inr (), w') \<and> g_fat_list w' = [0] \<and>
     at (sector_bytes demo_ata) lba28 (vol_st 0 w') (\<lambda>n. if lba28 n then sector_bytes demo_ata demo_disk n else []) f g \<and> fat_geom lba28 f \<and>
     clust_cnt f = 65536"
proof -
  have d: "drv_dev demo_drv = demo_disk" "length (drv_buf demo_drv) = 512" "length (buf (drv_mem demo_drv 0)) = 512" "fflags (drv_mem demo_drv 0) = 0"
    "g_fat_list demo_drv = []"
    by (simp_all add: demo_drv_def demo_fat_def)
  show ?thesis
    using fat_mount_establishes [of demo_drv "sector_bytes demo_ata demo_disk" demo_ata 0 0 "sector_bytes demo_ata demo_disk 0" "[0x72, 0x6f, 0x6f, 0x74]" 0 demo_stack 1]
      d demo_has_fat demo_info_ok by (simp add: demo_bpb) blast
qed

end
