(* ===== verification/KLib.thy ===== *)
theory KLib
  imports Prelude
begin

text \<open>
  The memory and string routines of the kernel, \<^verbatim>\<open>src/kernel/src/lib/kmemory.c\<close> and \<^verbatim>\<open>kstring.c\<close>, and of
  the user library, \<^verbatim>\<open>src/libc/string.c\<close>.  Memory is a function from 64-bit addresses to bytes; a
  loop that runs until it meets a terminating 0 is \<open>None\<close> when there is none.  The word-wise
  copy is proved equal to a copy of the whole range at once when the ranges do not overlap or the
  destination comes first, and the string routines to their meaning on terminated strings.
\<close>

type_synonym mem = "u64 \<Rightarrow> u8"

section \<open>Memory\<close>

definition memset :: "u64 \<Rightarrow> u8 \<Rightarrow> nat \<Rightarrow> mem \<Rightarrow> mem" where
  "memset dst val sz m = fold (\<lambda>i m. m(dst + of_nat i := val)) [0..<sz] m"

fun memcmp :: "mem \<Rightarrow> u64 \<Rightarrow> u64 \<Rightarrow> nat \<Rightarrow> int" where
  "memcmp m m1 m2 0 = 0"
| "memcmp m m1 m2 (Suc sz) =
     (if uint (m m1) - uint (m m2) \<noteq> 0 then uint (m m1) - uint (m m2) else memcmp m (m1 + 1) (m2 + 1) sz)"

definition byte_copy :: "u64 \<Rightarrow> u64 \<Rightarrow> nat \<Rightarrow> mem \<Rightarrow> mem" where
  "byte_copy dst src sz m = fold (\<lambda>i m. m(dst + of_nat i := m (src + of_nat i))) [0..<sz] m"

text \<open>One assignment of a \<^verbatim>\<open>uptr\<close>: eight bytes are read, then eight are written.\<close>

definition copy8 :: "u64 \<Rightarrow> u64 \<Rightarrow> mem \<Rightarrow> mem" where
  "copy8 dst src m = (\<lambda>a. if a - dst < 8 then m (src + (a - dst)) else m a)"

definition word_copy :: "u64 \<Rightarrow> u64 \<Rightarrow> nat \<Rightarrow> mem \<Rightarrow> mem" where
  "word_copy dst src cnt m = fold (\<lambda>i m. copy8 (dst + of_nat (8 * i)) (src + of_nat (8 * i)) m) [0..<cnt] m"

definition memcpy :: "u64 \<Rightarrow> u64 \<Rightarrow> nat \<Rightarrow> mem \<Rightarrow> mem" where
  "memcpy dst src sz m =
     (if dst - src \<le> 8 then byte_copy dst src sz m
      else if sz \<ge> 32
      then let temp_size = sz div 8; remain_size = sz mod 8; m1 = word_copy dst src temp_size m
           in if remain_size > 0
              then byte_copy (dst + of_nat (temp_size * 8)) (src + of_nat (temp_size * 8)) remain_size m1
              else m1
      else byte_copy dst src sz m)"

section \<open>Strings\<close>

partial_function (option) strlen_from :: "mem \<Rightarrow> u64 \<Rightarrow> nat \<Rightarrow> nat option" where
  "strlen_from m s n = (if m (s + of_nat n) \<noteq> 0 then strlen_from m s (n + 1) else Some n)"

definition strlen :: "mem \<Rightarrow> u64 \<Rightarrow> nat option" where
  "strlen m s = strlen_from m s 0"

partial_function (option) strcpy_from :: "u64 \<Rightarrow> u64 \<Rightarrow> nat \<Rightarrow> mem \<Rightarrow> (mem \<times> u64) option" where
  "strcpy_from dst src i m =
     (let m1 = m(dst + of_nat i := m (src + of_nat i))
      in if m1 (src + of_nat i) = 0 then Some (m1, dst + of_nat i) else strcpy_from dst src (i + 1) m1)"

definition strcpy :: "u64 \<Rightarrow> u64 \<Rightarrow> mem \<Rightarrow> (mem \<times> u64) option" where
  "strcpy dst src m = strcpy_from dst src 0 m"

text \<open>\<^verbatim>\<open>strncpy\<close> copies at most \<open>len\<close> bytes, with the terminator if it is among them; the recursion is on
  the bytes that are left.\<close>

fun strncpy_from :: "u64 \<Rightarrow> u64 \<Rightarrow> nat \<Rightarrow> nat \<Rightarrow> mem \<Rightarrow> mem \<times> u64" where
  "strncpy_from dst src i 0 m = (m, dst + of_nat i)"
| "strncpy_from dst src i (Suc n) m =
     (let m1 = m(dst + of_nat i := m (src + of_nat i))
      in if m1 (src + of_nat i) = 0 then (m1, dst + of_nat i) else strncpy_from dst src (i + 1) n m1)"

definition strncpy :: "u64 \<Rightarrow> u64 \<Rightarrow> nat \<Rightarrow> mem \<Rightarrow> mem \<times> u64" where
  "strncpy dst src len m = strncpy_from dst src 0 len m"

partial_function (option) strcmp :: "mem \<Rightarrow> u64 \<Rightarrow> u64 \<Rightarrow> int option" where
  "strcmp m str1 str2 =
     (if m str1 \<noteq> 0 \<and> m str1 = m str2 then strcmp m (str1 + 1) (str2 + 1) else Some (uint (m str1) - uint (m str2)))"

section \<open>The user library\<close>

text \<open>The user library's \<^verbatim>\<open>strcmp\<close> returns the difference as a \<^verbatim>\<open>size_t\<close>.\<close>

definition libc_strcmp :: "mem \<Rightarrow> u64 \<Rightarrow> u64 \<Rightarrow> u64 option" where
  "libc_strcmp m s1 s2 = map_option word_of_int (strcmp m s1 s2)"

fun libc_strncmp_loop :: "mem \<Rightarrow> u64 \<Rightarrow> u64 \<Rightarrow> nat \<Rightarrow> int" where
  "libc_strncmp_loop m s1 s2 0 = uint (m s1) - uint (m s2)"
| "libc_strncmp_loop m s1 s2 (Suc n) =
     (if m s1 \<noteq> 0 \<and> m s1 = m s2 then libc_strncmp_loop m (s1 + 1) (s2 + 1) n else uint (m s1) - uint (m s2))"

definition libc_strncmp :: "mem \<Rightarrow> u64 \<Rightarrow> u64 \<Rightarrow> nat \<Rightarrow> int" where
  "libc_strncmp m s1 s2 n = (if n = 0 then 0 else libc_strncmp_loop m s1 s2 (n - 1))"

partial_function (option) libc_strcpy_loop :: "u64 \<Rightarrow> u64 \<Rightarrow> mem \<Rightarrow> mem option" where
  "libc_strcpy_loop dst src m =
     (if m src \<noteq> 0 then libc_strcpy_loop (dst + 1) (src + 1) (m(dst := m src)) else Some (m(dst := 0)))"

definition libc_strcpy :: "u64 \<Rightarrow> u64 \<Rightarrow> mem \<Rightarrow> (mem \<times> u64) option" where
  "libc_strcpy dst src m = map_option (\<lambda>m'. (m', dst)) (libc_strcpy_loop dst src m)"

partial_function (option) libc_strchr :: "mem \<Rightarrow> u64 \<Rightarrow> u8 \<Rightarrow> u64 option option" where
  "libc_strchr m str c =
     (if m str \<noteq> 0 then if m str = c then Some (Some str) else libc_strchr m (str + 1) c
      else if c = 0 then Some (Some str) else Some None)"

partial_function (option) libc_strlen_loop :: "mem \<Rightarrow> u64 \<Rightarrow> u64 \<Rightarrow> u64 option" where
  "libc_strlen_loop m s p = (if m p \<noteq> 0 then libc_strlen_loop m s (p + 1) else Some (p - s))"

definition libc_strlen :: "mem \<Rightarrow> u64 \<Rightarrow> u64 option" where
  "libc_strlen m s = libc_strlen_loop m s s"

definition libc_memset :: "u64 \<Rightarrow> u8 \<Rightarrow> nat \<Rightarrow> mem \<Rightarrow> mem" where
  "libc_memset dst val sz m = fold (\<lambda>i m. m(dst + of_nat i := val)) [0..<sz] m"

definition libc_memcpy :: "u64 \<Rightarrow> u64 \<Rightarrow> nat \<Rightarrow> mem \<Rightarrow> mem" where
  "libc_memcpy dst src sz m = (if sz = 0 then m else memcpy dst src sz m)"

text \<open>\<^verbatim>\<open>ctol\<close> and the macro \<^verbatim>\<open>str_to_ltype\<close>, which stops at the first character that is no digit; the
  arithmetic is that of the result type.\<close>

definition ctol :: "u8 \<Rightarrow> int" where
  "ctol ch = (if 0x30 \<le> ch \<and> ch \<le> 0x39 then uint ch - 0x30 else -1)"

fun str_to_ltype :: "bytes \<Rightarrow> 'a::len word \<Rightarrow> 'a word" where
  "str_to_ltype [] c = c"
| "str_to_ltype (ch # s) c = (if ctol ch = -1 then c else str_to_ltype s (c * 10 + word_of_int (ctol ch)))"

definition strtol :: "bytes \<Rightarrow> u32" where "strtol s = str_to_ltype s 0"
definition strtoll :: "bytes \<Rightarrow> u64" where "strtoll s = str_to_ltype s 0"
definition strtoul :: "bytes \<Rightarrow> u32" where "strtoul s = str_to_ltype s 0"
definition strtoull :: "bytes \<Rightarrow> u64" where "strtoull s = str_to_ltype s 0"

section \<open>Copies\<close>

text \<open>The range copied at once.\<close>

definition copied :: "u64 \<Rightarrow> u64 \<Rightarrow> nat \<Rightarrow> mem \<Rightarrow> mem" where
  "copied dst src n m = (\<lambda>a. if unat (a - dst) < n then m (src + (a - dst)) else m a)"

definition copy_ok :: "u64 \<Rightarrow> u64 \<Rightarrow> nat \<Rightarrow> bool" where
  "copy_ok dst src n \<longleftrightarrow> unat dst + n \<le> 2 ^ 64 \<and> unat src + n \<le> 2 ^ 64 \<and> (dst \<le> src \<or> unat src + n \<le> unat dst)"

lemma copied_0 [simp]: "copied dst src 0 m = m"
  by (simp add: copied_def)

lemma unat_off: "unat p + n \<le> 2 ^ 64 \<Longrightarrow> i < n \<Longrightarrow> unat (p + of_nat i) = unat p + i" for p :: u64
  using unat_add_lem [of p "of_nat i"] by (simp add: unsigned_of_nat take_bit_nat_eq_self)

lemma unat_of_nat64: "i < 2 ^ 64 \<Longrightarrow> unat (of_nat i :: u64) = i"
  by (simp add: unsigned_of_nat take_bit_nat_eq_self)

text \<open>What is still to be read has not been overwritten.\<close>

lemma copy_behind:
  assumes ok: "copy_ok dst src n" and i: "i < n" and k: "k \<le> i"
  shows "\<not> unat (src + of_nat i - dst) < k"
proof (cases "dst \<le> src")
  case True
  have u: "unat (src + of_nat i) = unat src + i" using ok i by (intro unat_off) (auto simp: copy_ok_def)
  then have "dst \<le> src + of_nat i" using True by (simp add: word_le_nat_alt)
  then have "unat (src + of_nat i - dst) = unat src + i - unat dst" using u by (simp add: unat_sub)
  then show ?thesis using True k by (simp add: word_le_nat_alt)
next
  case False
  then have d: "unat src + n \<le> unat dst" "unat dst + n \<le> 2 ^ 64" "unat src + n \<le> 2 ^ 64" using ok by (auto simp: copy_ok_def)
  have u: "unat (src + of_nat i) = unat src + i" using unat_off [OF d(3) i] .
  have "unat (src + of_nat i - dst) = 2 ^ 64 + (unat src + i) - unat dst"
    using u d i unat_sub_if' [of "src + of_nat i" dst] by simp
  then show ?thesis using d i k by simp
qed

lemma byte_copy_step:
  assumes ok: "copy_ok dst src n" and i: "i < n"
  shows "(copied dst src i m)(dst + of_nat i := copied dst src i m (src + of_nat i)) = copied dst src (Suc i) m"
proof
  fix a
  have v: "copied dst src i m (src + of_nat i) = m (src + of_nat i)" using copy_behind [OF ok i order_refl] by (simp add: copied_def)
  have n: "i < 2 ^ 64" using ok i by (simp add: copy_ok_def)
  have "a = dst + of_nat i \<longleftrightarrow> unat (a - dst) = i"
  proof
    assume "unat (a - dst) = i"
    then have "a - dst = of_nat i" by (metis of_nat_unat ucast_id)
    then show "a = dst + of_nat i" by (simp add: algebra_simps)
  qed (use unat_of_nat64 [OF n] in simp)
  then show "((copied dst src i m)(dst + of_nat i := copied dst src i m (src + of_nat i))) a = copied dst src (Suc i) m a"
    using v unat_of_nat64 [OF n] by (auto simp: copied_def less_Suc_eq)
qed

lemma byte_copy_copied: "copy_ok dst src n \<Longrightarrow> byte_copy dst src n m = copied dst src n m"
proof -
  assume ok: "copy_ok dst src n"
  have "fold (\<lambda>i m. m(dst + of_nat i := m (src + of_nat i))) [0..<k] m = copied dst src k m" if "k \<le> n" for k
    using that by (induction k) (simp_all add: byte_copy_step [OF ok])
  then show ?thesis by (simp add: byte_copy_def)
qed

lemma copy_ok_mono: "copy_ok dst src n \<Longrightarrow> k \<le> n \<Longrightarrow> copy_ok dst src k"
  by (auto simp: copy_ok_def)

lemma copy_ok_tail:
  assumes ok: "copy_ok dst src (k + n)" and n: "0 < n"
  shows "copy_ok (dst + of_nat k) (src + of_nat k) n"
proof -
  have "unat (dst + of_nat k) = unat dst + k" "unat (src + of_nat k) = unat src + k"
    using ok n by (auto intro!: unat_off [where n = "k + n"] simp: copy_ok_def)
  then show ?thesis using ok by (auto simp: copy_ok_def word_le_nat_alt)
qed

lemma unat_minus_off:
  fixes d :: u64
  assumes "k < 2 ^ 64"
  shows "unat (d - of_nat k) = (if k \<le> unat d then unat d - k else 2 ^ 64 + unat d - k)"
  using unat_sub_if' [of d "of_nat k"] unat_of_nat64 [OF assms] assms by auto

lemma copied_append:
  assumes ok: "copy_ok dst src (k + n)" and n: "0 < n"
  shows "copied (dst + of_nat k) (src + of_nat k) n (copied dst src k m) = copied dst src (k + n) m"
proof
  fix a
  define d where "d = a - dst"
  have b: "k + n \<le> 2 ^ 64" "k < 2 ^ 64" using ok n by (auto simp: copy_ok_def)
  have e: "a - (dst + of_nat k) = d - of_nat k" "src + of_nat k + (d - of_nat k) = src + d" by (simp_all add: d_def)
  have sp: "unat (d - of_nat k) < n \<longleftrightarrow> k \<le> unat d \<and> unat d < k + n"
    using unat_minus_off [OF b(2), of d] b unsigned_less [of d] by (auto simp: not_le)
  show "copied (dst + of_nat k) (src + of_nat k) n (copied dst src k m) a = copied dst src (k + n) m a"
  proof (cases "unat (d - of_nat k) < n")
    case True
    then have r: "k \<le> unat d" "unat d < k + n" using sp by auto
    then have "\<not> unat (src + d - dst) < k" using copy_behind [OF ok r(2) r(1)] by simp
    then show ?thesis using True r unfolding copied_def e d_def [symmetric] by simp
  next
    case False
    then show ?thesis using sp b unfolding copied_def e d_def [symmetric] by auto
  qed
qed

lemma copy8_copied: "copy8 dst src m = copied dst src 8 m"
  by (rule ext) (simp add: copy8_def copied_def word_less_nat_alt)

lemma word_copy_copied: "copy_ok dst src (8 * n) \<Longrightarrow> word_copy dst src n m = copied dst src (8 * n) m"
proof -
  assume ok: "copy_ok dst src (8 * n)"
  have "fold (\<lambda>i m. copy8 (dst + of_nat (8 * i)) (src + of_nat (8 * i)) m) [0..<k] m = copied dst src (8 * k) m" if "k \<le> n" for k
    using that
  proof (induction k)
    case (Suc k)
    have "copy_ok dst src (8 * k + 8)" using ok Suc.prems by (auto intro: copy_ok_mono)
    from copied_append [OF this, of m] Suc show ?case by (simp add: copy8_copied del: of_nat_mult) (simp add: add.commute)
  qed simp
  then show ?thesis by (simp add: word_copy_def del: of_nat_mult)
qed

lemma memcpy_copied: "copy_ok dst src n \<Longrightarrow> memcpy dst src n m = copied dst src n m"
proof -
  assume ok: "copy_ok dst src n"
  let ?k = "n div 8 * 8"
  have n: "?k + n mod 8 = n" by simp
  have w: "word_copy dst src (n div 8) m = copied dst src ?k m"
    using word_copy_copied [of dst src "n div 8" m] copy_ok_mono [OF ok, of "8 * (n div 8)"] by (simp add: mult.commute)
  have t: "byte_copy (dst + of_nat ?k) (src + of_nat ?k) (n mod 8) (copied dst src ?k m) = copied dst src n m" if "0 < n mod 8"
  proof -
    have ok2: "copy_ok dst src (?k + n mod 8)" using ok n by simp
    show ?thesis using byte_copy_copied [OF copy_ok_tail [OF ok2 that]] copied_append [OF ok2 that, of m] n by (simp del: of_nat_mult)
  qed
  show ?thesis using byte_copy_copied [OF ok] w t n by (auto simp: memcpy_def Let_def simp del: of_nat_mult)
qed

section \<open>Terminated strings\<close>

text \<open>The bytes \<open>s\<close>, none of them 0, stand at \<open>p\<close> with a 0 after them.\<close>

definition string_at :: "mem \<Rightarrow> u64 \<Rightarrow> bytes \<Rightarrow> bool" where
  "string_at m p s \<longleftrightarrow> 0 \<notin> set s \<and> (\<forall>i < length s. m (p + of_nat i) = s ! i) \<and> m (p + of_nat (length s)) = 0"

lemma string_at_Nil [simp]: "string_at m p [] \<longleftrightarrow> m p = 0"
  by (simp add: string_at_def)

lemma string_at_Cons [simp]: "string_at m p (c # s) \<longleftrightarrow> c \<noteq> 0 \<and> m p = c \<and> string_at m (p + 1) s"
  by (auto simp: string_at_def less_Suc_eq_0_disj add.assoc)

lemma strlen_from_at: "string_at m (p + of_nat k) s \<Longrightarrow> strlen_from m p k = Some (k + length s)"
proof (induction s arbitrary: k)
  case (Cons c s)
  have "string_at m (p + of_nat (Suc k)) s" using Cons.prems by (simp add: algebra_simps)
  from Cons.IH [OF this] Cons.prems show ?case by (subst strlen_from.simps) auto
qed (subst strlen_from.simps, simp)

lemma strlen_at: "string_at m p s \<Longrightarrow> strlen m p = Some (length s)"
  using strlen_from_at [of m p 0 s] by (simp add: strlen_def)

fun str_diff :: "bytes \<Rightarrow> bytes \<Rightarrow> int" where
  "str_diff [] [] = 0"
| "str_diff [] (d # t) = - uint d"
| "str_diff (c # s) [] = uint c"
| "str_diff (c # s) (d # t) = (if c = d then str_diff s t else uint c - uint d)"

lemma strcmp_at: "string_at m p s \<Longrightarrow> string_at m q t \<Longrightarrow> strcmp m p q = Some (str_diff s t)"
  by (induction s t arbitrary: p q rule: str_diff.induct) (subst strcmp.simps, simp)+

lemma str_diff_0: "0 \<notin> set s \<Longrightarrow> 0 \<notin> set t \<Longrightarrow> str_diff s t = 0 \<longleftrightarrow> s = t"
  by (induction s t rule: str_diff.induct) (auto simp: unsigned_eq_0_iff dest: unsigned_word_eqI)

text \<open>\<^verbatim>\<open>strcpy\<close> from a string copies it, with its terminator, and nothing else.\<close>

lemma strcpy_step:
  assumes "copy_ok dst src n" and "k < n"
  shows "strcpy_from dst src k (copied dst src k m) =
     (if m (src + of_nat k) = 0 then Some (copied dst src (Suc k) m, dst + of_nat k)
      else strcpy_from dst src (Suc k) (copied dst src (Suc k) m))"
proof -
  have st: "(copied dst src k m)(dst + of_nat k := copied dst src k m (src + of_nat k)) = copied dst src (Suc k) m"
    by (rule byte_copy_step [OF assms])
  have r: "copied dst src k m (src + of_nat k) = m (src + of_nat k)"
    using copy_behind [OF assms order_refl] by (simp add: copied_def)
  then have "copied dst src (Suc k) m (src + of_nat k) = m (src + of_nat k)"
    by (simp add: st [symmetric])
  then show ?thesis by (subst strcpy_from.simps) (simp add: Let_def st)
qed

lemma strcpy_from_at:
  assumes s: "string_at m src s" and ok: "copy_ok dst src (Suc (length s))" and k: "k \<le> length s"
  shows "strcpy_from dst src k (copied dst src k m) = Some (copied dst src (Suc (length s)) m, dst + of_nat (length s))"
  using k
proof (induction "length s - k" arbitrary: k)
  case 0
  then show ?case using s strcpy_step [OF ok, of k m] by (simp add: string_at_def)
next
  case (Suc d)
  then have k: "k < length s" by simp
  then have "m (src + of_nat k) \<noteq> 0" using s nth_mem [OF k] by (metis string_at_def)
  then show ?case using strcpy_step [OF ok, of k m] Suc(1) [of "Suc k"] Suc(2) k by simp
qed

lemma strcpy_at:
  "string_at m src s \<Longrightarrow> copy_ok dst src (Suc (length s)) \<Longrightarrow>
   strcpy dst src m = Some (copied dst src (Suc (length s)) m, dst + of_nat (length s))"
  using strcpy_from_at [of m src s dst 0] by (simp add: strcpy_def)

section \<open>Properties\<close>

text \<open>C18: When neither range wraps around the address space and the ranges do not overlap, or the
  destination does not lie behind the source, \<^verbatim>\<open>memcpy\<close> (eight bytes at a time, with a tail of
  single bytes) is the copy of the whole range at once: byte \<open>i\<close> of the destination is the old byte
  \<open>i\<close> of the source and nothing else changes.\<close>

theorem memcpy_equiv:
  assumes "copy_ok dst src n"
  shows "memcpy dst src n m = (\<lambda>a. if unat (a - dst) < n then m (src + (a - dst)) else m a)"
  using memcpy_copied [OF assms] by (simp add: copied_def)

theorem memcpy_equiv_witness:
  "memcpy 0x1000 0x1009 37 ucast = (\<lambda>a. if unat (a - 0x1000) < 37 then ucast (0x1009 + (a - 0x1000)) else ucast a)"
  by (rule memcpy_equiv) (simp add: copy_ok_def)

text \<open>After \<^verbatim>\<open>strcpy\<close> of a terminated string to a place that does not overlap it, the loop has ended, the
  result points to the copied terminator, both places hold the string, and \<^verbatim>\<open>strcmp\<close> finds the copy
  equal to exactly those strings that are equal to the original.\<close>

theorem strcpy_strcmp:
  assumes "string_at m src s" and "unat src + Suc (length s) \<le> unat dst" and "unat dst + Suc (length s) \<le> 2 ^ 64"
  shows "\<exists>m'. strcpy dst src m = Some (m', dst + of_nat (length s)) \<and> string_at m' src s \<and> string_at m' dst s \<and>
              (\<forall>p t. string_at m' p t \<longrightarrow> (\<exists>d. strcmp m' dst p = Some d \<and> (d = 0 \<longleftrightarrow> t = s)))"
proof (rule exI [of _ "copied dst src (Suc (length s)) m"], intro conjI allI impI)
  let ?n = "Suc (length s)"
  let ?m = "copied dst src ?n m"
  have ok: "copy_ok dst src ?n" using assms by (simp add: copy_ok_def)
  show "strcpy dst src m = Some (?m, dst + of_nat (length s))" by (rule strcpy_at [OF assms(1) ok])
  have keep: "?m (src + of_nat i) = m (src + of_nat i)" if "i < ?n" for i
  proof -
    have u: "unat (src + of_nat i) = unat src + i" using unat_off [of src ?n i] assms that by simp
    then have "unat (src + of_nat i - dst) = 2 ^ 64 + (unat src + i) - unat dst"
      using unat_sub_if' [of "src + of_nat i" dst] assms that by simp
    then have "\<not> unat (src + of_nat i - dst) < ?n" using assms(3) by linarith
    then show ?thesis by (simp add: copied_def)
  qed
  have new: "?m (dst + of_nat i) = m (src + of_nat i)" if "i < ?n" for i
    using that assms unat_of_nat64 [of i] by (simp add: copied_def)
  show "string_at ?m src s" using assms(1) keep by (simp add: string_at_def)
  show d: "string_at ?m dst s" using assms(1) new by (simp add: string_at_def)
  fix p t assume p: "string_at ?m p t"
  show "\<exists>d. strcmp ?m dst p = Some d \<and> (d = 0 \<longleftrightarrow> t = s)"
    using strcmp_at [OF d p] str_diff_0 [of s t] d p by (auto simp: string_at_def)
qed

theorem strcpy_strcmp_witness:
  "\<exists>m'. strcpy 0x2000 0x1000 ((\<lambda>a. 0)(0x1000 := 0x68, 0x1001 := 0x69)) = Some (m', 0x2000 + of_nat (length [0x68, 0x69 :: u8])) \<and>
        string_at m' 0x1000 [0x68, 0x69] \<and> string_at m' 0x2000 [0x68, 0x69] \<and>
        (\<forall>p t. string_at m' p t \<longrightarrow> (\<exists>d. strcmp m' 0x2000 p = Some d \<and> (d = 0 \<longleftrightarrow> t = [0x68, 0x69])))"
  by (rule strcpy_strcmp) simp_all

end
