(* ===== verification/Print.thy ===== *)
theory Print
  imports KLib "HOL-Library.Monad_Syntax"
begin

text \<open>
  Formatted output and input: \<^verbatim>\<open>src/kernel/src/log/kprint.c\<close> (with the logging front end of
  \<^verbatim>\<open>klog.c\<close>) and \<^verbatim>\<open>src/libc/print.c\<close>.  The buffer is the list of the bytes stored so far; \<open>cap\<close> is the
  size of the object it stands for, and a store beyond it is \<open>None\<close>, as is a store beyond the 32
  bytes of the digit buffer and a read past the end of the format.  A variadic argument is the
  64-bit slot it is passed in, or a pointer to a terminated string.
\<close>

section \<open>Definitions\<close>

definition hex_lower :: bytes where
  "hex_lower = [0x30, 0x31, 0x32, 0x33, 0x34, 0x35, 0x36, 0x37, 0x38, 0x39, 0x61, 0x62, 0x63, 0x64, 0x65, 0x66, 0]"
definition hex_upper :: bytes where
  "hex_upper = [0x30, 0x31, 0x32, 0x33, 0x34, 0x35, 0x36, 0x37, 0x38, 0x39, 0x41, 0x42, 0x43, 0x44, 0x45, 0x46, 0]"

definition emit :: "nat \<Rightarrow> bytes \<Rightarrow> u8 \<Rightarrow> bytes option" where
  "emit cap out c = (if length out < cap then Some (out @ [c]) else None)"

fun emits :: "nat \<Rightarrow> bytes \<Rightarrow> bytes \<Rightarrow> bytes option" where
  "emits cap out [] = Some out"
| "emits cap out (c # cs) = do { o1 \<leftarrow> emit cap out c; emits cap o1 cs }"

text \<open>The loop that stores the digits, least significant first, in \<^verbatim>\<open>tmp[32]\<close>.\<close>

function (sequential) fmt_digits :: "bytes \<Rightarrow> u64 \<Rightarrow> u64 \<Rightarrow> bytes \<Rightarrow> bytes option" where
  "fmt_digits table b v tmp =
     (if v = 0 then Some tmp
      else if length tmp < 32 then fmt_digits table b (v div b) (tmp @ [table ! unat (v mod b)])
      else None)"
  by pat_completeness auto
termination by (relation "measure (\<lambda>(table, b, v, tmp). 33 - length tmp)") auto

declare fmt_digits.simps [simp del]

definition fmt_u64 :: "nat \<Rightarrow> bytes \<Rightarrow> u64 \<Rightarrow> u64 \<Rightarrow> bytes \<Rightarrow> bytes option" where
  "fmt_u64 cap out v b table =
     (if v = 0 then emit cap out 0x30
      else do { tmp \<leftarrow> fmt_digits table b v []; emits cap out (rev tmp) })"

definition fmt_i64 :: "nat \<Rightarrow> bytes \<Rightarrow> u64 \<Rightarrow> bytes option" where
  "fmt_i64 cap out v =
     (if v = 0 then emit cap out 0x30
      else if sint v < 0 then do { o1 \<leftarrow> emit cap out 0x2D; fmt_u64 cap o1 (- v) 10 hex_lower }
      else fmt_u64 cap out v 10 hex_lower)"

definition fmt_str :: "nat \<Rightarrow> bytes \<Rightarrow> bytes option \<Rightarrow> bytes option" where
  "fmt_str cap out v =
     emits cap out (case v of None \<Rightarrow> [0x28, 0x6E, 0x75, 0x6C, 0x6C, 0x29] | Some s \<Rightarrow> takeWhile (\<lambda>c. c \<noteq> 0) s)"

text \<open>Variadic arguments.\<close>

datatype va = VWord u64 | VStr "bytes option"

fun va64 :: "va list \<Rightarrow> (u64 \<times> va list) option" where
  "va64 (VWord w # vl) = Some (w, vl)"
| "va64 _ = None"

definition va_u32 :: "va list \<Rightarrow> (u64 \<times> va list) option" where
  "va_u32 vl = map_option (\<lambda>(w, vl'). (ucast (ucast w :: u32), vl')) (va64 vl)"

definition va_i32 :: "va list \<Rightarrow> (u64 \<times> va list) option" where
  "va_i32 vl = map_option (\<lambda>(w, vl'). (scast (ucast w :: u32), vl')) (va64 vl)"

lemma va32_VWord [simp]:
  "va_u32 (VWord w # vl) = Some (ucast (ucast w :: u32), vl)"
  "va_i32 (VWord w # vl) = Some (scast (ucast w :: u32), vl)"
  by (simp_all add: va_u32_def va_i32_def)

fun va_str :: "va list \<Rightarrow> (bytes option \<times> va list) option" where
  "va_str (VStr s # vl) = Some (s, vl)"
| "va_str _ = None"

text \<open>The \<^verbatim>\<open>l\<close> and \<^verbatim>\<open>ll\<close> prefixes: the flag, and the format from the conversion character on.\<close>

fun lflags :: "bytes \<Rightarrow> nat \<times> bytes" where
  "lflags (a # b # r) = (if a = 0x6C then if b = 0x6C then (2, r) else (1, b # r) else (0, a # b # r))"
| "lflags [a] = (if a = 0x6C then (1, []) else (0, [a]))"
| "lflags [] = (0, [])"

lemma lflags_rest: "lflags r = (l, d # r') \<Longrightarrow> length r' < length r" "(l, d # r') = lflags r \<Longrightarrow> length r' < length r"
  by (cases r rule: lflags.cases; auto split: if_splits)+

subsection \<open>The user library\<close>

text \<open>The \<^verbatim>\<open>switch\<close> of \<^verbatim>\<open>vsnprintf\<close>.\<close>

definition fmt_conv :: "nat \<Rightarrow> nat \<Rightarrow> u8 \<Rightarrow> va list \<Rightarrow> bytes \<Rightarrow> (bytes \<times> va list) option" where
  "fmt_conv cap lflag ch vl out =
     (if ch = 0x64 then
        do { (v, vl') \<leftarrow> (if lflag \<noteq> 0 then va64 vl else va_i32 vl); o1 \<leftarrow> fmt_i64 cap out v; Some (o1, vl') }
      else if ch = 0x75 then
        do { (v, vl') \<leftarrow> (if lflag \<noteq> 0 then va64 vl else va_u32 vl); o1 \<leftarrow> fmt_u64 cap out v 10 hex_lower; Some (o1, vl') }
      else if ch = 0x78 then
        do { (v, vl') \<leftarrow> (if lflag \<noteq> 0 then va64 vl else va_u32 vl); o1 \<leftarrow> fmt_u64 cap out v 16 hex_lower; Some (o1, vl') }
      else if ch = 0x58 then
        do { (v, vl') \<leftarrow> (if lflag \<noteq> 0 then va64 vl else va_u32 vl); o1 \<leftarrow> fmt_u64 cap out v 16 hex_upper; Some (o1, vl') }
      else if ch = 0x70 then
        do { o1 \<leftarrow> emits cap out [0x30, 0x78]; (v, vl') \<leftarrow> va64 vl; o2 \<leftarrow> fmt_u64 cap o1 v 16 hex_lower; Some (o2, vl') }
      else if ch = 0x73 then
        do { (v, vl') \<leftarrow> va_str vl; o1 \<leftarrow> fmt_str cap out v; Some (o1, vl') }
      else if ch = 0x63 then
        do { (v, vl') \<leftarrow> va64 vl; o1 \<leftarrow> emit cap out (ucast v); Some (o1, vl') }
      else if ch = 0x62 then
        do { (v, vl') \<leftarrow> va64 vl; o1 \<leftarrow> fmt_u64 cap out v 2 hex_lower; Some (o1, vl') }
      else do { o1 \<leftarrow> emits cap out [0x25, ch]; Some (o1, vl) })"

text \<open>The loop over the format.  After a conversion that was cut off by the terminator the code
  goes on behind the terminator: \<open>None\<close>.\<close>

function (sequential) vsnprintf_loop :: "nat \<Rightarrow> nat \<Rightarrow> bytes \<Rightarrow> va list \<Rightarrow> bytes \<Rightarrow> bytes option" where
  "vsnprintf_loop cap fin [] vl out = Some out"
| "vsnprintf_loop cap fin (ch # r) vl out =
     (if \<not> length out < fin then Some out
      else if ch \<noteq> 0x25 then do { o1 \<leftarrow> emit cap out ch; vsnprintf_loop cap fin r vl o1 }
      else (case r of [] \<Rightarrow> Some out
            | c # r1 \<Rightarrow>
              if c = 0x25 then do { o1 \<leftarrow> emit cap out 0x25; vsnprintf_loop cap fin r1 vl o1 }
              else (case lflags (c # r1) of
                      (lflag, []) \<Rightarrow> None
                    | (lflag, d # r2) \<Rightarrow>
                        (case fmt_conv cap lflag d vl out of None \<Rightarrow> None
                         | Some (o1, vl') \<Rightarrow> vsnprintf_loop cap fin r2 vl' o1))))"
  by pat_completeness auto
termination by (relation "measure (\<lambda>(cap, fin, fmt, vl, out). length fmt)") (auto dest: lflags_rest)

definition vsnprintf :: "nat \<Rightarrow> u64 \<Rightarrow> nat \<Rightarrow> bytes \<Rightarrow> va list \<Rightarrow> (nat \<times> bytes) option" where
  "vsnprintf cap s n fmt vl =
     (if s = 0 \<or> n = 0 then Some (0, [])
      else do { out \<leftarrow> vsnprintf_loop cap (n - 1) fmt vl []; o1 \<leftarrow> emit cap out 0; Some (length out, o1) })"

definition PRINT_BUF_SIZE :: nat where "PRINT_BUF_SIZE = 4096"
definition STDOUT :: int where "STDOUT = 1"

text \<open>\<^verbatim>\<open>buf\<close> is the address the allocation system call returned; the result is the return value and the
  calls of \<^verbatim>\<open>sys_write\<close>.\<close>

definition vdprintf :: "u64 \<Rightarrow> int \<Rightarrow> bytes \<Rightarrow> va list \<Rightarrow> (int \<times> (int \<times> bytes) list) option" where
  "vdprintf buf fd fmt vl =
     (if buf = 0 then Some (-1, [])
      else do { (len, out) \<leftarrow> vsnprintf PRINT_BUF_SIZE buf PRINT_BUF_SIZE fmt vl; Some (int len, [(fd, take len out)]) })"

definition snprintf :: "nat \<Rightarrow> u64 \<Rightarrow> nat \<Rightarrow> bytes \<Rightarrow> va list \<Rightarrow> (nat \<times> bytes) option" where
  "snprintf cap s n fmt vl = vsnprintf cap s n fmt vl"

definition dprintf :: "u64 \<Rightarrow> int \<Rightarrow> bytes \<Rightarrow> va list \<Rightarrow> (int \<times> (int \<times> bytes) list) option" where
  "dprintf buf fd fmt vl = vdprintf buf fd fmt vl"

definition vprintf :: "u64 \<Rightarrow> bytes \<Rightarrow> va list \<Rightarrow> (int \<times> (int \<times> bytes) list) option" where
  "vprintf buf fmt vl = vdprintf buf STDOUT fmt vl"

definition printf :: "u64 \<Rightarrow> bytes \<Rightarrow> va list \<Rightarrow> (int \<times> (int \<times> bytes) list) option" where
  "printf buf fmt vl = vdprintf buf STDOUT fmt vl"

text \<open>What \<^verbatim>\<open>scanf\<close> stores through its pointers, in order.  \<open>reads\<close> are the bytes the successive
  \<^verbatim>\<open>sys_read\<close> calls put into \<^verbatim>\<open>rbuf\<close>; a number that fills the buffer leaves no terminator.\<close>

datatype scanned = SI64 u64 | SI32 u32 | SU64 u64 | SU32 u32 | SStr bytes

definition rbuf_string :: "nat \<Rightarrow> bytes \<Rightarrow> bytes option" where
  "rbuf_string sz r = (let s = takeWhile (\<lambda>c. c \<noteq> 0) (take sz r) in if length s < 4096 then Some s else None)"

definition scan_conv :: "nat \<Rightarrow> u8 \<Rightarrow> bytes list \<Rightarrow> (scanned list \<times> bytes list) option" where
  "scan_conv lflag ch reads =
     (if ch = 0x64 then
        (case reads of [] \<Rightarrow> None
         | r # rs \<Rightarrow> do { s \<leftarrow> rbuf_string 4096 r; Some ([if lflag \<noteq> 0 then SI64 (strtoll s) else SI32 (strtol s)], rs) })
      else if ch = 0x75 then
        (case reads of [] \<Rightarrow> None
         | r # rs \<Rightarrow> do { s \<leftarrow> rbuf_string 4096 r; Some ([if lflag \<noteq> 0 then SU64 (strtoull s) else SU32 (strtoul s)], rs) })
      else if ch = 0x73 then
        (case reads of [] \<Rightarrow> None
         | r # rs \<Rightarrow> do { s \<leftarrow> rbuf_string 4095 r; Some ([SStr (take (min (length s) 255) s)], rs) })
      else Some ([], reads))"

function (sequential) vscanf :: "bytes \<Rightarrow> bytes list \<Rightarrow> scanned list option" where
  "vscanf [] reads = Some []"
| "vscanf (ch # r) reads =
     (if ch \<noteq> 0x25 then vscanf r reads
      else (case r of [] \<Rightarrow> Some []
            | c # r1 \<Rightarrow>
              (case lflags (c # r1) of
                 (lflag, []) \<Rightarrow> None
               | (lflag, d # r2) \<Rightarrow>
                   (case scan_conv lflag d reads of None \<Rightarrow> None
                    | Some (v, reads') \<Rightarrow> (case vscanf r2 reads' of None \<Rightarrow> None | Some vs \<Rightarrow> Some (v @ vs))))))"
  by pat_completeness auto
termination by (relation "measure (\<lambda>(fmt, reads). length fmt)") (auto dest: lflags_rest)

definition scanf :: "bytes \<Rightarrow> bytes list \<Rightarrow> scanned list option" where
  "scanf fmt reads = vscanf fmt reads"

subsection \<open>The kernel\<close>

text \<open>The \<^verbatim>\<open>switch\<close> of \<^verbatim>\<open>kvsnprintf\<close>; \<^verbatim>\<open>%ud\<close> and \<^verbatim>\<open>%uq\<close> also take the character behind the \<^verbatim>\<open>u\<close>.\<close>

definition kfmt_conv :: "nat \<Rightarrow> nat \<Rightarrow> u8 \<Rightarrow> bytes \<Rightarrow> va list \<Rightarrow> bytes \<Rightarrow> (bytes \<times> va list \<times> bytes) option" where
  "kfmt_conv cap lflag ch r vl out =
     (if ch = 0x64 then
        do { (v, vl') \<leftarrow> (if lflag = 2 then va64 vl else if lflag = 1 then va64 vl else va_i32 vl);
             o1 \<leftarrow> fmt_i64 cap out v; Some (o1, vl', r) }
      else if ch = 0x71 then
        do { (v, vl') \<leftarrow> va64 vl; o1 \<leftarrow> fmt_i64 cap out v; Some (o1, vl', r) }
      else if ch = 0x75 then
        (if r \<noteq> [] \<and> hd r = 0x64 then
           do { (v, vl') \<leftarrow> va_u32 vl; o1 \<leftarrow> fmt_u64 cap out v 10 hex_lower; Some (o1, vl', tl r) }
         else if r \<noteq> [] \<and> hd r = 0x71 then
           do { (v, vl') \<leftarrow> va64 vl; o1 \<leftarrow> fmt_u64 cap out v 10 hex_lower; Some (o1, vl', tl r) }
         else
           do { (v, vl') \<leftarrow> (if lflag = 2 then va64 vl else if lflag = 1 then va64 vl else va_u32 vl);
                o1 \<leftarrow> fmt_u64 cap out v 10 hex_lower; Some (o1, vl', r) })
      else if ch = 0x78 then
        do { (v, vl') \<leftarrow> (if lflag \<noteq> 0 then va64 vl else va_u32 vl); o1 \<leftarrow> fmt_u64 cap out v 16 hex_lower; Some (o1, vl', r) }
      else if ch = 0x58 then
        do { (v, vl') \<leftarrow> (if lflag \<noteq> 0 then va64 vl else va_u32 vl); o1 \<leftarrow> fmt_u64 cap out v 16 hex_upper; Some (o1, vl', r) }
      else if ch = 0x70 then
        do { o1 \<leftarrow> emits cap out [0x30, 0x78]; (v, vl') \<leftarrow> va64 vl; o2 \<leftarrow> fmt_u64 cap o1 v 16 hex_lower; Some (o2, vl', r) }
      else if ch = 0x73 then
        do { (v, vl') \<leftarrow> va_str vl; o1 \<leftarrow> fmt_str cap out v; Some (o1, vl', r) }
      else if ch = 0x63 then
        do { (v, vl') \<leftarrow> va64 vl; o1 \<leftarrow> emit cap out (ucast v); Some (o1, vl', r) }
      else if ch = 0x62 then
        do { (v, vl') \<leftarrow> va64 vl; o1 \<leftarrow> fmt_u64 cap out v 2 hex_lower; Some (o1, vl', r) }
      else do { o1 \<leftarrow> emits cap out [0x25, ch]; Some (o1, vl, r) })"

lemma kfmt_conv_rest: "kfmt_conv cap lflag ch r vl out = Some (o1, vl', r') \<Longrightarrow> length r' \<le> length r"
  by (auto simp: kfmt_conv_def split: if_splits Option.bind_splits)

function (sequential) kvsnprintf_loop :: "nat \<Rightarrow> nat \<Rightarrow> bytes \<Rightarrow> va list \<Rightarrow> bytes \<Rightarrow> bytes option" where
  "kvsnprintf_loop cap fin [] vl out = Some out"
| "kvsnprintf_loop cap fin (ch # r) vl out =
     (if \<not> length out < fin then Some out
      else if ch = 0x0D then kvsnprintf_loop cap fin r vl []
      else if ch \<noteq> 0x25 then do { o1 \<leftarrow> emit cap out ch; kvsnprintf_loop cap fin r vl o1 }
      else (case r of [] \<Rightarrow> Some out
            | c # r1 \<Rightarrow>
              if c = 0x25 then do { o1 \<leftarrow> emit cap out 0x25; kvsnprintf_loop cap fin r1 vl o1 }
              else (case lflags (c # r1) of
                      (lflag, []) \<Rightarrow> None
                    | (lflag, d # r2) \<Rightarrow>
                        (case kfmt_conv cap lflag d r2 vl out of None \<Rightarrow> None
                         | Some (o1, vl', r3) \<Rightarrow> kvsnprintf_loop cap fin r3 vl' o1))))"
  by pat_completeness auto
termination by (relation "measure (\<lambda>(cap, fin, fmt, vl, out). length fmt)") (auto dest!: lflags_rest kfmt_conv_rest)

definition kvsnprintf :: "nat \<Rightarrow> u64 \<Rightarrow> nat \<Rightarrow> bytes \<Rightarrow> va list \<Rightarrow> (nat \<times> bytes) option" where
  "kvsnprintf cap buf n fmt vl =
     (if buf = 0 \<or> n = 0 then Some (0, [])
      else do { out \<leftarrow> kvsnprintf_loop cap (n - 1) fmt vl []; o1 \<leftarrow> emit cap out 0; Some (length out, o1) })"

text \<open>The log: where it goes, and from which level on.\<close>

datatype klog_mode = KLOG_SERIAL | KLOG_TERM
datatype klog_level = KL_TRACE | KL_DEBUG | KL_INFO | KL_WARN | KL_ERROR

fun level_num :: "klog_level \<Rightarrow> nat" where
  "level_num KL_TRACE = 1"
| "level_num KL_DEBUG = 2"
| "level_num KL_INFO = 3"
| "level_num KL_WARN = 4"
| "level_num KL_ERROR = 5"

record klog =
  g_mode :: klog_mode
  g_level :: klog_level

datatype log_event = SerialByte u8 | TermColorPush u32 | TermWrite bytes | TermColorPop | TermFlush | TermPanicWrite bytes

definition klog_set_mode :: "klog_mode \<Rightarrow> klog \<Rightarrow> klog" where
  "klog_set_mode mode k = k\<lparr>g_mode := mode\<rparr>"

definition klog_set_level :: "klog_level \<Rightarrow> klog \<Rightarrow> klog" where
  "klog_set_level lv k = k\<lparr>g_level := lv\<rparr>"

definition klog_serial_putch :: "u8 \<Rightarrow> log_event list" where
  "klog_serial_putch ch = (if ch = 0x0A then [SerialByte 0x0D] else []) @ [SerialByte ch]"

definition FMT_BUF_SIZE :: nat where "FMT_BUF_SIZE = 1024"

text \<open>\<open>buf\<close> is the address of the local buffer.\<close>

definition kprint_core :: "u64 \<Rightarrow> klog \<Rightarrow> u32 \<Rightarrow> bytes \<Rightarrow> va list \<Rightarrow> (nat \<times> log_event list) option" where
  "kprint_core buf k color fmt vl =
     do { (len, out) \<leftarrow> kvsnprintf FMT_BUF_SIZE buf FMT_BUF_SIZE fmt vl;
          Some (len, case g_mode k of
                       KLOG_SERIAL \<Rightarrow> concat (map klog_serial_putch (take len out))
                     | KLOG_TERM \<Rightarrow> [TermColorPush color, TermWrite (takeWhile (\<lambda>c. c \<noteq> 0) out), TermColorPop, TermFlush]) }"

fun klog_level_color :: "klog_level \<Rightarrow> u32" where
  "klog_level_color KL_TRACE = 0x6c757d"
| "klog_level_color KL_DEBUG = 0xffffff"
| "klog_level_color KL_INFO = 0x00ff00"
| "klog_level_color KL_WARN = 0xffc107"
| "klog_level_color KL_ERROR = 0xff0000"

definition klog_write :: "u64 \<Rightarrow> klog \<Rightarrow> klog_level \<Rightarrow> bytes \<Rightarrow> va list \<Rightarrow> log_event list option" where
  "klog_write buf k lv fmt vl =
     (if level_num lv < level_num (g_level k) then Some []
      else map_option snd (kprint_core buf k (klog_level_color lv) fmt vl))"

definition kpanic_printf :: "u64 \<Rightarrow> bytes \<Rightarrow> va list \<Rightarrow> log_event list option" where
  "kpanic_printf buf fmt vl =
     do { (len, out) \<leftarrow> kvsnprintf 1024 buf 1024 fmt vl; Some [TermPanicWrite (takeWhile (\<lambda>c. c \<noteq> 0) out)] }"

section \<open>Digits\<close>

lemma emits_alt: "emits cap out cs = (if length out + length cs \<le> cap \<or> cs = [] then Some (out @ cs) else None)"
  by (induction cs arbitrary: out) (auto simp: emit_def)

text \<open>The digits that remain to be stored, least significant first.\<close>

fun digits :: "nat \<Rightarrow> nat \<Rightarrow> nat \<Rightarrow> nat list" where
  "digits b 0 v = []"
| "digits b (Suc k) v = (if v = 0 then [] else (v mod b) # digits b k (v div b))"

lemma digits_length: "length (digits b k v) \<le> k"
  by (induction k arbitrary: v) auto

lemma fmt_digits_eq:
  assumes "1 < unat b" and "unat v < unat b ^ k" and "length tmp + k \<le> 32"
  shows "fmt_digits table b v tmp = Some (tmp @ map (\<lambda>d. table ! d) (digits (unat b) k (unat v)))"
  using assms(2,3)
proof (induction k arbitrary: v tmp)
  case 0
  then have "v = 0" by (simp add: unat_eq_zero)
  then show ?case by (simp add: fmt_digits.simps)
next
  case (Suc k)
  have "unat (v div b) < unat b ^ k" using Suc.prems(1) assms(1) by (simp add: unat_div less_mult_imp_div_less mult.commute)
  from Suc.IH [OF this, of "tmp @ [table ! unat (v mod b)]"] Suc.prems show ?case
    by (subst fmt_digits.simps) (auto simp: unat_div unat_mod unat_eq_zero)
qed

lemma fmt_u64_ex:
  assumes "1 < unat b" and "unat v < unat b ^ k" and "0 < k" "k \<le> 32" and "length out + k \<le> cap"
  shows "\<exists>cs. fmt_u64 cap out v b table = Some (out @ cs) \<and> length cs \<le> k"
  using assms fmt_digits_eq [OF assms(1,2), of "[]"] digits_length [of "unat b" k "unat v"]
  by (auto simp: fmt_u64_def emits_alt emit_def)

lemma unat64_less: "unat (v :: u64) < 2 ^ 64"
  using unsigned_less [of v, where ?'a = nat] by simp

lemma fmt_u64_10: "length out + 20 \<le> cap \<Longrightarrow> \<exists>cs. fmt_u64 cap out v 10 table = Some (out @ cs) \<and> length cs \<le> 20"
  by (rule fmt_u64_ex) (use unat64_less [of v] in auto)

lemma fmt_u64_16: "length out + 16 \<le> cap \<Longrightarrow> \<exists>cs. fmt_u64 cap out v 16 table = Some (out @ cs) \<and> length cs \<le> 16"
  by (rule fmt_u64_ex) (use unat64_less [of v] in auto)

lemma unat_uminus_le:
  fixes v :: u64
  assumes "sint v < 0"
  shows "unat (- v) \<le> 2 ^ 63"
proof -
  have l: "- (2 ^ 63) \<le> sint v" using sint_ge [of v] by simp
  have "uint v = (sint v + 2 ^ 64) mod 2 ^ 64" by (simp add: uint_sint take_bit_eq_mod)
  moreover have "(sint v + 2 ^ 64) mod 2 ^ 64 = sint v + 2 ^ 64" by (rule mod_pos_pos_trivial) (use assms l in auto)
  ultimately have "uint v = sint v + 2 ^ 64" by (simp only:)
  then have "2 ^ 63 \<le> uint v" using l by simp
  then have "2 ^ 63 \<le> unat v" by (simp add: unat_eq_nat_uint le_nat_iff del: nat_uint_eq)
  then show ?thesis using unat_sub_if' [of 0 v] by auto
qed

lemma fmt_i64_ex: "length out + 20 \<le> cap \<Longrightarrow> \<exists>cs. fmt_i64 cap out v = Some (out @ cs) \<and> length cs \<le> 20"
proof -
  assume c: "length out + 20 \<le> cap"
  have neg: "\<exists>cs. fmt_u64 cap (out @ [0x2D]) (- v) 10 hex_lower = Some ((out @ [0x2D]) @ cs) \<and> length cs \<le> 19" if "sint v < 0"
    by (rule fmt_u64_ex) (use unat_uminus_le [OF that] c in auto)
  show ?thesis using c fmt_u64_10 [OF c, of v hex_lower] neg by (auto simp: fmt_i64_def emit_def)
qed

section \<open>How far a conversion writes\<close>

text \<open>
  \<open>kargs_ok M fmt vl\<close>: the arguments have the types the format asks for, every string has at most
  \<open>M\<close> bytes, the number of a binary conversion has at most \<open>M\<close> binary digits and at most the 32 that the local
  buffer of the digits holds, and the format does not end inside a conversion.
\<close>

definition kconv_args :: "nat \<Rightarrow> u8 \<Rightarrow> bytes \<Rightarrow> va list \<Rightarrow> (va list \<times> bytes) option" where
  "kconv_args M ch r vl =
     (if ch = 0x73 then
        (case vl of VStr None # vl' \<Rightarrow> Some (vl', r)
         | VStr (Some s) # vl' \<Rightarrow> if length (takeWhile (\<lambda>c. c \<noteq> 0) s) \<le> M then Some (vl', r) else None
         | _ \<Rightarrow> None)
      else if ch = 0x62 then
        (case vl of VWord w # vl' \<Rightarrow> if unat w < 2 ^ min M 32 then Some (vl', r) else None | _ \<Rightarrow> None)
      else if ch = 0x75 then
        (case vl of VWord w # vl' \<Rightarrow> Some (vl', if r \<noteq> [] \<and> (hd r = 0x64 \<or> hd r = 0x71) then tl r else r) | _ \<Rightarrow> None)
      else if ch \<in> {0x64, 0x71, 0x78, 0x58, 0x70, 0x63} then
        (case vl of VWord w # vl' \<Rightarrow> Some (vl', r) | _ \<Rightarrow> None)
      else Some (vl, r))"

lemma kconv_args_rest: "kconv_args M ch r vl = Some (vl', r') \<Longrightarrow> length r' \<le> length r"
  by (auto simp: kconv_args_def split: if_splits list.splits va.splits option.splits)

function (sequential) kargs_ok :: "nat \<Rightarrow> bytes \<Rightarrow> va list \<Rightarrow> bool" where
  "kargs_ok M [] vl \<longleftrightarrow> True"
| "kargs_ok M (ch # r) vl \<longleftrightarrow>
     (if ch \<noteq> 0x25 then kargs_ok M r vl
      else (case r of [] \<Rightarrow> True
            | c # r1 \<Rightarrow>
              if c = 0x25 then kargs_ok M r1 vl
              else (case lflags (c # r1) of
                      (lflag, []) \<Rightarrow> False
                    | (lflag, d # r2) \<Rightarrow>
                        (case kconv_args M d r2 vl of None \<Rightarrow> False | Some (vl', r3) \<Rightarrow> kargs_ok M r3 vl'))))"
  by pat_completeness auto
termination by (relation "measure (\<lambda>(M, fmt, vl). length fmt)") (auto dest!: lflags_rest kconv_args_rest)

lemma kfmt_conv_bound:
  assumes a: "kconv_args M ch r vl = Some (vl', r')" and c: "length out + M \<le> cap" and M: "20 \<le> M"
  shows "\<exists>cs. kfmt_conv cap lflag ch r vl out = Some (out @ cs, vl', r') \<and> length cs \<le> M"
proof -
  have c20: "length out + 20 \<le> cap" using c M by simp
  have d: "\<exists>cs. fmt_i64 cap out v = Some (out @ cs) \<and> length cs \<le> M" for v
    using fmt_i64_ex [OF c20] M by (meson order_trans)
  have u: "\<exists>cs. fmt_u64 cap out v 10 t = Some (out @ cs) \<and> length cs \<le> M" for v t
    using fmt_u64_10 [OF c20] M by (meson order_trans)
  have x: "\<exists>cs. fmt_u64 cap out v 16 t = Some (out @ cs) \<and> length cs \<le> M" for v t
    using fmt_u64_16 [of out cap v t] c20 M by fastforce
  have b: "\<exists>cs. fmt_u64 cap out v 2 t = Some (out @ cs) \<and> length cs \<le> M" if "unat v < 2 ^ min M 32" for v t
    using fmt_u64_ex [of 2 v "min M 32" out cap t] c M that by fastforce
  have p: "\<exists>cs. fmt_u64 cap (out @ [0x30, 0x78]) v 16 t = Some (out @ cs) \<and> length cs \<le> M" for v t
    using fmt_u64_16 [of "out @ [0x30, 0x78]" cap v t] c20 M by fastforce
  have s: "\<exists>cs. fmt_str cap out v = Some (out @ cs) \<and> length cs \<le> M"
    if "case v of None \<Rightarrow> True | Some s \<Rightarrow> length (takeWhile (\<lambda>c. c \<noteq> 0) s) \<le> M" for v
    using that c M by (auto simp: fmt_str_def emits_alt split: option.splits)
  have bind: "\<exists>cs. F \<bind> (\<lambda>o1. Some (o1, vl1, r1)) = Some (out @ cs, vl1, r1) \<and> length cs \<le> M"
    if "\<exists>cs. F = Some (out @ cs) \<and> length cs \<le> M" for F and vl1 :: "va list" and r1 :: bytes using that by auto
  have e: "\<exists>cs. emit cap out v = Some (out @ cs) \<and> length cs \<le> M" "\<exists>cs. emits cap out [v, w] = Some (out @ cs) \<and> length cs \<le> M" for v w
    using c20 M by (auto simp: emit_def)
  have px: "emits cap out [0x30, 0x78] = Some (out @ [0x30, 0x78])" using c20 by (simp add: emit_def)
  note [simp del] = emits.simps
  show ?thesis
  proof (cases "ch \<in> {0x75, 0x64, 0x71, 0x78, 0x58, 0x70, 0x63, 0x62}")
    case True
    then obtain w where w: "vl = VWord w # vl'" "ch = 0x62 \<longrightarrow> unat w < 2 ^ min M 32"
      using a by (auto simp: kconv_args_def split: list.splits va.splits if_splits)
    from True show ?thesis
      using a w(2) unfolding w(1)
      by (elim insertE emptyE; auto simp: kfmt_conv_def kconv_args_def px bind d u x p b e split: if_splits)
  next
    case False
    show ?thesis
    proof (cases "ch = 0x73")
      case True
      then obtain v where v: "vl = VStr v # vl'" "case v of None \<Rightarrow> True | Some s \<Rightarrow> length (takeWhile (\<lambda>c. c \<noteq> 0) s) \<le> M" "r' = r"
        using a by (auto simp: kconv_args_def split: list.splits va.splits option.splits if_splits)
      then show ?thesis using True by (simp add: kfmt_conv_def bind s)
    qed (use a False in \<open>simp add: kfmt_conv_def kconv_args_def bind e\<close>)
  qed
qed

lemma kvsnprintf_loop_bound:
  assumes "kargs_ok M fmt vl" and "fin + M \<le> Suc cap" and "20 \<le> M" and "length out < fin + M"
  shows "\<exists>o1. kvsnprintf_loop cap fin fmt vl out = Some o1 \<and> length o1 < fin + M"
  using assms
proof (induction cap fin fmt vl out rule: kvsnprintf_loop.induct)
  case (2 cap fin ch r vl out)
  show ?case
  proof (cases "length out < fin")
    case True
    note in_loop = True
    show ?thesis
    proof (cases "ch = 0x25 \<and> r \<noteq> [] \<and> hd r \<noteq> 0x25")
      case True
      then obtain c r1 where r: "r = c # r1" "ch = 0x25" "c \<noteq> 0x25" by (cases r) auto
      then obtain l d r2 where l: "lflags (c # r1) = (l, d # r2)"
        using "2.prems"(1) by (auto split: list.splits prod.splits)
      then obtain vl' r3 where a: "kconv_args M d r2 vl = Some (vl', r3)" "kargs_ok M r3 vl'"
        using "2.prems"(1) r by (auto split: option.splits prod.splits)
      obtain cs where cs: "kfmt_conv cap l d r2 vl out = Some (out @ cs, vl', r3)" "length cs \<le> M"
        using kfmt_conv_bound [OF a(1), of out cap l] "2.prems"(2,3) in_loop by auto
      from "2.IH"(4) [OF _ _ _ r(1) r(3) l [symmetric] refl cs(1) refl refl a(2) "2.prems"(2,3)] in_loop r cs l
      show ?thesis by simp
    next
      case False
      then show ?thesis using 2 in_loop by (auto simp: emit_def split: list.splits)
    qed
  qed (use "2.prems" in simp)
qed auto

section \<open>Printing and reading a number\<close>

lemma ctol_digits: "\<forall>d \<in> set [0..<10]. ctol (hex_lower ! d) = int d \<and> hex_lower ! d \<noteq> 0"
  by code_simp

lemma ctol_digit: "d < 10 \<Longrightarrow> ctol (hex_lower ! d) = int d" "d < 10 \<Longrightarrow> hex_lower ! d \<noteq> 0"
  using ctol_digits by auto

lemma digits_less: "0 < b \<Longrightarrow> d \<in> set (digits b k v) \<Longrightarrow> d < b"
  by (induction k arbitrary: v) (auto split: if_splits)

lemma str_to_ltype_digits:
  "\<forall>d \<in> set ds. d < 10 \<Longrightarrow>
   str_to_ltype (map (\<lambda>d. hex_lower ! d) ds) c = foldl (\<lambda>c d. c * 10 + of_nat d) c ds" for c :: "'a::len word"
  by (induction ds arbitrary: c) (auto simp: ctol_digit)

lemma foldl_digits:
  "v < 10 ^ k \<Longrightarrow> foldl (\<lambda>c d. c * 10 + of_nat d) 0 (rev (digits 10 k v)) = (of_nat v :: 'a::len word)"
proof (induction k arbitrary: v)
  case (Suc k)
  have "v div 10 < 10 ^ k" using Suc.prems by simp
  from Suc.IH [OF this] have "foldl (\<lambda>c d. c * 10 + of_nat d) 0 (rev (digits 10 k (v div 10))) = (of_nat (v div 10) :: 'a word)" .
  moreover have "of_nat (v div 10) * 10 + of_nat (v mod 10) = (of_nat v :: 'a word)"
  proof -
    have "of_nat (v div 10) * 10 + of_nat (v mod 10) = (of_nat (v div 10 * 10 + v mod 10) :: 'a word)"
      unfolding of_nat_add of_nat_mult by simp
    then show ?thesis by (simp only: div_mult_mod_eq)
  qed
  ultimately show ?case by auto
qed simp

text \<open>The decimal text of a number, as both printers write it.\<close>

definition decimal :: "u64 \<Rightarrow> bytes" where
  "decimal v = (if v = 0 then [0x30] else map (\<lambda>d. hex_lower ! d) (rev (digits 10 20 (unat v))))"

lemma decimal_length: "length (decimal v) \<le> 20"
  using digits_length [of 10 20 "unat v"] by (simp add: decimal_def)

lemma decimal_no_nul: "c \<in> set (decimal v) \<Longrightarrow> c \<noteq> 0"
  using digits_less [of 10 _ 20 "unat v"] ctol_digit(2) by (auto simp: decimal_def split: if_splits)

lemma fmt_u64_decimal:
  "length out + 20 \<le> cap \<Longrightarrow> fmt_u64 cap out v 10 hex_lower = Some (out @ decimal v)"
  using fmt_digits_eq [of 10 v 20 "[]" hex_lower] unat64_less [of v] digits_length [of 10 20 "unat v"]
  by (auto simp: fmt_u64_def emit_def emits_alt decimal_def rev_map)

lemma strtoull_decimal: "strtoull (decimal v) = v"
proof (cases "v = 0")
  case False
  have "\<forall>d \<in> set (rev (digits 10 20 (unat v))). d < 10" using digits_less [of 10] by auto
  from str_to_ltype_digits [OF this, of "0 :: u64"] foldl_digits [of "unat v" 20, where ?'a = 64] unat64_less [of v] False
  show ?thesis by (simp add: strtoull_def decimal_def of_nat_unat ucast_id)
qed (simp add: strtoull_def decimal_def ctol_def)

section \<open>Properties\<close>

text \<open>C27: Formatting with \<^verbatim>\<open>%lu\<close> into a buffer of at least 22 bytes stores a terminated text of the
  64-bit number that \<^verbatim>\<open>scanf\<close> with \<^verbatim>\<open>%lu\<close> reads back as the same number, for every number.\<close>

theorem print_scan_u64:
  assumes "s \<noteq> 0" and "22 \<le> n"
  shows "\<exists>out. vsnprintf n s n [0x25, 0x6C, 0x75] [VWord v] = Some (length out, out @ [0]) \<and>
               vscanf [0x25, 0x6C, 0x75] [out] = Some [SU64 v]"
proof (intro exI conjI)
  have f: "fmt_u64 n [] v 10 hex_lower = Some (decimal v)" using fmt_u64_decimal [of "[]" n v] assms by simp
  show "vsnprintf n s n [0x25, 0x6C, 0x75] [VWord v] = Some (length (decimal v), decimal v @ [0])"
    using f assms decimal_length [of v] by (simp add: vsnprintf_def fmt_conv_def emit_def)
  have t: "takeWhile (\<lambda>c. c \<noteq> 0) (decimal v) = decimal v" using decimal_no_nul [of _ v] by (simp add: takeWhile_eq_all_conv)
  have "take 4096 (decimal v) = decimal v" using decimal_length [of v] by simp
  then have "rbuf_string 4096 (decimal v) = Some (decimal v)"
    using decimal_length [of v] unfolding rbuf_string_def Let_def by (simp only: t) simp
  then show "vscanf [0x25, 0x6C, 0x75] [decimal v] = Some [SU64 v]"
    by (simp add: scan_conv_def strtoull_decimal)
qed

theorem print_scan_u64_witness:
  "\<exists>out. vsnprintf 22 0x1000 22 [0x25, 0x6C, 0x75] [VWord 18446744073709551615] = Some (length out, out @ [0]) \<and>
         vscanf [0x25, 0x6C, 0x75] [out] = Some [SU64 18446744073709551615]"
  by (rule print_scan_u64) simp_all

text \<open>C26: Let \<open>M\<close> be at least 20, the length of the longest decimal number, and at least the length of every
  string argument; let the numbers printed in binary have at most \<open>M\<close> digits and at most 32, the size of the local
  \<^verbatim>\<open>tmp[32]\<close> that longer ones overrun; let the arguments have the types the format asks for and the format not
  end inside a conversion.  Then, in a buffer smaller than 2 GiB with room for \<open>n - 1 + M\<close> bytes, the kernel's formatter never writes at or beyond
  index \<open>n - 1 + M\<close> and returns less than that.  It checks the bound \<open>n\<close> only between conversions, so what
  a caller must have behind the \<open>n\<close> bytes it passes is the length of one conversion.\<close>

theorem kvsnprintf_bound:
  assumes "buf \<noteq> 0" and "0 < n" and "20 \<le> M" and "kargs_ok M fmt vl" and "n - 1 + M \<le> cap" and "cap < 2 ^ 31"
  shows "\<exists>len out. kvsnprintf cap buf n fmt vl = Some (len, out) \<and> len < n - 1 + M \<and> length out = Suc len \<and> last out = 0"
proof -
  obtain o1 where "kvsnprintf_loop cap (n - 1) fmt vl [] = Some o1" "length o1 < n - 1 + M"
    using kvsnprintf_loop_bound [of M fmt vl "n - 1" cap "[]"] assms by auto
  then show ?thesis using assms by (simp add: kvsnprintf_def emit_def)
qed

theorem kvsnprintf_bound_witness:
  "\<exists>len out. kvsnprintf 35 1 4 [0x61, 0x62, 0x25, 0x62, 0x25, 0x75, 0x64] [VWord 0xFFFFFFFF, VWord 123456] = Some (len, out) \<and>
             len < 4 - 1 + 32 \<and> length out = Suc len \<and> last out = 0"
  by (rule kvsnprintf_bound) (simp_all add: kconv_args_def)

text \<open>A caller that has only the \<open>n\<close> bytes it passes is not safe: the number is stored beyond them.\<close>

lemma kvsnprintf_overruns: "kvsnprintf 4 1 4 [0x61, 0x62, 0x25, 0x75, 0x64] [VWord 123456] = None"
  by (simp add: kvsnprintf_def kfmt_conv_def emit_def fmt_u64_def fmt_digits.simps hex_lower_def)

text \<open>A binary conversion of a number of more than 32 bits overruns the 32 digits of the local
  buffer.\<close>

lemma fmt_u64_binary_overruns: "fmt_u64 cap out 0x100000000 2 hex_lower = None"
  by (simp add: fmt_u64_def fmt_digits.simps hex_lower_def)

end
