(* ===== verification/VFS.thy ===== *)
theory VFS
  imports KLib
begin

text \<open>
  The virtual file system, \<^verbatim>\<open>src/kernel/src/fs/vfs.c\<close> and \<^verbatim>\<open>include/fs/vfs.h\<close>.  The kernel objects
  (directory entries, inodes, superblocks, open files) live at addresses of a typed heap, 0 is the
  null pointer, and following a pointer to no object is a fault.  The operation tables of the file
  systems are a parameter: a table index stands for the address of the table, and the operations
  act on the whole state.  \<open>'x\<close> is the file systems' own state, \<open>'p\<close> and \<open>'q\<close> the private data of
  inodes and open files.  Allocation does not fail, and the lock is held throughout: the calls run
  one after the other.
\<close>

section \<open>Types\<close>

type_synonym addr = nat

datatype inode_type =
    VFS_NODE_INVALID | VFS_NODE_FILE | VFS_NODE_DIRECTOR | VFS_NODE_SYMLINK | VFS_NODE_BLOCK
  | VFS_NODE_CHARACTER | VFS_NODE_MOUNTPOINT | VFS_NODE_ROOT

definition VFS_NODE_IS_DIR :: "inode_type \<Rightarrow> bool" where
  "VFS_NODE_IS_DIR t \<longleftrightarrow> t = VFS_NODE_DIRECTOR \<or> t = VFS_NODE_ROOT \<or> t = VFS_NODE_MOUNTPOINT"

datatype openmode = VFS_MODE_READ | VFS_MODE_WRITE | VFS_MODE_READWRITE

definition VFS_MAX_PATH_LENGTH :: nat where "VFS_MAX_PATH_LENGTH = 256"
definition VFS_MIN_HANDLE :: int where "VFS_MIN_HANDLE = 100"
definition ENOENT :: int where "ENOENT = 2"

record super_block =
  s_root :: addr
  s_fs :: nat

record 'p inode =
  i_fsize :: u64
  i_ops :: "nat option"
  i_type :: inode_type
  i_sb :: addr
  i_fops :: "nat option"
  i_mountpoint :: addr
  i_pdata :: "'p option"

record dentry =
  d_name :: bytes
  d_inode :: addr
  d_parent :: addr
  d_ops :: "nat option"
  d_subdirs :: "addr list"

record dirent =
  de_name :: bytes
  de_type :: inode_type
  de_sz :: u32

record 'q vfile =
  f_handle :: int
  f_openmode :: openmode
  f_inode :: addr
  f_dentry :: addr
  f_ops :: "nat option"
  f_pdata :: "'q option"
  f_pos :: u64
  is_console :: bool
  f_count :: int

record ('x, 'p, 'q) vfs =
  dentries :: "addr \<rightharpoonup> dentry"
  inodes :: "addr \<rightharpoonup> 'p inode"
  sbs :: "addr \<rightharpoonup> super_block"
  files :: "addr \<rightharpoonup> 'q vfile"
  next_addr :: addr
  vfs_root :: addr
  vfs_fs_list :: "(bytes \<times> nat) list"
  vfs_next_handle_count :: int
  current_task :: nat
  open_files :: "nat \<Rightarrow> addr list"
  cwd :: "nat \<Rightarrow> bytes"
  fs_state :: 'x

text \<open>The operations of a file system: \<^verbatim>\<open>mksb\<close>, the inode operation \<^verbatim>\<open>lookup\<close> and the file operations;
  \<^verbatim>\<open>read\<close> returns the bytes it stores at the start of the caller's buffer, \<^verbatim>\<open>iterate\<close> the entries it
  allocates.  \<^verbatim>\<open>lseek\<close> and \<^verbatim>\<open>iterate\<close> may be missing.\<close>

record ('x, 'p, 'q) fs_ops =
  fo_mksb :: "nat \<Rightarrow> (('x, 'p, 'q) vfs, addr) km"
  fo_lookup :: "addr \<Rightarrow> addr \<Rightarrow> (('x, 'p, 'q) vfs, addr) km"
  fo_open :: "addr \<Rightarrow> addr \<Rightarrow> (('x, 'p, 'q) vfs, int) km"
  fo_close :: "addr \<Rightarrow> addr \<Rightarrow> (('x, 'p, 'q) vfs, int) km"
  fo_read :: "addr \<Rightarrow> addr \<Rightarrow> int \<Rightarrow> (('x, 'p, 'q) vfs, int \<times> bytes) km"
  fo_write :: "addr \<Rightarrow> addr \<Rightarrow> int \<Rightarrow> bytes \<Rightarrow> (('x, 'p, 'q) vfs, int) km"
  fo_lseek :: "(addr \<Rightarrow> addr \<Rightarrow> int \<Rightarrow> int \<Rightarrow> (('x, 'p, 'q) vfs, int) km) option"
  fo_iterate :: "(addr \<Rightarrow> addr \<Rightarrow> bytes option \<Rightarrow> (('x, 'p, 'q) vfs, int \<times> dirent list) km) option"

section \<open>The kernel heap\<close>

definition zdentry :: dentry where
  "zdentry = \<lparr>d_name = [], d_inode = 0, d_parent = 0, d_ops = None, d_subdirs = []\<rparr>"

definition zinode :: "'p inode" where
  "zinode = \<lparr>i_fsize = 0, i_ops = None, i_type = VFS_NODE_INVALID, i_sb = 0, i_fops = None, i_mountpoint = 0, i_pdata = None\<rparr>"

definition zfile :: "'q vfile" where
  "zfile = \<lparr>f_handle = 0, f_openmode = VFS_MODE_READ, f_inode = 0, f_dentry = 0, f_ops = None, f_pdata = None,
            f_pos = 0, is_console = False, f_count = 0\<rparr>"

text \<open>\<^verbatim>\<open>kzalloc\<close> of each kind of object, with the fields the code then assigns.\<close>

definition new_dentry :: "dentry \<Rightarrow> (('x, 'p, 'q) vfs, addr) km" where
  "new_dentry d s = Inr (next_addr s, s\<lparr>dentries := (dentries s)(next_addr s \<mapsto> d), next_addr := Suc (next_addr s)\<rparr>)"

definition new_inode :: "'p inode \<Rightarrow> (('x, 'p, 'q) vfs, addr) km" where
  "new_inode i s = Inr (next_addr s, s\<lparr>inodes := (inodes s)(next_addr s \<mapsto> i), next_addr := Suc (next_addr s)\<rparr>)"

definition new_sb :: "super_block \<Rightarrow> (('x, 'p, 'q) vfs, addr) km" where
  "new_sb b s = Inr (next_addr s, s\<lparr>sbs := (sbs s)(next_addr s \<mapsto> b), next_addr := Suc (next_addr s)\<rparr>)"

definition new_file :: "'q vfile \<Rightarrow> (('x, 'p, 'q) vfs, addr) km" where
  "new_file f s = Inr (next_addr s, s\<lparr>files := (files s)(next_addr s \<mapsto> f), next_addr := Suc (next_addr s)\<rparr>)"

text \<open>Assignments through a pointer.\<close>

definition upd_dentry :: "addr \<Rightarrow> (dentry \<Rightarrow> dentry) \<Rightarrow> (('x, 'p, 'q) vfs, unit) km" where
  "upd_dentry a f = kbind (kderef dentries a) (\<lambda>d. kmodify (\<lambda>s. s\<lparr>dentries := (dentries s)(a \<mapsto> f d)\<rparr>))"

definition upd_inode :: "addr \<Rightarrow> ('p inode \<Rightarrow> 'p inode) \<Rightarrow> (('x, 'p, 'q) vfs, unit) km" where
  "upd_inode a f = kbind (kderef inodes a) (\<lambda>i. kmodify (\<lambda>s. s\<lparr>inodes := (inodes s)(a \<mapsto> f i)\<rparr>))"

definition upd_sb :: "addr \<Rightarrow> (super_block \<Rightarrow> super_block) \<Rightarrow> (('x, 'p, 'q) vfs, unit) km" where
  "upd_sb a f = kbind (kderef sbs a) (\<lambda>b. kmodify (\<lambda>s. s\<lparr>sbs := (sbs s)(a \<mapsto> f b)\<rparr>))"

definition upd_file :: "addr \<Rightarrow> ('q vfile \<Rightarrow> 'q vfile) \<Rightarrow> (('x, 'p, 'q) vfs, unit) km" where
  "upd_file a f = kbind (kderef files a) (\<lambda>d. kmodify (\<lambda>s. s\<lparr>files := (files s)(a \<mapsto> f d)\<rparr>))"

definition kfree_dentry :: "addr \<Rightarrow> (('x, 'p, 'q) vfs, unit) km" where
  "kfree_dentry a = kmodify (\<lambda>s. s\<lparr>dentries := (dentries s)(a := None)\<rparr>)"

definition kfree_file :: "addr \<Rightarrow> (('x, 'p, 'q) vfs, unit) km" where
  "kfree_file a = kmodify (\<lambda>s. s\<lparr>files := (files s)(a := None)\<rparr>)"

section \<open>File systems\<close>

definition vfs_init :: "('x, 'p, 'q) vfs \<Rightarrow> ('x, 'p, 'q) vfs" where
  "vfs_init s = s\<lparr>vfs_fs_list := []\<rparr>"

definition vfs_register_fs :: "bytes \<Rightarrow> nat \<Rightarrow> ('x, 'p, 'q) vfs \<Rightarrow> ('x, 'p, 'q) vfs" where
  "vfs_register_fs name fs s = s\<lparr>vfs_fs_list := vfs_fs_list s @ [(name, fs)]\<rparr>"

definition vfs_get_fs :: "bytes \<Rightarrow> ('x, 'p, 'q) vfs \<Rightarrow> nat option" where
  "vfs_get_fs name s = map_option snd (List.find (\<lambda>(n, fs). n = name) (vfs_fs_list s))"

section \<open>Paths\<close>

text \<open>The string at the start of a buffer, which must hold a terminator.\<close>

definition buf_str :: "bytes \<Rightarrow> bytes" where
  "buf_str b = takeWhile (\<lambda>c. c \<noteq> 0) b"

definition SLASH :: u8 where "SLASH = 0x2F"

text \<open>The loop of \<^verbatim>\<open>vfs_next_path\<close>: it copies up to the next slash; the result is \<^verbatim>\<open>path_i\<close>, whether a slash
  was found, and \<^verbatim>\<open>next\<close>.\<close>

function (sequential) next_loop :: "bytes \<Rightarrow> nat \<Rightarrow> nat \<Rightarrow> bytes \<Rightarrow> nat \<Rightarrow> fault + nat \<times> bool \<times> bytes" where
  "next_loop path pathlen path_i nxt next_i =
     (if path_i < pathlen then
        if path ! path_i = SLASH then Inr (path_i, True, nxt)
        else if next_i < length nxt
        then next_loop path pathlen (path_i + 1) (nxt[next_i := path ! path_i]) (next_i + 1)
        else Inl OutOfBounds
      else Inr (path_i, False, nxt))"
  by pat_completeness auto
termination by (relation "measure (\<lambda>(path, pathlen, path_i, nxt, next_i). pathlen - path_i)") auto

declare next_loop.simps [simp del]

definition vfs_next_path :: "bytes \<Rightarrow> bytes \<Rightarrow> bool \<Rightarrow> fault + bool \<times> bytes \<times> bytes" where
  "vfs_next_path path nxt skiproot =
     (if 0 \<notin> set path then Inl OutOfBounds
      else let pathlen = length (buf_str path)
      in if pathlen = 0 then Inr (False, path, nxt)
      else let path_i = (if skiproot \<and> path ! 0 = SLASH then 1 else 0)
      in case next_loop path pathlen path_i (replicate (length nxt) 0) 0 of
           Inl e \<Rightarrow> Inl e
         | Inr (path_i, found_slash, nxt) \<Rightarrow>
             (let n = pathlen - path_i - 1;
                  path1 = (if found_slash then put_bytes path 0 (take n (drop (path_i + 1) path)) else path);
                  (from, cnt) = (if found_slash then (n, pathlen) else (0, path_i + 1))
              in if from + cnt > length path1 \<or> 0 \<notin> set nxt then Inl OutOfBounds
                 else Inr (buf_str nxt \<noteq> [], put_bytes path1 from (replicate cnt 0), nxt)))"

text \<open>The bytes of a string in a zeroed buffer of \<^verbatim>\<open>VFS_MAX_PATH_LENGTH\<close> bytes.\<close>

definition pad :: "bytes \<Rightarrow> bytes" where
  "pad s = s @ replicate (VFS_MAX_PATH_LENGTH - length s) 0"

lemma next_loop_spec:
  assumes "next_i + (pathlen - path_i) \<le> length nxt" and "pathlen \<le> length path" and "path_i \<le> pathlen"
  shows "next_loop path pathlen path_i nxt next_i =
     (let comp = takeWhile (\<lambda>c. c \<noteq> SLASH) (drop path_i (take pathlen path))
      in Inr (path_i + length comp, path_i + length comp < pathlen, put_bytes nxt next_i comp))"
  using assms
proof (induction path pathlen path_i nxt next_i rule: next_loop.induct)
  case (1 path pathlen path_i nxt next_i)
  show ?case
  proof (cases "path_i < pathlen")
    case True
    then have d: "drop path_i (take pathlen path) = path ! path_i # drop (path_i + 1) (take pathlen path)"
      using "1.prems" by (simp add: Cons_nth_drop_Suc [symmetric])
    show ?thesis using 1 True by (subst next_loop.simps) (auto simp: d Let_def)
  qed (use "1.prems" in \<open>subst next_loop.simps, simp\<close>)
qed

text \<open>Splitting a path: a leading slash is dropped, the component runs to the next slash, the rest
  starts behind that slash.\<close>

definition no_root :: "bytes \<Rightarrow> bytes" where
  "no_root s = (if s \<noteq> [] \<and> hd s = SLASH then tl s else s)"

definition next_comp :: "bytes \<Rightarrow> bytes" where
  "next_comp s = takeWhile (\<lambda>c. c \<noteq> SLASH) (no_root s)"

definition next_rest :: "bytes \<Rightarrow> bytes" where
  "next_rest s = drop (Suc (length (next_comp s))) (no_root s)"

lemma buf_str_pad: "0 \<notin> set s \<Longrightarrow> buf_str (pad s) = s"
  by (auto simp: buf_str_def pad_def takeWhile_append takeWhile_replicate)

lemma no_root_drop: "no_root s = drop (if s \<noteq> [] \<and> s ! 0 = SLASH then 1 else 0) s"
  by (cases s) (auto simp: no_root_def)

lemma length_pad: "length s \<le> VFS_MAX_PATH_LENGTH \<Longrightarrow> length (pad s) = VFS_MAX_PATH_LENGTH"
  by (simp add: pad_def)

lemma put_bytes_zero: "length s \<le> n \<Longrightarrow> put_bytes (replicate n 0) 0 s = s @ replicate (n - length s) 0"
  by (rule nth_equalityI) (auto simp: put_bytes_nth nth_append)

lemma vfs_next_path_pad:
  assumes s: "0 \<notin> set s" "s \<noteq> []" and l: "length s \<le> 128" and n: "length nxt = VFS_MAX_PATH_LENGTH"
  shows "vfs_next_path (pad s) nxt True = Inr (next_comp s \<noteq> [], pad (next_rest s), pad (next_comp s))"
proof -
  define i0 where "i0 = (if pad s ! 0 = SLASH then 1 else 0 :: nat)"
  define c where "c = next_comp s"
  let ?i = "i0 + length c" and ?p = "pad s"
  have lp: "length ?p = 256" using l by (simp add: length_pad VFS_MAX_PATH_LENGTH_def)
  have z: "0 \<in> set ?p" using l by (simp add: pad_def VFS_MAX_PATH_LENGTH_def)
  have i0: "i0 \<le> length s" "no_root s = drop i0 s" "i0 = (if s ! 0 = SLASH then 1 else 0)"
    using s by (auto simp: i0_def no_root_drop pad_def nth_append Suc_le_eq)
  have c: "c = takeWhile (\<lambda>c. c \<noteq> SLASH) (drop i0 s)" by (simp add: c_def next_comp_def i0)
  have lc: "length c \<le> length s - i0" using length_takeWhile_le [of _ "drop i0 s"] by (simp add: c)
  have r: "next_rest s = drop (?i + 1) s" by (simp add: next_rest_def i0 c_def [symmetric] add.commute)
  have c0: "0 \<notin> set c" using s set_takeWhileD [of 0 _ "drop i0 s"] in_set_dropD [of 0 i0 s] by (auto simp: c)
  have loop: "next_loop ?p (length s) i0 (replicate 256 0) 0 = Inr (?i, ?i < length s, pad c)"
    using next_loop_spec [of 0 "length s" i0 "replicate 256 0" ?p] l lp i0(1) lc
    by (simp add: Let_def c [symmetric] pad_def put_bytes_zero VFS_MAX_PATH_LENGTH_def)
  have pc: "0 \<in> set (pad c)" using l lc by (simp add: pad_def VFS_MAX_PATH_LENGTH_def)
  have p1: "put_bytes (put_bytes ?p 0 (take (length s - ?i - 1) (drop (?i + 1) ?p))) (length s - ?i - 1) (replicate (length s) 0) =
     pad (next_rest s)" if "?i < length s"
    by (rule nth_equalityI) (use l that in \<open>auto simp: put_bytes_nth r pad_def VFS_MAX_PATH_LENGTH_def nth_append\<close>)
  have p2: "put_bytes ?p 0 (replicate (?i + 1) 0) = pad (next_rest s)" if "\<not> ?i < length s"
    by (rule nth_equalityI) (use l lc i0(1) that in \<open>auto simp: put_bytes_nth r pad_def VFS_MAX_PATH_LENGTH_def nth_append
      simp del: put_bytes.simps replicate_Suc replicate.simps\<close>)
  show ?thesis
    using s(2) z loop pc p1 p2 lp l lc i0(1) buf_str_pad [OF s(1)] buf_str_pad [OF c0] n
    by (auto simp: vfs_next_path_def Let_def i0_def [symmetric] c_def [symmetric] VFS_MAX_PATH_LENGTH_def)
qed

lemma buf_str_le: "k < length b \<Longrightarrow> b ! k = 0 \<Longrightarrow> length (buf_str b) \<le> k"
  unfolding buf_str_def by (rule ccontr) (metis (mono_tags, lifting) not_le set_takeWhileD nth_mem takeWhile_nth)

lemma next_path_shorter:
  assumes "vfs_next_path tmp nxt sk = Inr (hasnext, tmp', nxt')" and "hasnext"
  shows "length (buf_str tmp') < length (buf_str tmp)"
proof -
  have p: "length (buf_str tmp) \<noteq> 0" "0 \<in> set tmp"
    using assms by (auto simp: vfs_next_path_def split: if_splits)
  obtain i found n1 where l: "next_loop tmp (length (buf_str tmp)) (if sk \<and> tmp ! 0 = SLASH then 1 else 0) (replicate (length nxt) 0) 0 = Inr (i, found, n1)"
    using assms p by (auto simp: vfs_next_path_def Let_def split: if_splits sum.splits prod.splits)
  let ?n = "length (buf_str tmp) - i - 1"
  note r = assms(1) [unfolded vfs_next_path_def Let_def l]
  show ?thesis
  proof (cases found)
    case True
    then have t: "tmp' = put_bytes (put_bytes tmp 0 (take ?n (drop (i + 1) tmp))) ?n (replicate (length (buf_str tmp)) 0)"
        "?n + length (buf_str tmp) \<le> length tmp"
      using r p by (simp_all split: if_splits)
    have n: "?n < length tmp" using t(2) p(1) by linarith
    then have "tmp' ! ?n = 0" using p t(1) by (simp add: put_bytes_nth)
    then have "length (buf_str tmp') \<le> ?n" using n t(1) by (intro buf_str_le) simp_all
    then show ?thesis using p(1) by linarith
  next
    case False
    then have t: "tmp' = put_bytes tmp 0 (replicate (i + 1) 0)" "i + 1 \<le> length tmp"
      using r p by (simp_all split: if_splits del: put_bytes.simps replicate.simps)
    then have "tmp' ! 0 = 0" by (auto simp: put_bytes_nth simp del: put_bytes.simps replicate.simps)
    then have "length (buf_str tmp') \<le> 0" using t by (intro buf_str_le) (auto simp del: put_bytes.simps replicate.simps)
    then show ?thesis using p by simp
  qed
qed

section \<open>Resolving a path\<close>

text \<open>The search of the children that are known already; 0 when there is none of that name.\<close>

fun find_child :: "addr list \<Rightarrow> bytes \<Rightarrow> (('x, 'p, 'q) vfs, addr) km" where
  "find_child [] name = kreturn 0"
| "find_child (c # cs) name =
     kbind (kderef dentries c) (\<lambda>d. if d_name d = name then kreturn c else find_child cs name)"

text \<open>A child that is not known yet: an entry is allocated and the file system asked to fill it.\<close>

definition ask_lookup :: "(nat \<Rightarrow> ('x, 'p, 'q) fs_ops) \<Rightarrow> addr \<Rightarrow> addr \<Rightarrow> (('x, 'p, 'q) vfs, addr) km" where
  "ask_lookup tb parent a =
     kbind (kderef dentries parent) (\<lambda>p.
     if d_inode p = 0 then kreturn 0
     else kbind (kderef inodes (d_inode p)) (\<lambda>i.
       case i_ops i of None \<Rightarrow> kreturn 0 | Some fs \<Rightarrow> fo_lookup (tb fs) (d_inode p) a))"

definition lookup_child :: "(nat \<Rightarrow> ('x, 'p, 'q) fs_ops) \<Rightarrow> addr \<Rightarrow> bytes \<Rightarrow> (('x, 'p, 'q) vfs, addr) km" where
  "lookup_child tb parent name =
     kbind (new_dentry (zdentry\<lparr>d_name := name\<rparr>)) (\<lambda>a.
     kbind (ask_lookup tb parent a) (\<lambda>r.
     if r = 0 then kbind (kfree_dentry a) (\<lambda>_. kreturn 0)
     else kbind (upd_dentry a (\<lambda>d. d\<lparr>d_subdirs := [], d_parent := parent\<rparr>)) (\<lambda>_.
          kbind (upd_dentry parent (\<lambda>d. d\<lparr>d_subdirs := d_subdirs d @ [a]\<rparr>)) (\<lambda>_.
          kreturn a))))"

definition resolve_child :: "(nat \<Rightarrow> ('x, 'p, 'q) fs_ops) \<Rightarrow> addr \<Rightarrow> bytes \<Rightarrow> (('x, 'p, 'q) vfs, addr) km" where
  "resolve_child tb parent name =
     kbind (kderef dentries parent) (\<lambda>p.
     kbind (find_child (d_subdirs p) name) (\<lambda>c.
     if c = 0 then lookup_child tb parent name else kreturn c))"

text \<open>\<^verbatim>\<open>current->d_inode->i_mountpoint\<close>: the root of what is mounted on the entry, or the entry.\<close>

definition cross_mount :: "addr \<Rightarrow> (('x, 'p, 'q) vfs, addr) km" where
  "cross_mount c =
     kbind (kderef dentries c) (\<lambda>d.
     kbind (kderef inodes (d_inode d)) (\<lambda>i.
     if i_mountpoint i \<noteq> 0 then kbind (kderef sbs (i_mountpoint i)) (\<lambda>sb. kreturn (s_root sb))
     else kreturn c))"

lemma kbind_cong [fundef_cong]: "m = m' \<Longrightarrow> (\<And>x. f x = f' x) \<Longrightarrow> kbind m f = kbind m' f'"
  by presburger

definition DOT :: u8 where "DOT = 0x2E"

function (sequential) resolve_loop ::
    "(nat \<Rightarrow> ('x, 'p, 'q) fs_ops) \<Rightarrow> bytes \<Rightarrow> bytes \<Rightarrow> addr \<Rightarrow> addr \<Rightarrow> (('x, 'p, 'q) vfs, addr) km" where
  "resolve_loop tb tmp nxt cur parent =
     (case vfs_next_path tmp nxt True of
        Inl e \<Rightarrow> kfault e
      | Inr (hasnext, tmp', nxt') \<Rightarrow>
          if \<not> hasnext then kreturn cur
          else if buf_str nxt' = [DOT] then resolve_loop tb tmp' nxt' cur parent
          else if buf_str nxt' = [DOT, DOT] then
            if cur \<noteq> 0 then kbind (kderef dentries cur) (\<lambda>d. resolve_loop tb tmp' nxt' (d_parent d) (d_parent d))
            else resolve_loop tb tmp' nxt' cur parent
          else kbind (resolve_child tb parent (buf_str nxt')) (\<lambda>c.
            if c = 0 then kreturn 0
            else kbind (cross_mount c) (\<lambda>c'. resolve_loop tb tmp' nxt' c' c')))"
  by pat_completeness auto
termination
  by (relation "measure (\<lambda>(tb, tmp, nxt, cur, parent). length (buf_str tmp))") (auto dest!: sym [of "Inr _"] intro: next_path_shorter)

declare resolve_loop.simps [simp del]

definition vfs_resolve_path :: "(nat \<Rightarrow> ('x, 'p, 'q) fs_ops) \<Rightarrow> bytes \<Rightarrow> (('x, 'p, 'q) vfs, addr) km" where
  "vfs_resolve_path tb path =
     kbind (kget vfs_root) (\<lambda>root.
     if root = 0 then kreturn 0
     else kbind (kderef sbs root) (\<lambda>sb.
     if path = [SLASH] then kreturn (s_root sb)
     else kbind (kget (\<lambda>s. cwd s (current_task s))) (\<lambda>dir.
     let whole = (if path \<noteq> [] \<and> hd path = SLASH then path
                  else dir @ (if dir \<noteq> [SLASH] then [SLASH] else []) @ path)
     in if length whole \<ge> VFS_MAX_PATH_LENGTH then kfault OutOfBounds
        else resolve_loop tb (pad whole) (pad []) 0 (s_root sb))))"

section \<open>Mounting, opening and closing\<close>

text \<open>The last part of \<^verbatim>\<open>vfs_mount_fs\<close>, for a resolved entry.\<close>

definition mount_on :: "(nat \<Rightarrow> ('x, 'p, 'q) fs_ops) \<Rightarrow> nat \<Rightarrow> addr \<Rightarrow> (('x, 'p, 'q) vfs, int) km" where
  "mount_on tb fs a =
     kbind (fo_mksb (tb fs) fs) (\<lambda>sb.
     kbind (kderef dentries a) (\<lambda>d.
     kbind (upd_inode (d_inode d) (\<lambda>i. i\<lparr>i_mountpoint := sb\<rparr>)) (\<lambda>_.
     kbind (kderef sbs sb) (\<lambda>b.
     kbind (upd_dentry (s_root b) (\<lambda>r. r\<lparr>d_parent := a\<rparr>)) (\<lambda>_. kreturn 0)))))"

definition vfs_mount_fs :: "(nat \<Rightarrow> ('x, 'p, 'q) fs_ops) \<Rightarrow> bytes \<Rightarrow> bytes \<Rightarrow> (('x, 'p, 'q) vfs, int) km" where
  "vfs_mount_fs tb path name =
     kbind (kget (vfs_get_fs name)) (\<lambda>r. case r of None \<Rightarrow> kfault Panic | Some fs \<Rightarrow>
     if path = [SLASH]
     then kbind (fo_mksb (tb fs) fs) (\<lambda>sb. kbind (kmodify (\<lambda>s. s\<lparr>vfs_root := sb\<rparr>)) (\<lambda>_. kreturn 0))
     else kbind (vfs_resolve_path tb path) (\<lambda>a. if a = 0 then kreturn (-1) else mount_on tb fs a))"

text \<open>What \<^verbatim>\<open>vfs_open\<close> and \<^verbatim>\<open>vfs_open_console\<close> share: from the resolved entry on.\<close>

definition add_open_file :: "addr \<Rightarrow> ('x, 'p, 'q) vfs \<Rightarrow> ('x, 'p, 'q) vfs" where
  "add_open_file fd s = s\<lparr>open_files := (open_files s)(current_task s := open_files s (current_task s) @ [fd])\<rparr>"

definition open_target :: "addr \<Rightarrow> (('x, 'p, 'q) vfs, addr) km" where
  "open_target a =
     kbind (kderef dentries a) (\<lambda>d.
     if d_inode d = 0 then kfault Panic
     else kbind (kderef inodes (d_inode d)) (\<lambda>i.
       if i_mountpoint i \<noteq> 0 then kbind (kderef sbs (i_mountpoint i)) (\<lambda>sb. kreturn (s_root sb)) else kreturn a))"

definition open_at :: "(nat \<Rightarrow> ('x, 'p, 'q) fs_ops) \<Rightarrow> addr \<Rightarrow> 'q vfile \<Rightarrow> (('x, 'p, 'q) vfs, int) km" where
  "open_at tb dp f =
     kbind (kderef dentries dp) (\<lambda>d.
     kbind (kderef inodes (d_inode d)) (\<lambda>i.
     kbind (new_file (f\<lparr>f_dentry := dp, f_count := 1, f_inode := d_inode d, f_ops := i_fops i\<rparr>)) (\<lambda>fd.
     case i_fops i of None \<Rightarrow> kfault NullDeref
     | Some fs \<Rightarrow>
         kbind (fo_open (tb fs) (d_inode d) fd) (\<lambda>_.
         kbind (kmodify (add_open_file fd)) (\<lambda>_. kreturn (f_handle f))))))"

text \<open>\<^verbatim>\<open>vfs_handle_t\<close> is a 32-bit signed integer.\<close>

definition wrap32 :: "int \<Rightarrow> int" where
  "wrap32 x = signed_take_bit 31 x"

definition next_handle :: "('x, 'p, 'q) vfs \<Rightarrow> int" where
  "next_handle s = wrap32 (vfs_next_handle_count s + 1)"

definition vfs_open :: "(nat \<Rightarrow> ('x, 'p, 'q) fs_ops) \<Rightarrow> bytes \<Rightarrow> openmode \<Rightarrow> (('x, 'p, 'q) vfs, int) km" where
  "vfs_open tb path mode =
     kbind (vfs_resolve_path tb path) (\<lambda>a.
     if a = 0 then kreturn (- ENOENT)
     else kbind (open_target a) (\<lambda>dp.
          kbind (kget next_handle) (\<lambda>fh.
          kbind (kmodify (\<lambda>s. s\<lparr>vfs_next_handle_count := fh\<rparr>)) (\<lambda>_.
          open_at tb dp (zfile\<lparr>f_handle := fh, f_openmode := mode\<rparr>)))))"

definition vfs_open_console :: "(nat \<Rightarrow> ('x, 'p, 'q) fs_ops) \<Rightarrow> bytes \<Rightarrow> int \<Rightarrow> (('x, 'p, 'q) vfs, int) km" where
  "vfs_open_console tb path fh =
     kbind (vfs_resolve_path tb path) (\<lambda>a.
     if a = 0 then kreturn (- ENOENT)
     else kbind (open_target a) (\<lambda>dp.
          open_at tb dp (zfile\<lparr>is_console := True, f_handle := fh, f_openmode := VFS_MODE_READWRITE\<rparr>)))"

text \<open>The search of the current task's open files for a handle; 0 when it is not open.\<close>

fun find_file :: "('q vfile \<Rightarrow> bool) \<Rightarrow> addr list \<Rightarrow> (('x, 'p, 'q) vfs, addr) km" where
  "find_file P [] = kreturn 0"
| "find_file P (a # as) = kbind (kderef files a) (\<lambda>f. if P f then kreturn a else find_file P as)"

definition find_handle :: "int \<Rightarrow> (('x, 'p, 'q) vfs, addr) km" where
  "find_handle fh =
     kbind (kget (\<lambda>s. open_files s (current_task s))) (\<lambda>as. find_file (\<lambda>f. f_handle f = fh) as)"

definition remove_open_file :: "addr \<Rightarrow> ('x, 'p, 'q) vfs \<Rightarrow> ('x, 'p, 'q) vfs" where
  "remove_open_file fd s = s\<lparr>open_files := (\<lambda>t. removeAll fd (open_files s t))\<rparr>"

definition close_file :: "(nat \<Rightarrow> ('x, 'p, 'q) fs_ops) \<Rightarrow> addr \<Rightarrow> (('x, 'p, 'q) vfs, int) km" where
  "close_file tb fd =
     kbind (kderef files fd) (\<lambda>f.
     kbind (case f_ops f of None \<Rightarrow> kreturn (-1) | Some fs \<Rightarrow> fo_close (tb fs) (f_inode f) fd) (\<lambda>r.
     kbind (kmodify (remove_open_file fd)) (\<lambda>_.
     kbind (kfree_file fd) (\<lambda>_. kreturn r))))"

definition vfs_close :: "(nat \<Rightarrow> ('x, 'p, 'q) fs_ops) \<Rightarrow> int \<Rightarrow> (('x, 'p, 'q) vfs, int) km" where
  "vfs_close tb fh =
     kbind (find_handle fh) (\<lambda>fd.
     if fd = 0 then kreturn (-1)
     else kbind (kderef files fd) (\<lambda>f.
       kbind (upd_file fd (\<lambda>f. f\<lparr>f_count := f_count f - 1\<rparr>)) (\<lambda>_.
       if f_count f - 1 > 0 then kreturn 0 else close_file tb fd)))"

definition vfs_close_console :: "(nat \<Rightarrow> ('x, 'p, 'q) fs_ops) \<Rightarrow> int \<Rightarrow> (('x, 'p, 'q) vfs, int) km" where
  "vfs_close_console tb fh =
     kbind (kget (\<lambda>s. open_files s (current_task s))) (\<lambda>as.
     kbind (find_file (\<lambda>f. f_handle f = fh \<and> is_console f) as) (\<lambda>fd.
     if fd = 0 then kreturn (-1) else close_file tb fd))"

section \<open>Using an open file\<close>

definition vfs_read :: "(nat \<Rightarrow> ('x, 'p, 'q) fs_ops) \<Rightarrow> int \<Rightarrow> int \<Rightarrow> (('x, 'p, 'q) vfs, int \<times> bytes) km" where
  "vfs_read tb fh len =
     kbind (find_handle fh) (\<lambda>fd.
     if fd = 0 then kreturn (0, [])
     else kbind (kderef files fd) (\<lambda>f.
       case f_ops f of None \<Rightarrow> kreturn (0, []) | Some fs \<Rightarrow> fo_read (tb fs) (f_inode f) fd len))"

definition vfs_write :: "(nat \<Rightarrow> ('x, 'p, 'q) fs_ops) \<Rightarrow> int \<Rightarrow> int \<Rightarrow> bytes \<Rightarrow> (('x, 'p, 'q) vfs, int) km" where
  "vfs_write tb fh len buff =
     kbind (find_handle fh) (\<lambda>fd.
     if fd = 0 then kreturn 0
     else kbind (kderef files fd) (\<lambda>f.
       case f_ops f of None \<Rightarrow> kreturn 0 | Some fs \<Rightarrow> fo_write (tb fs) (f_inode f) fd len buff))"

definition vfs_lseek :: "(nat \<Rightarrow> ('x, 'p, 'q) fs_ops) \<Rightarrow> int \<Rightarrow> int \<Rightarrow> int \<Rightarrow> (('x, 'p, 'q) vfs, int) km" where
  "vfs_lseek tb fh offset wence =
     kbind (find_handle fh) (\<lambda>fd.
     if fd = 0 then kreturn 0
     else kbind (kderef files fd) (\<lambda>f.
       case f_ops f of None \<Rightarrow> kreturn 0
       | Some fs \<Rightarrow> (case fo_lseek (tb fs) of None \<Rightarrow> kreturn 0 | Some lseek \<Rightarrow> lseek (f_inode f) fd offset wence)))"

definition vfs_get_inode_type :: "int \<Rightarrow> (('x, 'p, 'q) vfs, inode_type) km" where
  "vfs_get_inode_type fh =
     kbind (find_handle fh) (\<lambda>fd.
     if fd = 0 then kreturn VFS_NODE_INVALID
     else kbind (kderef files fd) (\<lambda>f.
       if f_inode f = 0 then kreturn VFS_NODE_INVALID
       else kbind (kderef inodes (f_inode f)) (\<lambda>i. kreturn (i_type i))))"

definition vfs_iterate :: "(nat \<Rightarrow> ('x, 'p, 'q) fs_ops) \<Rightarrow> int \<Rightarrow> (('x, 'p, 'q) vfs, int \<times> dirent list) km" where
  "vfs_iterate tb fh =
     kbind (find_handle fh) (\<lambda>fd.
     if fd = 0 then kreturn (-1, [])
     else kbind (kderef files fd) (\<lambda>f.
       case f_ops f of None \<Rightarrow> kreturn (-1, [])
       | Some fs \<Rightarrow>
           (case fo_iterate (tb fs) of None \<Rightarrow> kreturn (-1, [])
            | Some iter \<Rightarrow>
                if f_inode f = 0 then kreturn (-1, [])
                else kbind (kderef inodes (f_inode f)) (\<lambda>i.
                  if VFS_NODE_IS_DIR (i_type i) then iter (f_inode f) fd None else kreturn (-1, [])))))"

text \<open>The walk of \<^verbatim>\<open>vfs_get_full_path\<close> up to the root; \<open>full\<close> is the string in \<^verbatim>\<open>full_path\<close>.  It is \<open>None\<close>
  when the parents go round in a circle.\<close>

definition full_str :: "bytes \<Rightarrow> fault + bytes" where
  "full_str s = (if length s < VFS_MAX_PATH_LENGTH then Inr s else Inl OutOfBounds)"

partial_function (option) full_path_loop :: "('x, 'p, 'q) vfs \<Rightarrow> addr \<Rightarrow> addr \<Rightarrow> bytes \<Rightarrow> (fault + bytes) option" where
  "full_path_loop s root a full =
     (if a = root then Some (Inr full)
      else case dentries s a of None \<Rightarrow> Some (Inl NullDeref)
      | Some d \<Rightarrow>
          (case full_str (d_name d @ full) of Inl e \<Rightarrow> Some (Inl e)
           | Inr full1 \<Rightarrow>
               if d_parent d = a \<or> d_parent d = 0 then Some (Inr full1)
               else (case full_str (SLASH # full1) of Inl e \<Rightarrow> Some (Inl e)
                     | Inr full2 \<Rightarrow> full_path_loop s root (d_parent d) full2)))"

text \<open>The result is the return value and the bytes stored in the caller's buffer.  The length is
  compared as an unsigned number, so that a \<open>len\<close> of 0 does not limit the copy.\<close>

definition full_path_copy :: "bytes \<Rightarrow> int \<Rightarrow> bytes" where
  "full_path_copy full len =
     (let full1 = (if length full > 1 \<and> last full = SLASH then butlast full else full);
          n = (if len - 1 < 0 then length full1 else min (length full1) (nat (len - 1)))
      in take n full1 @ [0])"

definition vfs_get_full_path :: "int \<Rightarrow> int \<Rightarrow> ('x, 'p, 'q) vfs \<Rightarrow> (fault + int \<times> bytes) option" where
  "vfs_get_full_path fh len s =
     (case find_handle fh s of Inl e \<Rightarrow> Some (Inl e)
      | Inr (fd, _) \<Rightarrow>
          if fd = 0 then Some (Inr (-1, []))
          else (case (files s fd, sbs s (vfs_root s)) of
                  (Some f, Some sb) \<Rightarrow>
                    if f_dentry f = s_root sb then Some (Inr (0, full_path_copy [SLASH] len))
                    else (case full_path_loop s (s_root sb) (f_dentry f) [] of None \<Rightarrow> None
                          | Some (Inl e) \<Rightarrow> Some (Inl e)
                          | Some (Inr full) \<Rightarrow> Some (Inr (0, full_path_copy full len)))
                | _ \<Rightarrow> Some (Inl NullDeref)))"

text \<open>\<^verbatim>\<open>vfs_copy\<close>, for a new task: every open file of \<open>src\<close> that is no console is counted once more and
  copied, without its private data.  The list that is walked stays as it is unless \<open>dest\<close> is the same
  task; then the copy goes behind the end of that list, is copied in turn, and the loop never ends.\<close>

fun vfs_copy_loop :: "nat \<Rightarrow> nat \<Rightarrow> addr list \<Rightarrow> (('x, 'p, 'q) vfs, unit) km" where
  "vfs_copy_loop dest src [] = kreturn ()"
| "vfs_copy_loop dest src (a # as) =
     kbind (kderef files a) (\<lambda>f.
     if is_console f then vfs_copy_loop dest src as
     else if dest = src then kfault NoReturn
     else kbind (upd_file a (\<lambda>f. f\<lparr>f_count := f_count f + 1\<rparr>)) (\<lambda>_.
          kbind (new_file (f\<lparr>f_count := f_count f + 1, f_pdata := None\<rparr>)) (\<lambda>nf.
          kbind (kmodify (\<lambda>s. s\<lparr>open_files := (open_files s)(dest := open_files s dest @ [nf])\<rparr>)) (\<lambda>_.
          vfs_copy_loop dest src as))))"

definition vfs_copy :: "nat \<Rightarrow> nat \<Rightarrow> (('x, 'p, 'q) vfs, unit) km" where
  "vfs_copy dest src = kbind (kget (\<lambda>s. open_files s src)) (\<lambda>as. vfs_copy_loop dest src as)"

section \<open>Sequences of calls\<close>

datatype vfs_request =
    Mount bytes bytes | Open bytes openmode | Close int | Read int int | Write int int bytes | Lseek int int int
  | Iterate int | OpenConsole bytes int | CloseConsole int | Copy nat nat | Schedule nat | Chdir bytes

text \<open>One call by the task that runs; the scheduler and \<^verbatim>\<open>chdir\<close> only change which task that is and its
  working directory.\<close>

fun vfs_call :: "(nat \<Rightarrow> ('x, 'p, 'q) fs_ops) \<Rightarrow> vfs_request \<Rightarrow> ('x, 'p, 'q) vfs \<Rightarrow> fault + ('x, 'p, 'q) vfs" where
  "vfs_call tb (Mount path name) s = map_sum id snd (vfs_mount_fs tb path name s)"
| "vfs_call tb (Open path mode) s = map_sum id snd (vfs_open tb path mode s)"
| "vfs_call tb (Close fh) s = map_sum id snd (vfs_close tb fh s)"
| "vfs_call tb (Read fh len) s = map_sum id snd (vfs_read tb fh len s)"
| "vfs_call tb (Write fh len buff) s = map_sum id snd (vfs_write tb fh len buff s)"
| "vfs_call tb (Lseek fh offset wence) s = map_sum id snd (vfs_lseek tb fh offset wence s)"
| "vfs_call tb (Iterate fh) s = map_sum id snd (vfs_iterate tb fh s)"
| "vfs_call tb (OpenConsole path fh) s = map_sum id snd (vfs_open_console tb path fh s)"
| "vfs_call tb (CloseConsole fh) s = map_sum id snd (vfs_close_console tb fh s)"
| "vfs_call tb (Copy dest src) s = map_sum id snd (vfs_copy dest src s)"
| "vfs_call tb (Schedule t) s = Inr (s\<lparr>current_task := t\<rparr>)"
| "vfs_call tb (Chdir dir) s = Inr (s\<lparr>cwd := (cwd s)(current_task s := dir)\<rparr>)"

inductive vfs_reachable :: "(nat \<Rightarrow> ('x, 'p, 'q) fs_ops) \<Rightarrow> ('x, 'p, 'q) vfs \<Rightarrow> ('x, 'p, 'q) vfs \<Rightarrow> bool" for tb where
  start: "vfs_reachable tb s s"
| call: "vfs_reachable tb s s1 \<Longrightarrow> vfs_call tb c s1 = Inr s2 \<Longrightarrow> vfs_reachable tb s s2"

section \<open>Properties\<close>

text \<open>The components of a path, taken off one after the other until \<^verbatim>\<open>vfs_next_path\<close> finds none, the way
  the loop of \<^verbatim>\<open>vfs_resolve_path\<close> does.\<close>

fun path_walk :: "nat \<Rightarrow> bytes \<Rightarrow> bytes \<Rightarrow> fault + bytes list" where
  "path_walk 0 tmp nxt = Inl NoReturn"
| "path_walk (Suc n) tmp nxt =
     (case vfs_next_path tmp nxt True of
        Inl e \<Rightarrow> Inl e
      | Inr (found, tmp', nxt') \<Rightarrow> if found then map_sum id ((#) (buf_str nxt')) (path_walk n tmp' nxt') else Inr [])"

definition join_path :: "bytes list \<Rightarrow> bytes" where
  "join_path cs = concat (map (\<lambda>c. SLASH # c) cs)"

definition comp_ok :: "bytes \<Rightarrow> bool" where
  "comp_ok c \<longleftrightarrow> c \<noteq> [] \<and> 0 \<notin> set c \<and> SLASH \<notin> set c"

lemma join_path_simps [simp]: "join_path [] = []" "join_path (c # cs) = SLASH # c @ join_path cs"
  by (simp_all add: join_path_def)

lemma join_path_no_nul: "\<forall>c \<in> set cs. comp_ok c \<Longrightarrow> 0 \<notin> set (join_path cs)"
  by (induction cs) (auto simp: comp_ok_def SLASH_def)

lemma join_rest:
  assumes "\<forall>c \<in> set cs. comp_ok c"
  shows "no_root (tl (join_path cs)) = tl (join_path cs)" "tl (join_path cs) = [] \<longleftrightarrow> cs = []" "0 \<notin> set (tl (join_path cs))"
proof -
  show "no_root (tl (join_path cs)) = tl (join_path cs)" "tl (join_path cs) = [] \<longleftrightarrow> cs = []"
    using assms by (cases cs; auto simp: no_root_def comp_ok_def hd_append dest: hd_in_set)+
  show "0 \<notin> set (tl (join_path cs))" using join_path_no_nul [OF assms] by (cases cs) auto
qed

lemma next_of_join:
  assumes "no_root s = c @ join_path cs" and "comp_ok c"
  shows "next_comp s = c" and "next_rest s = tl (join_path cs)"
proof -
  have "takeWhile (\<lambda>c. c \<noteq> SLASH) (join_path cs) = []" by (cases cs) auto
  then show n: "next_comp s = c" using assms by (auto simp: next_comp_def comp_ok_def takeWhile_append)
  show "next_rest s = tl (join_path cs)" using assms(1) by (simp add: next_rest_def n drop_Suc tl_append split: list.splits)
qed

lemma path_walk_join:
  assumes "no_root s = tl (join_path cs)" and "\<forall>c \<in> set cs. comp_ok c" and "s = [] \<longleftrightarrow> cs = []" and "0 \<notin> set s"
    and "length s \<le> 128" and "length nxt = VFS_MAX_PATH_LENGTH"
  shows "path_walk (Suc (length cs)) (pad s) nxt = Inr cs"
  using assms
proof (induction cs arbitrary: s nxt)
  case Nil
  then show ?case by (simp add: vfs_next_path_def pad_def buf_str_def VFS_MAX_PATH_LENGTH_def)
next
  case (Cons c cs)
  have c: "comp_ok c" using Cons.prems by simp
  have n: "next_comp s = c" "next_rest s = tl (join_path cs)" using next_of_join [of s c cs] c Cons.prems(1) by simp_all
  have len: "length (next_rest s) \<le> length s" "length c \<le> length s"
    using Cons.prems(1) by (auto simp: n no_root_def dest: arg_cong [where f = length] split: if_splits)
  note rest = join_rest [of cs]
  have "path_walk (Suc (length cs)) (pad (next_rest s)) (pad c) = Inr cs"
  proof (rule Cons.IH)
    show "length (pad c) = VFS_MAX_PATH_LENGTH" using len Cons.prems(5) by (simp add: length_pad VFS_MAX_PATH_LENGTH_def)
  qed (use Cons.prems len rest n in auto)
  moreover have "buf_str (pad c) = c" using c by (simp add: buf_str_pad comp_ok_def)
  ultimately show ?case
    using vfs_next_path_pad [of s nxt] Cons.prems c n by (simp add: comp_ok_def)
qed

text \<open>C17: Taking a path apart never leaves its buffers: for a path of at most 128 bytes in the 256-byte
  buffers of \<^verbatim>\<open>vfs_resolve_path\<close>, the calls of \<^verbatim>\<open>vfs_next_path\<close> return exactly the components between the slashes,
  in order, and then report the end.\<close>

theorem vfs_next_path_components:
  assumes "\<forall>c \<in> set cs. comp_ok c" and "length (join_path cs) \<le> 128" and "length nxt = VFS_MAX_PATH_LENGTH"
  shows "path_walk (Suc (length cs)) (pad (join_path cs)) nxt = Inr cs"
proof (rule path_walk_join)
  show "no_root (join_path cs) = tl (join_path cs)" by (cases cs) (auto simp: no_root_def)
  show "join_path cs = [] \<longleftrightarrow> cs = []" by (cases cs) auto
qed (use assms join_path_no_nul in auto)

theorem vfs_next_path_components_witness:
  "path_walk 3 (pad [0x2F, 0x61, 0x62, 0x2F, 0x63]) (replicate 256 7) = Inr [[0x61, 0x62], [0x63]]"
  using vfs_next_path_components [of "[[0x61, 0x62], [0x63]]" "replicate 256 7"]
  by (simp add: comp_ok_def SLASH_def VFS_MAX_PATH_LENGTH_def numeral_3_eq_3)

text \<open>Beyond that length the zeroing of the moved path runs past the buffer.\<close>

lemma vfs_next_path_overruns:
  assumes "0 \<notin> set s" "no_root s = c @ SLASH # r" "SLASH \<notin> set c" "s \<noteq> []" "length s + length r > VFS_MAX_PATH_LENGTH"
    "length s < VFS_MAX_PATH_LENGTH" "length nxt = VFS_MAX_PATH_LENGTH"
  shows "vfs_next_path (pad s) nxt True = Inl OutOfBounds"
proof -
  define i0 where "i0 = (if s ! 0 = SLASH then 1 else 0 :: nat)"
  have s: "drop i0 s = c @ SLASH # r" "i0 \<le> length s" using assms(2,4) by (auto simp: i0_def no_root_drop Suc_le_eq)
  have c: "takeWhile (\<lambda>c. c \<noteq> SLASH) (drop i0 s) = c" using assms(3) by (simp add: s takeWhile_append)
  have ls: "length s = i0 + length c + 1 + length r" using arg_cong [OF s(1), of length] s(2) by simp
  have "pad s ! 0 = s ! 0" "length (pad s) = VFS_MAX_PATH_LENGTH" "0 \<in> set (pad s)"
    using assms(4,6) by (simp_all add: pad_def nth_append)
  moreover have "next_loop (pad s) (length s) i0 (replicate (length nxt) 0) 0 =
     Inr (i0 + length c, True, put_bytes (replicate (length nxt) 0) 0 c)"
    using next_loop_spec [of 0 "length s" i0 "replicate (length nxt) 0" "pad s"] assms(6,7) s(2) ls c
    by (simp add: Let_def pad_def)
  ultimately show ?thesis using assms(5) ls
    by (simp add: vfs_next_path_def buf_str_pad assms(1,4,7) i0_def [symmetric] Let_def)
qed

end
