(* ===== verification/VFSInv.thy ===== *)
theory VFSInv
  imports VFS
begin

text \<open>
  What the virtual file system keeps of its objects: entries, inodes, superblocks and open files refer
  to each other as they must, and the children of a directory have different names; the contract a
  file system has to keep to, and that every call then preserves this.
\<close>

section \<open>What a file system may do\<close>

text \<open>
  A file operation may change the private state of the file systems, the size and private data of
  inodes and the position and private data of open files, and nothing else.
\<close>

definition same_inode :: "'p inode \<Rightarrow> 'p inode \<Rightarrow> bool" where
  "same_inode i j \<longleftrightarrow> j = i\<lparr>i_fsize := i_fsize j, i_pdata := i_pdata j\<rparr>"

definition same_file :: "'q vfile \<Rightarrow> 'q vfile \<Rightarrow> bool" where
  "same_file f g \<longleftrightarrow> g = f\<lparr>f_pos := f_pos g, f_pdata := f_pdata g\<rparr>"

definition file_step :: "('x, 'p, 'q) vfs \<Rightarrow> ('x, 'p, 'q) vfs \<Rightarrow> bool" where
  "file_step s s' \<longleftrightarrow>
     s' = s\<lparr>inodes := inodes s', files := files s', fs_state := fs_state s'\<rparr> \<and>
     (\<forall>a. rel_option same_inode (inodes s a) (inodes s' a)) \<and> (\<forall>a. rel_option same_file (files s a) (files s' a))"

text \<open>A lookup may also give the entry a fresh inode on which nothing is mounted, with the superblock of
  the directory \<open>io\<close>.\<close>

definition filled :: "addr \<Rightarrow> 'p inode \<Rightarrow> nat option \<Rightarrow> ('x, 'p, 'q) vfs \<Rightarrow> ('x, 'p, 'q) vfs" where
  "filled e i opt s =
     s\<lparr>inodes := (inodes s)(next_addr s \<mapsto> i),
       dentries := (dentries s)(e := map_option (\<lambda>d. d\<lparr>d_inode := next_addr s, d_ops := opt\<rparr>) (dentries s e)),
       next_addr := Suc (next_addr s)\<rparr>"

definition lookup_step :: "addr \<Rightarrow> addr \<Rightarrow> ('x, 'p, 'q) vfs \<Rightarrow> ('x, 'p, 'q) vfs \<Rightarrow> bool" where
  "lookup_step io e s s' \<longleftrightarrow>
     file_step s s' \<or>
     (\<exists>s1 i opt j. file_step s s1 \<and> i_mountpoint i = 0 \<and> inodes s io = Some j \<and> i_sb i = i_sb j \<and> s' = filled e i opt s1)"

text \<open>\<^verbatim>\<open>mksb\<close> fails, or makes a superblock with a root entry and its inode.\<close>

definition mounted :: "dentry \<Rightarrow> 'p inode \<Rightarrow> super_block \<Rightarrow> ('x, 'p, 'q) vfs \<Rightarrow> ('x, 'p, 'q) vfs" where
  "mounted d i b s =
     (let n = next_addr s
      in s\<lparr>sbs := (sbs s)(n \<mapsto> b\<lparr>s_root := n + 1\<rparr>),
           dentries := (dentries s)(n + 1 \<mapsto> d\<lparr>d_inode := n + 2, d_parent := n + 1, d_subdirs := []\<rparr>),
           inodes := (inodes s)(n + 2 \<mapsto> i\<lparr>i_sb := n, i_mountpoint := 0\<rparr>),
           next_addr := n + 3\<rparr>)"

definition mksb_step :: "addr \<Rightarrow> ('x, 'p, 'q) vfs \<Rightarrow> ('x, 'p, 'q) vfs \<Rightarrow> bool" where
  "mksb_step b s s' \<longleftrightarrow>
     b = 0 \<and> file_step s s' \<or> (\<exists>s1 d i sb. file_step s s1 \<and> b = next_addr s \<and> s' = mounted d i sb s1)"

section \<open>Well-formed states\<close>

definition dentry_ok :: "('x, 'p, 'q) vfs \<Rightarrow> addr \<Rightarrow> dentry \<Rightarrow> bool" where
  "dentry_ok s a d \<longleftrightarrow>
     0 < a \<and> a < next_addr s \<and> d_parent d \<in> dom (dentries s) \<and> (d_inode d = 0 \<or> d_inode d \<in> dom (inodes s)) \<and>
     distinct (d_subdirs d) \<and>
     (\<forall>c \<in> set (d_subdirs d). \<exists>e. dentries s c = Some e \<and> d_parent e = a) \<and>
     distinct (map (\<lambda>c. map_option d_name (dentries s c)) (d_subdirs d))"

definition inode_ok :: "('x, 'p, 'q) vfs \<Rightarrow> addr \<Rightarrow> 'p inode \<Rightarrow> bool" where
  "inode_ok s a i \<longleftrightarrow>
     0 < a \<and> a < next_addr s \<and> i_sb i \<in> dom (sbs s) \<and> (i_mountpoint i = 0 \<or> i_mountpoint i \<in> dom (sbs s))"

definition sb_ok :: "('x, 'p, 'q) vfs \<Rightarrow> addr \<Rightarrow> super_block \<Rightarrow> bool" where
  "sb_ok s a b \<longleftrightarrow> 0 < a \<and> a < next_addr s \<and> s_root b \<in> dom (dentries s)"

definition file_ok :: "('x, 'p, 'q) vfs \<Rightarrow> addr \<Rightarrow> 'q vfile \<Rightarrow> bool" where
  "file_ok s a f \<longleftrightarrow>
     0 < a \<and> a < next_addr s \<and> f_inode f \<in> dom (inodes s) \<and> f_dentry f \<in> dom (dentries s) \<and> f_ops f \<noteq> None"

definition lists_ok :: "('x, 'p, 'q) vfs \<Rightarrow> bool" where
  "lists_ok s \<longleftrightarrow>
     (\<forall>t. distinct (open_files s t) \<and> set (open_files s t) \<subseteq> dom (files s)) \<and>
     (\<forall>t u. t \<noteq> u \<longrightarrow> set (open_files s t) \<inter> set (open_files s u) = {})"

definition objects_ok :: "('x, 'p, 'q) vfs \<Rightarrow> bool" where
  "objects_ok s \<longleftrightarrow>
     (\<forall>a d. dentries s a = Some d \<longrightarrow> dentry_ok s a d) \<and> (\<forall>a i. inodes s a = Some i \<longrightarrow> inode_ok s a i) \<and>
     (\<forall>a b. sbs s a = Some b \<longrightarrow> sb_ok s a b) \<and> (\<forall>a f. files s a = Some f \<longrightarrow> file_ok s a f) \<and>
     lists_ok s \<and> (vfs_root s = 0 \<or> vfs_root s \<in> dom (sbs s)) \<and> 0 < next_addr s"

lemma same_inode_refl [simp]: "same_inode i i"
  by (simp add: same_inode_def)

lemma same_file_refl [simp]: "same_file f f"
  by (simp add: same_file_def)

lemma same_inode_simps:
  assumes "same_inode i j"
  shows "i_mountpoint j = i_mountpoint i" "i_ops j = i_ops i" "i_fops j = i_fops i" "i_type j = i_type i" "i_sb j = i_sb i"
  using assms by (cases i; cases j; simp add: same_inode_def)+

lemma same_file_simps:
  assumes "same_file f g"
  shows "f_handle g = f_handle f" "f_inode g = f_inode f" "f_dentry g = f_dentry f" "f_ops g = f_ops f" "is_console g = is_console f"
    "f_count g = f_count f"
  using assms by (cases f; cases g; simp add: same_file_def)+

lemma file_stepD:
  assumes "file_step s s'"
  shows "dentries s' = dentries s" "sbs s' = sbs s" "next_addr s' = next_addr s" "vfs_root s' = vfs_root s"
    "vfs_fs_list s' = vfs_fs_list s" "vfs_next_handle_count s' = vfs_next_handle_count s" "current_task s' = current_task s"
    "open_files s' = open_files s" "cwd s' = cwd s"
  using assms by (cases s; cases s'; simp add: file_step_def)+

lemma file_step_inodes:
  assumes "file_step s s'"
  shows "dom (inodes s') = dom (inodes s)"
    and "inodes s' a = Some j \<Longrightarrow> \<exists>i. inodes s a = Some i \<and> same_inode i j"
proof -
  have r: "rel_option same_inode (inodes s b) (inodes s' b)" for b using assms by (simp add: file_step_def)
  have "b \<in> dom (inodes s') \<longleftrightarrow> b \<in> dom (inodes s)" for b using r [of b] by (auto simp: dom_def elim: option.rel_cases)
  then show "dom (inodes s') = dom (inodes s)" by blast
  show "inodes s' a = Some j \<Longrightarrow> \<exists>i. inodes s a = Some i \<and> same_inode i j" using r [of a] by (auto elim: option.rel_cases)
qed

lemma file_step_files:
  assumes "file_step s s'"
  shows "dom (files s') = dom (files s)"
    and "files s' a = Some g \<Longrightarrow> \<exists>f. files s a = Some f \<and> same_file f g"
proof -
  have r: "rel_option same_file (files s b) (files s' b)" for b using assms by (simp add: file_step_def)
  have "b \<in> dom (files s') \<longleftrightarrow> b \<in> dom (files s)" for b using r [of b] by (auto simp: dom_def elim: option.rel_cases)
  then show "dom (files s') = dom (files s)" by blast
  show "files s' a = Some g \<Longrightarrow> \<exists>f. files s a = Some f \<and> same_file f g" using r [of a] by (auto elim: option.rel_cases)
qed

lemma file_step_refl [simp]: "file_step s s"
  by (auto simp: file_step_def intro!: option.rel_refl)

lemma wf_file_step:
  assumes st: "file_step s s'" and wf: "objects_ok s"
  shows "objects_ok s'"
  using wf unfolding objects_ok_def
proof (elim conjE, intro conjI allI impI)
  fix a i assume a: "inodes s' a = Some i"
  then obtain j where "inodes s a = Some j" "same_inode j i" using file_step_inodes [OF st] by blast
  then show "inode_ok s' a i" using wf same_inode_simps [of j i] file_stepD [OF st] by (auto simp: objects_ok_def inode_ok_def)
next
  fix a f assume a: "files s' a = Some f"
  then obtain g where "files s a = Some g" "same_file g f" using file_step_files [OF st] by blast
  then show "file_ok s' a f"
    using wf same_file_simps [of g f] file_stepD [OF st] file_step_inodes(1) [OF st] by (auto simp: objects_ok_def file_ok_def)
qed (use file_stepD [OF st] file_step_inodes(1) [OF st] file_step_files(1) [OF st] in
     \<open>auto simp: dentry_ok_def sb_ok_def lists_ok_def\<close>)

lemma wfD:
  assumes "objects_ok s"
  shows "dentries s a = Some d \<Longrightarrow> dentry_ok s a d" "inodes s a = Some i \<Longrightarrow> inode_ok s a i"
    "sbs s a = Some b \<Longrightarrow> sb_ok s a b" "files s a = Some f \<Longrightarrow> file_ok s a f"
    "lists_ok s" "vfs_root s = 0 \<or> vfs_root s \<in> dom (sbs s)" "0 < next_addr s"
  using assms by (simp_all add: objects_ok_def)

text \<open>Addresses from \<open>next_addr\<close> on are not in use.\<close>

lemma wf_fresh:
  assumes "objects_ok s" and "next_addr s \<le> a"
  shows "dentries s a = None" "inodes s a = None" "sbs s a = None" "files s a = None"
proof -
  show "dentries s a = None" using wfD(1) [OF assms(1), of a] assms(2) by (cases "dentries s a") (auto simp: dentry_ok_def)
  show "inodes s a = None" using wfD(2) [OF assms(1), of a] assms(2) by (cases "inodes s a") (auto simp: inode_ok_def)
  show "sbs s a = None" using wfD(3) [OF assms(1), of a] assms(2) by (cases "sbs s a") (auto simp: sb_ok_def)
  show "files s a = None" using wfD(4) [OF assms(1), of a] assms(2) by (cases "files s a") (auto simp: file_ok_def)
qed

lemma wf_child: "objects_ok s \<Longrightarrow> dentries s a = Some d \<Longrightarrow> c \<in> set (d_subdirs d) \<Longrightarrow> \<exists>e. dentries s c = Some e \<and> d_parent e = a"
  using wfD(1) by (fastforce simp: dentry_ok_def)

text \<open>An entry stays well-formed when objects are added and its children keep their names and parents.\<close>

lemma dentry_ok_keep:
  assumes ok: "dentry_ok s a d" and n: "next_addr s \<le> next_addr s'"
    and sub: "dom (dentries s) \<subseteq> dom (dentries s')" "dom (inodes s) \<subseteq> dom (inodes s')"
    and ch: "\<And>c e. c \<in> set (d_subdirs d) \<Longrightarrow> dentries s c = Some e \<Longrightarrow>
               \<exists>e'. dentries s' c = Some e' \<and> d_parent e' = d_parent e \<and> d_name e' = d_name e"
  shows "dentry_ok s' a d"
proof -
  have c: "\<exists>e e'. dentries s c = Some e \<and> dentries s' c = Some e' \<and> d_parent e' = a \<and> d_name e' = d_name e" if "c \<in> set (d_subdirs d)" for c
    using ok ch [OF that] that by (fastforce simp: dentry_ok_def)
  then have "map_option d_name (dentries s' c) = map_option d_name (dentries s c)" if "c \<in> set (d_subdirs d)" for c
    using that by fastforce
  then have m: "map (\<lambda>c. map_option d_name (dentries s' c)) (d_subdirs d) = map (\<lambda>c. map_option d_name (dentries s c)) (d_subdirs d)"
    by (rule map_cong [OF refl])
  show ?thesis unfolding dentry_ok_def m
  proof (intro conjI ballI)
    show "\<exists>e. dentries s' x = Some e \<and> d_parent e = a" if "x \<in> set (d_subdirs d)" for x using c [OF that] by blast
  qed (use ok n sub in \<open>auto simp: dentry_ok_def\<close>)
qed

text \<open>A new superblock keeps the state well-formed.\<close>

lemma wf_mounted:
  assumes wf: "objects_ok s"
  shows "objects_ok (mounted d i b s)"
proof -
  let ?n = "next_addr s" and ?s = "mounted d i b s"
  note fresh = wf_fresh [OF wf]
  have up: "dentries ?s = (dentries s)(?n + 1 \<mapsto> d\<lparr>d_inode := ?n + 2, d_parent := ?n + 1, d_subdirs := []\<rparr>)"
    "inodes ?s = (inodes s)(?n + 2 \<mapsto> i\<lparr>i_sb := ?n, i_mountpoint := 0\<rparr>)" "sbs ?s = (sbs s)(?n \<mapsto> b\<lparr>s_root := ?n + 1\<rparr>)"
    "next_addr ?s = ?n + 3" "files ?s = files s" "open_files ?s = open_files s" "vfs_root ?s = vfs_root s"
    by (simp_all add: mounted_def Let_def)
  have old: "dentry_ok ?s a e" if a: "dentries s a = Some e" for a e
    by (rule dentry_ok_keep [OF wfD(1) [OF wf a]]) (use fresh(1) [of "?n + 1"] in \<open>auto simp: up\<close>)
  show ?thesis unfolding objects_ok_def
  proof (intro conjI allI impI)
    show "dentry_ok ?s a e" if a: "dentries ?s a = Some e" for a e
    proof (cases "a = ?n + 1")
      case True then show ?thesis using a by (auto simp: up dentry_ok_def)
    qed (use a old in \<open>simp add: up(1)\<close>)
    show "inode_ok ?s a e" if "inodes ?s a = Some e" for a e
      using that wfD(2) [OF wf, of a e] by (auto simp: up inode_ok_def split: if_splits)
    show "sb_ok ?s a e" if "sbs ?s a = Some e" for a e
      using that wfD(3) [OF wf, of a e] wfD(7) [OF wf] by (auto simp: up sb_ok_def split: if_splits)
    show "file_ok ?s a e" if "files ?s a = Some e" for a e
      using that wfD(4) [OF wf, of a e] by (auto simp: up file_ok_def)
    show "lists_ok ?s" using wfD(5) [OF wf] by (simp add: up lists_ok_def)
    show "vfs_root ?s = 0 \<or> vfs_root ?s \<in> dom (sbs ?s)" using wfD(6) [OF wf] by (auto simp: up)
  qed (simp add: up)
qed

lemma wf_mksb_step:
  assumes "objects_ok s" and "mksb_step b s s'"
  shows "objects_ok s'"
  using assms wf_file_step wf_mounted unfolding mksb_step_def by blast

text \<open>A new entry for a name that is no child of the directory yet, filled by the file system and linked
  to the directory.\<close>

definition linked :: "addr \<Rightarrow> addr \<Rightarrow> dentry \<Rightarrow> ('x, 'p, 'q) vfs \<Rightarrow> ('x, 'p, 'q) vfs" where
  "linked p a d s =
     s\<lparr>dentries := (dentries s)(a \<mapsto> d\<lparr>d_subdirs := [], d_parent := p\<rparr>,
                                p := map_option (\<lambda>e. e\<lparr>d_subdirs := d_subdirs e @ [a]\<rparr>) (dentries s p))\<rparr>"

lemma wf_linked:
  assumes wf: "objects_ok s" and p: "dentries s p = Some e" and a: "dentries s a = None" "0 < a" "a < next_addr s"
    and d: "d_inode d = 0 \<or> d_inode d \<in> dom (inodes s)"
    and nm: "\<And>c. c \<in> set (d_subdirs e) \<Longrightarrow> map_option d_name (dentries s c) \<noteq> Some (d_name d)"
  shows "objects_ok (linked p a d s)"
proof -
  let ?s = "linked p a d s"
  have ap: "a \<noteq> p" using p a by auto
  have up: "dentries ?s = (dentries s)(a \<mapsto> d\<lparr>d_subdirs := [], d_parent := p\<rparr>, p \<mapsto> e\<lparr>d_subdirs := d_subdirs e @ [a]\<rparr>)"
    "inodes ?s = inodes s" "sbs ?s = sbs s" "next_addr ?s = next_addr s" "files ?s = files s" "open_files ?s = open_files s"
    "vfs_root ?s = vfs_root s"
    using p by (simp_all add: linked_def)
  have sub: "dom (dentries s) \<subseteq> dom (dentries ?s)" by (auto simp: up)
  have keep: "\<exists>e'. dentries ?s c = Some e' \<and> d_parent e' = d_parent x \<and> d_name e' = d_name x" if "dentries s c = Some x" for c x
    using that a p by (auto simp: up)
  have old: "dentry_ok ?s b x" if b: "dentries s b = Some x" for b x
    by (rule dentry_ok_keep [OF wfD(1) [OF wf b]]) (use sub keep in \<open>auto simp: up(2,4)\<close>)
  have par: "dentry_ok ?s p (e\<lparr>d_subdirs := d_subdirs e @ [a]\<rparr>)"
  proof -
    have na: "a \<notin> set (d_subdirs e)" using wf_child [OF wf p] a by fastforce
    have das: "dentries ?s a = Some (d\<lparr>d_subdirs := [], d_parent := p\<rparr>)" using ap by (simp add: up(1))
    have "Some (d_name d) \<noteq> map_option d_name (dentries ?s c)" if c: "c \<in> set (d_subdirs e)" for c
    proof -
      obtain x where x: "dentries s c = Some x" using wf_child [OF wf p c] by auto
      then obtain e' where "dentries ?s c = Some e'" "d_name e' = d_name x" using keep by blast
      then show ?thesis using nm [OF c] x by simp
    qed
    then have "Some (d_name d) \<notin> (\<lambda>c. map_option d_name (dentries ?s c)) ` set (d_subdirs e)" by blast
    then show ?thesis using old [OF p] na das by (simp add: dentry_ok_def)
  qed
  have new: "dentry_ok ?s a (d\<lparr>d_subdirs := [], d_parent := p\<rparr>)" using a d by (auto simp: dentry_ok_def up)
  show ?thesis unfolding objects_ok_def
  proof (intro conjI allI impI)
    show "dentry_ok ?s b x" if b: "dentries ?s b = Some x" for b x
    proof -
      have "b = p \<and> x = e\<lparr>d_subdirs := d_subdirs e @ [a]\<rparr> \<or> b = a \<and> x = d\<lparr>d_subdirs := [], d_parent := p\<rparr> \<or> dentries s b = Some x"
        using b by (cases "b = p"; cases "b = a"; simp add: up(1))
      then show ?thesis by (elim disjE conjE) (simp_all only: par new old)
    qed
    show "inode_ok ?s b x" if "inodes ?s b = Some x" for b x using that wfD(2) [OF wf] by (auto simp: up inode_ok_def)
    show "sb_ok ?s b x" if "sbs ?s b = Some x" for b x using that wfD(3) [OF wf, of b x] sub by (simp add: up(3,4) sb_ok_def) blast
    show "file_ok ?s b x" if "files ?s b = Some x" for b x using that wfD(4) [OF wf, of b x] sub by (simp add: up(2,4,5) file_ok_def) blast
    show "lists_ok ?s" using wfD(5) [OF wf] by (simp add: up lists_ok_def)
  qed (use wfD(6,7) [OF wf] in \<open>simp_all add: up\<close>)
qed

section \<open>Small steps of the calls\<close>

lemma find_child_state: "find_child cs name s = Inr (c, s') \<Longrightarrow> s' = s"
  by (induction cs) (auto simp: kbind_Inr_iff split: if_splits)

lemma find_child_found: "find_child cs name s = Inr (c, s') \<Longrightarrow> c \<noteq> 0 \<Longrightarrow> c \<in> set cs"
  by (induction cs) (auto simp: kbind_Inr_iff split: if_splits)

lemma find_child_none:
  "find_child cs name s = Inr (0, s') \<Longrightarrow> 0 \<notin> set cs \<Longrightarrow> x \<in> set cs \<Longrightarrow> map_option d_name (dentries s x) \<noteq> Some name"
  by (induction cs) (auto simp: kbind_Inr_iff split: if_splits)

lemma file_step_with:
  assumes "file_step s s'"
  shows "file_step (s\<lparr>dentries := D\<rparr>) (s'\<lparr>dentries := D\<rparr>)"
  using assms by (cases s; cases s'; simp add: file_step_def)

lemma wf_new_inode:
  assumes wf: "objects_ok s" and i: "i_mountpoint i = 0" "i_sb i \<in> dom (sbs s)"
  shows "objects_ok (s\<lparr>inodes := (inodes s)(next_addr s \<mapsto> i), next_addr := Suc (next_addr s)\<rparr>)" (is "objects_ok ?s")
  unfolding objects_ok_def
proof (intro conjI allI impI)
  show "dentry_ok ?s a d" if "dentries ?s a = Some d" for a d
    using that wfD(1) [OF wf, of a d] by (auto simp: dentry_ok_def)
  show "inode_ok ?s a d" if "inodes ?s a = Some d" for a d
    using that wfD(2) [OF wf, of a d] i wfD(7) [OF wf] by (auto simp: inode_ok_def split: if_splits)
  show "sb_ok ?s a d" if "sbs ?s a = Some d" for a d using that wfD(3) [OF wf, of a d] by (auto simp: sb_ok_def)
  show "file_ok ?s a d" if "files ?s a = Some d" for a d using that wfD(4) [OF wf, of a d] by (auto simp: file_ok_def)
  show "lists_ok ?s" using wfD(5) [OF wf] by (simp add: lists_ok_def)
qed (use wfD(6) [OF wf] in simp_all)

lemma wf_bump:
  assumes wf: "objects_ok s"
  shows "objects_ok (s\<lparr>next_addr := Suc (next_addr s)\<rparr>)" (is "objects_ok ?s")
  unfolding objects_ok_def
proof (intro conjI allI impI)
  show "dentry_ok ?s a d" if "dentries ?s a = Some d" for a d
    using that wfD(1) [OF wf, of a d] by (auto simp: dentry_ok_def)
  show "inode_ok ?s a d" if "inodes ?s a = Some d" for a d using that wfD(2) [OF wf, of a d] by (auto simp: inode_ok_def)
  show "sb_ok ?s a d" if "sbs ?s a = Some d" for a d using that wfD(3) [OF wf, of a d] by (auto simp: sb_ok_def)
  show "file_ok ?s a d" if "files ?s a = Some d" for a d using that wfD(4) [OF wf, of a d] by (auto simp: file_ok_def)
  show "lists_ok ?s" using wfD(5) [OF wf] by (simp add: lists_ok_def)
qed (use wfD(6) [OF wf] in simp_all)

text \<open>After a lookup in the entry just allocated: without the entry the state is well-formed, and the
  entry names an inode of it or none.\<close>

lemma wf_lookup_step:
  assumes wf: "objects_ok s" and d: "d_inode d = 0"
    and st: "lookup_step io (next_addr s) (s\<lparr>dentries := (dentries s)(next_addr s \<mapsto> d), next_addr := Suc (next_addr s)\<rparr>) s'"
  shows "objects_ok (s'\<lparr>dentries := dentries s\<rparr>) \<and> next_addr s < next_addr s' \<and>
     (\<exists>d'. dentries s' = (dentries s)(next_addr s \<mapsto> d') \<and> d_name d' = d_name d \<and> (d_inode d' = 0 \<or> d_inode d' \<in> dom (inodes s')))"
proof -
  let ?s0 = "s\<lparr>dentries := (dentries s)(next_addr s \<mapsto> d), next_addr := Suc (next_addr s)\<rparr>"
  have base: "objects_ok (t\<lparr>dentries := dentries s\<rparr>)" "next_addr t = Suc (next_addr s)" "dentries t = (dentries s)(next_addr s \<mapsto> d)"
    if "file_step ?s0 t" for t
    using wf_file_step [OF file_step_with [OF that, of "dentries s"]] wf_bump [OF wf] file_stepD [OF that] by simp_all
  from st consider "file_step ?s0 s'"
    | t i opt j where "file_step ?s0 t" "i_mountpoint i = 0" "s' = filled (next_addr s) i opt t" "inodes s io = Some j" "i_sb i = i_sb j"
    by (auto simp: lookup_step_def)
  then show ?thesis
  proof cases
    case 1
    then show ?thesis using base [OF 1] d by auto
  next
    case 2
    have "filled (next_addr s) i opt t\<lparr>dentries := dentries s\<rparr> =
       (t\<lparr>dentries := dentries s\<rparr>)\<lparr>inodes := (inodes (t\<lparr>dentries := dentries s\<rparr>))(next_addr (t\<lparr>dentries := dentries s\<rparr>) \<mapsto> i),
          next_addr := Suc (next_addr (t\<lparr>dentries := dentries s\<rparr>))\<rparr>"
      by (simp add: filled_def)
    moreover have "i_sb i \<in> dom (sbs (t\<lparr>dentries := dentries s\<rparr>))"
      using wfD(2) [OF wf 2(4)] 2(5) file_stepD(2) [OF 2(1)] by (simp add: inode_ok_def)
    ultimately have "objects_ok (s'\<lparr>dentries := dentries s\<rparr>)" using wf_new_inode [OF base(1) [OF 2(1)] 2(2)] 2(3) by simp
    then show ?thesis using base(2,3) [OF 2(1)] 2(3) by (auto simp: filled_def)
  qed
qed

lemma wf_set_mount:
  assumes wf: "objects_ok s" and x: "inodes s x = Some i" and b: "b = 0 \<or> b \<in> dom (sbs s)"
  shows "objects_ok (s\<lparr>inodes := (inodes s)(x \<mapsto> i\<lparr>i_mountpoint := b\<rparr>)\<rparr>)" (is "objects_ok ?s")
proof -
  have dm: "dom (inodes ?s) = dom (inodes s)" using x by auto
  show ?thesis unfolding objects_ok_def
  proof (intro conjI allI impI)
    show "dentry_ok ?s a d" if "dentries ?s a = Some d" for a d using that wfD(1) [OF wf, of a d] dm by (simp add: dentry_ok_def)
    show "inode_ok ?s a d" if "inodes ?s a = Some d" for a d
      using that wfD(2) [OF wf, of a] wfD(2) [OF wf x] b by (auto simp: inode_ok_def split: if_splits)
    show "sb_ok ?s a d" if "sbs ?s a = Some d" for a d using that wfD(3) [OF wf, of a d] by (auto simp: sb_ok_def)
    show "file_ok ?s a d" if "files ?s a = Some d" for a d using that wfD(4) [OF wf, of a d] dm by (simp add: file_ok_def)
    show "lists_ok ?s" using wfD(5) [OF wf] by (simp add: lists_ok_def)
  qed (use wfD(6,7) [OF wf] in simp_all)
qed

lemma wf_set_parent:
  assumes wf: "objects_ok s" and r: "dentries s r = Some d" and a: "a \<in> dom (dentries s)"
    and nc: "\<And>x e. dentries s x = Some e \<Longrightarrow> r \<notin> set (d_subdirs e)"
  shows "objects_ok (s\<lparr>dentries := (dentries s)(r \<mapsto> d\<lparr>d_parent := a\<rparr>)\<rparr>)" (is "objects_ok ?s")
proof -
  have dm: "dom (dentries ?s) = dom (dentries s)" using r by auto
  have old: "dentry_ok ?s x e" if x: "dentries s x = Some e" for x e
    by (rule dentry_ok_keep [OF wfD(1) [OF wf x]]) (use dm nc [OF x] in auto)
  show ?thesis unfolding objects_ok_def
  proof (intro conjI allI impI)
    show "dentry_ok ?s x e" if x: "dentries ?s x = Some e" for x e
    proof (cases "x = r")
      case True
      then have e: "e = d\<lparr>d_parent := a\<rparr>" using x by simp
      show ?thesis using old [OF r] a dm unfolding True e dentry_ok_def by simp
    qed (use x old in simp)
    show "inode_ok ?s x e" if "inodes ?s x = Some e" for x e using that wfD(2) [OF wf, of x e] by (simp add: inode_ok_def)
    show "sb_ok ?s x e" if "sbs ?s x = Some e" for x e using that wfD(3) [OF wf, of x e] dm by (simp add: sb_ok_def)
    show "file_ok ?s x e" if "files ?s x = Some e" for x e using that wfD(4) [OF wf, of x e] dm by (simp add: file_ok_def)
    show "lists_ok ?s" using wfD(5) [OF wf] by (simp add: lists_ok_def)
  qed (use wfD(6,7) [OF wf] in simp_all)
qed

text \<open>The other parts of the state play no role for the kernel objects.\<close>

lemma wf_other [simp]:
  "objects_ok (s\<lparr>vfs_next_handle_count := h\<rparr>) = objects_ok s" "objects_ok (s\<lparr>current_task := t\<rparr>) = objects_ok s"
  "objects_ok (s\<lparr>cwd := w\<rparr>) = objects_ok s" "objects_ok (s\<lparr>vfs_fs_list := l\<rparr>) = objects_ok s"
  by (simp_all add: objects_ok_def dentry_ok_def inode_ok_def sb_ok_def file_ok_def lists_ok_def)

lemma wf_objects:
  assumes wf: "objects_ok s" and f: "\<And>a f. F a = Some f \<Longrightarrow> file_ok (s\<lparr>next_addr := n\<rparr>) a f" and n: "next_addr s \<le> n"
    and l: "lists_ok (s\<lparr>files := F, open_files := L\<rparr>)"
  shows "objects_ok (s\<lparr>files := F, next_addr := n, open_files := L\<rparr>)" (is "objects_ok ?s")
  unfolding objects_ok_def
proof (intro conjI allI impI)
  show "dentry_ok ?s x e" if x: "dentries ?s x = Some e" for x e using that wfD(1) [OF wf, of x e] n by (auto simp: dentry_ok_def)
  show "inode_ok ?s x e" if "inodes ?s x = Some e" for x e using that wfD(2) [OF wf, of x e] n by (auto simp: inode_ok_def)
  show "sb_ok ?s x e" if "sbs ?s x = Some e" for x e using that wfD(3) [OF wf, of x e] n by (auto simp: sb_ok_def)
  show "file_ok ?s x e" if "files ?s x = Some e" for x e using that f [of x e] by (simp add: file_ok_def)
  show "lists_ok ?s" using l by (simp add: lists_ok_def)
qed (use wfD(6,7) [OF wf] n in auto)

lemma wf_new_file:
  assumes wf: "objects_ok s" and f: "f_inode f \<in> dom (inodes s)" "f_dentry f \<in> dom (dentries s)" "f_ops f \<noteq> None"
  shows "objects_ok (s\<lparr>files := (files s)(next_addr s \<mapsto> f), next_addr := Suc (next_addr s)\<rparr>)"
  using wf_objects [OF wf, of "(files s)(next_addr s \<mapsto> f)" "Suc (next_addr s)" "open_files s"] wfD(4) [OF wf] wfD(5,7) [OF wf] f
  by (fastforce simp: file_ok_def lists_ok_def split: if_splits)

lemma wf_add_open:
  assumes wf: "objects_ok s" and f: "fd \<in> dom (files s)" "\<And>t. fd \<notin> set (open_files s t)"
  shows "objects_ok (s\<lparr>open_files := (open_files s)(t := open_files s t @ [fd])\<rparr>)"
proof -
  have "lists_ok (s\<lparr>open_files := (open_files s)(t := open_files s t @ [fd])\<rparr>)"
    using wfD(5) [OF wf] f unfolding lists_ok_def by (auto simp: Int_Un_distrib Int_Un_distrib2)
  then show ?thesis
    using wf_objects [OF wf, of "files s" "next_addr s" "(open_files s)(t := open_files s t @ [fd])"] wfD(4) [OF wf] by (simp add: lists_ok_def)
qed

lemma wf_upd_file:
  assumes wf: "objects_ok s" and f: "files s fd = Some f" and g: "f_inode g = f_inode f" "f_dentry g = f_dentry f" "f_ops g = f_ops f"
  shows "objects_ok (s\<lparr>files := (files s)(fd \<mapsto> g)\<rparr>)"
proof -
  have "dom ((files s)(fd \<mapsto> g)) = dom (files s)" using f by auto
  then have "lists_ok (s\<lparr>files := (files s)(fd \<mapsto> g)\<rparr>)" using wfD(5) [OF wf] by (simp add: lists_ok_def)
  then show ?thesis
    using wf_objects [OF wf, of "(files s)(fd \<mapsto> g)" "next_addr s" "open_files s"] wfD(4) [OF wf] wfD(4) [OF wf f] g
    by (fastforce simp: lists_ok_def file_ok_def split: if_splits)
qed

lemma wf_remove_file:
  assumes wf: "objects_ok s"
  shows "objects_ok (remove_open_file fd s\<lparr>files := (files s)(fd := None)\<rparr>)"
proof -
  have l: "lists_ok (s\<lparr>files := (files s)(fd := None), open_files := \<lambda>t. removeAll fd (open_files s t)\<rparr>)"
    using wfD(5) [OF wf] unfolding lists_ok_def by (simp add: distinct_removeAll) blast
  have e: "remove_open_file fd s\<lparr>files := (files s)(fd := None)\<rparr> =
      s\<lparr>files := (files s)(fd := None), next_addr := next_addr s, open_files := \<lambda>t. removeAll fd (open_files s t)\<rparr>"
    by (cases s) (simp add: remove_open_file_def)
  show ?thesis unfolding e by (rule wf_objects [OF wf]) (use wfD(4) [OF wf] l in \<open>auto split: if_splits\<close>)
qed

text \<open>The root of a new superblock is no child.\<close>

lemma mounted_root_no_child:
  assumes wf: "objects_ok s" and st: "mksb_step sb s s'" and "sb \<noteq> 0" and b: "sbs s' sb = Some b" and e: "dentries s' x = Some e"
  shows "s_root b \<notin> set (d_subdirs e)"
proof -
  from st \<open>sb \<noteq> 0\<close> obtain s1 d i b0 where m: "file_step s s1" "sb = next_addr s" "s' = mounted d i b0 s1" by (auto simp: mksb_step_def)
  have n: "next_addr s1 = next_addr s" using file_stepD [OF m(1)] by simp
  have r: "s_root b = next_addr s + 1" using b m n by (auto simp: mounted_def Let_def)
  have w1: "objects_ok s1" by (rule wf_file_step [OF m(1) wf])
  show ?thesis
  proof (cases "x = next_addr s + 1")
    case True then show ?thesis using e m n by (auto simp: mounted_def Let_def)
  next
    case False
    then have "dentries s1 x = Some e" using e m n by (simp add: mounted_def Let_def)
    then show ?thesis using wf_child [OF w1] wf_fresh(1) [OF w1, of "s_root b"] r n by fastforce
  qed
qed

section \<open>The contract of a file system\<close>

locale file_system =
  fixes ops :: "('x, 'p, 'q) fs_ops"
  assumes mksb: "fo_mksb ops fs s = Inr (b, s') \<Longrightarrow> mksb_step b s s'"
    and lookup: "fo_lookup ops io e s = Inr (r, s') \<Longrightarrow> lookup_step io e s s'"
    and open_op: "fo_open ops io fd s = Inr (rc, s') \<Longrightarrow> file_step s s'"
    and close_op: "fo_close ops io fd s = Inr (rc, s') \<Longrightarrow> file_step s s'"
    and read_op: "fo_read ops io fd len s = Inr (rd, s') \<Longrightarrow> file_step s s'"
    and write_op: "fo_write ops io fd len buff s = Inr (rc, s') \<Longrightarrow> file_step s s'"
    and lseek_op: "fo_lseek ops = Some lseek \<Longrightarrow> lseek io fd offset wence s = Inr (rc, s') \<Longrightarrow> file_step s s'"
    and iterate_op: "fo_iterate ops = Some iter \<Longrightarrow> iter io fd path s = Inr (ri, s') \<Longrightarrow> file_step s s'"

text \<open>The virtual file system relies on the contract for every table.\<close>

locale vfs_tables =
  fixes tb :: "nat \<Rightarrow> ('x, 'p, 'q) fs_ops"
  assumes each: "file_system (tb k)"
begin

lemmas fs_lookup = file_system.lookup [OF each]
lemmas fs_mksb = file_system.mksb [OF each]

lemma ask_lookup_step: "ask_lookup tb p a s = Inr (r, s') \<Longrightarrow> \<exists>io. lookup_step io a s s'"
  by (auto simp: ask_lookup_def kbind_Inr_iff lookup_step_def [of _ a s s] split: if_splits option.splits dest!: fs_lookup)

lemma lookup_child_wf:
  assumes wf: "objects_ok s" and p: "dentries s p = Some e"
    and nm: "\<And>c. c \<in> set (d_subdirs e) \<Longrightarrow> map_option d_name (dentries s c) \<noteq> Some name"
    and r: "lookup_child tb p name s = Inr (c, s')"
  shows "objects_ok s' \<and> (c = 0 \<or> c \<in> dom (dentries s'))"
proof -
  let ?a = "next_addr s" and ?z = "zdentry\<lparr>d_name := name\<rparr>"
  let ?s0 = "s\<lparr>dentries := (dentries s)(?a \<mapsto> ?z), next_addr := Suc ?a\<rparr>"
  have fresh: "dentries s ?a = None" using wf_fresh(1) [OF wf] by simp
  have pa: "p \<noteq> ?a" using p fresh by auto
  from r obtain rr s1 where ask: "ask_lookup tb p ?a ?s0 = Inr (rr, s1)"
    and fin: "(if rr = 0 then kbind (kfree_dentry ?a) (\<lambda>_. kreturn 0)
       else kbind (upd_dentry ?a (\<lambda>d. d\<lparr>d_subdirs := [], d_parent := p\<rparr>)) (\<lambda>_.
          kbind (upd_dentry p (\<lambda>d. d\<lparr>d_subdirs := d_subdirs d @ [?a]\<rparr>)) (\<lambda>_. kreturn ?a))) s1 = Inr (c, s')"
    unfolding lookup_child_def by (elim kbind_Inr_E) (auto simp: new_dentry_def)
  obtain io where st: "lookup_step io ?a ?s0 s1" using ask_lookup_step [OF ask] by blast
  from wf_lookup_step [OF wf _ st] obtain d' where w: "objects_ok (s1\<lparr>dentries := dentries s\<rparr>)" "?a < next_addr s1"
    "dentries s1 = (dentries s)(?a \<mapsto> d')" "d_name d' = name" "d_inode d' = 0 \<or> d_inode d' \<in> dom (inodes s1)"
    by (auto simp: zdentry_def)
  show ?thesis
  proof (cases "rr = 0")
    case True
    then have "s' = s1\<lparr>dentries := dentries s\<rparr>" "c = 0" using fin w(3) fresh by (auto simp: kfree_dentry_def fun_upd_idem)
    then show ?thesis using w(1) by simp
  next
    case False
    then have s': "s' = linked p ?a d' (s1\<lparr>dentries := dentries s\<rparr>)" "c = ?a"
      using fin w(3) p pa by (auto simp: upd_dentry_def linked_def fun_upd_twist kbind_Inr_iff)
    have "objects_ok (linked p ?a d' (s1\<lparr>dentries := dentries s\<rparr>))"
      by (rule wf_linked [OF w(1), of p e]) (use p fresh w nm wfD(7) [OF wf] in \<open>simp_all\<close>)
    then show ?thesis using s' pa by (auto simp: linked_def)
  qed
qed

lemma resolve_child_wf:
  assumes wf: "objects_ok s" and r: "resolve_child tb p name s = Inr (c, s')"
  shows "objects_ok s' \<and> (c = 0 \<or> c \<in> dom (dentries s'))"
proof -
  from r obtain e x where e: "dentries s p = Some e" "find_child (d_subdirs e) name s = Inr (x, s)"
    "(if x = 0 then lookup_child tb p name else kreturn x) s = Inr (c, s')"
    by (auto simp: resolve_child_def kbind_Inr_iff dest: find_child_state)
  show ?thesis
  proof (cases "x = 0")
    case True
    have "0 \<notin> set (d_subdirs e)" using wf_child [OF wf e(1), of 0] wfD(1) [OF wf, of 0] by (auto simp: dentry_ok_def)
    with e True show ?thesis by (intro lookup_child_wf [OF wf e(1)]) (auto dest: find_child_none)
  next
    case False
    then show ?thesis using e wf wf_child [OF wf e(1)] find_child_found [OF e(2)] by auto
  qed
qed

lemma cross_mount_wf:
  assumes wf: "objects_ok s" and r: "cross_mount c s = Inr (d, s')"
  shows "s' = s \<and> d \<in> dom (dentries s)"
  using r wfD(3) [OF wf] by (fastforce simp: cross_mount_def kbind_Inr_iff sb_ok_def split: if_splits)

lemma resolve_loop_wf:
  assumes "objects_ok s" and "cur = 0 \<or> cur \<in> dom (dentries s)" and "resolve_loop tb tmp nxt cur p s = Inr (c, s')"
  shows "objects_ok s' \<and> (c = 0 \<or> c \<in> dom (dentries s'))"
  using assms
proof (induction "length (buf_str tmp)" arbitrary: tmp nxt cur p s rule: less_induct)
  case less
  from less.prems(3) obtain hn tmp' nxt' where n: "vfs_next_path tmp nxt True = Inr (hn, tmp', nxt')"
    by (subst (asm) resolve_loop.simps) (auto split: sum.splits)
  note res = less.prems(3) [unfolded resolve_loop.simps [of _ tmp] n, simplified]
  show ?case
  proof (cases hn)
    case False
    then show ?thesis using res less.prems by simp
  next
    case True
    note IH = less.hyps [OF next_path_shorter [OF n True]]
    have up: "d_parent d \<in> dom (dentries s)" if "dentries s cur = Some d" for d
      using wfD(1) [OF less.prems(1) that] by (simp add: dentry_ok_def)
    consider (stay) "resolve_loop tb tmp' nxt' cur p s = Inr (c, s')"
      | (up) d where "dentries s cur = Some d" "resolve_loop tb tmp' nxt' (d_parent d) (d_parent d) s = Inr (c, s')"
      | (child) x s1 where "resolve_child tb p (buf_str nxt') s = Inr (x, s1)"
          "(if x = 0 then kreturn 0 else kbind (cross_mount x) (\<lambda>c'. resolve_loop tb tmp' nxt' c' c')) s1 = Inr (c, s')"
      using res True by (auto simp: kbind_Inr_iff split: if_splits)
    then show ?thesis
    proof cases
      case stay then show ?thesis using IH less.prems by blast
    next
      case up then show ?thesis using IH less.prems(1) \<open>\<And>d. _ \<Longrightarrow> d_parent d \<in> _\<close> by blast
    next
      case child
      have w: "objects_ok s1" using resolve_child_wf [OF less.prems(1) child(1)] by simp
      show ?thesis
      proof (cases "x = 0")
        case False
        then obtain d where "cross_mount x s1 = Inr (d, s1)" "d \<in> dom (dentries s1)" "resolve_loop tb tmp' nxt' d d s1 = Inr (c, s')"
          using child(2) cross_mount_wf [OF w] by (auto simp: kbind_Inr_iff)
        then show ?thesis using IH w by blast
      qed (use child(2) w in simp)
    qed
  qed
qed

lemma resolve_path_wf:
  assumes "objects_ok s" and "vfs_resolve_path tb path s = Inr (c, s')"
  shows "objects_ok s' \<and> (c = 0 \<or> c \<in> dom (dentries s'))"
proof -
  from assms(2) consider "c = 0" "s' = s" | sb where "sbs s (vfs_root s) = Some sb" "c = s_root sb" "s' = s"
    | tmp nxt p where "resolve_loop tb tmp nxt 0 p s = Inr (c, s')"
    by (auto simp: vfs_resolve_path_def Let_def kbind_Inr_iff split: if_splits)
  then show ?thesis
  proof cases
    case 1 then show ?thesis using assms by simp
  next
    case 2 then show ?thesis using assms wfD(3) [OF assms(1) 2(1)] by (simp add: sb_ok_def)
  next
    case 3 then show ?thesis using resolve_loop_wf [OF assms(1) _ 3] by simp
  qed
qed

lemma mount_on_wf:
  assumes wf: "objects_ok s" and a: "a \<in> dom (dentries s)" and r: "mount_on tb fs a s = Inr (c, s')"
  shows "objects_ok s'"
proof -
  obtain sb s2 d i b rd where m: "fo_mksb (tb fs) fs s = Inr (sb, s2)" "dentries s2 a = Some d" "inodes s2 (d_inode d) = Some i"
    "sbs s2 sb = Some b" "dentries s2 (s_root b) = Some rd"
    "s' = s2\<lparr>inodes := (inodes s2)(d_inode d \<mapsto> i\<lparr>i_mountpoint := sb\<rparr>), dentries := (dentries s2)(s_root b \<mapsto> rd\<lparr>d_parent := a\<rparr>)\<rparr>"
    using r by (auto simp: mount_on_def kbind_Inr_iff upd_inode_def upd_dentry_def)
  have w2: "objects_ok s2" by (rule wf_mksb_step [OF wf fs_mksb [OF m(1)]])
  let ?s3 = "s2\<lparr>inodes := (inodes s2)(d_inode d \<mapsto> i\<lparr>i_mountpoint := sb\<rparr>)\<rparr>"
  have w3: "objects_ok ?s3" by (rule wf_set_mount [OF w2 m(3)]) (use m(4) in blast)
  have "s_root b \<notin> set (d_subdirs e)" if e: "dentries s2 x = Some e" for x e
    using mounted_root_no_child [OF wf fs_mksb [OF m(1)] _ m(4) e] wfD(3) [OF w2 m(4)] by (simp add: sb_ok_def)
  then show ?thesis using wf_set_parent [OF w3, of "s_root b" rd a] m by auto
qed

lemma mount_wf:
  assumes wf: "objects_ok s" and r: "vfs_mount_fs tb path name s = Inr (c, s')"
  shows "objects_ok s'"
proof (cases "path = [SLASH]")
  case True
  then obtain fs b s1 where b: "fo_mksb (tb fs) fs s = Inr (b, s1)" "s' = s1\<lparr>vfs_root := b\<rparr>"
    using r by (auto simp: vfs_mount_fs_def kbind_Inr_iff split: option.splits)
  have "objects_ok s1" using wf_mksb_step [OF wf fs_mksb [OF b(1)]] .
  moreover have "b = 0 \<or> b \<in> dom (sbs s1)" using fs_mksb [OF b(1)] by (auto simp: mksb_step_def mounted_def Let_def dest: file_stepD)
  ultimately show ?thesis unfolding b(2) objects_ok_def dentry_ok_def inode_ok_def sb_ok_def file_ok_def lists_ok_def by simp
next
  case False
  then obtain fs a s1 where a: "vfs_resolve_path tb path s = Inr (a, s1)" "(if a = 0 then kreturn (-1) else mount_on tb fs a) s1 = Inr (c, s')"
    using r by (auto simp: vfs_mount_fs_def kbind_Inr_iff split: option.splits)
  then show ?thesis using resolve_path_wf [OF wf a(1)] mount_on_wf [of s1 a fs c s'] by (auto split: if_splits)
qed

lemma open_at_wf:
  assumes wf: "objects_ok s" and r: "open_at tb dp f s = Inr (c, s')"
  shows "objects_ok s'"
proof -
  from r obtain d i fs rc s2 where o: "dentries s dp = Some d" "inodes s (d_inode d) = Some i" "i_fops i = Some fs"
    and op: "fo_open (tb fs) (d_inode d) (next_addr s)
         (s\<lparr>files := (files s)(next_addr s \<mapsto> f\<lparr>f_dentry := dp, f_count := 1, f_inode := d_inode d, f_ops := i_fops i\<rparr>),
            next_addr := Suc (next_addr s)\<rparr>) = Inr (rc, s2)" and s': "s' = add_open_file (next_addr s) s2"
    by (auto simp: open_at_def kbind_Inr_iff new_file_def split: option.splits)
  let ?f = "f\<lparr>f_dentry := dp, f_count := 1, f_inode := d_inode d, f_ops := i_fops i\<rparr>"
  have w1: "objects_ok (s\<lparr>files := (files s)(next_addr s \<mapsto> ?f), next_addr := Suc (next_addr s)\<rparr>)"
    by (rule wf_new_file [OF wf]) (use o in auto)
  note st = file_system.open_op [OF each op]
  have "next_addr s \<notin> set (open_files s t)" for t using wfD(5) [OF wf] wf_fresh(4) [OF wf, of "next_addr s"] by (auto simp: lists_ok_def)
  then show ?thesis unfolding s' add_open_file_def
    using wf_add_open [OF wf_file_step [OF st w1]] file_step_files(1) [OF st] file_stepD(7,8) [OF st] by auto
qed

lemma open_target_state: "open_target a s = Inr (dp, s') \<Longrightarrow> s' = s"
  by (auto simp: open_target_def kbind_Inr_iff split: if_splits)

lemma open_wf:
  assumes wf: "objects_ok s" and r: "vfs_open tb path mode s = Inr (c, s')"
  shows "objects_ok s'"
proof -
  from r obtain a s1 where a: "vfs_resolve_path tb path s = Inr (a, s1)"
    and "s' = s1 \<or> (\<exists>dp f h. open_at tb dp f (s1\<lparr>vfs_next_handle_count := h\<rparr>) = Inr (c, s'))"
    by (auto simp: vfs_open_def kbind_Inr_iff split: if_splits dest!: open_target_state) blast
  moreover have "objects_ok (s1\<lparr>vfs_next_handle_count := h\<rparr>)" for h using resolve_path_wf [OF wf a] by simp
  ultimately show ?thesis using resolve_path_wf [OF wf a] open_at_wf by blast
qed

lemma open_console_wf:
  assumes wf: "objects_ok s" and r: "vfs_open_console tb path fh s = Inr (c, s')"
  shows "objects_ok s'"
proof -
  from r obtain a s1 where a: "vfs_resolve_path tb path s = Inr (a, s1)"
    and "s' = s1 \<or> (\<exists>dp f. open_at tb dp f s1 = Inr (c, s'))"
    by (auto simp: vfs_open_console_def kbind_Inr_iff split: if_splits dest!: open_target_state)
  then show ?thesis using resolve_path_wf [OF wf a] open_at_wf by blast
qed

lemma find_file_state: "find_file P as s = Inr (fd, s') \<Longrightarrow> s' = s"
  by (induction as) (auto simp: kbind_Inr_iff split: if_splits)

lemma find_handle_state: "find_handle fh s = Inr (fd, s') \<Longrightarrow> s' = s"
  by (auto simp: find_handle_def dest: find_file_state)

lemma close_file_wf:
  assumes wf: "objects_ok s" and r: "close_file tb fd s = Inr (c, s')"
  shows "objects_ok s'"
proof -
  from r obtain f s1 where f: "files s fd = Some f" "(case f_ops f of None \<Rightarrow> kreturn (-1) | Some fs \<Rightarrow> fo_close (tb fs) (f_inode f) fd) s = Inr (c, s1)"
    "s' = remove_open_file fd s1\<lparr>files := (files (remove_open_file fd s1))(fd := None)\<rparr>"
    by (auto simp: close_file_def kfree_file_def kbind_Inr_iff)
  have "file_step s s1" using f(2) file_system.close_op [OF each] by (auto split: option.splits)
  then have "objects_ok s1" using wf_file_step wf by blast
  moreover have "files (remove_open_file fd s1) = files s1" by (simp add: remove_open_file_def)
  ultimately show ?thesis using wf_remove_file f(3) by metis
qed

lemma close_wf:
  assumes wf: "objects_ok s" and r: "vfs_close tb fh s = Inr (c, s')"
  shows "objects_ok s'"
proof -
  have w: "objects_ok (s\<lparr>files := (files s)(fd \<mapsto> f\<lparr>f_count := f_count f - 1\<rparr>)\<rparr>)" if "files s fd = Some f" for fd f
    using wf_upd_file [OF wf that] by simp
  from r obtain fd f where "s' = s \<or> files s fd = Some f \<and>
      (s' = s\<lparr>files := (files s)(fd \<mapsto> f\<lparr>f_count := f_count f - 1\<rparr>)\<rparr> \<or>
       close_file tb fd (s\<lparr>files := (files s)(fd \<mapsto> f\<lparr>f_count := f_count f - 1\<rparr>)\<rparr>) = Inr (c, s'))"
    by (auto simp: vfs_close_def upd_file_def kbind_Inr_iff dest!: find_handle_state split: if_splits)
  then show ?thesis using w wf close_file_wf by blast
qed

lemma close_console_wf: "objects_ok s \<Longrightarrow> vfs_close_console tb fh s = Inr (c, s') \<Longrightarrow> objects_ok s'"
  using close_file_wf by (auto simp: vfs_close_console_def kbind_Inr_iff dest!: find_file_state split: if_splits)

lemma read_step: "vfs_read tb fh len s = Inr (c, s') \<Longrightarrow> file_step s s'"
  by (auto simp: vfs_read_def elim!: kbind_Inr_E dest!: find_handle_state split: if_splits option.splits)
     (erule file_system.read_op [OF each])

lemma write_step: "vfs_write tb fh len buff s = Inr (c, s') \<Longrightarrow> file_step s s'"
  by (auto simp: vfs_write_def elim!: kbind_Inr_E dest!: find_handle_state split: if_splits option.splits)
     (erule file_system.write_op [OF each])

lemma lseek_step: "vfs_lseek tb fh offset wence s = Inr (c, s') \<Longrightarrow> file_step s s'"
  by (auto simp: vfs_lseek_def elim!: kbind_Inr_E dest!: find_handle_state split: if_splits option.splits)
     (erule (1) file_system.lseek_op [OF each])

lemma iterate_step:
  assumes "vfs_iterate tb fh s = Inr (c, s')"
  shows "file_step s s'"
proof -
  from assms obtain fs iter io fd where "s' = s \<or> fo_iterate (tb fs) = Some iter \<and> iter io fd None s = Inr (c, s')"
    by (auto simp: vfs_iterate_def elim!: kbind_Inr_E dest!: find_handle_state split: if_splits option.splits) blast
  then show ?thesis using file_system.iterate_op [OF each, of fs iter io fd None s c s'] by auto
qed

lemmas use_steps = read_step write_step lseek_step iterate_step

lemma copy_loop_wf: "objects_ok s \<Longrightarrow> vfs_copy_loop dest src as s = Inr (u, s') \<Longrightarrow> objects_ok s'"
proof (induction as arbitrary: s)
  case (Cons a as)
  then obtain f where f: "files s a = Some f" by (auto simp: kbind_Inr_iff)
  let ?g = "f\<lparr>f_count := f_count f + 1\<rparr>"
  let ?s1 = "s\<lparr>files := (files s)(a \<mapsto> ?g)\<rparr>"
  let ?s2 = "?s1\<lparr>files := (files ?s1)(next_addr ?s1 \<mapsto> ?g\<lparr>f_pdata := None\<rparr>), next_addr := Suc (next_addr ?s1)\<rparr>"
  have w1: "objects_ok ?s1" using wf_upd_file [OF Cons.prems(1) f] by simp
  have w2: "objects_ok ?s2" using wf_new_file [OF w1, of "?g\<lparr>f_pdata := None\<rparr>"] wfD(4) [OF Cons.prems(1) f] by (simp add: file_ok_def)
  have "next_addr s \<notin> set (open_files s t)" for t
    using wfD(5) [OF Cons.prems(1)] wf_fresh(4) [OF Cons.prems(1), of "next_addr s"] by (auto simp: lists_ok_def)
  then have "objects_ok (?s2\<lparr>open_files := (open_files ?s2)(dest := open_files ?s2 dest @ [next_addr s])\<rparr>)"
    using wf_add_open [OF w2, of "next_addr s" dest] by simp
  then show ?case using Cons f by (auto simp: upd_file_def new_file_def split: if_splits)
qed simp

text \<open>So no call breaks the objects.\<close>

lemma run_Inr: "map_sum id snd r = Inr s' \<longleftrightarrow> (\<exists>c. r = Inr (c, s'))"
  by (cases r) auto

lemma call_objects:
  assumes wf: "objects_ok s" and r: "vfs_call tb c s = Inr s'"
  shows "objects_ok s'"
proof (cases c)
  case (Mount path name)
  then show ?thesis using r mount_wf [OF wf] by (auto simp: run_Inr)
next
  case (Open path mode)
  then show ?thesis using r open_wf [OF wf] by (auto simp: run_Inr)
next
  case (Close fh)
  then show ?thesis using r close_wf [OF wf] by (auto simp: run_Inr)
next
  case (Read fh len)
  then show ?thesis using r wf_file_step [OF use_steps(1) wf] by (auto simp: run_Inr)
next
  case (Write fh len buff)
  then show ?thesis using r wf_file_step [OF use_steps(2) wf] by (auto simp: run_Inr)
next
  case (Lseek fh offset wence)
  then show ?thesis using r wf_file_step [OF use_steps(3) wf] by (auto simp: run_Inr)
next
  case (Iterate fh)
  then show ?thesis using r wf_file_step [OF use_steps(4) wf] by (auto simp: run_Inr)
next
  case (OpenConsole path fh)
  then show ?thesis using r open_console_wf [OF wf] by (auto simp: run_Inr)
next
  case (CloseConsole fh)
  then show ?thesis using r close_console_wf [OF wf] by (auto simp: run_Inr)
next
  case (Copy dest src)
  then show ?thesis using r copy_loop_wf [OF wf] by (auto simp: run_Inr vfs_copy_def)
qed (use wf r in auto)

end

end
