(* ===== verification/Term.thy ===== *)
theory Term
  imports Prelude
begin

text \<open>
  The terminal, \<^verbatim>\<open>src/kernel/src/device/display/term.c\<close>: the cursor, the colours and the calls it makes of the
  framebuffer, in order.  A glyph is one event at the pixel where it is drawn; the framebuffer
  itself is not part of the model.  Every glyph stays on the screen.
\<close>

section \<open>Definitions\<close>

datatype fb_event =
    DrawGlyph int int u8 u32 u32 bool
  | FillCell int int u32
  | Scroll int
  | Flush
  | FlushRegion int int
  | ClearScreen

record terminal =
  ch_x :: int
  ch_y :: int
  ch_width :: int
  ch_height :: int
  font_width :: int
  font_height :: int
  fgcolor :: u32
  bgcolor :: u32
  prev_fgcolor :: u32
  ch_x_prev :: int
  ch_y_prev :: int
  bold :: bool
  fb :: "fb_event list"

definition fb_call :: "fb_event \<Rightarrow> terminal \<Rightarrow> terminal" where
  "fb_call e g = g\<lparr>fb := fb g @ [e]\<rparr>"

definition draw_glyph :: "int \<Rightarrow> int \<Rightarrow> u8 \<Rightarrow> u32 \<Rightarrow> u32 \<Rightarrow> terminal \<Rightarrow> terminal" where
  "draw_glyph px py ch fg bg g = fb_call (DrawGlyph px py ch fg bg (bold g)) g"

definition clear_cell :: "int \<Rightarrow> int \<Rightarrow> terminal \<Rightarrow> terminal" where
  "clear_cell cx cy g = fb_call (FillCell (cx * font_width g) (cy * font_height g) (bgcolor g)) g"

definition advance_line :: "terminal \<Rightarrow> terminal" where
  "advance_line g = fb_call (Scroll (font_height g)) (g\<lparr>ch_x_prev := 0, ch_y_prev := 0, ch_x := 0, ch_y := ch_y g - 1\<rparr>)"

text \<open>\<open>w\<close> and \<open>h\<close> are the pixels of the framebuffer, \<open>fw\<close> and \<open>fh\<close> those of a glyph.\<close>

definition term_init :: "int \<Rightarrow> int \<Rightarrow> int \<Rightarrow> int \<Rightarrow> terminal \<Rightarrow> terminal" where
  "term_init w h fw fh g =
     g\<lparr>font_width := fw, font_height := fh, ch_width := w div fw, ch_height := h div fh,
       bgcolor := 0, fgcolor := 0xffffff, bold := False\<rparr>"

text \<open>A character that is no tabulator.\<close>

definition put_plain :: "u32 \<Rightarrow> u8 \<Rightarrow> terminal \<Rightarrow> terminal" where
  "put_plain color ch g =
     (let fg = (if color \<noteq> 0 then color else fgcolor g);
          g1 = (if ch = 0x0A then g\<lparr>ch_x := 0, ch_y := ch_y g + 1\<rparr>
                else if ch_x g \<ge> ch_width g then g\<lparr>ch_x := 0, ch_y := ch_y g + 1\<rparr> else g);
          g2 = (if ch_y g1 \<ge> ch_height g1 then advance_line g1 else g1)
      in if ch = 0x0A then g2
         else let g3 = draw_glyph (ch_x g2 * font_width g2) (ch_y g2 * font_height g2) ch fg (bgcolor g2) g2
              in g3\<lparr>ch_x := ch_x g3 + 1\<rparr>)"

definition term_putch :: "u32 \<Rightarrow> u8 \<Rightarrow> terminal \<Rightarrow> terminal" where
  "term_putch color ch g =
     (if ch = 0x09 then (put_plain color 0x20 ^^ nat (8 - ch_x g mod 8)) g else put_plain color ch g)"

definition term_write_n :: "bytes \<Rightarrow> terminal \<Rightarrow> terminal" where
  "term_write_n s g = fold (term_putch 0) s g"

definition term_write :: "bytes \<Rightarrow> terminal \<Rightarrow> terminal" where
  "term_write s g = fold (term_putch 0) (takeWhile (\<lambda>c. c \<noteq> 0) s) g"

definition term_back :: "terminal \<Rightarrow> terminal" where
  "term_back g =
     (if ch_x g > 0 then let g1 = g\<lparr>ch_x := ch_x g - 1\<rparr> in clear_cell (ch_x g1) (ch_y g1) g1
      else if ch_y g > 0 then let g1 = g\<lparr>ch_x := ch_width g - 1, ch_y := ch_y g - 1\<rparr> in clear_cell (ch_x g1) (ch_y g1) g1
      else g)"

definition term_newline :: "terminal \<Rightarrow> terminal" where
  "term_newline g =
     (let g1 = g\<lparr>ch_x := 0, ch_y := ch_y g + 1\<rparr> in if ch_y g1 \<ge> ch_height g1 then advance_line g1 else g1)"

definition term_flush :: "terminal \<Rightarrow> terminal" where
  "term_flush g = fb_call Flush g"

definition term_clear :: "terminal \<Rightarrow> terminal" where
  "term_clear g = term_flush (fb_call ClearScreen (g\<lparr>ch_x := 0, ch_y := 0, ch_x_prev := 0, ch_y_prev := 0\<rparr>))"

definition term_refresh :: "terminal \<Rightarrow> terminal" where
  "term_refresh g =
     (if ch_y_prev g = ch_y g \<and> ch_x_prev g = ch_x g then g
      else let rb = font_height g * font_width g * ch_width g * 4
           in (fb_call (FlushRegion (ch_y_prev g * rb) (ch_y g * rb + rb)) g)\<lparr>ch_y_prev := ch_y g, ch_x_prev := ch_x g\<rparr>)"

definition term_set_fgcolor :: "u32 \<Rightarrow> terminal \<Rightarrow> terminal" where "term_set_fgcolor c g = g\<lparr>fgcolor := c\<rparr>"
definition term_set_bgcolor :: "u32 \<Rightarrow> terminal \<Rightarrow> terminal" where "term_set_bgcolor c g = g\<lparr>bgcolor := c\<rparr>"
definition term_set_bold :: "bool \<Rightarrow> terminal \<Rightarrow> terminal" where "term_set_bold b g = g\<lparr>bold := b\<rparr>"

definition term_set_fgcolor_prev :: "u32 \<Rightarrow> terminal \<Rightarrow> terminal" where
  "term_set_fgcolor_prev c g = g\<lparr>prev_fgcolor := fgcolor g, fgcolor := c\<rparr>"

definition term_restore_fgcolor :: "terminal \<Rightarrow> terminal" where
  "term_restore_fgcolor g = g\<lparr>fgcolor := prev_fgcolor g, prev_fgcolor := 0\<rparr>"

section \<open>On the screen\<close>

text \<open>The whole glyph or cell lies in the grid.\<close>

fun event_ok :: "terminal \<Rightarrow> fb_event \<Rightarrow> bool" where
  "event_ok g (DrawGlyph x y ch fg bg b) \<longleftrightarrow>
     0 \<le> x \<and> x + font_width g \<le> ch_width g * font_width g \<and> 0 \<le> y \<and> y + font_height g \<le> ch_height g * font_height g"
| "event_ok g (FillCell x y c) \<longleftrightarrow>
     0 \<le> x \<and> x + font_width g \<le> ch_width g * font_width g \<and> 0 \<le> y \<and> y + font_height g \<le> ch_height g * font_height g"
| "event_ok g e \<longleftrightarrow> True"

definition term_ok :: "terminal \<Rightarrow> bool" where
  "term_ok g \<longleftrightarrow>
     0 < ch_width g \<and> 0 < ch_height g \<and> 0 \<le> font_width g \<and> 0 \<le> font_height g \<and>
     0 \<le> ch_x g \<and> ch_x g \<le> ch_width g \<and> 0 \<le> ch_y g \<and> ch_y g < ch_height g \<and> (\<forall>e \<in> set (fb g). event_ok g e)"

lemma event_ok_cong: "event_ok g e = event_ok g' e"
  if "font_width g = font_width g'" "font_height g = font_height g'" "ch_width g = ch_width g'" "ch_height g = ch_height g'"
  using that by (cases e) auto

lemma cell_ok:
  fixes n w f :: int
  assumes "0 \<le> n" and "n < w" and "0 \<le> f"
  shows "n * f + f \<le> w * f"
proof -
  have "(n + 1) * f \<le> w * f" by (rule mult_right_mono) (use assms in auto)
  then show ?thesis by (simp add: algebra_simps)
qed

text \<open>Updates of the cursor, the colours and the previous position leave the events alone.\<close>

lemma term_ok_cursor:
  assumes "term_ok g" and "0 \<le> x" "x \<le> ch_width g" and "0 \<le> y" "y < ch_height g"
  shows "term_ok (g\<lparr>ch_x := x, ch_y := y\<rparr>)"
  using assms event_ok_cong [of g "g\<lparr>ch_x := x, ch_y := y\<rparr>"] by (auto simp: term_ok_def)

lemma term_ok_same:
  assumes "term_ok g" and "fb h = fb g" "ch_x h = ch_x g" "ch_y h = ch_y g" "ch_width h = ch_width g" "ch_height h = ch_height g"
    "font_width h = font_width g" "font_height h = font_height g"
  shows "term_ok h"
  using assms event_ok_cong [of g h] by (auto simp: term_ok_def)

lemma term_ok_fb_call:
  assumes "term_ok g" and "event_ok g e"
  shows "term_ok (fb_call e g)"
  using assms event_ok_cong [of g "g\<lparr>fb := fb g @ [e]\<rparr>"] by (auto simp: term_ok_def fb_call_def)

text \<open>So do the two ways a line is advanced.\<close>

lemma term_ok_advance:
  assumes "term_ok g" and "0 \<le> ch_y g"
  shows "term_ok (let g1 = g\<lparr>ch_x := 0, ch_y := ch_y g + 1\<rparr> in if ch_y g1 \<ge> ch_height g1 then advance_line g1 else g1)"
proof (cases "ch_y g + 1 \<ge> ch_height g")
  case True
  have e: "advance_line (g\<lparr>ch_x := 0, ch_y := ch_y g + 1\<rparr>) =
      fb_call (Scroll (font_height g)) ((g\<lparr>ch_x := 0, ch_y := ch_y g\<rparr>)\<lparr>ch_x_prev := 0, ch_y_prev := 0\<rparr>)"
    by (cases g) (simp add: advance_line_def fb_call_def)
  have "term_ok (g\<lparr>ch_x := 0, ch_y := ch_y g\<rparr>)" using assms by (intro term_ok_cursor) (auto simp: term_ok_def)
  then have "term_ok ((g\<lparr>ch_x := 0, ch_y := ch_y g\<rparr>)\<lparr>ch_x_prev := 0, ch_y_prev := 0\<rparr>)"
    by (rule term_ok_same) simp_all
  then show ?thesis using True unfolding Let_def by (simp add: e) (rule term_ok_fb_call, simp_all)
next
  case False
  then show ?thesis using assms term_ok_cursor [OF assms(1), of 0 "ch_y g + 1"] by (simp add: term_ok_def)
qed

definition next_line :: "terminal \<Rightarrow> terminal" where
  "next_line g = (let g1 = g\<lparr>ch_x := 0, ch_y := ch_y g + 1\<rparr> in if ch_y g1 \<ge> ch_height g1 then advance_line g1 else g1)"

lemma next_line_simps:
  "ch_width (next_line g) = ch_width g" "ch_height (next_line g) = ch_height g" "ch_x (next_line g) = 0"
  by (auto simp: next_line_def Let_def advance_line_def fb_call_def)

lemma next_line_ok: "term_ok g \<Longrightarrow> term_ok (next_line g)"
  using term_ok_advance [of g] by (simp add: next_line_def term_ok_def)

lemma put_plain_alt:
  assumes "term_ok g"
  shows "put_plain color ch g =
     (if ch = 0x0A then next_line g
      else let g2 = (if ch_x g \<ge> ch_width g then next_line g else g);
               g3 = draw_glyph (ch_x g2 * font_width g2) (ch_y g2 * font_height g2) ch (if color \<noteq> 0 then color else fgcolor g) (bgcolor g2) g2
           in g3\<lparr>ch_x := ch_x g3 + 1\<rparr>)"
  using assms by (auto simp: put_plain_def next_line_def Let_def term_ok_def)

lemma put_plain_ok:
  assumes ok: "term_ok g"
  shows "term_ok (put_plain color ch g)"
proof (cases "ch = 0x0A")
  case True
  then show ?thesis using next_line_ok [OF ok] put_plain_alt [OF ok] by simp
next
  case False
  define g2 where "g2 = (if ch_x g \<ge> ch_width g then next_line g else g)"
  define g3 where "g3 = draw_glyph (ch_x g2 * font_width g2) (ch_y g2 * font_height g2) ch (if color \<noteq> 0 then color else fgcolor g) (bgcolor g2) g2"
  have g2: "term_ok g2" "ch_x g2 < ch_width g2"
    using next_line_ok [OF ok] ok by (auto simp: g2_def next_line_simps term_ok_def)
  have "term_ok g3" unfolding g3_def draw_glyph_def
    by (rule term_ok_fb_call) (use g2 in \<open>auto simp: term_ok_def intro: cell_ok\<close>)
  moreover have "ch_x g3 = ch_x g2" "ch_y g3 = ch_y g2" "ch_width g3 = ch_width g2" "ch_height g3 = ch_height g2"
    by (simp_all add: g3_def draw_glyph_def fb_call_def)
  ultimately have "term_ok (g3\<lparr>ch_x := ch_x g3 + 1, ch_y := ch_y g3\<rparr>)"
    using g2 by (intro term_ok_cursor) (auto simp: term_ok_def)
  moreover have "g3\<lparr>ch_x := ch_x g3 + 1, ch_y := ch_y g3\<rparr> = g3\<lparr>ch_x := ch_x g3 + 1\<rparr>" by (cases g3) simp
  ultimately show ?thesis using put_plain_alt [OF ok, of color ch] False unfolding g3_def g2_def by (simp add: Let_def)
qed

lemma term_putch_ok: "term_ok g \<Longrightarrow> term_ok (term_putch color ch g)"
proof -
  assume ok: "term_ok g"
  have "term_ok ((put_plain color 0x20 ^^ n) g)" for n by (induction n) (simp_all add: ok put_plain_ok)
  then show ?thesis using put_plain_ok [OF ok] by (simp add: term_putch_def)
qed

lemma term_writes_ok: "term_ok g \<Longrightarrow> term_ok (term_write_n s g)" "term_ok g \<Longrightarrow> term_ok (term_write s g)"
proof -
  have "term_ok g \<Longrightarrow> term_ok (fold (term_putch 0) xs g)" for xs by (induction xs arbitrary: g) (simp_all add: term_putch_ok)
  then show "term_ok g \<Longrightarrow> term_ok (term_write_n s g)" "term_ok g \<Longrightarrow> term_ok (term_write s g)" by (simp_all add: term_write_n_def term_write_def)
qed

lemma term_back_ok:
  assumes ok: "term_ok g"
  shows "term_ok (term_back g)"
proof -
  have c: "term_ok (clear_cell (ch_x h) (ch_y h) h)" if "term_ok h" "ch_x h < ch_width h" for h
    unfolding clear_cell_def by (rule term_ok_fb_call) (use that in \<open>auto simp: term_ok_def intro: cell_ok\<close>)
  have a: "term_ok (g\<lparr>ch_x := ch_x g - 1\<rparr>)" if "ch_x g > 0"
    by (rule term_ok_same [OF term_ok_cursor [OF ok, of "ch_x g - 1" "ch_y g"]]) (use ok that in \<open>auto simp: term_ok_def\<close>)
  have b: "term_ok (g\<lparr>ch_x := ch_width g - 1, ch_y := ch_y g - 1\<rparr>)" if "ch_y g > 0"
    by (rule term_ok_cursor) (use ok that in \<open>auto simp: term_ok_def\<close>)
  have w: "ch_x g \<le> ch_width g" using ok by (simp add: term_ok_def)
  show ?thesis unfolding term_back_def Let_def
    using ok w a b c [of "g\<lparr>ch_x := ch_x g - 1\<rparr>"] c [of "g\<lparr>ch_x := ch_width g - 1, ch_y := ch_y g - 1\<rparr>"] by simp
qed

lemma term_frame_ok:
  assumes "term_ok g"
  shows "term_ok (term_newline g)" "term_ok (term_flush g)" "term_ok (term_refresh g)" "term_ok (term_set_fgcolor_prev c g)"
    "term_ok (term_restore_fgcolor g)" "term_ok (term_clear g)"
proof -
  show "term_ok (term_newline g)" using next_line_ok [OF assms] by (simp add: next_line_def term_newline_def)
  show "term_ok (term_flush g)" unfolding term_flush_def by (rule term_ok_fb_call [OF assms]) simp
  show "term_ok (term_set_fgcolor_prev c g)" "term_ok (term_restore_fgcolor g)"
    by (rule term_ok_same [OF assms]; simp add: term_set_fgcolor_prev_def term_restore_fgcolor_def)+
  let ?z = "g\<lparr>ch_x := 0, ch_y := 0\<rparr>"
  have z: "term_ok ?z" by (rule term_ok_cursor [OF assms]) (use assms in \<open>auto simp: term_ok_def\<close>)
  have "term_ok (?z\<lparr>ch_x_prev := 0, ch_y_prev := 0\<rparr>)" by (rule term_ok_same [OF z]) simp_all
  then show "term_ok (term_clear g)" unfolding term_clear_def term_flush_def by (intro term_ok_fb_call) simp_all
  have r: "term_ok (fb_call (FlushRegion a b) g)" for a b by (rule term_ok_fb_call [OF assms]) simp
  have "term_ok ((fb_call (FlushRegion a b) g)\<lparr>ch_y_prev := ch_y g, ch_x_prev := ch_x g\<rparr>)" for a b
    by (rule term_ok_same [OF r]) simp_all
  then show "term_ok (term_refresh g)" using assms by (simp add: term_refresh_def Let_def)
qed

end
