(* ===== verification/Keyboard.thy ===== *)
theory Keyboard
  imports Prelude
begin

text \<open>
  The keyboard driver: the tables of \<^verbatim>\<open>src/kernel/src/device/keyboard/keycode.c\<close> and the scan code state
  machine of \<^verbatim>\<open>keyboard.c\<close>, from the byte read from the controller to the event that is published.
\<close>

section \<open>Tables\<close>

definition KEY_RESERVED :: u16 where "KEY_RESERVED = 0"
definition KEY_LEFTCTRL :: u8 where "KEY_LEFTCTRL = 29"
definition KEY_LEFTSHIFT :: u8 where "KEY_LEFTSHIFT = 42"
definition KEY_RIGHTSHIFT :: u8 where "KEY_RIGHTSHIFT = 54"
definition KEY_LEFTALT :: u8 where "KEY_LEFTALT = 56"
definition KEY_CAPSLOCK :: u16 where "KEY_CAPSLOCK = 58"
definition KEY_NUMLOCK :: u16 where "KEY_NUMLOCK = 69"
definition KEY_SCROLLLOCK :: u16 where "KEY_SCROLLLOCK = 70"
definition KEY_RIGHTCTRL :: u8 where "KEY_RIGHTCTRL = 88"
definition KEY_RIGHTALT :: u8 where "KEY_RIGHTALT = 89"

definition scancode_to_keycode :: "u16 list" where
  "scancode_to_keycode =
    [0, 1, 2, 3, 4, 5, 6, 7, 8, 9, 10, 11, 12, 13, 14, 15,
     16, 17, 18, 19, 20, 21, 22, 23, 24, 25, 86, 87, 28, 29, 30, 31,
     32, 33, 34, 35, 36, 37, 38, 39, 40, 41, 42, 43, 44, 45, 46, 47,
     48, 49, 50, 51, 52, 53, 54, 0, 56, 57, 58, 59, 60, 61, 62, 63,
     64, 65, 66, 67, 68, 69, 70, 71, 72, 73, 74, 75, 76, 77, 78, 79,
     80, 81, 82, 83, 0, 0, 0, 84, 85, 0, 0, 0, 0, 0, 0, 0,
     0, 0, 0, 0, 0, 0, 0, 0, 0, 0, 0, 0, 0, 0, 0, 0,
     0, 0, 0, 0, 0, 0, 0, 0, 0, 0, 0, 0, 0, 0, 0, 0]"

text \<open>For every key code, the character without and with the shift key.\<close>

definition key_ascii :: "(u8 \<times> u8) list" where
  "key_ascii =
    [(0, 0), (27, 0), (49, 33), (50, 64), (51, 35), (52, 36), (53, 37), (54, 94),
     (55, 38), (56, 42), (57, 40), (48, 41), (45, 95), (61, 43), (8, 0), (9, 0),
     (113, 81), (119, 87), (101, 69), (114, 82), (116, 84), (121, 89), (117, 85), (105, 73),
     (111, 79), (112, 80), (91, 123), (93, 125), (10, 0), (0, 0), (97, 65), (115, 83),
     (100, 68), (102, 70), (103, 71), (104, 72), (106, 74), (107, 75), (108, 76), (59, 58),
     (39, 34), (96, 126), (0, 0), (92, 124), (122, 90), (120, 88), (99, 67), (118, 86),
     (98, 66), (110, 78), (109, 77), (44, 60), (46, 62), (47, 63), (0, 0), (42, 0),
     (0, 0), (32, 0), (0, 0), (0, 0), (0, 0), (0, 0), (0, 0), (0, 0),
     (0, 0), (0, 0), (0, 0), (0, 0), (0, 0), (0, 0), (0, 0), (0, 0),
     (0, 0), (0, 0), (45, 0), (0, 0), (0, 0), (0, 0), (43, 0), (0, 0),
     (0, 0), (0, 0), (0, 0), (0, 0), (0, 0), (0, 0), (0, 0), (0, 0),
     (0, 0), (0, 0), (0, 0), (0, 0), (0, 0), (0, 0), (0, 0), (0, 0),
     (0, 0), (0, 0), (0, 0), (0, 0), (0, 0), (0, 0), (0, 0), (0, 0),
     (0, 0), (0, 0), (0, 0), (0, 0), (0, 0), (0, 0), (0, 0), (0, 0),
     (0, 0), (0, 0), (0, 0), (0, 0), (0, 0), (0, 0), (0, 0), (0, 0),
     (0, 0), (0, 0), (0, 0), (0, 0), (0, 0), (0, 0), (0, 0), (0, 0),
     (0, 0), (0, 0), (0, 0), (0, 0)]"

definition extended_scancode_to_keycode :: "u16 list" where
  "extended_scancode_to_keycode = (replicate 128 0)[0x1D := ucast KEY_RIGHTCTRL, 0x38 := ucast KEY_RIGHTALT]"

definition keycode_get_by_scancode :: "u8 \<Rightarrow> u16 option" where
  "keycode_get_by_scancode scancode =
     (if unat scancode < length scancode_to_keycode then Some (scancode_to_keycode ! unat scancode) else None)"

definition keycode_get_keypad_by_scancode :: "u8 \<Rightarrow> u16 option" where
  "keycode_get_keypad_by_scancode scancode =
     (if unat scancode < length extended_scancode_to_keycode
      then let keycode = extended_scancode_to_keycode ! unat scancode
           in Some (if keycode = 0 then KEY_RESERVED else keycode)
      else None)"

definition keyecode_to_ascii :: "u8 \<Rightarrow> bool \<Rightarrow> u8 option" where
  "keyecode_to_ascii keycode isupper =
     (if unat keycode < length key_ascii
      then Some (if isupper then snd (key_ascii ! unat keycode) else fst (key_ascii ! unat keycode))
      else None)"

section \<open>Scan codes\<close>

record keyboard =
  is_extended :: bool
  capslock_state :: bool
  scrolllock_state :: bool
  numlock_state :: bool
  keystate_lctrl :: bool
  keystate_rctrl :: bool
  keystate_lshift :: bool
  keystate_rshift :: bool
  keystate_lalt :: bool
  keystate_ralt :: bool

record keyboard_data =
  key_state_ctrl :: bool
  key_state_shift :: bool
  key_state_alt :: bool
  key_code :: u8
  key_pressed :: bool

definition set_key_state :: "u8 \<Rightarrow> bool \<Rightarrow> keyboard \<Rightarrow> keyboard" where
  "set_key_state keycode ispressed k =
     (if keycode = KEY_LEFTCTRL then k\<lparr>keystate_lctrl := ispressed\<rparr>
      else if keycode = KEY_RIGHTCTRL then k\<lparr>keystate_rctrl := ispressed\<rparr>
      else if keycode = KEY_LEFTSHIFT then k\<lparr>keystate_lshift := ispressed\<rparr>
      else if keycode = KEY_RIGHTSHIFT then k\<lparr>keystate_rshift := ispressed\<rparr>
      else if keycode = KEY_LEFTALT then k\<lparr>keystate_lalt := ispressed\<rparr>
      else if keycode = KEY_RIGHTALT then k\<lparr>keystate_ralt := ispressed\<rparr>
      else k)"

definition toggle_lock :: "u16 \<Rightarrow> keyboard \<Rightarrow> keyboard" where
  "toggle_lock keycode k =
     (if keycode = KEY_CAPSLOCK then k\<lparr>capslock_state := \<not> capslock_state k\<rparr>
      else if keycode = KEY_SCROLLLOCK then k\<lparr>scrolllock_state := \<not> scrolllock_state k\<rparr>
      else if keycode = KEY_NUMLOCK then k\<lparr>numlock_state := \<not> numlock_state k\<rparr>
      else k)"

text \<open>The event that is published, if any; \<open>None\<close> is a table access out of range.\<close>

definition process_scan_code :: "u8 \<Rightarrow> keyboard \<Rightarrow> (keyboard_data option \<times> keyboard) option" where
  "process_scan_code scancode k =
     (if scancode = 0xe0 then Some (None, k\<lparr>is_extended := True\<rparr>)
      else let is_pressed = (scancode AND 0x80 = 0); base_scancode = scancode AND 0x7f
      in case (if is_extended k then keycode_get_keypad_by_scancode base_scancode else keycode_get_by_scancode base_scancode) of
           None \<Rightarrow> None
         | Some keycode \<Rightarrow>
             let k1 = k\<lparr>is_extended := False\<rparr>
             in if keycode = KEY_RESERVED then Some (None, k1)
                else let k2 = (if is_pressed then toggle_lock keycode k1 else k1);
                         k3 = set_key_state (ucast keycode) is_pressed k2
                     in Some (Some \<lparr>key_state_ctrl = keystate_lctrl k3 \<or> keystate_rctrl k3,
                                    key_state_shift = keystate_lshift k3 \<or> keystate_rshift k3,
                                    key_state_alt = keystate_lalt k3 \<or> keystate_ralt k3,
                                    key_code = ucast keycode, key_pressed = is_pressed\<rparr>, k3))"

definition keyboard_callback :: "u8 \<Rightarrow> u8 \<Rightarrow> keyboard \<Rightarrow> (keyboard_data option \<times> keyboard) option" where
  "keyboard_callback status data k = (if status AND 1 = 0 then Some (None, k) else process_scan_code data k)"

section \<open>Properties of the tables\<close>

lemma table_lengths [simp]: "length scancode_to_keycode = 128" "length key_ascii = 132" "length extended_scancode_to_keycode = 128"
  by (simp_all add: scancode_to_keycode_def key_ascii_def extended_scancode_to_keycode_def)

text \<open>Every key code the driver publishes has an entry in the character table.\<close>

lemma table_keycodes: "\<forall>c \<in> set scancode_to_keycode. c < 132"
  by code_simp

lemma ext_keycodes: "\<forall>c \<in> set extended_scancode_to_keycode. c < 132"
  by code_simp

text \<open>The bracket keys send the codes 86 and 87, for which the table has no character; the
  brackets stand at the codes 26 and 27, which no key sends.\<close>

lemma no_brackets:
  "keycode_get_by_scancode 0x1A = Some 86" "keyecode_to_ascii 86 sh = Some 0"
  "keycode_get_by_scancode 0x1B = Some 87" "keyecode_to_ascii 87 sh = Some 0"
  "26 \<notin> set scancode_to_keycode" "27 \<notin> set scancode_to_keycode"
  by (simp_all add: keycode_get_by_scancode_def keyecode_to_ascii_def scancode_to_keycode_def key_ascii_def)

end
