(* ===== verification/FsState.thy ===== *)
theory FsState
  imports VFSInv FatApi Term Keyboard
begin

text \<open>
  The state of the three file systems of the kernel and their private data: the USTAR archive in
  memory of \<^verbatim>\<open>ramfs.c\<close>, the terminal line buffer of \<^verbatim>\<open>ttyfs.c\<close> with the terminal and the keyboard events
  to come, and the FAT32 driver.
\<close>

record ustar_data =
  u_filename :: bytes
  u_name :: bytes
  u_size :: u32
  u_data_offset :: u32
  u_head_offset :: u32
  u_type_flag :: u8

record fat32_inode_data =
  fi_fat :: nat
  fi_start_clus :: u32
  fi_file_size :: u32
  fi_attr :: u8
  fi_is_root :: bool
  fi_dir_sect :: u32
  fi_dir_idx :: u16

datatype pdata = PRam ustar_data | PFat fat32_inode_data

record tty_fdata =
  ibuff :: bytes
  ibegin :: nat
  isize :: nat
  icursor :: nat

record 'd sys =
  rd_buff :: "bytes option"
  tty_buf :: tty_fdata
  screen :: terminal
  key_events :: "keyboard_data list"
  fat_drv :: "'d drv"
  fat32_active_part :: int
  next_vol :: nat

type_synonym 'd kfs = "('d sys, pdata, fat_file) vfs"

definition RAMFS :: nat where "RAMFS = 0"
definition TTYFS :: nat where "TTYFS = 1"
definition FAT32 :: nat where "FAT32 = 2"

definition SEEK_SET :: int where "SEEK_SET = 0"
definition SEEK_CUR :: int where "SEEK_CUR = 1"
definition SEEK_END :: int where "SEEK_END = 2"

text \<open>Changes of the file systems' own state.\<close>

definition upd_sys :: "('d sys \<Rightarrow> 'd sys) \<Rightarrow> ('d kfs, unit) km" where
  "upd_sys f = kmodify (\<lambda>s. s\<lparr>fs_state := f (fs_state s)\<rparr>)"

lemma upd_sys_Inr: "upd_sys f s = Inr (u, s') \<longleftrightarrow> s' = s\<lparr>fs_state := f (fs_state s)\<rparr>"
  by (simp add: upd_sys_def)

lemma file_step_sys [simp]: "file_step s (s\<lparr>fs_state := x\<rparr>)"
  by (cases s) (simp add: file_step_def option.rel_refl)

lemma file_step_upd_file:
  assumes "files s fd = Some f" and "same_file f g"
  shows "file_step s (s\<lparr>files := (files s)(fd \<mapsto> g)\<rparr>)"
  using assms by (cases s) (auto simp: file_step_def intro: option.rel_refl)

lemma file_step_upd_inode:
  assumes "inodes s a = Some i" and "same_inode i j"
  shows "file_step s (s\<lparr>inodes := (inodes s)(a \<mapsto> j)\<rparr>)"
  using assms by (cases s) (auto simp: file_step_def intro: option.rel_refl)

lemma same_inode_trans: "same_inode i j \<Longrightarrow> same_inode j k \<Longrightarrow> same_inode i k"
  by (cases i; cases j; cases k) (simp add: same_inode_def)

lemma same_file_trans: "same_file i j \<Longrightarrow> same_file j k \<Longrightarrow> same_file i k"
  by (cases i; cases j; cases k) (simp add: same_file_def)

lemma file_step_trans:
  assumes "file_step s t" and "file_step t u"
  shows "file_step s u"
proof -
  have "rel_option same_inode (inodes s a) (inodes u a)" for a
    using assms unfolding file_step_def by (metis (mono_tags, lifting) option.rel_transp transpD transpI same_inode_trans)
  moreover have "rel_option same_file (files s a) (files u a)" for a
    using assms unfolding file_step_def by (metis (mono_tags, lifting) option.rel_transp transpD transpI same_file_trans)
  moreover have "u = s\<lparr>inodes := inodes u, files := files u, fs_state := fs_state u\<rparr>"
    using assms by (cases s; cases t; cases u) (simp add: file_step_def)
  ultimately show ?thesis by (simp add: file_step_def)
qed

lemma upd_file_step:
  assumes "upd_file fd g s = Inr (u, s')" and "\<And>f. same_file f (g f)"
  shows "file_step s s'"
  using assms by (auto simp: upd_file_def kbind_Inr_iff intro: file_step_upd_file)

lemma upd_pos_step: "upd_file fd (\<lambda>f. f\<lparr>f_pos := p f\<rparr>) s = Inr (u, s') \<Longrightarrow> file_step s s'"
  by (erule upd_file_step) (simp add: same_file_def)

lemma upd_pdata_step: "upd_file fd (\<lambda>f. f\<lparr>f_pos := p f, f_pdata := q f\<rparr>) s = Inr (u, s') \<Longrightarrow> file_step s s'"
  by (erule upd_file_step) (simp add: same_file_def)

text \<open>Making a superblock: the objects \<^verbatim>\<open>mksb\<close> of every file system allocates.\<close>

definition make_sb :: "nat \<Rightarrow> dentry \<Rightarrow> 'p inode \<Rightarrow> (('x, 'p, 'q) vfs, addr) km" where
  "make_sb fs d i =
     kbind (new_sb \<lparr>s_root = 0, s_fs = fs\<rparr>) (\<lambda>sb.
     kbind (new_dentry d) (\<lambda>a.
     kbind (upd_dentry a (\<lambda>d. d\<lparr>d_parent := a\<rparr>)) (\<lambda>_.
     kbind (upd_sb sb (\<lambda>b. b\<lparr>s_root := a\<rparr>)) (\<lambda>_.
     kbind (new_inode (i\<lparr>i_sb := sb\<rparr>)) (\<lambda>io.
     kbind (upd_dentry a (\<lambda>d. d\<lparr>d_inode := io\<rparr>)) (\<lambda>_.
     kreturn sb))))))"

lemma make_sb_mounted:
  assumes "d_subdirs d = []" and "i_mountpoint i = 0"
  shows "make_sb fs d i s = Inr (next_addr s, mounted d i \<lparr>s_root = 0, s_fs = fs\<rparr> s)"
  using assms
  by (cases s; cases d; cases i)
     (simp add: make_sb_def new_sb_def new_dentry_def new_inode_def upd_dentry_def upd_sb_def mounted_def Let_def kreturn_def)

lemma make_sb_step: "d_subdirs d = [] \<Longrightarrow> i_mountpoint i = 0 \<Longrightarrow> make_sb fs d i s = Inr (b, s') \<Longrightarrow> mksb_step b s s'"
  by (auto simp: make_sb_mounted mksb_step_def intro: file_step_refl)

text \<open>Filling an entry: the inode a lookup allocates.\<close>

definition fill_dentry :: "addr \<Rightarrow> 'p inode \<Rightarrow> nat \<Rightarrow> (('x, 'p, 'q) vfs, addr) km" where
  "fill_dentry e i fs =
     kbind (new_inode i) (\<lambda>io.
     kbind (upd_dentry e (\<lambda>d. d\<lparr>d_inode := io, d_ops := Some fs\<rparr>)) (\<lambda>_. kreturn e))"

lemma fill_dentry_step:
  assumes "i_mountpoint i = 0" and "fill_dentry e i fs s = Inr (r, s')"
  shows "r = e \<and> s' = filled e i (Some fs) s"
  using assms
  by (cases s) (auto simp: fill_dentry_def new_inode_def upd_dentry_def filled_def kbind_Inr_iff fun_upd_def)

lemma fill_dentry_lookup_step:
  assumes "fill_dentry e i fs s = Inr (r, s')" and "i_mountpoint i = 0" and "inodes s io = Some j" and "i_sb i = i_sb j"
  shows "lookup_step io e s s'"
  using fill_dentry_step [OF assms(2,1)] assms(2-) unfolding lookup_step_def by (blast intro: file_step_refl)

section \<open>The state at boot\<close>

text \<open>The zeroed statics of the kernel, with an 80 by 25 terminal, given the archive, the keys that
  will be pressed and the device.\<close>

definition zfat :: fat where
  "zfat = \<lparr>clust_msk = 0, clust_cnt = 0, info_sect = 0, fat_sect0 = 0, fat_sect1 = 0, data_sect = 0, root_clust = 0,
     last_used = 0, free_cnt = 0, fsect = 0, buf = replicate 512 0, fflags = 0, clust_shift = 0, fat_name_len = 0, fat_name = replicate 32 0\<rparr>"

definition boot_screen :: terminal where
  "boot_screen = term_init 640 400 8 16 \<lparr>ch_x = 0, ch_y = 0, ch_width = 0, ch_height = 0, font_width = 0, font_height = 0,
     fgcolor = 0, bgcolor = 0, prev_fgcolor = 0, ch_x_prev = 0, ch_y_prev = 0, bold = False, fb = []\<rparr>"

definition boot_sys :: "bytes option \<Rightarrow> keyboard_data list \<Rightarrow> 'd \<Rightarrow> 'd sys" where
  "boot_sys rd keys d =
     \<lparr>rd_buff = rd, tty_buf = \<lparr>ibuff = replicate 4096 0, ibegin = 0, isize = 0, icursor = 0\<rparr>, screen = boot_screen,
      key_events = keys,
      fat_drv = \<lparr>drv_mem = (\<lambda>_. zfat), g_fat_list = [], drv_buf = replicate 512 0, drv_len = 0, drv_crc = 0, drv_dev = d\<rparr>,
      fat32_active_part = -1, next_vol = 0\<rparr>"

definition boot_vfs :: "'x \<Rightarrow> ('x, 'p, 'q) vfs" where
  "boot_vfs x = vfs_init
     \<lparr>dentries = Map.empty, inodes = Map.empty, sbs = Map.empty, files = Map.empty, next_addr = 1, vfs_root = 0,
      vfs_fs_list = [], vfs_next_handle_count = 100, current_task = 0, open_files = (\<lambda>_. []), cwd = (\<lambda>_. []), fs_state = x\<rparr>"

end
