(* ===== verification/TtyFS.thy ===== *)
theory TtyFS
  imports FsState
begin

text \<open>
  The terminal file system, \<^verbatim>\<open>src/kernel/src/fs/ttyfs.c\<close>: the line buffer is a ring, filled from the keyboard events
  until a newline and handed out as one line.  The events that are delivered to the reader are a
  list of the state; waiting for an event that never comes is \<open>NoReturn\<close>.
\<close>

section \<open>Definitions\<close>

definition TTY_BUFFER_SIZE :: nat where "TTY_BUFFER_SIZE = 4096"
definition VFS_STDERR :: int where "VFS_STDERR = 2"

definition ttyfs_mksb :: "nat \<Rightarrow> ('d kfs, addr) km" where
  "ttyfs_mksb fs =
     make_sb fs (zdentry\<lparr>d_ops := Some TTYFS\<rparr>)
       (zinode\<lparr>i_ops := Some TTYFS, i_type := VFS_NODE_CHARACTER, i_fops := Some TTYFS\<rparr>)"

definition ttyfs_open :: "addr \<Rightarrow> addr \<Rightarrow> ('d kfs, int) km" where
  "ttyfs_open io fd = kreturn 0"

definition ttyfs_close :: "addr \<Rightarrow> addr \<Rightarrow> ('d kfs, int) km" where
  "ttyfs_close io fd = kreturn 0"

definition tty_echo_char :: "u8 \<Rightarrow> tty_fdata \<times> terminal \<Rightarrow> fault + tty_fdata \<times> terminal" where
  "tty_echo_char ch = (\<lambda>(t, g).
     if ch = 0x08 then
       if isize t > 0
       then Inr (t\<lparr>isize := isize t - 1, icursor := (icursor t + TTY_BUFFER_SIZE - 1) mod TTY_BUFFER_SIZE\<rparr>, term_refresh (term_back g))
       else Inr (t, term_refresh g)
     else if ch = 0x0A then Inr (t, term_refresh (term_newline g))
     else if ch = 0 then Inr (t, term_refresh g)
     else if isize t \<ge> TTY_BUFFER_SIZE then Inl Panic
     else if icursor t \<ge> length (ibuff t) then Inl OutOfBounds
     else Inr (t\<lparr>ibuff := (ibuff t)[icursor t := ch], icursor := (icursor t + 1) mod TTY_BUFFER_SIZE, isize := isize t + 1\<rparr>,
               term_refresh (term_putch (fgcolor g) ch g)))"

fun tty_read_line :: "keyboard_data list \<Rightarrow> tty_fdata \<times> terminal \<Rightarrow> fault + keyboard_data list \<times> tty_fdata \<times> terminal" where
  "tty_read_line [] tg = Inl NoReturn"
| "tty_read_line (k # ks) tg =
     (case keyecode_to_ascii (key_code k) (key_state_shift k) of
        None \<Rightarrow> Inl OutOfBounds
      | Some ch \<Rightarrow>
          if \<not> key_pressed k then tty_read_line ks tg
          else if ch = 0 then tty_read_line ks tg
          else (case tty_echo_char ch tg of
                  Inl e \<Rightarrow> Inl e
                | Inr tg1 \<Rightarrow> if ch = 0x0A then Inr (ks, tg1) else tty_read_line ks tg1))"

text \<open>The line that is handed out: at most \<open>len\<close> bytes from the ring, in one or two pieces.\<close>

definition tty_take :: "int \<Rightarrow> tty_fdata \<Rightarrow> bytes" where
  "tty_take len t =
     (let actual_len = min (unat (of_int len :: u32)) (isize t);
          avail_to_end = TTY_BUFFER_SIZE - ibegin t
      in if actual_len \<le> avail_to_end then take actual_len (drop (ibegin t) (ibuff t))
         else take avail_to_end (drop (ibegin t) (ibuff t)) @ take (actual_len - avail_to_end) (ibuff t))"

definition ttyfs_read :: "addr \<Rightarrow> addr \<Rightarrow> int \<Rightarrow> ('d kfs, int \<times> bytes) km" where
  "ttyfs_read io fd len s =
     (if len > int TTY_BUFFER_SIZE then Inr ((-1, []), s)
      else case tty_read_line (key_events (fs_state s)) (tty_buf (fs_state s), screen (fs_state s)) of
             Inl e \<Rightarrow> Inl e
           | Inr (ks, t, g) \<Rightarrow>
               let line = tty_take len t
               in Inr ((int (length line), line),
                       s\<lparr>fs_state := (fs_state s)\<lparr>key_events := ks, tty_buf := t\<lparr>isize := 0, ibegin := icursor t\<rparr>, screen := g\<rparr>\<rparr>))"

definition ttyfs_write :: "addr \<Rightarrow> addr \<Rightarrow> int \<Rightarrow> bytes \<Rightarrow> ('d kfs, int) km" where
  "ttyfs_write io fd len buffer =
     (if len \<le> 0 then kreturn 0
      else if length buffer < nat len then kfault OutOfBounds
      else kbind (kderef files fd) (\<lambda>f.
        let txt = take (nat len) buffer
        in kbind (upd_sys (\<lambda>x. x\<lparr>screen := term_flush
             (if is_console f \<and> f_handle f = VFS_STDERR
              then term_restore_fgcolor (term_write_n txt (term_set_fgcolor_prev 0xff0000 (screen x)))
              else term_write_n txt (screen x))\<rparr>)) (\<lambda>_. kreturn len)))"

definition ttyfs_lookup :: "addr \<Rightarrow> addr \<Rightarrow> ('d kfs, addr) km" where
  "ttyfs_lookup io e = kreturn 0"

definition ttyfs_ops :: "('d sys, pdata, fat_file) fs_ops" where
  "ttyfs_ops =
     \<lparr>fo_mksb = ttyfs_mksb, fo_lookup = ttyfs_lookup, fo_open = ttyfs_open, fo_close = ttyfs_close, fo_read = ttyfs_read,
      fo_write = ttyfs_write, fo_lseek = None, fo_iterate = None\<rparr>"

definition ttyfs_init :: "'d kfs \<Rightarrow> 'd kfs" where
  "ttyfs_init s = vfs_register_fs [0x74, 0x74, 0x79, 0x66, 0x73] TTYFS s"

section \<open>The contract\<close>

interpretation tty: file_system ttyfs_ops
proof unfold_locales
  show "fo_mksb ttyfs_ops fs s = Inr (b, s') \<Longrightarrow> mksb_step b s s'" for fs b and s s' :: "'a kfs"
    by (simp add: ttyfs_ops_def ttyfs_mksb_def) (erule make_sb_step [rotated 2], simp_all add: zdentry_def zinode_def)
  show "fo_read ttyfs_ops io fd len s = Inr (rd, s') \<Longrightarrow> file_step s s'" for io fd len rd and s s' :: "'a kfs"
    by (simp add: ttyfs_ops_def ttyfs_read_def Let_def split: if_splits sum.splits prod.splits) auto
  show "fo_write ttyfs_ops io fd len buff s = Inr (rc, s') \<Longrightarrow> file_step s s'" for io fd len buff rc and s s' :: "'a kfs"
    by (simp add: ttyfs_ops_def ttyfs_write_def split: if_splits) (auto simp: Let_def upd_sys_Inr elim!: kbind_Inr_E)
qed (auto simp: ttyfs_ops_def ttyfs_lookup_def ttyfs_open_def ttyfs_close_def lookup_step_def)

section \<open>The line\<close>

text \<open>The bytes in the ring, and the effect of a character on the line.\<close>

definition ring :: "tty_fdata \<Rightarrow> bytes" where
  "ring t = map (\<lambda>i. ibuff t ! ((ibegin t + i) mod TTY_BUFFER_SIZE)) [0..<isize t]"

definition tty_ok :: "tty_fdata \<Rightarrow> bool" where
  "tty_ok t \<longleftrightarrow> length (ibuff t) = TTY_BUFFER_SIZE \<and> ibegin t < TTY_BUFFER_SIZE \<and> isize t \<le> TTY_BUFFER_SIZE \<and>
     icursor t = (ibegin t + isize t) mod TTY_BUFFER_SIZE"

definition edit :: "bytes \<Rightarrow> u8 \<Rightarrow> bytes" where
  "edit line ch = (if ch = 0x08 then butlast line else if ch = 0x0A \<or> ch = 0 then line else line @ [ch])"

lemma ring_length [simp]: "length (ring t) = isize t"
  by (simp add: ring_def)

lemma mod_ring_inj: "i < n \<Longrightarrow> j < n \<Longrightarrow> (b + i) mod n = (b + j) mod n \<Longrightarrow> i = j" for b i j n :: nat
proof (induction i j rule: linorder_wlog)
  case (le i j)
  then have "(b + j) mod n - (b + i) mod n = 0" by simp
  from le have "n dvd (b + j) - (b + i)" by (metis mod_eq_dvd_iff_nat add_left_mono)
  then have "n dvd j - i" by simp
  then show ?case using le dvd_imp_le [of n "j - i"] by (cases "i < j") linarith+
qed auto

lemma echo_ok:
  assumes ok: "tty_ok t" and sz: "ch = 0x08 \<or> ch = 0x0A \<or> ch = 0 \<or> isize t < TTY_BUFFER_SIZE"
  shows "\<exists>t' g'. tty_echo_char ch (t, g) = Inr (t', g') \<and> tty_ok t' \<and> ring t' = edit (ring t) ch \<and> ibegin t' = ibegin t"
proof -
  let ?N = TTY_BUFFER_SIZE
  have N: "0 < ?N" by (simp add: TTY_BUFFER_SIZE_def)
  consider "ch = 0x08" "isize t > 0" | "ch = 0x08" "isize t = 0" | "ch = 0x0A \<or> ch = 0" | "ch \<noteq> 0x08" "ch \<noteq> 0x0A" "ch \<noteq> 0" "isize t < ?N"
    using sz by auto
  then show ?thesis
  proof cases
    case 1
    have "((ibegin t + isize t) mod ?N + ?N - 1) mod ?N = (ibegin t + (isize t - 1)) mod ?N"
    proof -
      have "((ibegin t + isize t) mod ?N + ?N - 1) mod ?N = ((ibegin t + isize t) mod ?N + (?N - 1)) mod ?N" using N by simp
      also have "\<dots> = (ibegin t + isize t + (?N - 1)) mod ?N" by (rule mod_add_left_eq)
      also have "ibegin t + isize t + (?N - 1) = ibegin t + (isize t - 1) + ?N" using 1 N by simp
      finally show ?thesis by simp
    qed
    then show ?thesis using 1 ok by (auto simp: tty_echo_char_def tty_ok_def edit_def ring_def butlast_conv_take take_map)
  next
    case 2 then show ?thesis using ok by (auto simp: tty_echo_char_def edit_def ring_def)
  next
    case 3 then show ?thesis using ok by (auto simp: tty_echo_char_def edit_def)
  next
    case 4
    let ?t = "t\<lparr>ibuff := (ibuff t)[icursor t := ch], icursor := (icursor t + 1) mod ?N, isize := isize t + 1\<rparr>"
    have c: "icursor t < ?N" "icursor t = (ibegin t + isize t) mod ?N" using ok N by (auto simp: tty_ok_def)
    have ne: "(ibegin t + k) mod ?N \<noteq> icursor t" if "k < isize t" for k
      using mod_ring_inj [of k ?N "isize t" "ibegin t"] that 4 c(2) by auto
    have "ring ?t = map (\<lambda>i. ibuff ?t ! ((ibegin t + i) mod ?N)) [0..<isize t] @ [ibuff ?t ! icursor t]"
      using c(2) by (simp add: ring_def)
    also have "map (\<lambda>i. ibuff ?t ! ((ibegin t + i) mod ?N)) [0..<isize t] = ring t"
      using ne [symmetric] by (simp add: ring_def)
    also have "ibuff ?t ! icursor t = ch" using ok c(1) by (simp add: tty_ok_def)
    finally have "ring ?t = ring t @ [ch]" .
    moreover have "tty_ok ?t" using ok 4(4) by (simp add: tty_ok_def mod_Suc_eq)
    moreover have "length (ibuff t) = ?N" using ok by (simp add: tty_ok_def)
    then have "tty_echo_char ch (t, g) = Inr (?t, term_refresh (term_putch (fgcolor g) ch g))"
      using 4 c(1) unfolding tty_echo_char_def by simp
    ultimately show ?thesis
      by (intro exI [of _ ?t] exI [of _ "term_refresh (term_putch (fgcolor g) ch g)"]) (use 4 in \<open>simp add: edit_def\<close>)
  qed
qed

text \<open>The characters a sequence of key events stands for.\<close>

definition key_char :: "keyboard_data \<Rightarrow> u8" where
  "key_char k = (case keyecode_to_ascii (key_code k) (key_state_shift k) of
     None \<Rightarrow> 0 | Some ch \<Rightarrow> if key_pressed k then ch else 0)"

definition typed :: "keyboard_data list \<Rightarrow> bytes" where
  "typed ks = filter (\<lambda>c. c \<noteq> 0) (map key_char ks)"

definition key_known :: "keyboard_data \<Rightarrow> bool" where
  "key_known k \<longleftrightarrow> keyecode_to_ascii (key_code k) (key_state_shift k) \<noteq> None"

lemma edit_length: "length (edit line ch) \<le> Suc (length line)"
  by (auto simp: edit_def)

lemma read_line_ok:
  assumes "\<forall>k \<in> set pre. key_known k" and "0x0A \<notin> set (typed pre)" and "key_known enter" "key_char enter = 0x0A"
    and "tty_ok t" and "isize t + length (typed pre) \<le> TTY_BUFFER_SIZE"
  shows "\<exists>t' g'. tty_read_line (pre @ enter # post) (t, g) = Inr (post, t', g') \<and> tty_ok t' \<and>
     ring t' = foldl edit (ring t) (typed pre) \<and> ibegin t' = ibegin t"
  using assms
proof (induction pre arbitrary: t g)
  case Nil
  then obtain c where c: "keyecode_to_ascii (key_code enter) (key_state_shift enter) = Some c" "key_pressed enter" "c = 0x0A"
    by (auto simp: key_known_def key_char_def split: option.splits if_splits)
  from echo_ok [OF Nil(5), of "0x0A" g] obtain t' g' where
    "tty_echo_char 0x0A (t, g) = Inr (t', g')" "tty_ok t'" "ring t' = edit (ring t) 0x0A" "ibegin t' = ibegin t" by auto
  then show ?case using c by (simp add: typed_def edit_def)
next
  case (Cons k pre)
  then obtain c where c: "keyecode_to_ascii (key_code k) (key_state_shift k) = Some c" by (auto simp: key_known_def)
  show ?case
  proof (cases "key_pressed k \<and> c \<noteq> 0")
    case False
    then have "typed (k # pre) = typed pre" using c by (auto simp: typed_def key_char_def)
    then show ?thesis using Cons c False by auto
  next
    case True
    then have ty: "typed (k # pre) = c # typed pre" using c by (simp add: typed_def key_char_def)
    then have "isize t < TTY_BUFFER_SIZE" "c \<noteq> 0x0A" using Cons.prems by auto
    with echo_ok [OF Cons.prems(5), of c g] obtain t1 g1 where
      t1: "tty_echo_char c (t, g) = Inr (t1, g1)" "tty_ok t1" "ring t1 = edit (ring t) c" "ibegin t1 = ibegin t" by auto
    have "isize t1 \<le> Suc (isize t)" using edit_length [of "ring t" c] t1(3) by (metis ring_length)
    then have "isize t1 + length (typed pre) \<le> TTY_BUFFER_SIZE" using Cons.prems(6) ty by simp
    from Cons.IH [OF _ _ Cons.prems(3,4) t1(2) this, of g1] Cons.prems(1,2) ty obtain t' g' where
      "tty_read_line (pre @ enter # post) (t1, g1) = Inr (post, t', g')" "tty_ok t'" "ring t' = foldl edit (ring t1) (typed pre)"
      "ibegin t' = ibegin t1" by auto
    then show ?thesis using True c t1 \<open>c \<noteq> 0x0A\<close> ty by simp
  qed
qed

lemma tty_take_ring:
  assumes ok: "tty_ok t" and len: "0 \<le> len" "len \<le> int TTY_BUFFER_SIZE"
  shows "tty_take len t = take (nat len) (ring t)"
proof -
  let ?N = TTY_BUFFER_SIZE and ?m = "min (nat len) (isize t)"
  have N: "?N = 4096" by (simp add: TTY_BUFFER_SIZE_def)
  have o: "length (ibuff t) = ?N" "ibegin t < ?N" "isize t \<le> ?N" using ok by (auto simp: tty_ok_def)
  have "unat (of_int len :: u32) = nat len"
    using len N unsigned_of_int [of len, where ?'a = nat and ?'b = 32] by (simp add: take_bit_int_eq_self)
  then have t: "tty_take len t =
      (if ?m \<le> ?N - ibegin t then take ?m (drop (ibegin t) (ibuff t))
       else take (?N - ibegin t) (drop (ibegin t) (ibuff t)) @ take (?m - (?N - ibegin t)) (ibuff t))"
    by (simp add: tty_take_def Let_def)
  show ?thesis
  proof (rule nth_equalityI)
    show "length (tty_take len t) = length (take (nat len) (ring t))" using o by (auto simp: t)
    fix i assume "i < length (tty_take len t)"
    then have i: "i < ?m" using o by (auto simp: t split: if_splits)
    have r: "take (nat len) (ring t) ! i = ibuff t ! ((ibegin t + i) mod ?N)" using i by (simp add: ring_def)
    have m: "(ibegin t + i) mod ?N = (if ibegin t + i < ?N then ibegin t + i else ibegin t + i - ?N)"
      using o i by (auto simp: mod_if)
    show "tty_take len t ! i = take (nat len) (ring t) ! i" using i o unfolding r m t by (auto simp: nth_append add.commute)
  qed
qed

definition press :: "u8 \<Rightarrow> bool \<Rightarrow> keyboard_data" where
  "press c shift = \<lparr>key_state_ctrl = False, key_state_shift = shift, key_state_alt = False, key_code = c, key_pressed = True\<rparr>"

definition release :: "u8 \<Rightarrow> keyboard_data" where
  "release c = (press c False)\<lparr>key_pressed := False\<rparr>"

section \<open>Properties\<close>

text \<open>C16: Reading a line from the terminal: with an empty line buffer (wherever in the ring it stands), keys
  that the table knows and at most 4096 typed characters before the first Enter, the read returns
  the typed line, with every backspace having taken back the character before it, cut to the
  length asked for; the keys behind the Enter stay for the next read and the buffer is empty again.\<close>

theorem ttyfs_read_line:
  fixes s :: "'d kfs"
  assumes "tty_ok (tty_buf (fs_state s))" and "isize (tty_buf (fs_state s)) = 0"
    and "key_events (fs_state s) = pre @ enter # post"
    and "\<forall>k \<in> set pre. key_known k" and "0x0A \<notin> set (typed pre)" and "key_known enter" "key_char enter = 0x0A"
    and "length (typed pre) \<le> TTY_BUFFER_SIZE" and "0 \<le> len" "len \<le> int TTY_BUFFER_SIZE"
  shows "\<exists>s' line. ttyfs_read io fd len s = Inr ((int (length line), line), s') \<and>
     line = take (nat len) (foldl edit [] (typed pre)) \<and> key_events (fs_state s') = post \<and>
     tty_ok (tty_buf (fs_state s')) \<and> isize (tty_buf (fs_state s')) = 0"
proof -
  have r0: "ring (tty_buf (fs_state s)) = []" using assms(2) by (simp add: ring_def)
  obtain t g where t: "tty_read_line (pre @ enter # post) (tty_buf (fs_state s), screen (fs_state s)) = Inr (post, t, g)" "tty_ok t"
    "ring t = foldl edit [] (typed pre)"
    using read_line_ok [OF assms(4-7,1), of post "screen (fs_state s)"] assms(2,8) r0 by auto
  have "tty_ok (t\<lparr>isize := 0, ibegin := icursor t\<rparr>)"
    using t(2) by (auto simp: tty_ok_def TTY_BUFFER_SIZE_def)
  then show ?thesis using t tty_take_ring [OF t(2) assms(9,10)] assms(3,10) by (simp add: ttyfs_read_def Let_def)
qed

theorem ttyfs_read_line_witness:
  "\<exists>s' line. ttyfs_read 0 0 16 (boot_vfs (boot_sys None
       [press 35 True, release 35, press 23 False, press 14 False, press 24 False, press 28 False, press 30 False] ())) =
       Inr ((int (length line), line), s') \<and> line = [0x48, 0x6F] \<and> key_events (fs_state s') = [press 30 False]"
  using ttyfs_read_line [of "boot_vfs (boot_sys None
       [press 35 True, release 35, press 23 False, press 14 False, press 24 False, press 28 False, press 30 False] ())"
      "[press 35 True, release 35, press 23 False, press 14 False, press 24 False]" "press 28 False" "[press 30 False]" 16 0 0]
  by (simp add: boot_vfs_def boot_sys_def vfs_init_def tty_ok_def TTY_BUFFER_SIZE_def key_known_def key_char_def typed_def
      press_def release_def keyecode_to_ascii_def key_ascii_def edit_def) auto

end
