(* ===== verification/RamFS.thy ===== *)
theory RamFS
  imports FsState
begin

unbundle bit_operations_syntax

text \<open>
  The read-only file system on a USTAR archive in memory, \<^verbatim>\<open>src/kernel/src/fs/ramfs.c\<close>: the archive is scanned
  header by header for every lookup and every listing.  Opening, seeking and reading a file go
  through the contract of the virtual file system, which the last section proves.
\<close>

section \<open>Headers\<close>

definition U_NORMAL :: u8 where "U_NORMAL = 0"
definition U_DIRECTORY :: u8 where "U_DIRECTORY = 5"

fun oct2bin_from :: "u32 \<Rightarrow> bytes \<Rightarrow> u32" where
  "oct2bin_from n [] = n"
| "oct2bin_from n (c # cs) = (if c < 0x30 \<or> c > 0x37 then n else oct2bin_from (n * 8 + (ucast c - 0x30)) cs)"

definition oct2bin :: "bytes \<Rightarrow> u32" where
  "oct2bin str = oct2bin_from 0 str"

definition ustar_strip_prefix :: "bytes \<Rightarrow> nat \<Rightarrow> bytes" where
  "ustar_strip_prefix path outlen =
     (let src = (if take 2 path = [DOT, SLASH] then drop 2 path else path) in take (outlen - 1) src)"

definition ustar_remove_last_slash :: "bytes \<Rightarrow> bytes" where
  "ustar_remove_last_slash path = (if path \<noteq> [] \<and> last path = SLASH then butlast path else path)"

definition ustar_magic :: bytes where
  "ustar_magic = [0x75, 0x73, 0x74, 0x61, 0x72]"

text \<open>The stripped name, the size (an \<^verbatim>\<open>int\<close>, kept as its 32 bits) and the type; \<open>None\<close> when there is no header.\<close>

definition ustar_read_block_header :: "bytes \<Rightarrow> nat \<Rightarrow> (bytes \<times> u32 \<times> u8) option" where
  "ustar_read_block_header buff offset =
     (if get_bytes buff (offset + 257) 5 = ustar_magic
      then let u_filename = buf_str (get_bytes buff offset 100)
           in Some (ustar_remove_last_slash (ustar_strip_prefix u_filename VFS_MAX_PATH_LENGTH),
                    oct2bin (get_bytes buff (offset + 124) 12), buff ! (offset + 156) - 0x30)
      else None)"

text \<open>\<^verbatim>\<open>512 + align_to_512(size)\<close>, an \<^verbatim>\<open>int\<close> that is added to a \<^verbatim>\<open>size_t\<close>.\<close>

definition align_to_512 :: "u32 \<Rightarrow> u32" where
  "align_to_512 x = (x + 511) AND NOT 511"

definition ustar_step :: "u32 \<Rightarrow> u64" where
  "ustar_step sz = scast (512 + align_to_512 sz)"

text \<open>The scan of \<^verbatim>\<open>_ustar_lookup\<close>.  Every step is a multiple of 512, so a scan of more rounds than the
  archive has blocks has come back to a block and does not return.\<close>

definition ustar_rounds :: "bytes \<Rightarrow> nat" where
  "ustar_rounds buff = Suc (length buff div 512)"

fun ustar_find :: "nat \<Rightarrow> bytes \<Rightarrow> bytes \<Rightarrow> bytes \<Rightarrow> u64 \<Rightarrow> fault + ustar_data option" where
  "ustar_find 0 buff name search_path i = Inl NoReturn"
| "ustar_find (Suc n) buff name search_path i =
     (if unat (i + 512) > length buff then Inr None
      else if unat i + 512 > length buff then Inl OutOfBounds
      else case ustar_read_block_header buff (unat i) of
             None \<Rightarrow> Inr None
           | Some (stripped, sz, type) \<Rightarrow>
               if stripped = [] then ustar_find n buff name search_path (i + ustar_step sz)
               else if (type = U_DIRECTORY \<or> type = U_NORMAL) \<and> stripped = search_path
               then Inr (Some \<lparr>u_filename = stripped, u_name = name, u_size = sz, u_data_offset = ucast (i + 512),
                               u_head_offset = ucast i, u_type_flag = type\<rparr>)
               else ustar_find n buff name search_path (i + ustar_step sz))"

definition ustar_lookup :: "ustar_data \<Rightarrow> bytes \<Rightarrow> bytes option \<Rightarrow> fault + ustar_data option" where
  "ustar_lookup parent_data name rd =
     (let search_path = (if u_filename parent_data = [] then name else u_filename parent_data @ [SLASH] @ name)
      in if length search_path \<ge> VFS_MAX_PATH_LENGTH then Inl OutOfBounds
         else case rd of
                None \<Rightarrow> Inr None
              | Some buff \<Rightarrow> if length buff < 512 then Inr None
                             else ustar_find (ustar_rounds buff) buff name search_path 0)"

section \<open>The file system\<close>

definition ramfs_init :: "bytes \<Rightarrow> 'd kfs \<Rightarrow> 'd kfs" where
  "ramfs_init buff s =
     vfs_register_fs [0x72, 0x61, 0x6D, 0x66, 0x73] RAMFS (s\<lparr>fs_state := (fs_state s)\<lparr>rd_buff := Some buff\<rparr>\<rparr>)"

definition zustar :: ustar_data where
  "zustar = \<lparr>u_filename = [], u_name = [], u_size = 0, u_data_offset = 0, u_head_offset = 0, u_type_flag = 0\<rparr>"

definition ramfs_mksb :: "nat \<Rightarrow> ('d kfs, addr) km" where
  "ramfs_mksb fs =
     make_sb fs (zdentry\<lparr>d_ops := Some RAMFS\<rparr>)
       (zinode\<lparr>i_ops := Some RAMFS, i_type := VFS_NODE_DIRECTOR, i_fops := Some RAMFS,
               i_pdata := Some (PRam (zustar\<lparr>u_type_flag := U_DIRECTORY\<rparr>))\<rparr>)"

text \<open>The private data of a ramfs inode.\<close>

definition ram_pdata :: "addr \<Rightarrow> ('d kfs, ustar_data) km" where
  "ram_pdata io =
     kbind (kderef inodes io) (\<lambda>i. case i_pdata i of Some (PRam u) \<Rightarrow> kreturn u | _ \<Rightarrow> kfault NullDeref)"

definition ram_inode :: "addr \<Rightarrow> ustar_data \<Rightarrow> pdata inode" where
  "ram_inode sb idata =
     zinode\<lparr>i_sb := sb, i_fsize := scast (u_size idata),
            i_type := (if u_type_flag idata = U_NORMAL then VFS_NODE_FILE
                       else if u_type_flag idata = U_DIRECTORY then VFS_NODE_DIRECTOR else VFS_NODE_INVALID),
            i_ops := Some RAMFS, i_fops := Some RAMFS, i_pdata := Some (PRam idata)\<rparr>"

definition ramfs_lookup :: "addr \<Rightarrow> addr \<Rightarrow> ('d kfs, addr) km" where
  "ramfs_lookup io e =
     kbind (ram_pdata io) (\<lambda>parent_data.
     kbind (kderef inodes io) (\<lambda>this.
     kbind (kderef dentries e) (\<lambda>d.
     kbind (kget (\<lambda>s. rd_buff (fs_state s))) (\<lambda>rd.
     case ustar_lookup parent_data (d_name d) rd of
       Inl f \<Rightarrow> kfault f
     | Inr None \<Rightarrow> kreturn e
     | Inr (Some idata) \<Rightarrow> fill_dentry e (ram_inode (i_sb this) idata) RAMFS))))"

definition ramfs_open :: "addr \<Rightarrow> addr \<Rightarrow> ('d kfs, int) km" where
  "ramfs_open io fd = kreturn 0"

definition ramfs_close :: "addr \<Rightarrow> addr \<Rightarrow> ('d kfs, int) km" where
  "ramfs_close io fd = kreturn 0"

text \<open>The number of bytes to copy is an \<^verbatim>\<open>int\<close> that \<^verbatim>\<open>memcpy\<close> takes as an unsigned 64-bit number.\<close>

definition ramfs_read :: "addr \<Rightarrow> addr \<Rightarrow> int \<Rightarrow> ('d kfs, int \<times> bytes) km" where
  "ramfs_read io fd len =
     (if len = 0 then kreturn (0, [])
      else kbind (ram_pdata io) (\<lambda>udata.
        kbind (kderef files fd) (\<lambda>f.
        if f_pos f \<ge> scast (u_size udata) then kreturn (-1, [])
        else
          let sz = (if f_pos f + of_int len > scast (u_size udata)
                      then ucast (scast (u_size udata) - f_pos f) else of_int len :: u32);
              start = unat (scast (u_data_offset udata) + f_pos f :: u64);
              n = unat (scast sz :: u64)
          in kbind (kget (\<lambda>s. rd_buff (fs_state s))) (\<lambda>rd. case rd of None \<Rightarrow> kfault NullDeref
             | Some buff \<Rightarrow>
                 if start + n > length buff then kfault OutOfBounds
                 else kbind (upd_file fd (\<lambda>f. f\<lparr>f_pos := f_pos f + scast sz\<rparr>)) (\<lambda>_.
                      kreturn (0, get_bytes buff start n))))))"

definition ramfs_write :: "addr \<Rightarrow> addr \<Rightarrow> int \<Rightarrow> bytes \<Rightarrow> ('d kfs, int) km" where
  "ramfs_write io fd len buffer = kreturn (-1)"

text \<open>The position \<^verbatim>\<open>ramfs_lseek\<close> asks for; \<open>None\<close> where it returns -1 at once.\<close>

definition ram_seek_pos :: "u64 \<Rightarrow> u32 \<Rightarrow> int \<Rightarrow> int \<Rightarrow> u64 option" where
  "ram_seek_pos pos sz offset wence =
     (if wence = SEEK_SET then if offset < 0 then None else Some (of_int offset)
      else if wence = SEEK_CUR then if offset < 0 \<and> of_int (wrap32 (- offset)) > pos then None else Some (pos + of_int offset)
      else if wence = SEEK_END then if offset > 0 then None else Some (scast (sz + of_int offset))
      else None)"

definition ramfs_lseek :: "addr \<Rightarrow> addr \<Rightarrow> int \<Rightarrow> int \<Rightarrow> ('d kfs, int) km" where
  "ramfs_lseek io fd offset wence =
     kbind (ram_pdata io) (\<lambda>udata.
     kbind (kderef files fd) (\<lambda>f.
     case ram_seek_pos (f_pos f) (u_size udata) offset wence of
       None \<Rightarrow> kreturn (-1)
     | Some pos \<Rightarrow>
         let pos' = (if pos > scast (u_size udata) then scast (u_size udata) else pos)
         in kbind (upd_file fd (\<lambda>f. f\<lparr>f_pos := pos'\<rparr>)) (\<lambda>_. kreturn (sint (ucast pos' :: u32)))))"

definition ustar_is_direct_child :: "bytes \<Rightarrow> bytes \<Rightarrow> bool" where
  "ustar_is_direct_child entry parent =
     (let parent_len = length parent
      in if parent_len = 0 then SLASH \<notin> set entry \<and> entry \<noteq> []
         else take parent_len entry = parent \<and> parent_len < length entry \<and> entry ! parent_len = SLASH \<and>
              (let remainder = drop (parent_len + 1) entry in remainder \<noteq> [] \<and> SLASH \<notin> set remainder))"

definition ustar_dirent :: "bytes \<Rightarrow> bytes \<Rightarrow> u32 \<Rightarrow> u8 \<Rightarrow> dirent" where
  "ustar_dirent stripped parent_path sz type =
     \<lparr>de_name = (if parent_path = [] then stripped else drop (length parent_path + 1) stripped),
      de_type = (if type = U_DIRECTORY then VFS_NODE_DIRECTOR else VFS_NODE_FILE), de_sz = sz\<rparr>"

fun ustar_list :: "nat \<Rightarrow> bytes \<Rightarrow> bytes \<Rightarrow> u64 \<Rightarrow> fault + dirent list" where
  "ustar_list 0 buff parent_path i = Inl NoReturn"
| "ustar_list (Suc n) buff parent_path i =
     (if unat (i + 512) > length buff then Inr []
      else if unat i + 512 > length buff then Inl OutOfBounds
      else case ustar_read_block_header buff (unat i) of
             None \<Rightarrow> Inr []
           | Some (stripped, sz, type) \<Rightarrow>
               let rest = ustar_list n buff parent_path (i + ustar_step sz)
               in if stripped = [] then rest
                  else if (type = U_DIRECTORY \<or> type = U_NORMAL) \<and> ustar_is_direct_child stripped parent_path
                  then map_sum id ((#) (ustar_dirent stripped parent_path sz type)) rest
                  else rest)"

definition ramfs_iterate :: "addr \<Rightarrow> addr \<Rightarrow> bytes option \<Rightarrow> ('d kfs, int \<times> dirent list) km" where
  "ramfs_iterate io fd path =
     kbind (ram_pdata io) (\<lambda>idata.
     kbind (kget (\<lambda>s. rd_buff (fs_state s))) (\<lambda>rd.
     case rd of None \<Rightarrow> kreturn (0, [])
     | Some buff \<Rightarrow>
         if length buff < 512 then kreturn (0, [])
         else (case ustar_list (ustar_rounds buff) buff (u_filename idata) 0 of
                 Inl f \<Rightarrow> kfault f | Inr entries \<Rightarrow> kreturn (int (length entries), entries))))"

definition ramfs_ops :: "('d sys, pdata, fat_file) fs_ops" where
  "ramfs_ops =
     \<lparr>fo_mksb = ramfs_mksb, fo_lookup = ramfs_lookup, fo_open = ramfs_open, fo_close = ramfs_close, fo_read = ramfs_read,
      fo_write = ramfs_write, fo_lseek = Some ramfs_lseek, fo_iterate = Some ramfs_iterate\<rparr>"

section \<open>The contract\<close>

lemma ram_pdata_state: "ram_pdata io s = Inr (u, s') \<Longrightarrow> s' = s"
  by (auto simp: ram_pdata_def elim!: kbind_Inr_E split: option.splits pdata.splits)

lemma ram_fill_step: "fill_dentry e (ram_inode (i_sb j) u) fs s = Inr (r, s') \<Longrightarrow> inodes s io = Some j \<Longrightarrow> lookup_step io e s s'"
  by (erule fill_dentry_lookup_step) (simp_all add: ram_inode_def zinode_def)

interpretation ram: file_system ramfs_ops
proof unfold_locales
  show "fo_mksb ramfs_ops fs s = Inr (b, s') \<Longrightarrow> mksb_step b s s'" for fs b and s s' :: "'a kfs"
    by (simp add: ramfs_ops_def ramfs_mksb_def) (erule make_sb_step [rotated 2], simp_all add: zdentry_def zinode_def)
  show "fo_lookup ramfs_ops io e s = Inr (r, s') \<Longrightarrow> lookup_step io e s s'" for io e r and s s' :: "'a kfs"
    by (auto simp: ramfs_ops_def ramfs_lookup_def lookup_step_def [of io e s s] elim!: kbind_Inr_E
        dest!: ram_pdata_state intro: ram_fill_step split: sum.splits option.splits)
  show "fo_read ramfs_ops io fd len s = Inr (rd, s') \<Longrightarrow> file_step s s'" for io fd len rd and s s' :: "'a kfs"
    by (auto simp: ramfs_ops_def ramfs_read_def Let_def elim!: kbind_Inr_E dest!: ram_pdata_state
        split: if_splits option.splits) (erule upd_pos_step)+
  show "fo_lseek ramfs_ops = Some lseek \<Longrightarrow> lseek io fd offset wence s = Inr (rc, s') \<Longrightarrow> file_step s s'"
    for lseek io fd offset wence rc and s s' :: "'a kfs"
    by (auto simp: ramfs_ops_def ramfs_lseek_def Let_def elim!: kbind_Inr_E dest!: ram_pdata_state
        split: if_splits option.splits) (erule upd_pos_step)+
  show "fo_iterate ramfs_ops = Some iter \<Longrightarrow> iter io fd path s = Inr (ri, s') \<Longrightarrow> file_step s s'"
    for iter io fd path ri and s s' :: "'a kfs"
    by (auto simp: ramfs_ops_def ramfs_iterate_def elim!: kbind_Inr_E dest!: ram_pdata_state split: if_splits option.splits sum.splits)
qed (auto simp: ramfs_ops_def ramfs_open_def ramfs_close_def ramfs_write_def)

end
