(* ===== verification/RamArchive.thy ===== *)
theory RamArchive
  imports RamFS
begin

unbundle bit_operations_syntax

text \<open>
  What the scan of \<^verbatim>\<open>ramfs.c\<close> finds in the bytes of an archive: the USTAR image of a list of members is
  written down independently of the kernel, and a lookup in it returns the first member of the
  path, with the place of its data.
\<close>

section \<open>Archives\<close>

text \<open>A member of an archive of any type: its path, its type (the type byte, counted from the digit zero),
  its data, and the header fields the kernel does not read.  \<open>tm_dot\<close> and \<open>tm_slash\<close> say whether the path
  is written with a leading \<^verbatim>\<open>./\<close> and with a trailing slash, \<open>tm_end\<close> is the byte behind the eleven octal digits of
  the size.  The entry \<^verbatim>\<open>./\<close> that comes first when \<^verbatim>\<open>tar\<close> is run on a directory has the empty path.\<close>

record tar_member =
  tm_name :: bytes
  tm_type :: u8
  tm_slash :: bool
  tm_data :: bytes
  tm_dot :: bool
  tm_mode :: bytes
  tm_end :: u8
  tm_mtime :: bytes
  tm_link :: bytes
  tm_rest :: bytes

definition tm_raw :: "tar_member \<Rightarrow> bytes" where
  "tm_raw m = (if tm_dot m then [DOT, SLASH] else []) @ tm_name m @ (if tm_slash m then [SLASH] else [])"

fun octs :: "nat \<Rightarrow> nat \<Rightarrow> bytes" where
  "octs 0 n = []"
| "octs (Suc k) n = octs k (n div 8) @ [0x30 + of_nat (n mod 8)]"

definition tar_header :: "tar_member \<Rightarrow> bytes" where
  "tar_header m =
     (tm_raw m @ replicate (100 - length (tm_raw m)) 0) @ tm_mode m @ (octs 11 (length (tm_data m)) @ [tm_end m]) @
     tm_mtime m @ [0x30 + tm_type m] @ tm_link m @ ustar_magic @ tm_rest m"

definition up512 :: "nat \<Rightarrow> nat" where
  "up512 n = (n + 511) div 512 * 512"

definition tar_bytes :: "tar_member \<Rightarrow> bytes" where
  "tar_bytes m = tar_header m @ tm_data m @ replicate (up512 (length (tm_data m)) - length (tm_data m)) 0"

definition archive :: "tar_member list \<Rightarrow> bytes" where
  "archive ms = concat (map tar_bytes ms)"

definition member_ok :: "tar_member \<Rightarrow> bool" where
  "member_ok m \<longleftrightarrow>
     0 \<notin> set (tm_name m) \<and> (tm_name m \<noteq> [] \<longrightarrow> last (tm_name m) \<noteq> SLASH) \<and> (\<not> tm_dot m \<longrightarrow> take 2 (tm_raw m) \<noteq> [DOT, SLASH]) \<and>
     length (tm_raw m) \<le> 100 \<and> length (tm_mode m) = 24 \<and> (tm_end m < 0x30 \<or> tm_end m > 0x37) \<and> length (tm_mtime m) = 20 \<and>
     length (tm_link m) = 100 \<and> length (tm_rest m) = 250"

text \<open>What may follow the members: too little for a header, or a block that is none.\<close>

definition tail_ok :: "bytes \<Rightarrow> bool" where
  "tail_ok t \<longleftrightarrow> length t < 512 \<or> get_bytes t 257 5 \<noteq> ustar_magic"

text \<open>The first file or directory of a path, with the offset of its header; members of other types and
  the entry of the root itself are passed over.\<close>

definition names :: "bytes \<Rightarrow> tar_member \<Rightarrow> bool" where
  "names path m \<longleftrightarrow> (tm_type m = U_DIRECTORY \<or> tm_type m = U_NORMAL) \<and> tm_name m \<noteq> [] \<and> tm_name m = path"

fun member_at :: "nat \<Rightarrow> bytes \<Rightarrow> tar_member list \<Rightarrow> (nat \<times> tar_member) option" where
  "member_at off path [] = None"
| "member_at off path (m # ms) =
     (if names path m then Some (off, m) else member_at (off + 512 + up512 (length (tm_data m))) path ms)"

lemma octs_length [simp]: "length (octs k n) = k"
  by (induction k arbitrary: n) auto

lemma oct2bin_append:
  "\<forall>c \<in> set xs. 0x30 \<le> c \<and> c \<le> 0x37 \<Longrightarrow> oct2bin_from n (xs @ ys) = oct2bin_from (oct2bin_from n xs) ys"
  by (induction xs arbitrary: n) (auto simp: not_less)

lemma oct_digit:
  assumes "d < 8"
  shows "0x30 \<le> (0x30 + of_nat d :: u8)" "(0x30 + of_nat d :: u8) \<le> 0x37" "ucast (0x30 + of_nat d :: u8) - 0x30 = (of_nat d :: u32)"
proof -
  have "d \<in> {0, 1, 2, 3, 4, 5, 6, 7}" using assms by auto
  then show "0x30 \<le> (0x30 + of_nat d :: u8)" "(0x30 + of_nat d :: u8) \<le> 0x37" "ucast (0x30 + of_nat d :: u8) - 0x30 = (of_nat d :: u32)"
    by auto
qed

lemma octs_digits: "\<forall>c \<in> set (octs k n). 0x30 \<le> c \<and> c \<le> 0x37"
  by (induction k arbitrary: n) (auto simp: oct_digit)

lemma oct2bin_octs: "n < 8 ^ k \<Longrightarrow> oct2bin_from 0 (octs k n) = of_nat n"
proof (induction k arbitrary: n)
  case (Suc k)
  then have "n div 8 < 8 ^ k" by (simp add: less_mult_imp_div_less mult.commute)
  then have "oct2bin_from 0 (octs (Suc k) n) = of_nat (n div 8) * 8 + of_nat (n mod 8)"
    using Suc.IH oct_digit [of "n mod 8"] by (simp add: oct2bin_append [OF octs_digits] not_less)
  then show ?case by (metis div_mult_mod_eq of_nat_add of_nat_mult of_nat_numeral)
qed simp

lemma oct2bin_field: "n < 8 ^ k \<Longrightarrow> t < 0x30 \<or> t > 0x37 \<Longrightarrow> oct2bin (octs k n @ [t]) = of_nat n"
  by (simp add: oct2bin_def oct2bin_append [OF octs_digits] oct2bin_octs)

lemma member_lengths:
  assumes "member_ok m"
  shows "length (tm_raw m) \<le> 100" "length (tm_mode m) = 24" "length (tm_mtime m) = 20" "length (tm_link m) = 100" "length (tm_rest m) = 250"
  using assms by (auto simp: member_ok_def)

lemma tar_header_length: "member_ok m \<Longrightarrow> length (tar_header m) = 512"
  using member_lengths [of m] by (simp add: tar_header_def ustar_magic_def)

lemma get_bytes_append: "i + n \<le> length ys \<Longrightarrow> get_bytes (xs @ ys @ zs) (length xs + i) n = get_bytes ys i n"
  by (simp add: get_bytes_def)

lemma tar_fields:
  assumes "member_ok m"
  shows "get_bytes (tar_header m) 257 5 = ustar_magic" "get_bytes (tar_header m) 0 100 = tm_raw m @ replicate (100 - length (tm_raw m)) 0"
    "get_bytes (tar_header m) 124 12 = octs 11 (length (tm_data m)) @ [tm_end m]" "tar_header m ! 156 = 0x30 + tm_type m"
  using member_lengths [OF assms] by (auto simp: tar_header_def get_bytes_def ustar_magic_def nth_append)

lemma raw_stripped:
  assumes "member_ok m"
  shows "ustar_remove_last_slash (ustar_strip_prefix (buf_str (tm_raw m @ replicate (100 - length (tm_raw m)) 0)) VFS_MAX_PATH_LENGTH) = tm_name m"
proof -
  have z: "0 \<notin> set (tm_raw m)" using assms by (auto simp: member_ok_def tm_raw_def DOT_def SLASH_def)
  then have "buf_str (tm_raw m @ replicate (100 - length (tm_raw m)) 0) = tm_raw m"
    by (auto simp: buf_str_def takeWhile_append takeWhile_replicate)
  then show ?thesis using assms
    by (auto simp: member_ok_def ustar_strip_prefix_def ustar_remove_last_slash_def tm_raw_def VFS_MAX_PATH_LENGTH_def)
qed

lemma read_tar_header:
  assumes "member_ok m" and "length (tm_data m) < 2 ^ 31"
  shows "ustar_read_block_header (pre @ tar_header m @ suf) (length pre) = Some (tm_name m, of_nat (length (tm_data m)), tm_type m)"
proof -
  note h = tar_header_length [OF assms(1)] and f = tar_fields [OF assms(1)]
  have e: "tm_end m < 0x30 \<or> tm_end m > 0x37" using assms(1) by (simp add: member_ok_def)
  have "(pre @ tar_header m @ suf) ! (length pre + 156) = 0x30 + tm_type m" using h f(4) by (simp add: nth_append)
  moreover have "get_bytes (pre @ tar_header m @ suf) (length pre) 100 = tm_raw m @ replicate (100 - length (tm_raw m)) 0"
    using get_bytes_append [of 0 100 "tar_header m" pre suf] h f(2) by simp
  ultimately show ?thesis
    using get_bytes_append [of 257 5 "tar_header m" pre suf] get_bytes_append [of 124 12 "tar_header m" pre suf]
      oct2bin_field [of "length (tm_data m)" 11 "tm_end m"] e h f raw_stripped [OF assms(1)] assms(2)
    by (simp add: ustar_read_block_header_def)
qed

lemma and_not_511: "unat (w AND NOT 511) = unat w div 512 * 512" for w :: u32
proof -
  have m: "(511 :: u32) = mask 9" by (simp add: mask_eq_exp_minus_1)
  have "w AND NOT 511 = push_bit 9 (drop_bit 9 w)"
    unfolding m by (rule bit_word_eqI) (auto simp: bit_simps)
  moreover have "unat (push_bit 9 (drop_bit 9 w)) = unat w div 512 * 512"
  proof -
    have "unat w < 2 ^ 32" using unsigned_less [of w, where ?'a = nat] by simp
    then have "unat w div 512 * 512 < 2 ^ 32" by simp
    then show ?thesis by (simp add: push_bit_eq_mult drop_bit_eq_div unat_word_ariths unat_div)
  qed
  ultimately show ?thesis by simp
qed

lemma scast_of_nat:
  assumes "n < 2 ^ 31"
  shows "scast (of_nat n :: u32) = (of_nat n :: u64)"
proof -
  have "signed_take_bit 31 (int n) = int n" using assms by (intro signed_take_bit_int_eq_self) auto
  then have "sint (of_nat n :: u32) = int n" by (simp add: signed_of_nat)
  then show ?thesis by (metis of_int_of_nat_eq scast_eq)
qed

lemma ustar_step_ok:
  assumes "n + 1024 \<le> 2 ^ 31"
  shows "ustar_step (of_nat n) = of_nat (512 + up512 n)"
proof -
  have "unat (of_nat n + 511 :: u32) = n + 511"
    using assms by (simp add: unat_word_ariths unat_of_nat)
  then have a: "unat (align_to_512 (of_nat n)) = up512 n" unfolding align_to_512_def up512_def by (simp only: and_not_511)
  have "up512 n + 512 < 2 ^ 31" using assms by (simp add: up512_def)
  then have "unat (512 + align_to_512 (of_nat n)) = 512 + up512 n" using a by (simp add: unat_plus_if')
  then have "512 + align_to_512 (of_nat n) = of_nat (512 + up512 n)"
    using \<open>up512 n + 512 < 2 ^ 31\<close> by (simp add: word_unat_eq_iff unat_of_nat del: of_nat_add)
  then show ?thesis using \<open>up512 n + 512 < 2 ^ 31\<close> unfolding ustar_step_def by (metis scast_of_nat add.commute)
qed

lemma up512_ge: "n \<le> up512 n"
proof -
  have "(n + 511) div 512 * 512 + (n + 511) mod 512 = n + 511" by simp
  moreover have "(n + 511) mod 512 < 512" by simp
  ultimately show ?thesis unfolding up512_def by linarith
qed

lemma tar_bytes_length: "member_ok m \<Longrightarrow> length (tar_bytes m) = 512 + up512 (length (tm_data m))"
  using up512_ge [of "length (tm_data m)"] by (simp add: tar_bytes_def tar_header_length)

lemma archive_simps [simp]: "archive [] = []" "archive (m # ms) = tar_bytes m @ archive ms"
  by (simp_all add: archive_def)

lemma archive_length: "\<forall>m \<in> set ms. member_ok m \<Longrightarrow> 512 * length ms \<le> length (archive ms)"
  by (induction ms) (auto simp: tar_bytes_length)

text \<open>What a lookup makes of a member.\<close>

definition member_data :: "bytes \<Rightarrow> nat \<times> tar_member \<Rightarrow> ustar_data" where
  "member_data name = (\<lambda>(off, m).
     \<lparr>u_filename = tm_name m, u_name = name, u_size = of_nat (length (tm_data m)), u_data_offset = of_nat (off + 512),
      u_head_offset = of_nat off, u_type_flag = tm_type m\<rparr>)"

lemma ucast_of_nat32: "ucast (of_nat x :: u64) = (of_nat x :: u32)"
  by (rule bit_word_eqI) (simp add: bit_simps)

lemma find_end:
  assumes "tail_ok t" and "length (pre @ t) < 2 ^ 31"
  shows "ustar_find (Suc n) (pre @ t) name path (of_nat (length pre)) = Inr None"
proof -
  have i: "unat (of_nat (length pre) :: u64) = length pre" "unat (of_nat (length pre) + 512 :: u64) = length pre + 512"
    using assms(2) unat_of_nat64 [of "length pre"] unat_of_nat64 [of "length pre + 512"] by simp_all
  have "get_bytes (pre @ t) (length pre + 257) 5 = get_bytes t 257 5" by (simp add: get_bytes_def)
  then show ?thesis using assms(1) i by (auto simp: tail_ok_def ustar_read_block_header_def)
qed

lemma find_step:
  assumes "member_ok m" and "length (pre @ tar_bytes m @ suf) < 2 ^ 31"
  shows "ustar_find (Suc n) (pre @ tar_bytes m @ suf) name path (of_nat (length pre)) =
     (if names path m then Inr (Some (member_data name (length pre, m)))
      else ustar_find n (pre @ tar_bytes m @ suf) name path (of_nat (length (pre @ tar_bytes m))))"
proof -
  let ?n = "length (tm_data m)" and ?i = "of_nat (length pre) :: u64"
  have l: "length pre + 512 + up512 ?n \<le> length (pre @ tar_bytes m @ suf)" using tar_bytes_length [OF assms(1)] by simp
  have i: "unat ?i = length pre" "unat (?i + 512) = length pre + 512"
    using assms(2) unat_of_nat64 [of "length pre"] unat_of_nat64 [of "length pre + 512"] l by simp_all
  have n: "?n + 1024 \<le> 2 ^ 31" 
  proof -
    obtain q where "up512 ?n = q * 512" by (simp add: up512_def)
    moreover from this have "q \<le> 4194302" using l assms(2) by simp
    ultimately show ?thesis using up512_ge [of ?n] by simp
  qed
  have h: "ustar_read_block_header (pre @ tar_bytes m @ suf) (length pre) = Some (tm_name m, of_nat ?n, tm_type m)"
    using read_tar_header [OF assms(1), of pre] n by (simp add: tar_bytes_def)
  have nx: "?i + ustar_step (of_nat ?n) = of_nat (length (pre @ tar_bytes m))"
    using ustar_step_ok [OF n] tar_bytes_length [OF assms(1)] by simp
  have c: "ucast (?i + 512) = (of_nat (length pre + 512) :: u32)" "ucast ?i = (of_nat (length pre) :: u32)"
    using ucast_of_nat32 [of "length pre + 512"] ucast_of_nat32 [of "length pre"] by simp_all
  define X where "X = pre @ tar_bytes m @ suf"
  have "\<not> length X < length pre + 512" using l by (simp add: X_def)
  then show ?thesis using h unfolding X_def [symmetric] nx [symmetric] by (auto simp: i c member_data_def names_def)
qed

lemma find_archive:
  assumes "\<forall>m \<in> set ms. member_ok m" and "tail_ok t" and "length (pre @ archive ms @ t) < 2 ^ 31" and "length ms < n"
  shows "ustar_find n (pre @ archive ms @ t) name path (of_nat (length pre)) = Inr (map_option (member_data name) (member_at (length pre) path ms))"
  using assms
proof (induction ms arbitrary: pre n)
  case Nil
  then show ?case using find_end [of t pre] by (cases n) auto
next
  case (Cons m ms)
  obtain k where n: "n = Suc k" using Cons.prems(4) by (cases n) auto
  have m: "member_ok m" using Cons.prems by simp
  note IH = Cons.IH [of "pre @ tar_bytes m" k]
  show ?case
    using find_step [OF m, of pre "archive ms @ t" k name path] IH Cons.prems tar_bytes_length [OF m]
    by (auto simp: n add.assoc)
qed

lemma member_at_data:
  assumes "\<forall>m \<in> set ms. member_ok m" and "member_at (length pre) path ms = Some (off, m)"
  shows "m \<in> set ms \<and> tm_name m = path \<and> get_bytes (pre @ archive ms @ t) (off + 512) (length (tm_data m)) = tm_data m \<and>
     off + 512 + length (tm_data m) \<le> length (pre @ archive ms)"
  using assms
proof (induction ms arbitrary: pre)
  case (Cons k ms)
  show ?case
  proof (cases "names path k")
    case True
    then show ?thesis using Cons.prems tar_header_length [of k] by (auto simp: tar_bytes_def get_bytes_def names_def)
  next
    case False
    then show ?thesis using Cons.IH [of "pre @ tar_bytes k"] Cons.prems by (auto simp: tar_bytes_length add.assoc)
  qed
qed simp

lemma ustar_lookup_at:
  assumes "\<forall>m \<in> set ms. member_ok m" and "tail_ok t" and "length (archive ms @ t) < 2 ^ 31"
    and "path = (if u_filename parent_data = [] then name else u_filename parent_data @ [SLASH] @ name)" and "length path < 256"
  shows "ustar_lookup parent_data name (Some (archive ms @ t)) = Inr (map_option (member_data name) (member_at 0 path ms))"
proof (cases "length (archive ms @ t) < 512")
  case True
  then have "ms = []" using archive_length [OF assms(1)] by (cases ms) auto
  then show ?thesis using True assms(4,5) by (simp add: ustar_lookup_def VFS_MAX_PATH_LENGTH_def Let_def)
next
  case False
  have "length ms < ustar_rounds (archive ms @ t)"
    using archive_length [OF assms(1)] by (simp add: ustar_rounds_def less_Suc_eq_le less_eq_div_iff_mult_less_eq)
  then show ?thesis
    using False assms find_archive [of ms t "[]" "ustar_rounds (archive ms @ t)" name path]
    by (simp add: ustar_lookup_def VFS_MAX_PATH_LENGTH_def Let_def)
qed

text \<open>An archive as \<^verbatim>\<open>tar\<close> writes it, with the root first: a directory \<^verbatim>\<open>bin\<close>, a symbolic link \<^verbatim>\<open>bin/sh\<close>, a file \<^verbatim>\<open>bin/sh\<close> of three
  bytes and an empty file \<^verbatim>\<open>bin/e\<close>.\<close>

definition demo_bin :: tar_member where
  "demo_bin = \<lparr>tm_name = [0x62, 0x69, 0x6E], tm_type = U_DIRECTORY, tm_slash = True, tm_data = [], tm_dot = True, tm_mode = replicate 24 0x30, tm_end = 0,
     tm_mtime = replicate 20 0x30, tm_link = replicate 100 0, tm_rest = replicate 250 0\<rparr>"

definition demo_sh :: tar_member where
  "demo_sh = demo_bin\<lparr>tm_name := [0x62, 0x69, 0x6E, 0x2F, 0x73, 0x68], tm_type := U_NORMAL, tm_slash := False, tm_data := [1, 2, 3]\<rparr>"

definition demo_root :: tar_member where
  "demo_root = demo_bin\<lparr>tm_name := [], tm_slash := False\<rparr>"

definition demo_link :: tar_member where
  "demo_link = demo_sh\<lparr>tm_type := 2, tm_data := []\<rparr>"

definition demo_empty :: tar_member where
  "demo_empty = demo_sh\<lparr>tm_name := [0x62, 0x69, 0x6E, 0x2F, 0x65], tm_data := []\<rparr>"

lemmas demo_defs = demo_root_def demo_link_def demo_empty_def demo_sh_def demo_bin_def

definition demo_tar :: "tar_member list" where
  "demo_tar = [demo_root, demo_bin, demo_link, demo_sh, demo_empty]"

lemma demo_members_ok: "\<forall>m \<in> set demo_tar. member_ok m"
  by (simp add: demo_tar_def member_ok_def tm_raw_def demo_defs SLASH_def)

lemma demo_archive_length: "length (archive demo_tar) = 3072"
  using demo_members_ok by (simp add: demo_tar_def tar_bytes_length) (simp add: demo_defs up512_def)

lemma demo_tar_at:
  "member_at 0 [0x62, 0x69, 0x6E] demo_tar = Some (512, demo_bin)"
  "member_at 0 [0x62, 0x69, 0x6E, 0x2F, 0x73, 0x68] demo_tar = Some (1536, demo_sh)" "member_at 0 [0x78] demo_tar = None"
  by (simp_all add: demo_tar_def names_def demo_defs up512_def U_DIRECTORY_def U_NORMAL_def)

section \<open>Properties\<close>

text \<open>C15: A lookup in an archive: for the USTAR image of any list of members of any types, the entry \<^verbatim>\<open>./\<close> of the
  root among them (paths with or without a leading \<^verbatim>\<open>./\<close> and a trailing slash, sizes in octal), \<^verbatim>\<open>_ustar_lookup\<close> returns
  the size, type and data offset of the first file or directory of that path below the parent, and nothing
  when there is none; links, devices and the root's own entry are passed over.  The search path must
  fit its buffer of 256 bytes and the archive must be smaller than 2 GiB.\<close>

theorem ustar_lookup_first:
  assumes "\<forall>m \<in> set ms. member_ok m" and "tail_ok t" and "length (archive ms @ t) < 2 ^ 31"
    and "path = (if u_filename parent_data = [] then name else u_filename parent_data @ [SLASH] @ name)" and "length path < 256"
  shows "ustar_lookup parent_data name (Some (archive ms @ t)) = Inr (map_option (member_data name) (member_at 0 path ms))"
  using assms by (rule ustar_lookup_at)

theorem ustar_lookup_first_witness:
  "ustar_lookup (zustar\<lparr>u_filename := [0x62, 0x69, 0x6E]\<rparr>) [0x73, 0x68] (Some (archive demo_tar)) =
     Inr (Some \<lparr>u_filename = [0x62, 0x69, 0x6E, 0x2F, 0x73, 0x68], u_name = [0x73, 0x68], u_size = 3, u_data_offset = 2048,
                u_head_offset = 1536, u_type_flag = U_NORMAL\<rparr>)"
  using ustar_lookup_first [of demo_tar "[]" "[0x62, 0x69, 0x6E, 0x2F, 0x73, 0x68]" "zustar\<lparr>u_filename := [0x62, 0x69, 0x6E]\<rparr>" "[0x73, 0x68]"]
    demo_archive_length demo_members_ok demo_tar_at
  by (simp add: tail_ok_def SLASH_def) (simp add: member_data_def demo_defs)

end
