(* ===== verification/FatVfs.thy ===== *)
theory FatVfs
  imports FsState
begin

unbundle bit_operations_syntax

text \<open>
  The FAT32 file system behind the virtual file system, the last part of \<^verbatim>\<open>src/kernel/src/fs/fat32.c\<close>: mounting the
  volume, looking up names, and the file operations on the driver state of \<^verbatim>\<open>FatMount\<close>.  The disk is
  the environment of the driver; a loop of the driver that does not return is the fault
  \<open>NoReturn\<close>.
\<close>

section \<open>Calling the driver\<close>

definition fat_call :: "('d drv \<Rightarrow> 'r \<times> 'd drv) \<Rightarrow> ('d kfs, 'r) km" where
  "fat_call m s =
     (case m (fat_drv (fs_state s)) of (r, w) \<Rightarrow> Inr (r, s\<lparr>fs_state := (fs_state s)\<lparr>fat_drv := w\<rparr>\<rparr>))"

definition fat_returns :: "int + 'a \<Rightarrow> ('s, int + 'a) km" where
  "fat_returns r = (case r of Inl err \<Rightarrow> if err = NO_RETURN then kfault NoReturn else kreturn r | Inr _ \<Rightarrow> kreturn r)"

text \<open>A call on an open file of its volume; the driver tests for the null volume itself.\<close>

definition fat_file_call :: "fat_file \<Rightarrow> (fat_file \<times> 'd st \<Rightarrow> 'r \<times> fat_file \<times> 'd st) \<Rightarrow> ('d kfs, 'r \<times> fat_file) km" where
  "fat_file_call fl m =
     fat_call (on_vol (case fl_fat fl of None \<Rightarrow> 0 | Some v \<Rightarrow> v) (\<lambda>s. case m (fl, s) of (r, fl1, s1) \<Rightarrow> ((r, fl1), s1)))"

text \<open>A directory cursor on the stack, before it is assigned.\<close>

definition raw_dir :: "'d env \<Rightarrow> dir" where
  "raw_dir E = \<lparr>d_sclust = stack_clust (stk E), d_clust = stack_clust (stk E), d_sect = stack_sect (stk E), d_idx = stack_idx (stk E)\<rparr>"

definition zfat_file :: fat_file where
  "zfat_file = \<lparr>fl_fat = None, fl_dir_sect = 0, fl_sclust = 0, fl_clust = 0, fl_sect = 0, fl_size = 0, fl_offset = 0, fl_dir_idx = 0,
     fl_attr = 0, fl_flags = 0, fl_buf = replicate 512 0\<rparr>"

definition fat_pdata :: "addr \<Rightarrow> ('d kfs, fat32_inode_data) km" where
  "fat_pdata io =
     kbind (kderef inodes io) (\<lambda>i. case i_pdata i of Some (PFat p) \<Rightarrow> kreturn p | _ \<Rightarrow> kfault NullDeref)"

section \<open>Mounting\<close>

definition fat32_init :: "'d env \<Rightarrow> 'd kfs \<Rightarrow> 'd kfs" where
  "fat32_init E s =
     (let (ok, b, d) = op_read E (replicate 512 0) 0 (drv_dev (fat_drv (fs_state s)));
          active = (if get_u16 b mbr_sig = 0xaa55
                    then List.find (\<lambda>i. b ! (mbr_part i + part_type) = 0x0c \<or> b ! (mbr_part i + part_type) = 0x0b) [0..<4]
                    else None);
          x = fs_state s;
          x1 = x\<lparr>fat_drv := (fat_drv x)\<lparr>drv_dev := d\<rparr>,
                 fat32_active_part := (case active of None \<Rightarrow> fat32_active_part x | Some i \<Rightarrow> int i)\<rparr>
      in vfs_register_fs [0x66, 0x61, 0x74, 0x33, 0x32] FAT32 (s\<lparr>fs_state := x1\<rparr>))"

definition root_name :: bytes where
  "root_name = [0x72, 0x6F, 0x6F, 0x74]"

definition fat_root_inode :: "nat \<Rightarrow> u32 \<Rightarrow> pdata inode" where
  "fat_root_inode v clust =
     zinode\<lparr>i_ops := Some FAT32, i_type := VFS_NODE_DIRECTOR, i_fops := Some FAT32,
            i_pdata := Some (PFat \<lparr>fi_fat = v, fi_start_clus = clust, fi_file_size = 0, fi_attr = FAT_ATTR_DIR, fi_is_root = True,
                                   fi_dir_sect = 0, fi_dir_idx = 0\<rparr>)\<rparr>"

definition fat32_mksb :: "'d env \<Rightarrow> nat \<Rightarrow> ('d kfs, addr) km" where
  "fat32_mksb E fs =
     kbind (kget (\<lambda>s. next_vol (fs_state s))) (\<lambda>v.
     kbind (upd_sys (\<lambda>x. x\<lparr>next_vol := Suc v, fat_drv := (fat_drv x)\<lparr>drv_mem := (drv_mem (fat_drv x))(v := zfat)\<rparr>\<rparr>)) (\<lambda>_.
     kbind (kget (\<lambda>s. nat (fat32_active_part (fs_state s)))) (\<lambda>part.
     kbind (fat_call (fat_mount E part v root_name)) (\<lambda>r. case r of
       Inl _ \<Rightarrow> kreturn 0
     | Inr _ \<Rightarrow>
         kbind (kget (\<lambda>s. root_clust (drv_mem (fat_drv (fs_state s)) v))) (\<lambda>clust.
         make_sb fs (zdentry\<lparr>d_name := [SLASH], d_ops := Some FAT32\<rparr>) (fat_root_inode v clust))))))"

section \<open>Looking up\<close>

definition fat_inode :: "addr \<Rightarrow> fat32_inode_data \<Rightarrow> dir \<Rightarrow> bytes \<Rightarrow> pdata inode" where
  "fat_inode sb parent_data d b =
     (let i = dir_ptr d; attr = b ! (i + sfn_attr); sz = get_u32 b (i + sfn_size)
      in zinode\<lparr>i_sb := sb, i_ops := Some FAT32, i_fops := Some FAT32,
                i_type := (if attr AND FAT_ATTR_DIR \<noteq> 0 then VFS_NODE_DIRECTOR else VFS_NODE_FILE),
                i_fsize := (if attr AND FAT_ATTR_DIR \<noteq> 0 then 0 else ucast sz),
                i_pdata := Some (PFat \<lparr>fi_fat = fi_fat parent_data, fi_start_clus = sfn_cluster b i, fi_file_size = sz, fi_attr = attr,
                                       fi_is_root = False, fi_dir_sect = d_sect d, fi_dir_idx = d_idx d\<rparr>)\<rparr>)"

definition fat32_lookup :: "'d env \<Rightarrow> addr \<Rightarrow> addr \<Rightarrow> ('d kfs, addr) km" where
  "fat32_lookup E io e =
     kbind (fat_pdata io) (\<lambda>parent_data.
     if fi_attr parent_data AND FAT_ATTR_DIR = 0 then kreturn 0
     else kbind (kderef inodes io) (\<lambda>this.
       kbind (kderef dentries e) (\<lambda>de.
       kbind (fat_call (on_dirh (fi_fat parent_data) ((raw_dir E)\<lparr>d_sclust := fi_start_clus parent_data\<rparr>)
                (ebind (dir_search E (d_name de) (length (d_name de))) (\<lambda>_. dir_load E)))) (\<lambda>(r, d).
       kbind (fat_returns r) (\<lambda>r'. case r' of
         Inl _ \<Rightarrow> kreturn 0
       | Inr _ \<Rightarrow>
           kbind (kget (\<lambda>s. buf (drv_mem (fat_drv (fs_state s)) (fi_fat parent_data)))) (\<lambda>b.
           fill_dentry e (fat_inode (i_sb this) parent_data d b) FAT32))))))"

section \<open>Files\<close>

text \<open>The open file and its position, as every operation leaves them.\<close>

definition put_file :: "addr \<Rightarrow> fat_file \<Rightarrow> ('d kfs, unit) km" where
  "put_file fd fl = upd_file fd (\<lambda>f. f\<lparr>f_pos := ucast (fl_offset fl), f_pdata := Some fl\<rparr>)"

definition fat32_open :: "'d env \<Rightarrow> addr \<Rightarrow> addr \<Rightarrow> ('d kfs, int) km" where
  "fat32_open E io fd =
     kbind (fat_pdata io) (\<lambda>idata.
     kbind (kderef files fd) (\<lambda>f.
     let fl = zfat_file\<lparr>fl_fat := Some (fi_fat idata), fl_dir_sect := fi_dir_sect idata, fl_dir_idx := fi_dir_idx idata,
                fl_sclust := fi_start_clus idata, fl_clust := fi_start_clus idata, fl_size := fi_file_size idata, fl_attr := fi_attr idata,
                fl_flags := (if f_openmode f = VFS_MODE_WRITE \<or> f_openmode f = VFS_MODE_READWRITE then FAT_READ OR FAT_WRITE else FAT_READ),
                fl_sect := 0xffffffff, fl_offset := 0\<rparr>
     in kbind (fat_file_call fl (fat_file_seek E 0 FAT_SEEK_START)) (\<lambda>(r, fl1).
        kbind (fat_returns r) (\<lambda>_.
        kbind (put_file fd fl1) (\<lambda>_. kreturn 0)))))"

definition fat32_close :: "'d env \<Rightarrow> addr \<Rightarrow> addr \<Rightarrow> ('d kfs, int) km" where
  "fat32_close E io fd =
     kbind (kderef files fd) (\<lambda>f. case f_pdata f of
       None \<Rightarrow> kreturn 0
     | Some fl \<Rightarrow>
         kbind (fat_file_call fl (fat_file_sync E)) (\<lambda>(r, fl1).
         kbind (fat_returns r) (\<lambda>_.
         kbind (upd_file fd (\<lambda>f. f\<lparr>f_pdata := None\<rparr>)) (\<lambda>_. kreturn 0))))"

definition fat32_read :: "'d env \<Rightarrow> addr \<Rightarrow> addr \<Rightarrow> int \<Rightarrow> ('d kfs, int \<times> bytes) km" where
  "fat32_read E io fd len =
     kbind (kderef files fd) (\<lambda>f. case f_pdata f of
       None \<Rightarrow> kreturn (-1, [])
     | Some fl \<Rightarrow>
         if len \<le> 0 then kreturn (0, [])
         else kbind (fat_file_call fl (fat_file_read E (of_int len))) (\<lambda>((err, dst), fl1).
              if err = NO_RETURN then kfault NoReturn
              else kbind (put_file fd fl1) (\<lambda>_. kreturn (if err \<noteq> FAT_ERR_NONE then -1 else 0, dst))))"

definition fat32_write :: "'d env \<Rightarrow> addr \<Rightarrow> addr \<Rightarrow> int \<Rightarrow> bytes \<Rightarrow> ('d kfs, int) km" where
  "fat32_write E io fd len buffer =
     kbind (kderef files fd) (\<lambda>f. case f_pdata f of
       None \<Rightarrow> kreturn (-1)
     | Some fl \<Rightarrow>
         if len \<le> 0 then kreturn 0
         else if length buffer < nat len then kfault OutOfBounds
         else kbind (fat_file_call fl (fat_file_write E (take (nat len) buffer))) (\<lambda>((err, moved), fl1).
              kbind (put_file fd fl1) (\<lambda>_.
              kbind (upd_inode io (\<lambda>i. i\<lparr>i_fsize := ucast (fl_size fl1)\<rparr>)) (\<lambda>_.
              kreturn (if err \<noteq> FAT_ERR_NONE then -1 else 0)))))"

definition seek_of :: "int \<Rightarrow> int option" where
  "seek_of wence =
     (if wence = SEEK_SET then Some FAT_SEEK_START else if wence = SEEK_CUR then Some FAT_SEEK_CURR
      else if wence = SEEK_END then Some FAT_SEEK_END else None)"

definition fat32_lseek :: "'d env \<Rightarrow> addr \<Rightarrow> addr \<Rightarrow> int \<Rightarrow> int \<Rightarrow> ('d kfs, int) km" where
  "fat32_lseek E io fd offset wence =
     kbind (kderef files fd) (\<lambda>f. case f_pdata f of
       None \<Rightarrow> kreturn (-1)
     | Some fl \<Rightarrow>
         (case seek_of wence of
            None \<Rightarrow> kreturn (-1)
          | Some seek \<Rightarrow>
              kbind (fat_file_call fl (fat_file_seek E (of_int offset) seek)) (\<lambda>(r, fl1).
              kbind (fat_returns r) (\<lambda>r'.
              kbind (put_file fd fl1) (\<lambda>_.
              kreturn (case r' of Inl _ \<Rightarrow> -1 | Inr _ \<Rightarrow> sint (fl_offset fl1)))))))"

section \<open>Listing\<close>

definition fat_dirent :: "dirinfo \<Rightarrow> dirent" where
  "fat_dirent info =
     \<lparr>de_name = take (unat (di_name_len info)) (di_name info),
      de_type = (if di_attr info AND FAT_ATTR_DIR \<noteq> 0 then VFS_NODE_DIRECTOR else VFS_NODE_FILE), de_sz = di_size info\<rparr>"

definition is_dot :: "dirinfo \<Rightarrow> bool" where
  "is_dot info \<longleftrightarrow>
     di_name_len info = 1 \<and> di_name info ! 0 = DOT \<or> di_name_len info = 2 \<and> di_name info ! 0 = DOT \<and> di_name info ! 1 = DOT"

text \<open>The code goes on whatever \<^verbatim>\<open>fat_dir_next\<close> returns.\<close>

fun fat_list :: "'d env \<Rightarrow> nat \<Rightarrow> ('d, dirent list) dm" where
  "fat_list E 0 ds = ethrow NO_RETURN ds"
| "fat_list E (Suc n) ds =
     (case fat_dir_read E ds of
        (Inl err, ds1) \<Rightarrow> if err = NO_RETURN then ethrow NO_RETURN ds1 else ereturn [] ds1
      | (Inr info, ds1) \<Rightarrow>
          (case fat_dir_next E ds1 of (_, ds2) \<Rightarrow>
             ebind (fat_list E n) (\<lambda>es. ereturn (if is_dot info then es else fat_dirent info # es)) ds2))"

definition iterate_dir :: "'d env \<Rightarrow> fat32_inode_data \<Rightarrow> bytes option \<Rightarrow> 'd drv \<Rightarrow> ((int + unit) \<times> nat option \<times> dir) \<times> 'd drv" where
  "iterate_dir E idata path w =
     (case path of
        Some (c # p) \<Rightarrow> fat_dir_open E (c # p) (None, raw_dir E) w
      | _ \<Rightarrow>
          if fi_is_root idata then fat_dir_open E (SLASH # root_name) (None, raw_dir E) w
          else ((Inr (), Some (fi_fat idata), dir_enter (fi_start_clus idata) (drv_mem w (fi_fat idata)) (raw_dir E)), w))"

definition fat32_iterate :: "'d env \<Rightarrow> addr \<Rightarrow> addr \<Rightarrow> bytes option \<Rightarrow> ('d kfs, int \<times> dirent list) km" where
  "fat32_iterate E io fd path =
     kbind (fat_pdata io) (\<lambda>idata.
     if fi_attr idata AND FAT_ATTR_DIR = 0 then kreturn (-1, [])
     else kbind (fat_call (iterate_dir E idata path)) (\<lambda>(r, v, d).
       kbind (fat_returns r) (\<lambda>r'. case r' of
         Inl _ \<Rightarrow> kreturn (-1, [])
       | Inr _ \<Rightarrow>
           (case v of None \<Rightarrow> kreturn (0, [])
            | Some i \<Rightarrow>
                kbind (fat_call (on_dirh i d (fat_list E (fuel E)))) (\<lambda>(l, _).
                case l of Inl _ \<Rightarrow> kfault NoReturn | Inr entries \<Rightarrow> kreturn (int (length entries), entries))))))"

definition fat32_ops :: "'d env \<Rightarrow> ('d sys, pdata, fat_file) fs_ops" where
  "fat32_ops E =
     \<lparr>fo_mksb = fat32_mksb E, fo_lookup = fat32_lookup E, fo_open = fat32_open E, fo_close = fat32_close E, fo_read = fat32_read E,
      fo_write = fat32_write E, fo_lseek = Some (fat32_lseek E), fo_iterate = Some (fat32_iterate E)\<rparr>"

section \<open>The contract\<close>

lemma fat_pdata_state: "fat_pdata io s = Inr (p, s') \<Longrightarrow> s' = s"
  by (auto simp: fat_pdata_def elim!: kbind_Inr_E split: option.splits pdata.splits)

lemma fat_returns_state: "fat_returns r s = Inr (r', s') \<Longrightarrow> s' = s"
  by (auto simp: fat_returns_def split: sum.splits if_splits)

lemma fat_call_step: "fat_call m s = Inr (r, s') \<Longrightarrow> file_step s s'"
  by (auto simp: fat_call_def split: prod.splits)

lemma put_file_step: "put_file fd fl s = Inr (u, s') \<Longrightarrow> file_step s s'"
  unfolding put_file_def by (erule upd_pdata_step)

lemma make_sb_mksb_step:
  assumes "make_sb fs d i s1 = Inr (b, s')" and "file_step s s1" and "d_subdirs d = []" and "i_mountpoint i = 0"
  shows "mksb_step b s s'"
  using assms file_stepD(3) [OF assms(2)] unfolding mksb_step_def by (auto simp: make_sb_mounted)

lemma fill_dentry_after:
  assumes "fill_dentry e i fs s1 = Inr (r, s')" and "file_step s s1" and "i_mountpoint i = 0"
    and "inodes s io = Some j" and "i_sb i = i_sb j"
  shows "lookup_step io e s s'"
  using fill_dentry_step [OF assms(3,1)] assms(2-) unfolding lookup_step_def by blast

lemma fat_inode_mountpoint [simp]: "i_mountpoint (fat_inode sb p d b) = 0" "i_mountpoint (fat_root_inode v c) = 0"
  by (simp_all add: fat_inode_def fat_root_inode_def zinode_def Let_def)

lemma fat32_mksb_step:
  fixes s s' :: "'d kfs"
  assumes "fat32_mksb E fs s = Inr (b, s')"
  shows "mksb_step b s s'"
proof -
  obtain v s1 s2 r where s1: "upd_sys (\<lambda>x. x\<lparr>next_vol := Suc v, fat_drv := (fat_drv x)\<lparr>drv_mem := (drv_mem (fat_drv x))(v := zfat)\<rparr>\<rparr>) s = Inr ((), s1)"
    and s2: "fat_call (fat_mount E (nat (fat32_active_part (fs_state s1))) v root_name) s1 = Inr (r, s2)"
    and r: "(case r of Inl _ \<Rightarrow> kreturn 0 | Inr _ \<Rightarrow>
         kbind (kget (\<lambda>s. root_clust (drv_mem (fat_drv (fs_state s)) v))) (\<lambda>clust.
         make_sb fs (zdentry\<lparr>d_name := [SLASH], d_ops := Some FAT32\<rparr>) (fat_root_inode v clust))) s2 = Inr (b, s')"
    using assms by (auto simp: fat32_mksb_def elim!: kbind_Inr_E)
  have f: "file_step s s2" using s1 fat_call_step [OF s2] by (auto simp: upd_sys_Inr intro: file_step_trans [OF file_step_sys])
  show ?thesis
  proof (cases r)
    case (Inl e)
    then show ?thesis using r f by (simp add: mksb_step_def)
  next
    case (Inr u)
    with r have "make_sb fs (zdentry\<lparr>d_name := [SLASH], d_ops := Some FAT32\<rparr>)
      (fat_root_inode v (root_clust (drv_mem (fat_drv (fs_state s2)) v))) s2 = Inr (b, s')" by simp
    then show ?thesis by (rule make_sb_mksb_step [OF _ f]) (simp_all add: zdentry_def)
  qed
qed

lemma lookup_step_file: "file_step s s' \<Longrightarrow> lookup_step io e s s'"
  by (simp add: lookup_step_def)

lemma fat_fill_step:
  "fill_dentry e (fat_inode (i_sb j) p d b) fs s1 = Inr (r, s') \<Longrightarrow> file_step s s1 \<Longrightarrow> inodes s io = Some j \<Longrightarrow> lookup_step io e s s'"
  by (erule (1) fill_dentry_after) (simp_all add: fat_inode_def zinode_def Let_def)

lemma fat_file_call_step: "fat_file_call fl m s = Inr (r, s') \<Longrightarrow> file_step s s'"
  unfolding fat_file_call_def by (rule fat_call_step)

lemma upd_fsize_step: "upd_inode io (\<lambda>i. i\<lparr>i_fsize := z\<rparr>) s = Inr (u, s') \<Longrightarrow> file_step s s'"
  by (auto simp: upd_inode_def same_inode_def elim!: kbind_Inr_E intro!: file_step_upd_inode)

lemma drop_pdata_step: "upd_file fd (\<lambda>f. f\<lparr>f_pdata := None\<rparr>) s = Inr (u, s') \<Longrightarrow> file_step s s'"
  by (erule upd_file_step) (simp add: same_file_def)

lemmas fat_steps = fat_call_step fat_file_call_step put_file_step upd_fsize_step drop_pdata_step
lemmas fat_states = fat_pdata_state fat_returns_state

interpretation fat: file_system "fat32_ops E" for E :: "'d env"
proof unfold_locales
  show "fo_mksb (fat32_ops E) fs s = Inr (b, s') \<Longrightarrow> mksb_step b s s'" for fs b and s s' :: "'d kfs"
    by (simp add: fat32_ops_def fat32_mksb_step)
  show "fo_lookup (fat32_ops E) io e s = Inr (r, s') \<Longrightarrow> lookup_step io e s s'" for io e r and s s' :: "'d kfs"
    by (auto simp: fat32_ops_def fat32_lookup_def elim!: kbind_Inr_E dest!: fat_states fat_steps
        split: if_splits sum.splits) (erule (2) fat_fill_step | erule lookup_step_file | rule lookup_step_file [OF file_step_refl])+
  show "fo_open (fat32_ops E) io fd s = Inr (rc, s') \<Longrightarrow> file_step s s'" for io fd rc and s s' :: "'d kfs"
    by (auto simp: fat32_ops_def fat32_open_def Let_def elim!: kbind_Inr_E dest!: fat_states fat_steps intro: file_step_trans)
  show "fo_close (fat32_ops E) io fd s = Inr (rc, s') \<Longrightarrow> file_step s s'" for io fd rc and s s' :: "'d kfs"
    by (auto simp: fat32_ops_def fat32_close_def elim!: kbind_Inr_E dest!: fat_states fat_steps split: option.splits) (erule (1) file_step_trans)
  show "fo_read (fat32_ops E) io fd len s = Inr (rd, s') \<Longrightarrow> file_step s s'" for io fd len rd and s s' :: "'d kfs"
    by (auto simp: fat32_ops_def fat32_read_def elim!: kbind_Inr_E dest!: fat_states fat_steps
        split: option.splits if_splits) (assumption | erule file_step_trans)+
  show "fo_write (fat32_ops E) io fd len buff s = Inr (rc, s') \<Longrightarrow> file_step s s'" for io fd len buff rc and s s' :: "'d kfs"
    by (auto simp: fat32_ops_def fat32_write_def elim!: kbind_Inr_E dest!: fat_states fat_steps
        split: option.splits if_splits) (assumption | erule file_step_trans)+
  show "fo_lseek (fat32_ops E) = Some lseek \<Longrightarrow> lseek io fd offset wence s = Inr (rc, s') \<Longrightarrow> file_step s s'"
    for lseek io fd offset wence rc and s s' :: "'d kfs"
    by (auto simp: fat32_ops_def fat32_lseek_def elim!: kbind_Inr_E dest!: fat_states fat_steps
        split: option.splits if_splits) (assumption | erule file_step_trans)+
  show "fo_iterate (fat32_ops E) = Some iter \<Longrightarrow> iter io fd path s = Inr (ri, s') \<Longrightarrow> file_step s s'"
    for iter io fd path ri and s s' :: "'d kfs"
    by (auto simp: fat32_ops_def fat32_iterate_def elim!: kbind_Inr_E dest!: fat_states fat_steps
        split: option.splits if_splits sum.splits) (assumption | erule file_step_trans)+
qed

section \<open>The size kept with the inode\<close>

text \<open>\<^verbatim>\<open>fat32_write\<close> records a new size in the inode but not in the private data from which \<^verbatim>\<open>fat32_open\<close> takes
  the size of a file, so a file that has grown is opened again with its old size as long as its
  entry is known.\<close>

lemma fat_file_call_inodes: "fat_file_call fl m s = Inr (r, s') \<Longrightarrow> inodes s' = inodes s"
  by (auto simp: fat_file_call_def fat_call_def split: prod.splits)

lemma put_file_inodes: "put_file fd fl s = Inr (u, s') \<Longrightarrow> inodes s' = inodes s"
  by (auto simp: put_file_def upd_file_def elim!: kbind_Inr_E)

lemma fat32_write_keeps_pdata:
  assumes "fat32_write E io fd len buffer s = Inr (rc, s')" and "inodes s io = Some i"
  shows "\<exists>j. inodes s' io = Some j \<and> i_pdata j = i_pdata i"
  using assms
  by (auto simp: fat32_write_def upd_inode_def elim!: kbind_Inr_E dest!: fat_file_call_inodes put_file_inodes
      split: option.splits if_splits)

end
