(* ===== verification/VFSOpen.thy ===== *)
theory VFSOpen
  imports VFSInv
begin

text \<open>
  The open files and the lists of the tasks: opening, closing and copying change both together and
  the other calls leave them alone, so every open file stays in the list of a task.  With the
  objects of \<^verbatim>\<open>VFSInv\<close> this is the well-formedness every call preserves.
\<close>

section \<open>Well-formed states\<close>

text \<open>Every open file is in the list of a task, so that its handle is found; with \<open>lists_ok\<close> it is in
  exactly one list, once.\<close>

definition all_listed :: "('x, 'p, 'q) vfs \<Rightarrow> bool" where
  "all_listed s \<longleftrightarrow> (\<forall>a \<in> dom (files s). \<exists>t. a \<in> set (open_files s t))"

definition vfs_wf :: "('x, 'p, 'q) vfs \<Rightarrow> bool" where
  "vfs_wf s \<longleftrightarrow> objects_ok s \<and> all_listed s"

text \<open>The same files are open, in the same lists.\<close>

definition same_open :: "('x, 'p, 'q) vfs \<Rightarrow> ('x, 'p, 'q) vfs \<Rightarrow> bool" where
  "same_open s s' \<longleftrightarrow> dom (files s') = dom (files s) \<and> open_files s' = open_files s"

lemma same_open_refl [simp]: "same_open s s"
  by (simp add: same_open_def)

lemma same_open_trans: "same_open s t \<Longrightarrow> same_open t u \<Longrightarrow> same_open s u"
  by (simp add: same_open_def)

lemma listed_same: "same_open s s' \<Longrightarrow> all_listed s \<Longrightarrow> all_listed s'"
  by (simp add: same_open_def all_listed_def)

lemma file_step_open: "file_step s s' \<Longrightarrow> same_open s s'"
  by (simp add: same_open_def file_step_files(1) file_stepD(8))

text \<open>The other objects play no role.\<close>

lemma same_open_right [simp]:
  "same_open s (t\<lparr>dentries := D\<rparr>) = same_open s t" "same_open s (t\<lparr>inodes := I\<rparr>) = same_open s t"
  "same_open s (t\<lparr>sbs := B\<rparr>) = same_open s t" "same_open s (t\<lparr>next_addr := n\<rparr>) = same_open s t"
  "same_open s (t\<lparr>vfs_root := r\<rparr>) = same_open s t" "same_open s (t\<lparr>vfs_next_handle_count := h\<rparr>) = same_open s t"
  by (simp_all add: same_open_def)

lemma same_open_left [simp]:
  "same_open (s\<lparr>dentries := D\<rparr>) t = same_open s t" "same_open (s\<lparr>next_addr := n\<rparr>) t = same_open s t"
  by (simp_all add: same_open_def)

lemma lookup_step_open: "lookup_step io e s s' \<Longrightarrow> same_open s s'"
  by (auto simp: lookup_step_def filled_def dest: file_step_open)

lemma mksb_step_open: "mksb_step b s s' \<Longrightarrow> same_open s s'"
  by (auto simp: mksb_step_def mounted_def Let_def dest: file_step_open)

lemma listed_add:
  assumes l: "all_listed s" and "dom (files s') = insert a (dom (files s))"
    and o: "open_files s' = (open_files s)(t := open_files s t @ [a])"
  shows "all_listed s'"
  unfolding all_listed_def assms(2)
proof
  fix b assume "b \<in> insert a (dom (files s))"
  then consider "b = a" | u where "b \<in> set (open_files s u)" using l by (auto simp: all_listed_def)
  then show "\<exists>u. b \<in> set (open_files s' u)"
  proof cases
    case 1
    then have "b \<in> set (open_files s' t)" by (simp add: o)
    then show ?thesis by blast
  next
    case 2
    then have "b \<in> set (open_files s' u)" by (auto simp: o)
    then show ?thesis by blast
  qed
qed

lemma listed_remove:
  assumes "all_listed s"
  shows "all_listed (remove_open_file fd s\<lparr>files := (files s)(fd := None)\<rparr>)"
  using assms by (simp add: all_listed_def remove_open_file_def)

lemma listed_handle [simp]: "all_listed (s\<lparr>vfs_next_handle_count := h\<rparr>) = all_listed s"
  by (simp add: all_listed_def)

section \<open>The calls\<close>

context vfs_tables
begin

lemma ask_lookup_open: "ask_lookup tb p a s = Inr (r, s') \<Longrightarrow> same_open s s'"
  using ask_lookup_step lookup_step_open by blast

lemma lookup_child_open: "lookup_child tb p name s = Inr (c, s') \<Longrightarrow> same_open s s'"
  by (auto simp: lookup_child_def new_dentry_def kfree_dentry_def upd_dentry_def elim!: kbind_Inr_E
      dest!: ask_lookup_open split: if_splits)

lemma resolve_child_open: "resolve_child tb p name s = Inr (c, s') \<Longrightarrow> same_open s s'"
  by (auto simp: resolve_child_def elim!: kbind_Inr_E dest!: find_child_state lookup_child_open split: if_splits)

lemma cross_mount_state: "cross_mount c s = Inr (d, s') \<Longrightarrow> s' = s"
  by (auto simp: cross_mount_def elim!: kbind_Inr_E split: if_splits)

lemma resolve_loop_open: "resolve_loop tb tmp nxt cur p s = Inr (c, s') \<Longrightarrow> same_open s s'"
proof (induction "length (buf_str tmp)" arbitrary: tmp nxt cur p s rule: less_induct)
  case less
  from less.prems obtain hn tmp' nxt' where n: "vfs_next_path tmp nxt True = Inr (hn, tmp', nxt')"
    by (subst (asm) resolve_loop.simps) (auto split: sum.splits)
  note res = less.prems [unfolded resolve_loop.simps [of _ tmp] n, simplified]
  show ?case
  proof (cases hn)
    case False
    then show ?thesis using res by simp
  next
    case True
    note IH = less.hyps [OF next_path_shorter [OF n True]]
    from res True consider cur' p' where "resolve_loop tb tmp' nxt' cur' p' s = Inr (c, s')"
      | x s1 where "resolve_child tb p (buf_str nxt') s = Inr (x, s1)"
          "s' = s1 \<or> (\<exists>d. resolve_loop tb tmp' nxt' d d s1 = Inr (c, s'))"
      by (fastforce split: if_splits elim!: kbind_Inr_E dest!: cross_mount_state)
    then show ?thesis
    proof cases
      case 1 then show ?thesis by (rule IH)
    next
      case 2 then show ?thesis using IH resolve_child_open same_open_trans by blast
    qed
  qed
qed

lemma resolve_path_open: "vfs_resolve_path tb path s = Inr (c, s') \<Longrightarrow> same_open s s'"
  by (auto simp: vfs_resolve_path_def Let_def elim!: kbind_Inr_E split: if_splits dest!: resolve_loop_open)

lemma mount_open: "vfs_mount_fs tb path name s = Inr (c, s') \<Longrightarrow> same_open s s'"
  by (auto simp: vfs_mount_fs_def mount_on_def upd_inode_def upd_dentry_def elim!: kbind_Inr_E
      dest!: resolve_path_open mksb_step_open [OF fs_mksb] split: if_splits option.splits) (erule (1) same_open_trans)

lemma open_at_listed:
  assumes "all_listed s" and "open_at tb dp f s = Inr (c, s')"
  shows "all_listed s'"
proof -
  from assms(2) obtain fs io g rc s2 where op: "fo_open (tb fs) io (next_addr s)
      (s\<lparr>files := (files s)(next_addr s \<mapsto> g), next_addr := Suc (next_addr s)\<rparr>) = Inr (rc, s2)" and s': "s' = add_open_file (next_addr s) s2"
    by (auto simp: open_at_def new_file_def elim!: kbind_Inr_E split: option.splits)
  note st = file_step_open [OF file_system.open_op [OF each op]]
  show ?thesis
    by (rule listed_add [OF assms(1), of _ "next_addr s" "current_task s2"]) (use st in \<open>simp_all add: s' add_open_file_def same_open_def\<close>)
qed

lemma open_listed:
  assumes "all_listed s" and "vfs_open tb path mode s = Inr (c, s')"
  shows "all_listed s'"
proof -
  from assms(2) obtain a s1 where a: "vfs_resolve_path tb path s = Inr (a, s1)"
    and "s' = s1 \<or> (\<exists>dp f h. open_at tb dp f (s1\<lparr>vfs_next_handle_count := h\<rparr>) = Inr (c, s'))"
    by (auto simp: vfs_open_def kbind_Inr_iff split: if_splits dest!: open_target_state) blast
  then show ?thesis using open_at_listed listed_same [OF resolve_path_open [OF a] assms(1)] by (metis listed_handle)
qed

lemma open_console_listed:
  assumes "all_listed s" and "vfs_open_console tb path fh s = Inr (c, s')"
  shows "all_listed s'"
proof -
  from assms(2) obtain a s1 where a: "vfs_resolve_path tb path s = Inr (a, s1)"
    and "s' = s1 \<or> (\<exists>dp f. open_at tb dp f s1 = Inr (c, s'))"
    by (auto simp: vfs_open_console_def kbind_Inr_iff split: if_splits dest!: open_target_state)
  then show ?thesis using open_at_listed listed_same [OF resolve_path_open [OF a] assms(1)] by metis
qed

lemma close_file_listed:
  assumes "all_listed s" and "close_file tb fd s = Inr (c, s')"
  shows "all_listed s'"
proof -
  from assms(2) obtain f s1 where "files s fd = Some f" and f: "(case f_ops f of None \<Rightarrow> kreturn (-1) | Some fs \<Rightarrow> fo_close (tb fs) (f_inode f) fd) s = Inr (c, s1)"
    "s' = remove_open_file fd s1\<lparr>files := (files (remove_open_file fd s1))(fd := None)\<rparr>"
    by (auto simp: close_file_def kfree_file_def kbind_Inr_iff)
  have fl: "files (remove_open_file fd s1) = files s1" by (simp add: remove_open_file_def)
  have "file_step s s1" using f(1) file_system.close_op [OF each] by (auto split: option.splits)
  then have "all_listed s1" using listed_same [OF file_step_open] assms(1) by blast
  then show ?thesis unfolding f(2) fl by (rule listed_remove)
qed

lemma listed_upd_file: "all_listed s \<Longrightarrow> files s fd = Some f \<Longrightarrow> all_listed (s\<lparr>files := (files s)(fd \<mapsto> g)\<rparr>)"
  by (auto simp: all_listed_def)

lemma close_listed:
  assumes l: "all_listed s" and r: "vfs_close tb fh s = Inr (c, s')"
  shows "all_listed s'"
proof -
  from r obtain fd f where "s' = s \<or> files s fd = Some f \<and>
      (s' = s\<lparr>files := (files s)(fd \<mapsto> f\<lparr>f_count := f_count f - 1\<rparr>)\<rparr> \<or>
       close_file tb fd (s\<lparr>files := (files s)(fd \<mapsto> f\<lparr>f_count := f_count f - 1\<rparr>)\<rparr>) = Inr (c, s'))"
    by (auto simp: vfs_close_def upd_file_def kbind_Inr_iff dest!: find_handle_state split: if_splits)
  then show ?thesis using l listed_upd_file close_file_listed by blast
qed

lemma close_console_listed: "all_listed s \<Longrightarrow> vfs_close_console tb fh s = Inr (c, s') \<Longrightarrow> all_listed s'"
  using close_file_listed by (auto simp: vfs_close_console_def kbind_Inr_iff dest!: find_file_state split: if_splits)

lemmas use_open = use_steps [THEN file_step_open]

lemma copy_loop_listed: "all_listed s \<Longrightarrow> vfs_copy_loop dest src as s = Inr (u, s') \<Longrightarrow> all_listed s'"
proof (induction as arbitrary: s)
  case (Cons a as)
  then obtain f where f: "files s a = Some f" by (auto simp: kbind_Inr_iff)
  let ?g = "f\<lparr>f_count := f_count f + 1\<rparr>"
  let ?s1 = "s\<lparr>files := (files s)(a \<mapsto> ?g, next_addr s \<mapsto> ?g\<lparr>f_pdata := None\<rparr>), next_addr := Suc (next_addr s),
     open_files := (open_files s)(dest := open_files s dest @ [next_addr s])\<rparr>"
  have "all_listed ?s1" by (rule listed_add [OF Cons.prems(1), of _ "next_addr s" dest]) (use f in auto)
  then show ?case using Cons f by (auto simp: upd_file_def new_file_def split: if_splits)
qed simp

lemma call_listed:
  assumes l: "all_listed s" and r: "vfs_call tb c s = Inr s'"
  shows "all_listed s'"
proof (cases c)
  case (Mount path name)
  then show ?thesis using r listed_same [OF mount_open l] by (auto simp: run_Inr)
next
  case (Open path mode)
  then show ?thesis using r open_listed [OF l] by (auto simp: run_Inr)
next
  case (Close fh)
  then show ?thesis using r close_listed [OF l] by (auto simp: run_Inr)
next
  case (Read fh len)
  then show ?thesis using r listed_same [OF use_open(1) l] by (auto simp: run_Inr)
next
  case (Write fh len buff)
  then show ?thesis using r listed_same [OF use_open(2) l] by (auto simp: run_Inr)
next
  case (Lseek fh offset wence)
  then show ?thesis using r listed_same [OF use_open(3) l] by (auto simp: run_Inr)
next
  case (Iterate fh)
  then show ?thesis using r listed_same [OF use_open(4) l] by (auto simp: run_Inr)
next
  case (OpenConsole path fh)
  then show ?thesis using r open_console_listed [OF l] by (auto simp: run_Inr)
next
  case (CloseConsole fh)
  then show ?thesis using r close_console_listed [OF l] by (auto simp: run_Inr)
next
  case (Copy dest src)
  then show ?thesis using r copy_loop_listed [OF l] by (auto simp: run_Inr vfs_copy_def)
qed (use listed_same [OF _ l] r in \<open>auto simp: same_open_def\<close>)

text \<open>So no call breaks the structure.\<close>

lemma reachable_wf: "vfs_reachable tb s s' \<Longrightarrow> vfs_wf s \<Longrightarrow> vfs_wf s'"
  by (induction rule: vfs_reachable.induct) (auto simp: vfs_wf_def intro: call_objects call_listed)

end

end
