(* ===== verification/FsTheorems.thy ===== *)
theory FsTheorems
  imports TtyFS RamArchive FatVfs VFSOpen
begin

text \<open>
  The three file systems behind the virtual file system: the table of their operations keeps the
  contract of \<^verbatim>\<open>VFSInv\<close>, so every sequence of calls from the start of the kernel leaves the objects of
  the virtual file system well formed; and a file of the archive that is opened by its path and
  read gives the bytes of the archive.
\<close>

section \<open>The kernel's file systems\<close>

definition seekos_ops :: "'d env \<Rightarrow> nat \<Rightarrow> ('d sys, pdata, fat_file) fs_ops" where
  "seekos_ops E k = (if k = RAMFS then ramfs_ops else if k = TTYFS then ttyfs_ops else fat32_ops E)"

interpretation kern: vfs_tables "seekos_ops E" for E :: "'d env"
  by (rule vfs_tables.intro)
     (simp add: seekos_ops_def ram.file_system_axioms tty.file_system_axioms fat.file_system_axioms)

text \<open>The file systems at the start of the kernel, \<^verbatim>\<open>src/kernel/src/main.c\<close>; \<open>initrd\<close> is the module the boot loader
  has loaded.\<close>

definition fs_init :: "'d env \<Rightarrow> bytes option \<Rightarrow> 'd kfs \<Rightarrow> 'd kfs" where
  "fs_init E initrd s =
     (let s1 = fat32_init E (ttyfs_init (vfs_init s))
      in case initrd of None \<Rightarrow> s1 | Some buff \<Rightarrow> ramfs_init buff s1)"

definition path_dev_ttyfs :: bytes where
  "path_dev_ttyfs = [0x2F, 0x64, 0x65, 0x76, 0x2F, 0x74, 0x74, 0x79, 0x66, 0x73]"

definition path_dev_ramfs :: bytes where
  "path_dev_ramfs = [0x2F, 0x64, 0x65, 0x76, 0x2F, 0x72, 0x61, 0x6D, 0x66, 0x73]"

definition fs_mounts :: "'d env \<Rightarrow> ('d kfs, unit) km" where
  "fs_mounts E =
     kbind (vfs_mount_fs (seekos_ops E) [SLASH] [0x66, 0x61, 0x74, 0x33, 0x32]) (\<lambda>_.
     kbind (vfs_mount_fs (seekos_ops E) path_dev_ttyfs [0x74, 0x74, 0x79, 0x66, 0x73]) (\<lambda>_.
     kbind (vfs_mount_fs (seekos_ops E) path_dev_ramfs [0x72, 0x61, 0x6D, 0x66, 0x73]) (\<lambda>_. kreturn ())))"

lemma wf_boot: "vfs_wf (boot_vfs x)"
  by (simp add: boot_vfs_def vfs_init_def vfs_wf_def objects_ok_def all_listed_def lists_ok_def)

lemma wf_fs_state [simp]: "vfs_wf (s\<lparr>fs_state := x\<rparr>) = vfs_wf s"
  by (simp add: vfs_wf_def objects_ok_def all_listed_def dentry_ok_def inode_ok_def sb_ok_def file_ok_def lists_ok_def)

lemma wf_fs_list [simp]: "vfs_wf (s\<lparr>vfs_fs_list := l\<rparr>) = vfs_wf s"
  by (simp add: vfs_wf_def objects_ok_def all_listed_def dentry_ok_def inode_ok_def sb_ok_def file_ok_def lists_ok_def)

lemma wf_fs_init:
  fixes s :: "'d kfs"
  assumes "vfs_wf s"
  shows "vfs_wf (fs_init E initrd s)"
  using assms
  by (auto simp: fs_init_def ramfs_init_def ttyfs_init_def fat32_init_def vfs_init_def vfs_register_fs_def Let_def
      split: option.splits prod.splits)

section \<open>Walking the archive\<close>

text \<open>The path of a child, the paths along a list of components, and that each of them is a member.\<close>

definition child_path :: "bytes \<Rightarrow> bytes \<Rightarrow> bytes" where
  "child_path p c = (if p = [] then c else p @ [SLASH] @ c)"

fun members_along :: "tar_member list \<Rightarrow> bytes \<Rightarrow> bytes list \<Rightarrow> bool" where
  "members_along ms p [] \<longleftrightarrow> True"
| "members_along ms p (c # cs) \<longleftrightarrow> member_at 0 (child_path p c) ms \<noteq> None \<and> members_along ms (child_path p c) cs"

text \<open>An entry of the RAM file system without known children, for the path \<open>p\<close>.\<close>

definition ram_entry :: "tar_member list \<Rightarrow> bytes \<Rightarrow> 'd kfs \<Rightarrow> addr \<Rightarrow> bytes \<Rightarrow> bool" where
  "ram_entry ms buff s a p \<longleftrightarrow>
     rd_buff (fs_state s) = Some buff \<and> 0 < a \<and> a < next_addr s \<and>
     (\<exists>d i u. dentries s a = Some d \<and> d_subdirs d = [] \<and> 0 < d_inode d \<and> d_inode d < next_addr s \<and>
        inodes s (d_inode d) = Some i \<and> i_ops i = Some RAMFS \<and> i_fops i = Some RAMFS \<and> i_mountpoint i = 0 \<and>
        i_pdata i = Some (PRam u) \<and> u_filename u = p \<and>
        (p \<noteq> [] \<longrightarrow> (\<exists>om. member_at 0 p ms = Some om \<and> u = member_data (u_name u) om)))"

text \<open>What resolving a path leaves alone.\<close>

definition same_tasks :: "'d kfs \<Rightarrow> 'd kfs \<Rightarrow> bool" where
  "same_tasks s s' \<longleftrightarrow>
     s' = s\<lparr>dentries := dentries s', inodes := inodes s', next_addr := next_addr s'\<rparr>"

lemma same_tasks_trans: "same_tasks s t \<Longrightarrow> same_tasks t u \<Longrightarrow> same_tasks s u"
  by (cases s; cases t; cases u) (simp add: same_tasks_def)

lemma same_tasksD:
  assumes "same_tasks s s'"
  shows "files s' = files s" "sbs s' = sbs s" "open_files s' = open_files s" "current_task s' = current_task s" "fs_state s' = fs_state s"
    "vfs_next_handle_count s' = vfs_next_handle_count s"
  using assms by (cases s; cases s'; simp add: same_tasks_def)+

text \<open>One component that is not known yet.\<close>

lemma resolve_child_ram:
  fixes s :: "'d kfs"
  assumes ms: "\<forall>m \<in> set ms. member_ok m" "tail_ok t" "length (archive ms @ t) < 2 ^ 31"
    and e: "ram_entry ms (archive ms @ t) s a p" and m: "member_at 0 (child_path p c) ms = Some om" and c: "c \<noteq> []"
    and l: "length (child_path p c) < 256"
  shows "\<exists>s'. resolve_child (seekos_ops E) a c s = Inr (next_addr s, s') \<and> ram_entry ms (archive ms @ t) s' (next_addr s) (child_path p c) \<and>
     cross_mount (next_addr s) s' = Inr (next_addr s, s') \<and> same_tasks s s'"
proof -
  from e obtain d i u where d: "rd_buff (fs_state s) = Some (archive ms @ t)" "0 < a" "a < next_addr s" "dentries s a = Some d" "d_subdirs d = []"
    "0 < d_inode d" "d_inode d < next_addr s" "inodes s (d_inode d) = Some i" "i_ops i = Some RAMFS" "i_pdata i = Some (PRam u)" "u_filename u = p"
    by (auto simp: ram_entry_def)
  let ?c = "next_addr s" and ?u = "member_data c om"
  have n: "a \<noteq> ?c" "?c \<noteq> a" using d(3) by auto
  have lk: "ustar_lookup u c (Some (archive ms @ t)) = Inr (Some ?u)"
  proof -
    have "child_path p c = (if u_filename u = [] then c else u_filename u @ [SLASH] @ c)" using d(11) by (simp add: child_path_def)
    from ustar_lookup_at [OF ms this l] m show ?thesis by simp
  qed
  let ?s' = "s\<lparr>dentries := (dentries s)(?c \<mapsto> zdentry\<lparr>d_name := c, d_inode := Suc ?c, d_ops := Some RAMFS, d_parent := a\<rparr>, a \<mapsto> d\<lparr>d_subdirs := [?c]\<rparr>),
     inodes := (inodes s)(Suc ?c \<mapsto> ram_inode (i_sb i) ?u), next_addr := Suc (Suc ?c)\<rparr>"
  have r: "resolve_child (seekos_ops E) a c s = Inr (?c, ?s')"
    using d n lk by (cases s)
      (simp add: resolve_child_def lookup_child_def ask_lookup_def new_dentry_def seekos_ops_def ramfs_ops_def ramfs_lookup_def ram_pdata_def
        fill_dentry_def new_inode_def upd_dentry_def zdentry_def fun_upd_twist kreturn_def)
  have p: "child_path p c \<noteq> []" using c by (auto simp: child_path_def)
  have f: "u_filename ?u = child_path p c" "u_name ?u = c"
    using member_at_data [OF ms(1), of "[]" "child_path p c" "fst om" "snd om"] m by (auto simp: member_data_def split: prod.splits)
  show ?thesis
    using r d(1-3) n m f p
    by (intro exI [of _ ?s']) (auto simp: ram_entry_def ram_inode_def zinode_def zdentry_def cross_mount_def same_tasks_def)
qed

definition plain_comp :: "bytes \<Rightarrow> bool" where
  "plain_comp c \<longleftrightarrow> comp_ok c \<and> c \<noteq> [DOT] \<and> c \<noteq> [DOT, DOT]"

lemma missing_child_ram:
  fixes s :: "'d kfs"
  assumes ms: "\<forall>m \<in> set ms. member_ok m" "tail_ok t" "length (archive ms @ t) < 2 ^ 31"
    and e: "ram_entry ms (archive ms @ t) s a []" and z: "inodes s 0 = None" and c: "member_at 0 c ms = None" "length c < 256"
  shows "\<exists>s'. resolve_child (seekos_ops E) a c s = Inr (next_addr s, s') \<and> cross_mount (next_addr s) s' = Inl NullDeref"
proof -
  from e obtain d i u where d: "rd_buff (fs_state s) = Some (archive ms @ t)" "0 < a" "a < next_addr s" "dentries s a = Some d" "d_subdirs d = []"
    "0 < d_inode d" "inodes s (d_inode d) = Some i" "i_ops i = Some RAMFS" "i_pdata i = Some (PRam u)" "u_filename u = []"
    by (auto simp: ram_entry_def)
  let ?c = "next_addr s"
  have n: "a \<noteq> ?c" "?c \<noteq> a" using d(3) by auto
  have lk: "ustar_lookup u c (Some (archive ms @ t)) = Inr None" using ustar_lookup_at [OF ms _ c(2), of u c] c(1) d(10) by simp
  let ?s' = "s\<lparr>dentries := (dentries s)(?c \<mapsto> zdentry\<lparr>d_name := c, d_parent := a\<rparr>, a \<mapsto> d\<lparr>d_subdirs := [?c]\<rparr>), next_addr := Suc ?c\<rparr>"
  have "resolve_child (seekos_ops E) a c s = Inr (?c, ?s')"
    using d n lk by (cases s)
      (simp add: resolve_child_def lookup_child_def ask_lookup_def new_dentry_def seekos_ops_def ramfs_ops_def ramfs_lookup_def ram_pdata_def
        upd_dentry_def zdentry_def fun_upd_twist kreturn_def)
  moreover have "cross_mount ?c ?s' = Inl NullDeref" using n z by (simp add: cross_mount_def zdentry_def kderef_def)
  ultimately show ?thesis by blast
qed

lemma child_path_length: "length (child_path p c) \<le> length p + Suc (length c)"
  by (simp add: child_path_def)

text \<open>The loop of \<^verbatim>\<open>vfs_resolve_path\<close> along components that are members.\<close>

lemma resolve_loop_ram:
  fixes s :: "'d kfs"
  assumes ms: "\<forall>m \<in> set ms. member_ok m" "tail_ok t" "length (archive ms @ t) < 2 ^ 31"
    and "ram_entry ms (archive ms @ t) s a p" and "members_along ms p cs" and "\<forall>c \<in> set cs. plain_comp c"
    and "no_root str = tl (join_path cs)" and "str = [] \<longleftrightarrow> cs = []" and "0 \<notin> set str" and "length str \<le> 128"
    and "length p + length (join_path cs) < 256" and "length nxt = VFS_MAX_PATH_LENGTH"
  shows "\<exists>s' b. resolve_loop (seekos_ops E) (pad str) nxt cur a s = Inr (if cs = [] then cur else b, s') \<and>
     ram_entry ms (archive ms @ t) s' b (foldl child_path p cs) \<and> same_tasks s s' \<and> (cs = [] \<longrightarrow> b = a)"
  using assms(4-)
proof (induction cs arbitrary: s a p str nxt cur)
  case Nil
  then have "vfs_next_path (pad str) nxt True = Inr (False, pad str, nxt)"
    by (simp add: vfs_next_path_def pad_def buf_str_def VFS_MAX_PATH_LENGTH_def)
  then have "resolve_loop (seekos_ops E) (pad str) nxt cur a s = Inr (cur, s)" by (subst resolve_loop.simps) (simp add: kreturn_def)
  then show ?case using Nil.prems(1) by (auto simp: same_tasks_def intro!: exI [of _ s])
next
  case (Cons c cs)
  have c: "comp_ok c" "plain_comp c" using Cons.prems(3) by (auto simp: plain_comp_def)
  have n: "next_comp str = c" "next_rest str = tl (join_path cs)" using next_of_join [of str c cs] c(1) Cons.prems(4) by simp_all
  have b: "buf_str (pad c) = c" using c(1) by (simp add: buf_str_pad comp_ok_def)
  have np: "vfs_next_path (pad str) nxt True = Inr (True, pad (next_rest str), pad c)"
    using vfs_next_path_pad [of str nxt] Cons.prems c(1) n by (simp add: comp_ok_def)
  obtain om where om: "member_at 0 (child_path p c) ms = Some om" "members_along ms (child_path p c) cs" using Cons.prems(2) by auto
  have l: "length (child_path p c) + length (join_path cs) < 256" "length (child_path p c) < 256"
    using child_path_length [of p c] Cons.prems(8) by auto
  obtain s1 where s1: "resolve_child (seekos_ops E) a c s = Inr (next_addr s, s1)"
    "ram_entry ms (archive ms @ t) s1 (next_addr s) (child_path p c)" "cross_mount (next_addr s) s1 = Inr (next_addr s, s1)" "same_tasks s s1"
    using resolve_child_ram [OF ms Cons.prems(1) om(1) _ l(2), of E] c(1) by (auto simp: comp_ok_def)
  have len: "length (next_rest str) \<le> length str" "length c \<le> length str"
    using Cons.prems(4) by (auto simp: n no_root_def dest: arg_cong [where f = length] split: if_splits)
  have rest: "no_root (next_rest str) = tl (join_path cs)" "next_rest str = [] \<longleftrightarrow> cs = []" "0 \<notin> set (next_rest str)"
    using join_rest [of cs] Cons.prems(3) by (auto simp: n plain_comp_def)
  have pc: "length (pad c) = VFS_MAX_PATH_LENGTH" using len Cons.prems(7) by (simp add: length_pad VFS_MAX_PATH_LENGTH_def)
  from Cons.IH [OF s1(2) om(2) _ rest _ l(1) pc, of "next_addr s"] Cons.prems(3,7) len obtain s' b where
    r: "resolve_loop (seekos_ops E) (pad (next_rest str)) (pad c) (next_addr s) (next_addr s) s1 = Inr (if cs = [] then next_addr s else b, s')"
    "ram_entry ms (archive ms @ t) s' b (foldl child_path (child_path p c) cs)" "same_tasks s1 s'" "cs = [] \<longrightarrow> b = next_addr s" by auto
  have e: "resolve_loop (seekos_ops E) (pad str) nxt cur a s = Inr (if cs = [] then next_addr s else b, s')"
    using s1 r(1) c(2) np b by (subst resolve_loop.simps) (auto simp: plain_comp_def ram_entry_def)
  then show ?case using r(2,4) same_tasks_trans [OF s1(4) r(3)] by (intro exI [of _ s'] exI [of _ b]) auto
qed

section \<open>Opening and reading\<close>

lemma get_bytes_prefix: "k \<le> n \<Longrightarrow> get_bytes b i k = take k (get_bytes b i n)"
  by (simp add: get_bytes_def min_def)

lemma ramfs_read_start:
  fixes s :: "'d kfs"
  assumes ms: "\<forall>m \<in> set ms. member_ok m" "length (archive ms @ t) < 2 ^ 31"
    and rd: "rd_buff (fs_state s) = Some (archive ms @ t)"
    and io: "inodes s io = Some i" "i_pdata i = Some (PRam (member_data nm (off, m)))" and m: "member_at 0 p ms = Some (off, m)"
    and fd: "files s fd = Some f" "f_pos f = 0" and len: "0 < len" "len < 2 ^ 31"
  shows "\<exists>s'. ramfs_read io fd len s = Inr (if tm_data m = [] then (-1, []) else (0, take (nat len) (tm_data m)), s')"
proof -
  let ?n = "length (tm_data m)" and ?b = "archive ms @ t"
  have d: "get_bytes ?b (off + 512) ?n = tm_data m" "off + 512 + ?n \<le> length ?b"
    using member_at_data [OF ms(1), of "[]" p off m t] m by simp_all
  then have small: "?n < 2 ^ 31" "off + 512 < 2 ^ 31" using ms(2) by linarith+
  define k where "k = min ?n (nat len)"
  have sz: "scast (u_size (member_data nm (off, m))) = (of_nat ?n :: u64)" "scast (u_data_offset (member_data nm (off, m))) = (of_nat (off + 512) :: u64)"
    using small scast_of_nat [of ?n] scast_of_nat [of "off + 512"] by (simp_all add: member_data_def del: of_nat_add)
  have l: "(of_int len :: u64) = of_nat (nat len)" "(of_int len :: u32) = of_nat (nat len)" using len by simp_all
  have u: "unat (of_nat ?n :: u64) = ?n" "unat (of_nat (nat len) :: u64) = nat len" "unat (of_nat (off + 512) :: u64) = off + 512"
    using small len by (intro unat_of_nat64; simp)+
  have k: "(if of_nat ?n < (of_int len :: u64) then ucast (scast (u_size (member_data nm (off, m))) - f_pos f) else of_int len :: u32) = of_nat k"
    using u by (simp add: sz fd(2) l k_def word_less_nat_alt min_def ucast_of_nat32)
  have k': "k < 2 ^ 31" "k \<le> ?n" using small by (simp_all add: k_def)
  then have sk: "scast (of_nat k :: u32) = (of_nat k :: u64)" "unat (of_nat k :: u64) = k" by (simp_all add: scast_of_nat unat_of_nat64)
  have g: "get_bytes ?b (off + 512) k = take (nat len) (tm_data m)"
    using get_bytes_prefix [OF k'(2), of ?b "off + 512"] d(1) by (simp add: k_def min_def)
  show ?thesis
  proof (cases "tm_data m = []")
    case True
    then show ?thesis using io fd len(1) sz(1) by (simp add: ramfs_read_def ram_pdata_def kreturn_def)
  next
    case False
    then have pos: "\<not> (of_nat ?n :: u64) \<le> 0" using u(1) by (simp add: word_le_nat_alt)
    show ?thesis
      using False io fd rd len(1) pos sk g d(2) k'(2) u(3)
      by (simp add: ramfs_read_def ram_pdata_def Let_def sz k upd_file_def del: of_nat_add split del: if_split)
  qed
qed

text \<open>Opening an entry of the archive: the new file stands at its start.\<close>

lemma open_ram:
  fixes s :: "'d kfs"
  assumes "ram_entry ms buff s b p" and "p \<noteq> []" and fl: "f_pos fl = 0"
  shows "open_target b s = Inr (b, s) \<and>
     (\<exists>s' io i f nm om. open_at (seekos_ops E) b fl s = Inr (f_handle fl, s') \<and> rd_buff (fs_state s') = Some buff \<and>
        inodes s' io = Some i \<and> i_pdata i = Some (PRam (member_data nm om)) \<and> member_at 0 p ms = Some om \<and>
        files s' (next_addr s) = Some f \<and> f_pos f = 0 \<and> f_handle f = f_handle fl \<and> f_inode f = io \<and> f_ops f = Some RAMFS \<and>
        open_files s' (current_task s') = open_files s (current_task s) @ [next_addr s])"
proof -
  from assms obtain d i u om where d: "rd_buff (fs_state s) = Some buff" "dentries s b = Some d" "0 < d_inode d" "inodes s (d_inode d) = Some i"
    "i_fops i = Some RAMFS" "i_mountpoint i = 0" "i_pdata i = Some (PRam u)" "member_at 0 p ms = Some om" "u = member_data (u_name u) om"
    by (auto simp: ram_entry_def)
  let ?fd = "next_addr s" and ?f = "fl\<lparr>f_dentry := b, f_count := 1, f_inode := d_inode d, f_ops := i_fops i\<rparr>"
  let ?s' = "add_open_file ?fd (s\<lparr>files := (files s)(?fd \<mapsto> ?f), next_addr := Suc ?fd\<rparr>)"
  have t: "open_target b s = Inr (b, s)" using d by (simp add: open_target_def kreturn_def)
  have o: "open_at (seekos_ops E) b fl s = Inr (f_handle fl, ?s')"
    using d by (simp add: open_at_def new_file_def seekos_ops_def ramfs_ops_def ramfs_open_def kreturn_def)
  have "i_pdata i = Some (PRam (member_data (u_name u) om))" using d(7,9) by simp
  then show ?thesis using t o d(1,4,5,8) fl
    by (intro conjI exI [of _ ?s'] exI [of _ "d_inode d"] exI [of _ i] exI [of _ ?f] exI [of _ "u_name u"] exI [of _ om])
       (simp_all add: add_open_file_def)
qed

lemma foldl_child_path: "p \<noteq> [] \<or> cs \<noteq> [] \<Longrightarrow> \<forall>c \<in> set cs. c \<noteq> [] \<Longrightarrow> foldl child_path p cs \<noteq> []"
  by (induction cs arbitrary: p) (auto simp: child_path_def)

text \<open>The state after mounting the RAM file system on the root.\<close>

lemma mount_ram:
  fixes x :: "'d sys"
  shows "\<exists>s1. vfs_mount_fs (seekos_ops E) [SLASH] [0x72, 0x61, 0x6D, 0x66, 0x73] (fs_init E (Some buff) (boot_vfs x)) = Inr (0, s1) \<and>
     vfs_root s1 = 1 \<and> sbs s1 1 = Some \<lparr>s_root = 2, s_fs = RAMFS\<rparr> \<and> ram_entry ms buff s1 2 [] \<and> files s1 = Map.empty \<and>
     open_files s1 = (\<lambda>_. []) \<and> vfs_next_handle_count s1 = 100 \<and> inodes s1 0 = None"
proof -
  obtain ok b d where r: "op_read E (replicate 512 0) 0 (drv_dev (fat_drv x)) = (ok, b, d)" by (metis prod_cases3)
  let ?s0 = "fs_init E (Some buff) (boot_vfs x)"
  have s0: "vfs_get_fs [0x72, 0x61, 0x6D, 0x66, 0x73] ?s0 = Some RAMFS" "next_addr ?s0 = 1" "rd_buff (fs_state ?s0) = Some buff"
    "files ?s0 = Map.empty" "open_files ?s0 = (\<lambda>_. [])" "vfs_next_handle_count ?s0 = 100" "inodes ?s0 = Map.empty"
    by (simp_all add: fs_init_def fat32_init_def ttyfs_init_def ramfs_init_def vfs_register_fs_def vfs_init_def boot_vfs_def vfs_get_fs_def r Let_def
        split: option.splits)
  show ?thesis
    using s0 by (simp add: vfs_mount_fs_def seekos_ops_def ramfs_ops_def ramfs_mksb_def make_sb_mounted zdentry_def zinode_def)
      (simp add: mounted_def Let_def ram_entry_def zustar_def kreturn_def)
qed

text \<open>A disk that reads as it is asked, for examples without a volume.\<close>

definition null_env :: "unit env" where
  "null_env = \<lparr>op_read = (\<lambda>b n d. (True, b, d)), op_write = (\<lambda>b n d. (True, d)),
     stk = \<lparr>stack_flags = 0, stack_clust = 0, stack_sect = 0, stack_idx = 0\<rparr>, fuel = 1\<rparr>"

section \<open>Properties\<close>

text \<open>C7: Every sequence of calls of the virtual file system by any tasks, starting from the initialised
  kernel and over all three file systems, leaves its objects well formed as long as no call
  faults: every pointer between entries, inodes, superblocks and open files (the superblock of every inode
  included) refers to an object of its type, where only the inode of an entry and a mount point may be
  null; the children of a directory point back to it and have different names; every open file has
  operations and is in the list of exactly one task, once, and the lists hold nothing else.\<close>

theorem vfs_calls_wf:
  fixes x :: "'d sys"
  assumes "vfs_reachable (seekos_ops E) (fs_init E initrd (boot_vfs x)) s"
  shows "vfs_wf s"
  using kern.reachable_wf [OF assms] wf_fs_init [OF wf_boot] by blast

theorem vfs_calls_wf_witness:
  "\<exists>s. vfs_reachable (seekos_ops null_env) (fs_init null_env (Some []) (boot_vfs (boot_sys None [] ()))) s \<and> vfs_root s = 1 \<and> vfs_wf s"
proof -
  obtain s1 where s1: "vfs_mount_fs (seekos_ops null_env) [SLASH] [0x72, 0x61, 0x6D, 0x66, 0x73]
      (fs_init null_env (Some []) (boot_vfs (boot_sys None [] ()))) = Inr (0, s1)" "vfs_root s1 = 1"
    using mount_ram by blast
  then have "vfs_reachable (seekos_ops null_env) (fs_init null_env (Some []) (boot_vfs (boot_sys None [] ()))) s1"
    by (intro vfs_reachable.call [OF vfs_reachable.start, of _ "Mount [SLASH] [0x72, 0x61, 0x6D, 0x66, 0x73]"]) simp
  then show ?thesis using s1(2) vfs_calls_wf by blast
qed

text \<open>C11: Opening and reading a file of the archive by its path: with the RAM file system on the root and
  the USTAR image of any list of members of any types, the entry \<^verbatim>\<open>./\<close> of the root among them, opening a path of
  at most 128 bytes whose components are all members gives the first handle, and reading a positive number of bytes
  from it returns the data of that member, cut to the length asked for; for an empty file the read
  returns -1 and no bytes.\<close>

theorem ramfs_open_read:
  fixes x :: "'d sys"
  assumes ms: "\<forall>m \<in> set ms. member_ok m" "tail_ok t" "length (archive ms @ t) < 2 ^ 31"
    and cs: "cs \<noteq> []" "\<forall>c \<in> set cs. plain_comp c" "length (join_path cs) \<le> 128" "members_along ms [] cs"
    and m: "member_at 0 (foldl child_path [] cs) ms = Some (off, m)" and len: "0 < len" "len < 2 ^ 31"
  shows "\<exists>s1 s2 s3. vfs_mount_fs (seekos_ops E) [SLASH] [0x72, 0x61, 0x6D, 0x66, 0x73] (fs_init E (Some (archive ms @ t)) (boot_vfs x)) = Inr (0, s1) \<and>
     vfs_open (seekos_ops E) (join_path cs) mode s1 = Inr (101, s2) \<and>
     vfs_read (seekos_ops E) 101 len s2 = Inr (if tm_data m = [] then (-1, []) else (0, take (nat len) (tm_data m)), s3)"
proof -
  obtain s1 where s1: "vfs_mount_fs (seekos_ops E) [SLASH] [0x72, 0x61, 0x6D, 0x66, 0x73] (fs_init E (Some (archive ms @ t)) (boot_vfs x)) = Inr (0, s1)"
    "vfs_root s1 = 1" "sbs s1 1 = Some \<lparr>s_root = 2, s_fs = RAMFS\<rparr>" "ram_entry ms (archive ms @ t) s1 2 []" "files s1 = Map.empty"
    "open_files s1 = (\<lambda>_. [])" "vfs_next_handle_count s1 = 100"
    using mount_ram [of E "archive ms @ t" x ms] by auto
  have ok: "\<forall>c \<in> set cs. comp_ok c" using cs(2) by (simp add: plain_comp_def)
  have p: "join_path cs \<noteq> []" "hd (join_path cs) = SLASH" "join_path cs \<noteq> [SLASH]" using cs(1) ok by (cases cs; auto simp: comp_ok_def)+
  have nr: "no_root (join_path cs) = tl (join_path cs)" using p by (simp add: no_root_def)
  have pd: "length (pad []) = VFS_MAX_PATH_LENGTH" by (simp add: pad_def)
  obtain s' b where r: "resolve_loop (seekos_ops E) (pad (join_path cs)) (pad []) 0 2 s1 = Inr (b, s')"
    "ram_entry ms (archive ms @ t) s' b (foldl child_path [] cs)" "same_tasks s1 s'"
    using resolve_loop_ram [OF ms s1(4) cs(4,2) nr _ join_path_no_nul [OF ok] cs(3) _ pd, of E 0] p cs(1,3) by auto
  have res: "vfs_resolve_path (seekos_ops E) (join_path cs) s1 = Inr (b, s')"
    using r(1) s1 p cs(3) by (simp add: vfs_resolve_path_def VFS_MAX_PATH_LENGTH_def)
  let ?h = "s'\<lparr>vfs_next_handle_count := 101\<rparr>" and ?fl = "zfile\<lparr>f_handle := 101, f_openmode := mode\<rparr>"
  have e: "ram_entry ms (archive ms @ t) ?h b (foldl child_path [] cs)" "b \<noteq> 0" using r(2) by (auto simp: ram_entry_def)
  have fp: "foldl child_path [] cs \<noteq> []" using foldl_child_path [of "[]" cs] cs(1) ok by (simp add: comp_ok_def)
  obtain s2 io i f nm where o: "open_at (seekos_ops E) b ?fl ?h = Inr (101, s2)" "rd_buff (fs_state s2) = Some (archive ms @ t)"
    "inodes s2 io = Some i" "i_pdata i = Some (PRam (member_data nm (off, m)))" "files s2 (next_addr s') = Some f" "f_pos f = 0" "f_handle f = 101"
    "f_inode f = io" "f_ops f = Some RAMFS" "open_files s2 (current_task s2) = [next_addr s']"
    using open_ram [OF e(1) fp, of ?fl E] m same_tasksD [OF r(3)] s1(6) by (auto simp: zfile_def)
  have "open_target b s' = Inr (b, s')" using open_ram [OF r(2) fp, of ?fl E] by (simp add: zfile_def)
  then have "vfs_open (seekos_ops E) (join_path cs) mode s1 = Inr (101, s2)"
    using res o(1) e(2) same_tasksD [OF r(3)] s1(7) by (simp add: vfs_open_def next_handle_def wrap32_def zfile_def)
  moreover obtain s3 where "ramfs_read io (next_addr s') len s2 = Inr (if tm_data m = [] then (-1, []) else (0, take (nat len) (tm_data m)), s3)"
    using ramfs_read_start [OF ms(1,3) o(2-4) m o(5,6) len] by blast
  moreover have "0 < next_addr s'" using r(2) by (auto simp: ram_entry_def)
  ultimately show ?thesis using s1(1) o by (simp add: vfs_read_def find_handle_def seekos_ops_def ramfs_ops_def)
qed

theorem ramfs_open_read_witness:
  "\<exists>s1 s2 s3. vfs_mount_fs (seekos_ops null_env) [SLASH] [0x72, 0x61, 0x6D, 0x66, 0x73]
       (fs_init null_env (Some (archive demo_tar @ [])) (boot_vfs (boot_sys None [] ()))) = Inr (0, s1) \<and>
     vfs_open (seekos_ops null_env) (join_path [[0x62, 0x69, 0x6E], [0x73, 0x68]]) VFS_MODE_READ s1 = Inr (101, s2) \<and>
     vfs_read (seekos_ops null_env) 101 2 s2 = Inr ((0, [1, 2]), s3)"
proof -
  have c: "foldl child_path [] [[0x62, 0x69, 0x6E], [0x73, 0x68]] = [0x62, 0x69, 0x6E, 0x2F, 0x73, 0x68]"
    "child_path [] [0x62, 0x69, 0x6E] = [0x62, 0x69, 0x6E]" "child_path [0x62, 0x69, 0x6E] [0x73, 0x68] = [0x62, 0x69, 0x6E, 0x2F, 0x73, 0x68]"
    by (simp_all add: child_path_def SLASH_def)
  have "length (archive demo_tar @ []) < 2 ^ 31" using demo_archive_length by simp
  moreover have "members_along demo_tar [] [[0x62, 0x69, 0x6E], [0x73, 0x68]]" using demo_tar_at c by simp
  moreover have "tm_data demo_sh = [1, 2, 3]" by (simp add: demo_sh_def)
  ultimately show ?thesis
    using ramfs_open_read [OF demo_members_ok, of "[]" "[[0x62, 0x69, 0x6E], [0x73, 0x68]]" 1536 demo_sh 2 null_env "boot_sys None [] ()" VFS_MODE_READ] c(1) demo_tar_at(2)
    by (simp add: tail_ok_def plain_comp_def comp_ok_def DOT_def SLASH_def)
qed

text \<open>C28: A path that is not in the archive is not reported as missing: \<^verbatim>\<open>ramfs_lookup\<close> returns the new entry also when
  nothing was found, and \<^verbatim>\<open>vfs_resolve_path\<close> then follows its null inode, so opening it is a null pointer
  access instead of the error code.\<close>

theorem ramfs_missing_faults:
  fixes x :: "'d sys"
  assumes ms: "\<forall>m \<in> set ms. member_ok m" "tail_ok t" "length (archive ms @ t) < 2 ^ 31"
    and c: "plain_comp c" "length c < 128" "member_at 0 c ms = None"
  shows "\<exists>s1. vfs_mount_fs (seekos_ops E) [SLASH] [0x72, 0x61, 0x6D, 0x66, 0x73] (fs_init E (Some (archive ms @ t)) (boot_vfs x)) = Inr (0, s1) \<and>
     vfs_open (seekos_ops E) (SLASH # c) mode s1 = Inl NullDeref"
proof -
  obtain s1 where s1: "vfs_mount_fs (seekos_ops E) [SLASH] [0x72, 0x61, 0x6D, 0x66, 0x73] (fs_init E (Some (archive ms @ t)) (boot_vfs x)) = Inr (0, s1)"
    "vfs_root s1 = 1" "sbs s1 1 = Some \<lparr>s_root = 2, s_fs = RAMFS\<rparr>" "ram_entry ms (archive ms @ t) s1 2 []" "inodes s1 0 = None"
    using mount_ram [of E "archive ms @ t" x ms] by auto
  have ok: "comp_ok c" "c \<noteq> []" "0 \<notin> set (SLASH # c)" using c(1) by (auto simp: plain_comp_def comp_ok_def SLASH_def)
  have "vfs_next_path (pad (SLASH # c)) (pad []) True = Inr (True, pad [], pad c)"
    using vfs_next_path_pad [of "SLASH # c" "pad []"] next_of_join [of "SLASH # c" c "[]"] ok c(2) by (simp add: no_root_def length_pad)
  moreover have "buf_str (pad c) = c" using ok(1) by (simp add: buf_str_pad comp_ok_def)
  moreover obtain s2 where "resolve_child (seekos_ops E) 2 c s1 = Inr (next_addr s1, s2)" "cross_mount (next_addr s1) s2 = Inl NullDeref"
    using missing_child_ram [OF ms s1(4,5), of c E] c ok(2) by auto
  moreover have "next_addr s1 \<noteq> 0" using s1(4) by (auto simp: ram_entry_def)
  ultimately have "resolve_loop (seekos_ops E) (pad (SLASH # c)) (pad []) 0 2 s1 = Inl NullDeref"
    using c(1) by (subst resolve_loop.simps) (simp add: plain_comp_def)
  then have "vfs_open (seekos_ops E) (SLASH # c) mode s1 = Inl NullDeref"
    using s1 c(2) ok(2) by (simp add: vfs_open_def vfs_resolve_path_def VFS_MAX_PATH_LENGTH_def)
  then show ?thesis using s1(1) by blast
qed

theorem ramfs_missing_faults_witness:
  "\<exists>s1. vfs_mount_fs (seekos_ops null_env) [SLASH] [0x72, 0x61, 0x6D, 0x66, 0x73]
       (fs_init null_env (Some (archive demo_tar @ [])) (boot_vfs (boot_sys None [] ()))) = Inr (0, s1) \<and>
     vfs_open (seekos_ops null_env) (SLASH # [0x78]) VFS_MODE_READ s1 = Inl NullDeref"
proof -
  have "length (archive demo_tar @ []) < 2 ^ 31" using demo_archive_length by simp
  then show ?thesis
    using ramfs_missing_faults [OF demo_members_ok, of "[]" "[0x78]" null_env "boot_sys None [] ()" VFS_MODE_READ] demo_tar_at(3)
    by (simp add: tail_ok_def plain_comp_def comp_ok_def DOT_def SLASH_def)
qed

end
