(* ===== verification/Spec2Isabelle.thy ===== *)
theory Spec2Isabelle
  imports SlabTheorems FatMountTheorems Print FsTheorems
begin

text \<open>
  Verification of the seekos kernel and its user library.

  \<^bold>\<open>The program.\<close>  seekos is a 64-bit kernel in C.  At boot \<^verbatim>\<open>pmm_init\<close> turns the memory map of the boot
  loader into a buddy system of page frames.  The kernel then mounts three file systems behind a
  virtual file system: a FAT32 volume on an ATA disk at the root, the terminal on \<^verbatim>\<open>/dev/ttyfs\<close> and a USTAR archive
  in memory on \<^verbatim>\<open>/dev/ramfs\<close>.  Keyboard interrupts become events that the terminal collects into lines; what is
  written to it goes through the text terminal to the framebuffer.  A library of memory, string and
  printing functions serves the kernel and, in a second copy, the user programs.

  \<^bold>\<open>Conventions.\<close>  A w-bit integer of the source is a word of w bits and wraps as it does there; an
  \<^verbatim>\<open>int\<close> that only carries small values or error codes is an integer.  A function that returns an error code
  and changes a state is a function in one of the two monads of \<open>Prelude\<close>: \<open>cm\<close> keeps the state when
  the code fails, as the FAT32 driver does; \<open>km\<close> ends in a \<open>fault\<close> when the kernel panics, follows a null
  pointer, leaves an array or does not return.  A loop is a recursive function.  Where a loop of
  the source can run for ever (a cyclic cluster chain, a header of negative size), the function has
  fuel, and running out of it is a value of its own.

  \<^bold>\<open>Memory.\<close>
  \<^item> \<open>LinkedList\<close>: \<^verbatim>\<open>base/linkedlist.c\<close>, pointer stores on a heap of links.  Each operation refines the
    operation on the abstract list; the locale of queues is interpreted on it.
  \<^item> \<open>PMM\<close>, \<open>Buddy\<close>, \<open>Boot\<close>: \<^verbatim>\<open>mm/pmm.c\<close>.  \<open>PMM\<close> holds bitmap, page database, free rings and every allocation
    function; \<open>Buddy\<close> proves that the free blocks stay aligned, disjoint and fully merged, that an
    allocation takes exactly one block of free frames and that freeing gives it back, for every
    sequence of calls; \<open>Boot\<close> that \<^verbatim>\<open>pmm_init\<close> establishes this state from the memory map, with the bitmap and the
    page database apart from each other and from every free frame.
  \<^item> \<open>Paging\<close>, \<open>Ptm\<close>, \<open>PtmMap\<close>, \<open>Vmm\<close>: \<^verbatim>\<open>mm/ptm.c\<close> and the page part of \<^verbatim>\<open>mm/vmm.c\<close>.  \<open>Paging\<close> has physical memory
    as words of frames, the walk of the processor through four levels, and reads and writes of virtual
    addresses by that walk; the code reaches its tables only through the recursive slot, and the
    lemma \<open>walk_ent\<close> says which entry such an address is.  \<open>Ptm\<close> has the functions and the
    invariant (the tables form a tree and no table is a free frame); \<open>PtmMap\<close> proves what they do to
    it; \<open>Vmm\<close> states the result as translations of addresses.  Caches of translations, large
    pages and access rights are not part of the model.
  \<^item> \<open>DirectMap\<close>, \<open>Slab\<close>, \<open>SlabInv\<close>, \<open>SlabOps\<close>, \<open>SlabAlloc\<close>, \<open>SlabSafe\<close>, \<open>SlabSpec\<close>, \<open>SlabInit\<close>, \<open>SlabTheorems\<close>: the slab caches of \<^verbatim>\<open>mm/vmm.c\<close>.  \<open>DirectMap\<close> reads and writes the words
    of frames at their addresses in the direct mapping; \<open>Slab\<close> has the functions, with the links of
    the free objects in those words; \<open>SlabInv\<close> shows that a new slab is a chain of all its objects,
    \<open>SlabOps\<close> the invariant of all caches and that taking and giving back an object keep it, and
    \<open>SlabAlloc\<close> that a cache grows when it is empty and then has an object to give.  \<open>SlabSafe\<close> has the
    objects in use and the memory an allocation may need, \<open>SlabSpec\<close> the calls on the list of caches, \<open>SlabInit\<close>
    the caches \<^verbatim>\<open>slab_init\<close> makes, and \<open>SlabTheorems\<close> what a client of the allocator can rely on: objects in use
    stay apart, keep what was stored in them and can be freed, whatever the sequence of calls.

  \<^bold>\<open>The FAT32 driver, \<^verbatim>\<open>fs/fat32.c\<close>.\<close>  The volume sees its disk through two callbacks; the locale \<open>disk\<close> states
  what a disk promises, and \<open>Ata\<close> (\<^verbatim>\<open>device/storage/ata.c\<close>) is shown to be one, on a channel with two devices, transfer
  counts and busy times that the driver has to poll away.
  \<^item> \<open>FatDisk\<close>: the sector buffer; what the volume shows is changed by explicit stores only.
  \<^item> \<open>FatTable\<close>, \<open>FatChain\<close>, \<open>FatTheorems\<close>: table entries, chains of clusters, freeing and growing them.
  \<^item> \<open>FatNames\<close>, \<open>FatDir\<close>, \<open>FatWalk\<close>, \<open>FatSearch\<close>, \<open>FatAdd\<close>, \<open>FatDirTheorems\<close>: names, the directory cursor, and directories
    as lists of items; searching finds the first match, adding puts in one item, and an item that
    is added is found and can be removed again.
  \<^item> \<open>FatFile\<close>, \<open>FatFileOps\<close>, \<open>FatFileTheorems\<close>: open files.  The bytes a file shows are read, replaced and made
    durable by reading, writing and synchronising.
  \<^item> \<open>FatMount\<close>, \<open>FatApi\<close>, \<open>FatMountTheorems\<close>: partition table, boot sector, the list of volumes and the calls
    that take a path.  Mounting establishes the state the theorems above start from, except that the
    data area starts at a multiple of the cluster size (a part of \<open>data_geom\<close>), which it does not check.

  The fuel of the driver is the field \<open>fuel\<close> of its environment, handed to each loop over a chain or a
  directory.  The theorems ask for as much as the chain is long (a chain without repetition has at
  most as many clusters as the volume), and \<open>remove_chain_total\<close> shows that this is enough for any table
  whatever.  Inside \<^verbatim>\<open>fat_file_write\<close> a seek that runs out of fuel ends the write with its code; the
  theorems on writing have enough of it.

  \<^bold>\<open>The file systems.\<close>
  \<^item> \<open>VFS\<close>: all of \<^verbatim>\<open>fs/vfs.c\<close> on a typed heap of directory entries, inodes, superblocks and open files.  The
    tables of operations are a parameter.
  \<^item> \<open>VFSInv\<close>, \<open>VFSOpen\<close>: well-formed states, the locales \<open>file_system\<close> and \<open>vfs_tables\<close> with what a file system has to
    keep, and that each call of the virtual file system then keeps the objects well-formed (\<open>VFSInv\<close>) and every
    open file in the list of one task (\<open>VFSOpen\<close>).
  \<^item> \<open>FsState\<close>: the private data of the three file systems.  \<open>TtyFS\<close> (\<^verbatim>\<open>fs/ttyfs.c\<close>), \<open>RamFS\<close> (\<^verbatim>\<open>fs/ramfs.c\<close>) and
    \<open>FatVfs\<close> (the last part of \<^verbatim>\<open>fs/fat32.c\<close>) define the operations and interpret \<open>file_system\<close>.
  \<^item> \<open>RamArchive\<close>: the image of an archive written down independently of the scan, and what the scan
    finds in it.  The scan advances by multiples of 512 bytes, so one step for each 512 bytes of the
    archive and one more is all the fuel it can use.
  \<^item> \<open>FsTheorems\<close>: the table of the kernel and the mounts of \<^verbatim>\<open>main.c\<close>; every sequence of calls keeps the
    state well-formed, and a file opened by its path and read gives the bytes of the archive.

  \<^bold>\<open>Console.\<close>  \<open>Keyboard\<close> (\<^verbatim>\<open>device/keyboard\<close>): tables and scan code machine.  \<open>Term\<close> (\<^verbatim>\<open>device/display/term.c\<close>): cursor,
  colours, scrolling and the calls of the framebuffer.

  \<^bold>\<open>Library.\<close>  \<open>KLib\<close>: \<^verbatim>\<open>lib/kmemory.c\<close>, \<^verbatim>\<open>lib/kstring.c\<close> and \<^verbatim>\<open>libc/string.c\<close>.  \<open>Print\<close>: \<^verbatim>\<open>log/kprint.c\<close>, \<^verbatim>\<open>log/klog.c\<close> and
  \<^verbatim>\<open>libc/print.c\<close>; every store has the capacity of its buffer to respect, and a number printed is scanned
  back.

  \<^bold>\<open>Not modelled.\<close>
  \<^item> The page tables made before the switch to them, virtual memory areas, tasks, scheduler, events, system calls and the program
    loader: the other parts use \<^verbatim>\<open>kmalloc\<close> as an allocation that does not fail and take the
    events delivered to a reader as an input.
  \<^item> Locks: each operation is one step, as under its lock.
  \<^item> Interrupt controllers, timers, descriptor tables, processors, the framebuffer's pixels and the
    serial port: register accesses whose meaning is that of the hardware.
  \<^item> Assembly, the user programs, the system call wrappers, and \<^verbatim>\<open>src/old\<close>, which is deprecated and not built.
\<close>

end
